(* ===== verification/Pb_Prelude.thy ===== *)
theory Pb_Prelude
  imports Main "HOL-Library.Word"
begin

text \<open>
  Shared vocabulary of the development: the names of the machine types of the LP64 platforms
  the pods are built for, the little-endian reading and writing of integers as byte lists,
  base-128 integers, sequencing of C calls that return a status, and the generic facts on words and lists
  that the component theories use.

  The collection \<open>stream_simps\<close> gathers the equations by which simplification steps
  through a successful stream operation; \<open>word_conv\<close> gathers the rules that move
  statements on machine words to natural numbers.
\<close>

unbundle bit_operations_syntax

named_theorems stream_simps
named_theorems word_conv

type_synonym byte = "8 word"
type_synonym addr = "64 word"
type_synonym size_t = "64 word"
type_synonym uint8 = "8 word"
type_synonym uint16 = "16 word"
type_synonym uint32 = "32 word"
type_synonym uint64 = "64 word"
type_synonym errmsg = "string option"

section \<open>Sequencing of status-returning calls\<close>

text \<open>
  The idiom \<open>if (!f(s)) return false; g(s)\<close> on explicitly passed state: the second
  call runs only when the first one returned true, and a failure is returned as it is.
\<close>

definition and_then :: "bool \<times> 's \<Rightarrow> ('s \<Rightarrow> bool \<times> 's) \<Rightarrow> bool \<times> 's" where
  "and_then r f = (if fst r then f (snd r) else r)"

lemma and_then_True [simp]: "and_then (True, s) f = f s"
  by (simp add: and_then_def)

lemma and_then_False [simp]: "and_then (False, s) f = (False, s)"
  by (simp add: and_then_def)

lemma and_then_ok: "fst (and_then r f) \<longleftrightarrow> fst r \<and> fst (f (snd r))"
  by (simp add: and_then_def)

lemma and_thenE:
  assumes "and_then r f = (True, t)"
  obtains s where "r = (True, s)" and "f s = (True, t)"
  using assms by (cases r) (auto simp: and_then_def split: if_splits)

text \<open>The same for calls that may have no result (a loop bound was reached, or the C code has no
  defined behaviour).\<close>

definition seq_call ::
  "(bool \<times> 's) option \<Rightarrow> ('s \<Rightarrow> (bool \<times> 's) option) \<Rightarrow> (bool \<times> 's) option" where
  "seq_call r f =
     (case r of None \<Rightarrow> None | Some (ok, s) \<Rightarrow> if ok then f s else Some (False, s))"

lemma seq_call_simps [simp]:
  "seq_call None f = None"
  "seq_call (Some (True, s)) f = f s"
  "seq_call (Some (False, s)) f = Some (False, s)"
  by (simp_all add: seq_call_def)

lemma seq_call_Some: "seq_call (Some r) (\<lambda>s. Some (f s)) = Some (and_then r f)"
  by (cases r) (auto simp: seq_call_def and_then_def)

section \<open>Integers as little-endian byte lists\<close>

text \<open>\<open>to_bytes n w\<close> lists the \<open>n\<close> low bytes of a word, least significant first;
  \<open>of_bytes\<close> assembles them again.\<close>

definition to_bytes :: "nat \<Rightarrow> 'a::len word \<Rightarrow> byte list" where
  "to_bytes n w = map (\<lambda>i. ucast (drop_bit (8 * i) w)) [0..<n]"

primrec of_bytes :: "byte list \<Rightarrow> 'a::len word" where
  "of_bytes [] = 0"
| "of_bytes (b # bs) = ucast b OR push_bit 8 (of_bytes bs)"

lemma length_to_bytes [simp]: "length (to_bytes n w) = n"
  by (simp add: to_bytes_def)

lemma nth_to_bytes: "i < n \<Longrightarrow> to_bytes n w ! i = ucast (drop_bit (8 * i) w)"
  by (simp add: to_bytes_def)

lemma bit_of_bytes:
  "bit (of_bytes bs :: 'a::len word) k \<longleftrightarrow>
     k < LENGTH('a) \<and> k < 8 * length bs \<and> bit (bs ! (k div 8)) (k mod 8)"
proof (induction bs arbitrary: k)
  case Nil
  then show ?case by simp
next
  case (Cons b bs)
  show ?case
  proof (cases "k < 8")
    case True
    then show ?thesis by (auto simp: bit_simps)
  next
    case False
    have "\<not> bit b k"
      using False bit_imp_le_length [of b k] by fastforce
    moreover have "k div 8 = Suc ((k - 8) div 8)" and "k mod 8 = (k - 8) mod 8"
      using False by (simp_all add: le_div_geq le_mod_geq)
    ultimately show ?thesis
      using False Cons.IH [of "k - 8"] by (auto simp: bit_simps)
  qed
qed

lemma of_bytes_append: "of_bytes (xs @ ys) = of_bytes xs OR push_bit (8 * length xs) (of_bytes ys)"
  by (induction xs) (simp_all add: push_bit_or or.assoc ac_simps)

lemma of_bytes_to_bytes:
  "LENGTH('a::len) \<le> 8 * n \<Longrightarrow> of_bytes (to_bytes n w) = (w :: 'a word)"
  by (rule bit_word_eqI) (auto simp: bit_of_bytes nth_to_bytes bit_simps)

lemma of_bytes_to_bytes_ucast:
  "of_bytes (to_bytes n (w :: 'b::len word)) = (take_bit (8 * n) (ucast w) :: 'a::len word)"
  by (rule bit_word_eqI) (auto simp: bit_of_bytes nth_to_bytes bit_simps dest: bit_imp_le_length)

lemma to_bytes_of_bytes:
  assumes "8 * length bs \<le> LENGTH('a::len)"
  shows "to_bytes (length bs) (of_bytes bs :: 'a word) = bs"
proof (rule nth_equalityI)
  fix i assume i: "i < length (to_bytes (length bs) (of_bytes bs :: 'a word))"
  show "to_bytes (length bs) (of_bytes bs :: 'a word) ! i = bs ! i"
  proof (rule bit_word_eqI)
    fix k assume k: "k < LENGTH(8)"
    then have "(8 * i + k) div 8 = i" and "(8 * i + k) mod 8 = k" by simp_all
    with i k assms show
      "bit (to_bytes (length bs) (of_bytes bs :: 'a word) ! i) k = bit (bs ! i) k"
      by (auto simp: nth_to_bytes bit_simps bit_of_bytes)
  qed
qed simp

section \<open>Word arithmetic\<close>

lemma unat_add_no_wrap [word_conv]:
  fixes a b :: "'a::len word"
  shows "unat a + unat b < 2 ^ LENGTH('a) \<Longrightarrow> unat (a + b) = unat a + unat b"
  by (simp add: unat_word_ariths)

lemma unat_sub_le [word_conv]:
  fixes a b :: "'a::len word"
  shows "b \<le> a \<Longrightarrow> unat (a - b) = unat a - unat b"
  by (rule unat_sub)

lemma unat_of_nat_size [word_conv]:
  "n < 2 ^ LENGTH('a::len) \<Longrightarrow> unat (of_nat n :: 'a word) = n"
  by (simp add: unat_of_nat)

lemma unat_dec:
  fixes a :: "'a::len word"
  assumes "a \<noteq> 0"
  shows "unat (a - 1) = unat a - 1"
  using assms by (simp add: unat_minus_one)

lemma unat_less_pow [simp]: "unat (a :: 'a::len word) < 2 ^ LENGTH('a)"
  by (rule unsigned_less)

lemma unat_less_64: "unat (a :: size_t) < 2 ^ 64"
  using unat_less_pow [of a] by simp

lemma unat_add_le:
  fixes a b :: "'a::len word"
  shows "unat (a + b) \<le> unat a + unat b"
  by (simp add: unat_word_ariths)

lemma add_overflow_iff:
  fixes a b :: size_t
  shows "unat (a + b) = (unat a + unat b) mod 2 ^ 64"
  by (simp add: unat_word_ariths)

section \<open>Low bits and shifted parts\<close>

lemma mask7: "(0x7F :: 'a::len word) = mask 7"
  by (simp add: mask_eq_exp_minus_1)

lemma and_7F: "(w :: 'a::len word) AND 0x7F = take_bit 7 w"
  by (simp add: mask7 take_bit_eq_mask)

lemma and_FF: "(w :: 'a::len word) AND 0xff = take_bit 8 w"
  by (simp add: take_bit_eq_mask mask_eq_exp_minus_1)

lemma ucast_and_FF [simp]: "(ucast ((w :: 'a::len word) AND 0xff) :: byte) = ucast w"
  by (rule bit_word_eqI) (simp add: and_FF bit_simps)

lemma unat_take_bit: "unat (take_bit n (w :: 'a::len word)) = unat w mod 2 ^ n"
  by (subst unsigned_take_bit_eq) (rule take_bit_eq_mod)

lemma unat_drop_bit: "unat (drop_bit n (w :: 'a::len word)) = unat w div 2 ^ n"
  by (subst unsigned_drop_bit_eq) (simp add: drop_bit_eq_div take_bit_nat_eq_self)

lemma unat_and_7F: "unat ((w :: 'a::len word) AND 0x7F) = unat w mod 128"
  by (simp add: and_7F unat_take_bit)

lemma bit_128: "bit (0x80 :: 'a::len word) n \<longleftrightarrow> n = 7 \<and> 7 < LENGTH('a)"
  using bit_exp_iff [of 7 n, where 'a = "'a word"] by auto

lemma high_bit_iff: "(b :: byte) AND 0x80 \<noteq> 0 \<longleftrightarrow> 128 \<le> unat b"
proof -
  have "b AND 0x80 \<noteq> 0 \<longleftrightarrow> bit b 7"
    using bit_iff_and_push_bit_not_eq_0 [of b 7] by simp
  also have "\<dots> \<longleftrightarrow> bit (unat b) 7" by (simp add: bit_unsigned_iff)
  also have "\<dots> \<longleftrightarrow> odd (unat b div 128)" by (simp add: bit_iff_odd)
  also have "\<dots> \<longleftrightarrow> 128 \<le> unat b"
    using unat_less_pow [of b] by (cases "128 \<le> unat b") (simp_all add: le_div_geq)
  finally show ?thesis .
qed

lemma unat_ucast_byte: "unat (ucast (b :: byte) :: 'a::len word) = unat b mod 2 ^ LENGTH('a)"
  by (simp add: unsigned_ucast_eq take_bit_eq_mod)

lemma unat_or_push_bit:
  fixes r w :: "'a::len word"
  assumes "unat r < 2 ^ k" and "unat r + 2 ^ k * unat w < 2 ^ LENGTH('a)"
  shows "unat (r OR push_bit k w) = unat r + 2 ^ k * unat w"
proof -
  have "2 ^ k * unat w < 2 ^ LENGTH('a)" using assms(2) by simp
  then have p: "unat (push_bit k w) = 2 ^ k * unat w"
    by (subst unsigned_push_bit_eq) (simp add: take_bit_eq_mod push_bit_eq_mult mult.commute)
  have "take_bit k r = r" using assms(1) by (intro word_unat_eq_iff [THEN iffD2]) (simp add: unat_take_bit)
  then have "\<not> bit r n \<or> \<not> bit (push_bit k w) n" for n
    by (metis bit_push_bit_iff bit_take_bit_iff leD)
  then have "r OR push_bit k w = r + push_bit k w" by (rule disjunctive_add [symmetric])
  with p assms(2) show ?thesis by (simp add: unat_add_no_wrap)
qed

section \<open>Base-128 notation\<close>

text \<open>The variable-length integers of protocol buffers and of leveldb: seven bits per byte, least
  significant group first, the high bit set in all bytes but the last.\<close>

fun varint_spec :: "nat \<Rightarrow> byte list" where
  "varint_spec n = (if n < 128 then [of_nat n] else of_nat (n mod 128 + 128) # varint_spec (n div 128))"

declare varint_spec.simps [simp del]

lemma varint_spec_small: "n < 128 \<Longrightarrow> varint_spec n = [of_nat n]"
  by (simp add: varint_spec.simps)

lemma varint_spec_large:
  "128 \<le> n \<Longrightarrow> varint_spec n = of_nat (n mod 128 + 128) # varint_spec (n div 128)"
  by (subst varint_spec.simps) simp

lemma varint_spec_neq_Nil [simp]: "varint_spec n \<noteq> []"
  by (subst varint_spec.simps) simp

lemma length_varint_spec_le: "n < 128 ^ k \<Longrightarrow> 0 < k \<Longrightarrow> length (varint_spec n) \<le> k"
proof (induction n arbitrary: k rule: varint_spec.induct)
  case (1 n)
  show ?case
  proof (cases "n < 128")
    case True
    with "1.prems" show ?thesis by (simp add: varint_spec_small)
  next
    case False
    with "1.prems" obtain k' where k: "k = Suc k'" "0 < k'"
      by (cases k; cases "k - 1") auto
    have "n div 128 < 128 ^ k'" using "1.prems"(1) k(1) by (simp add: less_mult_imp_div_less mult.commute)
    from "1.IH" [OF False this k(2)] False k show ?thesis by (simp add: varint_spec_large)
  qed
qed

lemma length_varint_64: "length (varint_spec (unat (v :: uint64))) \<le> 10"
proof (rule length_varint_spec_le)
  have "unat v < 2 ^ 64" by (rule unat_less_64)
  also have "\<dots> \<le> (128 :: nat) ^ 10" by simp
  finally show "unat v < 128 ^ 10" .
qed simp

lemma high_bit_of_nat: "n < 256 \<Longrightarrow> (of_nat n :: byte) AND 0x80 \<noteq> 0 \<longleftrightarrow> 128 \<le> n"
  by (simp only: high_bit_iff) (simp add: unat_of_nat)

lemma unat_of_nat_byte: "n < 256 \<Longrightarrow> unat (of_nat n :: byte) = n"
  by (simp add: unat_of_nat)

lemma low7_of_nat: "n < 256 \<Longrightarrow> unat ((of_nat n :: byte) AND 0x7F) = n mod 128"
  by (simp add: unat_and_7F unat_of_nat_byte)

lemma group_less:
  assumes "(r :: nat) < 2 ^ k"
  shows "r + 2 ^ k * (n mod 128) < 2 ^ (k + 7)"
proof -
  have "n mod 128 \<le> 127" using mod_less_divisor [of 128 n] by linarith
  then have "2 ^ k * (n mod 128) \<le> 2 ^ k * 127" by (rule mult_le_mono2)
  moreover have "(2 :: nat) ^ (k + 7) = 2 ^ k * 127 + 2 ^ k" by (simp add: power_add)
  ultimately show ?thesis using assms by linarith
qed

lemma group_total: "r + 2 ^ k * (n mod 128) + 2 ^ (k + 7) * (n div 128) = r + 2 ^ k * (n :: nat)"
proof -
  have "2 ^ k * n = 2 ^ k * (n mod 128 + 128 * (n div 128))" by simp
  then show ?thesis by (simp only: distrib_left power_add mult.assoc) simp
qed

text \<open>One group of seven bits added to what has been decoded so far.\<close>

lemma unat_add_group:
  fixes r :: "'a::len word"
  assumes "unat r < 2 ^ k" and "unat r + 2 ^ k * (n mod 128) < 2 ^ LENGTH('a)"
    and "b = of_nat (n mod 128) \<or> b = of_nat (n mod 128 + 128)" and "8 \<le> LENGTH('a)"
  shows "unat (r OR push_bit k (ucast ((b :: byte) AND 0x7F))) = unat r + 2 ^ k * (n mod 128)"
proof -
  have b: "unat (b AND 0x7F) = n mod 128"
    using assms(3) by (auto simp: unat_and_7F unat_of_nat unat_word_ariths)
  have "(128::nat) \<le> 2 ^ LENGTH('a)"
    using power_increasing [OF assms(4), of "2::nat"] by simp
  then have "n mod 128 < 2 ^ LENGTH('a)"
    using mod_less_divisor [of 128 n] by linarith
  then have "unat (ucast (b AND 0x7F) :: 'a word) = n mod 128"
    by (simp add: unat_ucast_byte b)
  with unat_or_push_bit [OF assms(1), of "ucast (b AND 0x7F)"] assms(2) show ?thesis by simp
qed

lemma group_last:
  fixes r :: "'a::len word"
  assumes "n < 128" and "unat r < 2 ^ k" and "unat r + 2 ^ k * n < 2 ^ LENGTH('a)"
    and "8 \<le> LENGTH('a)"
  shows "r OR push_bit k (ucast ((of_nat n :: byte) AND 0x7F)) = of_nat (unat r + 2 ^ k * n)"
proof -
  have "unat (r OR push_bit k (ucast ((of_nat n :: byte) AND 0x7F))) = unat r + 2 ^ k * n"
    using unat_add_group [of r k n "of_nat n"] assms by simp
  then show ?thesis by (metis of_nat_unat ucast_id)
qed

lemma group_step:
  fixes r :: "'a::len word" and bitpos :: "'b::len word"
  defines "k \<equiv> unat bitpos" and "r' \<equiv> \<lambda>n. r OR push_bit (unat bitpos)
    (ucast ((of_nat (n mod 128 + 128) :: byte) AND 0x7F))"
  assumes n: "128 \<le> n" and r: "unat r < 2 ^ k"
    and fits: "unat r + 2 ^ k * n < 2 ^ LENGTH('a)" and len: "8 \<le> LENGTH('a)" "LENGTH('a) \<le> 64" "8 \<le> LENGTH('b)"
  shows "k + 7 < LENGTH('a)" and "unat (bitpos + 7) = k + 7"
    and "unat (r' n) < 2 ^ unat (bitpos + 7)"
    and "unat (r' n) + 2 ^ unat (bitpos + 7) * (n div 128) = unat r + 2 ^ k * n"
proof -
  have "2 ^ (k + 7) \<le> 2 ^ k * n" using n by (simp add: power_add)
  with fits have "(2::nat) ^ (k + 7) < 2 ^ LENGTH('a)" by linarith
  then show k: "k + 7 < LENGTH('a)" using power_less_imp_less_exp [of 2 "k + 7"] by simp
  have "(256::nat) \<le> 2 ^ LENGTH('b)" using power_increasing [OF len(3), of "2::nat"] by simp
  with k len(2) show bp: "unat (bitpos + 7) = k + 7"
    by (simp add: unat_word_ariths k_def take_bit_eq_mod)
  have "unat r + 2 ^ k * (n mod 128) < 2 ^ LENGTH('a)"
    using fits mult_le_mono2 [OF mod_less_eq_dividend [of n 128], of "2 ^ k"] by linarith
  then have r': "unat (r' n) = unat r + 2 ^ k * (n mod 128)"
    unfolding r'_def k_def [symmetric]
    by (intro unat_add_group) (use r len in \<open>simp_all del: of_nat_add\<close>)
  show "unat (r' n) < 2 ^ unat (bitpos + 7)"
    unfolding r' bp by (rule group_less [OF r])
  show "unat (r' n) + 2 ^ unat (bitpos + 7) * (n div 128) = unat r + 2 ^ k * n"
    unfolding r' bp by (rule group_total)
qed

lemma continuation_bit: "(of_nat (n mod 128 + 128) :: byte) AND 0x80 \<noteq> 0"
  using mod_less_divisor [of 128 n] by (subst high_bit_of_nat) linarith+

lemma final_bit: "n < 128 \<Longrightarrow> (of_nat n :: byte) AND 0x80 = 0"
  using high_bit_of_nat [of n] by auto

lemma ucast_of_nat_byte: "n < 128 \<Longrightarrow> ucast (of_nat n :: byte) = (of_nat n :: uint32)"
  by (rule word_unat_eq_iff [THEN iffD2]) (simp add: unat_ucast_byte unat_of_nat)

end
