(* ===== verification/Pb_Types.thy ===== *)
theory Pb_Types
  imports Pb_Prelude
begin

text \<open>
  The data types and constants of \<open>src/ios/Pods/nanopb/pb.h\<close> under the configuration the
  pods are compiled with (\<open>PB_FIELD_32BIT=1 PB_NO_PACKED_STRUCTS=1 PB_ENABLE_MALLOC=1\<close>, so
  \<open>pb_size_t\<close> is a 32-bit integer and 64-bit integers and error messages are enabled).

  A field description \<open>pb_field_t\<close> is a datatype whose selectors are the members of the
  C struct. Its untyped member \<open>ptr\<close> is a sum of what the code stores there: the null
  pointer, the field array of a submessage, or the bytes of a default value. Field
  arrays are therefore finite trees; a descriptor that points back to itself has no value
  here.
\<close>

section \<open>Scalar types\<close>

type_synonym pb_size_t = uint32
type_synonym pb_ssize_t = "32 word"
type_synonym pb_type_t = uint8
type_synonym pb_byte_t = byte

abbreviation (input) PB_SIZE_MAX :: pb_size_t where
  "PB_SIZE_MAX \<equiv> - 1"

abbreviation (input) PB_MAX_REQUIRED_FIELDS :: nat where
  "PB_MAX_REQUIRED_FIELDS \<equiv> 64"

abbreviation (input) sizeof_voidp :: nat where
  "sizeof_voidp \<equiv> 8"

section \<open>Field types\<close>

abbreviation (input) PB_LTYPE_VARINT :: pb_type_t where "PB_LTYPE_VARINT \<equiv> 0x00"
abbreviation (input) PB_LTYPE_UVARINT :: pb_type_t where "PB_LTYPE_UVARINT \<equiv> 0x01"
abbreviation (input) PB_LTYPE_SVARINT :: pb_type_t where "PB_LTYPE_SVARINT \<equiv> 0x02"
abbreviation (input) PB_LTYPE_FIXED32 :: pb_type_t where "PB_LTYPE_FIXED32 \<equiv> 0x03"
abbreviation (input) PB_LTYPE_FIXED64 :: pb_type_t where "PB_LTYPE_FIXED64 \<equiv> 0x04"
abbreviation (input) PB_LTYPE_LAST_PACKABLE :: pb_type_t where "PB_LTYPE_LAST_PACKABLE \<equiv> 0x04"
abbreviation (input) PB_LTYPE_BYTES :: pb_type_t where "PB_LTYPE_BYTES \<equiv> 0x05"
abbreviation (input) PB_LTYPE_STRING :: pb_type_t where "PB_LTYPE_STRING \<equiv> 0x06"
abbreviation (input) PB_LTYPE_SUBMESSAGE :: pb_type_t where "PB_LTYPE_SUBMESSAGE \<equiv> 0x07"
abbreviation (input) PB_LTYPE_EXTENSION :: pb_type_t where "PB_LTYPE_EXTENSION \<equiv> 0x08"
abbreviation (input) PB_LTYPE_FIXED_LENGTH_BYTES :: pb_type_t where
  "PB_LTYPE_FIXED_LENGTH_BYTES \<equiv> 0x09"
abbreviation (input) PB_LTYPE_MASK :: pb_type_t where "PB_LTYPE_MASK \<equiv> 0x0F"

abbreviation (input) PB_HTYPE_REQUIRED :: pb_type_t where "PB_HTYPE_REQUIRED \<equiv> 0x00"
abbreviation (input) PB_HTYPE_OPTIONAL :: pb_type_t where "PB_HTYPE_OPTIONAL \<equiv> 0x10"
abbreviation (input) PB_HTYPE_REPEATED :: pb_type_t where "PB_HTYPE_REPEATED \<equiv> 0x20"
abbreviation (input) PB_HTYPE_ONEOF :: pb_type_t where "PB_HTYPE_ONEOF \<equiv> 0x30"
abbreviation (input) PB_HTYPE_MASK :: pb_type_t where "PB_HTYPE_MASK \<equiv> 0x30"

abbreviation (input) PB_ATYPE_STATIC :: pb_type_t where "PB_ATYPE_STATIC \<equiv> 0x00"
abbreviation (input) PB_ATYPE_POINTER :: pb_type_t where "PB_ATYPE_POINTER \<equiv> 0x80"
abbreviation (input) PB_ATYPE_CALLBACK :: pb_type_t where "PB_ATYPE_CALLBACK \<equiv> 0x40"
abbreviation (input) PB_ATYPE_MASK :: pb_type_t where "PB_ATYPE_MASK \<equiv> 0xC0"

definition PB_ATYPE :: "pb_type_t \<Rightarrow> pb_type_t" where
  "PB_ATYPE x = x AND PB_ATYPE_MASK"

definition PB_HTYPE :: "pb_type_t \<Rightarrow> pb_type_t" where
  "PB_HTYPE x = x AND PB_HTYPE_MASK"

definition PB_LTYPE :: "pb_type_t \<Rightarrow> pb_type_t" where
  "PB_LTYPE x = x AND PB_LTYPE_MASK"

lemmas pb_type_defs = PB_ATYPE_def PB_HTYPE_def PB_LTYPE_def

section \<open>Wire types\<close>

text \<open>The C enum is an integer: the decoder casts any value of three bits to it.\<close>

type_synonym pb_wire_type_t = uint32

abbreviation (input) PB_WT_VARINT :: pb_wire_type_t where "PB_WT_VARINT \<equiv> 0"
abbreviation (input) PB_WT_64BIT :: pb_wire_type_t where "PB_WT_64BIT \<equiv> 1"
abbreviation (input) PB_WT_STRING :: pb_wire_type_t where "PB_WT_STRING \<equiv> 2"
abbreviation (input) PB_WT_32BIT :: pb_wire_type_t where "PB_WT_32BIT \<equiv> 5"

section \<open>Field descriptions\<close>

datatype pb_field =
  PbField (f_tag: pb_size_t) (f_type: pb_type_t) (f_data_offset: pb_size_t)
    (f_size_offset: pb_ssize_t) (f_data_size: pb_size_t) (f_array_size: pb_size_t)
    (f_ptr: pb_ptr)
and pb_ptr = PtrNull | PtrFields "pb_field list" | PtrDefault "byte list"

definition PB_LAST_FIELD :: pb_field where
  "PB_LAST_FIELD = PbField 0 0 0 0 0 0 PtrNull"

text \<open>The pointer read as the field array of a submessage, and as a default value.\<close>

fun ptr_fields :: "pb_ptr \<Rightarrow> pb_field list" where
  "ptr_fields (PtrFields fs) = fs"
| "ptr_fields _ = [PB_LAST_FIELD]"

fun ptr_default :: "pb_ptr \<Rightarrow> byte list" where
  "ptr_default (PtrDefault bs) = bs"
| "ptr_default _ = []"

section \<open>Error messages\<close>

text \<open>\<open>PB_SET_ERROR\<close> keeps the first message.\<close>

definition PB_SET_ERROR :: "errmsg \<Rightarrow> string \<Rightarrow> errmsg" where
  "PB_SET_ERROR e msg = (case e of Some m \<Rightarrow> Some m | None \<Rightarrow> Some msg)"

definition PB_GET_ERROR :: "errmsg \<Rightarrow> string" where
  "PB_GET_ERROR e = (case e of Some m \<Rightarrow> m | None \<Rightarrow> ''(none)'')"

lemma PB_SET_ERROR_simps [simp]:
  "PB_SET_ERROR None msg = Some msg"
  "PB_SET_ERROR (Some m) msg = Some m"
  by (simp_all add: PB_SET_ERROR_def)

lemma PB_SET_ERROR_neq_None [simp]: "PB_SET_ERROR e msg \<noteq> None"
  by (simp add: PB_SET_ERROR_def split: option.splits)

lemma PB_SET_ERROR_Some [simp]: "\<exists>y. PB_SET_ERROR e msg = Some y"
  by (simp add: PB_SET_ERROR_def split: option.splits)

lemma PB_SET_ERROR_idem: "PB_SET_ERROR (PB_SET_ERROR e m) n = PB_SET_ERROR e m"
  by (cases e) simp_all

end
