(* ===== verification/Pb_Memory.thy ===== *)
theory Pb_Memory
  imports Pb_Types
begin

text \<open>
  Memory as the C code sees it. A memory is a total map from 64-bit addresses to bytes;
  integers and pointers are stored little-endian, as on the arm64 and x86-64 targets. A
  heap adds what \<open>pb_realloc\<close> and \<open>pb_free\<close> need: the live blocks with
  their sizes, the addresses the allocator will hand out next (so that
  every placement, and every failure, is one value of the heap), and a flag that records a
  call on a pointer that is not live, which C leaves undefined.
\<close>

type_synonym mem = "addr \<Rightarrow> byte"

section \<open>Loads and stores\<close>

definition load_bytes :: "mem \<Rightarrow> addr \<Rightarrow> nat \<Rightarrow> byte list" where
  "load_bytes m a n = map (\<lambda>i. m (a + of_nat i)) [0..<n]"

definition store_bytes :: "mem \<Rightarrow> addr \<Rightarrow> byte list \<Rightarrow> mem" where
  "store_bytes m a bs = (\<lambda>x. if unat (x - a) < length bs then bs ! unat (x - a) else m x)"

definition load8 :: "mem \<Rightarrow> addr \<Rightarrow> uint8" where
  "load8 m a = of_bytes (load_bytes m a 1)"

definition load16 :: "mem \<Rightarrow> addr \<Rightarrow> uint16" where
  "load16 m a = of_bytes (load_bytes m a 2)"

definition load32 :: "mem \<Rightarrow> addr \<Rightarrow> uint32" where
  "load32 m a = of_bytes (load_bytes m a 4)"

definition load64 :: "mem \<Rightarrow> addr \<Rightarrow> uint64" where
  "load64 m a = of_bytes (load_bytes m a 8)"

definition load_bool :: "mem \<Rightarrow> addr \<Rightarrow> bool" where
  "load_bool m a \<longleftrightarrow> m a \<noteq> 0"

definition store8 :: "mem \<Rightarrow> addr \<Rightarrow> uint8 \<Rightarrow> mem" where
  "store8 m a v = store_bytes m a (to_bytes 1 v)"

definition store16 :: "mem \<Rightarrow> addr \<Rightarrow> uint16 \<Rightarrow> mem" where
  "store16 m a v = store_bytes m a (to_bytes 2 v)"

definition store32 :: "mem \<Rightarrow> addr \<Rightarrow> uint32 \<Rightarrow> mem" where
  "store32 m a v = store_bytes m a (to_bytes 4 v)"

definition store64 :: "mem \<Rightarrow> addr \<Rightarrow> uint64 \<Rightarrow> mem" where
  "store64 m a v = store_bytes m a (to_bytes 8 v)"

definition store_bool :: "mem \<Rightarrow> addr \<Rightarrow> bool \<Rightarrow> mem" where
  "store_bool m a b = store_bytes m a [if b then 1 else 0]"

lemmas load_defs = load8_def load16_def load32_def load64_def
lemmas store_defs = store8_def store16_def store32_def store64_def store_bool_def

section \<open>Regions\<close>

text \<open>The addresses of \<open>n\<close> bytes from \<open>a\<close> on, modulo the address space.\<close>

definition region :: "addr \<Rightarrow> nat \<Rightarrow> addr set" where
  "region a n = {x. unat (x - a) < n}"

text \<open>\<open>same_outside S m m'\<close>: the two memories agree everywhere but on \<open>S\<close>.\<close>

definition same_outside :: "addr set \<Rightarrow> mem \<Rightarrow> mem \<Rightarrow> bool" where
  "same_outside S m m' \<longleftrightarrow> (\<forall>x. x \<notin> S \<longrightarrow> m' x = m x)"

lemma same_outside_refl [simp, intro]: "same_outside S m m"
  by (simp add: same_outside_def)

lemma same_outside_trans [trans]:
  "same_outside S m m' \<Longrightarrow> same_outside S m' m'' \<Longrightarrow> same_outside S m m''"
  by (simp add: same_outside_def)

lemma same_outside_mono: "same_outside S m m' \<Longrightarrow> S \<subseteq> T \<Longrightarrow> same_outside T m m'"
  by (auto simp: same_outside_def)

lemma same_outside_store: "same_outside (region a (length bs)) m (store_bytes m a bs)"
  by (simp add: same_outside_def region_def store_bytes_def)

lemma region_mono: "n \<le> k \<Longrightarrow> region a n \<subseteq> region a k"
  by (auto simp: region_def)

lemma region_offset:
  assumes "unat d + n \<le> k"
  shows "region (a + d) n \<subseteq> region a k"
proof
  fix x assume "x \<in> region (a + d) n"
  then have n: "unat (x - (a + d)) < n" by (simp add: region_def)
  have "x - a = (x - (a + d)) + d" by simp
  then have "unat (x - a) \<le> unat (x - (a + d)) + unat d"
    by (metis unat_add_le)
  with n assms show "x \<in> region a k" by (simp add: region_def)
qed

lemma length_load_bytes [simp]: "length (load_bytes m a n) = n"
  by (simp add: load_bytes_def)

lemma nth_load_bytes [simp]: "i < n \<Longrightarrow> load_bytes m a n ! i = m (a + of_nat i)"
  by (simp add: load_bytes_def)

lemma store_bytes_Nil [simp]: "store_bytes m a [] = m"
  by (simp add: store_bytes_def)

lemma load_store_same:
  assumes "length bs \<le> 2 ^ 64"
  shows "load_bytes (store_bytes m a bs) a (length bs) = bs"
  using assms by (auto intro!: nth_equalityI simp: store_bytes_def unat_of_nat)

lemma load_bytes_cong:
  "(\<And>i. i < n \<Longrightarrow> m (a + of_nat i) = m' (a + of_nat i)) \<Longrightarrow> load_bytes m a n = load_bytes m' a n"
  by (simp add: load_bytes_def)

lemma mem_region: "n \<le> 2 ^ 64 \<Longrightarrow> i < n \<Longrightarrow> a + of_nat i \<in> region a n"
  by (simp add: region_def unat_of_nat)

lemma load_bytes_outside:
  assumes "same_outside S m m'" and "region a n \<inter> S = {}" and "n \<le> 2 ^ 64"
  shows "load_bytes m' a n = load_bytes m a n"
proof (rule load_bytes_cong)
  fix i assume "i < n"
  with assms(3) have "a + of_nat i \<in> region a n" by (simp add: mem_region)
  with assms show "m' (a + of_nat i) = m (a + of_nat i)" by (auto simp: same_outside_def)
qed

lemma load_store_int:
  "load8 (store8 m a v8) a = v8"
  "load16 (store16 m a v16) a = v16"
  "load32 (store32 m a v32) a = v32"
  "load64 (store64 m a v64) a = v64"
proof -
  have *: "load_bytes (store_bytes m a (to_bytes n v)) a n = to_bytes n v"
    if "n \<le> 8" for n and v :: "'a::len word"
    using load_store_same [of "to_bytes n v" m a] that by simp
  show "load8 (store8 m a v8) a = v8" "load16 (store16 m a v16) a = v16"
    "load32 (store32 m a v32) a = v32" "load64 (store64 m a v64) a = v64"
    by (simp_all add: load_defs store_defs * of_bytes_to_bytes)
qed

lemma load_store_bool [simp]: "load_bool (store_bool m a b) a = b"
  by (simp add: load_bool_def store_bool_def store_bytes_def)

section \<open>The allocator\<close>

record pb_heap =
  h_mem :: mem
  h_blocks :: "(addr \<times> nat) list"
  h_choices :: "addr list"
  h_fault :: bool

definition h_upd :: "(mem \<Rightarrow> mem) \<Rightarrow> pb_heap \<Rightarrow> pb_heap" where
  "h_upd f h = h\<lparr>h_mem := f (h_mem h)\<rparr>"

lemma h_upd_sel [simp]:
  "h_mem (h_upd f h) = f (h_mem h)" "h_blocks (h_upd f h) = h_blocks h"
  "h_choices (h_upd f h) = h_choices h" "h_fault (h_upd f h) = h_fault h"
  by (simp_all add: h_upd_def)

text \<open>A block may be placed where it neither holds the null address, nor wraps around the
  address space, nor overlaps a live block.\<close>

definition block_fits :: "(addr \<times> nat) list \<Rightarrow> addr \<Rightarrow> nat \<Rightarrow> bool" where
  "block_fits bl a n \<longleftrightarrow> a \<noteq> 0 \<and> unat a + n \<le> 2 ^ 64 \<and>
     (\<forall>(b, k) \<in> set bl. unat a + n \<le> unat b \<or> unat b + k \<le> unat a)"

text \<open>
  \<open>realloc(ptr, size)\<close>: the next address on offer becomes the new block if it fits beside
  the other live blocks, the common prefix of the contents is copied and the old block dies;
  otherwise the result is the null pointer and nothing changes. Reallocating a pointer that is
  neither null nor live is recorded as a fault.
\<close>

definition pb_realloc :: "pb_heap \<Rightarrow> addr \<Rightarrow> size_t \<Rightarrow> addr \<times> pb_heap" where
  "pb_realloc h p n =
     (if p \<noteq> 0 \<and> map_of (h_blocks h) p = None then (0, h\<lparr>h_fault := True\<rparr>)
      else case h_choices h of
        [] \<Rightarrow> (0, h)
      | a # cs \<Rightarrow>
          (let others = filter (\<lambda>(b, k). b \<noteq> p) (h_blocks h);
               old = (case map_of (h_blocks h) p of None \<Rightarrow> 0 | Some k \<Rightarrow> k)
           in if block_fits others a (unat n)
              then (a, h\<lparr>h_mem := store_bytes (h_mem h) a
                            (load_bytes (h_mem h) p (min old (unat n))),
                          h_blocks := (a, unat n) # others, h_choices := cs\<rparr>)
              else (0, h\<lparr>h_choices := cs\<rparr>)))"

definition pb_free :: "pb_heap \<Rightarrow> addr \<Rightarrow> pb_heap" where
  "pb_free h p =
     (if p = 0 then h
      else if map_of (h_blocks h) p = None then h\<lparr>h_fault := True\<rparr>
      else h\<lparr>h_blocks := filter (\<lambda>(b, k). b \<noteq> p) (h_blocks h)\<rparr>)"

end
