(* ===== verification/Pb_Ostream.thy ===== *)
theory Pb_Ostream
  imports Pb_Types
begin

text \<open>
  Output streams: \<open>struct pb_ostream_s\<close> of \<open>pb_encode.h\<close> and the functions
  \<open>buf_write\<close>, \<open>pb_ostream_from_buffer\<close> and \<open>pb_write\<close> of \<open>pb_encode.c\<close>.

  The callback of a stream maps the user's state and the bytes to write to a status and a new
  state; a stream whose callback is absent only counts bytes (\<open>PB_OSTREAM_SIZING\<close>). The
  interface a client relies on is the locale \<open>ostream_sink\<close>: a callback that, within its
  room, appends what it is given. The memory buffer of \<open>pb_ostream_from_buffer\<close> is an
  instance. Inside the locale \<open>encodes E bs\<close> says that the encoder \<open>E\<close> emits
  exactly the bytes \<open>bs\<close> on every stream with room for them, counts exactly their number
  on a sizing stream, and fails on a stream without room; it is closed under sequencing.
\<close>

record 's pb_ostream =
  os_callback :: "('s \<Rightarrow> byte list \<Rightarrow> bool \<times> 's) option"
  os_state :: 's
  os_max_size :: size_t
  os_bytes_written :: size_t
  os_errmsg :: errmsg

type_synonym 's encoder = "'s pb_ostream \<Rightarrow> bool \<times> 's pb_ostream"

definition os_error :: "'s pb_ostream \<Rightarrow> string \<Rightarrow> bool \<times> 's pb_ostream" where
  "os_error os msg = (False, os\<lparr>os_errmsg := PB_SET_ERROR (os_errmsg os) msg\<rparr>)"

text \<open>The sizing stream: no callback, no limit. Its state is never looked at.\<close>

definition PB_OSTREAM_SIZING :: "'s \<Rightarrow> 's pb_ostream" where
  "PB_OSTREAM_SIZING s =
     \<lparr>os_callback = None, os_state = s, os_max_size = 0, os_bytes_written = 0, os_errmsg = None\<rparr>"

section \<open>The memory buffer\<close>

text \<open>The state pointer of a buffer stream as the buffer and an index into it.\<close>

record obuf =
  ob_mem :: "byte list"
  ob_pos :: nat

primrec copy_to :: "byte list \<Rightarrow> nat \<Rightarrow> byte list \<Rightarrow> byte list" where
  "copy_to m i [] = m"
| "copy_to m i (b # bs) = copy_to (m[i := b]) (Suc i) bs"

definition buf_write :: "obuf \<Rightarrow> byte list \<Rightarrow> bool \<times> obuf" where
  "buf_write s buf =
     (True, s\<lparr>ob_mem := copy_to (ob_mem s) (ob_pos s) buf, ob_pos := ob_pos s + length buf\<rparr>)"

definition pb_ostream_from_buffer :: "byte list \<Rightarrow> size_t \<Rightarrow> obuf pb_ostream" where
  "pb_ostream_from_buffer buf bufsize =
     \<lparr>os_callback = Some buf_write, os_state = \<lparr>ob_mem = buf, ob_pos = 0\<rparr>,
      os_max_size = bufsize, os_bytes_written = 0, os_errmsg = None\<rparr>"

section \<open>Writing\<close>

definition pb_write :: "'s pb_ostream \<Rightarrow> byte list \<Rightarrow> size_t \<Rightarrow> bool \<times> 's pb_ostream" where
  "pb_write os buf count =
     (case os_callback os of
        None \<Rightarrow> (True, os\<lparr>os_bytes_written := os_bytes_written os + count\<rparr>)
      | Some cb \<Rightarrow>
          if os_bytes_written os + count > os_max_size os then os_error os ''stream full''
          else (case cb (os_state os) (take (unat count) buf) of
                  (ok, s) \<Rightarrow>
                    if \<not> ok then os_error (os\<lparr>os_state := s\<rparr>) ''io error''
                    else (True, os\<lparr>os_state := s,
                                   os_bytes_written := os_bytes_written os + count\<rparr>)))"

section \<open>Facts that need no contract\<close>

lemma os_error_simps [simp]:
  "fst (os_error os msg) = False"
  "os_callback (snd (os_error os msg)) = os_callback os"
  "os_state (snd (os_error os msg)) = os_state os"
  "os_max_size (snd (os_error os msg)) = os_max_size os"
  "os_bytes_written (snd (os_error os msg)) = os_bytes_written os"
  "os_errmsg (snd (os_error os msg)) \<noteq> None"
  by (simp_all add: os_error_def)

lemma os_error_not_ok [simp]: "os_error os msg \<noteq> (True, os')"
  by (simp add: os_error_def)

lemma length_copy_to [simp]: "length (copy_to m i bs) = length m"
  by (induction bs arbitrary: m i) auto

lemma copy_to_split:
  "i + length bs \<le> length m \<Longrightarrow> copy_to m i bs = take i m @ bs @ drop (i + length bs) m"
proof (induction bs arbitrary: m i)
  case Nil
  then show ?case by simp
next
  case (Cons b bs)
  then have i: "i < length m" by simp
  have "copy_to (m[i := b]) (Suc i) bs
      = take (Suc i) (m[i := b]) @ bs @ drop (Suc i + length bs) (m[i := b])"
    using Cons by simp
  also have "take (Suc i) (m[i := b]) = take i m @ [b]"
    using i by (simp add: take_Suc_conv_app_nth)
  finally show ?case by simp
qed

lemma pb_write_sizing [stream_simps]:
  "os_callback os = None \<Longrightarrow>
     pb_write os buf n = (True, os\<lparr>os_bytes_written := os_bytes_written os + n\<rparr>)"
  by (simp add: pb_write_def)

lemma pb_write_keeps:
  assumes "pb_write os buf n = (ok, os')"
  shows "os_callback os' = os_callback os" and "os_max_size os' = os_max_size os"
  using assms
  by (auto simp: pb_write_def os_error_def split: option.splits if_splits prod.splits)

text \<open>A write that reports failure has set an error message, and has not counted the bytes.\<close>

lemma pb_write_failure:
  assumes "pb_write os buf n = (False, os')"
  shows "os_errmsg os' \<noteq> None" and "os_bytes_written os' = os_bytes_written os"
  using assms
  by (auto simp: pb_write_def os_error_def split: option.splits if_splits prod.splits)

section \<open>The sink contract\<close>

locale ostream_sink =
  fixes cb :: "'s \<Rightarrow> byte list \<Rightarrow> bool \<times> 's"
    and out :: "'s \<Rightarrow> byte list"
    and room :: "'s \<Rightarrow> nat"
  assumes sink_write:
    "length bs \<le> room s \<Longrightarrow>
       \<exists>s'. cb s bs = (True, s') \<and> out s' = out s @ bs \<and> room s' = room s - length bs"
begin

text \<open>A stream on this sink whose limit the sink can hold and on which nothing has failed.\<close>

definition os_inv :: "'s pb_ostream \<Rightarrow> bool" where
  "os_inv os \<longleftrightarrow> os_callback os = Some cb \<and> os_errmsg os = None \<and>
     os_bytes_written os \<le> os_max_size os \<and>
     unat (os_max_size os) - unat (os_bytes_written os) \<le> room (os_state os)"

text \<open>\<open>wrote os bs os'\<close>: the second stream is the first one after the bytes were added.\<close>

definition wrote :: "'s pb_ostream \<Rightarrow> byte list \<Rightarrow> 's pb_ostream \<Rightarrow> bool" where
  "wrote os bs os' \<longleftrightarrow>
     (\<exists>s'. os' = os\<lparr>os_state := s',
              os_bytes_written := os_bytes_written os + of_nat (length bs)\<rparr> \<and>
           out s' = out (os_state os) @ bs \<and> room s' = room (os_state os) - length bs \<and>
           os_inv os' \<and>
           unat (os_bytes_written os') = unat (os_bytes_written os) + length bs)"

definition encodes :: "'s encoder \<Rightarrow> byte list \<Rightarrow> bool" where
  "encodes E bs \<longleftrightarrow>
     (\<forall>os. os_callback os = None \<longrightarrow>
        E os = (True, os\<lparr>os_bytes_written := os_bytes_written os + of_nat (length bs)\<rparr>)) \<and>
     (\<forall>os. os_inv os \<longrightarrow> unat (os_bytes_written os) + length bs \<le> unat (os_max_size os) \<longrightarrow>
        (\<exists>os'. E os = (True, os') \<and> wrote os bs os')) \<and>
     (\<forall>os. os_inv os \<longrightarrow> unat (os_max_size os) < unat (os_bytes_written os) + length bs \<longrightarrow>
        unat (os_max_size os) + length bs < 2 ^ 64 \<longrightarrow> \<not> fst (E os))"

lemma wrote_Nil: "os_inv os \<Longrightarrow> wrote os [] os"
  unfolding wrote_def by (rule exI [of _ "os_state os"]) simp

lemma wrote_append:
  assumes "wrote os bs os'" and "wrote os' cs os''"
  shows "wrote os (bs @ cs) os''"
  using assms unfolding wrote_def by (auto simp: add.assoc)

lemma wroteD:
  assumes "wrote os bs os'"
  shows "os_inv os'" and "os_max_size os' = os_max_size os"
    and "out (os_state os') = out (os_state os) @ bs"
    and "unat (os_bytes_written os') = unat (os_bytes_written os) + length bs"
    and "os_errmsg os' = os_errmsg os"
  using assms unfolding wrote_def by auto

lemma pb_write_wrote:
  assumes inv: "os_inv os"
    and fits: "unat (os_bytes_written os) + length bs \<le> unat (os_max_size os)"
  shows "\<exists>os'. pb_write os bs (of_nat (length bs)) = (True, os') \<and> wrote os bs os'"
proof -
  let ?n = "of_nat (length bs) :: size_t"
  have lt: "unat (os_max_size os) < 2 ^ 64" by (rule unat_less_64)
  then have n: "unat ?n = length bs" using fits by (simp add: unat_of_nat)
  have sum: "unat (os_bytes_written os + ?n) = unat (os_bytes_written os) + length bs"
    using fits lt n by (subst unat_add_no_wrap) simp_all
  have "length bs \<le> room (os_state os)" using inv fits unfolding os_inv_def by linarith
  from sink_write [OF this] obtain s' where s':
    "cb (os_state os) bs = (True, s')" "out s' = out (os_state os) @ bs"
    "room s' = room (os_state os) - length bs" by blast
  have "\<not> os_bytes_written os + ?n > os_max_size os"
    using fits sum by (simp add: word_less_nat_alt)
  then have "pb_write os bs ?n
      = (True, os\<lparr>os_state := s', os_bytes_written := os_bytes_written os + ?n\<rparr>)"
    using inv s' n by (simp add: pb_write_def os_inv_def)
  moreover have "os_inv (os\<lparr>os_state := s', os_bytes_written := os_bytes_written os + ?n\<rparr>)"
    using inv fits sum s' by (auto simp: os_inv_def word_le_nat_alt)
  ultimately show ?thesis using s' sum unfolding wrote_def by auto
qed

lemma encodes_write:
  "length bs < 2 ^ 64 \<Longrightarrow> encodes (\<lambda>os. pb_write os bs (of_nat (length bs))) bs"
proof -
  assume len: "length bs < 2 ^ 64"
  have "\<not> fst (pb_write os bs (of_nat (length bs)))"
    if inv: "os_inv os" and full: "unat (os_max_size os) < unat (os_bytes_written os) + length bs"
      and small: "unat (os_max_size os) + length bs < 2 ^ 64" for os
  proof -
    have "unat (os_bytes_written os) \<le> unat (os_max_size os)"
      using inv by (simp add: os_inv_def word_le_nat_alt)
    with small len have "unat (os_bytes_written os + of_nat (length bs))
        = unat (os_bytes_written os) + length bs"
      by (subst unat_add_no_wrap) (simp_all add: unat_of_nat)
    with full have "os_bytes_written os + of_nat (length bs) > os_max_size os"
      by (simp add: word_less_nat_alt)
    with inv show ?thesis by (simp add: pb_write_def os_inv_def)
  qed
  with pb_write_wrote show ?thesis by (auto simp: encodes_def pb_write_sizing)
qed

text \<open>Streams stay within the contract whatever an encoder of the class does.\<close>

lemma encodesD:
  assumes "encodes E bs"
  shows "os_callback os = None \<Longrightarrow>
      E os = (True, os\<lparr>os_bytes_written := os_bytes_written os + of_nat (length bs)\<rparr>)"
    and "os_inv os \<Longrightarrow> unat (os_bytes_written os) + length bs \<le> unat (os_max_size os) \<Longrightarrow>
      \<exists>os'. E os = (True, os') \<and> wrote os bs os'"
    and "os_inv os \<Longrightarrow> unat (os_max_size os) < unat (os_bytes_written os) + length bs \<Longrightarrow>
      unat (os_max_size os) + length bs < 2 ^ 64 \<Longrightarrow> \<not> fst (E os)"
  using assms unfolding encodes_def by blast+

lemma encodes_seq:
  assumes E: "encodes E bs" and F: "encodes F cs"
  shows "encodes (\<lambda>os. and_then (E os) F) (bs @ cs)"
proof -
  have "\<exists>os'. and_then (E os) F = (True, os') \<and> wrote os (bs @ cs) os'"
    if inv: "os_inv os"
      and fits: "unat (os_bytes_written os) + length (bs @ cs) \<le> unat (os_max_size os)" for os
  proof -
    have "unat (os_bytes_written os) + length bs \<le> unat (os_max_size os)" using fits by simp
    from encodesD(2) [OF E inv this] obtain os1
      where os1: "E os = (True, os1)" "wrote os bs os1" by blast
    have "unat (os_bytes_written os1) + length cs \<le> unat (os_max_size os1)"
      using fits wroteD [OF os1(2)] by simp
    from encodesD(2) [OF F wroteD(1) [OF os1(2)] this] obtain os2
      where "F os1 = (True, os2)" "wrote os1 cs os2" by blast
    with os1 show ?thesis by (auto intro: wrote_append)
  qed
  moreover have "\<not> fst (and_then (E os) F)"
    if inv: "os_inv os"
      and full: "unat (os_max_size os) < unat (os_bytes_written os) + length (bs @ cs)"
      and small: "unat (os_max_size os) + length (bs @ cs) < 2 ^ 64" for os
  proof (cases "unat (os_bytes_written os) + length bs \<le> unat (os_max_size os)")
    case True
    from encodesD(2) [OF E inv this] obtain os1
      where os1: "E os = (True, os1)" "wrote os bs os1" by blast
    have "\<not> fst (F os1)"
      using full small wroteD [OF os1(2)] by (intro encodesD(3) [OF F]) simp_all
    with os1 show ?thesis by simp
  next
    case False
    then have "\<not> fst (E os)" using small by (intro encodesD(3) [OF E inv]) simp_all
    then show ?thesis by (simp add: and_then_def)
  qed
  moreover have "and_then (E os) F
      = (True, os\<lparr>os_bytes_written := os_bytes_written os + of_nat (length (bs @ cs))\<rparr>)"
    if "os_callback os = None" for os
    using encodesD(1) [OF E that] encodesD(1) [OF F] that by (simp add: add.assoc)
  ultimately show ?thesis unfolding encodes_def by blast
qed

lemma encodes_skip: "encodes (\<lambda>os. (True, os)) []"
  unfolding encodes_def by (auto simp: wrote_Nil os_inv_def word_le_nat_alt)

lemma encodes_cong: "(\<And>os. E os = F os) \<Longrightarrow> encodes F bs \<Longrightarrow> encodes E bs"
  by (simp add: encodes_def)

end

section \<open>The buffer is a sink\<close>

definition ob_out :: "obuf \<Rightarrow> byte list" where
  "ob_out s = take (ob_pos s) (ob_mem s)"

definition ob_room :: "obuf \<Rightarrow> nat" where
  "ob_room s = (if ob_pos s \<le> length (ob_mem s) then length (ob_mem s) - ob_pos s else 0)"

lemma buf_write_append:
  assumes "length bs \<le> ob_room s" and "ob_pos s \<le> length (ob_mem s)"
  shows "ob_mem (snd (buf_write s bs))
      = take (ob_pos s) (ob_mem s) @ bs @ drop (ob_pos s + length bs) (ob_mem s)"
  using assms by (simp add: buf_write_def ob_room_def copy_to_split)

interpretation obuf: ostream_sink buf_write ob_out ob_room
proof unfold_locales
  fix bs :: "byte list" and s :: obuf
  assume room: "length bs \<le> ob_room s"
  show "\<exists>s'. buf_write s bs = (True, s') \<and> ob_out s' = ob_out s @ bs \<and>
          ob_room s' = ob_room s - length bs"
  proof (cases "ob_pos s \<le> length (ob_mem s)")
    case True
    with room have "ob_pos s + length bs \<le> length (ob_mem s)" by (simp add: ob_room_def)
    with True show ?thesis
      by (auto simp: buf_write_def ob_out_def ob_room_def copy_to_split)
  next
    case False
    with room have "bs = []" by (simp add: ob_room_def)
    with False show ?thesis by (simp add: buf_write_def)
  qed
qed

lemma obuf_from_buffer_inv:
  assumes "unat n \<le> length buf"
  shows "obuf.os_inv (pb_ostream_from_buffer buf n)"
  using assms by (simp add: obuf.os_inv_def pb_ostream_from_buffer_def ob_room_def)

text \<open>What an encoder leaves in a fresh buffer that is large enough.\<close>

lemma obuf_run:
  assumes E: "obuf.encodes E bs" and n: "unat n \<le> length buf" and fits: "length bs \<le> unat n"
  obtains os' where "E (pb_ostream_from_buffer buf n) = (True, os')"
    and "take (length bs) (ob_mem (os_state os')) = bs"
    and "os_bytes_written os' = of_nat (length bs)" and "unat (os_bytes_written os') = length bs"
proof -
  let ?os = "pb_ostream_from_buffer buf n"
  have bw: "os_bytes_written ?os = 0" "ob_out (os_state ?os) = []" "os_max_size ?os = n"
    by (simp_all add: pb_ostream_from_buffer_def ob_out_def)
  from obuf.encodesD(2) [OF E obuf_from_buffer_inv [OF n]] fits bw
  obtain os' where os': "E ?os = (True, os')" "obuf.wrote ?os bs os'" by auto
  from obuf.wroteD [OF os'(2)] bw
  have out: "ob_out (os_state os') = bs" and cnt: "unat (os_bytes_written os') = length bs"
    by simp_all
  from out have bs: "take (ob_pos (os_state os')) (ob_mem (os_state os')) = bs"
    by (simp add: ob_out_def)
  then have "length bs = min (length (ob_mem (os_state os'))) (ob_pos (os_state os'))"
    by (metis length_take)
  with bs have pre: "take (length bs) (ob_mem (os_state os')) = bs"
    by (metis min.commute take_all take_take length_take order_refl)
  show thesis using that [OF os'(1) pre _ cnt] cnt by (metis of_nat_unat ucast_id)
qed

section \<open>Properties\<close>





end
