(* ===== verification/Pb_Istream.thy ===== *)
theory Pb_Istream
  imports Pb_Types
begin

text \<open>
  Input streams: \<open>struct pb_istream_s\<close> of \<open>pb_decode.h\<close> and \<open>buf_read\<close>,
  \<open>pb_read\<close>, \<open>pb_readbyte\<close> and \<open>pb_istream_from_buffer\<close> of
  \<open>pb_decode.c\<close>.

  The decoder compares the callback with \<open>buf_read\<close>, and makes buffer streams of its
  own while it reads from a user's stream, so a callback is either the buffer reader or a
  custom one, and a state is either a position in a buffer or a custom state. A callback
  delivers the bytes it would have written to the destination. Reading a buffer beyond its end,
  which C leaves undefined, delivers zeros; the invariant \<open>is_inv\<close> excludes it.

  The locale \<open>istream_source\<close> is the contract of a callback: within the data it holds it
  delivers the next bytes and advances. Its lemmas describe every reading function
  as a function of the data that is left.
\<close>

datatype 'c istate = IBuf (ib_mem: "byte list") (ib_pos: nat) | ICust 'c

datatype 'c icallback =
  is_IBufRead: IBufRead
| ICustom "'c \<Rightarrow> nat \<Rightarrow> bool \<times> byte list \<times> 'c"

record 'c pb_istream =
  is_callback :: "'c icallback"
  is_state :: "'c istate"
  is_bytes_left :: size_t
  is_errmsg :: errmsg

definition is_error :: "'c pb_istream \<Rightarrow> string \<Rightarrow> 'c pb_istream" where
  "is_error s msg = s\<lparr>is_errmsg := PB_SET_ERROR (is_errmsg s) msg\<rparr>"

section \<open>Callbacks\<close>

definition buf_read :: "byte list \<Rightarrow> nat \<Rightarrow> nat \<Rightarrow> bool \<times> byte list \<times> nat" where
  "buf_read m p n =
     (True, map (\<lambda>i. if p + i < length m then m ! (p + i) else 0) [0..<n], p + n)"

text \<open>Calling the callback of a stream; a callback never meets a state of the other kind.\<close>

fun call_read :: "'c icallback \<Rightarrow> 'c istate \<Rightarrow> nat \<Rightarrow> bool \<times> byte list \<times> 'c istate" where
  "call_read IBufRead (IBuf m p) n = (case buf_read m p n of (ok, bs, q) \<Rightarrow> (ok, bs, IBuf m q))"
| "call_read (ICustom f) (ICust c) n = (case f c n of (ok, bs, c') \<Rightarrow> (ok, take n bs, ICust c'))"
| "call_read _ st n = (False, [], st)"

definition pb_istream_from_buffer :: "byte list \<Rightarrow> size_t \<Rightarrow> 'c pb_istream" where
  "pb_istream_from_buffer buf bufsize =
     \<lparr>is_callback = IBufRead, is_state = IBuf buf 0, is_bytes_left = bufsize, is_errmsg = None\<rparr>"

section \<open>Reading\<close>

text \<open>The read proper: the check against \<open>bytes_left\<close>, the callback, the accounting. With a
  null destination the buffer reader copies nothing.\<close>

definition pb_read_direct ::
  "'c pb_istream \<Rightarrow> bool \<Rightarrow> size_t \<Rightarrow> bool \<times> byte list \<times> 'c pb_istream" where
  "pb_read_direct s has_buf count =
     (if is_bytes_left s < count then (False, [], is_error s ''end-of-stream'')
      else case call_read (is_callback s) (is_state s) (unat count) of
        (ok, bs, st) \<Rightarrow>
          if \<not> ok then (False, bs, is_error (s\<lparr>is_state := st\<rparr>) ''io error'')
          else (True, if has_buf then bs else [],
                s\<lparr>is_state := st, is_bytes_left := is_bytes_left s - count\<rparr>))"

text \<open>Skipping on a custom stream: chunks of 16 bytes are read into a scratch buffer.\<close>

function pb_read_skip :: "'c pb_istream \<Rightarrow> size_t \<Rightarrow> bool \<times> 'c pb_istream" where
  "pb_read_skip s count =
     (if count > 16
      then (case pb_read_direct s True 16 of
              (ok, _, s') \<Rightarrow> if ok then pb_read_skip s' (count - 16) else (False, s'))
      else (case pb_read_direct s True count of (ok, _, s') \<Rightarrow> (ok, s')))"
  by pat_completeness auto
termination
  by (relation "measure (\<lambda>(s, count). unat count)")
    (auto simp: word_less_nat_alt word_le_nat_alt unat_sub_le)

declare pb_read_skip.simps [simp del]

definition pb_read ::
  "'c pb_istream \<Rightarrow> bool \<Rightarrow> size_t \<Rightarrow> bool \<times> byte list \<times> 'c pb_istream" where
  "pb_read s has_buf count =
     (if \<not> has_buf \<and> \<not> is_IBufRead (is_callback s)
      then (case pb_read_skip s count of (ok, s') \<Rightarrow> (ok, [], s'))
      else pb_read_direct s has_buf count)"

text \<open>One byte: the destination is set only on success.\<close>

definition pb_readbyte :: "'c pb_istream \<Rightarrow> byte option \<times> 'c pb_istream" where
  "pb_readbyte s =
     (if is_bytes_left s = 0 then (None, is_error s ''end-of-stream'')
      else case call_read (is_callback s) (is_state s) 1 of
        (ok, bs, st) \<Rightarrow>
          if \<not> ok then (None, is_error (s\<lparr>is_state := st\<rparr>) ''io error'')
          else (Some (case bs of [] \<Rightarrow> 0 | b # _ \<Rightarrow> b),
                s\<lparr>is_state := st, is_bytes_left := is_bytes_left s - 1\<rparr>))"

section \<open>Facts that need no contract\<close>

lemma is_error_simps [simp]:
  "is_callback (is_error s msg) = is_callback s"
  "is_state (is_error s msg) = is_state s"
  "is_bytes_left (is_error s msg) = is_bytes_left s"
  "is_errmsg (is_error s msg) \<noteq> None"
  by (simp_all add: is_error_def)

lemma pb_readbyte_bytes_left:
  "pb_readbyte s = (Some b, s') \<Longrightarrow> Suc (unat (is_bytes_left s')) = unat (is_bytes_left s)"
  by (auto simp: pb_readbyte_def unat_dec unat_gt_0 Suc_diff_1 split: if_splits prod.splits)

lemma pb_readbyte_callback: "pb_readbyte s = (r, s') \<Longrightarrow> is_callback s' = is_callback s"
  by (auto simp: pb_readbyte_def split: if_splits prod.splits)

lemma pb_readbyte_fail_bytes_left:
  "pb_readbyte s = (None, s') \<Longrightarrow> is_bytes_left s' = is_bytes_left s"
  by (auto simp: pb_readbyte_def split: if_splits prod.splits)

lemma pb_read_direct_bytes_left:
  "pb_read_direct s hb n = (ok, bs, s') \<Longrightarrow>
     (if ok then n \<le> is_bytes_left s \<and> is_bytes_left s' = is_bytes_left s - n
      else is_bytes_left s' = is_bytes_left s)"
  by (auto simp: pb_read_direct_def split: if_splits prod.splits)

lemma pb_read_direct_callback:
  "pb_read_direct s hb n = (ok, bs, s') \<Longrightarrow> is_callback s' = is_callback s"
  by (auto simp: pb_read_direct_def split: if_splits prod.splits)

text \<open>No read ever delivers more than it was asked for, and none raises \<open>bytes_left\<close>.\<close>

lemma call_read_length: "call_read cb st n = (ok, bs, st') \<Longrightarrow> length bs \<le> n"
  by (cases "(cb, st, n)" rule: call_read.cases) (auto simp: buf_read_def split: prod.splits)

lemma pb_read_direct_length: "pb_read_direct s hb n = (ok, bs, s') \<Longrightarrow> length bs \<le> unat n"
  by (auto simp: pb_read_direct_def split: if_splits prod.splits dest: call_read_length)

lemma pb_read_length: "pb_read s hb n = (ok, bs, s') \<Longrightarrow> length bs \<le> unat n"
  by (auto simp: pb_read_def split: if_splits prod.splits dest: pb_read_direct_length)

lemma pb_read_skip_bytes_left:
  "pb_read_skip s n = (ok, s') \<Longrightarrow> is_bytes_left s' \<le> is_bytes_left s"
proof (induction s n rule: pb_read_skip.induct)
  case (1 s n)
  obtain ok1 bs1 s1 where r: "pb_read_direct s True 16 = (ok1, bs1, s1)" by (cases "pb_read_direct s True 16") auto
  obtain ok2 bs2 s2 where t: "pb_read_direct s True n = (ok2, bs2, s2)" by (cases "pb_read_direct s True n") auto
  have le1: "is_bytes_left s1 \<le> is_bytes_left s" using pb_read_direct_bytes_left [OF r]
    by (auto simp: word_le_nat_alt unat_sub_le split: if_splits)
  have le2: "is_bytes_left s2 \<le> is_bytes_left s" using pb_read_direct_bytes_left [OF t]
    by (auto simp: word_le_nat_alt unat_sub_le split: if_splits)
  show ?case
  proof (cases "n > 16 \<and> ok1")
    case True
    with "1.IH" [OF _ r [symmetric] refl] "1.prems" r le1 show ?thesis
      by (auto simp: pb_read_skip.simps [of s n] intro: order_trans)
  next
    case False
    with "1.prems" r t le1 le2 show ?thesis
      by (auto simp: pb_read_skip.simps [of s n] split: if_splits)
  qed
qed

lemma pb_read_bytes_left:
  assumes "pb_read s hb n = (ok, bs, s')"
  shows "is_bytes_left s' \<le> is_bytes_left s"
proof (cases "\<not> hb \<and> \<not> is_IBufRead (is_callback s)")
  case True
  with assms show ?thesis
    by (auto simp: pb_read_def split: prod.splits dest: pb_read_skip_bytes_left)
next
  case False
  with assms have "pb_read_direct s hb n = (ok, bs, s')" by (auto simp: pb_read_def)
  from pb_read_direct_bytes_left [OF this] show ?thesis
    by (auto simp: word_le_nat_alt unat_sub_le split: if_splits)
qed

section \<open>The source contract\<close>

locale istream_source =
  fixes cb :: "'c icallback"
    and valid :: "'c istate \<Rightarrow> bool"
    and rest :: "'c istate \<Rightarrow> byte list"
  assumes source_read:
    "valid st \<Longrightarrow> n \<le> length (rest st) \<Longrightarrow>
       \<exists>st'. call_read cb st n = (True, take n (rest st), st') \<and> valid st' \<and>
             rest st' = drop n (rest st)"
begin

text \<open>A stream on this source that claims no more bytes than there are, and what it still
  has to deliver.\<close>

definition is_inv :: "'c pb_istream \<Rightarrow> bool" where
  "is_inv s \<longleftrightarrow> is_callback s = cb \<and> valid (is_state s) \<and>
     unat (is_bytes_left s) \<le> length (rest (is_state s))"

definition is_data :: "'c pb_istream \<Rightarrow> byte list" where
  "is_data s = take (unat (is_bytes_left s)) (rest (is_state s))"

text \<open>\<open>reads s bs s'\<close>: \<open>s'\<close> is \<open>s\<close> after its next bytes \<open>bs\<close> were taken.\<close>

definition reads :: "'c pb_istream \<Rightarrow> byte list \<Rightarrow> 'c pb_istream \<Rightarrow> bool" where
  "reads s bs s' \<longleftrightarrow>
     (\<exists>st'. s' = s\<lparr>is_state := st', is_bytes_left := is_bytes_left s - of_nat (length bs)\<rparr> \<and>
            rest st' = drop (length bs) (rest (is_state s)) \<and> valid st' \<and> is_inv s \<and>
            length bs \<le> unat (is_bytes_left s) \<and> bs = take (length bs) (rest (is_state s)))"

lemma readsI:
  assumes "is_inv s" and "length bs \<le> unat (is_bytes_left s)"
    and "take (length bs) (rest (is_state s)) = bs"
    and "rest st' = drop (length bs) (rest (is_state s))" and "valid st'"
  shows "reads s bs (s\<lparr>is_state := st', is_bytes_left := is_bytes_left s - of_nat (length bs)\<rparr>)"
  unfolding reads_def using assms by metis

lemma is_inv_length_data: "is_inv s \<Longrightarrow> length (is_data s) = unat (is_bytes_left s)"
  by (simp add: is_inv_def is_data_def)

lemma bytes_left_zero_iff: "is_inv s \<Longrightarrow> is_bytes_left s = 0 \<longleftrightarrow> is_data s = []"
  using is_inv_length_data [of s] by (metis length_0_conv unat_eq_zero)

lemma readsD:
  assumes "reads s bs s'"
  shows "is_inv s" and "is_inv s'" and "is_data s = bs @ is_data s'"
    and "is_callback s' = is_callback s" and "is_errmsg s' = is_errmsg s"
    and "unat (is_bytes_left s') = unat (is_bytes_left s) - length bs"
    and "length bs \<le> unat (is_bytes_left s)"
proof -
  from assms obtain st' where s':
    "s' = s\<lparr>is_state := st', is_bytes_left := is_bytes_left s - of_nat (length bs)\<rparr>"
    "rest st' = drop (length bs) (rest (is_state s))" "valid st'" "is_inv s"
    "length bs \<le> unat (is_bytes_left s)" "bs = take (length bs) (rest (is_state s))"
    unfolding reads_def by blast
  have "unat (of_nat (length bs) :: size_t) = length bs"
    using s'(5) unat_less_64 [of "is_bytes_left s"] by (intro unat_of_nat_size) simp
  then have left: "unat (is_bytes_left s - of_nat (length bs)) = unat (is_bytes_left s) - length bs"
    using s'(5) by (simp add: unat_sub_le word_le_nat_alt)
  show "is_inv s" and "length bs \<le> unat (is_bytes_left s)" by fact+
  show "is_inv s'" using s' left by (auto simp: is_inv_def)
  show "is_data s = bs @ is_data s'"
  proof -
    have "is_data s = take (length bs + (unat (is_bytes_left s) - length bs)) (rest (is_state s))"
      using s'(5) by (simp add: is_data_def)
    also have "\<dots> = take (length bs) (rest (is_state s))
        @ take (unat (is_bytes_left s) - length bs) (drop (length bs) (rest (is_state s)))"
      by (rule take_add)
    finally show ?thesis using s' left by (simp add: is_data_def)
  qed
  show "is_callback s' = is_callback s" and "is_errmsg s' = is_errmsg s"
    and "unat (is_bytes_left s') = unat (is_bytes_left s) - length bs"
    using s' left by simp_all
qed

lemma reads_Nil: "is_inv s \<Longrightarrow> reads s [] s"
  unfolding reads_def by (rule exI [of _ "is_state s"]) (simp add: is_inv_def)

lemma reads_append:
  assumes "reads s bs s'" and "reads s' cs s''"
  shows "reads s (bs @ cs) s''"
proof -
  note s = readsD [OF assms(1)] and s' = readsD [OF assms(2)]
  from assms(1) obtain st' where 1:
    "s' = s\<lparr>is_state := st', is_bytes_left := is_bytes_left s - of_nat (length bs)\<rparr>"
    "rest st' = drop (length bs) (rest (is_state s))" "bs = take (length bs) (rest (is_state s))"
    unfolding reads_def by blast
  from assms(2) obtain st'' where 2:
    "s'' = s'\<lparr>is_state := st'', is_bytes_left := is_bytes_left s' - of_nat (length cs)\<rparr>"
    "rest st'' = drop (length cs) (rest (is_state s'))" "valid st''"
    "cs = take (length cs) (rest (is_state s'))"
    unfolding reads_def by blast
  have "bs @ cs = take (length (bs @ cs)) (rest (is_state s))"
    using 1 2 by (simp add: take_add)
  moreover have "length (bs @ cs) \<le> unat (is_bytes_left s)"
    using s(6,7) s'(7) by simp
  moreover have "rest st'' = drop (length (bs @ cs)) (rest (is_state s))"
    using 1 2 by (simp add: add.commute)
  moreover have "s'' = s\<lparr>is_state := st'',
      is_bytes_left := is_bytes_left s - of_nat (length (bs @ cs))\<rparr>"
    using 1 2 by (simp add: diff_diff_eq)
  ultimately show ?thesis using readsI [OF s(1), of "bs @ cs" st''] 2(3) by metis
qed

lemma call_read_reads:
  assumes "is_inv s" and "n \<le> unat (is_bytes_left s)"
  shows "\<exists>st'. call_read (is_callback s) (is_state s) n = (True, take n (is_data s), st') \<and>
     reads s (take n (is_data s))
       (s\<lparr>is_state := st', is_bytes_left := is_bytes_left s - of_nat n\<rparr>)"
proof -
  have len: "n \<le> length (rest (is_state s))" using assms by (simp add: is_inv_def)
  have take: "take n (is_data s) = take n (rest (is_state s))"
    using assms(2) by (simp add: is_data_def min_def)
  from source_read [of "is_state s" n] assms(1) len obtain st' where
    "call_read (is_callback s) (is_state s) n = (True, take n (rest (is_state s)), st')"
    "valid st'" "rest st' = drop n (rest (is_state s))"
    by (auto simp: is_inv_def)
  moreover from this(2,3) len assms
  have "reads s (take n (rest (is_state s)))
      (s\<lparr>is_state := st', is_bytes_left := is_bytes_left s - of_nat n\<rparr>)"
    using readsI [OF assms(1), of "take n (rest (is_state s))" st'] by (simp add: min_absorb2)
  ultimately show ?thesis unfolding take by blast
qed

lemma pb_readbyte_data:
  assumes "is_inv s"
  shows "pb_readbyte s =
    (case is_data s of [] \<Rightarrow> (None, is_error s ''end-of-stream'')
     | b # _ \<Rightarrow> (Some b, snd (pb_readbyte s)))"
    and "is_data s = b # bs \<Longrightarrow>
      \<exists>s'. pb_readbyte s = (Some b, s') \<and> reads s [b] s' \<and> is_data s' = bs"
proof -
  show *: "\<exists>s'. pb_readbyte s = (Some b, s') \<and> reads s [b] s' \<and> is_data s' = bs"
    if "is_data s = b # bs" for b bs
  proof -
    have ne: "is_bytes_left s \<noteq> 0" and "1 \<le> unat (is_bytes_left s)"
      using that bytes_left_zero_iff [OF assms] is_inv_length_data [OF assms] by auto
    from call_read_reads [OF assms this(2)] that obtain st' where
      "call_read (is_callback s) (is_state s) 1 = (True, [b], st')"
      "reads s [b] (s\<lparr>is_state := st', is_bytes_left := is_bytes_left s - 1\<rparr>)"
      by auto
    moreover from readsD(3) [OF this(2)] that
    have "is_data (s\<lparr>is_state := st', is_bytes_left := is_bytes_left s - 1\<rparr>) = bs" by simp
    ultimately show ?thesis using ne by (simp add: pb_readbyte_def)
  qed
  show "pb_readbyte s =
    (case is_data s of [] \<Rightarrow> (None, is_error s ''end-of-stream'')
     | b # _ \<Rightarrow> (Some b, snd (pb_readbyte s)))"
  proof (cases "is_data s")
    case Nil
    with bytes_left_zero_iff [OF assms] show ?thesis by (simp add: pb_readbyte_def)
  next
    case (Cons b bs)
    from * [OF this] Cons show ?thesis by auto
  qed
qed

lemma pb_readbyte_end:
  "is_inv s \<Longrightarrow> is_data s = [] \<Longrightarrow> pb_readbyte s = (None, is_error s ''end-of-stream'')"
  using pb_readbyte_data(1) [of s] by simp

lemma pb_read_direct_data:
  assumes "is_inv s" and "is_data s = bs @ cs" and "length bs = unat n"
  shows "\<exists>s'. pb_read_direct s hb n = (True, if hb then bs else [], s') \<and> reads s bs s' \<and>
     is_data s' = cs"
proof -
  have "unat n \<le> unat (is_bytes_left s)"
    using assms is_inv_length_data [OF assms(1)] by simp
  moreover have "take (unat n) (is_data s) = bs" using assms by simp
  ultimately obtain st' where
    st': "call_read (is_callback s) (is_state s) (unat n) = (True, bs, st')"
    "reads s bs (s\<lparr>is_state := st', is_bytes_left := is_bytes_left s - n\<rparr>)"
    using call_read_reads [OF assms(1), of "unat n"] by auto
  from readsD(3) [OF st'(2)] assms(2)
  have "is_data (s\<lparr>is_state := st', is_bytes_left := is_bytes_left s - n\<rparr>) = cs" by simp
  with st' \<open>unat n \<le> unat (is_bytes_left s)\<close> show ?thesis
    by (simp add: pb_read_direct_def word_less_nat_alt)
qed

lemma pb_read_direct_short:
  assumes "is_inv s" and "length (is_data s) < unat n"
  shows "pb_read_direct s hb n = (False, [], is_error s ''end-of-stream'')"
  using assms is_inv_length_data [OF assms(1)]
  by (simp add: pb_read_direct_def word_less_nat_alt)

text \<open>The chunked skip takes exactly the bytes one read would take.\<close>

lemma pb_read_skip_data:
  assumes "is_inv s" and "is_data s = bs @ cs" and "length bs = unat n"
  shows "\<exists>s'. pb_read_skip s n = (True, s') \<and> reads s bs s' \<and> is_data s' = cs"
  using assms
proof (induction s n arbitrary: bs rule: pb_read_skip.induct)
  case (1 s n)
  show ?case
  proof (cases "n > 16")
    case False
    with pb_read_direct_data [OF "1.prems", of True] show ?thesis
      by (auto simp: pb_read_skip.simps [of s n])
  next
    case True
    then have n: "unat n > 16" by (simp add: word_less_nat_alt)
    let ?b1 = "take 16 bs" and ?b2 = "drop 16 bs"
    have "is_data s = ?b1 @ ?b2 @ cs" using "1.prems" by simp
    moreover have "length ?b1 = unat (16 :: size_t)" using "1.prems" n by simp
    ultimately obtain s1 where s1: "pb_read_direct s True 16 = (True, ?b1, s1)" "reads s ?b1 s1"
      "is_data s1 = ?b2 @ cs"
      using pb_read_direct_data [OF "1.prems"(1), of ?b1 "?b2 @ cs" 16 True] by auto
    have "length ?b2 = unat (n - 16)"
      using "1.prems" n by (simp add: unat_sub_le word_le_nat_alt)
    with "1.IH" [OF True s1(1) [symmetric] refl _ readsD(2) [OF s1(2)] s1(3)] obtain s2
      where "pb_read_skip s1 (n - 16) = (True, s2)" "reads s1 ?b2 s2" "is_data s2 = cs" by auto
    moreover have "reads s bs s2" if "reads s1 ?b2 s2"
      using reads_append [OF s1(2) that] by simp
    ultimately show ?thesis using True s1 by (simp add: pb_read_skip.simps [of s n])
  qed
qed

lemma pb_read_data:
  assumes "is_inv s" and "is_data s = bs @ cs" and "length bs = unat n"
  shows "\<exists>s'. pb_read s hb n = (True, if hb then bs else [], s') \<and> reads s bs s' \<and> is_data s' = cs"
  using pb_read_direct_data [OF assms, of hb] pb_read_skip_data [OF assms]
  by (auto simp: pb_read_def)

lemma pb_read_short:
  assumes "is_inv s" and "length (is_data s) < unat n"
  shows "pb_read s True n = (False, [], is_error s ''end-of-stream'')"
  using pb_read_direct_short [OF assms] by (simp add: pb_read_def)

end

section \<open>The buffer is a source\<close>

fun ib_valid :: "'c istate \<Rightarrow> bool" where
  "ib_valid (IBuf m p) \<longleftrightarrow> p \<le> length m"
| "ib_valid (ICust c) \<longleftrightarrow> False"

fun ib_rest :: "'c istate \<Rightarrow> byte list" where
  "ib_rest (IBuf m p) = drop p m"
| "ib_rest (ICust c) = []"

interpretation ibuf: istream_source IBufRead ib_valid ib_rest
proof unfold_locales
  fix st :: "'c istate" and n :: nat
  assume v: "ib_valid st" and n: "n \<le> length (ib_rest st)"
  then obtain m p where st: "st = IBuf m p" and p: "p + n \<le> length m"
    by (cases st) auto
  have "map (\<lambda>i. if p + i < length m then m ! (p + i) else 0) [0..<n] = take n (drop p m)"
    using p by (auto intro!: nth_equalityI)
  with st p show "\<exists>st'. call_read IBufRead st n = (True, take n (ib_rest st), st') \<and>
      ib_valid st' \<and> ib_rest st' = drop n (ib_rest st)"
    by (auto simp: buf_read_def add.commute)
qed

lemma ibuf_from_buffer:
  assumes "unat n \<le> length buf"
  shows "ibuf.is_inv (pb_istream_from_buffer buf n :: 'c pb_istream)"
    and "ibuf.is_data (pb_istream_from_buffer buf n :: 'c pb_istream) = take (unat n) buf"
  using assms by (simp_all add: ibuf.is_inv_def ibuf.is_data_def pb_istream_from_buffer_def)

end
