(* ===== verification/Pb_Wire.thy ===== *)
theory Pb_Wire
  imports Pb_Memory Pb_Ostream Pb_Istream
begin

text \<open>
  The wire primitives: the ``Helper functions'' of \<open>pb_encode.c\<close> and
  \<open>pb_decode.c\<close> (variable-length, zig-zag and fixed-width integers, tags, strings,
  skipping, substreams). Each is the translation of the C function of the same name; the
  local shift counters keep their C width (\<open>uint_fast8_t\<close> has 8 bits on the targets).

  The reference \<open>varint_spec\<close> is the base-128 notation of the protocol buffers encoding.
  The lemmas in the two stream contracts show that the encoder loop writes exactly that
  notation, and that the decoder loops invert it.
\<close>

section \<open>Encoding\<close>

text \<open>The \<open>while (value)\<close> loop of \<open>pb_encode_varint\<close>: the bytes it leaves in
  \<open>buffer\<close>.\<close>

function pb_varint_fill :: "uint64 \<Rightarrow> byte list" where
  "pb_varint_fill v =
     (if v = 0 then []
      else (ucast (v AND 0x7F) OR 0x80) # pb_varint_fill (drop_bit 7 v))"
  by pat_completeness auto
termination
proof (relation "measure unat")
  fix v :: uint64 assume "v \<noteq> 0"
  then have "0 < unat v" by (simp add: unat_gt_0)
  then show "(drop_bit 7 v, v) \<in> measure unat"
    by (simp add: drop_bit_eq_div unat_div)
qed simp

declare pb_varint_fill.simps [simp del]

definition pb_encode_varint :: "'s pb_ostream \<Rightarrow> uint64 \<Rightarrow> bool \<times> 's pb_ostream" where
  "pb_encode_varint os value =
     (if value \<le> 0x7F then pb_write os [ucast value] 1
      else let buffer = pb_varint_fill value; i = length buffer
           in pb_write os (buffer[i - 1 := (buffer ! (i - 1)) AND 0x7F]) (of_nat i))"

definition zigzag :: "uint64 \<Rightarrow> uint64" where
  "zigzag value = (if value <s 0 then NOT (push_bit 1 value) else push_bit 1 value)"

definition pb_encode_svarint :: "'s pb_ostream \<Rightarrow> uint64 \<Rightarrow> bool \<times> 's pb_ostream" where
  "pb_encode_svarint os value = pb_encode_varint os (zigzag value)"

definition pb_encode_fixed32 :: "mem \<Rightarrow> 's pb_ostream \<Rightarrow> addr \<Rightarrow> bool \<times> 's pb_ostream" where
  "pb_encode_fixed32 m os value =
     (let val = load32 m value
      in pb_write os
           [ucast (val AND 0xFF), ucast (drop_bit 8 val AND 0xFF),
            ucast (drop_bit 16 val AND 0xFF), ucast (drop_bit 24 val AND 0xFF)] 4)"

definition pb_encode_fixed64 :: "mem \<Rightarrow> 's pb_ostream \<Rightarrow> addr \<Rightarrow> bool \<times> 's pb_ostream" where
  "pb_encode_fixed64 m os value =
     (let val = load64 m value
      in pb_write os
           [ucast (val AND 0xFF), ucast (drop_bit 8 val AND 0xFF),
            ucast (drop_bit 16 val AND 0xFF), ucast (drop_bit 24 val AND 0xFF),
            ucast (drop_bit 32 val AND 0xFF), ucast (drop_bit 40 val AND 0xFF),
            ucast (drop_bit 48 val AND 0xFF), ucast (drop_bit 56 val AND 0xFF)] 8)"

definition pb_encode_tag ::
  "'s pb_ostream \<Rightarrow> pb_wire_type_t \<Rightarrow> uint32 \<Rightarrow> bool \<times> 's pb_ostream" where
  "pb_encode_tag os wiretype field_number =
     pb_encode_varint os (push_bit 3 (ucast field_number) OR ucast wiretype)"

definition pb_encode_tag_for_field :: "'s pb_ostream \<Rightarrow> pb_field \<Rightarrow> bool \<times> 's pb_ostream" where
  "pb_encode_tag_for_field os field =
     (let ltype = PB_LTYPE (f_type field)
      in if ltype = PB_LTYPE_VARINT \<or> ltype = PB_LTYPE_UVARINT \<or> ltype = PB_LTYPE_SVARINT
         then pb_encode_tag os PB_WT_VARINT (f_tag field)
         else if ltype = PB_LTYPE_FIXED32 then pb_encode_tag os PB_WT_32BIT (f_tag field)
         else if ltype = PB_LTYPE_FIXED64 then pb_encode_tag os PB_WT_64BIT (f_tag field)
         else if ltype = PB_LTYPE_BYTES \<or> ltype = PB_LTYPE_STRING \<or>
                 ltype = PB_LTYPE_SUBMESSAGE \<or> ltype = PB_LTYPE_FIXED_LENGTH_BYTES
         then pb_encode_tag os PB_WT_STRING (f_tag field)
         else os_error os ''invalid field type'')"

definition pb_encode_string ::
  "'s pb_ostream \<Rightarrow> byte list \<Rightarrow> size_t \<Rightarrow> bool \<times> 's pb_ostream" where
  "pb_encode_string os buffer sz =
     and_then (pb_encode_varint os sz) (\<lambda>os. pb_write os buffer sz)"

section \<open>Decoding\<close>

text \<open>The \<open>do ... while (byte & 0x80)\<close> loop of \<open>pb_decode_varint32_eof\<close>.\<close>

function pb_varint32_loop ::
  "'c pb_istream \<Rightarrow> uint8 \<Rightarrow> uint32 \<Rightarrow> uint32 option \<times> 'c pb_istream" where
  "pb_varint32_loop s bitpos result =
     (case pb_readbyte s of
        (None, s') \<Rightarrow> (None, s')
      | (Some byte, s') \<Rightarrow>
          if bitpos \<ge> 32 \<and> byte AND 0x7F \<noteq> 0 \<and>
             (drop_bit 31 result = 0 \<or> byte \<noteq> (if bitpos < 63 then 0xFF else 0x01))
          then (None, is_error s' ''varint overflow'')
          else
            (let result' = (if bitpos \<ge> 32 then result
                            else result OR push_bit (unat bitpos) (ucast (byte AND 0x7F)));
                 bitpos' = bitpos + 7
             in if byte AND 0x80 \<noteq> 0 then pb_varint32_loop s' bitpos' result'
                else if bitpos' = 35 \<and> byte AND 0x70 \<noteq> 0
                then (None, is_error s' ''varint overflow'')
                else (Some result', s')))"
  by pat_completeness auto
termination
  by (relation "measure (\<lambda>(s, _, _). unat (is_bytes_left s))")
    (auto dest!: pb_readbyte_bytes_left [OF sym])

declare pb_varint32_loop.simps [simp del]

text \<open>The result carries the value, if any, and whether \<open>*eof\<close> was set.\<close>

definition pb_decode_varint32_eof ::
  "'c pb_istream \<Rightarrow> uint32 option \<times> bool \<times> 'c pb_istream" where
  "pb_decode_varint32_eof s =
     (case pb_readbyte s of
        (None, s') \<Rightarrow> (None, is_bytes_left s' = 0, s')
      | (Some byte, s') \<Rightarrow>
          if byte AND 0x80 = 0 then (Some (ucast byte), False, s')
          else (case pb_varint32_loop s' 7 (ucast (byte AND 0x7F)) of
                  (r, s'') \<Rightarrow> (r, False, s'')))"

definition pb_decode_varint32 :: "'c pb_istream \<Rightarrow> uint32 option \<times> 'c pb_istream" where
  "pb_decode_varint32 s = (case pb_decode_varint32_eof s of (r, _, s') \<Rightarrow> (r, s'))"

function pb_varint_loop ::
  "'c pb_istream \<Rightarrow> uint8 \<Rightarrow> uint64 \<Rightarrow> uint64 option \<times> 'c pb_istream" where
  "pb_varint_loop s bitpos result =
     (if bitpos \<ge> 64 then (None, is_error s ''varint overflow'')
      else case pb_readbyte s of
        (None, s') \<Rightarrow> (None, s')
      | (Some byte, s') \<Rightarrow>
          (let result' = result OR push_bit (unat bitpos) (ucast (byte AND 0x7F))
           in if byte AND 0x80 \<noteq> 0 then pb_varint_loop s' (bitpos + 7) result'
              else (Some result', s')))"
  by pat_completeness auto
termination
  by (relation "measure (\<lambda>(s, _, _). unat (is_bytes_left s))")
    (auto dest!: pb_readbyte_bytes_left [OF sym])

declare pb_varint_loop.simps [simp del]

definition pb_decode_varint :: "'c pb_istream \<Rightarrow> uint64 option \<times> 'c pb_istream" where
  "pb_decode_varint s = pb_varint_loop s 0 0"

definition unzigzag :: "uint64 \<Rightarrow> uint64" where
  "unzigzag value = (if value AND 1 \<noteq> 0 then NOT (drop_bit 1 value) else drop_bit 1 value)"

definition pb_decode_svarint :: "'c pb_istream \<Rightarrow> uint64 option \<times> 'c pb_istream" where
  "pb_decode_svarint s =
     (case pb_decode_varint s of
        (None, s') \<Rightarrow> (None, s')
      | (Some value, s') \<Rightarrow> (Some (unzigzag value), s'))"

text \<open>A byte of a local buffer that a read has filled.\<close>

definition byte_at :: "byte list \<Rightarrow> nat \<Rightarrow> byte" where
  "byte_at bs i = (if i < length bs then bs ! i else 0)"

definition pb_decode_fixed32 ::
  "'c pb_istream \<Rightarrow> mem \<Rightarrow> addr \<Rightarrow> bool \<times> 'c pb_istream \<times> mem" where
  "pb_decode_fixed32 s m dest =
     (case pb_read s True 4 of
        (ok, bytes, s') \<Rightarrow>
          if \<not> ok then (False, s', m)
          else (True, s', store32 m dest
                 (push_bit 0 (ucast (byte_at bytes 0)) OR push_bit 8 (ucast (byte_at bytes 1)) OR
                  push_bit 16 (ucast (byte_at bytes 2)) OR push_bit 24 (ucast (byte_at bytes 3)))))"

definition pb_decode_fixed64 ::
  "'c pb_istream \<Rightarrow> mem \<Rightarrow> addr \<Rightarrow> bool \<times> 'c pb_istream \<times> mem" where
  "pb_decode_fixed64 s m dest =
     (case pb_read s True 8 of
        (ok, bytes, s') \<Rightarrow>
          if \<not> ok then (False, s', m)
          else (True, s', store64 m dest
                 (push_bit 0 (ucast (byte_at bytes 0)) OR push_bit 8 (ucast (byte_at bytes 1)) OR
                  push_bit 16 (ucast (byte_at bytes 2)) OR push_bit 24 (ucast (byte_at bytes 3)) OR
                  push_bit 32 (ucast (byte_at bytes 4)) OR push_bit 40 (ucast (byte_at bytes 5)) OR
                  push_bit 48 (ucast (byte_at bytes 6)) OR
                  push_bit 56 (ucast (byte_at bytes 7)))))"

lemma pb_read_one_bytes_left:
  assumes "pb_read s True 1 = (True, bs, s')"
  shows "Suc (unat (is_bytes_left s')) = unat (is_bytes_left s)"
proof -
  from assms have "pb_read_direct s True 1 = (True, bs, s')" by (simp add: pb_read_def)
  from pb_read_direct_bytes_left [OF this] show ?thesis
    by (simp add: word_le_nat_alt unat_sub_le)
qed

function pb_skip_varint :: "'c pb_istream \<Rightarrow> bool \<times> 'c pb_istream" where
  "pb_skip_varint s =
     (case pb_read s True 1 of
        (ok, bs, s') \<Rightarrow>
          if \<not> ok then (False, s')
          else if byte_at bs 0 AND 0x80 \<noteq> 0 then pb_skip_varint s' else (True, s'))"
  by pat_completeness auto
termination
  by (relation "measure (\<lambda>s. unat (is_bytes_left s))")
    (auto dest!: pb_read_one_bytes_left [OF sym])

declare pb_skip_varint.simps [simp del]

definition pb_skip_string :: "'c pb_istream \<Rightarrow> bool \<times> 'c pb_istream" where
  "pb_skip_string s =
     (case pb_decode_varint32 s of
        (None, s') \<Rightarrow> (False, s')
      | (Some len, s') \<Rightarrow> (case pb_read s' False (ucast len) of (ok, _, s'') \<Rightarrow> (ok, s'')))"

text \<open>On success the wire type and the tag; otherwise whether the end of the message was
  met (\<open>*eof\<close>).\<close>

datatype pb_tag_result = TagField pb_wire_type_t uint32 | TagEof | TagError

definition pb_decode_tag :: "'c pb_istream \<Rightarrow> pb_tag_result \<times> 'c pb_istream" where
  "pb_decode_tag s =
     (case pb_decode_varint32_eof s of
        (None, eof, s') \<Rightarrow> (if eof then TagEof else TagError, s')
      | (Some temp, _, s') \<Rightarrow>
          if temp = 0 then (TagEof, s')
          else (TagField (temp AND 7) (drop_bit 3 temp), s'))"

definition pb_skip_field :: "'c pb_istream \<Rightarrow> pb_wire_type_t \<Rightarrow> bool \<times> 'c pb_istream" where
  "pb_skip_field s wire_type =
     (if wire_type = PB_WT_VARINT then pb_skip_varint s
      else if wire_type = PB_WT_64BIT then (case pb_read s False 8 of (ok, _, s') \<Rightarrow> (ok, s'))
      else if wire_type = PB_WT_STRING then pb_skip_string s
      else if wire_type = PB_WT_32BIT then (case pb_read s False 4 of (ok, _, s') \<Rightarrow> (ok, s'))
      else (False, is_error s ''invalid wire_type''))"

text \<open>The varint case of \<open>read_raw_value\<close>: at most \<open>k\<close> more bytes fit in the
  buffer.\<close>

fun read_raw_varint :: "nat \<Rightarrow> 'c pb_istream \<Rightarrow> bool \<times> byte list \<times> 'c pb_istream" where
  "read_raw_varint 0 s = (False, [], s)"
| "read_raw_varint (Suc k) s =
     (case pb_read s True 1 of
        (ok, bs, s') \<Rightarrow>
          if \<not> ok then (False, bs, s')
          else if byte_at bs 0 AND 0x80 \<noteq> 0
          then (case read_raw_varint k s' of (ok', bs', s'') \<Rightarrow> (ok', byte_at bs 0 # bs', s''))
          else (True, [byte_at bs 0], s'))"

text \<open>The bytes stored in \<open>buf\<close>; their number is \<open>*size\<close> on return.\<close>

definition read_raw_value ::
  "'c pb_istream \<Rightarrow> pb_wire_type_t \<Rightarrow> nat \<Rightarrow> bool \<times> byte list \<times> 'c pb_istream" where
  "read_raw_value s wire_type max_size =
     (if wire_type = PB_WT_VARINT then read_raw_varint max_size s
      else if wire_type = PB_WT_64BIT then pb_read s True 8
      else if wire_type = PB_WT_32BIT then pb_read s True 4
      else (False, [], is_error s ''invalid wire_type''))"

text \<open>On success the substream, limited to the announced length, and the parent with that
  length taken off its count.\<close>

definition pb_make_string_substream ::
  "'c pb_istream \<Rightarrow> 'c pb_istream option \<times> 'c pb_istream" where
  "pb_make_string_substream s =
     (case pb_decode_varint32 s of
        (None, s') \<Rightarrow> (None, s')
      | (Some sz, s') \<Rightarrow>
          if is_bytes_left s' < ucast sz
          then (None, is_error s' ''parent stream too short'')
          else (Some (s'\<lparr>is_bytes_left := ucast sz\<rparr>),
                s'\<lparr>is_bytes_left := is_bytes_left s' - ucast sz\<rparr>))"

definition pb_close_string_substream ::
  "'c pb_istream \<Rightarrow> 'c pb_istream \<Rightarrow> bool \<times> 'c pb_istream" where
  "pb_close_string_substream s sub =
     (if is_bytes_left sub \<noteq> 0
      then (case pb_read sub False (is_bytes_left sub) of
              (ok, _, sub') \<Rightarrow>
                if \<not> ok then (False, s)
                else (True, s\<lparr>is_state := is_state sub', is_errmsg := is_errmsg sub'\<rparr>))
      else (True, s\<lparr>is_state := is_state sub, is_errmsg := is_errmsg sub\<rparr>))"

end
