(* ===== verification/Pb_Wire_Props.thy ===== *)
theory Pb_Wire_Props
  imports Pb_Wire
begin

text \<open>
  Correctness of the wire primitives of \<open>Pb_Wire\<close>: the varint encoder writes base-128
  notation, the decoders invert it on every source that meets the stream contract, zig-zag and
  fixed-width encodings round-trip, tags split into what they were built from, skipping takes
  exactly one field.
\<close>

section \<open>The varint encoder\<close>

lemma varint_byte:
  "(ucast (v AND 0x7F) OR 0x80 :: byte) = of_nat (unat (v :: uint64) mod 128 + 128)"
proof -
  let ?x = "ucast (v AND 0x7F) :: byte"
  have x: "unat ?x = unat v mod 128" by (simp add: unsigned_ucast_eq take_bit_eq_mod unat_and_7F)
  have "unat (?x OR push_bit 7 1) = unat ?x + 2 ^ 7 * unat (1 :: byte)"
    by (rule unat_or_push_bit) (use x in \<open>simp_all\<close>)
  then show ?thesis using x by (intro word_unat_eq_iff [THEN iffD2]) (simp add: unat_word_ariths unat_of_nat)
qed

lemma varint_last_byte:
  "(ucast (v AND 0x7F) OR 0x80 :: byte) AND 0x7F = of_nat (unat (v :: uint64) mod 128)"
  unfolding varint_byte
  by (rule word_unat_eq_iff [THEN iffD2]) (simp add: unat_and_7F unat_of_nat unat_word_ariths)

lemma unat_drop_7: "unat (drop_bit 7 v) = unat (v :: uint64) div 128"
  by (simp add: drop_bit_eq_div unat_div)

lemma drop_7_zero_iff: "drop_bit 7 v = 0 \<longleftrightarrow> unat (v :: uint64) < 128"
  using unat_drop_7 [of v] by (metis div_eq_0_iff unat_eq_zero zero_neq_numeral)

lemma pb_varint_fill_Nil_iff [simp]: "pb_varint_fill v = [] \<longleftrightarrow> v = 0"
  by (simp add: pb_varint_fill.simps [of v])

lemma update_last_Cons:
  "xs \<noteq> [] \<Longrightarrow> (x # xs)[length (x # xs) - 1 := f ((x # xs) ! (length (x # xs) - 1))]
     = x # xs[length xs - 1 := f (xs ! (length xs - 1))]"
  by (cases xs) simp_all

text \<open>The buffer with the top bit of its last byte cleared is the base-128 notation.\<close>

lemma pb_varint_fill_spec:
  "v \<noteq> 0 \<Longrightarrow>
     (pb_varint_fill v)[length (pb_varint_fill v) - 1 :=
        (pb_varint_fill v ! (length (pb_varint_fill v) - 1)) AND 0x7F] = varint_spec (unat v)"
proof (induction v rule: pb_varint_fill.induct)
  case (1 v)
  let ?b = "ucast (v AND 0x7F) OR 0x80 :: byte" and ?r = "pb_varint_fill (drop_bit 7 v)"
  have fill: "pb_varint_fill v = ?b # ?r" using "1.prems" by (simp add: pb_varint_fill.simps [of v])
  show ?case
  proof (cases "drop_bit 7 v = 0")
    case True
    then have "unat v < 128" by (simp add: drop_7_zero_iff)
    then show ?thesis using True fill varint_last_byte [of v]
      by (simp add: pb_varint_fill.simps [of 0] varint_spec_small)
  next
    case False
    then have "128 \<le> unat v" and "?r \<noteq> []" by (simp_all add: drop_7_zero_iff)
    then show ?thesis
      unfolding fill varint_spec_large [OF \<open>128 \<le> unat v\<close>]
        update_last_Cons [OF \<open>?r \<noteq> []\<close>, where f = "\<lambda>b. b AND 0x7F"]
      by (simp only: "1.IH" [OF "1.prems" False] unat_drop_7 varint_byte)
  qed
qed

lemma pb_encode_varint_spec:
  "pb_encode_varint os v =
     pb_write os (varint_spec (unat v)) (of_nat (length (varint_spec (unat v))))"
proof (cases "v \<le> 0x7F")
  case True
  then have "unat v < 128" by (simp add: word_le_nat_alt)
  moreover have "ucast v = (of_nat (unat v) :: byte)" by (simp add: word_unat_eq_iff unsigned_ucast_eq unat_of_nat take_bit_eq_mod)
  ultimately show ?thesis using True by (simp add: pb_encode_varint_def varint_spec_small)
next
  case False
  then have "v \<noteq> 0" by auto
  from pb_varint_fill_spec [OF this] False show ?thesis
    by (simp add: pb_encode_varint_def Let_def) (metis length_list_update)
qed

section \<open>Varints on streams\<close>

context ostream_sink
begin

lemma encodes_varint: "encodes (\<lambda>os. pb_encode_varint os v) (varint_spec (unat v))"
  unfolding pb_encode_varint_spec
  by (rule encodes_write) (use length_varint_64 [of v] in simp)

end

lemma no_overflow_28:
  assumes "unat r + 2 ^ unat bitpos * n < (2 :: nat) ^ 32"
  shows "\<not> ((bitpos :: uint8) + 7 = 35 \<and> (of_nat n :: byte) AND 0x70 \<noteq> 0)"
proof
  assume *: "bitpos + 7 = 35 \<and> (of_nat n :: byte) AND 0x70 \<noteq> 0"
  then have "bitpos = 35 - 7" by (simp add: eq_diff_eq)
  then have "bitpos = 28" by simp
  with assms have "2 ^ 28 * n < 2 ^ 32" by simp
  then have n: "n < 16" by simp
  have "\<forall>n < 16. (of_nat n :: byte) AND 0x70 = 0" by code_simp
  with n * show False by simp
qed

context istream_source
begin

lemma varint_first:
  assumes "is_inv s" and "is_data s = varint_spec n @ cs"
  shows "n < 128 \<Longrightarrow> \<exists>s'. pb_readbyte s = (Some (of_nat n), s') \<and>
      reads s (varint_spec n) s' \<and> is_data s' = cs"
    and "128 \<le> n \<Longrightarrow> \<exists>s'. pb_readbyte s = (Some (of_nat (n mod 128 + 128)), s') \<and>
      reads s [of_nat (n mod 128 + 128)] s' \<and> is_data s' = varint_spec (n div 128) @ cs"
  using pb_readbyte_data(2) [OF assms(1)] assms(2)
  by (simp_all add: varint_spec_small varint_spec_large)

lemma pb_varint_loop_data:
  assumes "is_inv s" and "is_data s = varint_spec n @ cs"
    and "unat bitpos < 64" and "unat r < 2 ^ unat bitpos"
    and "unat r + 2 ^ unat bitpos * n < 2 ^ 64"
  shows "\<exists>s'. pb_varint_loop s bitpos r = (Some (of_nat (unat r + 2 ^ unat bitpos * n)), s') \<and>
     reads s (varint_spec n) s' \<and> is_data s' = cs"
  using assms
proof (induction n arbitrary: s bitpos r rule: varint_spec.induct)
  case (1 n)
  have lt: "\<not> bitpos \<ge> 64" using "1.prems"(3) by (simp add: word_le_nat_alt)
  show ?case
  proof (cases "n < 128")
    case True
    with varint_first(1) [OF "1.prems"(1,2)] group_last [OF True "1.prems"(4)] "1.prems"(5) lt
    show ?thesis by (auto simp: pb_varint_loop.simps [of s] final_bit Let_def)
  next
    case False
    then have n: "128 \<le> n" by simp
    let ?b = "of_nat (n mod 128 + 128) :: byte"
    let ?r = "r OR push_bit (unat bitpos) (ucast (?b AND 0x7F))"
    from varint_first(2) [OF "1.prems"(1,2) n] obtain s1 where s1: "pb_readbyte s = (Some ?b, s1)"
      "reads s [?b] s1" "is_data s1 = varint_spec (n div 128) @ cs" by blast
    have bp: "unat (bitpos + 7) < 64" and small: "unat ?r < 2 ^ unat (bitpos + 7)"
      and tot: "unat ?r + 2 ^ unat (bitpos + 7) * (n div 128) = unat r + 2 ^ unat bitpos * n"
      using group_step [OF n "1.prems"(4)] "1.prems"(5) by (simp_all del: of_nat_add)
    from "1.IH" [OF False readsD(2) [OF s1(2)] s1(3) bp small, unfolded tot, OF "1.prems"(5)]
    obtain s2 where
      s2: "pb_varint_loop s1 (bitpos + 7) ?r = (Some (of_nat (unat r + 2 ^ unat bitpos * n)), s2)"
        "reads s1 (varint_spec (n div 128)) s2" "is_data s2 = cs" by blast
    with s1 lt reads_append [OF s1(2) s2(2)] n continuation_bit [of n] show ?thesis
      by (simp add: pb_varint_loop.simps [of s] varint_spec_large Let_def)
  qed
qed

lemma pb_decode_varint_data:
  assumes "is_inv s" and "is_data s = varint_spec (unat v) @ cs"
  shows "\<exists>s'. pb_decode_varint s = (Some v, s') \<and> reads s (varint_spec (unat v)) s' \<and>
     is_data s' = cs"
  using pb_varint_loop_data [OF assms, of 0 0] unat_less_64 [of v]
  by (simp add: pb_decode_varint_def)

lemma pb_varint32_loop_data:
  assumes "is_inv s" and "is_data s = varint_spec n @ cs"
    and "unat bitpos < 32" and "unat r < 2 ^ unat bitpos"
    and "unat r + 2 ^ unat bitpos * n < 2 ^ 32"
  shows "\<exists>s'. pb_varint32_loop s bitpos r = (Some (of_nat (unat r + 2 ^ unat bitpos * n)), s') \<and>
     reads s (varint_spec n) s' \<and> is_data s' = cs"
  using assms
proof (induction n arbitrary: s bitpos r rule: varint_spec.induct)
  case (1 n)
  have lt: "\<not> bitpos \<ge> 32" using "1.prems"(3) by (simp add: word_le_nat_alt)
  show ?case
  proof (cases "n < 128")
    case True
    have "\<not> (bitpos + 7 = 35 \<and> (of_nat n :: byte) AND 0x70 \<noteq> 0)"
      by (rule no_overflow_28) (use "1.prems"(5) in simp)
    with varint_first(1) [OF "1.prems"(1,2) True] group_last [OF True "1.prems"(4)] "1.prems"(5) lt
    show ?thesis by (auto simp: pb_varint32_loop.simps [of s] final_bit [OF True] Let_def)
  next
    case False
    then have n: "128 \<le> n" by simp
    let ?b = "of_nat (n mod 128 + 128) :: byte"
    let ?r = "r OR push_bit (unat bitpos) (ucast (?b AND 0x7F))"
    from varint_first(2) [OF "1.prems"(1,2) n] obtain s1 where s1: "pb_readbyte s = (Some ?b, s1)"
      "reads s [?b] s1" "is_data s1 = varint_spec (n div 128) @ cs" by blast
    have bp: "unat (bitpos + 7) < 32" and small: "unat ?r < 2 ^ unat (bitpos + 7)"
      and tot: "unat ?r + 2 ^ unat (bitpos + 7) * (n div 128) = unat r + 2 ^ unat bitpos * n"
      using group_step [OF n "1.prems"(4)] "1.prems"(5) by (simp_all del: of_nat_add)
    from "1.IH" [OF False readsD(2) [OF s1(2)] s1(3) bp small, unfolded tot, OF "1.prems"(5)]
    obtain s2 where
      s2: "pb_varint32_loop s1 (bitpos + 7) ?r = (Some (of_nat (unat r + 2 ^ unat bitpos * n)), s2)"
        "reads s1 (varint_spec (n div 128)) s2" "is_data s2 = cs" by blast
    with s1 lt reads_append [OF s1(2) s2(2)] n continuation_bit [of n] show ?thesis
      by (simp add: pb_varint32_loop.simps [of s] varint_spec_large Let_def)
  qed
qed

end

context istream_source
begin

lemma pb_decode_varint32_eof_data:
  assumes "is_inv s" and "is_data s = varint_spec (unat v) @ cs"
  shows "\<exists>s'. pb_decode_varint32_eof s = (Some v, False, s') \<and>
     reads s (varint_spec (unat v)) s' \<and> is_data s' = cs"
proof (cases "unat v < 128")
  case True
  have "ucast (of_nat (unat v) :: byte) = v" using ucast_of_nat_byte [OF True] by simp
  with varint_first(1) [OF assms True] final_bit [OF True] show ?thesis
    by (auto simp: pb_decode_varint32_eof_def)
next
  case False
  then have n: "128 \<le> unat v" by simp
  let ?b = "of_nat (unat v mod 128 + 128) :: byte" and ?n = "unat v div 128"
  let ?r = "ucast (?b AND 0x7F) :: uint32"
  from varint_first(2) [OF assms n] obtain s1 where s1: "pb_readbyte s = (Some ?b, s1)"
    "reads s [?b] s1" "is_data s1 = varint_spec ?n @ cs" by blast
  have r: "unat ?r = unat v mod 128"
    by (simp add: unat_ucast_byte unat_and_7F unat_of_nat unat_word_ariths)
  have tot: "unat ?r + 2 ^ unat (7 :: uint8) * ?n = unat v" unfolding r by simp
  have "unat v < 2 ^ 32" using unat_less_pow [of v] by simp
  moreover have "unat ?r < 2 ^ unat (7 :: uint8)" unfolding r by simp
  ultimately obtain s2 where "pb_varint32_loop s1 7 ?r = (Some v, s2)" "reads s1 (varint_spec ?n) s2"
    "is_data s2 = cs"
    using pb_varint32_loop_data [OF readsD(2) [OF s1(2)] s1(3), of 7 ?r, unfolded tot]
    by (auto simp del: of_nat_add)
  with s1 n continuation_bit [of "unat v"] reads_append [OF s1(2)] show ?thesis
    by (auto simp: pb_decode_varint32_eof_def varint_spec_large)
qed

lemma pb_decode_varint32_data:
  assumes "is_inv s" and "is_data s = varint_spec (unat v) @ cs"
  shows "\<exists>s'. pb_decode_varint32 s = (Some v, s') \<and> reads s (varint_spec (unat v)) s' \<and>
     is_data s' = cs"
  using pb_decode_varint32_eof_data [OF assms] by (auto simp: pb_decode_varint32_def)

lemma pb_decode_tag_end:
  "is_inv s \<Longrightarrow> is_data s = [] \<Longrightarrow> pb_decode_tag s = (TagEof, is_error s ''end-of-stream'')"
  using bytes_left_zero_iff [of s]
  by (simp add: pb_decode_tag_def pb_decode_varint32_eof_def pb_readbyte_end)

end

section \<open>Zig-zag\<close>

lemma less_63_cases: "n < 64 \<Longrightarrow> 63 \<le> n \<Longrightarrow> n = (63 :: nat)"
  by simp

lemma unzigzag_zigzag: "unzigzag (zigzag v) = v"
proof -
  have neg: "v <s 0 \<longleftrightarrow> bit v 63"
    using bit_last_iff [of v] by (simp add: word_sless_alt)
  show ?thesis
  proof (cases "bit v 63")
    case True
    have odd: "NOT (push_bit 1 v) AND 1 \<noteq> 0"
      using bit_iff_and_push_bit_not_eq_0 [of "NOT (push_bit 1 v)" 0] by (simp add: bit_not_iff bit_0)
    have "NOT (drop_bit 1 (NOT (push_bit 1 v))) = v"
      using True by (intro bit_word_eqI) (auto simp: bit_simps not_less dest: less_63_cases simp del: push_bit_Suc drop_bit_Suc)
    with True neg odd show ?thesis by (simp add: zigzag_def unzigzag_def)
  next
    case False
    have "push_bit 1 v AND 1 = 0"
      using bit_iff_and_push_bit_not_eq_0 [of "push_bit 1 v" 0] by (simp add: bit_0)
    moreover have "drop_bit 1 (push_bit 1 v) = v"
      using False by (intro bit_word_eqI) (auto simp: bit_simps not_less dest: less_63_cases simp del: push_bit_Suc drop_bit_Suc)
    ultimately show ?thesis using False neg by (simp add: zigzag_def unzigzag_def)
  qed
qed




section \<open>Fixed-width integers\<close>

lemma fixed32_bytes:
  "[ucast (v AND 0xFF), ucast (drop_bit 8 v AND 0xFF), ucast (drop_bit 16 v AND 0xFF),
    ucast (drop_bit 24 v AND 0xFF)] = to_bytes 4 (v :: uint32)"
  by (simp add: to_bytes_def upt_rec ucast_and_FF)

lemma fixed64_bytes:
  "[ucast (v AND 0xFF), ucast (drop_bit 8 v AND 0xFF), ucast (drop_bit 16 v AND 0xFF),
    ucast (drop_bit 24 v AND 0xFF), ucast (drop_bit 32 v AND 0xFF), ucast (drop_bit 40 v AND 0xFF),
    ucast (drop_bit 48 v AND 0xFF), ucast (drop_bit 56 v AND 0xFF)] = to_bytes 8 (v :: uint64)"
  by (simp add: to_bytes_def upt_rec ucast_and_FF)

lemma list_of_4: "length xs = 4 \<Longrightarrow> xs = [xs ! 0, xs ! 1, xs ! 2, xs ! 3]"
  by (auto simp: numeral_eq_Suc length_Suc_conv)

lemma list_of_8: "length xs = 8 \<Longrightarrow>
    xs = [xs ! 0, xs ! 1, xs ! 2, xs ! 3, xs ! 4, xs ! 5, xs ! 6, xs ! 7]"
  by (auto simp: numeral_eq_Suc length_Suc_conv)

lemma fixed32_assemble:
  assumes "length bs = 4"
  shows "push_bit 0 (ucast (byte_at bs 0)) OR push_bit 8 (ucast (byte_at bs 1)) OR
     push_bit 16 (ucast (byte_at bs 2)) OR push_bit 24 (ucast (byte_at bs 3))
   = (of_bytes bs :: uint32)"
  using assms by (subst (5) list_of_4) (simp_all add: byte_at_def push_bit_or ac_simps)

lemma fixed64_assemble:
  assumes "length bs = 8"
  shows "push_bit 0 (ucast (byte_at bs 0)) OR push_bit 8 (ucast (byte_at bs 1)) OR
     push_bit 16 (ucast (byte_at bs 2)) OR push_bit 24 (ucast (byte_at bs 3)) OR
     push_bit 32 (ucast (byte_at bs 4)) OR push_bit 40 (ucast (byte_at bs 5)) OR
     push_bit 48 (ucast (byte_at bs 6)) OR push_bit 56 (ucast (byte_at bs 7))
   = (of_bytes bs :: uint64)"
  using assms by (subst (9) list_of_8) (simp_all add: byte_at_def push_bit_or ac_simps)

section \<open>Encoders of the wire primitives\<close>

context ostream_sink
begin

lemma encodes_svarint: "encodes (\<lambda>os. pb_encode_svarint os v) (varint_spec (unat (zigzag v)))"
  unfolding pb_encode_svarint_def by (rule encodes_varint)

lemma encodes_fixed32: "encodes (\<lambda>os. pb_encode_fixed32 m os p) (to_bytes 4 (load32 m p))"
  unfolding pb_encode_fixed32_def Let_def fixed32_bytes
  using encodes_write [of "to_bytes 4 (load32 m p)"] by simp

lemma encodes_fixed64: "encodes (\<lambda>os. pb_encode_fixed64 m os p) (to_bytes 8 (load64 m p))"
  unfolding pb_encode_fixed64_def Let_def fixed64_bytes
  using encodes_write [of "to_bytes 8 (load64 m p)"] by simp

lemma encodes_string:
  assumes "length bs < 2 ^ 64"
  shows "encodes (\<lambda>os. pb_encode_string os bs (of_nat (length bs)))
    (varint_spec (length bs) @ bs)"
  unfolding pb_encode_string_def
  using encodes_seq [OF encodes_varint [of "of_nat (length bs)"] encodes_write [OF assms]] assms
  by (simp add: unat_of_nat)

end

section \<open>Tags\<close>

text \<open>The number on the wire of a tag.\<close>

definition tag_code :: "pb_wire_type_t \<Rightarrow> uint32 \<Rightarrow> nat" where
  "tag_code wt tag = 8 * unat tag + unat wt"

lemma unat_tag_word:
  assumes "unat wt < 8"
  shows "unat (push_bit 3 (ucast (tag :: uint32)) OR ucast (wt :: uint32) :: uint64) = tag_code wt tag"
proof -
  have w: "unat (ucast wt :: uint64) = unat wt" and t: "unat (ucast tag :: uint64) = unat tag"
    using unat_less_pow [of wt] unat_less_pow [of tag]
    by (simp_all add: unsigned_ucast_eq take_bit_eq_mod)
  have "unat (ucast wt OR push_bit 3 (ucast tag) :: uint64)
      = unat (ucast wt :: uint64) + 2 ^ 3 * unat (ucast tag :: uint64)"
    by (rule unat_or_push_bit) (use w t assms unat_less_pow [of tag] in simp_all)
  with w t show ?thesis by (simp add: tag_code_def or.commute)
qed

lemma pb_encode_tag_spec:
  "unat wt < 8 \<Longrightarrow> pb_encode_tag os wt tag =
     pb_write os (varint_spec (tag_code wt tag)) (of_nat (length (varint_spec (tag_code wt tag))))"
  by (simp only: pb_encode_tag_def pb_encode_varint_spec unat_tag_word)

lemma length_varint_tag: "unat wt < 8 \<Longrightarrow> length (varint_spec (tag_code wt tag)) \<le> 5"
  using unat_less_pow [of tag]
  by (intro length_varint_spec_le) (simp_all add: tag_code_def)

context ostream_sink
begin

lemma encodes_tag: "unat wt < 8 \<Longrightarrow> encodes (\<lambda>os. pb_encode_tag os wt tag) (varint_spec (tag_code wt tag))"
  unfolding pb_encode_tag_def using encodes_varint unat_tag_word by metis

end

text \<open>A tag survives the 32-bit word of the decoder when it has at most 29 bits.\<close>

lemma tag_of_word:
  assumes "unat wt < 8" and "unat tag < 2 ^ 29"
  defines "t \<equiv> of_nat (tag_code wt tag) :: uint32"
  shows "unat t = tag_code wt tag" and "t AND 7 = wt" and "drop_bit 3 t = tag"
proof -
  show t: "unat t = tag_code wt tag"
    using assms(1,2) unfolding t_def unat_of_nat by (simp add: tag_code_def)
  have "(7 :: uint32) = mask 3" by (simp add: mask_eq_exp_minus_1)
  then have "t AND 7 = take_bit 3 t" by (simp add: take_bit_eq_mask)
  moreover have "take_bit 3 t = wt"
    using assms t by (intro word_unat_eq_iff [THEN iffD2]) (simp add: unat_take_bit tag_code_def)
  ultimately show "t AND 7 = wt" by simp
  show "drop_bit 3 t = tag"
    using assms t
    by (intro word_unat_eq_iff [THEN iffD2]) (simp add: drop_bit_eq_div unat_div tag_code_def)
qed

context istream_source
begin

lemma pb_decode_tag_data:
  assumes "is_inv s" and "is_data s = varint_spec (tag_code wt tag) @ cs"
    and "unat wt < 8" and "unat tag < 2 ^ 29" and "tag \<noteq> 0"
  shows "\<exists>s'. pb_decode_tag s = (TagField wt tag, s') \<and>
     reads s (varint_spec (tag_code wt tag)) s' \<and> is_data s' = cs"
proof -
  let ?t = "of_nat (tag_code wt tag) :: uint32"
  note t = tag_of_word [OF assms(3,4)]
  from assms(5) have "?t \<noteq> 0" using t(3) by (metis drop_bit_of_0)
  with pb_decode_varint32_eof_data [OF assms(1), of ?t cs] assms(2) t show ?thesis
    by (auto simp: pb_decode_tag_def)
qed

lemma pb_decode_svarint_data:
  assumes "is_inv s" and "is_data s = varint_spec (unat (zigzag v)) @ cs"
  shows "\<exists>s'. pb_decode_svarint s = (Some v, s') \<and> reads s (varint_spec (unat (zigzag v))) s' \<and>
     is_data s' = cs"
  using pb_decode_varint_data [OF assms] by (auto simp: pb_decode_svarint_def unzigzag_zigzag)

lemma pb_decode_fixed32_data:
  assumes "is_inv s" and "is_data s = to_bytes 4 v @ cs"
  shows "\<exists>s'. pb_decode_fixed32 s m dest = (True, s', store32 m dest v) \<and>
     reads s (to_bytes 4 v) s' \<and> is_data s' = cs"
  using pb_read_data [OF assms, of 4 True]
  by (auto simp: pb_decode_fixed32_def fixed32_assemble [simplified] of_bytes_to_bytes)

lemma pb_decode_fixed64_data:
  assumes "is_inv s" and "is_data s = to_bytes 8 v @ cs"
  shows "\<exists>s'. pb_decode_fixed64 s m dest = (True, s', store64 m dest v) \<and>
     reads s (to_bytes 8 v) s' \<and> is_data s' = cs"
  using pb_read_data [OF assms, of 8 True]
  by (auto simp: pb_decode_fixed64_def fixed64_assemble [simplified] of_bytes_to_bytes)

lemma pb_skip_varint_data:
  assumes "is_inv s" and "is_data s = varint_spec n @ cs"
  shows "\<exists>s'. pb_skip_varint s = (True, s') \<and> reads s (varint_spec n) s' \<and> is_data s' = cs"
  using assms
proof (induction n arbitrary: s rule: varint_spec.induct)
  case (1 n)
  show ?case
  proof (cases "n < 128")
    case True
    with "1.prems" pb_read_data [OF "1.prems"(1), of "[of_nat n]" cs 1 True] final_bit [OF True]
    show ?thesis by (auto simp: varint_spec_small pb_skip_varint.simps [of s] byte_at_def)
  next
    case False
    then have n: "128 \<le> n" by simp
    let ?b = "of_nat (n mod 128 + 128) :: byte"
    have "is_data s = [?b] @ varint_spec (n div 128) @ cs"
      using "1.prems"(2) n by (simp add: varint_spec_large)
    from pb_read_data [OF "1.prems"(1) this, of 1 True] obtain s1
      where s1: "pb_read s True 1 = (True, [?b], s1)" "reads s [?b] s1"
        "is_data s1 = varint_spec (n div 128) @ cs" by auto
    from "1.IH" [OF False readsD(2) [OF s1(2)] s1(3)] obtain s2 where
      "pb_skip_varint s1 = (True, s2)" "reads s1 (varint_spec (n div 128)) s2" "is_data s2 = cs"
      by blast
    with s1 reads_append [OF s1(2)] continuation_bit [of n] n show ?thesis
      by (auto simp: pb_skip_varint.simps [of s] varint_spec_large byte_at_def)
  qed
qed

lemma pb_skip_string_data:
  assumes "is_inv s" and "is_data s = varint_spec (length bs) @ bs @ cs" and "length bs < 2 ^ 32"
  shows "\<exists>s'. pb_skip_string s = (True, s') \<and> reads s (varint_spec (length bs) @ bs) s' \<and>
     is_data s' = cs"
proof -
  let ?n = "of_nat (length bs) :: uint32"
  have n: "unat ?n = length bs" using assms(3) by (simp add: unat_of_nat)
  from pb_decode_varint32_data [OF assms(1), of ?n] assms(2) n obtain s1 where
    s1: "pb_decode_varint32 s = (Some ?n, s1)" "reads s (varint_spec (length bs)) s1"
      "is_data s1 = bs @ cs" by auto
  have "length bs = unat (ucast ?n :: size_t)"
    using assms(3) n by (simp add: unsigned_ucast_eq take_bit_eq_mod)
  from pb_read_data [OF readsD(2) [OF s1(2)] s1(3) this, of False] obtain s2 where
    "pb_read s1 False (ucast ?n) = (True, [], s2)" "reads s1 bs s2" "is_data s2 = cs" by auto
  with s1 reads_append [OF s1(2)] show ?thesis by (auto simp: pb_skip_string_def)
qed

end

section \<open>Substreams\<close>

context istream_source
begin

lemma reads_fields:
  assumes "reads s bs s'"
  shows "s' = s\<lparr>is_state := is_state s', is_bytes_left := is_bytes_left s - of_nat (length bs)\<rparr>"
    and "rest (is_state s') = drop (length bs) (rest (is_state s))" and "valid (is_state s')"
  using assms unfolding reads_def by auto

text \<open>Closing reads off what the reader of the substream has left.\<close>

lemma close_reads_rest:
  assumes "reads sub used sub'" and "is_data sub = used @ left"
  shows "\<exists>sub''. reads sub (used @ left) sub'' \<and>
    pb_close_string_substream s sub' =
      (True, s\<lparr>is_state := is_state sub'', is_errmsg := is_errmsg sub\<rparr>)"
proof -
  note d = readsD [OF assms(1)]
  have left: "is_data sub' = left @ []" using d(3) assms(2) by simp
  show ?thesis
  proof (cases "is_bytes_left sub' = 0")
    case True
    with left bytes_left_zero_iff [OF d(2)] have "left = []" by simp
    with True assms(1) d(5) show ?thesis
      by (intro exI [of _ sub']) (simp add: pb_close_string_substream_def)
  next
    case False
    have "length left = unat (is_bytes_left sub')"
      using left is_inv_length_data [OF d(2)] by simp
    from pb_read_data [OF d(2) left this, of False] obtain sub'' where
      sub'': "pb_read sub' False (is_bytes_left sub') = (True, [], sub'')" "reads sub' left sub''"
      by auto
    with False reads_append [OF assms(1) sub''(2)] d(5) readsD(5) [OF sub''(2)] show ?thesis
      by (intro exI [of _ sub'']) (simp add: pb_close_string_substream_def)
  qed
qed

lemma substream_data:
  assumes inv: "is_inv s" and data: "is_data s = varint_spec (length bs) @ bs @ cs"
    and len: "length bs < 2 ^ 32"
  obtains sub s1 where "pb_make_string_substream s = (Some sub, s1)"
    and "is_inv sub" and "is_data sub = bs" and "is_errmsg sub = is_errmsg s"
    and "\<And>used sub'. reads sub used sub' \<Longrightarrow>
      \<exists>s2. pb_close_string_substream s1 sub' = (True, s2) \<and>
           reads s (varint_spec (length bs) @ bs) s2 \<and> is_data s2 = cs"
proof -
  let ?n = "of_nat (length bs) :: uint32"
  have n: "unat ?n = length bs" using len by (simp add: unat_of_nat)
  then have n64: "(ucast ?n :: size_t) = of_nat (length bs)" and un64: "unat (ucast ?n :: size_t) = length bs"
    using len by (simp_all add: word_unat_eq_iff unsigned_ucast_eq take_bit_eq_mod unat_of_nat)
  from pb_decode_varint32_data [OF inv, of ?n] data n obtain s' where
    s': "pb_decode_varint32 s = (Some ?n, s')" "reads s (varint_spec (length bs)) s'"
      "is_data s' = bs @ cs" by auto
  note d = readsD [OF s'(2)]
  have "length bs \<le> unat (is_bytes_left s')" using is_inv_length_data [OF d(2)] s'(3) by simp
  then have le: "\<not> is_bytes_left s' < ucast ?n" by (simp add: word_less_nat_alt un64)
  let ?sub = "s'\<lparr>is_bytes_left := ucast ?n\<rparr>"
  let ?s1 = "s'\<lparr>is_bytes_left := is_bytes_left s' - ucast ?n\<rparr>"
  have inv_sub: "is_inv ?sub" using d(2) le by (simp add: is_inv_def un64 word_less_nat_alt)
  have data_sub: "is_data ?sub = bs"
  proof -
    have "is_data ?sub = take (length bs) (is_data s')"
      using le by (simp add: is_data_def un64 min_def word_less_nat_alt)
    then show ?thesis using s'(3) by simp
  qed
  have close: "\<exists>s2. pb_close_string_substream ?s1 sub' = (True, s2) \<and>
      reads s (varint_spec (length bs) @ bs) s2 \<and> is_data s2 = cs"
    if sub': "reads ?sub used sub'" for used sub'
  proof -
    from readsD(3) [OF sub'] data_sub obtain left where bs: "bs = used @ left" by metis
    with close_reads_rest [OF sub'] data_sub obtain sub'' where
      sub'': "reads ?sub bs sub''"
        "pb_close_string_substream ?s1 sub' =
          (True, ?s1\<lparr>is_state := is_state sub'', is_errmsg := is_errmsg ?sub\<rparr>)"
      by metis
    let ?s2 = "?s1\<lparr>is_state := is_state sub'', is_errmsg := is_errmsg ?sub\<rparr>"
    have "?s2 = s'\<lparr>is_state := is_state sub'',
        is_bytes_left := is_bytes_left s' - of_nat (length bs)\<rparr>" by (simp add: n64)
    moreover have "reads s' bs (s'\<lparr>is_state := is_state sub'',
        is_bytes_left := is_bytes_left s' - of_nat (length bs)\<rparr>)"
      using reads_fields [OF sub''(1)] sub''(1) d(2) le
      by (intro readsI) (auto simp: reads_def un64 word_less_nat_alt)
    ultimately have r: "reads s' bs ?s2" by simp
    with readsD(3) [OF r] s'(3) reads_append [OF s'(2) r] sub''(2) show ?thesis by auto
  qed
  show thesis
    by (rule that [of ?sub ?s1]) (use s' le inv_sub data_sub d(5) close in
      \<open>simp_all add: pb_make_string_substream_def\<close>)
qed

end

section \<open>Round trips through a buffer\<close>

text \<open>Decoding from the bytes an encoder has left in its buffer.\<close>

lemma obuf_ibuf:
  assumes "obuf.encodes E bs" and "unat n \<le> length buf" and "length bs \<le> unat n"
  obtains os' and s :: "'c pb_istream" where "E (pb_ostream_from_buffer buf n) = (True, os')"
    and "s = pb_istream_from_buffer (ob_mem (os_state os')) (os_bytes_written os')"
    and "ibuf.is_inv s" and "ibuf.is_data s = bs" and "unat (os_bytes_written os') = length bs"
proof -
  from obuf_run [OF assms] obtain os' where os': "E (pb_ostream_from_buffer buf n) = (True, os')"
    "take (length bs) (ob_mem (os_state os')) = bs" "unat (os_bytes_written os') = length bs" .
  from os'(2) have "length bs \<le> length (ob_mem (os_state os'))"
    by (metis length_take min.cobounded1)
  with ibuf_from_buffer [of "os_bytes_written os'" "ob_mem (os_state os')"] os' that
  show thesis by (metis (no_types, lifting))
qed

lemma ibuf_all_read:
  assumes "ibuf.reads s bs s'" and "ibuf.is_data s = bs" and "ibuf.is_inv s"
  shows "is_bytes_left s' = 0"
proof -
  have "length bs = unat (is_bytes_left s)"
    using assms(2,3) by (auto simp: ibuf.is_data_def ibuf.is_inv_def)
  with ibuf.readsD(6) [OF assms(1)] show ?thesis by (simp add: unat_eq_zero)
qed

text \<open>C30: every 64-bit value written by the varint encoder into a buffer of at least ten bytes is
  read back by the varint decoder, which consumes exactly what was written.\<close>

lemma pb_varint_roundtrip:
  assumes "unat n \<le> length buf" and "10 \<le> unat n"
  shows "\<exists>os' s'. pb_encode_varint (pb_ostream_from_buffer buf n) v = (True, os') \<and>
    pb_decode_varint (pb_istream_from_buffer (ob_mem (os_state os')) (os_bytes_written os'))
      = (Some v, s' :: unit pb_istream) \<and> is_bytes_left s' = 0"
proof -
  have "length (varint_spec (unat v)) \<le> unat n" using length_varint_64 [of v] assms(2) by linarith
  from obuf_ibuf [OF obuf.encodes_varint assms(1) this] obtain os' and s :: "unit pb_istream"
    where *: "pb_encode_varint (pb_ostream_from_buffer buf n) v = (True, os')"
    "s = pb_istream_from_buffer (ob_mem (os_state os')) (os_bytes_written os')"
    "ibuf.is_inv s" "ibuf.is_data s = varint_spec (unat v)" .
  from ibuf.pb_decode_varint_data [OF *(3), of v "[]"] *(4) obtain s' where
    "pb_decode_varint s = (Some v, s')" "ibuf.reads s (varint_spec (unat v)) s'" by auto
  with * ibuf_all_read [OF this(2) *(4,3)] show ?thesis by blast
qed

lemma pb_varint_roundtrip_witness:
  "\<exists>os' s'. pb_encode_varint (pb_ostream_from_buffer (replicate 16 0) 16) 300 = (True, os') \<and>
    pb_decode_varint (pb_istream_from_buffer (ob_mem (os_state os')) (os_bytes_written os'))
      = (Some 300, s' :: unit pb_istream) \<and> is_bytes_left s' = 0"
  by (rule pb_varint_roundtrip) simp_all

text \<open>Every 32-bit value written as a varint is read back by the 32-bit decoder.\<close>

lemma pb_varint32_roundtrip:
  assumes "unat n \<le> length buf" and "5 \<le> unat n"
  shows "\<exists>os' s'. pb_encode_varint (pb_ostream_from_buffer buf n) (ucast (v :: uint32)) = (True, os') \<and>
    pb_decode_varint32 (pb_istream_from_buffer (ob_mem (os_state os')) (os_bytes_written os'))
      = (Some v, s' :: unit pb_istream) \<and> is_bytes_left s' = 0"
proof -
  have v: "unat (ucast v :: uint64) = unat v"
    using unat_less_pow [of v] by (simp add: unsigned_ucast_eq take_bit_eq_mod)
  have "length (varint_spec (unat v)) \<le> 5"
    using unat_less_pow [of v] by (intro length_varint_spec_le) simp_all
  then have "length (varint_spec (unat (ucast v :: uint64))) \<le> unat n" using assms(2) v by simp
  from obuf_ibuf [OF obuf.encodes_varint assms(1) this] obtain os' and s :: "unit pb_istream"
    where *: "pb_encode_varint (pb_ostream_from_buffer buf n) (ucast v) = (True, os')"
    "s = pb_istream_from_buffer (ob_mem (os_state os')) (os_bytes_written os')"
    "ibuf.is_inv s" "ibuf.is_data s = varint_spec (unat v)" unfolding v .
  from ibuf.pb_decode_varint32_data [OF *(3), of v "[]"] *(4) obtain s' where
    "pb_decode_varint32 s = (Some v, s')" "ibuf.reads s (varint_spec (unat v)) s'" by auto
  with * ibuf_all_read [OF this(2) *(4,3)] show ?thesis by blast
qed

lemma pb_varint32_roundtrip_witness:
  "\<exists>os' s'. pb_encode_varint (pb_ostream_from_buffer (replicate 5 0) 5) (ucast (0xFFFFFFFF :: uint32)) = (True, os') \<and>
    pb_decode_varint32 (pb_istream_from_buffer (ob_mem (os_state os')) (os_bytes_written os'))
      = (Some 0xFFFFFFFF, s' :: unit pb_istream) \<and> is_bytes_left s' = 0"
  by (rule pb_varint32_roundtrip) simp_all

text \<open>Zig-zag varints are read back as they were written.\<close>

lemma pb_svarint_roundtrip:
  assumes "unat n \<le> length buf" and "10 \<le> unat n"
  shows "\<exists>os' s'. pb_encode_svarint (pb_ostream_from_buffer buf n) v = (True, os') \<and>
    pb_decode_svarint (pb_istream_from_buffer (ob_mem (os_state os')) (os_bytes_written os'))
      = (Some v, s' :: unit pb_istream) \<and> is_bytes_left s' = 0"
proof -
  have "length (varint_spec (unat (zigzag v))) \<le> unat n" using length_varint_64 [of "zigzag v"] assms(2) by linarith
  from obuf_ibuf [OF obuf.encodes_svarint assms(1) this] obtain os' and s :: "unit pb_istream"
    where *: "pb_encode_svarint (pb_ostream_from_buffer buf n) v = (True, os')"
    "s = pb_istream_from_buffer (ob_mem (os_state os')) (os_bytes_written os')"
    "ibuf.is_inv s" "ibuf.is_data s = varint_spec (unat (zigzag v))" .
  from ibuf.pb_decode_svarint_data [OF *(3), of v "[]"] *(4) obtain s' where
    "pb_decode_svarint s = (Some v, s')" "ibuf.reads s (varint_spec (unat (zigzag v))) s'" by auto
  with * ibuf_all_read [OF this(2) *(4,3)] show ?thesis by blast
qed

lemma pb_svarint_roundtrip_witness:
  "\<exists>os' s'. pb_encode_svarint (pb_ostream_from_buffer (replicate 16 0) 16) (- 5) = (True, os') \<and>
    pb_decode_svarint (pb_istream_from_buffer (ob_mem (os_state os')) (os_bytes_written os'))
      = (Some (- 5), s' :: unit pb_istream) \<and> is_bytes_left s' = 0"
  by (rule pb_svarint_roundtrip) simp_all

text \<open>Fixed-width integers are read back into memory as they were in memory, whatever the
  two addresses are.\<close>

lemma pb_fixed_roundtrip:
  assumes "unat n \<le> length buf" and "8 \<le> unat n"
  shows "(\<exists>os' s'. pb_encode_fixed32 m (pb_ostream_from_buffer buf n) p = (True, os') \<and>
      pb_decode_fixed32 (pb_istream_from_buffer (ob_mem (os_state os')) (os_bytes_written os')) m' q
        = (True, s' :: unit pb_istream, store32 m' q (load32 m p)) \<and> is_bytes_left s' = 0) \<and>
    (\<exists>os' s'. pb_encode_fixed64 m (pb_ostream_from_buffer buf n) p = (True, os') \<and>
      pb_decode_fixed64 (pb_istream_from_buffer (ob_mem (os_state os')) (os_bytes_written os')) m' q
        = (True, s' :: unit pb_istream, store64 m' q (load64 m p)) \<and> is_bytes_left s' = 0)"
proof
  let ?b4 = "to_bytes 4 (load32 m p)" and ?b8 = "to_bytes 8 (load64 m p)"
  have "length ?b4 \<le> unat n" using assms(2) by simp
  from obuf_ibuf [OF obuf.encodes_fixed32 assms(1) this] obtain os' and s :: "unit pb_istream"
    where *: "pb_encode_fixed32 m (pb_ostream_from_buffer buf n) p = (True, os')"
    "s = pb_istream_from_buffer (ob_mem (os_state os')) (os_bytes_written os')"
    "ibuf.is_inv s" "ibuf.is_data s = ?b4" .
  from ibuf.pb_decode_fixed32_data [OF *(3), of "load32 m p" "[]" m' q] *(4) obtain s' where
    "pb_decode_fixed32 s m' q = (True, s', store32 m' q (load32 m p))" "ibuf.reads s ?b4 s'" by auto
  with * ibuf_all_read [OF this(2) *(4,3)]
  show "\<exists>os' s'. pb_encode_fixed32 m (pb_ostream_from_buffer buf n) p = (True, os') \<and>
      pb_decode_fixed32 (pb_istream_from_buffer (ob_mem (os_state os')) (os_bytes_written os')) m' q
        = (True, s' :: unit pb_istream, store32 m' q (load32 m p)) \<and> is_bytes_left s' = 0" by blast
  have "length ?b8 \<le> unat n" using assms(2) by simp
  from obuf_ibuf [OF obuf.encodes_fixed64 assms(1) this] obtain os' and s :: "unit pb_istream"
    where *: "pb_encode_fixed64 m (pb_ostream_from_buffer buf n) p = (True, os')"
    "s = pb_istream_from_buffer (ob_mem (os_state os')) (os_bytes_written os')"
    "ibuf.is_inv s" "ibuf.is_data s = ?b8" .
  from ibuf.pb_decode_fixed64_data [OF *(3), of "load64 m p" "[]" m' q] *(4) obtain s' where
    "pb_decode_fixed64 s m' q = (True, s', store64 m' q (load64 m p))" "ibuf.reads s ?b8 s'" by auto
  with * ibuf_all_read [OF this(2) *(4,3)]
  show "\<exists>os' s'. pb_encode_fixed64 m (pb_ostream_from_buffer buf n) p = (True, os') \<and>
      pb_decode_fixed64 (pb_istream_from_buffer (ob_mem (os_state os')) (os_bytes_written os')) m' q
        = (True, s' :: unit pb_istream, store64 m' q (load64 m p)) \<and> is_bytes_left s' = 0" by blast
qed

lemma pb_fixed_roundtrip_witness:
  "\<exists>os' s'. pb_encode_fixed32 (\<lambda>_. 7) (pb_ostream_from_buffer (replicate 8 0) 8) 0x1000 = (True, os') \<and>
      pb_decode_fixed32 (pb_istream_from_buffer (ob_mem (os_state os')) (os_bytes_written os')) (\<lambda>_. 0) 0x2000
        = (True, s' :: unit pb_istream, store32 (\<lambda>_. 0) 0x2000 (load32 (\<lambda>_. 7) 0x1000)) \<and>
      is_bytes_left s' = 0"
  by (rule pb_fixed_roundtrip [THEN conjunct1]) simp_all

text \<open>A tag with a field number of at most 29 bits (the protocol's limit) is read back as the
  same wire type and field number.\<close>

lemma pb_tag_roundtrip:
  assumes "unat n \<le> length buf" and "5 \<le> unat n"
    and "unat wt < 8" and "unat tag < 2 ^ 29" and "tag \<noteq> 0"
  shows "\<exists>os' s'. pb_encode_tag (pb_ostream_from_buffer buf n) wt tag = (True, os') \<and>
    pb_decode_tag (pb_istream_from_buffer (ob_mem (os_state os')) (os_bytes_written os'))
      = (TagField wt tag, s' :: unit pb_istream) \<and> is_bytes_left s' = 0"
proof -
  let ?bs = "varint_spec (tag_code wt tag)"
  have "length ?bs \<le> unat n" using length_varint_tag [OF assms(3), of tag] assms(2) by linarith
  from obuf_ibuf [OF obuf.encodes_tag [OF assms(3)] assms(1) this] obtain os' and s :: "unit pb_istream"
    where *: "pb_encode_tag (pb_ostream_from_buffer buf n) wt tag = (True, os')"
    "s = pb_istream_from_buffer (ob_mem (os_state os')) (os_bytes_written os')"
    "ibuf.is_inv s" "ibuf.is_data s = ?bs" .
  from ibuf.pb_decode_tag_data [OF *(3) _ assms(3-5), of "[]"] *(4) obtain s' where
    "pb_decode_tag s = (TagField wt tag, s')" "ibuf.reads s ?bs s'" by auto
  with * ibuf_all_read [OF this(2) *(4,3)] show ?thesis by blast
qed

lemma pb_tag_roundtrip_witness:
  "\<exists>os' s'. pb_encode_tag (pb_ostream_from_buffer (replicate 5 0) 5) 2 1000 = (True, os') \<and>
    pb_decode_tag (pb_istream_from_buffer (ob_mem (os_state os')) (os_bytes_written os'))
      = (TagField 2 1000, s' :: unit pb_istream) \<and> is_bytes_left s' = 0"
  by (rule pb_tag_roundtrip) simp_all



section \<open>Skipping and malformed input\<close>

text \<open>The encoded values of a wire type.\<close>

inductive wire_payload :: "pb_wire_type_t \<Rightarrow> byte list \<Rightarrow> bool" where
  payload_varint: "wire_payload PB_WT_VARINT (varint_spec n)"
| payload_64: "length bs = 8 \<Longrightarrow> wire_payload PB_WT_64BIT bs"
| payload_string: "length bs < 2 ^ 32 \<Longrightarrow> wire_payload PB_WT_STRING (varint_spec (length bs) @ bs)"
| payload_32: "length bs = 4 \<Longrightarrow> wire_payload PB_WT_32BIT bs"

context istream_source
begin

lemma pb_skip_field_data:
  assumes "wire_payload wt bs" and "is_inv s" and "is_data s = bs @ cs"
  shows "\<exists>s'. pb_skip_field s wt = (True, s') \<and> reads s bs s' \<and> is_data s' = cs"
  using assms
proof cases
  case payload_varint
  with pb_skip_varint_data assms show ?thesis by (simp add: pb_skip_field_def)
next
  case payload_64
  with pb_read_data [OF assms(2,3), of 8 False] show ?thesis by (auto simp: pb_skip_field_def)
next
  case (payload_string xs)
  with pb_skip_string_data [OF assms(2), of xs cs] assms(3) show ?thesis by (simp add: pb_skip_field_def)
next
  case payload_32
  with pb_read_data [OF assms(2,3), of 4 False] show ?thesis by (auto simp: pb_skip_field_def)
qed

lemma pb_varint_loop_overlong:
  assumes "is_inv s" and "is_data s = bs @ cs" and "unat bitpos + 7 * length bs = 70"
    and "\<forall>b \<in> set bs. 128 \<le> unat b"
  shows "\<exists>s'. pb_varint_loop s bitpos r = (None, is_error s' ''varint overflow'') \<and> reads s bs s'"
  using assms
proof (induction bs arbitrary: s bitpos r)
  case Nil
  then have "bitpos \<ge> 64" by (simp add: word_le_nat_alt)
  with reads_Nil [OF Nil.prems(1)] show ?case by (auto simp: pb_varint_loop.simps [of s])
next
  case (Cons b bs)
  have bp: "\<not> bitpos \<ge> 64" "unat (bitpos + 7) = unat bitpos + 7"
    using Cons.prems(3) by (simp_all add: word_le_nat_alt unat_add_no_wrap)
  from pb_readbyte_data(2) [OF Cons.prems(1), of b "bs @ cs"] Cons.prems(2) obtain s1 where
    s1: "pb_readbyte s = (Some b, s1)" "reads s [b] s1" "is_data s1 = bs @ cs" by auto
  have high: "b AND 0x80 \<noteq> 0" using Cons.prems(4) high_bit_iff [of b] by simp
  have "unat (bitpos + 7) + 7 * length bs = 70" using Cons.prems(3) bp(2) by simp
  from Cons.IH [OF readsD(2) [OF s1(2)] s1(3) this] Cons.prems(4) obtain s2 where
    "pb_varint_loop s1 (bitpos + 7) (r OR push_bit (unat bitpos) (ucast (b AND 0x7F)))
       = (None, is_error s2 ''varint overflow'')" "reads s1 bs s2" by auto
  with s1 bp(1) high reads_append [OF s1(2)] show ?case
    by (auto simp: pb_varint_loop.simps [of s] Let_def)
qed

end

text \<open>C32: skipping a field takes exactly the bytes of its value, for each wire type the code knows.\<close>

lemma pb_skip_field_exact:
  assumes "wire_payload wt bs" and "length (bs @ cs) < 2 ^ 64"
  shows "\<exists>s'. pb_skip_field (pb_istream_from_buffer (bs @ cs) (of_nat (length (bs @ cs)))) wt
      = (True, s' :: unit pb_istream) \<and> ibuf.is_data s' = cs \<and> unat (is_bytes_left s') = length cs"
proof -
  let ?s = "pb_istream_from_buffer (bs @ cs) (of_nat (length (bs @ cs))) :: unit pb_istream"
  have n: "unat (of_nat (length (bs @ cs)) :: size_t) = length (bs @ cs)"
    by (rule unat_of_nat_size) (use assms(2) in simp)
  note i = ibuf_from_buffer [where n = "of_nat (length (bs @ cs))" and buf = "bs @ cs", unfolded n]
  from ibuf.pb_skip_field_data [OF assms(1), of ?s cs] i obtain s' where
    "pb_skip_field ?s wt = (True, s')" "ibuf.reads ?s bs s'" "ibuf.is_data s' = cs" by auto
  with ibuf.is_inv_length_data [OF ibuf.readsD(2)] show ?thesis by metis
qed

lemma pb_skip_field_exact_witness:
  "\<exists>s'. pb_skip_field (pb_istream_from_buffer ((varint_spec (length [7, 8 :: byte]) @ [7, 8]) @ [42])
      (of_nat (length ((varint_spec (length [7, 8 :: byte]) @ [7, 8]) @ [42 :: byte])))) 2
      = (True, s' :: unit pb_istream) \<and> ibuf.is_data s' = [42] \<and> unat (is_bytes_left s') = length [42 :: byte]"
  by (rule pb_skip_field_exact [OF payload_string]) (simp_all add: varint_spec_small)

text \<open>C33: the 64-bit varint decoder rejects every varint of more than ten bytes, after the tenth
  byte, with the message \<open>varint overflow\<close>.\<close>

lemma pb_decode_varint_rejects_overlong:
  assumes "length bs = 10" and "\<forall>b \<in> set bs. 128 \<le> unat b" and "length (bs @ cs) < 2 ^ 64"
  shows "\<exists>s'. pb_decode_varint (pb_istream_from_buffer (bs @ cs) (of_nat (length (bs @ cs))))
      = (None, s' :: unit pb_istream) \<and> is_errmsg s' = Some ''varint overflow'' \<and>
    unat (is_bytes_left s') = length cs"
proof -
  let ?s = "pb_istream_from_buffer (bs @ cs) (of_nat (length (bs @ cs))) :: unit pb_istream"
  have n: "unat (of_nat (length (bs @ cs)) :: size_t) = length (bs @ cs)"
    by (rule unat_of_nat_size) (use assms(3) in simp)
  note i = ibuf_from_buffer [where n = "of_nat (length (bs @ cs))" and buf = "bs @ cs", unfolded n]
  from ibuf.pb_varint_loop_overlong [of ?s bs cs 0 0] i assms(1,2) obtain s' where
    s': "pb_decode_varint ?s = (None, is_error s' ''varint overflow'')" "ibuf.reads ?s bs s'"
    by (auto simp: pb_decode_varint_def)
  have "is_bytes_left ?s = of_nat (length (bs @ cs))" by (simp add: pb_istream_from_buffer_def)
  with ibuf.readsD(5,6) [OF s'(2)] n have "is_errmsg s' = None" "unat (is_bytes_left s') = length cs"
    by (simp_all add: pb_istream_from_buffer_def)
  with s'(1) show ?thesis by (simp add: is_error_def)
qed

lemma pb_decode_varint_rejects_overlong_witness:
  "\<exists>s'. pb_decode_varint (pb_istream_from_buffer (replicate 10 0x80 @ [1]) (of_nat (length (replicate 10 0x80 @ [1 :: byte]))))
      = (None, s' :: unit pb_istream) \<and> is_errmsg s' = Some ''varint overflow'' \<and>
    unat (is_bytes_left s') = length [1 :: byte]"
  by (rule pb_decode_varint_rejects_overlong) simp_all


end
