(* ===== verification/Pb_Common.thy ===== *)
theory Pb_Common
  imports Pb_Memory
begin

text \<open>
  The field iterator of \<open>pb_common.c\<close> and \<open>pb_common.h\<close>. The position is an
  index into the field array; an index past the array reads as the terminator. Pointers into
  the message are 64-bit addresses and move by wrapping addition; \<open>size_offset\<close> is signed.

  The reference \<open>field_places\<close> lists the fields of an array with the address of each
  field's data. The lemmas show that stepping the iterator visits exactly these places in order,
  that it returns to the first field afterwards, and that \<open>pb_field_iter_find\<close> on a
  well-formed array terminates, stops at a field with the tag if there is one and is
  back where it started if there is none.
\<close>

section \<open>The iterator\<close>

text \<open>\<open>pSize\<close> points into the message or, while the decoder handles a repeated field
  without a count member, to its local variable \<open>fixed_count_size\<close>.\<close>

datatype pb_size_ref = AtAddr addr | FixedCount

record pb_field_iter =
  it_start :: "pb_field list"
  it_pos :: nat
  it_required_field_index :: uint32
  it_dest_struct :: addr
  it_pData :: addr
  it_pSize :: pb_size_ref

definition field_at :: "pb_field list \<Rightarrow> nat \<Rightarrow> pb_field" where
  "field_at fs i = (if i < length fs then fs ! i else PB_LAST_FIELD)"

definition it_field :: "pb_field_iter \<Rightarrow> pb_field" where
  "it_field it = field_at (it_start it) (it_pos it)"

definition pb_field_iter_begin :: "pb_field list \<Rightarrow> addr \<Rightarrow> bool \<times> pb_field_iter" where
  "pb_field_iter_begin flds dest_struct =
     (let pos = field_at flds 0;
          pData = dest_struct + ucast (f_data_offset pos)
      in (f_tag pos \<noteq> 0,
          \<lparr>it_start = flds, it_pos = 0, it_required_field_index = 0,
           it_dest_struct = dest_struct, it_pData = pData,
           it_pSize = AtAddr (pData + scast (f_size_offset pos))\<rparr>))"

text \<open>The size of a field in the message struct, as the iterator computes it.\<close>

definition prev_size :: "pb_field \<Rightarrow> size_t" where
  "prev_size prev =
     (if PB_ATYPE (f_type prev) = PB_ATYPE_STATIC \<and> PB_HTYPE (f_type prev) = PB_HTYPE_REPEATED
      then ucast (f_data_size prev) * ucast (f_array_size prev)
      else if PB_ATYPE (f_type prev) = PB_ATYPE_POINTER then of_nat sizeof_voidp
      else ucast (f_data_size prev))"

definition in_same_union :: "pb_field \<Rightarrow> pb_field \<Rightarrow> bool" where
  "in_same_union prev cur \<longleftrightarrow>
     PB_HTYPE (f_type prev) = PB_HTYPE_ONEOF \<and> PB_HTYPE (f_type cur) = PB_HTYPE_ONEOF \<and>
     f_data_offset cur = PB_SIZE_MAX"

definition pb_field_iter_next :: "pb_field_iter \<Rightarrow> bool \<times> pb_field_iter" where
  "pb_field_iter_next it =
     (let prev = it_field it
      in if f_tag prev = 0 then (False, it)
         else
           (let it1 = it\<lparr>it_pos := Suc (it_pos it)\<rparr>;
                cur = it_field it1
            in if f_tag cur = 0
               then (False, snd (pb_field_iter_begin (it_start it) (it_dest_struct it)))
               else if in_same_union prev cur then (True, it1)
               else
                 (let req = (if PB_HTYPE (f_type prev) = PB_HTYPE_REQUIRED
                             then it_required_field_index it + 1 else it_required_field_index it);
                      pData = it_pData it + prev_size prev + ucast (f_data_offset cur)
                  in (True, it1\<lparr>it_required_field_index := req, it_pData := pData,
                                it_pSize := AtAddr (pData + scast (f_size_offset cur))\<rparr>))))"

definition find_match :: "pb_field_iter \<Rightarrow> uint32 \<Rightarrow> bool" where
  "find_match it tag \<longleftrightarrow>
     f_tag (it_field it) = tag \<and> PB_LTYPE (f_type (it_field it)) \<noteq> PB_LTYPE_EXTENSION"

text \<open>The \<open>do ... while (iter->pos != start)\<close> loop. On an array whose first entry is
  the terminator a search that starts further on never returns to its start, so the loop is a
  partial function.\<close>

partial_function (option) pb_field_iter_find_loop ::
  "nat \<Rightarrow> uint32 \<Rightarrow> pb_field_iter \<Rightarrow> (bool \<times> pb_field_iter) option" where
  "pb_field_iter_find_loop start tag it =
     (if find_match it tag then Some (True, it)
      else let it' = snd (pb_field_iter_next it)
           in if it_pos it' = start then Some (False, it')
              else pb_field_iter_find_loop start tag it')"

definition pb_field_iter_find :: "pb_field_iter \<Rightarrow> uint32 \<Rightarrow> (bool \<times> pb_field_iter) option" where
  "pb_field_iter_find it tag = pb_field_iter_find_loop (it_pos it) tag it"

declare pb_field_iter_find_loop.simps [code]

section \<open>Extension records\<close>

text \<open>The members of \<open>pb_extension_t\<close> and \<open>pb_extension_type_t\<close> by their offsets.\<close>

definition ext_type :: "mem \<Rightarrow> addr \<Rightarrow> addr" where "ext_type m extension = load64 m extension"
definition ext_dest :: "mem \<Rightarrow> addr \<Rightarrow> addr" where "ext_dest m extension = load64 m (extension + 8)"
definition ext_next :: "mem \<Rightarrow> addr \<Rightarrow> addr" where "ext_next m extension = load64 m (extension + 16)"
definition ext_type_decode :: "mem \<Rightarrow> addr \<Rightarrow> addr" where "ext_type_decode m type = load64 m type"
definition ext_type_encode :: "mem \<Rightarrow> addr \<Rightarrow> addr" where "ext_type_encode m type = load64 m (type + 8)"
definition ext_type_arg :: "mem \<Rightarrow> addr \<Rightarrow> addr" where "ext_type_arg m type = load64 m (type + 16)"
definition ext_found :: "addr \<Rightarrow> addr" where "ext_found extension = extension + 24"

section \<open>Loops over all fields\<close>

lemma field_at_tag: "f_tag (field_at fs i) \<noteq> 0 \<Longrightarrow> i < length fs"
  by (auto simp: field_at_def PB_LAST_FIELD_def split: if_splits)

lemma pb_field_iter_next_True:
  assumes "pb_field_iter_next it = (True, it')"
  shows "it_pos it' = Suc (it_pos it)" and "it_start it' = it_start it"
    and "it_dest_struct it' = it_dest_struct it" and "f_tag (it_field it') \<noteq> 0"
    and "it_pos it' < length (it_start it')"
proof -
  have *: "it_pos it' = Suc (it_pos it) \<and> it_start it' = it_start it \<and>
      it_dest_struct it' = it_dest_struct it \<and> f_tag (it_field it') \<noteq> 0"
    using assms
    by (auto simp: pb_field_iter_next_def it_field_def Let_def split: if_splits)
  then show "it_pos it' = Suc (it_pos it)" "it_start it' = it_start it"
    "it_dest_struct it' = it_dest_struct it" "f_tag (it_field it') \<noteq> 0" by simp_all
  with field_at_tag show "it_pos it' < length (it_start it')"
    unfolding it_field_def by blast
qed

lemma pb_field_iter_next_decr:
  assumes "(True, it') = pb_field_iter_next it"
  shows "length (it_start it') - it_pos it' < length (it_start it) - it_pos it"
  using pb_field_iter_next_True [OF assms [symmetric]] by simp

text \<open>The loop \<open>do { if (!body) return false; } while (pb_field_iter_next(&iter));\<close> that the
  encoder, the decoder and the release code share. The result \<open>None\<close> is that of a body
  that has no result.\<close>

function for_fields ::
  "(pb_field_iter \<Rightarrow> 's \<Rightarrow> (bool \<times> 's) option) \<Rightarrow> pb_field_iter \<Rightarrow> 's \<Rightarrow> (bool \<times> 's) option" where
  "for_fields body it s =
     (case body it s of
        None \<Rightarrow> None
      | Some (False, s') \<Rightarrow> Some (False, s')
      | Some (True, s') \<Rightarrow>
          (case pb_field_iter_next it of
             (again, it') \<Rightarrow> if again then for_fields body it' s' else Some (True, s')))"
  by pat_completeness auto
termination
  by (relation "measure (\<lambda>(_, it, _). length (it_start it) - it_pos it)")
    (auto dest!: pb_field_iter_next_decr)

declare for_fields.simps [simp del]

section \<open>Where the fields are\<close>

text \<open>The fields up to the terminator that follow a field at a known place.\<close>

fun field_places_from :: "pb_field \<Rightarrow> addr \<Rightarrow> pb_field list \<Rightarrow> (pb_field \<times> addr) list" where
  "field_places_from prev p [] = []"
| "field_places_from prev p (f # fs) =
     (if f_tag f = 0 then []
      else let q = (if in_same_union prev f then p else p + prev_size prev + ucast (f_data_offset f))
           in (f, q) # field_places_from f q fs)"

definition field_places :: "pb_field list \<Rightarrow> addr \<Rightarrow> (pb_field \<times> addr) list" where
  "field_places fs dest =
     (case fs of
        [] \<Rightarrow> []
      | f # fs' \<Rightarrow>
          if f_tag f = 0 then []
          else (f, dest + ucast (f_data_offset f))
                 # field_places_from f (dest + ucast (f_data_offset f)) fs')"

primrec for_places ::
  "(pb_field \<Rightarrow> addr \<Rightarrow> 's \<Rightarrow> (bool \<times> 's) option) \<Rightarrow> (pb_field \<times> addr) list \<Rightarrow> 's \<Rightarrow>
     (bool \<times> 's) option" where
  "for_places body [] s = Some (True, s)"
| "for_places body (fp # ps) s =
     (case body (fst fp) (snd fp) s of
        None \<Rightarrow> None
      | Some (False, s') \<Rightarrow> Some (False, s')
      | Some (True, s') \<Rightarrow> for_places body ps s')"

text \<open>What one step of the iterator does, in terms of the list of places.\<close>

lemma pb_field_iter_next_places:
  assumes "f_tag (it_field it) \<noteq> 0"
  shows "case field_places_from (it_field it) (it_pData it) (drop (Suc (it_pos it)) (it_start it)) of
       [] \<Rightarrow> pb_field_iter_next it = (False, snd (pb_field_iter_begin (it_start it) (it_dest_struct it)))
     | (f, p) # ps \<Rightarrow> \<exists>it'. pb_field_iter_next it = (True, it') \<and> it_field it' = f \<and> it_pData it' = p \<and>
         ps = field_places_from f p (drop (Suc (it_pos it')) (it_start it'))"
proof (cases "Suc (it_pos it) < length (it_start it)")
  case True
  then have "drop (Suc (it_pos it)) (it_start it)
      = it_start it ! Suc (it_pos it) # drop (Suc (Suc (it_pos it))) (it_start it)"
    by (simp add: Cons_nth_drop_Suc)
  with True assms show ?thesis
    by (simp add: pb_field_iter_next_def it_field_def field_at_def Let_def)
next
  case False
  with assms show ?thesis
    by (simp add: pb_field_iter_next_def it_field_def field_at_def PB_LAST_FIELD_def Let_def)
qed

lemma for_fields_from:
  assumes "f_tag (it_field it) \<noteq> 0"
  shows "for_fields (\<lambda>it. body (it_field it) (it_pData it)) it s
    = for_places body ((it_field it, it_pData it) #
        field_places_from (it_field it) (it_pData it) (drop (Suc (it_pos it)) (it_start it))) s"
  using assms
proof (induction "field_places_from (it_field it) (it_pData it) (drop (Suc (it_pos it)) (it_start it))"
    arbitrary: it s)
  case Nil
  with pb_field_iter_next_places [OF Nil.prems] show ?case
    by (auto simp: for_fields.simps [of _ it] split: option.splits bool.splits)
next
  case (Cons fp ps)
  obtain f p where fp: "fp = (f, p)" by (cases fp)
  from pb_field_iter_next_places [OF Cons.prems, folded Cons.hyps(2)] fp obtain it' where
    it': "pb_field_iter_next it = (True, it')" "it_field it' = f" "it_pData it' = p"
      "ps = field_places_from f p (drop (Suc (it_pos it')) (it_start it'))" by auto
  from pb_field_iter_next_True(4) [OF it'(1)] have "f_tag (it_field it') \<noteq> 0" .
  with Cons.hyps(1) [of it'] it'(2-4)
  have "for_fields (\<lambda>it. body (it_field it) (it_pData it)) it' s'
      = for_places body ((f, p) # ps) s'" for s' by simp
  with it'(1) fp show ?case
    unfolding Cons.hyps(2) [symmetric]
    by (simp add: for_fields.simps [of _ it] split: option.split bool.split)
qed

lemma field_places_begin:
  "field_places fs dest =
     (case pb_field_iter_begin fs dest of
        (ok, it) \<Rightarrow> if ok then (it_field it, it_pData it) #
           field_places_from (it_field it) (it_pData it) (drop (Suc (it_pos it)) (it_start it)) else [])"
  by (cases fs) (auto simp: field_places_def pb_field_iter_begin_def it_field_def field_at_def
      PB_LAST_FIELD_def Let_def)

text \<open>A loop over the fields of a message visits the places of its field array in order.\<close>

lemma for_fields_places:
  assumes "pb_field_iter_begin fs dest = (True, it)"
  shows "for_fields (\<lambda>it. body (it_field it) (it_pData it)) it s
    = for_places body (field_places fs dest) s"
proof -
  have "f_tag (it_field it) \<noteq> 0"
    using assms by (auto simp: pb_field_iter_begin_def it_field_def Let_def)
  from for_fields_from [OF this] show ?thesis by (simp add: field_places_begin assms)
qed

section \<open>The iterator invariant and the search\<close>

text \<open>The iterator stands on a field of its array, at the place of that field.\<close>

definition iter_ok :: "pb_field list \<Rightarrow> addr \<Rightarrow> pb_field_iter \<Rightarrow> bool" where
  "iter_ok fs dest it \<longleftrightarrow>
     it_start it = fs \<and> it_dest_struct it = dest \<and> f_tag (it_field it) \<noteq> 0 \<and>
     drop (it_pos it) (field_places fs dest) = (it_field it, it_pData it) #
       field_places_from (it_field it) (it_pData it) (drop (Suc (it_pos it)) fs)"

lemma iter_ok_place:
  assumes "iter_ok fs dest it"
  shows "it_pos it < length (field_places fs dest)"
    and "field_places fs dest ! it_pos it = (it_field it, it_pData it)"
proof -
  from assms have d: "drop (it_pos it) (field_places fs dest) = (it_field it, it_pData it) #
       field_places_from (it_field it) (it_pData it) (drop (Suc (it_pos it)) fs)"
    by (simp add: iter_ok_def)
  then show p: "it_pos it < length (field_places fs dest)"
    using not_le by fastforce
  from d show "field_places fs dest ! it_pos it = (it_field it, it_pData it)"
    using Cons_nth_drop_Suc [OF p] by simp
qed

lemma iter_ok_begin:
  assumes "pb_field_iter_begin fs dest = (True, it)"
  shows "iter_ok fs dest it"
  using assms field_places_begin [of fs dest]
  by (auto simp: iter_ok_def pb_field_iter_begin_def it_field_def Let_def)

lemma pb_field_iter_begin_fields:
  "pb_field_iter_begin fs dest = (b, it) \<Longrightarrow>
     it_start it = fs \<and> it_dest_struct it = dest \<and> it_pos it = 0"
  by (auto simp: pb_field_iter_begin_def Let_def)

lemma field_places_pos: "field_places fs dest \<noteq> [] \<Longrightarrow> fst (pb_field_iter_begin fs dest)"
  by (auto simp: field_places_begin split: prod.splits if_splits)

lemma iter_ok_next:
  assumes ok: "iter_ok fs dest it" and next_it: "pb_field_iter_next it = (b, it')"
  shows "iter_ok fs dest it'"
    and "b \<longleftrightarrow> Suc (it_pos it) < length (field_places fs dest)"
    and "it_pos it' = (if b then Suc (it_pos it) else 0)"
proof -
  let ?ps = "field_places fs dest"
  from ok have tag: "f_tag (it_field it) \<noteq> 0" and st: "it_start it = fs" "it_dest_struct it = dest"
    and d: "drop (it_pos it) ?ps = (it_field it, it_pData it) #
       field_places_from (it_field it) (it_pData it) (drop (Suc (it_pos it)) fs)"
    by (simp_all add: iter_ok_def)
  from d have d': "drop (Suc (it_pos it)) ?ps
      = field_places_from (it_field it) (it_pData it) (drop (Suc (it_pos it)) fs)"
    by (metis Cons_nth_drop_Suc iter_ok_place(1) list.inject ok)
  note step = pb_field_iter_next_places [OF tag, unfolded st, folded d']
  have all: "iter_ok fs dest it' \<and> (b \<longleftrightarrow> Suc (it_pos it) < length ?ps) \<and>
    it_pos it' = (if b then Suc (it_pos it) else 0)"
  proof (cases "drop (Suc (it_pos it)) ?ps")
    case Nil
    with step next_it have b: "\<not> b" "it' = snd (pb_field_iter_begin fs dest)" by auto
    have "fst (pb_field_iter_begin fs dest)"
      using iter_ok_place(1) [OF ok] by (intro field_places_pos) auto
    then have "pb_field_iter_begin fs dest = (True, it')"
      using b(2) by (metis prod.collapse)
    from iter_ok_begin [OF this] pb_field_iter_begin_fields [OF this] b(1) Nil show ?thesis
      by simp
  next
    case (Cons fp qs)
    obtain f p where fp: "fp = (f, p)" by (cases fp)
    from step Cons fp next_it have it': b "it_field it' = f" "it_pData it' = p"
      "qs = field_places_from f p (drop (Suc (it_pos it')) (it_start it'))" by auto
    from next_it it'(1) have "pb_field_iter_next it = (True, it')" by simp
    note n = pb_field_iter_next_True [OF this]
    from Cons have "Suc (it_pos it) < length ?ps" using not_le by fastforce
    with it' n st Cons fp show ?thesis by (simp add: iter_ok_def)
  qed
  then show "iter_ok fs dest it'" "b \<longleftrightarrow> Suc (it_pos it) < length ?ps"
    "it_pos it' = (if b then Suc (it_pos it) else 0)" by simp_all
qed

text \<open>Whether the field at an index is one the search for a tag stops at.\<close>

definition tag_match :: "pb_field \<Rightarrow> uint32 \<Rightarrow> bool" where
  "tag_match f tag \<longleftrightarrow> f_tag f = tag \<and> PB_LTYPE (f_type f) \<noteq> PB_LTYPE_EXTENSION"

lemma find_match_place: "find_match it tag = tag_match (it_field it) tag"
  by (simp add: find_match_def tag_match_def)

lemma iter_ok_next_pos:
  assumes "iter_ok fs dest it"
  shows "it_pos (snd (pb_field_iter_next it)) = Suc (it_pos it) mod length (field_places fs dest)"
    and "iter_ok fs dest (snd (pb_field_iter_next it))"
proof -
  obtain b it' where n: "pb_field_iter_next it = (b, it')" by fastforce
  note * = iter_ok_next [OF assms n]
  have "Suc (it_pos it) \<le> length (field_places fs dest)"
    using iter_ok_place(1) [OF assms] by simp
  with * n show "it_pos (snd (pb_field_iter_next it)) = Suc (it_pos it) mod length (field_places fs dest)"
    by (cases "Suc (it_pos it) = length (field_places fs dest)") auto
  show "iter_ok fs dest (snd (pb_field_iter_next it))" using * n by simp
qed

text \<open>The loop looks at the next \<open>k\<close> fields in cyclic order and stops at the first match.\<close>

lemma pb_field_iter_find_loop_Some:
  assumes "iter_ok fs dest it" and "0 < k"
    and "(it_pos it + k) mod length (field_places fs dest) = start"
    and "\<forall>j. 0 < j \<and> j < k \<longrightarrow> (it_pos it + j) mod length (field_places fs dest) \<noteq> start"
  shows "\<exists>b it'. pb_field_iter_find_loop start tag it = Some (b, it') \<and> iter_ok fs dest it' \<and>
    (b \<longleftrightarrow> (\<exists>j<k. tag_match
       (fst (field_places fs dest ! ((it_pos it + j) mod length (field_places fs dest)))) tag)) \<and>
    (if b then find_match it' tag else it_pos it' = start)"
  using assms
proof (induction k arbitrary: it)
  case 0
  then show ?case by simp
next
  case (Suc k)
  let ?n = "length (field_places fs dest)"
  let ?it = "snd (pb_field_iter_next it)"
  note place = iter_ok_place [OF Suc.prems(1)]
  have here: "tag_match (fst (field_places fs dest ! (it_pos it mod ?n))) tag \<longleftrightarrow> find_match it tag"
    using place by (simp add: find_match_place)
  note nx = iter_ok_next_pos [OF Suc.prems(1)]
  show ?case
  proof (cases "find_match it tag")
    case True
    then show ?thesis using Suc.prems(1) here
      by (auto simp: pb_field_iter_find_loop.simps [of start tag it] intro: exI [of _ 0])
  next
    case False
    have shift: "(it_pos ?it + j) mod ?n = (it_pos it + Suc j) mod ?n" for j
      unfolding nx(1) by (metis add_Suc_right add_Suc mod_add_left_eq)
    have ex: "(\<exists>j<Suc k. tag_match (fst (field_places fs dest ! ((it_pos it + j) mod ?n))) tag)
        \<longleftrightarrow> (\<exists>j<k. tag_match (fst (field_places fs dest ! ((it_pos ?it + j) mod ?n))) tag)"
      using False here shift by (auto simp: less_Suc_eq_0_disj)
    show ?thesis
    proof (cases "k = 0")
      case True
      with Suc.prems(3) nx False here show ?thesis
        by (auto simp: pb_field_iter_find_loop.simps [of start tag it] Let_def)
    next
      case k: False
      with Suc.prems(4) [rule_format, of 1] nx have "it_pos ?it \<noteq> start" by simp
      moreover have "\<exists>b it'. pb_field_iter_find_loop start tag ?it = Some (b, it') \<and>
          iter_ok fs dest it' \<and>
          (b \<longleftrightarrow> (\<exists>j<k. tag_match (fst (field_places fs dest ! ((it_pos ?it + j) mod ?n))) tag)) \<and>
          (if b then find_match it' tag else it_pos it' = start)"
      proof (rule Suc.IH [OF nx(2)])
        show "0 < k" using k by simp
        show "(it_pos ?it + k) mod ?n = start" unfolding shift by (rule Suc.prems(3))
        show "\<forall>j. 0 < j \<and> j < k \<longrightarrow> (it_pos ?it + j) mod ?n \<noteq> start"
          unfolding shift using Suc.prems(4) by auto
      qed
      ultimately show ?thesis using False ex
        by (simp add: pb_field_iter_find_loop.simps [of start tag it] Let_def)
    qed
  qed
qed

lemma ex_cyclic:
  assumes "p < (n :: nat)"
  shows "(\<exists>j<n. P ((p + j) mod n)) \<longleftrightarrow> (\<exists>i<n. P i)"
proof
  assume "\<exists>i<n. P i"
  then obtain i where i: "i < n" "P i" by blast
  show "\<exists>j<n. P ((p + j) mod n)"
  proof (cases "p \<le> i")
    case True
    with i show ?thesis by (intro exI [of _ "i - p"]) auto
  next
    case False
    with i assms have "(p + (n - p + i)) mod n = i" by simp
    with i False assms show ?thesis by (intro exI [of _ "n - p + i"]) auto
  qed
next
  assume "\<exists>j<n. P ((p + j) mod n)"
  moreover have "(p + j) mod n < n" for j using assms by simp
  ultimately show "\<exists>i<n. P i" by blast
qed

lemma pb_field_iter_find_ok:
  assumes ok: "iter_ok fs dest it"
  shows "\<exists>b it'. pb_field_iter_find it tag = Some (b, it') \<and> iter_ok fs dest it' \<and>
    (b \<longleftrightarrow> (\<exists>f \<in> fst ` set (field_places fs dest). tag_match f tag)) \<and>
    (if b then tag_match (it_field it') tag else it_pos it' = it_pos it)"
proof -
  let ?n = "length (field_places fs dest)" and ?p = "it_pos it"
  have p: "?p < ?n" by (rule iter_ok_place(1) [OF ok])
  have "(?p + ?n) mod ?n = ?p" using p by simp
  moreover have "(?p + j) mod ?n \<noteq> ?p" if "0 < j" "j < ?n" for j
  proof (cases "?p + j < ?n")
    case False
    with that p have "(?p + j) mod ?n = ?p + j - ?n" by (simp add: le_mod_geq)
    with that False show ?thesis by simp
  qed (use that in simp)
  ultimately obtain b it' where find: "pb_field_iter_find_loop ?p tag it = Some (b, it')"
    "iter_ok fs dest it'"
    "if b then find_match it' tag else it_pos it' = ?p"
    and b: "b \<longleftrightarrow> (\<exists>j<?n. tag_match (fst (field_places fs dest ! ((?p + j) mod ?n))) tag)"
    using pb_field_iter_find_loop_Some [OF ok, of ?n ?p tag] gr_implies_not0 [OF p] by blast
  have "(\<exists>j<?n. tag_match (fst (field_places fs dest ! ((?p + j) mod ?n))) tag)
      \<longleftrightarrow> (\<exists>f \<in> fst ` set (field_places fs dest). tag_match f tag)"
    unfolding ex_cyclic [OF p, where P = "\<lambda>i. tag_match (fst (field_places fs dest ! i)) tag"]
    by (metis (no_types, lifting) image_iff in_set_conv_nth)
  with b have "b \<longleftrightarrow> (\<exists>f \<in> fst ` set (field_places fs dest). tag_match f tag)" by blast
  with find show ?thesis unfolding pb_field_iter_find_def find_match_place by blast
qed

section \<open>Properties\<close>

lemma iter_ok_iterate:
  assumes "iter_ok fs dest it"
  shows "iter_ok fs dest (((\<lambda>it. snd (pb_field_iter_next it)) ^^ k) it)"
    and "it_pos (((\<lambda>it. snd (pb_field_iter_next it)) ^^ k) it) = (it_pos it + k) mod length (field_places fs dest)"
proof (induction k)
  case 0
  from assms iter_ok_place(1) [OF assms] show "iter_ok fs dest (((\<lambda>it. snd (pb_field_iter_next it)) ^^ 0) it)"
    "it_pos (((\<lambda>it. snd (pb_field_iter_next it)) ^^ 0) it) = (it_pos it + 0) mod length (field_places fs dest)"
    by simp_all
next
  case (Suc k)
  from iter_ok_next_pos [OF Suc(1)] Suc(2)
  show "iter_ok fs dest (((\<lambda>it. snd (pb_field_iter_next it)) ^^ Suc k) it)"
    "it_pos (((\<lambda>it. snd (pb_field_iter_next it)) ^^ Suc k) it) = (it_pos it + Suc k) mod length (field_places fs dest)"
    by (simp_all add: mod_Suc_eq)
qed

text \<open>C34: stepping the iterator goes round the fields of the message: after \<open>k\<close> steps it is at the
  place with index \<open>k\<close> modulo the number of fields, with that field's description and the address of
  its data, and a step reports the end exactly when it returns to the first field.\<close>

lemma pb_field_iter_cycles:
  assumes "pb_field_iter_begin fs dest = (True, it)"
  defines "at \<equiv> \<lambda>k. ((\<lambda>it. snd (pb_field_iter_next it)) ^^ k) it"
  shows "field_places fs dest ! (k mod length (field_places fs dest)) = (it_field (at k), it_pData (at k)) \<and>
    (fst (pb_field_iter_next (at k)) \<longleftrightarrow> Suc k mod length (field_places fs dest) \<noteq> 0)"
proof -
  note ok = iter_ok_begin [OF assms(1)]
  have p0: "it_pos it = 0" using pb_field_iter_begin_fields [OF assms(1)] by simp
  have at: "iter_ok fs dest (at k)" and pos: "it_pos (at k) = k mod length (field_places fs dest)"
    using iter_ok_iterate [OF ok, of k] p0 unfolding at_def by simp_all
  let ?n = "length (field_places fs dest)"
  have n: "0 < ?n" by (rule le_less_trans [OF le0 iter_ok_place(1) [OF ok]])
  obtain b it' where nx: "pb_field_iter_next (at k) = (b, it')" by fastforce
  from iter_ok_next(2) [OF at nx] pos have "b \<longleftrightarrow> Suc (k mod ?n) < ?n" by simp
  also have "\<dots> \<longleftrightarrow> Suc (k mod ?n) \<noteq> ?n" using Suc_leI [OF mod_less_divisor [OF n, of k]] by linarith
  also have "\<dots> \<longleftrightarrow> Suc k mod ?n \<noteq> 0" by (simp add: mod_Suc)
  finally show ?thesis using nx iter_ok_place(2) [OF at] pos by simp
qed

lemma pb_field_iter_cycles_witness:
  "field_places [PbField 1 0x10 4 (- 4) 4 0 PtrNull, PbField 2 0x11 4 (- 4) 4 0 PtrNull] 0x1000
     ! (1 mod length (field_places [PbField 1 0x10 4 (- 4) 4 0 PtrNull, PbField 2 0x11 4 (- 4) 4 0 PtrNull] 0x1000))
   = (PbField 2 0x11 4 (- 4) 4 0 PtrNull, 0x100C)"
proof -
  let ?fs = "[PbField 1 0x10 4 (- 4) 4 0 PtrNull, PbField 2 0x11 4 (- 4) 4 0 PtrNull]"
  let ?it = "snd (pb_field_iter_begin ?fs 0x1000)"
  have "pb_field_iter_begin ?fs 0x1000 = (True, ?it)" by (simp add: pb_field_iter_begin_def field_at_def)
  note * = pb_field_iter_cycles [OF this, of 1]
  have "(it_field (((\<lambda>it. snd (pb_field_iter_next it)) ^^ 1) ?it), it_pData (((\<lambda>it. snd (pb_field_iter_next it)) ^^ 1) ?it))
      = (PbField 2 0x11 4 (- 4) 4 0 PtrNull, 0x100C)"
    by (simp add: pb_field_iter_next_def pb_field_iter_begin_def it_field_def field_at_def Let_def
        in_same_union_def prev_size_def pb_type_defs)
  with * show ?thesis by simp
qed

text \<open>C35: from wherever the iterator has been stepped to, \<open>pb_field_iter_find\<close> returns; it reports a
  match exactly when the message type has a field with the tag that is not an extension, it then
  stands on such a field, at the place of its data, and otherwise it has not moved.\<close>

lemma pb_field_iter_find_correct:
  assumes "pb_field_iter_begin fs dest = (True, it0)"
    and "it = ((\<lambda>it. snd (pb_field_iter_next it)) ^^ k) it0"
  shows "\<exists>b it'. pb_field_iter_find it tag = Some (b, it') \<and>
    (b \<longleftrightarrow> (\<exists>f \<in> fst ` set (field_places fs dest). tag_match f tag)) \<and>
    (it_field it', it_pData it') \<in> set (field_places fs dest) \<and>
    (if b then tag_match (it_field it') tag else it_pos it' = it_pos it)"
proof -
  have "iter_ok fs dest it"
    unfolding assms(2) by (rule iter_ok_iterate(1) [OF iter_ok_begin [OF assms(1)]])
  from pb_field_iter_find_ok [OF this, of tag] obtain b it' where
    find: "pb_field_iter_find it tag = Some (b, it')" "iter_ok fs dest it'"
    "b \<longleftrightarrow> (\<exists>f \<in> fst ` set (field_places fs dest). tag_match f tag)"
    "if b then tag_match (it_field it') tag else it_pos it' = it_pos it" by blast
  have "(it_field it', it_pData it') \<in> set (field_places fs dest)"
    using iter_ok_place [OF find(2)] by (metis nth_mem)
  with find show ?thesis by blast
qed

lemma pb_field_iter_find_correct_witness:
  "\<exists>it'. pb_field_iter_find (snd (pb_field_iter_begin [PbField 1 0x10 4 (- 4) 4 0 PtrNull] 0x1000)) 7
     = Some (False, it')"
proof -
  let ?fs = "[PbField 1 0x10 4 (- 4) 4 0 PtrNull]"
  let ?it = "snd (pb_field_iter_begin ?fs 0x1000)"
  have "pb_field_iter_begin ?fs 0x1000 = (True, ?it)" by (simp add: pb_field_iter_begin_def field_at_def)
  from pb_field_iter_find_correct [OF this, of ?it 0 7] show ?thesis
    by (auto simp: field_places_def tag_match_def)
qed

end
