(* ===== verification/Pb_Descriptor.thy ===== *)
theory Pb_Descriptor
  imports Pb_Common
begin

text \<open>
  The macros of \<open>pb.h\<close> that fill in field descriptions, and the layout of C structs they
  refer to through \<open>offsetof\<close> and \<open>sizeof\<close>.

  A struct is a list of named members; its layout follows the ABI of the LP64 targets: each
  member is placed at the next multiple of its alignment, and the size is rounded up to the
  alignment of the struct. Each macro is a function of the layout and of the names that the
  preprocessor pastes together.
\<close>

section \<open>Struct layout\<close>

text \<open>Types of members: an integer, enum or \<open>bool\<close> of some size; a pointer, with the
  size of what it points to; an array of elements; a nested struct by its size and alignment.\<close>

datatype c_type = CInt nat | CPtr nat | CArr nat nat nat | CStruct nat nat

type_synonym c_struct = "(string \<times> c_type) list"

fun c_sizeof :: "c_type \<Rightarrow> nat" where
  "c_sizeof (CInt n) = n"
| "c_sizeof (CPtr n) = sizeof_voidp"
| "c_sizeof (CArr esize ealign n) = esize * n"
| "c_sizeof (CStruct n a) = n"

fun c_alignof :: "c_type \<Rightarrow> nat" where
  "c_alignof (CInt n) = n"
| "c_alignof (CPtr n) = sizeof_voidp"
| "c_alignof (CArr esize ealign n) = ealign"
| "c_alignof (CStruct n a) = a"

text \<open>\<open>sizeof m[0]\<close> of an array or pointer member.\<close>

fun c_elemsize :: "c_type \<Rightarrow> nat" where
  "c_elemsize (CPtr n) = n"
| "c_elemsize (CArr esize ealign n) = esize"
| "c_elemsize t = 0"

definition round_up :: "nat \<Rightarrow> nat \<Rightarrow> nat" where
  "round_up n a = (n + a - 1) div a * a"

text \<open>Members with their offsets.\<close>

fun c_layout :: "nat \<Rightarrow> c_struct \<Rightarrow> (string \<times> nat \<times> c_type) list" where
  "c_layout off [] = []"
| "c_layout off ((name, t) # ms) =
     (let o' = round_up off (c_alignof t) in (name, o', t) # c_layout (o' + c_sizeof t) ms)"

type_synonym c_members = "(string \<times> nat \<times> c_type) list"

definition struct_members :: "c_struct \<Rightarrow> c_members" where
  "struct_members ms = c_layout 0 ms"

definition struct_alignof :: "c_struct \<Rightarrow> nat" where
  "struct_alignof ms = fold max (map (\<lambda>m. c_alignof (snd m)) ms) 1"

definition struct_sizeof :: "c_struct \<Rightarrow> nat" where
  "struct_sizeof ms =
     round_up (case struct_members ms of [] \<Rightarrow> 0
               | _ \<Rightarrow> (case last (struct_members ms) of (_, off, t) \<Rightarrow> off + c_sizeof t))
       (struct_alignof ms)"

definition struct_type :: "c_struct \<Rightarrow> c_type" where
  "struct_type ms = CStruct (struct_sizeof ms) (struct_alignof ms)"

definition c_member :: "c_members \<Rightarrow> string \<Rightarrow> nat \<times> c_type" where
  "c_member st m = (case map_of st m of None \<Rightarrow> (0, CInt 0) | Some x \<Rightarrow> x)"

definition c_offsetof :: "c_members \<Rightarrow> string \<Rightarrow> nat" where
  "c_offsetof st m = fst (c_member st m)"

section \<open>Size macros\<close>

definition pb_membersize :: "c_members \<Rightarrow> string \<Rightarrow> nat" where
  "pb_membersize st m = c_sizeof (snd (c_member st m))"

definition pb_membersize0 :: "c_members \<Rightarrow> string \<Rightarrow> nat" where
  "pb_membersize0 st m = c_elemsize (snd (c_member st m))"

definition pb_arraysize :: "c_members \<Rightarrow> string \<Rightarrow> nat" where
  "pb_arraysize st m = pb_membersize st m div pb_membersize0 st m"

definition pb_delta :: "c_members \<Rightarrow> string \<Rightarrow> string \<Rightarrow> pb_ssize_t" where
  "pb_delta st m1 m2 = of_int (int (c_offsetof st m1) - int (c_offsetof st m2))"

datatype pb_placement = FIRST | OTHER | UNION | CHOOSE

definition PB_DATAOFFSET_FIRST :: "c_members \<Rightarrow> string \<Rightarrow> string \<Rightarrow> pb_size_t" where
  "PB_DATAOFFSET_FIRST st m1 m2 = of_nat (c_offsetof st m1)"

definition PB_DATAOFFSET_OTHER :: "c_members \<Rightarrow> string \<Rightarrow> string \<Rightarrow> pb_size_t" where
  "PB_DATAOFFSET_OTHER st m1 m2 =
     of_nat (c_offsetof st m1) - of_nat (c_offsetof st m2) - of_nat (pb_membersize st m2)"

definition PB_DATAOFFSET_UNION :: "c_members \<Rightarrow> string \<Rightarrow> string \<Rightarrow> pb_size_t" where
  "PB_DATAOFFSET_UNION st m1 m2 = PB_SIZE_MAX"

definition PB_DATAOFFSET_CHOOSE :: "c_members \<Rightarrow> string \<Rightarrow> string \<Rightarrow> pb_size_t" where
  "PB_DATAOFFSET_CHOOSE st m1 m2 =
     (if c_offsetof st m1 = c_offsetof st m2 then PB_DATAOFFSET_FIRST st m1 m2
      else PB_DATAOFFSET_OTHER st m1 m2)"

primrec PB_DATAOFFSET :: "pb_placement \<Rightarrow> c_members \<Rightarrow> string \<Rightarrow> string \<Rightarrow> pb_size_t" where
  "PB_DATAOFFSET FIRST st = PB_DATAOFFSET_FIRST st"
| "PB_DATAOFFSET OTHER st = PB_DATAOFFSET_OTHER st"
| "PB_DATAOFFSET UNION st = PB_DATAOFFSET_UNION st"
| "PB_DATAOFFSET CHOOSE st = PB_DATAOFFSET_CHOOSE st"

section \<open>Descriptions by rule and allocation\<close>

type_synonym pb_field_macro =
  "pb_size_t \<Rightarrow> c_members \<Rightarrow> string \<Rightarrow> pb_size_t \<Rightarrow> pb_type_t \<Rightarrow> pb_ptr \<Rightarrow> pb_field"

definition PB_REQUIRED_STATIC :: pb_field_macro where
  "PB_REQUIRED_STATIC tag st m fd ltype ptr =
     PbField tag (PB_ATYPE_STATIC OR PB_HTYPE_REQUIRED OR ltype) fd 0
       (of_nat (pb_membersize st m)) 0 ptr"

definition PB_OPTIONAL_STATIC :: pb_field_macro where
  "PB_OPTIONAL_STATIC tag st m fd ltype ptr =
     PbField tag (PB_ATYPE_STATIC OR PB_HTYPE_OPTIONAL OR ltype) fd (pb_delta st (''has_'' @ m) m)
       (of_nat (pb_membersize st m)) 0 ptr"

definition PB_SINGULAR_STATIC :: pb_field_macro where
  "PB_SINGULAR_STATIC tag st m fd ltype ptr =
     PbField tag (PB_ATYPE_STATIC OR PB_HTYPE_OPTIONAL OR ltype) fd 0
       (of_nat (pb_membersize st m)) 0 ptr"

definition PB_REPEATED_STATIC :: pb_field_macro where
  "PB_REPEATED_STATIC tag st m fd ltype ptr =
     PbField tag (PB_ATYPE_STATIC OR PB_HTYPE_REPEATED OR ltype) fd (pb_delta st (m @ ''_count'') m)
       (of_nat (pb_membersize0 st m)) (of_nat (pb_arraysize st m)) ptr"

definition PB_REQUIRED_POINTER :: pb_field_macro where
  "PB_REQUIRED_POINTER tag st m fd ltype ptr =
     PbField tag (PB_ATYPE_POINTER OR PB_HTYPE_REQUIRED OR ltype) fd 0
       (of_nat (pb_membersize0 st m)) 0 ptr"

definition PB_OPTIONAL_POINTER :: pb_field_macro where
  "PB_OPTIONAL_POINTER tag st m fd ltype ptr =
     PbField tag (PB_ATYPE_POINTER OR PB_HTYPE_OPTIONAL OR ltype) fd 0
       (of_nat (pb_membersize0 st m)) 0 ptr"

definition PB_SINGULAR_POINTER :: pb_field_macro where
  "PB_SINGULAR_POINTER tag st m fd ltype ptr =
     PbField tag (PB_ATYPE_POINTER OR PB_HTYPE_OPTIONAL OR ltype) fd 0
       (of_nat (pb_membersize0 st m)) 0 ptr"

definition PB_REPEATED_POINTER :: pb_field_macro where
  "PB_REPEATED_POINTER tag st m fd ltype ptr =
     PbField tag (PB_ATYPE_POINTER OR PB_HTYPE_REPEATED OR ltype) fd (pb_delta st (m @ ''_count'') m)
       (of_nat (pb_membersize0 st m)) 0 ptr"

definition PB_REQUIRED_CALLBACK :: pb_field_macro where
  "PB_REQUIRED_CALLBACK tag st m fd ltype ptr =
     PbField tag (PB_ATYPE_CALLBACK OR PB_HTYPE_REQUIRED OR ltype) fd 0
       (of_nat (pb_membersize st m)) 0 ptr"

definition PB_OPTIONAL_CALLBACK :: pb_field_macro where
  "PB_OPTIONAL_CALLBACK tag st m fd ltype ptr =
     PbField tag (PB_ATYPE_CALLBACK OR PB_HTYPE_OPTIONAL OR ltype) fd 0
       (of_nat (pb_membersize st m)) 0 ptr"

definition PB_SINGULAR_CALLBACK :: pb_field_macro where
  "PB_SINGULAR_CALLBACK tag st m fd ltype ptr =
     PbField tag (PB_ATYPE_CALLBACK OR PB_HTYPE_OPTIONAL OR ltype) fd 0
       (of_nat (pb_membersize st m)) 0 ptr"

definition PB_REPEATED_CALLBACK :: pb_field_macro where
  "PB_REPEATED_CALLBACK tag st m fd ltype ptr =
     PbField tag (PB_ATYPE_CALLBACK OR PB_HTYPE_REPEATED OR ltype) fd 0
       (of_nat (pb_membersize st m)) 0 ptr"

definition PB_OPTEXT_STATIC :: pb_field_macro where
  "PB_OPTEXT_STATIC tag st m fd ltype ptr =
     PbField tag (PB_ATYPE_STATIC OR PB_HTYPE_REQUIRED OR ltype) 0 0
       (of_nat (pb_membersize st m)) 0 ptr"

definition PB_OPTEXT_POINTER :: pb_field_macro where
  "PB_OPTEXT_POINTER tag st m fd ltype ptr = PB_OPTIONAL_POINTER tag st m fd ltype ptr"

definition PB_OPTEXT_CALLBACK :: pb_field_macro where
  "PB_OPTEXT_CALLBACK tag st m fd ltype ptr = PB_OPTIONAL_CALLBACK tag st m fd ltype ptr"

section \<open>Field types and the main macros\<close>

datatype pb_proto_type =
  BOOL | BYTES | DOUBLE | ENUM | UENUM | FIXED32 | FIXED64 | FLOAT | INT32 | INT64 | MESSAGE
| SFIXED32 | SFIXED64 | SINT32 | SINT64 | STRING | UINT32 | UINT64 | EXTENSION | FIXED_LENGTH_BYTES

primrec PB_LTYPE_MAP :: "pb_proto_type \<Rightarrow> pb_type_t" where
  "PB_LTYPE_MAP BOOL = PB_LTYPE_VARINT"
| "PB_LTYPE_MAP BYTES = PB_LTYPE_BYTES"
| "PB_LTYPE_MAP DOUBLE = PB_LTYPE_FIXED64"
| "PB_LTYPE_MAP ENUM = PB_LTYPE_VARINT"
| "PB_LTYPE_MAP UENUM = PB_LTYPE_UVARINT"
| "PB_LTYPE_MAP FIXED32 = PB_LTYPE_FIXED32"
| "PB_LTYPE_MAP FIXED64 = PB_LTYPE_FIXED64"
| "PB_LTYPE_MAP FLOAT = PB_LTYPE_FIXED32"
| "PB_LTYPE_MAP INT32 = PB_LTYPE_VARINT"
| "PB_LTYPE_MAP INT64 = PB_LTYPE_VARINT"
| "PB_LTYPE_MAP MESSAGE = PB_LTYPE_SUBMESSAGE"
| "PB_LTYPE_MAP SFIXED32 = PB_LTYPE_FIXED32"
| "PB_LTYPE_MAP SFIXED64 = PB_LTYPE_FIXED64"
| "PB_LTYPE_MAP SINT32 = PB_LTYPE_SVARINT"
| "PB_LTYPE_MAP SINT64 = PB_LTYPE_SVARINT"
| "PB_LTYPE_MAP STRING = PB_LTYPE_STRING"
| "PB_LTYPE_MAP UINT32 = PB_LTYPE_UVARINT"
| "PB_LTYPE_MAP UINT64 = PB_LTYPE_UVARINT"
| "PB_LTYPE_MAP EXTENSION = PB_LTYPE_EXTENSION"
| "PB_LTYPE_MAP FIXED_LENGTH_BYTES = PB_LTYPE_FIXED_LENGTH_BYTES"

datatype pb_rules = REQUIRED | OPTIONAL | SINGULAR | REPEATED | OPTEXT
datatype pb_allocation = STATIC | POINTER | CALLBACK

fun PB_RULES_ALLOCATION :: "pb_rules \<Rightarrow> pb_allocation \<Rightarrow> pb_field_macro" where
  "PB_RULES_ALLOCATION REQUIRED STATIC = PB_REQUIRED_STATIC"
| "PB_RULES_ALLOCATION OPTIONAL STATIC = PB_OPTIONAL_STATIC"
| "PB_RULES_ALLOCATION SINGULAR STATIC = PB_SINGULAR_STATIC"
| "PB_RULES_ALLOCATION REPEATED STATIC = PB_REPEATED_STATIC"
| "PB_RULES_ALLOCATION OPTEXT STATIC = PB_OPTEXT_STATIC"
| "PB_RULES_ALLOCATION REQUIRED POINTER = PB_REQUIRED_POINTER"
| "PB_RULES_ALLOCATION OPTIONAL POINTER = PB_OPTIONAL_POINTER"
| "PB_RULES_ALLOCATION SINGULAR POINTER = PB_SINGULAR_POINTER"
| "PB_RULES_ALLOCATION REPEATED POINTER = PB_REPEATED_POINTER"
| "PB_RULES_ALLOCATION OPTEXT POINTER = PB_OPTEXT_POINTER"
| "PB_RULES_ALLOCATION REQUIRED CALLBACK = PB_REQUIRED_CALLBACK"
| "PB_RULES_ALLOCATION OPTIONAL CALLBACK = PB_OPTIONAL_CALLBACK"
| "PB_RULES_ALLOCATION SINGULAR CALLBACK = PB_SINGULAR_CALLBACK"
| "PB_RULES_ALLOCATION REPEATED CALLBACK = PB_REPEATED_CALLBACK"
| "PB_RULES_ALLOCATION OPTEXT CALLBACK = PB_OPTEXT_CALLBACK"

definition PB_FIELD ::
  "pb_size_t \<Rightarrow> pb_proto_type \<Rightarrow> pb_rules \<Rightarrow> pb_allocation \<Rightarrow> pb_placement \<Rightarrow> c_struct \<Rightarrow>
     string \<Rightarrow> string \<Rightarrow> pb_ptr \<Rightarrow> pb_field" where
  "PB_FIELD tag type rules allocation placement message field prevfield ptr =
     (let st = struct_members message
      in PB_RULES_ALLOCATION rules allocation tag st field
           (PB_DATAOFFSET placement st field prevfield) (PB_LTYPE_MAP type) ptr)"

definition PB_REPEATED_FIXED_COUNT ::
  "pb_size_t \<Rightarrow> pb_proto_type \<Rightarrow> pb_placement \<Rightarrow> c_struct \<Rightarrow> string \<Rightarrow> string \<Rightarrow> pb_ptr \<Rightarrow> pb_field" where
  "PB_REPEATED_FIXED_COUNT tag type placement message field prevfield ptr =
     (let st = struct_members message
      in PbField tag (PB_ATYPE_STATIC OR PB_HTYPE_REPEATED OR PB_LTYPE_MAP type)
           (PB_DATAOFFSET placement st field prevfield) 0
           (of_nat (pb_membersize0 st field)) (of_nat (pb_arraysize st field)) ptr)"

section \<open>Oneof fields\<close>

text \<open>Members of a union are members of the layout, all at the offset of the union; a member
  \<open>m\<close> of a named union \<open>u\<close> has the name \<open>u.m\<close>.\<close>

definition PB_ONEOF_STATIC :: "string \<Rightarrow> pb_field_macro" where
  "PB_ONEOF_STATIC u tag st m fd ltype ptr =
     PbField tag (PB_ATYPE_STATIC OR PB_HTYPE_ONEOF OR ltype) fd
       (pb_delta st (''which_'' @ u) (u @ ''.'' @ m)) (of_nat (pb_membersize st (u @ ''.'' @ m))) 0 ptr"

definition PB_ONEOF_POINTER :: "string \<Rightarrow> pb_field_macro" where
  "PB_ONEOF_POINTER u tag st m fd ltype ptr =
     PbField tag (PB_ATYPE_POINTER OR PB_HTYPE_ONEOF OR ltype) fd
       (pb_delta st (''which_'' @ u) (u @ ''.'' @ m)) (of_nat (pb_membersize0 st (u @ ''.'' @ m))) 0 ptr"

definition PB_ONEOF_FIELD ::
  "string \<Rightarrow> pb_size_t \<Rightarrow> pb_proto_type \<Rightarrow> pb_rules \<Rightarrow> pb_allocation \<Rightarrow> pb_placement \<Rightarrow> c_members \<Rightarrow>
     string \<Rightarrow> string \<Rightarrow> pb_ptr \<Rightarrow> pb_field" where
  "PB_ONEOF_FIELD u tag type rules allocation placement st field prevfield ptr =
     (if allocation = POINTER then PB_ONEOF_POINTER else PB_ONEOF_STATIC) u tag st field
       (PB_DATAOFFSET placement st (u @ ''.'' @ field) prevfield) (PB_LTYPE_MAP type) ptr"

definition PB_ANONYMOUS_ONEOF_STATIC :: "string \<Rightarrow> pb_field_macro" where
  "PB_ANONYMOUS_ONEOF_STATIC u tag st m fd ltype ptr =
     PbField tag (PB_ATYPE_STATIC OR PB_HTYPE_ONEOF OR ltype) fd
       (pb_delta st (''which_'' @ u) m) (of_nat (pb_membersize st m)) 0 ptr"

definition PB_ANONYMOUS_ONEOF_POINTER :: "string \<Rightarrow> pb_field_macro" where
  "PB_ANONYMOUS_ONEOF_POINTER u tag st m fd ltype ptr =
     PbField tag (PB_ATYPE_POINTER OR PB_HTYPE_ONEOF OR ltype) fd
       (pb_delta st (''which_'' @ u) m) (of_nat (pb_membersize0 st m)) 0 ptr"

definition PB_ANONYMOUS_ONEOF_FIELD ::
  "string \<Rightarrow> pb_size_t \<Rightarrow> pb_proto_type \<Rightarrow> pb_rules \<Rightarrow> pb_allocation \<Rightarrow> pb_placement \<Rightarrow> c_members \<Rightarrow>
     string \<Rightarrow> string \<Rightarrow> pb_ptr \<Rightarrow> pb_field" where
  "PB_ANONYMOUS_ONEOF_FIELD u tag type rules allocation placement st field prevfield ptr =
     (if allocation = POINTER then PB_ANONYMOUS_ONEOF_POINTER else PB_ANONYMOUS_ONEOF_STATIC)
       u tag st field (PB_DATAOFFSET placement st field prevfield) (PB_LTYPE_MAP type) ptr"

section \<open>Addresses relative to the message\<close>

lemma field_places_from_shift:
  "field_places_from prev (a + p) fs = map (\<lambda>x. (fst x, a + snd x)) (field_places_from prev p fs)"
  by (induction fs arbitrary: prev p) (simp_all add: Let_def add.assoc)

lemma field_places_shift:
  "field_places fs dest = map (\<lambda>x. (fst x, dest + snd x)) (field_places fs 0)"
  by (cases fs) (simp_all add: field_places_def field_places_from_shift)

end
