(* ===== verification/Pb_Messages.thy ===== *)
theory Pb_Messages
  imports Pb_Descriptor
begin

text \<open>
  The message types the application sends and receives: the generated tables of
  \<open>cct.nanopb.c\<close> and \<open>cct.nanopb.h\<close> (Google data transport: log requests and
  responses) and of \<open>firebasecore.nanopb.c\<close> and \<open>firebasecore.nanopb.h\<close> (core
  diagnostics). Enums are datatypes with their numeric codes, structs are member lists, and field
  arrays apply the macros of \<open>Pb_Descriptor\<close> as the generated code does. An enum is
  stored in four bytes.
\<close>

definition pb_bytes_array_t :: c_struct where
  "pb_bytes_array_t = [(''size'', CInt 4), (''bytes'', CArr 1 1 1)]"

section \<open>Enums of \<open>cct.nanopb.h\<close>\<close>

datatype gdt_cct_NetworkConnectionInfo_NetworkType =
  gdt_cct_NetworkConnectionInfo_NetworkType_NONE
| gdt_cct_NetworkConnectionInfo_NetworkType_MOBILE
| gdt_cct_NetworkConnectionInfo_NetworkType_WIFI
| gdt_cct_NetworkConnectionInfo_NetworkType_MOBILE_MMS
| gdt_cct_NetworkConnectionInfo_NetworkType_MOBILE_SUPL
| gdt_cct_NetworkConnectionInfo_NetworkType_MOBILE_DUN
| gdt_cct_NetworkConnectionInfo_NetworkType_MOBILE_HIPRI
| gdt_cct_NetworkConnectionInfo_NetworkType_WIMAX
| gdt_cct_NetworkConnectionInfo_NetworkType_BLUETOOTH
| gdt_cct_NetworkConnectionInfo_NetworkType_DUMMY
| gdt_cct_NetworkConnectionInfo_NetworkType_ETHERNET
| gdt_cct_NetworkConnectionInfo_NetworkType_MOBILE_FOTA
| gdt_cct_NetworkConnectionInfo_NetworkType_MOBILE_IMS
| gdt_cct_NetworkConnectionInfo_NetworkType_MOBILE_CBS
| gdt_cct_NetworkConnectionInfo_NetworkType_WIFI_P2P
| gdt_cct_NetworkConnectionInfo_NetworkType_MOBILE_IA
| gdt_cct_NetworkConnectionInfo_NetworkType_MOBILE_EMERGENCY
| gdt_cct_NetworkConnectionInfo_NetworkType_PROXY
| gdt_cct_NetworkConnectionInfo_NetworkType_VPN

primrec gdt_cct_NetworkConnectionInfo_NetworkType_code :: "gdt_cct_NetworkConnectionInfo_NetworkType \<Rightarrow> int" where
  "gdt_cct_NetworkConnectionInfo_NetworkType_code gdt_cct_NetworkConnectionInfo_NetworkType_NONE = - 1"
| "gdt_cct_NetworkConnectionInfo_NetworkType_code gdt_cct_NetworkConnectionInfo_NetworkType_MOBILE = 0"
| "gdt_cct_NetworkConnectionInfo_NetworkType_code gdt_cct_NetworkConnectionInfo_NetworkType_WIFI = 1"
| "gdt_cct_NetworkConnectionInfo_NetworkType_code gdt_cct_NetworkConnectionInfo_NetworkType_MOBILE_MMS = 2"
| "gdt_cct_NetworkConnectionInfo_NetworkType_code gdt_cct_NetworkConnectionInfo_NetworkType_MOBILE_SUPL = 3"
| "gdt_cct_NetworkConnectionInfo_NetworkType_code gdt_cct_NetworkConnectionInfo_NetworkType_MOBILE_DUN = 4"
| "gdt_cct_NetworkConnectionInfo_NetworkType_code gdt_cct_NetworkConnectionInfo_NetworkType_MOBILE_HIPRI = 5"
| "gdt_cct_NetworkConnectionInfo_NetworkType_code gdt_cct_NetworkConnectionInfo_NetworkType_WIMAX = 6"
| "gdt_cct_NetworkConnectionInfo_NetworkType_code gdt_cct_NetworkConnectionInfo_NetworkType_BLUETOOTH = 7"
| "gdt_cct_NetworkConnectionInfo_NetworkType_code gdt_cct_NetworkConnectionInfo_NetworkType_DUMMY = 8"
| "gdt_cct_NetworkConnectionInfo_NetworkType_code gdt_cct_NetworkConnectionInfo_NetworkType_ETHERNET = 9"
| "gdt_cct_NetworkConnectionInfo_NetworkType_code gdt_cct_NetworkConnectionInfo_NetworkType_MOBILE_FOTA = 10"
| "gdt_cct_NetworkConnectionInfo_NetworkType_code gdt_cct_NetworkConnectionInfo_NetworkType_MOBILE_IMS = 11"
| "gdt_cct_NetworkConnectionInfo_NetworkType_code gdt_cct_NetworkConnectionInfo_NetworkType_MOBILE_CBS = 12"
| "gdt_cct_NetworkConnectionInfo_NetworkType_code gdt_cct_NetworkConnectionInfo_NetworkType_WIFI_P2P = 13"
| "gdt_cct_NetworkConnectionInfo_NetworkType_code gdt_cct_NetworkConnectionInfo_NetworkType_MOBILE_IA = 14"
| "gdt_cct_NetworkConnectionInfo_NetworkType_code gdt_cct_NetworkConnectionInfo_NetworkType_MOBILE_EMERGENCY = 15"
| "gdt_cct_NetworkConnectionInfo_NetworkType_code gdt_cct_NetworkConnectionInfo_NetworkType_PROXY = 16"
| "gdt_cct_NetworkConnectionInfo_NetworkType_code gdt_cct_NetworkConnectionInfo_NetworkType_VPN = 17"

definition gdt_cct_NetworkConnectionInfo_NetworkType_MIN :: gdt_cct_NetworkConnectionInfo_NetworkType where
  "gdt_cct_NetworkConnectionInfo_NetworkType_MIN = gdt_cct_NetworkConnectionInfo_NetworkType_NONE"

definition gdt_cct_NetworkConnectionInfo_NetworkType_MAX :: gdt_cct_NetworkConnectionInfo_NetworkType where
  "gdt_cct_NetworkConnectionInfo_NetworkType_MAX = gdt_cct_NetworkConnectionInfo_NetworkType_VPN"

definition gdt_cct_NetworkConnectionInfo_NetworkType_ARRAYSIZE :: int where
  "gdt_cct_NetworkConnectionInfo_NetworkType_ARRAYSIZE = gdt_cct_NetworkConnectionInfo_NetworkType_code gdt_cct_NetworkConnectionInfo_NetworkType_MAX + 1"

datatype gdt_cct_NetworkConnectionInfo_MobileSubtype =
  gdt_cct_NetworkConnectionInfo_MobileSubtype_UNKNOWN_MOBILE_SUBTYPE
| gdt_cct_NetworkConnectionInfo_MobileSubtype_GPRS
| gdt_cct_NetworkConnectionInfo_MobileSubtype_EDGE
| gdt_cct_NetworkConnectionInfo_MobileSubtype_UMTS
| gdt_cct_NetworkConnectionInfo_MobileSubtype_CDMA
| gdt_cct_NetworkConnectionInfo_MobileSubtype_EVDO_0
| gdt_cct_NetworkConnectionInfo_MobileSubtype_EVDO_A
| gdt_cct_NetworkConnectionInfo_MobileSubtype_RTT
| gdt_cct_NetworkConnectionInfo_MobileSubtype_HSDPA
| gdt_cct_NetworkConnectionInfo_MobileSubtype_HSUPA
| gdt_cct_NetworkConnectionInfo_MobileSubtype_HSPA
| gdt_cct_NetworkConnectionInfo_MobileSubtype_IDEN
| gdt_cct_NetworkConnectionInfo_MobileSubtype_EVDO_B
| gdt_cct_NetworkConnectionInfo_MobileSubtype_LTE
| gdt_cct_NetworkConnectionInfo_MobileSubtype_EHRPD
| gdt_cct_NetworkConnectionInfo_MobileSubtype_HSPAP
| gdt_cct_NetworkConnectionInfo_MobileSubtype_GSM
| gdt_cct_NetworkConnectionInfo_MobileSubtype_TD_SCDMA
| gdt_cct_NetworkConnectionInfo_MobileSubtype_IWLAN
| gdt_cct_NetworkConnectionInfo_MobileSubtype_LTE_CA
| gdt_cct_NetworkConnectionInfo_MobileSubtype_COMBINED

primrec gdt_cct_NetworkConnectionInfo_MobileSubtype_code :: "gdt_cct_NetworkConnectionInfo_MobileSubtype \<Rightarrow> int" where
  "gdt_cct_NetworkConnectionInfo_MobileSubtype_code gdt_cct_NetworkConnectionInfo_MobileSubtype_UNKNOWN_MOBILE_SUBTYPE = 0"
| "gdt_cct_NetworkConnectionInfo_MobileSubtype_code gdt_cct_NetworkConnectionInfo_MobileSubtype_GPRS = 1"
| "gdt_cct_NetworkConnectionInfo_MobileSubtype_code gdt_cct_NetworkConnectionInfo_MobileSubtype_EDGE = 2"
| "gdt_cct_NetworkConnectionInfo_MobileSubtype_code gdt_cct_NetworkConnectionInfo_MobileSubtype_UMTS = 3"
| "gdt_cct_NetworkConnectionInfo_MobileSubtype_code gdt_cct_NetworkConnectionInfo_MobileSubtype_CDMA = 4"
| "gdt_cct_NetworkConnectionInfo_MobileSubtype_code gdt_cct_NetworkConnectionInfo_MobileSubtype_EVDO_0 = 5"
| "gdt_cct_NetworkConnectionInfo_MobileSubtype_code gdt_cct_NetworkConnectionInfo_MobileSubtype_EVDO_A = 6"
| "gdt_cct_NetworkConnectionInfo_MobileSubtype_code gdt_cct_NetworkConnectionInfo_MobileSubtype_RTT = 7"
| "gdt_cct_NetworkConnectionInfo_MobileSubtype_code gdt_cct_NetworkConnectionInfo_MobileSubtype_HSDPA = 8"
| "gdt_cct_NetworkConnectionInfo_MobileSubtype_code gdt_cct_NetworkConnectionInfo_MobileSubtype_HSUPA = 9"
| "gdt_cct_NetworkConnectionInfo_MobileSubtype_code gdt_cct_NetworkConnectionInfo_MobileSubtype_HSPA = 10"
| "gdt_cct_NetworkConnectionInfo_MobileSubtype_code gdt_cct_NetworkConnectionInfo_MobileSubtype_IDEN = 11"
| "gdt_cct_NetworkConnectionInfo_MobileSubtype_code gdt_cct_NetworkConnectionInfo_MobileSubtype_EVDO_B = 12"
| "gdt_cct_NetworkConnectionInfo_MobileSubtype_code gdt_cct_NetworkConnectionInfo_MobileSubtype_LTE = 13"
| "gdt_cct_NetworkConnectionInfo_MobileSubtype_code gdt_cct_NetworkConnectionInfo_MobileSubtype_EHRPD = 14"
| "gdt_cct_NetworkConnectionInfo_MobileSubtype_code gdt_cct_NetworkConnectionInfo_MobileSubtype_HSPAP = 15"
| "gdt_cct_NetworkConnectionInfo_MobileSubtype_code gdt_cct_NetworkConnectionInfo_MobileSubtype_GSM = 16"
| "gdt_cct_NetworkConnectionInfo_MobileSubtype_code gdt_cct_NetworkConnectionInfo_MobileSubtype_TD_SCDMA = 17"
| "gdt_cct_NetworkConnectionInfo_MobileSubtype_code gdt_cct_NetworkConnectionInfo_MobileSubtype_IWLAN = 18"
| "gdt_cct_NetworkConnectionInfo_MobileSubtype_code gdt_cct_NetworkConnectionInfo_MobileSubtype_LTE_CA = 19"
| "gdt_cct_NetworkConnectionInfo_MobileSubtype_code gdt_cct_NetworkConnectionInfo_MobileSubtype_COMBINED = 100"

definition gdt_cct_NetworkConnectionInfo_MobileSubtype_MIN :: gdt_cct_NetworkConnectionInfo_MobileSubtype where
  "gdt_cct_NetworkConnectionInfo_MobileSubtype_MIN = gdt_cct_NetworkConnectionInfo_MobileSubtype_UNKNOWN_MOBILE_SUBTYPE"

definition gdt_cct_NetworkConnectionInfo_MobileSubtype_MAX :: gdt_cct_NetworkConnectionInfo_MobileSubtype where
  "gdt_cct_NetworkConnectionInfo_MobileSubtype_MAX = gdt_cct_NetworkConnectionInfo_MobileSubtype_COMBINED"

definition gdt_cct_NetworkConnectionInfo_MobileSubtype_ARRAYSIZE :: int where
  "gdt_cct_NetworkConnectionInfo_MobileSubtype_ARRAYSIZE = gdt_cct_NetworkConnectionInfo_MobileSubtype_code gdt_cct_NetworkConnectionInfo_MobileSubtype_MAX + 1"

datatype gdt_cct_ClientInfo_ClientType =
  gdt_cct_ClientInfo_ClientType_CLIENT_UNKNOWN
| gdt_cct_ClientInfo_ClientType_IOS_FIREBASE

primrec gdt_cct_ClientInfo_ClientType_code :: "gdt_cct_ClientInfo_ClientType \<Rightarrow> int" where
  "gdt_cct_ClientInfo_ClientType_code gdt_cct_ClientInfo_ClientType_CLIENT_UNKNOWN = 0"
| "gdt_cct_ClientInfo_ClientType_code gdt_cct_ClientInfo_ClientType_IOS_FIREBASE = 15"

definition gdt_cct_ClientInfo_ClientType_MIN :: gdt_cct_ClientInfo_ClientType where
  "gdt_cct_ClientInfo_ClientType_MIN = gdt_cct_ClientInfo_ClientType_CLIENT_UNKNOWN"

definition gdt_cct_ClientInfo_ClientType_MAX :: gdt_cct_ClientInfo_ClientType where
  "gdt_cct_ClientInfo_ClientType_MAX = gdt_cct_ClientInfo_ClientType_IOS_FIREBASE"

definition gdt_cct_ClientInfo_ClientType_ARRAYSIZE :: int where
  "gdt_cct_ClientInfo_ClientType_ARRAYSIZE = gdt_cct_ClientInfo_ClientType_code gdt_cct_ClientInfo_ClientType_MAX + 1"

datatype gdt_cct_QosTierConfiguration_QosTier =
  gdt_cct_QosTierConfiguration_QosTier_DEFAULT
| gdt_cct_QosTierConfiguration_QosTier_UNMETERED_ONLY
| gdt_cct_QosTierConfiguration_QosTier_UNMETERED_OR_DAILY
| gdt_cct_QosTierConfiguration_QosTier_FAST_IF_RADIO_AWAKE
| gdt_cct_QosTierConfiguration_QosTier_NEVER

primrec gdt_cct_QosTierConfiguration_QosTier_code :: "gdt_cct_QosTierConfiguration_QosTier \<Rightarrow> int" where
  "gdt_cct_QosTierConfiguration_QosTier_code gdt_cct_QosTierConfiguration_QosTier_DEFAULT = 0"
| "gdt_cct_QosTierConfiguration_QosTier_code gdt_cct_QosTierConfiguration_QosTier_UNMETERED_ONLY = 1"
| "gdt_cct_QosTierConfiguration_QosTier_code gdt_cct_QosTierConfiguration_QosTier_UNMETERED_OR_DAILY = 2"
| "gdt_cct_QosTierConfiguration_QosTier_code gdt_cct_QosTierConfiguration_QosTier_FAST_IF_RADIO_AWAKE = 3"
| "gdt_cct_QosTierConfiguration_QosTier_code gdt_cct_QosTierConfiguration_QosTier_NEVER = 4"

definition gdt_cct_QosTierConfiguration_QosTier_MIN :: gdt_cct_QosTierConfiguration_QosTier where
  "gdt_cct_QosTierConfiguration_QosTier_MIN = gdt_cct_QosTierConfiguration_QosTier_DEFAULT"

definition gdt_cct_QosTierConfiguration_QosTier_MAX :: gdt_cct_QosTierConfiguration_QosTier where
  "gdt_cct_QosTierConfiguration_QosTier_MAX = gdt_cct_QosTierConfiguration_QosTier_NEVER"

definition gdt_cct_QosTierConfiguration_QosTier_ARRAYSIZE :: int where
  "gdt_cct_QosTierConfiguration_QosTier_ARRAYSIZE = gdt_cct_QosTierConfiguration_QosTier_code gdt_cct_QosTierConfiguration_QosTier_MAX + 1"

section \<open>Structs of \<open>cct.nanopb.h\<close>\<close>

definition gdt_cct_IosClientInfo :: c_struct where
  "gdt_cct_IosClientInfo =
     [(''os_major_version'', CPtr (struct_sizeof pb_bytes_array_t)),
      (''os_full_version'', CPtr (struct_sizeof pb_bytes_array_t)),
      (''application_build'', CPtr (struct_sizeof pb_bytes_array_t)),
      (''country'', CPtr (struct_sizeof pb_bytes_array_t)),
      (''model'', CPtr (struct_sizeof pb_bytes_array_t)),
      (''language_code'', CPtr (struct_sizeof pb_bytes_array_t)),
      (''application_bundle_id'', CPtr (struct_sizeof pb_bytes_array_t))]"

definition gdt_cct_ClientInfo :: c_struct where
  "gdt_cct_ClientInfo =
     [(''has_client_type'', CInt 1),
      (''client_type'', CInt 4),
      (''has_ios_client_info'', CInt 1),
      (''ios_client_info'', struct_type gdt_cct_IosClientInfo)]"

definition gdt_cct_NetworkConnectionInfo :: c_struct where
  "gdt_cct_NetworkConnectionInfo =
     [(''has_network_type'', CInt 1),
      (''network_type'', CInt 4),
      (''has_mobile_subtype'', CInt 1),
      (''mobile_subtype'', CInt 4)]"

definition gdt_cct_LogEvent :: c_struct where
  "gdt_cct_LogEvent =
     [(''has_event_time_ms'', CInt 1),
      (''event_time_ms'', CInt 8),
      (''source_extension'', CPtr (struct_sizeof pb_bytes_array_t)),
      (''has_event_code'', CInt 1),
      (''event_code'', CInt 4),
      (''has_timezone_offset_seconds'', CInt 1),
      (''timezone_offset_seconds'', CInt 8),
      (''has_event_uptime_ms'', CInt 1),
      (''event_uptime_ms'', CInt 8),
      (''has_network_connection_info'', CInt 1),
      (''network_connection_info'', struct_type gdt_cct_NetworkConnectionInfo)]"

definition gdt_cct_LogRequest :: c_struct where
  "gdt_cct_LogRequest =
     [(''has_client_info'', CInt 1),
      (''client_info'', struct_type gdt_cct_ClientInfo),
      (''has_log_source'', CInt 1),
      (''log_source'', CInt 4),
      (''log_event_count'', CInt 4),
      (''log_event'', CPtr (struct_sizeof gdt_cct_LogEvent)),
      (''has_request_time_ms'', CInt 1),
      (''request_time_ms'', CInt 8),
      (''has_request_uptime_ms'', CInt 1),
      (''request_uptime_ms'', CInt 8),
      (''has_qos_tier'', CInt 1),
      (''qos_tier'', CInt 4)]"

definition gdt_cct_BatchedLogRequest :: c_struct where
  "gdt_cct_BatchedLogRequest =
     [(''log_request_count'', CInt 4),
      (''log_request'', CPtr (struct_sizeof gdt_cct_LogRequest))]"

definition gdt_cct_QosTierConfiguration :: c_struct where
  "gdt_cct_QosTierConfiguration =
     [(''has_qos_tier'', CInt 1),
      (''qos_tier'', CInt 4),
      (''has_log_source'', CInt 1),
      (''log_source'', CInt 4)]"

definition gdt_cct_QosTiersOverride :: c_struct where
  "gdt_cct_QosTiersOverride =
     [(''qos_tier_configuration_count'', CInt 4),
      (''qos_tier_configuration'', CPtr (struct_sizeof gdt_cct_QosTierConfiguration)),
      (''has_qos_tier_fingerprint'', CInt 1),
      (''qos_tier_fingerprint'', CInt 8)]"

definition gdt_cct_LogResponse :: c_struct where
  "gdt_cct_LogResponse =
     [(''has_next_request_wait_millis'', CInt 1),
      (''next_request_wait_millis'', CInt 8),
      (''has_qos_tier'', CInt 1),
      (''qos_tier'', struct_type gdt_cct_QosTiersOverride)]"

section \<open>Default values of \<open>cct.nanopb.c\<close>\<close>

definition gdt_cct_NetworkConnectionInfo_network_type_default :: uint32 where
  "gdt_cct_NetworkConnectionInfo_network_type_default = of_int (gdt_cct_NetworkConnectionInfo_NetworkType_code gdt_cct_NetworkConnectionInfo_NetworkType_NONE)"

definition gdt_cct_NetworkConnectionInfo_mobile_subtype_default :: uint32 where
  "gdt_cct_NetworkConnectionInfo_mobile_subtype_default = of_int (gdt_cct_NetworkConnectionInfo_MobileSubtype_code gdt_cct_NetworkConnectionInfo_MobileSubtype_UNKNOWN_MOBILE_SUBTYPE)"

definition gdt_cct_LogRequest_qos_tier_default :: uint32 where
  "gdt_cct_LogRequest_qos_tier_default = of_int (gdt_cct_QosTierConfiguration_QosTier_code gdt_cct_QosTierConfiguration_QosTier_DEFAULT)"

definition gdt_cct_QosTierConfiguration_log_source_default :: uint32 where
  "gdt_cct_QosTierConfiguration_log_source_default = 0"

section \<open>Field arrays of \<open>cct.nanopb.c\<close>\<close>

definition gdt_cct_IosClientInfo_fields :: "pb_field list" where
  "gdt_cct_IosClientInfo_fields =
     [PB_FIELD 3 BYTES OPTIONAL POINTER FIRST gdt_cct_IosClientInfo ''os_major_version'' ''os_major_version'' PtrNull,
      PB_FIELD 4 BYTES OPTIONAL POINTER OTHER gdt_cct_IosClientInfo ''os_full_version'' ''os_major_version'' PtrNull,
      PB_FIELD 5 BYTES OPTIONAL POINTER OTHER gdt_cct_IosClientInfo ''application_build'' ''os_full_version'' PtrNull,
      PB_FIELD 6 BYTES OPTIONAL POINTER OTHER gdt_cct_IosClientInfo ''country'' ''application_build'' PtrNull,
      PB_FIELD 7 BYTES OPTIONAL POINTER OTHER gdt_cct_IosClientInfo ''model'' ''country'' PtrNull,
      PB_FIELD 8 BYTES OPTIONAL POINTER OTHER gdt_cct_IosClientInfo ''language_code'' ''model'' PtrNull,
      PB_FIELD 11 BYTES OPTIONAL POINTER OTHER gdt_cct_IosClientInfo ''application_bundle_id'' ''language_code'' PtrNull,
      PB_LAST_FIELD]"

definition gdt_cct_ClientInfo_fields :: "pb_field list" where
  "gdt_cct_ClientInfo_fields =
     [PB_FIELD 1 UENUM OPTIONAL STATIC FIRST gdt_cct_ClientInfo ''client_type'' ''client_type'' PtrNull,
      PB_FIELD 4 MESSAGE OPTIONAL STATIC OTHER gdt_cct_ClientInfo ''ios_client_info'' ''client_type'' (PtrFields gdt_cct_IosClientInfo_fields),
      PB_LAST_FIELD]"

definition gdt_cct_NetworkConnectionInfo_fields :: "pb_field list" where
  "gdt_cct_NetworkConnectionInfo_fields =
     [PB_FIELD 1 ENUM OPTIONAL STATIC FIRST gdt_cct_NetworkConnectionInfo ''network_type'' ''network_type'' (PtrDefault (to_bytes 4 gdt_cct_NetworkConnectionInfo_network_type_default)),
      PB_FIELD 2 UENUM OPTIONAL STATIC OTHER gdt_cct_NetworkConnectionInfo ''mobile_subtype'' ''network_type'' (PtrDefault (to_bytes 4 gdt_cct_NetworkConnectionInfo_mobile_subtype_default)),
      PB_LAST_FIELD]"

definition gdt_cct_LogEvent_fields :: "pb_field list" where
  "gdt_cct_LogEvent_fields =
     [PB_FIELD 1 INT64 OPTIONAL STATIC FIRST gdt_cct_LogEvent ''event_time_ms'' ''event_time_ms'' PtrNull,
      PB_FIELD 6 BYTES OPTIONAL POINTER OTHER gdt_cct_LogEvent ''source_extension'' ''event_time_ms'' PtrNull,
      PB_FIELD 11 INT32 OPTIONAL STATIC OTHER gdt_cct_LogEvent ''event_code'' ''source_extension'' PtrNull,
      PB_FIELD 15 SINT64 OPTIONAL STATIC OTHER gdt_cct_LogEvent ''timezone_offset_seconds'' ''event_code'' PtrNull,
      PB_FIELD 17 INT64 OPTIONAL STATIC OTHER gdt_cct_LogEvent ''event_uptime_ms'' ''timezone_offset_seconds'' PtrNull,
      PB_FIELD 23 MESSAGE OPTIONAL STATIC OTHER gdt_cct_LogEvent ''network_connection_info'' ''event_uptime_ms'' (PtrFields gdt_cct_NetworkConnectionInfo_fields),
      PB_LAST_FIELD]"

definition gdt_cct_LogRequest_fields :: "pb_field list" where
  "gdt_cct_LogRequest_fields =
     [PB_FIELD 1 MESSAGE OPTIONAL STATIC FIRST gdt_cct_LogRequest ''client_info'' ''client_info'' (PtrFields gdt_cct_ClientInfo_fields),
      PB_FIELD 2 INT32 OPTIONAL STATIC OTHER gdt_cct_LogRequest ''log_source'' ''client_info'' PtrNull,
      PB_FIELD 3 MESSAGE REPEATED POINTER OTHER gdt_cct_LogRequest ''log_event'' ''log_source'' (PtrFields gdt_cct_LogEvent_fields),
      PB_FIELD 4 INT64 OPTIONAL STATIC OTHER gdt_cct_LogRequest ''request_time_ms'' ''log_event'' PtrNull,
      PB_FIELD 8 INT64 OPTIONAL STATIC OTHER gdt_cct_LogRequest ''request_uptime_ms'' ''request_time_ms'' PtrNull,
      PB_FIELD 9 UENUM OPTIONAL STATIC OTHER gdt_cct_LogRequest ''qos_tier'' ''request_uptime_ms'' (PtrDefault (to_bytes 4 gdt_cct_LogRequest_qos_tier_default)),
      PB_LAST_FIELD]"

definition gdt_cct_BatchedLogRequest_fields :: "pb_field list" where
  "gdt_cct_BatchedLogRequest_fields =
     [PB_FIELD 1 MESSAGE REPEATED POINTER FIRST gdt_cct_BatchedLogRequest ''log_request'' ''log_request'' (PtrFields gdt_cct_LogRequest_fields),
      PB_LAST_FIELD]"

definition gdt_cct_QosTierConfiguration_fields :: "pb_field list" where
  "gdt_cct_QosTierConfiguration_fields =
     [PB_FIELD 2 UENUM OPTIONAL STATIC FIRST gdt_cct_QosTierConfiguration ''qos_tier'' ''qos_tier'' PtrNull,
      PB_FIELD 3 INT32 OPTIONAL STATIC OTHER gdt_cct_QosTierConfiguration ''log_source'' ''qos_tier'' (PtrDefault (to_bytes 4 gdt_cct_QosTierConfiguration_log_source_default)),
      PB_LAST_FIELD]"

definition gdt_cct_QosTiersOverride_fields :: "pb_field list" where
  "gdt_cct_QosTiersOverride_fields =
     [PB_FIELD 1 MESSAGE REPEATED POINTER FIRST gdt_cct_QosTiersOverride ''qos_tier_configuration'' ''qos_tier_configuration'' (PtrFields gdt_cct_QosTierConfiguration_fields),
      PB_FIELD 2 INT64 OPTIONAL STATIC OTHER gdt_cct_QosTiersOverride ''qos_tier_fingerprint'' ''qos_tier_configuration'' PtrNull,
      PB_LAST_FIELD]"

definition gdt_cct_LogResponse_fields :: "pb_field list" where
  "gdt_cct_LogResponse_fields =
     [PB_FIELD 1 INT64 OPTIONAL STATIC FIRST gdt_cct_LogResponse ''next_request_wait_millis'' ''next_request_wait_millis'' PtrNull,
      PB_FIELD 3 MESSAGE OPTIONAL STATIC OTHER gdt_cct_LogResponse ''qos_tier'' ''next_request_wait_millis'' (PtrFields gdt_cct_QosTiersOverride_fields),
      PB_LAST_FIELD]"

section \<open>Enums of \<open>firebasecore.nanopb.h\<close>\<close>

datatype logs_proto_mobilesdk_ios_ICoreConfiguration_ConfigurationType =
  logs_proto_mobilesdk_ios_ICoreConfiguration_ConfigurationType_UNKNOWN_CONFIGURATION_TYPE
| logs_proto_mobilesdk_ios_ICoreConfiguration_ConfigurationType_CORE
| logs_proto_mobilesdk_ios_ICoreConfiguration_ConfigurationType_SDK

primrec logs_proto_mobilesdk_ios_ICoreConfiguration_ConfigurationType_code :: "logs_proto_mobilesdk_ios_ICoreConfiguration_ConfigurationType \<Rightarrow> int" where
  "logs_proto_mobilesdk_ios_ICoreConfiguration_ConfigurationType_code logs_proto_mobilesdk_ios_ICoreConfiguration_ConfigurationType_UNKNOWN_CONFIGURATION_TYPE = 0"
| "logs_proto_mobilesdk_ios_ICoreConfiguration_ConfigurationType_code logs_proto_mobilesdk_ios_ICoreConfiguration_ConfigurationType_CORE = 1"
| "logs_proto_mobilesdk_ios_ICoreConfiguration_ConfigurationType_code logs_proto_mobilesdk_ios_ICoreConfiguration_ConfigurationType_SDK = 2"

definition logs_proto_mobilesdk_ios_ICoreConfiguration_ConfigurationType_MIN :: logs_proto_mobilesdk_ios_ICoreConfiguration_ConfigurationType where
  "logs_proto_mobilesdk_ios_ICoreConfiguration_ConfigurationType_MIN = logs_proto_mobilesdk_ios_ICoreConfiguration_ConfigurationType_UNKNOWN_CONFIGURATION_TYPE"

definition logs_proto_mobilesdk_ios_ICoreConfiguration_ConfigurationType_MAX :: logs_proto_mobilesdk_ios_ICoreConfiguration_ConfigurationType where
  "logs_proto_mobilesdk_ios_ICoreConfiguration_ConfigurationType_MAX = logs_proto_mobilesdk_ios_ICoreConfiguration_ConfigurationType_SDK"

definition logs_proto_mobilesdk_ios_ICoreConfiguration_ConfigurationType_ARRAYSIZE :: int where
  "logs_proto_mobilesdk_ios_ICoreConfiguration_ConfigurationType_ARRAYSIZE = logs_proto_mobilesdk_ios_ICoreConfiguration_ConfigurationType_code logs_proto_mobilesdk_ios_ICoreConfiguration_ConfigurationType_MAX + 1"

datatype logs_proto_mobilesdk_ios_ICoreConfiguration_BuildType =
  logs_proto_mobilesdk_ios_ICoreConfiguration_BuildType_UNKNOWN_BUILD_TYPE
| logs_proto_mobilesdk_ios_ICoreConfiguration_BuildType_INTERNAL
| logs_proto_mobilesdk_ios_ICoreConfiguration_BuildType_EAP
| logs_proto_mobilesdk_ios_ICoreConfiguration_BuildType_PROD

primrec logs_proto_mobilesdk_ios_ICoreConfiguration_BuildType_code :: "logs_proto_mobilesdk_ios_ICoreConfiguration_BuildType \<Rightarrow> int" where
  "logs_proto_mobilesdk_ios_ICoreConfiguration_BuildType_code logs_proto_mobilesdk_ios_ICoreConfiguration_BuildType_UNKNOWN_BUILD_TYPE = 0"
| "logs_proto_mobilesdk_ios_ICoreConfiguration_BuildType_code logs_proto_mobilesdk_ios_ICoreConfiguration_BuildType_INTERNAL = 1"
| "logs_proto_mobilesdk_ios_ICoreConfiguration_BuildType_code logs_proto_mobilesdk_ios_ICoreConfiguration_BuildType_EAP = 2"
| "logs_proto_mobilesdk_ios_ICoreConfiguration_BuildType_code logs_proto_mobilesdk_ios_ICoreConfiguration_BuildType_PROD = 3"

definition logs_proto_mobilesdk_ios_ICoreConfiguration_BuildType_MIN :: logs_proto_mobilesdk_ios_ICoreConfiguration_BuildType where
  "logs_proto_mobilesdk_ios_ICoreConfiguration_BuildType_MIN = logs_proto_mobilesdk_ios_ICoreConfiguration_BuildType_UNKNOWN_BUILD_TYPE"

definition logs_proto_mobilesdk_ios_ICoreConfiguration_BuildType_MAX :: logs_proto_mobilesdk_ios_ICoreConfiguration_BuildType where
  "logs_proto_mobilesdk_ios_ICoreConfiguration_BuildType_MAX = logs_proto_mobilesdk_ios_ICoreConfiguration_BuildType_PROD"

definition logs_proto_mobilesdk_ios_ICoreConfiguration_BuildType_ARRAYSIZE :: int where
  "logs_proto_mobilesdk_ios_ICoreConfiguration_BuildType_ARRAYSIZE = logs_proto_mobilesdk_ios_ICoreConfiguration_BuildType_code logs_proto_mobilesdk_ios_ICoreConfiguration_BuildType_MAX + 1"

datatype logs_proto_mobilesdk_ios_ICoreConfiguration_ServiceType =
  logs_proto_mobilesdk_ios_ICoreConfiguration_ServiceType_UNKNOWN_SDK_SERVICE
| logs_proto_mobilesdk_ios_ICoreConfiguration_ServiceType_ICORE
| logs_proto_mobilesdk_ios_ICoreConfiguration_ServiceType_ADMOB
| logs_proto_mobilesdk_ios_ICoreConfiguration_ServiceType_APP_INVITE
| logs_proto_mobilesdk_ios_ICoreConfiguration_ServiceType_SIGN_IN
| logs_proto_mobilesdk_ios_ICoreConfiguration_ServiceType_GCM
| logs_proto_mobilesdk_ios_ICoreConfiguration_ServiceType_MAPS
| logs_proto_mobilesdk_ios_ICoreConfiguration_ServiceType_SCION
| logs_proto_mobilesdk_ios_ICoreConfiguration_ServiceType_ANALYTICS
| logs_proto_mobilesdk_ios_ICoreConfiguration_ServiceType_APP_INDEXING
| logs_proto_mobilesdk_ios_ICoreConfiguration_ServiceType_CONFIG
| logs_proto_mobilesdk_ios_ICoreConfiguration_ServiceType_DURABLE_DEEP_LINKS
| logs_proto_mobilesdk_ios_ICoreConfiguration_ServiceType_CRASH
| logs_proto_mobilesdk_ios_ICoreConfiguration_ServiceType_AUTH
| logs_proto_mobilesdk_ios_ICoreConfiguration_ServiceType_DATABASE
| logs_proto_mobilesdk_ios_ICoreConfiguration_ServiceType_STORAGE
| logs_proto_mobilesdk_ios_ICoreConfiguration_ServiceType_MESSAGING
| logs_proto_mobilesdk_ios_ICoreConfiguration_ServiceType_MEASUREMENT
| logs_proto_mobilesdk_ios_ICoreConfiguration_ServiceType_REMOTE_CONFIG
| logs_proto_mobilesdk_ios_ICoreConfiguration_ServiceType_DYNAMIC_LINKS
| logs_proto_mobilesdk_ios_ICoreConfiguration_ServiceType_INVITES
| logs_proto_mobilesdk_ios_ICoreConfiguration_ServiceType_AUTH_UI
| logs_proto_mobilesdk_ios_ICoreConfiguration_ServiceType_FIRESTORE
| logs_proto_mobilesdk_ios_ICoreConfiguration_ServiceType_PERFORMANCE
| logs_proto_mobilesdk_ios_ICoreConfiguration_ServiceType_ML_VISION_ON_DEVICE_FACE
| logs_proto_mobilesdk_ios_ICoreConfiguration_ServiceType_ML_VISION_ON_DEVICE_BARCODE
| logs_proto_mobilesdk_ios_ICoreConfiguration_ServiceType_ML_VISION_ON_DEVICE_TEXT
| logs_proto_mobilesdk_ios_ICoreConfiguration_ServiceType_ML_VISION_ON_DEVICE_LABEL
| logs_proto_mobilesdk_ios_ICoreConfiguration_ServiceType_ML_MODEL_INTERPRETER
| logs_proto_mobilesdk_ios_ICoreConfiguration_ServiceType_IN_APP_MESSAGING
| logs_proto_mobilesdk_ios_ICoreConfiguration_ServiceType_FUNCTIONS
| logs_proto_mobilesdk_ios_ICoreConfiguration_ServiceType_ML_NATURAL_LANGUAGE
| logs_proto_mobilesdk_ios_ICoreConfiguration_ServiceType_ML_VISION_ON_DEVICE_AUTOML
| logs_proto_mobilesdk_ios_ICoreConfiguration_ServiceType_ML_VISION_ON_DEVICE_OBJECT_DETECTION

primrec logs_proto_mobilesdk_ios_ICoreConfiguration_ServiceType_code :: "logs_proto_mobilesdk_ios_ICoreConfiguration_ServiceType \<Rightarrow> int" where
  "logs_proto_mobilesdk_ios_ICoreConfiguration_ServiceType_code logs_proto_mobilesdk_ios_ICoreConfiguration_ServiceType_UNKNOWN_SDK_SERVICE = 0"
| "logs_proto_mobilesdk_ios_ICoreConfiguration_ServiceType_code logs_proto_mobilesdk_ios_ICoreConfiguration_ServiceType_ICORE = 1"
| "logs_proto_mobilesdk_ios_ICoreConfiguration_ServiceType_code logs_proto_mobilesdk_ios_ICoreConfiguration_ServiceType_ADMOB = 2"
| "logs_proto_mobilesdk_ios_ICoreConfiguration_ServiceType_code logs_proto_mobilesdk_ios_ICoreConfiguration_ServiceType_APP_INVITE = 3"
| "logs_proto_mobilesdk_ios_ICoreConfiguration_ServiceType_code logs_proto_mobilesdk_ios_ICoreConfiguration_ServiceType_SIGN_IN = 5"
| "logs_proto_mobilesdk_ios_ICoreConfiguration_ServiceType_code logs_proto_mobilesdk_ios_ICoreConfiguration_ServiceType_GCM = 6"
| "logs_proto_mobilesdk_ios_ICoreConfiguration_ServiceType_code logs_proto_mobilesdk_ios_ICoreConfiguration_ServiceType_MAPS = 7"
| "logs_proto_mobilesdk_ios_ICoreConfiguration_ServiceType_code logs_proto_mobilesdk_ios_ICoreConfiguration_ServiceType_SCION = 8"
| "logs_proto_mobilesdk_ios_ICoreConfiguration_ServiceType_code logs_proto_mobilesdk_ios_ICoreConfiguration_ServiceType_ANALYTICS = 9"
| "logs_proto_mobilesdk_ios_ICoreConfiguration_ServiceType_code logs_proto_mobilesdk_ios_ICoreConfiguration_ServiceType_APP_INDEXING = 10"
| "logs_proto_mobilesdk_ios_ICoreConfiguration_ServiceType_code logs_proto_mobilesdk_ios_ICoreConfiguration_ServiceType_CONFIG = 11"
| "logs_proto_mobilesdk_ios_ICoreConfiguration_ServiceType_code logs_proto_mobilesdk_ios_ICoreConfiguration_ServiceType_DURABLE_DEEP_LINKS = 12"
| "logs_proto_mobilesdk_ios_ICoreConfiguration_ServiceType_code logs_proto_mobilesdk_ios_ICoreConfiguration_ServiceType_CRASH = 13"
| "logs_proto_mobilesdk_ios_ICoreConfiguration_ServiceType_code logs_proto_mobilesdk_ios_ICoreConfiguration_ServiceType_AUTH = 14"
| "logs_proto_mobilesdk_ios_ICoreConfiguration_ServiceType_code logs_proto_mobilesdk_ios_ICoreConfiguration_ServiceType_DATABASE = 15"
| "logs_proto_mobilesdk_ios_ICoreConfiguration_ServiceType_code logs_proto_mobilesdk_ios_ICoreConfiguration_ServiceType_STORAGE = 16"
| "logs_proto_mobilesdk_ios_ICoreConfiguration_ServiceType_code logs_proto_mobilesdk_ios_ICoreConfiguration_ServiceType_MESSAGING = 17"
| "logs_proto_mobilesdk_ios_ICoreConfiguration_ServiceType_code logs_proto_mobilesdk_ios_ICoreConfiguration_ServiceType_MEASUREMENT = 18"
| "logs_proto_mobilesdk_ios_ICoreConfiguration_ServiceType_code logs_proto_mobilesdk_ios_ICoreConfiguration_ServiceType_REMOTE_CONFIG = 19"
| "logs_proto_mobilesdk_ios_ICoreConfiguration_ServiceType_code logs_proto_mobilesdk_ios_ICoreConfiguration_ServiceType_DYNAMIC_LINKS = 20"
| "logs_proto_mobilesdk_ios_ICoreConfiguration_ServiceType_code logs_proto_mobilesdk_ios_ICoreConfiguration_ServiceType_INVITES = 21"
| "logs_proto_mobilesdk_ios_ICoreConfiguration_ServiceType_code logs_proto_mobilesdk_ios_ICoreConfiguration_ServiceType_AUTH_UI = 22"
| "logs_proto_mobilesdk_ios_ICoreConfiguration_ServiceType_code logs_proto_mobilesdk_ios_ICoreConfiguration_ServiceType_FIRESTORE = 23"
| "logs_proto_mobilesdk_ios_ICoreConfiguration_ServiceType_code logs_proto_mobilesdk_ios_ICoreConfiguration_ServiceType_PERFORMANCE = 24"
| "logs_proto_mobilesdk_ios_ICoreConfiguration_ServiceType_code logs_proto_mobilesdk_ios_ICoreConfiguration_ServiceType_ML_VISION_ON_DEVICE_FACE = 26"
| "logs_proto_mobilesdk_ios_ICoreConfiguration_ServiceType_code logs_proto_mobilesdk_ios_ICoreConfiguration_ServiceType_ML_VISION_ON_DEVICE_BARCODE = 27"
| "logs_proto_mobilesdk_ios_ICoreConfiguration_ServiceType_code logs_proto_mobilesdk_ios_ICoreConfiguration_ServiceType_ML_VISION_ON_DEVICE_TEXT = 28"
| "logs_proto_mobilesdk_ios_ICoreConfiguration_ServiceType_code logs_proto_mobilesdk_ios_ICoreConfiguration_ServiceType_ML_VISION_ON_DEVICE_LABEL = 29"
| "logs_proto_mobilesdk_ios_ICoreConfiguration_ServiceType_code logs_proto_mobilesdk_ios_ICoreConfiguration_ServiceType_ML_MODEL_INTERPRETER = 30"
| "logs_proto_mobilesdk_ios_ICoreConfiguration_ServiceType_code logs_proto_mobilesdk_ios_ICoreConfiguration_ServiceType_IN_APP_MESSAGING = 31"
| "logs_proto_mobilesdk_ios_ICoreConfiguration_ServiceType_code logs_proto_mobilesdk_ios_ICoreConfiguration_ServiceType_FUNCTIONS = 32"
| "logs_proto_mobilesdk_ios_ICoreConfiguration_ServiceType_code logs_proto_mobilesdk_ios_ICoreConfiguration_ServiceType_ML_NATURAL_LANGUAGE = 33"
| "logs_proto_mobilesdk_ios_ICoreConfiguration_ServiceType_code logs_proto_mobilesdk_ios_ICoreConfiguration_ServiceType_ML_VISION_ON_DEVICE_AUTOML = 34"
| "logs_proto_mobilesdk_ios_ICoreConfiguration_ServiceType_code logs_proto_mobilesdk_ios_ICoreConfiguration_ServiceType_ML_VISION_ON_DEVICE_OBJECT_DETECTION = 35"

definition logs_proto_mobilesdk_ios_ICoreConfiguration_ServiceType_MIN :: logs_proto_mobilesdk_ios_ICoreConfiguration_ServiceType where
  "logs_proto_mobilesdk_ios_ICoreConfiguration_ServiceType_MIN = logs_proto_mobilesdk_ios_ICoreConfiguration_ServiceType_UNKNOWN_SDK_SERVICE"

definition logs_proto_mobilesdk_ios_ICoreConfiguration_ServiceType_MAX :: logs_proto_mobilesdk_ios_ICoreConfiguration_ServiceType where
  "logs_proto_mobilesdk_ios_ICoreConfiguration_ServiceType_MAX = logs_proto_mobilesdk_ios_ICoreConfiguration_ServiceType_ML_VISION_ON_DEVICE_OBJECT_DETECTION"

definition logs_proto_mobilesdk_ios_ICoreConfiguration_ServiceType_ARRAYSIZE :: int where
  "logs_proto_mobilesdk_ios_ICoreConfiguration_ServiceType_ARRAYSIZE = logs_proto_mobilesdk_ios_ICoreConfiguration_ServiceType_code logs_proto_mobilesdk_ios_ICoreConfiguration_ServiceType_MAX + 1"

datatype logs_proto_mobilesdk_ios_ICoreConfiguration_PodName =
  logs_proto_mobilesdk_ios_ICoreConfiguration_PodName_UNKNOWN_POD_NAME
| logs_proto_mobilesdk_ios_ICoreConfiguration_PodName_GOOGLE
| logs_proto_mobilesdk_ios_ICoreConfiguration_PodName_FIREBASE

primrec logs_proto_mobilesdk_ios_ICoreConfiguration_PodName_code :: "logs_proto_mobilesdk_ios_ICoreConfiguration_PodName \<Rightarrow> int" where
  "logs_proto_mobilesdk_ios_ICoreConfiguration_PodName_code logs_proto_mobilesdk_ios_ICoreConfiguration_PodName_UNKNOWN_POD_NAME = 0"
| "logs_proto_mobilesdk_ios_ICoreConfiguration_PodName_code logs_proto_mobilesdk_ios_ICoreConfiguration_PodName_GOOGLE = 1"
| "logs_proto_mobilesdk_ios_ICoreConfiguration_PodName_code logs_proto_mobilesdk_ios_ICoreConfiguration_PodName_FIREBASE = 2"

definition logs_proto_mobilesdk_ios_ICoreConfiguration_PodName_MIN :: logs_proto_mobilesdk_ios_ICoreConfiguration_PodName where
  "logs_proto_mobilesdk_ios_ICoreConfiguration_PodName_MIN = logs_proto_mobilesdk_ios_ICoreConfiguration_PodName_UNKNOWN_POD_NAME"

definition logs_proto_mobilesdk_ios_ICoreConfiguration_PodName_MAX :: logs_proto_mobilesdk_ios_ICoreConfiguration_PodName where
  "logs_proto_mobilesdk_ios_ICoreConfiguration_PodName_MAX = logs_proto_mobilesdk_ios_ICoreConfiguration_PodName_FIREBASE"

definition logs_proto_mobilesdk_ios_ICoreConfiguration_PodName_ARRAYSIZE :: int where
  "logs_proto_mobilesdk_ios_ICoreConfiguration_PodName_ARRAYSIZE = logs_proto_mobilesdk_ios_ICoreConfiguration_PodName_code logs_proto_mobilesdk_ios_ICoreConfiguration_PodName_MAX + 1"

datatype logs_proto_mobilesdk_ios_ICoreConfiguration_DeploymentType =
  logs_proto_mobilesdk_ios_ICoreConfiguration_DeploymentType_UNKNOWN
| logs_proto_mobilesdk_ios_ICoreConfiguration_DeploymentType_COCOAPODS
| logs_proto_mobilesdk_ios_ICoreConfiguration_DeploymentType_ZIP_FILE
| logs_proto_mobilesdk_ios_ICoreConfiguration_DeploymentType_CARTHAGE
| logs_proto_mobilesdk_ios_ICoreConfiguration_DeploymentType_SPM

primrec logs_proto_mobilesdk_ios_ICoreConfiguration_DeploymentType_code :: "logs_proto_mobilesdk_ios_ICoreConfiguration_DeploymentType \<Rightarrow> int" where
  "logs_proto_mobilesdk_ios_ICoreConfiguration_DeploymentType_code logs_proto_mobilesdk_ios_ICoreConfiguration_DeploymentType_UNKNOWN = 0"
| "logs_proto_mobilesdk_ios_ICoreConfiguration_DeploymentType_code logs_proto_mobilesdk_ios_ICoreConfiguration_DeploymentType_COCOAPODS = 1"
| "logs_proto_mobilesdk_ios_ICoreConfiguration_DeploymentType_code logs_proto_mobilesdk_ios_ICoreConfiguration_DeploymentType_ZIP_FILE = 2"
| "logs_proto_mobilesdk_ios_ICoreConfiguration_DeploymentType_code logs_proto_mobilesdk_ios_ICoreConfiguration_DeploymentType_CARTHAGE = 3"
| "logs_proto_mobilesdk_ios_ICoreConfiguration_DeploymentType_code logs_proto_mobilesdk_ios_ICoreConfiguration_DeploymentType_SPM = 4"

definition logs_proto_mobilesdk_ios_ICoreConfiguration_DeploymentType_MIN :: logs_proto_mobilesdk_ios_ICoreConfiguration_DeploymentType where
  "logs_proto_mobilesdk_ios_ICoreConfiguration_DeploymentType_MIN = logs_proto_mobilesdk_ios_ICoreConfiguration_DeploymentType_UNKNOWN"

definition logs_proto_mobilesdk_ios_ICoreConfiguration_DeploymentType_MAX :: logs_proto_mobilesdk_ios_ICoreConfiguration_DeploymentType where
  "logs_proto_mobilesdk_ios_ICoreConfiguration_DeploymentType_MAX = logs_proto_mobilesdk_ios_ICoreConfiguration_DeploymentType_SPM"

definition logs_proto_mobilesdk_ios_ICoreConfiguration_DeploymentType_ARRAYSIZE :: int where
  "logs_proto_mobilesdk_ios_ICoreConfiguration_DeploymentType_ARRAYSIZE = logs_proto_mobilesdk_ios_ICoreConfiguration_DeploymentType_code logs_proto_mobilesdk_ios_ICoreConfiguration_DeploymentType_MAX + 1"

section \<open>Structs of \<open>firebasecore.nanopb.h\<close>\<close>

definition logs_proto_mobilesdk_ios_ICoreConfiguration :: c_struct where
  "logs_proto_mobilesdk_ios_ICoreConfiguration =
     [(''has_configuration_type'', CInt 1),
      (''configuration_type'', CInt 4),
      (''sdk_service_installed_count'', CInt 4),
      (''sdk_service_installed'', CPtr 4),
      (''device_model'', CPtr (struct_sizeof pb_bytes_array_t)),
      (''app_id'', CPtr (struct_sizeof pb_bytes_array_t)),
      (''bundle_id'', CPtr (struct_sizeof pb_bytes_array_t)),
      (''has_pod_name'', CInt 1),
      (''pod_name'', CInt 4),
      (''icore_version'', CPtr (struct_sizeof pb_bytes_array_t)),
      (''sdk_version'', CPtr (struct_sizeof pb_bytes_array_t)),
      (''has_sdk_name'', CInt 1),
      (''sdk_name'', CInt 4),
      (''has_app_count'', CInt 1),
      (''app_count'', CInt 4),
      (''os_version'', CPtr (struct_sizeof pb_bytes_array_t)),
      (''min_supported_ios_version'', CPtr (struct_sizeof pb_bytes_array_t)),
      (''has_use_default_app'', CInt 1),
      (''use_default_app'', CInt 1),
      (''has_deployed_in_app_store'', CInt 1),
      (''deployed_in_app_store'', CInt 1),
      (''has_dynamic_framework_count'', CInt 1),
      (''dynamic_framework_count'', CInt 4),
      (''apple_framework_version'', CPtr (struct_sizeof pb_bytes_array_t)),
      (''has_using_zip_file'', CInt 1),
      (''using_zip_file'', CInt 1),
      (''has_deployment_type'', CInt 1),
      (''deployment_type'', CInt 4),
      (''platform_info'', CPtr (struct_sizeof pb_bytes_array_t)),
      (''has_swizzling_enabled'', CInt 1),
      (''swizzling_enabled'', CInt 1),
      (''has_using_gdt'', CInt 1),
      (''using_gdt'', CInt 1)]"

section \<open>Field arrays of \<open>firebasecore.nanopb.c\<close>\<close>

definition logs_proto_mobilesdk_ios_ICoreConfiguration_fields :: "pb_field list" where
  "logs_proto_mobilesdk_ios_ICoreConfiguration_fields =
     [PB_FIELD 1 UENUM OPTIONAL STATIC FIRST logs_proto_mobilesdk_ios_ICoreConfiguration ''configuration_type'' ''configuration_type'' PtrNull,
      PB_FIELD 7 UENUM REPEATED POINTER OTHER logs_proto_mobilesdk_ios_ICoreConfiguration ''sdk_service_installed'' ''configuration_type'' PtrNull,
      PB_FIELD 9 BYTES OPTIONAL POINTER OTHER logs_proto_mobilesdk_ios_ICoreConfiguration ''device_model'' ''sdk_service_installed'' PtrNull,
      PB_FIELD 10 BYTES OPTIONAL POINTER OTHER logs_proto_mobilesdk_ios_ICoreConfiguration ''app_id'' ''device_model'' PtrNull,
      PB_FIELD 12 BYTES OPTIONAL POINTER OTHER logs_proto_mobilesdk_ios_ICoreConfiguration ''bundle_id'' ''app_id'' PtrNull,
      PB_FIELD 16 UENUM OPTIONAL STATIC OTHER logs_proto_mobilesdk_ios_ICoreConfiguration ''pod_name'' ''bundle_id'' PtrNull,
      PB_FIELD 18 BYTES OPTIONAL POINTER OTHER logs_proto_mobilesdk_ios_ICoreConfiguration ''icore_version'' ''pod_name'' PtrNull,
      PB_FIELD 19 BYTES OPTIONAL POINTER OTHER logs_proto_mobilesdk_ios_ICoreConfiguration ''sdk_version'' ''icore_version'' PtrNull,
      PB_FIELD 20 UENUM OPTIONAL STATIC OTHER logs_proto_mobilesdk_ios_ICoreConfiguration ''sdk_name'' ''sdk_version'' PtrNull,
      PB_FIELD 21 INT32 OPTIONAL STATIC OTHER logs_proto_mobilesdk_ios_ICoreConfiguration ''app_count'' ''sdk_name'' PtrNull,
      PB_FIELD 22 BYTES OPTIONAL POINTER OTHER logs_proto_mobilesdk_ios_ICoreConfiguration ''os_version'' ''app_count'' PtrNull,
      PB_FIELD 24 BYTES OPTIONAL POINTER OTHER logs_proto_mobilesdk_ios_ICoreConfiguration ''min_supported_ios_version'' ''os_version'' PtrNull,
      PB_FIELD 25 BOOL OPTIONAL STATIC OTHER logs_proto_mobilesdk_ios_ICoreConfiguration ''use_default_app'' ''min_supported_ios_version'' PtrNull,
      PB_FIELD 26 BOOL OPTIONAL STATIC OTHER logs_proto_mobilesdk_ios_ICoreConfiguration ''deployed_in_app_store'' ''use_default_app'' PtrNull,
      PB_FIELD 27 INT32 OPTIONAL STATIC OTHER logs_proto_mobilesdk_ios_ICoreConfiguration ''dynamic_framework_count'' ''deployed_in_app_store'' PtrNull,
      PB_FIELD 28 BYTES OPTIONAL POINTER OTHER logs_proto_mobilesdk_ios_ICoreConfiguration ''apple_framework_version'' ''dynamic_framework_count'' PtrNull,
      PB_FIELD 29 BOOL OPTIONAL STATIC OTHER logs_proto_mobilesdk_ios_ICoreConfiguration ''using_zip_file'' ''apple_framework_version'' PtrNull,
      PB_FIELD 30 UENUM OPTIONAL STATIC OTHER logs_proto_mobilesdk_ios_ICoreConfiguration ''deployment_type'' ''using_zip_file'' PtrNull,
      PB_FIELD 31 BYTES OPTIONAL POINTER OTHER logs_proto_mobilesdk_ios_ICoreConfiguration ''platform_info'' ''deployment_type'' PtrNull,
      PB_FIELD 33 BOOL OPTIONAL STATIC OTHER logs_proto_mobilesdk_ios_ICoreConfiguration ''swizzling_enabled'' ''platform_info'' PtrNull,
      PB_FIELD 36 BOOL OPTIONAL STATIC OTHER logs_proto_mobilesdk_ios_ICoreConfiguration ''using_gdt'' ''swizzling_enabled'' PtrNull,
      PB_LAST_FIELD]"

lemmas macro_defs = PB_FIELD_def PB_OPTIONAL_STATIC_def PB_OPTIONAL_POINTER_def
  PB_REPEATED_POINTER_def PB_DATAOFFSET_FIRST_def PB_DATAOFFSET_OTHER_def pb_delta_def
  c_offsetof_def pb_membersize_def pb_membersize0_def Let_def

lemmas descriptor_defs = macro_defs c_member_def

lemma gdt_cct_IosClientInfo_layout:
  "struct_members gdt_cct_IosClientInfo =
     [(''os_major_version'', 0, CPtr 8),
      (''os_full_version'', 8, CPtr 8),
      (''application_build'', 16, CPtr 8),
      (''country'', 24, CPtr 8),
      (''model'', 32, CPtr 8),
      (''language_code'', 40, CPtr 8),
      (''application_bundle_id'', 48, CPtr 8)]"
  "struct_type gdt_cct_IosClientInfo = CStruct 56 8" "struct_sizeof gdt_cct_IosClientInfo = 56"
  by code_simp+

lemma gdt_cct_IosClientInfo_fields_eval:
  "gdt_cct_IosClientInfo_fields =
     [PbField 3 0x95 0 0 8 0 PtrNull,
      PbField 4 0x95 0 0 8 0 PtrNull,
      PbField 5 0x95 0 0 8 0 PtrNull,
      PbField 6 0x95 0 0 8 0 PtrNull,
      PbField 7 0x95 0 0 8 0 PtrNull,
      PbField 8 0x95 0 0 8 0 PtrNull,
      PbField 11 0x95 0 0 8 0 PtrNull,
      PB_LAST_FIELD]"
  by (simp add: gdt_cct_IosClientInfo_fields_def gdt_cct_IosClientInfo_layout(1) descriptor_defs)

lemma gdt_cct_ClientInfo_layout:
  "struct_members gdt_cct_ClientInfo =
     [(''has_client_type'', 0, CInt 1),
      (''client_type'', 4, CInt 4),
      (''has_ios_client_info'', 8, CInt 1),
      (''ios_client_info'', 16, CStruct 56 8)]"
  "struct_type gdt_cct_ClientInfo = CStruct 72 8" "struct_sizeof gdt_cct_ClientInfo = 72"
  by code_simp+

lemma gdt_cct_ClientInfo_fields_eval:
  "gdt_cct_ClientInfo_fields =
     [PbField 1 0x11 4 (- 4) 4 0 PtrNull,
      PbField 4 0x17 8 (- 8) 56 0 (PtrFields gdt_cct_IosClientInfo_fields),
      PB_LAST_FIELD]"
  by (simp add: gdt_cct_ClientInfo_fields_def gdt_cct_ClientInfo_layout(1) descriptor_defs)

lemma gdt_cct_NetworkConnectionInfo_layout:
  "struct_members gdt_cct_NetworkConnectionInfo =
     [(''has_network_type'', 0, CInt 1),
      (''network_type'', 4, CInt 4),
      (''has_mobile_subtype'', 8, CInt 1),
      (''mobile_subtype'', 12, CInt 4)]"
  "struct_type gdt_cct_NetworkConnectionInfo = CStruct 16 4" "struct_sizeof gdt_cct_NetworkConnectionInfo = 16"
  by code_simp+

lemma gdt_cct_NetworkConnectionInfo_fields_eval:
  "gdt_cct_NetworkConnectionInfo_fields =
     [PbField 1 0x10 4 (- 4) 4 0 (PtrDefault (to_bytes 4 gdt_cct_NetworkConnectionInfo_network_type_default)),
      PbField 2 0x11 4 (- 4) 4 0 (PtrDefault (to_bytes 4 gdt_cct_NetworkConnectionInfo_mobile_subtype_default)),
      PB_LAST_FIELD]"
  by (simp add: gdt_cct_NetworkConnectionInfo_fields_def gdt_cct_NetworkConnectionInfo_layout(1) descriptor_defs)

lemma gdt_cct_LogEvent_layout:
  "struct_members gdt_cct_LogEvent =
     [(''has_event_time_ms'', 0, CInt 1),
      (''event_time_ms'', 8, CInt 8),
      (''source_extension'', 16, CPtr 8),
      (''has_event_code'', 24, CInt 1),
      (''event_code'', 28, CInt 4),
      (''has_timezone_offset_seconds'', 32, CInt 1),
      (''timezone_offset_seconds'', 40, CInt 8),
      (''has_event_uptime_ms'', 48, CInt 1),
      (''event_uptime_ms'', 56, CInt 8),
      (''has_network_connection_info'', 64, CInt 1),
      (''network_connection_info'', 68, CStruct 16 4)]"
  "struct_type gdt_cct_LogEvent = CStruct 88 8" "struct_sizeof gdt_cct_LogEvent = 88"
  by code_simp+

lemma gdt_cct_LogEvent_fields_eval:
  "gdt_cct_LogEvent_fields =
     [PbField 1 0x10 8 (- 8) 8 0 PtrNull,
      PbField 6 0x95 0 0 8 0 PtrNull,
      PbField 11 0x10 4 (- 4) 4 0 PtrNull,
      PbField 15 0x12 8 (- 8) 8 0 PtrNull,
      PbField 17 0x10 8 (- 8) 8 0 PtrNull,
      PbField 23 0x17 4 (- 4) 16 0 (PtrFields gdt_cct_NetworkConnectionInfo_fields),
      PB_LAST_FIELD]"
  by (simp add: gdt_cct_LogEvent_fields_def gdt_cct_LogEvent_layout(1) descriptor_defs)

lemma gdt_cct_LogRequest_layout:
  "struct_members gdt_cct_LogRequest =
     [(''has_client_info'', 0, CInt 1),
      (''client_info'', 8, CStruct 72 8),
      (''has_log_source'', 80, CInt 1),
      (''log_source'', 84, CInt 4),
      (''log_event_count'', 88, CInt 4),
      (''log_event'', 96, CPtr 88),
      (''has_request_time_ms'', 104, CInt 1),
      (''request_time_ms'', 112, CInt 8),
      (''has_request_uptime_ms'', 120, CInt 1),
      (''request_uptime_ms'', 128, CInt 8),
      (''has_qos_tier'', 136, CInt 1),
      (''qos_tier'', 140, CInt 4)]"
  "struct_type gdt_cct_LogRequest = CStruct 144 8" "struct_sizeof gdt_cct_LogRequest = 144"
  by code_simp+

lemma gdt_cct_LogRequest_fields_eval:
  "gdt_cct_LogRequest_fields =
     [PbField 1 0x17 8 (- 8) 72 0 (PtrFields gdt_cct_ClientInfo_fields),
      PbField 2 0x10 4 (- 4) 4 0 PtrNull,
      PbField 3 0xA7 8 (- 8) 88 0 (PtrFields gdt_cct_LogEvent_fields),
      PbField 4 0x10 8 (- 8) 8 0 PtrNull,
      PbField 8 0x10 8 (- 8) 8 0 PtrNull,
      PbField 9 0x11 4 (- 4) 4 0 (PtrDefault (to_bytes 4 gdt_cct_LogRequest_qos_tier_default)),
      PB_LAST_FIELD]"
  by (simp add: gdt_cct_LogRequest_fields_def gdt_cct_LogRequest_layout(1) descriptor_defs)

lemma gdt_cct_BatchedLogRequest_layout:
  "struct_members gdt_cct_BatchedLogRequest =
     [(''log_request_count'', 0, CInt 4),
      (''log_request'', 8, CPtr 144)]"
  "struct_type gdt_cct_BatchedLogRequest = CStruct 16 8" "struct_sizeof gdt_cct_BatchedLogRequest = 16"
  by code_simp+

lemma gdt_cct_BatchedLogRequest_fields_eval:
  "gdt_cct_BatchedLogRequest_fields =
     [PbField 1 0xA7 8 (- 8) 144 0 (PtrFields gdt_cct_LogRequest_fields),
      PB_LAST_FIELD]"
  by (simp add: gdt_cct_BatchedLogRequest_fields_def gdt_cct_BatchedLogRequest_layout(1) descriptor_defs)

lemma gdt_cct_QosTierConfiguration_layout:
  "struct_members gdt_cct_QosTierConfiguration =
     [(''has_qos_tier'', 0, CInt 1),
      (''qos_tier'', 4, CInt 4),
      (''has_log_source'', 8, CInt 1),
      (''log_source'', 12, CInt 4)]"
  "struct_type gdt_cct_QosTierConfiguration = CStruct 16 4" "struct_sizeof gdt_cct_QosTierConfiguration = 16"
  by code_simp+

lemma gdt_cct_QosTierConfiguration_fields_eval:
  "gdt_cct_QosTierConfiguration_fields =
     [PbField 2 0x11 4 (- 4) 4 0 PtrNull,
      PbField 3 0x10 4 (- 4) 4 0 (PtrDefault (to_bytes 4 gdt_cct_QosTierConfiguration_log_source_default)),
      PB_LAST_FIELD]"
  by (simp add: gdt_cct_QosTierConfiguration_fields_def gdt_cct_QosTierConfiguration_layout(1) descriptor_defs)

lemma gdt_cct_QosTiersOverride_layout:
  "struct_members gdt_cct_QosTiersOverride =
     [(''qos_tier_configuration_count'', 0, CInt 4),
      (''qos_tier_configuration'', 8, CPtr 16),
      (''has_qos_tier_fingerprint'', 16, CInt 1),
      (''qos_tier_fingerprint'', 24, CInt 8)]"
  "struct_type gdt_cct_QosTiersOverride = CStruct 32 8" "struct_sizeof gdt_cct_QosTiersOverride = 32"
  by code_simp+

lemma gdt_cct_QosTiersOverride_fields_eval:
  "gdt_cct_QosTiersOverride_fields =
     [PbField 1 0xA7 8 (- 8) 16 0 (PtrFields gdt_cct_QosTierConfiguration_fields),
      PbField 2 0x10 8 (- 8) 8 0 PtrNull,
      PB_LAST_FIELD]"
  by (simp add: gdt_cct_QosTiersOverride_fields_def gdt_cct_QosTiersOverride_layout(1) descriptor_defs)

lemma gdt_cct_LogResponse_layout:
  "struct_members gdt_cct_LogResponse =
     [(''has_next_request_wait_millis'', 0, CInt 1),
      (''next_request_wait_millis'', 8, CInt 8),
      (''has_qos_tier'', 16, CInt 1),
      (''qos_tier'', 24, CStruct 32 8)]"
  "struct_type gdt_cct_LogResponse = CStruct 56 8" "struct_sizeof gdt_cct_LogResponse = 56"
  by code_simp+

lemma gdt_cct_LogResponse_fields_eval:
  "gdt_cct_LogResponse_fields =
     [PbField 1 0x10 8 (- 8) 8 0 PtrNull,
      PbField 3 0x17 8 (- 8) 32 0 (PtrFields gdt_cct_QosTiersOverride_fields),
      PB_LAST_FIELD]"
  by (simp add: gdt_cct_LogResponse_fields_def gdt_cct_LogResponse_layout(1) descriptor_defs)

lemma logs_proto_mobilesdk_ios_ICoreConfiguration_layout:
  "struct_members logs_proto_mobilesdk_ios_ICoreConfiguration =
     [(''has_configuration_type'', 0, CInt 1),
      (''configuration_type'', 4, CInt 4),
      (''sdk_service_installed_count'', 8, CInt 4),
      (''sdk_service_installed'', 16, CPtr 4),
      (''device_model'', 24, CPtr 8),
      (''app_id'', 32, CPtr 8),
      (''bundle_id'', 40, CPtr 8),
      (''has_pod_name'', 48, CInt 1),
      (''pod_name'', 52, CInt 4),
      (''icore_version'', 56, CPtr 8),
      (''sdk_version'', 64, CPtr 8),
      (''has_sdk_name'', 72, CInt 1),
      (''sdk_name'', 76, CInt 4),
      (''has_app_count'', 80, CInt 1),
      (''app_count'', 84, CInt 4),
      (''os_version'', 88, CPtr 8),
      (''min_supported_ios_version'', 96, CPtr 8),
      (''has_use_default_app'', 104, CInt 1),
      (''use_default_app'', 105, CInt 1),
      (''has_deployed_in_app_store'', 106, CInt 1),
      (''deployed_in_app_store'', 107, CInt 1),
      (''has_dynamic_framework_count'', 108, CInt 1),
      (''dynamic_framework_count'', 112, CInt 4),
      (''apple_framework_version'', 120, CPtr 8),
      (''has_using_zip_file'', 128, CInt 1),
      (''using_zip_file'', 129, CInt 1),
      (''has_deployment_type'', 130, CInt 1),
      (''deployment_type'', 132, CInt 4),
      (''platform_info'', 136, CPtr 8),
      (''has_swizzling_enabled'', 144, CInt 1),
      (''swizzling_enabled'', 145, CInt 1),
      (''has_using_gdt'', 146, CInt 1),
      (''using_gdt'', 147, CInt 1)]"
  "struct_type logs_proto_mobilesdk_ios_ICoreConfiguration = CStruct 152 8" "struct_sizeof logs_proto_mobilesdk_ios_ICoreConfiguration = 152"
  by code_simp+

lemma logs_proto_mobilesdk_ios_ICoreConfiguration_member:
  "c_member (struct_members logs_proto_mobilesdk_ios_ICoreConfiguration) ''has_configuration_type'' = (0, CInt 1)"
  "c_member (struct_members logs_proto_mobilesdk_ios_ICoreConfiguration) ''configuration_type'' = (4, CInt 4)"
  "c_member (struct_members logs_proto_mobilesdk_ios_ICoreConfiguration) ''sdk_service_installed_count'' = (8, CInt 4)"
  "c_member (struct_members logs_proto_mobilesdk_ios_ICoreConfiguration) ''sdk_service_installed'' = (16, CPtr 4)"
  "c_member (struct_members logs_proto_mobilesdk_ios_ICoreConfiguration) ''device_model'' = (24, CPtr 8)"
  "c_member (struct_members logs_proto_mobilesdk_ios_ICoreConfiguration) ''app_id'' = (32, CPtr 8)"
  "c_member (struct_members logs_proto_mobilesdk_ios_ICoreConfiguration) ''bundle_id'' = (40, CPtr 8)"
  "c_member (struct_members logs_proto_mobilesdk_ios_ICoreConfiguration) ''has_pod_name'' = (48, CInt 1)"
  "c_member (struct_members logs_proto_mobilesdk_ios_ICoreConfiguration) ''pod_name'' = (52, CInt 4)"
  "c_member (struct_members logs_proto_mobilesdk_ios_ICoreConfiguration) ''icore_version'' = (56, CPtr 8)"
  "c_member (struct_members logs_proto_mobilesdk_ios_ICoreConfiguration) ''sdk_version'' = (64, CPtr 8)"
  "c_member (struct_members logs_proto_mobilesdk_ios_ICoreConfiguration) ''has_sdk_name'' = (72, CInt 1)"
  "c_member (struct_members logs_proto_mobilesdk_ios_ICoreConfiguration) ''sdk_name'' = (76, CInt 4)"
  "c_member (struct_members logs_proto_mobilesdk_ios_ICoreConfiguration) ''has_app_count'' = (80, CInt 1)"
  "c_member (struct_members logs_proto_mobilesdk_ios_ICoreConfiguration) ''app_count'' = (84, CInt 4)"
  "c_member (struct_members logs_proto_mobilesdk_ios_ICoreConfiguration) ''os_version'' = (88, CPtr 8)"
  "c_member (struct_members logs_proto_mobilesdk_ios_ICoreConfiguration) ''min_supported_ios_version'' = (96, CPtr 8)"
  "c_member (struct_members logs_proto_mobilesdk_ios_ICoreConfiguration) ''has_use_default_app'' = (104, CInt 1)"
  "c_member (struct_members logs_proto_mobilesdk_ios_ICoreConfiguration) ''use_default_app'' = (105, CInt 1)"
  "c_member (struct_members logs_proto_mobilesdk_ios_ICoreConfiguration) ''has_deployed_in_app_store'' = (106, CInt 1)"
  "c_member (struct_members logs_proto_mobilesdk_ios_ICoreConfiguration) ''deployed_in_app_store'' = (107, CInt 1)"
  "c_member (struct_members logs_proto_mobilesdk_ios_ICoreConfiguration) ''has_dynamic_framework_count'' = (108, CInt 1)"
  "c_member (struct_members logs_proto_mobilesdk_ios_ICoreConfiguration) ''dynamic_framework_count'' = (112, CInt 4)"
  "c_member (struct_members logs_proto_mobilesdk_ios_ICoreConfiguration) ''apple_framework_version'' = (120, CPtr 8)"
  "c_member (struct_members logs_proto_mobilesdk_ios_ICoreConfiguration) ''has_using_zip_file'' = (128, CInt 1)"
  "c_member (struct_members logs_proto_mobilesdk_ios_ICoreConfiguration) ''using_zip_file'' = (129, CInt 1)"
  "c_member (struct_members logs_proto_mobilesdk_ios_ICoreConfiguration) ''has_deployment_type'' = (130, CInt 1)"
  "c_member (struct_members logs_proto_mobilesdk_ios_ICoreConfiguration) ''deployment_type'' = (132, CInt 4)"
  "c_member (struct_members logs_proto_mobilesdk_ios_ICoreConfiguration) ''platform_info'' = (136, CPtr 8)"
  "c_member (struct_members logs_proto_mobilesdk_ios_ICoreConfiguration) ''has_swizzling_enabled'' = (144, CInt 1)"
  "c_member (struct_members logs_proto_mobilesdk_ios_ICoreConfiguration) ''swizzling_enabled'' = (145, CInt 1)"
  "c_member (struct_members logs_proto_mobilesdk_ios_ICoreConfiguration) ''has_using_gdt'' = (146, CInt 1)"
  "c_member (struct_members logs_proto_mobilesdk_ios_ICoreConfiguration) ''using_gdt'' = (147, CInt 1)"
  unfolding c_member_def logs_proto_mobilesdk_ios_ICoreConfiguration_layout(1) by simp_all

lemma logs_proto_mobilesdk_ios_ICoreConfiguration_fields_eval:
  "logs_proto_mobilesdk_ios_ICoreConfiguration_fields =
     [PbField 1 0x11 4 (- 4) 4 0 PtrNull,
      PbField 7 0xA1 8 (- 8) 4 0 PtrNull,
      PbField 9 0x95 0 0 8 0 PtrNull,
      PbField 10 0x95 0 0 8 0 PtrNull,
      PbField 12 0x95 0 0 8 0 PtrNull,
      PbField 16 0x11 4 (- 4) 4 0 PtrNull,
      PbField 18 0x95 0 0 8 0 PtrNull,
      PbField 19 0x95 0 0 8 0 PtrNull,
      PbField 20 0x11 4 (- 4) 4 0 PtrNull,
      PbField 21 0x10 4 (- 4) 4 0 PtrNull,
      PbField 22 0x95 0 0 8 0 PtrNull,
      PbField 24 0x95 0 0 8 0 PtrNull,
      PbField 25 0x10 1 (- 1) 1 0 PtrNull,
      PbField 26 0x10 1 (- 1) 1 0 PtrNull,
      PbField 27 0x10 4 (- 4) 4 0 PtrNull,
      PbField 28 0x95 4 0 8 0 PtrNull,
      PbField 29 0x10 1 (- 1) 1 0 PtrNull,
      PbField 30 0x11 2 (- 2) 4 0 PtrNull,
      PbField 31 0x95 0 0 8 0 PtrNull,
      PbField 33 0x10 1 (- 1) 1 0 PtrNull,
      PbField 36 0x10 1 (- 1) 1 0 PtrNull,
      PB_LAST_FIELD]"
  by (simp add: logs_proto_mobilesdk_ios_ICoreConfiguration_fields_def logs_proto_mobilesdk_ios_ICoreConfiguration_member macro_defs)

end
