(* ===== verification/Pb_Encode.thy ===== *)
theory Pb_Encode
  imports Pb_Wire Pb_Common
begin

text \<open>
  The message encoder: the ``Encode a single field'', ``Encode all fields'' and ``Field
  encoders'' parts of \<open>pb_encode.c\<close>.

  The message is read from a memory, which encoding does not change. The C functions are
  mutually recursive through \<open>pb_encode\<close>; here each takes the recursive call as an
  argument \<open>enc\<close>, and \<open>pb_encode\<close> ties the knot with a bound \<open>n\<close> on the
  nesting depth of messages and on the length of extension lists. A result \<open>None\<close> means that
  the bound was reached or that C gives the call no meaning (a null function pointer, a
  null field array, the first bytes of a \<open>bool\<close> read as an integer).

  Code that the library only calls, the user's callbacks, is a parameter: \<open>enc_env\<close> maps
  function pointers to encoders, and the address of a constant field description to that
  description.
\<close>

section \<open>The environment\<close>

record 's enc_env =
  ee_callback :: "addr \<Rightarrow> mem \<Rightarrow> pb_field \<Rightarrow> addr \<Rightarrow> 's encoder"
  ee_ext_encode :: "addr \<Rightarrow> mem \<Rightarrow> addr \<Rightarrow> 's encoder"
  ee_field :: "addr \<Rightarrow> pb_field"

type_synonym 's oencoder = "'s pb_ostream \<Rightarrow> (bool \<times> 's pb_ostream) option"

type_synonym 's pb_encode_fn = "'s pb_ostream \<Rightarrow> pb_field list \<Rightarrow> addr \<Rightarrow> (bool \<times> 's pb_ostream) option"

type_synonym 's pb_encoder_t = "'s pb_ostream \<Rightarrow> pb_field \<Rightarrow> addr \<Rightarrow> (bool \<times> 's pb_ostream) option"

section \<open>Submessages\<close>

definition pb_encode_submessage :: "'s pb_encode_fn \<Rightarrow> 's pb_encode_fn" where
  "pb_encode_submessage enc os flds src_struct =
     (case enc (PB_OSTREAM_SIZING (os_state os)) flds src_struct of
        None \<Rightarrow> None
      | Some (ok, substream) \<Rightarrow>
          if \<not> ok then Some (False, os\<lparr>os_errmsg := os_errmsg substream\<rparr>)
          else
            (let sz = os_bytes_written substream
             in seq_call (Some (pb_encode_varint os sz)) (\<lambda>os.
                  case os_callback os of
                    None \<Rightarrow> Some (pb_write os [] sz)
                  | Some cb \<Rightarrow>
                      if os_bytes_written os + sz > os_max_size os
                      then Some (os_error os ''stream full'')
                      else
                        (case enc \<lparr>os_callback = Some cb, os_state = os_state os, os_max_size = sz,
                                   os_bytes_written = 0, os_errmsg = None\<rparr> flds src_struct of
                           None \<Rightarrow> None
                         | Some (status, substream) \<Rightarrow>
                             (let os = os\<lparr>os_bytes_written :=
                                            os_bytes_written os + os_bytes_written substream,
                                          os_state := os_state substream,
                                          os_errmsg := os_errmsg substream\<rparr>
                              in if os_bytes_written substream \<noteq> sz
                                 then Some (os_error os ''submsg size changed'')
                                 else Some (status, os))))))"

section \<open>Field encoders\<close>

definition pb_enc_varint :: "mem \<Rightarrow> 's pb_encoder_t" where
  "pb_enc_varint m os field src =
     (if f_data_size field = 1 then Some (pb_encode_varint os (scast (load8 m src)))
      else if f_data_size field = 2 then Some (pb_encode_varint os (scast (load16 m src)))
      else if f_data_size field = 4 then Some (pb_encode_varint os (scast (load32 m src)))
      else if f_data_size field = 8 then Some (pb_encode_varint os (load64 m src))
      else Some (os_error os ''invalid data_size''))"

definition pb_enc_uvarint :: "mem \<Rightarrow> 's pb_encoder_t" where
  "pb_enc_uvarint m os field src =
     (if f_data_size field = 1 then Some (pb_encode_varint os (ucast (load8 m src)))
      else if f_data_size field = 2 then Some (pb_encode_varint os (ucast (load16 m src)))
      else if f_data_size field = 4 then Some (pb_encode_varint os (ucast (load32 m src)))
      else if f_data_size field = 8 then Some (pb_encode_varint os (load64 m src))
      else Some (os_error os ''invalid data_size''))"

definition pb_enc_svarint :: "mem \<Rightarrow> 's pb_encoder_t" where
  "pb_enc_svarint m os field src =
     (if f_data_size field = 1 then Some (pb_encode_svarint os (scast (load8 m src)))
      else if f_data_size field = 2 then Some (pb_encode_svarint os (scast (load16 m src)))
      else if f_data_size field = 4 then Some (pb_encode_svarint os (scast (load32 m src)))
      else if f_data_size field = 8 then Some (pb_encode_svarint os (load64 m src))
      else Some (os_error os ''invalid data_size''))"

definition pb_enc_fixed32 :: "mem \<Rightarrow> 's pb_encoder_t" where
  "pb_enc_fixed32 m os field src = Some (pb_encode_fixed32 m os src)"

definition pb_enc_fixed64 :: "mem \<Rightarrow> 's pb_encoder_t" where
  "pb_enc_fixed64 m os field src = Some (pb_encode_fixed64 m os src)"

text \<open>\<open>pb_bytes_array_t\<close>: a 32-bit size, then the bytes.\<close>

definition PB_BYTES_ARRAY_T_ALLOCSIZE :: "size_t \<Rightarrow> size_t" where
  "PB_BYTES_ARRAY_T_ALLOCSIZE n = n + 4"

definition pb_enc_bytes :: "mem \<Rightarrow> 's pb_encoder_t" where
  "pb_enc_bytes m os field src =
     (if src = 0 then Some (pb_encode_string os [] 0)
      else
        (let sz = ucast (load32 m src) :: size_t
         in if PB_ATYPE (f_type field) = PB_ATYPE_STATIC \<and>
               PB_BYTES_ARRAY_T_ALLOCSIZE sz > ucast (f_data_size field)
            then Some (os_error os ''bytes size exceeded'')
            else Some (pb_encode_string os (load_bytes m (src + 4) (unat sz)) sz)))"

text \<open>The \<open>strnlen\<close> loop of \<open>pb_enc_string\<close>.\<close>

function pb_strnlen :: "mem \<Rightarrow> size_t \<Rightarrow> size_t \<Rightarrow> addr \<Rightarrow> size_t" where
  "pb_strnlen m max_size sz p =
     (if sz < max_size \<and> m p \<noteq> 0 then pb_strnlen m max_size (sz + 1) (p + 1) else sz)"
  by pat_completeness auto
termination
proof (relation "measure (\<lambda>(_, mx, sz, _). unat mx - unat sz)")
  fix m :: mem and max_size sz :: size_t and p :: addr
  assume "sz < max_size \<and> m p \<noteq> 0"
  then have "unat sz < unat max_size" by (simp add: word_less_nat_alt)
  moreover from this unat_less_64 [of max_size] have "unat (sz + 1) = Suc (unat sz)"
    by (subst unat_add_no_wrap) simp_all
  ultimately show "((m, max_size, sz + 1, p + 1), (m, max_size, sz, p))
      \<in> measure (\<lambda>(_, mx, sz, _). unat mx - unat sz)" by simp
qed simp

declare pb_strnlen.simps [simp del]

definition pb_enc_string :: "mem \<Rightarrow> 's pb_encoder_t" where
  "pb_enc_string m os field src =
     (let max_size = (if PB_ATYPE (f_type field) = PB_ATYPE_POINTER then - 1
                      else ucast (f_data_size field));
          sz = (if src = 0 then 0 else pb_strnlen m max_size 0 src)
      in Some (pb_encode_string os (load_bytes m src (unat sz)) sz))"

definition pb_enc_submessage :: "'s pb_encode_fn \<Rightarrow> 's pb_encoder_t" where
  "pb_enc_submessage enc os field src =
     (case f_ptr field of
        PtrNull \<Rightarrow> Some (os_error os ''invalid field descriptor'')
      | PtrFields flds \<Rightarrow> pb_encode_submessage enc os flds src
      | PtrDefault _ \<Rightarrow> None)"

definition pb_enc_fixed_length_bytes :: "mem \<Rightarrow> 's pb_encoder_t" where
  "pb_enc_fixed_length_bytes m os field src =
     Some (pb_encode_string os (load_bytes m src (unat (f_data_size field)))
             (ucast (f_data_size field)))"

text \<open>The table of field encoders, indexed by \<open>PB_LTYPE\<close>. There is no entry for extensions,
  and none past the last type.\<close>

definition PB_ENCODERS :: "'s pb_encode_fn \<Rightarrow> mem \<Rightarrow> pb_type_t \<Rightarrow> 's pb_encoder_t" where
  "PB_ENCODERS enc m ltype =
     (if ltype = PB_LTYPE_VARINT then pb_enc_varint m
      else if ltype = PB_LTYPE_UVARINT then pb_enc_uvarint m
      else if ltype = PB_LTYPE_SVARINT then pb_enc_svarint m
      else if ltype = PB_LTYPE_FIXED32 then pb_enc_fixed32 m
      else if ltype = PB_LTYPE_FIXED64 then pb_enc_fixed64 m
      else if ltype = PB_LTYPE_BYTES then pb_enc_bytes m
      else if ltype = PB_LTYPE_STRING then pb_enc_string m
      else if ltype = PB_LTYPE_SUBMESSAGE then pb_enc_submessage enc
      else if ltype = PB_LTYPE_FIXED_LENGTH_BYTES then pb_enc_fixed_length_bytes m
      else (\<lambda>os field src. None))"

section \<open>Encoding one field\<close>

text \<open>The loop over \<open>count\<close> array entries, \<open>data_size\<close> bytes apart.\<close>

primrec encode_entries :: "nat \<Rightarrow> (addr \<Rightarrow> 's oencoder) \<Rightarrow> pb_size_t \<Rightarrow> addr \<Rightarrow> 's oencoder" where
  "encode_entries 0 f data_size p os = Some (True, os)"
| "encode_entries (Suc k) f data_size p os =
     seq_call (f p os) (encode_entries k f data_size (p + ucast data_size))"

definition encode_array ::
  "mem \<Rightarrow> 's pb_ostream \<Rightarrow> pb_field \<Rightarrow> addr \<Rightarrow> size_t \<Rightarrow> 's pb_encoder_t \<Rightarrow>
     (bool \<times> 's pb_ostream) option" where
  "encode_array m os field pData count func =
     (let ltype = PB_LTYPE (f_type field);
          atype = PB_ATYPE (f_type field);
          entries = encode_entries (unat count)
      in if count = 0 then Some (True, os)
         else if atype \<noteq> PB_ATYPE_POINTER \<and> count > ucast (f_array_size field)
         then Some (os_error os ''array max size exceeded'')
         else if ltype \<le> PB_LTYPE_LAST_PACKABLE
         then
           seq_call (Some (pb_encode_tag os PB_WT_STRING (f_tag field))) (\<lambda>os.
             let sizestream =
                   (if ltype = PB_LTYPE_FIXED32 then Some (True, 4 * count)
                    else if ltype = PB_LTYPE_FIXED64 then Some (True, 8 * count)
                    else map_option (\<lambda>(ok, sizestream). (ok, os_bytes_written sizestream))
                           (entries (\<lambda>p os. func os field p) (f_data_size field) pData
                              (PB_OSTREAM_SIZING (os_state os))))
             in case sizestream of
                  None \<Rightarrow> None
                | Some (False, _) \<Rightarrow> Some (False, os)
                | Some (True, sz) \<Rightarrow>
                    seq_call (Some (pb_encode_varint os sz)) (\<lambda>os.
                      case os_callback os of
                        None \<Rightarrow> Some (pb_write os [] sz)
                      | Some cb \<Rightarrow>
                          entries (\<lambda>p os. func os field p) (f_data_size field) pData os))
         else
           entries (\<lambda>p os. seq_call (Some (pb_encode_tag_for_field os field)) (\<lambda>os.
               if atype = PB_ATYPE_POINTER \<and> (ltype = PB_LTYPE_STRING \<or> ltype = PB_LTYPE_BYTES)
               then func os field (load64 m p)
               else func os field p))
             (f_data_size field) pData os)"

text \<open>The bound limits the nesting depth of the message type.\<close>

primrec pb_check_proto3_default_value :: "nat \<Rightarrow> mem \<Rightarrow> pb_field \<Rightarrow> addr \<Rightarrow> bool option" where
  "pb_check_proto3_default_value 0 m field pData = None"
| "pb_check_proto3_default_value (Suc n) m field pData =
     (let type = f_type field;
          pSize = pData + scast (f_size_offset field)
      in if PB_HTYPE type = PB_HTYPE_REQUIRED then Some False
         else if PB_HTYPE type = PB_HTYPE_REPEATED then Some (load32 m pSize = 0)
         else if PB_HTYPE type = PB_HTYPE_ONEOF then Some (load32 m pSize = 0)
         else if PB_HTYPE type = PB_HTYPE_OPTIONAL \<and> f_size_offset field \<noteq> 0
         then Some (\<not> load_bool m pSize)
         else if PB_ATYPE type = PB_ATYPE_STATIC \<and> PB_LTYPE type = PB_LTYPE_BYTES
         then Some (load32 m pData = 0)
         else if PB_ATYPE type = PB_ATYPE_STATIC \<and> PB_LTYPE type = PB_LTYPE_STRING
         then Some (m pData = 0)
         else if PB_ATYPE type = PB_ATYPE_STATIC \<and> PB_LTYPE type = PB_LTYPE_FIXED_LENGTH_BYTES
         then Some (f_data_size field = 0)
         else if PB_ATYPE type = PB_ATYPE_STATIC \<and> PB_LTYPE type = PB_LTYPE_SUBMESSAGE
         then
           (case f_ptr field of
              PtrFields flds \<Rightarrow>
                (case pb_field_iter_begin flds pData of
                   (ok, it) \<Rightarrow>
                     if ok
                     then map_option fst (for_fields
                            (\<lambda>it s. map_option (\<lambda>b. (b, s))
                               (pb_check_proto3_default_value n m (it_field it) (it_pData it)))
                            it ())
                     else Some True)
            | _ \<Rightarrow> None)
         else Some (list_all (\<lambda>b. b = 0) (load_bytes m pData (unat (f_data_size field)))))"

text \<open>\<open>pSize\<close> is the address of the count or has-flag, or \<open>None\<close> when it points to the
  local \<open>implicit_has\<close>. That local is not read when \<open>size_offset\<close> is set.\<close>

definition encode_basic_field ::
  "'s pb_encode_fn \<Rightarrow> (pb_field \<Rightarrow> addr \<Rightarrow> bool option) \<Rightarrow> mem \<Rightarrow> 's pb_encoder_t" where
  "encode_basic_field enc chk m os field pData =
     (let func = PB_ENCODERS enc m (PB_LTYPE (f_type field));
          htype = PB_HTYPE (f_type field);
          pSize = (if f_size_offset field \<noteq> 0
                   then Some (pData + scast (f_size_offset field)) else None)
      in case (if f_size_offset field \<noteq> 0 then Some True
               else if htype = PB_HTYPE_OPTIONAL then map_option Not (chk field pData)
               else Some True) of
           None \<Rightarrow> None
         | Some implicit_has \<Rightarrow>
             (let pointer = (PB_ATYPE (f_type field) = PB_ATYPE_POINTER);
                  pData = (if pointer then load64 m pData else pData);
                  implicit_has = (if pointer then pData \<noteq> 0 else implicit_has);
                  tagged = (\<lambda>os. seq_call (Some (pb_encode_tag_for_field os field))
                                   (\<lambda>os. func os field pData))
              in if htype = PB_HTYPE_REQUIRED
                 then if pData = 0 then Some (os_error os ''missing required field'')
                      else tagged os
                 else if htype = PB_HTYPE_OPTIONAL
                 then if (case pSize of None \<Rightarrow> implicit_has | Some p \<Rightarrow> load_bool m p)
                      then tagged os else Some (True, os)
                 else if htype = PB_HTYPE_REPEATED
                 then encode_array m os field pData
                        (case pSize of None \<Rightarrow> ucast (f_array_size field)
                                     | Some p \<Rightarrow> ucast (load32 m p)) func
                 else
                   (case pSize of
                      None \<Rightarrow> None
                    | Some p \<Rightarrow>
                        if load32 m p = f_tag field then tagged os else Some (True, os))))"

definition encode_callback_field :: "'s enc_env \<Rightarrow> mem \<Rightarrow> 's pb_encoder_t" where
  "encode_callback_field env m os field pData =
     (let encode = load64 m pData;
          arg = pData + 8
      in if encode \<noteq> 0
         then (case ee_callback env encode m field arg os of
                 (ok, os) \<Rightarrow> if \<not> ok then Some (os_error os ''callback error'') else Some (True, os))
         else Some (True, os))"

definition encode_field ::
  "'s enc_env \<Rightarrow> 's pb_encode_fn \<Rightarrow> (pb_field \<Rightarrow> addr \<Rightarrow> bool option) \<Rightarrow> mem \<Rightarrow> 's pb_encoder_t" where
  "encode_field env enc chk m os field pData =
     (let atype = PB_ATYPE (f_type field)
      in if atype = PB_ATYPE_STATIC \<or> atype = PB_ATYPE_POINTER
         then encode_basic_field enc chk m os field pData
         else if atype = PB_ATYPE_CALLBACK then encode_callback_field env m os field pData
         else Some (os_error os ''invalid field type''))"

section \<open>Extensions\<close>

definition default_extension_encoder ::
  "'s enc_env \<Rightarrow> 's pb_encode_fn \<Rightarrow> (pb_field \<Rightarrow> addr \<Rightarrow> bool option) \<Rightarrow> mem \<Rightarrow>
     's pb_ostream \<Rightarrow> addr \<Rightarrow> (bool \<times> 's pb_ostream) option" where
  "default_extension_encoder env enc chk m os extension =
     (let field = ee_field env (ext_type_arg m (ext_type m extension))
      in if PB_ATYPE (f_type field) = PB_ATYPE_POINTER
         then encode_field env enc chk m os field (extension + 8)
         else encode_field env enc chk m os field (ext_dest m extension))"

primrec encode_extensions ::
  "nat \<Rightarrow> 's enc_env \<Rightarrow> 's pb_encode_fn \<Rightarrow> (pb_field \<Rightarrow> addr \<Rightarrow> bool option) \<Rightarrow> mem \<Rightarrow>
     addr \<Rightarrow> 's oencoder" where
  "encode_extensions 0 env enc chk m extension os = None"
| "encode_extensions (Suc k) env enc chk m extension os =
     (if extension = 0 then Some (True, os)
      else
        (let encode = ext_type_encode m (ext_type m extension)
         in seq_call
              (if encode \<noteq> 0 then Some (ee_ext_encode env encode m extension os)
               else default_extension_encoder env enc chk m os extension)
              (encode_extensions k env enc chk m (ext_next m extension))))"

definition encode_extension_field ::
  "nat \<Rightarrow> 's enc_env \<Rightarrow> 's pb_encode_fn \<Rightarrow> (pb_field \<Rightarrow> addr \<Rightarrow> bool option) \<Rightarrow> mem \<Rightarrow>
     's pb_encoder_t" where
  "encode_extension_field k env enc chk m os field pData =
     encode_extensions k env enc chk m (load64 m pData) os"

section \<open>Encoding a message\<close>

primrec pb_encode :: "nat \<Rightarrow> 's enc_env \<Rightarrow> mem \<Rightarrow> 's pb_encode_fn" where
  "pb_encode 0 env m os flds src_struct = None"
| "pb_encode (Suc n) env m os flds src_struct =
     (case pb_field_iter_begin flds src_struct of
        (ok, it) \<Rightarrow>
          if \<not> ok then Some (True, os)
          else for_fields
                 (\<lambda>it os.
                    if PB_LTYPE (f_type (it_field it)) = PB_LTYPE_EXTENSION
                    then encode_extension_field n env (pb_encode n env m)
                           (pb_check_proto3_default_value n m) m os (it_field it) (it_pData it)
                    else encode_field env (pb_encode n env m)
                           (pb_check_proto3_default_value n m) m os (it_field it) (it_pData it))
                 it os)"

definition pb_encode_delimited :: "nat \<Rightarrow> 's enc_env \<Rightarrow> mem \<Rightarrow> 's pb_encode_fn" where
  "pb_encode_delimited n env m os flds src_struct =
     pb_encode_submessage (pb_encode n env m) os flds src_struct"

definition pb_encode_nullterminated :: "nat \<Rightarrow> 's enc_env \<Rightarrow> mem \<Rightarrow> 's pb_encode_fn" where
  "pb_encode_nullterminated n env m os flds src_struct =
     seq_call (pb_encode n env m os flds src_struct) (\<lambda>os. Some (pb_write os [0] 1))"

text \<open>The result is \<open>*size\<close>, if it is set. The state of the sizing stream is never used.\<close>

definition pb_get_encoded_size ::
  "nat \<Rightarrow> 's enc_env \<Rightarrow> mem \<Rightarrow> 's \<Rightarrow> pb_field list \<Rightarrow> addr \<Rightarrow> size_t option option" where
  "pb_get_encoded_size n env m s flds src_struct =
     (case pb_encode n env m (PB_OSTREAM_SIZING s) flds src_struct of
        None \<Rightarrow> None
      | Some (ok, os) \<Rightarrow> Some (if ok then Some (os_bytes_written os) else None))"

end
