(* ===== verification/Pb_Encode_Spec.thy ===== *)
theory Pb_Encode_Spec
  imports Pb_Encode Pb_Wire_Props
begin

text \<open>
  A reference definition of the encoding of a message: the bytes of a message are the
  bytes of its fields, in the order of its field array, each a function of the memory. There are
  no streams, no size pass, no iterator and no bound here. \<open>None\<close> stands for a message that
  cannot be encoded (a count beyond the array, a missing required field, a data size that
  no integer has). The refinement of the encoder to this definition is in \<open>Pb_Encode_Props\<close>.
\<close>

section \<open>Optional byte lists\<close>

definition opt_append :: "byte list option \<Rightarrow> byte list option \<Rightarrow> byte list option" where
  "opt_append a b = (case (a, b) of (Some x, Some y) \<Rightarrow> Some (x @ y) | _ \<Rightarrow> None)"

primrec concat_opt :: "byte list option list \<Rightarrow> byte list option" where
  "concat_opt [] = Some []"
| "concat_opt (x # xs) = opt_append x (concat_opt xs)"

lemma opt_append_simps [simp]:
  "opt_append (Some x) (Some y) = Some (x @ y)"
  "opt_append None b = None" "opt_append a None = None"
  by (simp_all add: opt_append_def split: option.splits)

lemma opt_append_Some [simp]:
  "opt_append a b = Some z \<longleftrightarrow> (\<exists>x y. a = Some x \<and> b = Some y \<and> z = x @ y)"
  by (cases a; cases b) auto

section \<open>Payloads\<close>

text \<open>Length-delimited bytes.\<close>

definition delimited :: "byte list \<Rightarrow> byte list" where
  "delimited bs = varint_spec (length bs) @ bs"

definition load_signed :: "mem \<Rightarrow> pb_size_t \<Rightarrow> addr \<Rightarrow> uint64 option" where
  "load_signed m sz p =
     (if sz = 1 then Some (scast (load8 m p)) else if sz = 2 then Some (scast (load16 m p))
      else if sz = 4 then Some (scast (load32 m p)) else if sz = 8 then Some (load64 m p) else None)"

definition load_unsigned :: "mem \<Rightarrow> pb_size_t \<Rightarrow> addr \<Rightarrow> uint64 option" where
  "load_unsigned m sz p =
     (if sz = 1 then Some (ucast (load8 m p)) else if sz = 2 then Some (ucast (load16 m p))
      else if sz = 4 then Some (ucast (load32 m p)) else if sz = 8 then Some (load64 m p) else None)"

definition is_pointer :: "pb_field \<Rightarrow> bool" where
  "is_pointer f \<longleftrightarrow> PB_ATYPE (f_type f) = PB_ATYPE_POINTER"

definition bytes_spec :: "mem \<Rightarrow> pb_field \<Rightarrow> addr \<Rightarrow> byte list option" where
  "bytes_spec m f p =
     (if p = 0 then Some []
      else if \<not> is_pointer f \<and> unat (load32 m p) + 4 > unat (f_data_size f) then None
      else Some (load_bytes m (p + 4) (unat (load32 m p))))"

text \<open>The characters before the terminator, at most as many as the field holds.\<close>

definition string_spec :: "mem \<Rightarrow> pb_field \<Rightarrow> addr \<Rightarrow> byte list" where
  "string_spec m f p =
     (if p = 0 then []
      else load_bytes m p (unat (pb_strnlen m (if is_pointer f then - 1 else ucast (f_data_size f)) 0 p)))"

definition payload_spec ::
  "(pb_field list \<Rightarrow> addr \<Rightarrow> byte list option) \<Rightarrow> mem \<Rightarrow> pb_field \<Rightarrow> addr \<Rightarrow> byte list option" where
  "payload_spec msg m f p =
     (let lt = PB_LTYPE (f_type f)
      in if lt = PB_LTYPE_VARINT
         then map_option (\<lambda>v. varint_spec (unat v)) (load_signed m (f_data_size f) p)
         else if lt = PB_LTYPE_UVARINT
         then map_option (\<lambda>v. varint_spec (unat v)) (load_unsigned m (f_data_size f) p)
         else if lt = PB_LTYPE_SVARINT
         then map_option (\<lambda>v. varint_spec (unat (zigzag v))) (load_signed m (f_data_size f) p)
         else if lt = PB_LTYPE_FIXED32 then Some (to_bytes 4 (load32 m p))
         else if lt = PB_LTYPE_FIXED64 then Some (to_bytes 8 (load64 m p))
         else if lt = PB_LTYPE_BYTES then map_option delimited (bytes_spec m f p)
         else if lt = PB_LTYPE_STRING then Some (delimited (string_spec m f p))
         else if lt = PB_LTYPE_SUBMESSAGE
         then (case f_ptr f of PtrFields fs \<Rightarrow> map_option delimited (msg fs p) | _ \<Rightarrow> None)
         else if lt = PB_LTYPE_FIXED_LENGTH_BYTES
         then Some (delimited (load_bytes m p (unat (f_data_size f))))
         else None)"

section \<open>Fields\<close>

definition wire_type_of :: "pb_type_t \<Rightarrow> pb_wire_type_t option" where
  "wire_type_of lt =
     (if lt = PB_LTYPE_VARINT \<or> lt = PB_LTYPE_UVARINT \<or> lt = PB_LTYPE_SVARINT then Some PB_WT_VARINT
      else if lt = PB_LTYPE_FIXED32 then Some PB_WT_32BIT
      else if lt = PB_LTYPE_FIXED64 then Some PB_WT_64BIT
      else if lt = PB_LTYPE_BYTES \<or> lt = PB_LTYPE_STRING \<or> lt = PB_LTYPE_SUBMESSAGE \<or>
              lt = PB_LTYPE_FIXED_LENGTH_BYTES then Some PB_WT_STRING
      else None)"

definition tag_spec :: "pb_field \<Rightarrow> byte list option" where
  "tag_spec f = map_option (\<lambda>wt. varint_spec (tag_code wt (f_tag f))) (wire_type_of (PB_LTYPE (f_type f)))"

definition tagged_spec ::
  "(pb_field list \<Rightarrow> addr \<Rightarrow> byte list option) \<Rightarrow> mem \<Rightarrow> pb_field \<Rightarrow> addr \<Rightarrow> byte list option" where
  "tagged_spec msg m f p = opt_append (tag_spec f) (payload_spec msg m f p)"

text \<open>The addresses of the entries of an array.\<close>

definition entry_addrs :: "pb_field \<Rightarrow> addr \<Rightarrow> nat \<Rightarrow> addr list" where
  "entry_addrs f p n = map (\<lambda>i. p + of_nat i * ucast (f_data_size f)) [0..<n]"

definition array_spec ::
  "(pb_field list \<Rightarrow> addr \<Rightarrow> byte list option) \<Rightarrow> mem \<Rightarrow> pb_field \<Rightarrow> addr \<Rightarrow> nat \<Rightarrow> byte list option" where
  "array_spec msg m f p count =
     (let lt = PB_LTYPE (f_type f)
      in if count = 0 then Some []
         else if \<not> is_pointer f \<and> count > unat (f_array_size f) then None
         else if lt \<le> PB_LTYPE_LAST_PACKABLE
         then map_option (\<lambda>bs. varint_spec (tag_code PB_WT_STRING (f_tag f)) @ delimited bs)
                (concat_opt (map (payload_spec msg m f) (entry_addrs f p count)))
         else concat_opt (map (\<lambda>q. tagged_spec msg m f
                  (if is_pointer f \<and> (lt = PB_LTYPE_STRING \<or> lt = PB_LTYPE_BYTES) then load64 m q else q))
                (entry_addrs f p count)))"

lemma field_places_from_set: "(f, p) \<in> set (field_places_from f0 p0 fs) \<Longrightarrow> f \<in> set fs \<and> f_tag f \<noteq> 0"
  by (induction fs arbitrary: f0 p0) (auto simp: Let_def split: if_splits)

lemma field_places_set: "(f, p) \<in> set (field_places fs dest) \<Longrightarrow> f \<in> set fs \<and> f_tag f \<noteq> 0"
  by (auto simp: field_places_def dest: field_places_from_set split: list.splits if_splits)

lemma size_ptr_fields: "f_ptr f = PtrFields fs \<Longrightarrow> size_list size fs < size f"
  by (cases f) auto

lemma size_place: "(f, p) \<in> set (field_places fs dest) \<Longrightarrow> size f \<le> size_list size fs"
  by (rule size_list_estimation') (auto dest: field_places_set)

text \<open>Whether a field has the value zero in the sense of proto3.\<close>

function zero_field :: "mem \<Rightarrow> pb_field \<Rightarrow> addr \<Rightarrow> bool" where
  "zero_field m f p =
     (let ht = PB_HTYPE (f_type f); lt = PB_LTYPE (f_type f);
          static = (PB_ATYPE (f_type f) = PB_ATYPE_STATIC);
          q = p + scast (f_size_offset f)
      in if ht = PB_HTYPE_REQUIRED then False
         else if ht = PB_HTYPE_REPEATED \<or> ht = PB_HTYPE_ONEOF then load32 m q = 0
         else if f_size_offset f \<noteq> 0 then \<not> load_bool m q
         else if static \<and> lt = PB_LTYPE_BYTES then load32 m p = 0
         else if static \<and> lt = PB_LTYPE_STRING then m p = 0
         else if static \<and> lt = PB_LTYPE_FIXED_LENGTH_BYTES then f_data_size f = 0
         else if static \<and> lt = PB_LTYPE_SUBMESSAGE
         then (case f_ptr f of
                 PtrFields fs \<Rightarrow> (\<forall>x \<in> set (field_places fs p). zero_field m (fst x) (snd x))
               | _ \<Rightarrow> False)
         else (\<forall>b \<in> set (load_bytes m p (unat (f_data_size f))). b = 0))"
  by pat_completeness auto
termination
  by (relation "measure (\<lambda>(_, f, _). size f)")
    (auto dest: size_place size_ptr_fields le_less_trans)

declare zero_field.simps [simp del]

definition field_spec ::
  "(pb_field list \<Rightarrow> addr \<Rightarrow> byte list option) \<Rightarrow> mem \<Rightarrow> pb_field \<Rightarrow> addr \<Rightarrow> byte list option" where
  "field_spec msg m f p =
     (let ht = PB_HTYPE (f_type f);
          d = (if is_pointer f then load64 m p else p);
          q = p + scast (f_size_offset f);
          has_size = (f_size_offset f \<noteq> 0)
      in if ht = PB_HTYPE_REQUIRED
         then if d = 0 then None else tagged_spec msg m f d
         else if ht = PB_HTYPE_OPTIONAL
         then if (if has_size then load_bool m q
                  else if is_pointer f then d \<noteq> 0 else \<not> zero_field m f p)
              then tagged_spec msg m f d else Some []
         else if ht = PB_HTYPE_REPEATED
         then array_spec msg m f d (if has_size then unat (load32 m q) else unat (f_array_size f))
         else if load32 m q = f_tag f then tagged_spec msg m f d else Some [])"

lemma payload_spec_cong:
  "f = f' \<Longrightarrow> (\<And>fs q. f_ptr f' = PtrFields fs \<Longrightarrow> msg fs q = msg' fs q) \<Longrightarrow>
     payload_spec msg m f p = payload_spec msg' m f' p"
  by (cases "f_ptr f'") (simp_all add: payload_spec_def Let_def)

lemma field_spec_cong [fundef_cong]:
  assumes "m = m'" and "f = f'" and "p = p'"
    and "\<And>fs q. f_ptr f' = PtrFields fs \<Longrightarrow> msg fs q = msg' fs q"
  shows "field_spec msg m f p = field_spec msg' m' f' p'"
proof -
  have "payload_spec msg m f = payload_spec msg' m f"
    using assms by (intro ext payload_spec_cong) simp_all
  with assms(1-3) show ?thesis
    by (simp add: field_spec_def tagged_spec_def array_spec_def Let_def)
qed

section \<open>Messages\<close>

function msg_spec :: "mem \<Rightarrow> pb_field list \<Rightarrow> addr \<Rightarrow> byte list option" where
  "msg_spec m fs src =
     concat_opt (map (\<lambda>x. field_spec (\<lambda>fs q. msg_spec m fs q) m (fst x) (snd x)) (field_places fs src))"
  by pat_completeness auto
termination
  by (relation "measure (\<lambda>(_, fs, _). size_list size fs)")
    (auto intro: less_le_trans [OF size_ptr_fields size_place])

declare msg_spec.simps [simp del]

section \<open>The message types covered\<close>

text \<open>Field arrays without user code: static and pointer fields of the ten data types, a
  oneof with its \<open>which_\<close> member, a submessage with its field array. All the types
  generated for this application are of this kind.\<close>

fun plain_field :: "pb_field \<Rightarrow> bool" and plain_ptr :: "pb_ptr \<Rightarrow> bool" where
  "plain_field (PbField tag ty d s ds as ptr) \<longleftrightarrow>
     tag = 0 \<or>
     (PB_ATYPE ty = PB_ATYPE_STATIC \<or> PB_ATYPE ty = PB_ATYPE_POINTER) \<and>
     wire_type_of (PB_LTYPE ty) \<noteq> None \<and>
     (PB_HTYPE ty = PB_HTYPE_ONEOF \<longrightarrow> s \<noteq> 0) \<and>
     (PB_LTYPE ty = PB_LTYPE_SUBMESSAGE \<longrightarrow> plain_ptr ptr)"
| "plain_ptr (PtrFields fs) \<longleftrightarrow> (\<forall>f \<in> set fs. plain_field f)"
| "plain_ptr PtrNull \<longleftrightarrow> False"
| "plain_ptr (PtrDefault bs) \<longleftrightarrow> False"

fun field_depth :: "pb_field \<Rightarrow> nat" and ptr_depth :: "pb_ptr \<Rightarrow> nat" where
  "field_depth (PbField tag ty d s ds as ptr) = ptr_depth ptr"
| "ptr_depth (PtrFields fs) = Suc (Max (insert 0 (field_depth ` set fs)))"
| "ptr_depth PtrNull = 0"
| "ptr_depth (PtrDefault bs) = 0"

text \<open>The nesting depth of a message type.\<close>

definition msg_depth :: "pb_field list \<Rightarrow> nat" where
  "msg_depth fs = ptr_depth (PtrFields fs)"

lemma field_depth_ptr: "f_ptr f = PtrFields fs \<Longrightarrow> field_depth f = msg_depth fs"
  by (cases f) (simp add: msg_depth_def)

lemma field_depth_less: "f \<in> set fs \<Longrightarrow> field_depth f < msg_depth fs"
  by (auto simp: msg_depth_def less_Suc_eq_le intro!: Max_ge)

end
