(* ===== verification/Pb_Encode_Props.thy ===== *)
theory Pb_Encode_Props
  imports Pb_Encode_Spec
begin

text \<open>
  The encoder refines the reference definition of \<open>Pb_Encode_Spec\<close>. Inside the sink
  contract, \<open>refines E r\<close> says that \<open>E\<close> always has a result, that it fails on every
  stream when \<open>r\<close> is \<open>None\<close>, and that it encodes \<open>r\<close> otherwise: it counts
  the bytes on a sizing stream, writes them to a stream with room and fails on a stream without.
  The relation is closed under the ways the C code composes encoders (sequence, array loop, size
  pass followed by the data), which gives the theorem for whole messages by induction on the
  nesting depth. One consequence is that the branch ``submsg size changed'' is never taken.
\<close>

section \<open>Composition of refinements\<close>

lemma is_none_callback: "(case os_callback os of None \<Rightarrow> a | Some cb \<Rightarrow> b) =
    (if os_callback os = None then a else b)"
  by (cases "os_callback os") simp_all

context ostream_sink
begin

definition refines :: "'s oencoder \<Rightarrow> byte list option \<Rightarrow> bool" where
  "refines E r \<longleftrightarrow>
     (\<exists>E'. (\<forall>os. E os = Some (E' os)) \<and>
        (case r of None \<Rightarrow> \<forall>os. \<not> fst (E' os)
                 | Some bs \<Rightarrow> length bs < 2 ^ 64 \<longrightarrow> encodes E' bs))"

lemma refinesI:
  assumes "\<And>os. E os = Some (E' os)" and "r = None \<Longrightarrow> \<forall>os. \<not> fst (E' os)"
    and "\<And>bs. r = Some bs \<Longrightarrow> length bs < 2 ^ 64 \<Longrightarrow> encodes E' bs"
  shows "refines E r"
  using assms unfolding refines_def by (intro exI [of _ E']) (auto split: option.split)

lemma refinesD:
  assumes "refines E r"
  shows "\<exists>E'. (\<forall>os. E os = Some (E' os)) \<and> (\<forall>os. r = None \<longrightarrow> \<not> fst (E' os)) \<and>
    (\<forall>bs. r = Some bs \<longrightarrow> length bs < 2 ^ 64 \<longrightarrow> encodes E' bs)"
  using assms unfolding refines_def by (auto split: option.splits)

lemma refines_encodes: "(\<And>os. E os = Some (E' os)) \<Longrightarrow> encodes E' bs \<Longrightarrow> refines E (Some bs)"
  by (rule refinesI) auto

lemma refines_fail: "(\<And>os. E os = Some (os_error os msg)) \<Longrightarrow> refines E None"
  by (rule refinesI) auto

lemma refines_cong: "(\<And>os. E os = F os) \<Longrightarrow> refines F r \<Longrightarrow> refines E r"
  by (simp add: refines_def)

lemma refines_skip: "(\<And>os. E os = Some (True, os)) \<Longrightarrow> refines E (Some [])"
  by (rule refines_encodes [OF _ encodes_skip])

lemma refines_seq:
  assumes "refines E a" and "refines F b"
  shows "refines (\<lambda>os. seq_call (E os) F) (opt_append a b)"
proof -
  from refinesD [OF assms(1)] obtain E' where E: "\<And>os. E os = Some (E' os)" "\<And>os. a = None \<Longrightarrow> \<not> fst (E' os)"
    "\<And>bs. a = Some bs \<Longrightarrow> length bs < 2 ^ 64 \<Longrightarrow> encodes E' bs" by metis
  from refinesD [OF assms(2)] obtain F' where F: "\<And>os. F os = Some (F' os)" "\<And>os. b = None \<Longrightarrow> \<not> fst (F' os)"
    "\<And>bs. b = Some bs \<Longrightarrow> length bs < 2 ^ 64 \<Longrightarrow> encodes F' bs" by metis
  show ?thesis
  proof (rule refinesI)
    have "F = (\<lambda>os. Some (F' os))" using F(1) by auto
    then show "seq_call (E os) F = Some (and_then (E' os) F')" for os
      by (simp add: E(1) seq_call_Some)
    show "\<forall>os. \<not> fst (and_then (E' os) F')" if "opt_append a b = None"
      using that E(2) F(2) by (cases a; cases b) (auto simp: and_then_ok)
    show "encodes (\<lambda>os. and_then (E' os) F') bs" if "opt_append a b = Some bs" "length bs < 2 ^ 64" for bs
      using that E(3) F(3) by (auto intro!: encodes_seq)
  qed
qed

lemma refines_entries:
  assumes "\<And>q. refines (f q) (g q)"
  shows "refines (encode_entries k f d p)
    (concat_opt (map g (map (\<lambda>i. p + of_nat i * ucast d) [0..<k])))"
proof (induction k arbitrary: p)
  case 0
  show ?case by (simp add: refines_skip)
next
  case (Suc k)
  have "map (\<lambda>i. p + of_nat i * ucast d) [0..<Suc k]
      = p # map (\<lambda>i. (p + ucast d) + of_nat i * ucast d) [0..<k]"
    by (simp only: map_Suc_upt [symmetric] upt_conv_Cons zero_less_Suc)
      (simp add: algebra_simps)
  with refines_seq [OF assms Suc.IH [of "p + ucast d"]] show ?case
    by (auto intro: refines_cong)
qed

text \<open>A size pass, then the length as a varint, then the data (\<open>H\<close> of the size).\<close>

lemma refines_sized:
  assumes F: "refines F r" and tot: "\<And>sz os. \<exists>x. H sz os = Some x"
    and H: "\<And>bs. r = Some bs \<Longrightarrow> length bs < 2 ^ 64 \<Longrightarrow>
      encodes (\<lambda>os. the (H (of_nat (length bs)) os)) bs"
    and G: "\<And>os. G os = (case F (PB_OSTREAM_SIZING (os_state os)) of
        None \<Rightarrow> None
      | Some (ok, sub) \<Rightarrow> if \<not> ok then Some (False, e os sub)
          else seq_call (Some (pb_encode_varint os (os_bytes_written sub))) (H (os_bytes_written sub)))"
  shows "refines G (map_option delimited r)"
proof -
  from refinesD [OF F] obtain F' where F': "\<And>os. F os = Some (F' os)" "\<And>os. r = None \<Longrightarrow> \<not> fst (F' os)"
    "\<And>bs. r = Some bs \<Longrightarrow> length bs < 2 ^ 64 \<Longrightarrow> encodes F' bs" by metis
  have H': "H sz = (\<lambda>os. Some (the (H sz os)))" for sz using tot [of sz] by (metis option.sel)
  let ?sub = "\<lambda>os. F' (PB_OSTREAM_SIZING (os_state os))"
  let ?G = "\<lambda>os. if \<not> fst (?sub os) then (False, e os (snd (?sub os)))
    else and_then (pb_encode_varint os (os_bytes_written (snd (?sub os))))
           (\<lambda>os'. the (H (os_bytes_written (snd (?sub os))) os'))"
  show ?thesis
  proof (rule refinesI)
    show "G os = Some (?G os)" for os
      unfolding G F'(1) by (subst H') (auto simp: seq_call_Some split: prod.splits)
    show "\<forall>os. \<not> fst (?G os)" if "map_option delimited r = None"
      using that F'(2) by simp
    show "encodes ?G bs" if bs: "map_option delimited r = Some bs" "length bs < 2 ^ 64" for bs
    proof -
      from bs obtain cs where cs: "r = Some cs" "bs = delimited cs" by auto
      with bs(2) have len: "length cs < 2 ^ 64" by (simp add: delimited_def)
      then have n: "unat (of_nat (length cs) :: size_t) = length cs" by (simp add: unat_of_nat)
      have sub: "?sub os = (True, (PB_OSTREAM_SIZING (os_state os))\<lparr>os_bytes_written := of_nat (length cs)\<rparr>)" for os
        using encodesD(1) [OF F'(3) [OF cs(1) len], of "PB_OSTREAM_SIZING (os_state os)"]
        by (simp add: PB_OSTREAM_SIZING_def)
      have "encodes (\<lambda>os. and_then (pb_encode_varint os (of_nat (length cs)))
          (\<lambda>os. the (H (of_nat (length cs)) os))) (varint_spec (length cs) @ cs)"
        using encodes_varint [of "of_nat (length cs)"] n H [OF cs(1) len] by (auto intro: encodes_seq)
      then show ?thesis unfolding cs(2) delimited_def by (rule encodes_cong [rotated]) (simp add: sub)
    qed
  qed
qed

text \<open>The data part of an array: only counted on a sizing stream.\<close>

lemma encodes_array_data:
  assumes "encodes F bs"
  shows "encodes (\<lambda>os. if os_callback os = None then pb_write os [] (of_nat (length bs)) else F os) bs"
  using assms unfolding encodes_def by (auto simp: pb_write_sizing os_inv_def)

text \<open>The data part of a submessage: a substream limited to the size that was announced.\<close>

definition submsg_data ::
  "('s pb_ostream \<Rightarrow> (bool \<times> 's pb_ostream) option) \<Rightarrow> size_t \<Rightarrow> 's oencoder" where
  "submsg_data F sz os =
     (case os_callback os of
        None \<Rightarrow> Some (pb_write os [] sz)
      | Some cb \<Rightarrow>
          if os_bytes_written os + sz > os_max_size os then Some (os_error os ''stream full'')
          else (case F \<lparr>os_callback = Some cb, os_state = os_state os, os_max_size = sz,
                         os_bytes_written = 0, os_errmsg = None\<rparr> of
                  None \<Rightarrow> None
                | Some (status, substream) \<Rightarrow>
                    (let os = os\<lparr>os_bytes_written := os_bytes_written os + os_bytes_written substream,
                                 os_state := os_state substream, os_errmsg := os_errmsg substream\<rparr>
                     in if os_bytes_written substream \<noteq> sz
                        then Some (os_error os ''submsg size changed'') else Some (status, os))))"

lemma encodes_submsg_data:
  assumes F: "\<And>os. F os = Some (F' os)" and enc: "encodes F' bs" and len: "length bs < 2 ^ 64"
  shows "encodes (\<lambda>os. the (submsg_data F (of_nat (length bs)) os)) bs"
proof -
  let ?n = "of_nat (length bs) :: size_t"
  let ?sub = "\<lambda>os. \<lparr>os_callback = os_callback os, os_state = os_state os, os_max_size = ?n,
    os_bytes_written = 0, os_errmsg = None\<rparr>"
  have n: "unat ?n = length bs" using len by (simp add: unat_of_nat)
  have "\<exists>os'. the (submsg_data F ?n os) = (True, os') \<and> wrote os bs os'"
    if inv: "os_inv os" and fits: "unat (os_bytes_written os) + length bs \<le> unat (os_max_size os)" for os
  proof -
    have sum: "unat (os_bytes_written os + ?n) = unat (os_bytes_written os) + length bs"
      using fits n unat_less_64 [of "os_max_size os"] by (subst unat_add_no_wrap) simp_all
    have room: "length bs \<le> room (os_state os)" using inv fits unfolding os_inv_def by linarith
    then have "os_inv (?sub os)" using inv n by (simp add: os_inv_def)
    from encodesD(2) [OF enc this] n obtain sub' where
      sub': "F' (?sub os) = (True, sub')" "wrote (?sub os) bs sub'" by auto
    from sub'(2) have w: "os_bytes_written sub' = ?n" "os_errmsg sub' = None"
      "out (os_state sub') = out (os_state os) @ bs"
      "room (os_state sub') = room (os_state os) - length bs"
      by (auto simp: wrote_def)
    have "\<not> os_bytes_written os + ?n > os_max_size os"
      using fits sum by (simp add: word_less_nat_alt)
    then have "the (submsg_data F ?n os) = (True, os\<lparr>os_bytes_written := os_bytes_written os + ?n,
        os_state := os_state sub', os_errmsg := None\<rparr>)"
      using inv w F sub'(1) by (simp add: submsg_data_def os_inv_def Let_def)
    moreover have "wrote os bs (os\<lparr>os_bytes_written := os_bytes_written os + ?n,
        os_state := os_state sub', os_errmsg := None\<rparr>)"
      unfolding wrote_def using inv w sum fits
      by (intro exI [of _ "os_state sub'"]) (auto simp: os_inv_def word_le_nat_alt)
    ultimately show ?thesis by blast
  qed
  moreover have "\<not> fst (the (submsg_data F ?n os))"
    if inv: "os_inv os" and full: "unat (os_max_size os) < unat (os_bytes_written os) + length bs"
      and small: "unat (os_max_size os) + length bs < 2 ^ 64" for os
  proof -
    have "unat (os_bytes_written os) \<le> unat (os_max_size os)"
      using inv by (simp add: os_inv_def word_le_nat_alt)
    then have "unat (os_bytes_written os + ?n) = unat (os_bytes_written os) + length bs"
      using small n by (subst unat_add_no_wrap) simp_all
    with full have "os_bytes_written os + ?n > os_max_size os" by (simp add: word_less_nat_alt)
    with inv show ?thesis by (simp add: submsg_data_def os_inv_def)
  qed
  ultimately show ?thesis unfolding encodes_def
    by (auto simp: submsg_data_def pb_write_sizing)
qed

end

section \<open>Fields and messages\<close>

lemma wire_type_of_less: "wire_type_of lt = Some wt \<Longrightarrow> unat wt < 8"
  by (auto simp: wire_type_of_def split: if_splits)

lemma pb_encode_tag_for_field_spec:
  "pb_encode_tag_for_field os f =
     (case wire_type_of (PB_LTYPE (f_type f)) of
        None \<Rightarrow> os_error os ''invalid field type''
      | Some wt \<Rightarrow> pb_encode_tag os wt (f_tag f))"
  by (simp add: pb_encode_tag_for_field_def wire_type_of_def Let_def)

context ostream_sink
begin

lemma submsg_data_total: "(\<And>os. \<exists>x. F os = Some x) \<Longrightarrow> \<exists>x. submsg_data F sz os = Some x"
  by (auto simp: submsg_data_def Let_def split: option.split prod.split) (metis option.distinct(1))

lemma refines_submessage:
  assumes "refines (\<lambda>os. enc os fs p) r"
  shows "refines (\<lambda>os. pb_encode_submessage enc os fs p) (map_option delimited r)"
proof -
  from refinesD [OF assms] obtain F' where F': "\<And>os. enc os fs p = Some (F' os)"
    "\<And>bs. r = Some bs \<Longrightarrow> length bs < 2 ^ 64 \<Longrightarrow> encodes F' bs" by metis
  show ?thesis
  proof (rule refines_sized [OF assms, where H = "submsg_data (\<lambda>os. enc os fs p)"
        and e = "\<lambda>os sub. os\<lparr>os_errmsg := os_errmsg sub\<rparr>"])
    show "\<exists>x. submsg_data (\<lambda>os. enc os fs p) sz os = Some x" for sz os
      by (rule submsg_data_total) (simp add: F'(1))
    show "encodes (\<lambda>os. the (submsg_data (\<lambda>os. enc os fs p) (of_nat (length bs)) os)) bs"
      if "r = Some bs" "length bs < 2 ^ 64" for bs
      by (rule encodes_submsg_data [OF F'(1) F'(2) [OF that] that(2)])
    show "pb_encode_submessage enc os fs p = (case enc (PB_OSTREAM_SIZING (os_state os)) fs p of
        None \<Rightarrow> None
      | Some (ok, sub) \<Rightarrow> if \<not> ok then Some (False, os\<lparr>os_errmsg := os_errmsg sub\<rparr>)
          else seq_call (Some (pb_encode_varint os (os_bytes_written sub)))
                 (submsg_data (\<lambda>os. enc os fs p) (os_bytes_written sub)))" for os
      unfolding pb_encode_submessage_def submsg_data_def [abs_def] Let_def ..
  qed
qed

lemma refines_string:
  assumes "unat sz = length bs"
  shows "refines (\<lambda>os. Some (pb_encode_string os bs sz)) (Some (delimited bs))"
proof -
  have "sz = of_nat (length bs)" using assms by (metis of_nat_unat ucast_id)
  then show ?thesis unfolding delimited_def using assms unat_less_64 [of sz]
    by (intro refines_encodes [OF refl]) (simp add: encodes_string)
qed

lemma refines_varint: "refines (\<lambda>os. Some (pb_encode_varint os v)) (Some (varint_spec (unat v)))"
  by (rule refines_encodes [OF refl encodes_varint])

lemma refines_svarint:
  "refines (\<lambda>os. Some (pb_encode_svarint os v)) (Some (varint_spec (unat (zigzag v))))"
  by (rule refines_encodes [OF refl encodes_svarint])

lemma refines_tag: "refines (\<lambda>os. Some (pb_encode_tag_for_field os f)) (tag_spec f)"
proof (cases "wire_type_of (PB_LTYPE (f_type f))")
  case None
  then show ?thesis by (simp add: tag_spec_def pb_encode_tag_for_field_spec refines_fail)
next
  case (Some wt)
  with encodes_tag [OF wire_type_of_less [OF Some]] show ?thesis
    by (simp add: tag_spec_def pb_encode_tag_for_field_spec refines_encodes)
qed

lemma refines_enc_varint:
  "refines (\<lambda>os. pb_enc_varint m os f p) (map_option (\<lambda>v. varint_spec (unat v)) (load_signed m (f_data_size f) p))"
  unfolding pb_enc_varint_def load_signed_def
  by (simp add: refines_varint refines_fail)

lemma refines_enc_uvarint:
  "refines (\<lambda>os. pb_enc_uvarint m os f p) (map_option (\<lambda>v. varint_spec (unat v)) (load_unsigned m (f_data_size f) p))"
  unfolding pb_enc_uvarint_def load_unsigned_def
  by (simp add: refines_varint refines_fail)

lemma refines_enc_svarint:
  "refines (\<lambda>os. pb_enc_svarint m os f p)
     (map_option (\<lambda>v. varint_spec (unat (zigzag v))) (load_signed m (f_data_size f) p))"
  unfolding pb_enc_svarint_def load_signed_def
  by (simp add: refines_svarint refines_fail)

lemma refines_enc_bytes:
  assumes "PB_ATYPE (f_type f) = PB_ATYPE_STATIC \<or> is_pointer f"
  shows "refines (\<lambda>os. pb_enc_bytes m os f p) (map_option delimited (bytes_spec m f p))"
proof -
  let ?n = "ucast (load32 m p) :: size_t"
  have n: "unat ?n = unat (load32 m p)" "unat (load32 m p) < 2 ^ 32"
    using unat_less_pow [of "load32 m p"]
    by (auto simp: unsigned_ucast_eq take_bit_eq_mod)
  then have "unat (?n + 4) = unat (load32 m p) + 4" by (subst unat_add_no_wrap) simp_all
  moreover have "unat (ucast (f_data_size f) :: size_t) = unat (f_data_size f)"
    using unat_less_pow [of "f_data_size f"] by (simp add: unsigned_ucast_eq take_bit_eq_mod)
  ultimately have exc: "PB_BYTES_ARRAY_T_ALLOCSIZE ?n > ucast (f_data_size f) \<longleftrightarrow>
      unat (load32 m p) + 4 > unat (f_data_size f)"
    by (simp add: PB_BYTES_ARRAY_T_ALLOCSIZE_def word_less_nat_alt)
  have st: "PB_ATYPE (f_type f) = PB_ATYPE_STATIC \<longleftrightarrow> \<not> is_pointer f"
    using assms by (auto simp: is_pointer_def)
  show ?thesis unfolding pb_enc_bytes_def bytes_spec_def Let_def exc st
    using refines_string [of 0 "[]"] refines_string [of ?n "load_bytes m (p + 4) (unat (load32 m p))"] n
    by (auto simp: refines_fail)
qed

lemma refines_enc_string:
  "refines (\<lambda>os. pb_enc_string m os f p) (Some (delimited (string_spec m f p)))"
  unfolding pb_enc_string_def string_spec_def Let_def is_pointer_def
  by (auto intro!: refines_string [THEN refines_cong [rotated]] simp: load_bytes_def)

text \<open>The table of field encoders refines the payload definition.\<close>

lemma refines_payload:
  assumes at: "PB_ATYPE (f_type f) = PB_ATYPE_STATIC \<or> is_pointer f"
    and wt: "wire_type_of (PB_LTYPE (f_type f)) \<noteq> None"
    and sub: "PB_LTYPE (f_type f) = PB_LTYPE_SUBMESSAGE \<Longrightarrow>
      \<exists>fs. f_ptr f = PtrFields fs \<and> (\<forall>q. refines (\<lambda>os. enc os fs q) (msg fs q))"
  shows "refines (\<lambda>os. PB_ENCODERS enc m (PB_LTYPE (f_type f)) os f p) (payload_spec msg m f p)"
proof -
  define lt where "lt = PB_LTYPE (f_type f)"
  have fl: "refines (\<lambda>os. pb_enc_fixed_length_bytes m os f p)
      (Some (delimited (load_bytes m p (unat (f_data_size f)))))"
    using unat_less_pow [of "f_data_size f"] unfolding pb_enc_fixed_length_bytes_def
    by (intro refines_string) (simp add: unsigned_ucast_eq take_bit_eq_mod)
  have sm: "refines (\<lambda>os. pb_enc_submessage enc os f p)
      (case f_ptr f of PtrFields fs \<Rightarrow> map_option delimited (msg fs p) | _ \<Rightarrow> None)"
    if "lt = PB_LTYPE_SUBMESSAGE"
    using sub that by (auto simp: lt_def pb_enc_submessage_def intro!: refines_submessage)
  from wt show ?thesis
    unfolding payload_spec_def PB_ENCODERS_def Let_def lt_def [symmetric]
    by (auto simp: wire_type_of_def refines_enc_varint refines_enc_uvarint refines_enc_svarint
        refines_enc_bytes [OF at] refines_enc_string fl sm
        pb_enc_fixed32_def pb_enc_fixed64_def
        intro: refines_encodes [OF refl encodes_fixed32] refines_encodes [OF refl encodes_fixed64])
qed

end

section \<open>Arrays\<close>

lemma concat_opt_length_const:
  "(\<And>x. x \<in> set xs \<Longrightarrow> \<exists>bs. g x = Some bs \<and> length bs = k) \<Longrightarrow>
     \<exists>bs. concat_opt (map g xs) = Some bs \<and> length bs = k * length xs"
  by (induction xs) fastforce+

lemma unat_ucast_64: "unat (ucast (w :: uint32) :: size_t) = unat w"
  using unat_less_pow [of w] by (simp add: unsigned_ucast_eq take_bit_eq_mod)

context ostream_sink
begin

text \<open>The data part of a packed array, after its size.\<close>

definition array_data :: "'s oencoder \<Rightarrow> size_t \<Rightarrow> 's oencoder" where
  "array_data F sz os = (case os_callback os of None \<Rightarrow> Some (pb_write os [] sz) | Some cb \<Rightarrow> F os)"

lemma array_data_props:
  assumes "refines F r"
  shows "\<exists>x. array_data F sz os = Some x"
    and "r = Some bs \<Longrightarrow> length bs < 2 ^ 64 \<Longrightarrow>
      encodes (\<lambda>os. the (array_data F (of_nat (length bs)) os)) bs"
proof -
  from refinesD [OF assms] obtain D where D: "\<And>os. F os = Some (D os)"
    "\<And>bs. r = Some bs \<Longrightarrow> length bs < 2 ^ 64 \<Longrightarrow> encodes D bs" by metis
  show "\<exists>x. array_data F sz os = Some x"
    by (auto simp: array_data_def D(1) split: option.split)
  show "encodes (\<lambda>os. the (array_data F (of_nat (length bs)) os)) bs"
    if "r = Some bs" "length bs < 2 ^ 64"
    by (rule encodes_cong [OF _ encodes_array_data [OF D(2) [OF that]]])
      (simp add: array_data_def D(1) split: option.split)
qed

lemma refines_packed_fixed:
  assumes "refines F (Some bs)" and len: "length bs < 2 ^ 64"
  shows "refines (\<lambda>os. seq_call (Some (pb_encode_varint os (of_nat (length bs))))
      (array_data F (of_nat (length bs)))) (Some (delimited bs))"
proof -
  let ?n = "of_nat (length bs) :: size_t"
  have n: "unat ?n = length bs" using len by (simp add: unat_of_nat)
  have "refines (array_data F ?n) (Some bs)"
  proof (rule refines_encodes)
    show "array_data F ?n os = Some (the (array_data F ?n os))" for os
      using array_data_props(1) [OF assms(1), of ?n os] by auto
    show "encodes (\<lambda>os. the (array_data F ?n os)) bs"
      by (rule array_data_props(2) [OF assms(1) refl len])
  qed
  from refines_seq [OF refines_varint [of ?n] this] show ?thesis
    by (simp add: n delimited_def)
qed

lemma refines_packed_sized:
  assumes "refines F r"
  shows "refines (\<lambda>os. case map_option (\<lambda>(ok, sizestream). (ok, os_bytes_written sizestream))
                         (F (PB_OSTREAM_SIZING (os_state os))) of
        None \<Rightarrow> None
      | Some (False, _) \<Rightarrow> Some (False, os)
      | Some (True, sz) \<Rightarrow> seq_call (Some (pb_encode_varint os sz)) (array_data F sz))
    (map_option delimited r)"
  by (rule refines_sized [OF assms array_data_props [OF assms], where e = "\<lambda>os sub. os"])
    (auto split: option.split prod.split bool.split)

lemma refines_packed:
  assumes F: "refines F (concat_opt (map (payload_spec msg m f) (entry_addrs f p (unat count))))"
    (is "refines F ?data") and lt: "lt = PB_LTYPE (f_type f)" and cnt: "unat count < 2 ^ 32"
  shows "refines (\<lambda>os. case (if lt = PB_LTYPE_FIXED32 then Some (True, 4 * count)
                    else if lt = PB_LTYPE_FIXED64 then Some (True, 8 * count)
                    else map_option (\<lambda>(ok, sizestream). (ok, os_bytes_written sizestream))
                           (F (PB_OSTREAM_SIZING (os_state os)))) of
                  None \<Rightarrow> None
                | Some (False, _) \<Rightarrow> Some (False, os)
                | Some (True, sz) \<Rightarrow> seq_call (Some (pb_encode_varint os sz)) (array_data F sz))
      (map_option delimited ?data)" (is "refines ?P _")
proof (cases "lt = PB_LTYPE_FIXED32 \<or> lt = PB_LTYPE_FIXED64")
  case True
  define k :: nat where "k = (if lt = PB_LTYPE_FIXED32 then 4 else 8)"
  from True have "\<exists>bs. payload_spec msg m f q = Some bs \<and> length bs = k" for q
    by (elim disjE) (simp_all add: payload_spec_def Let_def lt k_def)
  then obtain bs where bs: "?data = Some bs" "length bs = k * unat count"
    using concat_opt_length_const [of "entry_addrs f p (unat count)" "payload_spec msg m f" k]
    by (auto simp: entry_addrs_def)
  have len: "length bs < 2 ^ 64" unfolding bs(2) k_def using cnt by simp
  have "of_nat (length bs) = of_nat k * count" unfolding bs(2) by (simp add: of_nat_mult)
  then have "?P os = seq_call (Some (pb_encode_varint os (of_nat (length bs))))
      (array_data F (of_nat (length bs)))" for os
    using True by (elim disjE) (simp_all add: k_def)
  with refines_packed_fixed [of F bs] F bs(1) len show ?thesis by simp
qed (use refines_packed_sized [OF F] in auto)

lemma refines_array:
  assumes pay: "\<And>q. refines (\<lambda>os. func os f q) (payload_spec msg m f q)"
    and cnt: "unat count < 2 ^ 32"
  shows "refines (\<lambda>os. encode_array m os f p count func) (array_spec msg m f p (unat count))"
proof -
  define lt where "lt = PB_LTYPE (f_type f)"
  let ?entries = "\<lambda>g. encode_entries (unat count) g (f_data_size f) p"
  let ?data = "concat_opt (map (payload_spec msg m f) (entry_addrs f p (unat count)))"
  let ?deref = "is_pointer f \<and> (lt = PB_LTYPE_STRING \<or> lt = PB_LTYPE_BYTES)"
  have data: "refines (?entries (\<lambda>p os. func os f p)) ?data"
    unfolding entry_addrs_def by (rule refines_entries) (rule pay)
  have eq: "(\<lambda>os. if ?deref then func os f (load64 m q) else func os f q)
      = (\<lambda>os. func os f (if ?deref then load64 m q else q))" for q by (simp only: if_distrib)
  have each: "refines (\<lambda>os. seq_call (Some (pb_encode_tag_for_field os f)) (\<lambda>os.
        if ?deref then func os f (load64 m q) else func os f q))
      (tagged_spec msg m f (if ?deref then load64 m q else q))" for q
    unfolding tagged_spec_def eq by (intro refines_seq refines_tag pay)
  have size: "count > ucast (f_array_size f) \<longleftrightarrow> unat count > unat (f_array_size f)"
    by (simp add: word_less_nat_alt unat_ucast_64)
  have app: "opt_append (Some a) (map_option delimited ?data)
      = map_option (\<lambda>bs. a @ delimited bs) ?data" for a
    by (cases ?data) simp_all
  have "unat PB_WT_STRING < 8" by simp
  note packed = refines_seq [OF refines_encodes [OF refl encodes_tag [OF this, of "f_tag f"]]
      refines_packed [OF data lt_def cnt], unfolded app]
  show ?thesis
    using refines_entries [where f = "\<lambda>p os. seq_call (Some (pb_encode_tag_for_field os f)) (\<lambda>os.
        if ?deref then func os f (load64 m p) else func os f p)", OF each, of "unat count" "f_data_size f" p]
      packed
    unfolding encode_array_def array_spec_def Let_def lt_def [symmetric] size array_data_def [abs_def]
      is_pointer_def [symmetric] entry_addrs_def
    by (auto simp: refines_fail refines_skip unat_eq_zero)
qed

end

section \<open>Presence of proto3 fields\<close>

lemma PB_HTYPE_cases:
  "PB_HTYPE x = PB_HTYPE_REQUIRED \<or> PB_HTYPE x = PB_HTYPE_OPTIONAL \<or>
   PB_HTYPE x = PB_HTYPE_REPEATED \<or> PB_HTYPE x = PB_HTYPE_ONEOF"
proof -
  have m: "(0x30 :: pb_type_t) = push_bit 4 (mask 2)" by (simp add: mask_eq_exp_minus_1)
  have "PB_HTYPE x = push_bit 4 (take_bit 2 (drop_bit 4 x))"
    unfolding PB_HTYPE_def m by (auto intro!: bit_word_eqI simp: bit_simps)
  moreover have "unat (take_bit 2 (drop_bit 4 x)) < 4" by (simp add: unat_take_bit)
  then have "take_bit 2 (drop_bit 4 x) \<in> {0, 1, 2, 3}"
    by (auto simp: word_unat_eq_iff)
  ultimately show ?thesis by auto
qed

lemma for_places_all:
  assumes "\<And>x. x \<in> set ps \<Longrightarrow> body (fst x) (snd x) () = Some (P (fst x) (snd x), ())"
  shows "map_option fst (for_places body ps ()) = Some (\<forall>x \<in> set ps. P (fst x) (snd x))"
  using assms by (induction ps) (auto split: bool.split)

lemma field_places_empty: "\<not> fst (pb_field_iter_begin fs dest) \<Longrightarrow> field_places fs dest = []"
  by (auto simp: field_places_begin split: prod.split)

lemma plain_fieldD:
  assumes "plain_field f" and "f_tag f \<noteq> 0"
  shows "PB_ATYPE (f_type f) = PB_ATYPE_STATIC \<or> is_pointer f"
    and "wire_type_of (PB_LTYPE (f_type f)) \<noteq> None"
    and "PB_HTYPE (f_type f) = PB_HTYPE_ONEOF \<Longrightarrow> f_size_offset f \<noteq> 0"
    and "PB_LTYPE (f_type f) = PB_LTYPE_SUBMESSAGE \<Longrightarrow>
      \<exists>fs. f_ptr f = PtrFields fs \<and> (\<forall>g \<in> set fs. plain_field g)"
  using assms by (cases f; cases "f_ptr f"; simp add: is_pointer_def)+

text \<open>On plain message types the check has a result when its bound exceeds the nesting depth of
  the field, and the result is that of the reference definition.\<close>

lemma pb_check_proto3_default_value_spec:
  assumes "plain_field f" and "f_tag f \<noteq> 0" and "field_depth f < n"
  shows "pb_check_proto3_default_value n m f p = Some (zero_field m f p)"
  using assms
proof (induction n arbitrary: f p)
  case (Suc n)
  show ?case
  proof (cases "PB_ATYPE (f_type f) = PB_ATYPE_STATIC \<and> PB_LTYPE (f_type f) = PB_LTYPE_SUBMESSAGE")
    case True
    with plain_fieldD(4) [OF Suc.prems(1,2)] obtain fs
      where fs: "f_ptr f = PtrFields fs" "\<And>g. g \<in> set fs \<Longrightarrow> plain_field g" by blast
    have sub: "pb_check_proto3_default_value n m (fst x) (snd x) = Some (zero_field m (fst x) (snd x))"
      if "x \<in> set (field_places fs p)" for x
      using that field_places_set [of "fst x" "snd x" fs p] fs(2) field_depth_less [of "fst x" fs]
        field_depth_ptr [OF fs(1)] Suc.prems(3) by (intro Suc.IH) auto
    obtain ok it where b: "pb_field_iter_begin fs p = (ok, it)" by fastforce
    have "(if ok then map_option fst (for_fields (\<lambda>it s. map_option (\<lambda>b. (b, s))
            (pb_check_proto3_default_value n m (it_field it) (it_pData it))) it ()) else Some True)
        = Some (\<forall>x \<in> set (field_places fs p). zero_field m (fst x) (snd x))"
    proof (cases ok)
      case True
      with b for_fields_places [of fs p it "\<lambda>f p s. map_option (\<lambda>b. (b, s)) (pb_check_proto3_default_value n m f p)" "()"]
        for_places_all [of "field_places fs p" "\<lambda>f p s. map_option (\<lambda>b. (b, s)) (pb_check_proto3_default_value n m f p)" "zero_field m"] sub
      show ?thesis by simp
    next
      case False
      with b field_places_empty [of fs p] show ?thesis by simp
    qed
    with PB_HTYPE_cases [of "f_type f"] True b fs(1) show ?thesis
      by (auto simp: zero_field.simps [of m f p] Let_def)
  next
    case False
    with PB_HTYPE_cases [of "f_type f"] show ?thesis
      by (auto simp: zero_field.simps [of m f p] Let_def list_all_iff)
  qed
qed simp

context ostream_sink
begin

lemma refines_basic_field:
  assumes pl: "plain_field f" "f_tag f \<noteq> 0" and chk: "chk f p = Some (zero_field m f p)"
    and sub: "\<And>fs q. f_ptr f = PtrFields fs \<Longrightarrow> \<forall>g \<in> set fs. plain_field g \<Longrightarrow>
      refines (\<lambda>os. enc os fs q) (msg fs q)"
  shows "refines (\<lambda>os. encode_basic_field enc chk m os f p) (field_spec msg m f p)"
proof -
  let ?f = "PB_ENCODERS enc m (PB_LTYPE (f_type f))"
  let ?d = "if is_pointer f then load64 m p else p"
  let ?q = "p + scast (f_size_offset f)"
  have pay: "refines (\<lambda>os. ?f os f q) (payload_spec msg m f q)" for q
    using plain_fieldD [OF pl] sub by (intro refines_payload) blast+
  then have tagged: "refines (\<lambda>os. seq_call (Some (pb_encode_tag_for_field os f)) (\<lambda>os. ?f os f q))
      (tagged_spec msg m f q)" for q
    unfolding tagged_spec_def by (intro refines_seq refines_tag)
  have arr: "refines (\<lambda>os. encode_array m os f q (ucast w) ?f) (array_spec msg m f q (unat w))"
    for q and w :: uint32
    using refines_array [where func = ?f and msg = msg and f = f and m = m and count = "ucast w" and p = q]
      pay unat_less_pow [of w] by (simp add: unat_ucast_64)
  show ?thesis
    using PB_HTYPE_cases [of "f_type f"] plain_fieldD(3) [OF pl]
    unfolding encode_basic_field_def field_spec_def Let_def is_pointer_def [symmetric]
    by (elim disjE) (auto simp: chk refines_fail refines_skip tagged arr)
qed

end

section \<open>Whole messages\<close>

lemma for_places_Cons: "for_places body (x # ps) s = seq_call (body (fst x) (snd x) s) (for_places body ps)"
  by (auto simp: seq_call_def split: option.split prod.split bool.split)

context ostream_sink
begin

lemma refines_places:
  "(\<And>x. x \<in> set ps \<Longrightarrow> refines (body (fst x) (snd x)) (g x)) \<Longrightarrow>
     refines (for_places body ps) (concat_opt (map g ps))"
proof (induction ps)
  case Nil
  show ?case by (simp add: refines_skip)
next
  case (Cons x ps)
  then have "refines (\<lambda>os. seq_call (body (fst x) (snd x) os) (for_places body ps))
      (opt_append (g x) (concat_opt (map g ps)))" by (intro refines_seq) simp_all
  then show ?case by (simp add: for_places_Cons [abs_def] del: for_places.simps)
qed

lemma refines_pb_encode:
  assumes "\<forall>f \<in> set fs. plain_field f" and "msg_depth fs < n"
  shows "refines (\<lambda>os. pb_encode n env m os fs src) (msg_spec m fs src)"
  using assms
proof (induction n arbitrary: fs src)
  case (Suc n)
  define body where "body f p os =
      (if PB_LTYPE (f_type f) = PB_LTYPE_EXTENSION
       then encode_extension_field n env (pb_encode n env m) (pb_check_proto3_default_value n m) m os f p
       else encode_field env (pb_encode n env m) (pb_check_proto3_default_value n m) m os f p)" for f p os
  have "refines (body (fst x) (snd x)) (field_spec (msg_spec m) m (fst x) (snd x))"
    if "x \<in> set (field_places fs src)" for x
  proof -
    from that field_places_set [of "fst x" "snd x" fs src] Suc.prems
    have x: "plain_field (fst x)" "f_tag (fst x) \<noteq> 0" "field_depth (fst x) < n"
      using field_depth_less [of "fst x" fs] by auto
    have "refines (\<lambda>os. encode_basic_field (pb_encode n env m) (pb_check_proto3_default_value n m) m os
        (fst x) (snd x)) (field_spec (msg_spec m) m (fst x) (snd x))"
    proof (rule refines_basic_field [OF x(1,2)])
      show "pb_check_proto3_default_value n m (fst x) (snd x) = Some (zero_field m (fst x) (snd x))"
        by (rule pb_check_proto3_default_value_spec [OF x])
      show "refines (\<lambda>os. pb_encode n env m os gs q) (msg_spec m gs q)"
        if "f_ptr (fst x) = PtrFields gs" "\<forall>g \<in> set gs. plain_field g" for gs q
        using that x(3) by (intro Suc.IH) (simp_all add: field_depth_ptr)
    qed
    moreover have "body (fst x) (snd x) os = encode_basic_field (pb_encode n env m)
        (pb_check_proto3_default_value n m) m os (fst x) (snd x)" for os
      using plain_fieldD [OF x(1,2)]
      by (auto simp: body_def encode_field_def is_pointer_def wire_type_of_def Let_def)
    ultimately show ?thesis by (auto intro: refines_cong)
  qed
  from refines_places [of "field_places fs src" body
      "\<lambda>x. field_spec (msg_spec m) m (fst x) (snd x)", OF this]
  have places: "refines (for_places body (field_places fs src)) (msg_spec m fs src)"
    by (simp add: msg_spec.simps [of m fs])
  have "pb_encode (Suc n) env m os fs src = for_places body (field_places fs src) os" for os
  proof (cases "pb_field_iter_begin fs src")
    case (Pair ok it)
    show ?thesis
    proof (cases ok)
      case True
      with Pair for_fields_places [of fs src it body os] show ?thesis
        by (simp add: body_def [abs_def])
    next
      case False
      with Pair field_places_empty [of fs src] show ?thesis by simp
    qed
  qed
  with places show ?case by (auto intro: refines_cong)
qed simp

end

end
