(* ===== verification/Pb_Message_Props.thy ===== *)
theory Pb_Message_Props
  imports Pb_Messages Pb_Encode_Props
begin

text \<open>
  The generated message types and the encoder together: the tables describe the structs, all
  of them are types for which the encoder refines the reference encoding, and the
  properties of whole-message encoding, with a message of the application as their example.
\<close>

section \<open>The tables describe the structs\<close>

text \<open>The name of the count or has-flag of a member.\<close>

definition size_member :: "pb_field \<Rightarrow> string \<Rightarrow> string" where
  "size_member f m =
     (if f_size_offset f = 0 then m
      else if PB_HTYPE (f_type f) = PB_HTYPE_REPEATED then m @ ''_count'' else ''has_'' @ m)"

text \<open>A field array describes the named members of a struct: for a message at any address, the
  iterator finds the data, the count or has-flag of each field where the struct has
  the member, and takes it to have the size of the member.\<close>

definition field_is_member :: "c_struct \<Rightarrow> addr \<Rightarrow> pb_field \<times> addr \<Rightarrow> string \<Rightarrow> bool" where
  "field_is_member st dest x m \<longleftrightarrow>
     (let ms = struct_members st; f = fst x; p = snd x
      in 0 < pb_membersize ms m \<and> 0 < pb_membersize ms (size_member f m) \<and>
         p = dest + of_nat (c_offsetof ms m) \<and>
         p + scast (f_size_offset f) = dest + of_nat (c_offsetof ms (size_member f m)) \<and>
         unat (prev_size f) = pb_membersize ms m)"

definition describes :: "pb_field list \<Rightarrow> c_struct \<Rightarrow> string list \<Rightarrow> bool" where
  "describes fs st ms \<longleftrightarrow> (\<forall>dest. list_all2 (field_is_member st dest) (field_places fs dest) ms)"

lemma field_is_member_shift:
  "field_is_member st (dest + d) (f, dest + p) m = field_is_member st d (f, p) m"
  by (simp add: field_is_member_def Let_def add.assoc)

lemma describesI: "list_all2 (field_is_member st 0) (field_places fs 0) ms \<Longrightarrow> describes fs st ms"
  unfolding describes_def
proof
  fix dest assume a: "list_all2 (field_is_member st 0) (field_places fs 0) ms"
  have "field_is_member st dest (fst x, dest + snd x) m = field_is_member st 0 x m" for x m
    using field_is_member_shift [of st dest 0 "fst x" "snd x" m] by simp
  with a show "list_all2 (field_is_member st dest) (field_places fs dest) ms"
    by (simp add: field_places_shift [of fs dest] list_all2_map1)
qed

text \<open>The message types of the application, with their structs and the members they describe.\<close>

definition message_types :: "(pb_field list \<times> c_struct \<times> string list) list" where
  "message_types =
     [(gdt_cct_IosClientInfo_fields, gdt_cct_IosClientInfo,
       [''os_major_version'', ''os_full_version'', ''application_build'', ''country'', ''model'',
        ''language_code'', ''application_bundle_id'']),
      (gdt_cct_ClientInfo_fields, gdt_cct_ClientInfo, [''client_type'', ''ios_client_info'']),
      (gdt_cct_NetworkConnectionInfo_fields, gdt_cct_NetworkConnectionInfo,
       [''network_type'', ''mobile_subtype'']),
      (gdt_cct_LogEvent_fields, gdt_cct_LogEvent,
       [''event_time_ms'', ''source_extension'', ''event_code'', ''timezone_offset_seconds'',
        ''event_uptime_ms'', ''network_connection_info'']),
      (gdt_cct_LogRequest_fields, gdt_cct_LogRequest,
       [''client_info'', ''log_source'', ''log_event'', ''request_time_ms'', ''request_uptime_ms'',
        ''qos_tier'']),
      (gdt_cct_BatchedLogRequest_fields, gdt_cct_BatchedLogRequest, [''log_request'']),
      (gdt_cct_QosTierConfiguration_fields, gdt_cct_QosTierConfiguration, [''qos_tier'', ''log_source'']),
      (gdt_cct_QosTiersOverride_fields, gdt_cct_QosTiersOverride,
       [''qos_tier_configuration'', ''qos_tier_fingerprint'']),
      (gdt_cct_LogResponse_fields, gdt_cct_LogResponse, [''next_request_wait_millis'', ''qos_tier'']),
      (logs_proto_mobilesdk_ios_ICoreConfiguration_fields, logs_proto_mobilesdk_ios_ICoreConfiguration,
       [''configuration_type'', ''sdk_service_installed'', ''device_model'', ''app_id'', ''bundle_id'',
        ''pod_name'', ''icore_version'', ''sdk_version'', ''sdk_name'', ''app_count'', ''os_version'',
        ''min_supported_ios_version'', ''use_default_app'', ''deployed_in_app_store'', ''dynamic_framework_count'',
        ''apple_framework_version'', ''using_zip_file'', ''deployment_type'', ''platform_info'',
        ''swizzling_enabled'', ''using_gdt''])]"

lemmas place_simps = field_places_def in_same_union_def prev_size_def pb_type_defs PB_LAST_FIELD_def

lemma core_places:
  "field_places logs_proto_mobilesdk_ios_ICoreConfiguration_fields 0 = zip
     (butlast logs_proto_mobilesdk_ios_ICoreConfiguration_fields)
     [4, 16, 24, 32, 40, 52, 56, 64, 76, 84, 88, 96, 105, 107, 112, 120, 129, 132, 136, 145, 147]"
  unfolding logs_proto_mobilesdk_ios_ICoreConfiguration_fields_eval
  by (simp add: place_simps)

lemmas member_simps = field_is_member_def c_member_def c_offsetof_def pb_membersize_def
  size_member_def Let_def

lemma describes_IosClientInfo:
  "describes gdt_cct_IosClientInfo_fields gdt_cct_IosClientInfo (snd (snd (message_types ! 0)))"
  by (rule describesI)
    (simp add: message_types_def gdt_cct_IosClientInfo_fields_eval place_simps member_simps gdt_cct_IosClientInfo_layout)

lemma describes_ClientInfo:
  "describes gdt_cct_ClientInfo_fields gdt_cct_ClientInfo (snd (snd (message_types ! 1)))"
  by (rule describesI)
    (simp add: message_types_def gdt_cct_ClientInfo_fields_eval place_simps member_simps gdt_cct_ClientInfo_layout)

lemma describes_NetworkConnectionInfo:
  "describes gdt_cct_NetworkConnectionInfo_fields gdt_cct_NetworkConnectionInfo (snd (snd (message_types ! 2)))"
  by (rule describesI)
    (simp add: message_types_def gdt_cct_NetworkConnectionInfo_fields_eval place_simps member_simps gdt_cct_NetworkConnectionInfo_layout)

lemma describes_LogEvent:
  "describes gdt_cct_LogEvent_fields gdt_cct_LogEvent (snd (snd (message_types ! 3)))"
  by (rule describesI)
    (simp add: message_types_def gdt_cct_LogEvent_fields_eval place_simps member_simps gdt_cct_LogEvent_layout)

lemma describes_LogRequest:
  "describes gdt_cct_LogRequest_fields gdt_cct_LogRequest (snd (snd (message_types ! 4)))"
  by (rule describesI)
    (simp add: message_types_def gdt_cct_LogRequest_fields_eval place_simps member_simps gdt_cct_LogRequest_layout)

lemma describes_BatchedLogRequest:
  "describes gdt_cct_BatchedLogRequest_fields gdt_cct_BatchedLogRequest (snd (snd (message_types ! 5)))"
  by (rule describesI)
    (simp add: message_types_def gdt_cct_BatchedLogRequest_fields_eval place_simps member_simps gdt_cct_BatchedLogRequest_layout)

lemma describes_QosTierConfiguration:
  "describes gdt_cct_QosTierConfiguration_fields gdt_cct_QosTierConfiguration (snd (snd (message_types ! 6)))"
  by (rule describesI)
    (simp add: message_types_def gdt_cct_QosTierConfiguration_fields_eval place_simps member_simps gdt_cct_QosTierConfiguration_layout)

lemma describes_QosTiersOverride:
  "describes gdt_cct_QosTiersOverride_fields gdt_cct_QosTiersOverride (snd (snd (message_types ! 7)))"
  by (rule describesI)
    (simp add: message_types_def gdt_cct_QosTiersOverride_fields_eval place_simps member_simps gdt_cct_QosTiersOverride_layout)

lemma describes_LogResponse:
  "describes gdt_cct_LogResponse_fields gdt_cct_LogResponse (snd (snd (message_types ! 8)))"
  by (rule describesI)
    (simp add: message_types_def gdt_cct_LogResponse_fields_eval place_simps member_simps gdt_cct_LogResponse_layout)

lemma describes_ICoreConfiguration:
  "describes logs_proto_mobilesdk_ios_ICoreConfiguration_fields logs_proto_mobilesdk_ios_ICoreConfiguration
     (snd (snd (last message_types)))"
  by (rule describesI, unfold core_places message_types_def)
    (simp add: logs_proto_mobilesdk_ios_ICoreConfiguration_fields_eval field_is_member_def
      logs_proto_mobilesdk_ios_ICoreConfiguration_member c_offsetof_def pb_membersize_def
      size_member_def prev_size_def pb_type_defs Let_def)

lemmas describes_tables = describes_IosClientInfo describes_ClientInfo describes_NetworkConnectionInfo describes_LogEvent describes_LogRequest describes_BatchedLogRequest describes_QosTierConfiguration describes_QosTiersOverride describes_LogResponse describes_ICoreConfiguration


definition table_ok :: "pb_field list \<Rightarrow> bool" where
  "table_ok fs \<longleftrightarrow> list_all plain_field fs \<and> distinct (map f_tag fs) \<and>
     list_all (\<lambda>f. f_tag f < 0x20000000) fs \<and> last fs = PB_LAST_FIELD \<and> msg_depth fs \<le> 4"

lemmas table_evals = gdt_cct_IosClientInfo_fields_eval gdt_cct_ClientInfo_fields_eval gdt_cct_NetworkConnectionInfo_fields_eval gdt_cct_LogEvent_fields_eval gdt_cct_LogRequest_fields_eval gdt_cct_BatchedLogRequest_fields_eval gdt_cct_QosTierConfiguration_fields_eval gdt_cct_QosTiersOverride_fields_eval gdt_cct_LogResponse_fields_eval logs_proto_mobilesdk_ios_ICoreConfiguration_fields_eval

lemmas table_ok_simps = table_ok_def PB_LAST_FIELD_def pb_type_defs wire_type_of_def msg_depth_def

lemma table_ok_IosClientInfo: "table_ok gdt_cct_IosClientInfo_fields"
  by (simp add: table_evals table_ok_simps)

lemma table_ok_ClientInfo: "table_ok gdt_cct_ClientInfo_fields"
  by (simp add: table_evals table_ok_simps)

lemma table_ok_NetworkConnectionInfo: "table_ok gdt_cct_NetworkConnectionInfo_fields"
  by (simp add: table_evals table_ok_simps)

lemma table_ok_LogEvent: "table_ok gdt_cct_LogEvent_fields"
  by (simp add: table_evals table_ok_simps)

lemma table_ok_LogRequest: "table_ok gdt_cct_LogRequest_fields"
  by (simp add: table_evals table_ok_simps)

lemma table_ok_BatchedLogRequest: "table_ok gdt_cct_BatchedLogRequest_fields"
  by (simp add: table_evals table_ok_simps)

lemma table_ok_QosTierConfiguration: "table_ok gdt_cct_QosTierConfiguration_fields"
  by (simp add: table_evals table_ok_simps)

lemma table_ok_QosTiersOverride: "table_ok gdt_cct_QosTiersOverride_fields"
  by (simp add: table_evals table_ok_simps)

lemma table_ok_LogResponse: "table_ok gdt_cct_LogResponse_fields"
  by (simp add: table_evals table_ok_simps)

lemma table_ok_ICoreConfiguration: "table_ok logs_proto_mobilesdk_ios_ICoreConfiguration_fields"
  by (simp add: table_evals table_ok_simps)

lemmas table_ok_tables = table_ok_IosClientInfo table_ok_ClientInfo table_ok_NetworkConnectionInfo table_ok_LogEvent table_ok_LogRequest table_ok_BatchedLogRequest table_ok_QosTierConfiguration table_ok_QosTiersOverride table_ok_LogResponse table_ok_ICoreConfiguration

text \<open>All ten message types are without user code, have distinct field numbers of at most 29 bits,
  end with the terminator, and nest at most four deep.\<close>

lemma tables_ok: "list_all (\<lambda>(fs, st, ms). table_ok fs) message_types"
  using table_ok_tables by (simp add: message_types_def)

section \<open>A message in memory\<close>

text \<open>A \<open>gdt_cct_NetworkConnectionInfo\<close> at address 0x1000: both fields present, a Wi-Fi connection
  and an LTE subtype.\<close>

definition example_mem :: mem where
  "example_mem = store_bytes (\<lambda>_. 0) 0x1000 [1,0,0,0, 1,0,0,0, 1,0,0,0, 13,0,0,0]"

text \<open>No user code is registered: there is nothing to call.\<close>

definition no_callbacks :: "'s enc_env" where
  "no_callbacks = \<lparr>ee_callback = (\<lambda>fn m f arg os. (False, os)),
     ee_ext_encode = (\<lambda>fn m ext os. (False, os)), ee_field = (\<lambda>a. PB_LAST_FIELD)\<rparr>"

lemma example_plain: "\<forall>f \<in> set gdt_cct_NetworkConnectionInfo_fields. plain_field f"
  and example_depth: "msg_depth gdt_cct_NetworkConnectionInfo_fields < 2"
  by (simp_all add: gdt_cct_NetworkConnectionInfo_fields_eval table_ok_simps)

lemma example_spec: "msg_spec example_mem gdt_cct_NetworkConnectionInfo_fields 0x1000 = Some [8, 1, 16, 13]"
  by code_simp

lemmas example_facts = example_plain example_depth example_spec

section \<open>The encoder on whole messages\<close>

text \<open>C24: \<open>pb_encode\<close> refines the reference encoding: on every message type without user
  callbacks, with a depth bound that exceeds the nesting of the type, encoding into a
  buffer with room for the message succeeds and leaves exactly the reference bytes at the start of
  the buffer, their number being \<open>bytes_written\<close>. In particular the two passes over
  submessages and packed arrays agree.\<close>

lemma pb_encode_refines_spec:
  assumes "\<forall>f \<in> set fs. plain_field f" and "msg_depth fs < n"
    and "msg_spec m fs src = Some bs"
    and "unat sz \<le> length buf" and "length bs \<le> unat sz"
  shows "\<exists>os'. pb_encode n env m (pb_ostream_from_buffer buf sz) fs src = Some (True, os') \<and>
    unat (os_bytes_written os') = length bs \<and>
    take (unat (os_bytes_written os')) (ob_mem (os_state os')) = bs"
proof -
  have "length bs < 2 ^ 64" using assms(5) unat_less_64 [of sz] by linarith
  with obuf.refinesD [OF obuf.refines_pb_encode [OF assms(1,2), of env m src]] assms(3)
  obtain E where E: "\<And>os. pb_encode n env m os fs src = Some (E os)" "obuf.encodes E bs" by metis
  from obuf_run [OF E(2) assms(4,5)] E(1) show ?thesis by metis
qed

lemma pb_encode_refines_spec_witness:
  "\<exists>os'. pb_encode 2 no_callbacks example_mem (pb_ostream_from_buffer (replicate 16 0) 16)
      gdt_cct_NetworkConnectionInfo_fields 0x1000 = Some (True, os') \<and>
    unat (os_bytes_written os') = length [8, 1, 16, 13 :: byte] \<and>
    take (unat (os_bytes_written os')) (ob_mem (os_state os')) = [8, 1, 16, 13]"
  by (rule pb_encode_refines_spec [OF example_facts]) simp_all

text \<open>C27: \<open>pb_get_encoded_size\<close> returns the number of bytes of the reference encoding, and
  fails exactly on the messages that have none.\<close>

lemma pb_get_encoded_size_spec:
  assumes "\<forall>f \<in> set fs. plain_field f" and "msg_depth fs < n"
    and "\<forall>bs. msg_spec m fs src = Some bs \<longrightarrow> length bs < 2 ^ 64"
  shows "pb_get_encoded_size n env m (s :: obuf) fs src
    = Some (map_option (\<lambda>bs. of_nat (length bs)) (msg_spec m fs src))"
proof -
  from obuf.refinesD [OF obuf.refines_pb_encode [OF assms(1,2), of env m src]]
  obtain E where E: "\<And>os. pb_encode n env m os fs src = Some (E os)"
    "\<And>os. msg_spec m fs src = None \<Longrightarrow> \<not> fst (E os)"
    "\<And>bs. msg_spec m fs src = Some bs \<Longrightarrow> length bs < 2 ^ 64 \<Longrightarrow> obuf.encodes E bs" by metis
  show ?thesis
  proof (cases "msg_spec m fs src")
    case None
    then show ?thesis using E(2) [OF None, of "PB_OSTREAM_SIZING s"]
      by (auto simp: pb_get_encoded_size_def E(1) split: prod.split)
  next
    case (Some bs)
    then have "obuf.encodes E bs" using E(3) assms(3) by blast
    from obuf.encodesD(1) [OF this, of "PB_OSTREAM_SIZING s"] Some show ?thesis
      by (simp add: pb_get_encoded_size_def E(1) PB_OSTREAM_SIZING_def)
  qed
qed

lemma pb_get_encoded_size_spec_witness:
  "pb_get_encoded_size 2 no_callbacks example_mem \<lparr>ob_mem = [], ob_pos = 0\<rparr> gdt_cct_NetworkConnectionInfo_fields 0x1000
    = Some (Some 4)"
  using pb_get_encoded_size_spec [OF example_plain example_depth, where m = example_mem and src = "0x1000" and env = no_callbacks and s = "\<lparr>ob_mem = [], ob_pos = 0\<rparr>"]
  by (simp add: example_spec)



text \<open>C29: a message that has no encoding, because a count exceeds its array or a required
  pointer is missing, makes \<open>pb_encode\<close> return false whatever the buffer.\<close>

lemma pb_encode_unencodable:
  assumes "\<forall>f \<in> set fs. plain_field f" and "msg_depth fs < n" and "msg_spec m fs src = None"
  shows "\<exists>os'. pb_encode n env m (os :: obuf pb_ostream) fs src = Some (False, os')"
proof -
  from obuf.refinesD [OF obuf.refines_pb_encode [OF assms(1,2), of env m src]] assms(3)
  obtain E where E: "\<And>os. pb_encode n env m os fs src = Some (E os)" "\<And>os. \<not> fst (E os)" by metis
  with E(1) show ?thesis by (metis (full_types) prod.collapse)
qed

text \<open>A required pointer field, in a message whose pointer is null.\<close>

lemma pb_encode_unencodable_witness:
  "\<exists>os'. pb_encode 2 no_callbacks (\<lambda>_. 0) (pb_ostream_from_buffer [0, 0] 2)
      [PbField 1 0x85 0 0 8 0 PtrNull, PB_LAST_FIELD] 0x1000 = Some (False, os')"
proof (rule pb_encode_unencodable)
  show "\<forall>f \<in> set [PbField 1 0x85 0 0 8 0 PtrNull, PB_LAST_FIELD]. plain_field f"
    and "msg_depth [PbField 1 0x85 0 0 8 0 PtrNull, PB_LAST_FIELD] < 2"
    by (simp_all add: table_ok_simps)
  show "msg_spec (\<lambda>_. 0) [PbField 1 0x85 0 0 8 0 PtrNull, PB_LAST_FIELD] 0x1000 = None" by code_simp
qed

text \<open>\<open>pb_encode_delimited\<close> writes the length of the message and then the message, and
  \<open>pb_encode_nullterminated\<close> writes the message and a zero byte.\<close>

lemma pb_encode_framed:
  assumes "\<forall>f \<in> set fs. plain_field f" and "msg_depth fs < n"
    and "msg_spec m fs src = Some bs"
    and "unat sz \<le> length buf" and "length (delimited bs) \<le> unat sz"
  shows "\<exists>os' os''.
    pb_encode_delimited n env m (pb_ostream_from_buffer buf sz) fs src = Some (True, os') \<and>
    take (unat (os_bytes_written os')) (ob_mem (os_state os')) = delimited bs \<and>
    pb_encode_nullterminated n env m (pb_ostream_from_buffer buf sz) fs src = Some (True, os'') \<and>
    take (unat (os_bytes_written os'')) (ob_mem (os_state os'')) = bs @ [0]"
proof -
  note r = obuf.refines_pb_encode [OF assms(1,2), of env m src]
  have len: "length (delimited bs) < 2 ^ 64" using assms(5) unat_less_64 [of sz] by linarith
  have bs: "length (bs @ [0]) \<le> length (delimited bs)"
    by (simp add: delimited_def Suc_le_eq)
  have "obuf.refines (\<lambda>os. pb_encode_delimited n env m os fs src) (Some (delimited bs))"
    using obuf.refines_submessage [where enc = "pb_encode n env m", OF r] assms(3) by (simp add: pb_encode_delimited_def)
  from obuf.refinesD [OF this] len obtain E where
    E: "\<And>os. pb_encode_delimited n env m os fs src = Some (E os)" "obuf.encodes E (delimited bs)" by metis
  have "obuf.refines (\<lambda>os. Some (pb_write os [0] 1)) (Some [0])"
    using obuf.encodes_write [of "[0]"] by (intro obuf.refines_encodes) simp_all
  from obuf.refines_seq [OF r this]
  have "obuf.refines (\<lambda>os. pb_encode_nullterminated n env m os fs src) (Some (bs @ [0]))"
    using assms(3) by (simp add: pb_encode_nullterminated_def)
  from obuf.refinesD [OF this] le_less_trans [OF bs len] obtain F where
    F: "\<And>os. pb_encode_nullterminated n env m os fs src = Some (F os)" "obuf.encodes F (bs @ [0])" by metis
  from obuf_run [OF E(2) assms(4,5)] obtain os' where
    "E (pb_ostream_from_buffer buf sz) = (True, os')"
    "take (unat (os_bytes_written os')) (ob_mem (os_state os')) = delimited bs" by metis
  moreover from obuf_run [OF F(2) assms(4) le_trans [OF bs assms(5)]] obtain os'' where
    "F (pb_ostream_from_buffer buf sz) = (True, os'')"
    "take (unat (os_bytes_written os'')) (ob_mem (os_state os'')) = bs @ [0]" by metis
  ultimately show ?thesis by (simp add: E(1) F(1))
qed

lemma pb_encode_framed_witness:
  "\<exists>os' os''.
    pb_encode_delimited 2 no_callbacks example_mem (pb_ostream_from_buffer (replicate 16 0) 16)
      gdt_cct_NetworkConnectionInfo_fields 0x1000 = Some (True, os') \<and>
    take (unat (os_bytes_written os')) (ob_mem (os_state os')) = delimited [8, 1, 16, 13] \<and>
    pb_encode_nullterminated 2 no_callbacks example_mem (pb_ostream_from_buffer (replicate 16 0) 16)
      gdt_cct_NetworkConnectionInfo_fields 0x1000 = Some (True, os'') \<and>
    take (unat (os_bytes_written os'')) (ob_mem (os_state os'')) = [8, 1, 16, 13] @ [0]"
  by (rule pb_encode_framed [OF example_facts]) (simp_all add: delimited_def varint_spec_small)

section \<open>Size bounds of the generated header\<close>

definition gdt_cct_NetworkConnectionInfo_size :: nat where
  "gdt_cct_NetworkConnectionInfo_size = 13"

definition gdt_cct_QosTierConfiguration_size :: nat where
  "gdt_cct_QosTierConfiguration_size = 13"

lemma optional_enum_length:
  assumes "field_spec msg m (PbField tag ty d s 4 0 ptr) p = Some bs" and "s \<noteq> 0"
    and "0 < unat tag" and "unat tag < 16"
  shows "ty = 0x10 \<Longrightarrow> length bs \<le> 11"
    and "ty = 0x11 \<Longrightarrow> load32 m p < 128 \<Longrightarrow> length bs \<le> 2"
proof -
  have t: "length (varint_spec (8 * unat tag)) = 1" using assms(4) by (simp add: varint_spec_small)
  show "length bs \<le> 11" if "ty = 0x10"
    using assms(1,2) that t length_varint_64 [of "scast (load32 m p)"]
    by (auto simp: field_spec_def is_pointer_def pb_type_defs tagged_spec_def tag_spec_def
        wire_type_of_def payload_spec_def load_signed_def tag_code_def split: if_splits)
  assume ty: "ty = 0x11" and small: "load32 m p < 128"
  then have "unat (ucast (load32 m p) :: uint64) < 128" by (simp add: unat_ucast_64 word_less_nat_alt)
  then have "length (varint_spec (unat (ucast (load32 m p) :: uint64))) = 1" by (simp add: varint_spec_small)
  with assms(1,2) ty t show "length bs \<le> 2"
    by (auto simp: field_spec_def is_pointer_def pb_type_defs tagged_spec_def tag_spec_def
        wire_type_of_def payload_spec_def load_unsigned_def tag_code_def split: if_splits)
qed

text \<open>The declared values of the two unsigned enums fit in one byte of a varint.\<close>

lemma enum_codes_small:
  "of_int (gdt_cct_NetworkConnectionInfo_MobileSubtype_code e) < (128 :: uint32)"
  "of_int (gdt_cct_QosTierConfiguration_QosTier_code q) < (128 :: uint32)"
  by (cases e; simp) (cases q; simp)

lemma small_places:
  "field_places gdt_cct_NetworkConnectionInfo_fields p =
     [(PbField 1 0x10 4 (- 4) 4 0 (PtrDefault (to_bytes 4 gdt_cct_NetworkConnectionInfo_network_type_default)), p + 4),
      (PbField 2 0x11 4 (- 4) 4 0 (PtrDefault (to_bytes 4 gdt_cct_NetworkConnectionInfo_mobile_subtype_default)), p + 12)]"
  "field_places gdt_cct_QosTierConfiguration_fields p =
     [(PbField 2 0x11 4 (- 4) 4 0 PtrNull, p + 4),
      (PbField 3 0x10 4 (- 4) 4 0 (PtrDefault (to_bytes 4 gdt_cct_QosTierConfiguration_log_source_default)), p + 12)]"
  by (simp_all add: gdt_cct_NetworkConnectionInfo_fields_eval gdt_cct_QosTierConfiguration_fields_eval place_simps)

text \<open>The size constants of the generated header bound the encoded sizes: of a connection
  info whose subtype, and of a tier configuration whose tier, is one of the declared enum
  values.\<close>

lemma generated_sizes:
  assumes "load32 m1 (p1 + 12) = of_int (gdt_cct_NetworkConnectionInfo_MobileSubtype_code e)"
    and "msg_spec m1 gdt_cct_NetworkConnectionInfo_fields p1 = Some bs1"
    and "load32 m2 (p2 + 4) = of_int (gdt_cct_QosTierConfiguration_QosTier_code q)"
    and "msg_spec m2 gdt_cct_QosTierConfiguration_fields p2 = Some bs2"
  shows "length bs1 \<le> gdt_cct_NetworkConnectionInfo_size \<and> length bs2 \<le> gdt_cct_QosTierConfiguration_size"
proof
  from assms(1) enum_codes_small have l1: "load32 m1 (p1 + 12) < 128" by simp
  from assms(3) enum_codes_small have l2: "load32 m2 (p2 + 4) < 128" by simp
  from assms(2) obtain a b where "bs1 = a @ b"
    "field_spec (msg_spec m1) m1 (PbField 1 0x10 4 (- 4) 4 0 (PtrDefault (to_bytes 4 gdt_cct_NetworkConnectionInfo_network_type_default))) (p1 + 4) = Some a"
    "field_spec (msg_spec m1) m1 (PbField 2 0x11 4 (- 4) 4 0 (PtrDefault (to_bytes 4 gdt_cct_NetworkConnectionInfo_mobile_subtype_default))) (p1 + 12) = Some b"
    unfolding msg_spec.simps [of m1 gdt_cct_NetworkConnectionInfo_fields p1] small_places by auto
  with optional_enum_length(1) [OF this(2)] optional_enum_length(2) [OF this(3)] l1
  show "length bs1 \<le> gdt_cct_NetworkConnectionInfo_size" by (simp add: gdt_cct_NetworkConnectionInfo_size_def)
  from assms(4) obtain a b where "bs2 = a @ b"
    "field_spec (msg_spec m2) m2 (PbField 2 0x11 4 (- 4) 4 0 PtrNull) (p2 + 4) = Some a"
    "field_spec (msg_spec m2) m2 (PbField 3 0x10 4 (- 4) 4 0 (PtrDefault (to_bytes 4 gdt_cct_QosTierConfiguration_log_source_default))) (p2 + 12) = Some b"
    unfolding msg_spec.simps [of m2 gdt_cct_QosTierConfiguration_fields p2] small_places by auto
  with optional_enum_length(2) [OF this(2)] optional_enum_length(1) [OF this(3)] l2
  show "length bs2 \<le> gdt_cct_QosTierConfiguration_size" by (simp add: gdt_cct_QosTierConfiguration_size_def)
qed

lemma generated_sizes_witness:
  "length [8, 1, 16, 13 :: byte] \<le> gdt_cct_NetworkConnectionInfo_size \<and>
   length [16, 1, 24, 13 :: byte] \<le> gdt_cct_QosTierConfiguration_size"
proof (rule generated_sizes)
  show "load32 example_mem (0x1000 + 12) = of_int (gdt_cct_NetworkConnectionInfo_MobileSubtype_code
      gdt_cct_NetworkConnectionInfo_MobileSubtype_LTE)" by code_simp
  show "load32 example_mem (0x1000 + 4) = of_int (gdt_cct_QosTierConfiguration_QosTier_code
      gdt_cct_QosTierConfiguration_QosTier_UNMETERED_ONLY)" by code_simp
  show "msg_spec example_mem gdt_cct_NetworkConnectionInfo_fields 0x1000 = Some [8, 1, 16, 13]"
    by (rule example_spec)
  show "msg_spec example_mem gdt_cct_QosTierConfiguration_fields 0x1000 = Some [16, 1, 24, 13]"
    by code_simp
qed

text \<open>\<open>pb_check_proto3_default_value\<close> returns, and decides whether the field is zero in the sense of
  the reference predicate, which looks through nested messages.\<close>

lemma pb_check_proto3_default_value_correct:
  assumes "plain_field f" and "f_tag f \<noteq> 0" and "field_depth f < n"
  shows "pb_check_proto3_default_value n m f p = Some (zero_field m f p)"
  by (rule pb_check_proto3_default_value_spec [OF assms])

lemma pb_check_proto3_default_value_correct_witness:
  "pb_check_proto3_default_value 1 example_mem (PbField 5 0x11 0 0 4 0 PtrNull) 0x1000 = Some False"
proof -
  have "pb_check_proto3_default_value 1 example_mem (PbField 5 0x11 0 0 4 0 PtrNull) 0x1000
      = Some (zero_field example_mem (PbField 5 0x11 0 0 4 0 PtrNull) 0x1000)"
    by (rule pb_check_proto3_default_value_correct) (simp_all add: table_ok_simps)
  moreover have "zero_field example_mem (PbField 5 0x11 0 0 4 0 PtrNull) 0x1000 = False" by code_simp
  ultimately show ?thesis by simp
qed

end
