(* ===== verification/Pb_Release.thy ===== *)
theory Pb_Release
  imports Pb_Common
begin

text \<open>
  Default values and release of messages: \<open>iter_from_extension\<close>,
  \<open>pb_field_set_to_default\<close>, \<open>pb_message_set_to_defaults\<close>,
  \<open>pb_release_single_field\<close> and \<open>pb_release\<close> of \<open>pb_decode.c\<close>.

  As in \<open>Pb_Encode\<close>, the bound \<open>n\<close> limits the nesting depth and the length of
  extension lists, and \<open>None\<close> is the result of a run that reaches the bound or does something
  C does not define (a null field array, a default value shorter than the field).
\<close>

section \<open>Default values\<close>

text \<open>The iterator of a single extension field; the first argument reads the constant field
  description at an address.\<close>

definition iter_from_extension :: "(addr \<Rightarrow> pb_field) \<Rightarrow> mem \<Rightarrow> addr \<Rightarrow> pb_field_iter" where
  "iter_from_extension field_of m extension =
     (let field = field_of (ext_type_arg m (ext_type m extension));
          it = snd (pb_field_iter_begin [field] (ext_dest m extension))
      in it\<lparr>it_pData := (if PB_ATYPE (f_type field) = PB_ATYPE_POINTER then extension + 8
                         else ext_dest m extension),
            it_pSize := AtAddr (ext_found extension)\<rparr>)"

definition memset0 :: "mem \<Rightarrow> addr \<Rightarrow> nat \<Rightarrow> mem" where
  "memset0 m a n = store_bytes m a (replicate n 0)"

text \<open>Reading and writing through \<open>pSize\<close> where it cannot be the decoder's local.\<close>

definition store_at :: "pb_size_ref \<Rightarrow> (addr \<Rightarrow> mem) \<Rightarrow> mem option" where
  "store_at r f = (case r of AtAddr a \<Rightarrow> Some (f a) | FixedCount \<Rightarrow> None)"

definition pb_message_set_to_defaults ::
  "(pb_field_iter \<Rightarrow> mem \<Rightarrow> mem option) \<Rightarrow> pb_field list \<Rightarrow> addr \<Rightarrow> mem \<Rightarrow> mem option" where
  "pb_message_set_to_defaults set_field flds dest_struct m =
     (case pb_field_iter_begin flds dest_struct of
        (ok, it) \<Rightarrow>
          if \<not> ok then Some m
          else map_option snd (for_fields (\<lambda>it m. map_option (Pair True) (set_field it m)) it m))"

text \<open>The loop over an extension list.\<close>

primrec extensions_set_to_default ::
  "nat \<Rightarrow> (addr \<Rightarrow> pb_field) \<Rightarrow> (pb_field_iter \<Rightarrow> mem \<Rightarrow> mem option) \<Rightarrow> addr \<Rightarrow> mem \<Rightarrow> mem option" where
  "extensions_set_to_default 0 field_of set_field ext m = None"
| "extensions_set_to_default (Suc k) field_of set_field ext m =
     (if ext = 0 then Some m
      else
        (let m1 = store_bool m (ext_found ext) False
         in case set_field (iter_from_extension field_of m1 ext) m1 of
              None \<Rightarrow> None
            | Some m2 \<Rightarrow> extensions_set_to_default k field_of set_field (ext_next m2 ext) m2))"

text \<open>The contents of a static field that is not a submessage: its default value or zeros.\<close>

definition default_contents :: "pb_field \<Rightarrow> addr \<Rightarrow> mem \<Rightarrow> mem option" where
  "default_contents field pData m =
     (case f_ptr field of
        PtrNull \<Rightarrow> Some (memset0 m pData (unat (f_data_size field)))
      | PtrDefault bs \<Rightarrow>
          if length bs < unat (f_data_size field) then None
          else Some (store_bytes m pData (take (unat (f_data_size field)) bs))
      | PtrFields _ \<Rightarrow> None)"

primrec pb_field_set_to_default ::
  "nat \<Rightarrow> (addr \<Rightarrow> pb_field) \<Rightarrow> pb_field_iter \<Rightarrow> mem \<Rightarrow> mem option" where
  "pb_field_set_to_default 0 field_of it m = None"
| "pb_field_set_to_default (Suc n) field_of it m =
     (let field = it_field it;
          type = f_type field;
          htype = PB_HTYPE type
      in if PB_LTYPE type = PB_LTYPE_EXTENSION
         then extensions_set_to_default n field_of (pb_field_set_to_default n field_of)
                (load64 m (it_pData it)) m
         else if PB_ATYPE type = PB_ATYPE_STATIC
         then if htype = PB_HTYPE_REPEATED \<or> htype = PB_HTYPE_ONEOF
              then store_at (it_pSize it) (\<lambda>a. store32 m a 0)
              else
                (case (if htype = PB_HTYPE_OPTIONAL \<and> it_pSize it \<noteq> AtAddr (it_pData it)
                       then store_at (it_pSize it) (\<lambda>a. store_bool m a False) else Some m) of
                   None \<Rightarrow> None
                 | Some m \<Rightarrow>
                     if PB_LTYPE type = PB_LTYPE_SUBMESSAGE
                     then (case f_ptr field of
                             PtrFields flds \<Rightarrow>
                               pb_message_set_to_defaults (pb_field_set_to_default n field_of)
                                 flds (it_pData it) m
                           | _ \<Rightarrow> None)
                     else default_contents field (it_pData it) m)
         else if PB_ATYPE type = PB_ATYPE_POINTER
         then (let m = store64 m (it_pData it) 0
               in if htype = PB_HTYPE_REPEATED \<or> htype = PB_HTYPE_ONEOF
                  then store_at (it_pSize it) (\<lambda>a. store32 m a 0)
                  else Some m)
         else Some m)"

section \<open>Release\<close>

definition pb_release ::
  "(pb_field_iter \<Rightarrow> pb_heap \<Rightarrow> pb_heap option) \<Rightarrow> pb_field list \<Rightarrow> addr \<Rightarrow> pb_heap \<Rightarrow> pb_heap option" where
  "pb_release release_field flds dest_struct h =
     (if dest_struct = 0 then Some h
      else case pb_field_iter_begin flds dest_struct of
        (ok, it) \<Rightarrow>
          if \<not> ok then Some h
          else map_option snd (for_fields (\<lambda>it h. map_option (Pair True) (release_field it h)) it h))"

primrec release_extensions ::
  "nat \<Rightarrow> (addr \<Rightarrow> pb_field) \<Rightarrow> (pb_field_iter \<Rightarrow> pb_heap \<Rightarrow> pb_heap option) \<Rightarrow> addr \<Rightarrow> pb_heap \<Rightarrow>
     pb_heap option" where
  "release_extensions 0 field_of release_field ext h = None"
| "release_extensions (Suc k) field_of release_field ext h =
     (if ext = 0 then Some h
      else case release_field (iter_from_extension field_of (h_mem h) ext) h of
        None \<Rightarrow> None
      | Some h \<Rightarrow> release_extensions k field_of release_field (ext_next (h_mem h) ext) h)"

text \<open>The loops \<open>while (count--)\<close> over the entries of an array.\<close>

primrec release_entries ::
  "nat \<Rightarrow> (addr \<Rightarrow> pb_heap \<Rightarrow> pb_heap option) \<Rightarrow> pb_size_t \<Rightarrow> addr \<Rightarrow> pb_heap \<Rightarrow> pb_heap option" where
  "release_entries 0 f data_size pItem h = Some h"
| "release_entries (Suc k) f data_size pItem h =
     (case f pItem h of
        None \<Rightarrow> None
      | Some h \<Rightarrow> release_entries k f data_size (pItem + ucast data_size) h)"

primrec free_entries :: "nat \<Rightarrow> addr \<Rightarrow> pb_heap \<Rightarrow> pb_heap" where
  "free_entries 0 pItem h = h"
| "free_entries (Suc k) pItem h =
     free_entries k (pItem + 8)
       (h_upd (\<lambda>m. store64 m pItem 0) (pb_free h (load64 (h_mem h) pItem)))"

definition load_at :: "pb_size_ref \<Rightarrow> mem \<Rightarrow> pb_size_t option" where
  "load_at r m = (case r of AtAddr a \<Rightarrow> Some (load32 m a) | FixedCount \<Rightarrow> None)"

text \<open>How many submessages the field holds. A count beyond a static array is cut off.\<close>

definition release_count :: "pb_field_iter \<Rightarrow> mem \<Rightarrow> pb_size_t option" where
  "release_count it m =
     (let field = it_field it; type = f_type field;
          static = (PB_ATYPE type = PB_ATYPE_STATIC)
      in if PB_HTYPE type \<noteq> PB_HTYPE_REPEATED then Some 1
         else map_option
                (\<lambda>count. if static \<and> count > f_array_size field then f_array_size field else count)
                (if static \<and> it_pSize it = AtAddr (it_pData it) then Some (f_array_size field)
                 else load_at (it_pSize it) m))"

text \<open>The first part of \<open>pb_release_single_field\<close>: what an extension list or a submessage
  holds.\<close>

definition release_contents ::
  "nat \<Rightarrow> (addr \<Rightarrow> pb_field) \<Rightarrow> (pb_field_iter \<Rightarrow> pb_heap \<Rightarrow> pb_heap option) \<Rightarrow>
     pb_field_iter \<Rightarrow> pb_heap \<Rightarrow> pb_heap option" where
  "release_contents n field_of release_field it h =
     (let field = it_field it; type = f_type field
      in if PB_LTYPE type = PB_LTYPE_EXTENSION
         then release_extensions n field_of release_field (load64 (h_mem h) (it_pData it)) h
         else if PB_LTYPE type = PB_LTYPE_SUBMESSAGE
         then
           (let pItem = (if PB_ATYPE type = PB_ATYPE_POINTER
                         then load64 (h_mem h) (it_pData it) else it_pData it)
            in case release_count it (h_mem h) of
                 None \<Rightarrow> None
               | Some count \<Rightarrow>
                   if pItem = 0 then Some h
                   else
                     (case f_ptr field of
                        PtrFields flds \<Rightarrow>
                          release_entries (unat count) (pb_release release_field flds)
                            (f_data_size field) pItem h
                      | _ \<Rightarrow> if count = 0 then Some h else None))
         else Some h)"

text \<open>The second part: the allocation of a pointer field itself.\<close>

definition release_pointer :: "pb_field_iter \<Rightarrow> pb_heap \<Rightarrow> pb_heap option" where
  "release_pointer it h =
     (let type = f_type (it_field it);
          repeated = (PB_HTYPE type = PB_HTYPE_REPEATED)
      in if PB_ATYPE type \<noteq> PB_ATYPE_POINTER then Some h
         else
           (case (if repeated then load_at (it_pSize it) (h_mem h) else Some 0) of
              None \<Rightarrow> None
            | Some count \<Rightarrow>
                (let h1 = (if repeated \<and> (PB_LTYPE type = PB_LTYPE_STRING \<or> PB_LTYPE type = PB_LTYPE_BYTES)
                           then free_entries (unat count) (load64 (h_mem h) (it_pData it)) h else h);
                     h2 = (case it_pSize it of
                             AtAddr a \<Rightarrow> if repeated then h_upd (\<lambda>m. store32 m a 0) h1 else h1
                           | FixedCount \<Rightarrow> h1)
                 in Some (h_upd (\<lambda>m. store64 m (it_pData it) 0)
                            (pb_free h2 (load64 (h_mem h2) (it_pData it)))))))"

primrec pb_release_single_field ::
  "nat \<Rightarrow> (addr \<Rightarrow> pb_field) \<Rightarrow> pb_field_iter \<Rightarrow> pb_heap \<Rightarrow> pb_heap option" where
  "pb_release_single_field 0 field_of it h = None"
| "pb_release_single_field (Suc n) field_of it h =
     (let type = f_type (it_field it)
      in case (if PB_HTYPE type = PB_HTYPE_ONEOF
               then map_option (\<lambda>w. w = f_tag (it_field it)) (load_at (it_pSize it) (h_mem h))
               else Some True) of
           None \<Rightarrow> None
         | Some False \<Rightarrow> Some h
         | Some True \<Rightarrow>
             (case release_contents n field_of (pb_release_single_field n field_of) it h of
                None \<Rightarrow> None
              | Some h \<Rightarrow> release_pointer it h))"

end
