(* ===== verification/Pb_Decode.thy ===== *)
theory Pb_Decode
  imports Pb_Wire Pb_Release
begin

text \<open>
  The message decoder: the ``Decode a single field'', ``Decode all fields'' and ``Field
  decoders'' parts of \<open>pb_decode.c\<close>.

  The state of a decoding run is the input stream, the heap with the message struct, and the local
  \<open>fixed_count_size\<close> of the running \<open>pb_decode_noinit\<close>, to which \<open>pSize\<close> may
  point. The C functions are mutually recursive through \<open>pb_decode_noinit\<close>; each takes the
  recursive call as an argument \<open>noinit\<close>, and the knot is tied with a bound \<open>n\<close> on the
  nesting depth, on the length of extension lists and on the number of calls of one field
  callback. \<open>None\<close> is the result of a run that reaches the bound or that C does not define.

  The user's callbacks are a parameter: \<open>dec_env\<close> maps function pointers to their effect on
  the stream and the heap, and the address of a constant field description to that description.
\<close>

section \<open>State and environment\<close>

record 'c dstate =
  d_stream :: "'c pb_istream"
  d_heap :: pb_heap
  d_fixed :: pb_size_t

record 'c dec_env =
  de_callback :: "addr \<Rightarrow> pb_field \<Rightarrow> addr \<Rightarrow> 'c pb_istream \<Rightarrow> pb_heap \<Rightarrow>
    bool \<times> 'c pb_istream \<times> pb_heap"
  de_ext_decode :: "addr \<Rightarrow> addr \<Rightarrow> uint32 \<Rightarrow> pb_wire_type_t \<Rightarrow> 'c pb_istream \<Rightarrow> pb_heap \<Rightarrow>
    bool \<times> 'c pb_istream \<times> pb_heap"
  de_field :: "addr \<Rightarrow> pb_field"

type_synonym 'c dresult = "(bool \<times> 'c dstate) option"
type_synonym 'c pb_decode_fn = "'c dstate \<Rightarrow> pb_field list \<Rightarrow> addr \<Rightarrow> 'c dresult"
type_synonym 'c pb_decoder_t = "'c dstate \<Rightarrow> pb_field \<Rightarrow> addr \<Rightarrow> 'c dresult"

definition d_mem :: "'c dstate \<Rightarrow> mem" where
  "d_mem st = h_mem (d_heap st)"

definition d_upd :: "(mem \<Rightarrow> mem) \<Rightarrow> 'c dstate \<Rightarrow> 'c dstate" where
  "d_upd f st = st\<lparr>d_heap := h_upd f (d_heap st)\<rparr>"

definition d_set_stream :: "'c pb_istream \<Rightarrow> 'c dstate \<Rightarrow> 'c dstate" where
  "d_set_stream s st = st\<lparr>d_stream := s\<rparr>"

definition d_error :: "'c dstate \<Rightarrow> string \<Rightarrow> bool \<times> 'c dstate" where
  "d_error st msg = (False, d_set_stream (is_error (d_stream st) msg) st)"

text \<open>Running a decoder that reads a value, and storing the value.\<close>

definition d_read_value ::
  "('c pb_istream \<Rightarrow> 'v option \<times> 'c pb_istream) \<Rightarrow> 'c dstate \<Rightarrow>
     ('v \<Rightarrow> 'c dstate \<Rightarrow> 'c dresult) \<Rightarrow> 'c dresult" where
  "d_read_value R st k =
     (case R (d_stream st) of
        (None, s) \<Rightarrow> Some (False, d_set_stream s st)
      | (Some v, s) \<Rightarrow> k v (d_set_stream s st))"

text \<open>The count a \<open>pSize\<close> refers to.\<close>

definition load_size :: "'c dstate \<Rightarrow> pb_size_ref \<Rightarrow> pb_size_t" where
  "load_size st r = (case r of AtAddr a \<Rightarrow> load32 (d_mem st) a | FixedCount \<Rightarrow> d_fixed st)"

definition store_size :: "'c dstate \<Rightarrow> pb_size_ref \<Rightarrow> pb_size_t \<Rightarrow> 'c dstate" where
  "store_size st r v =
     (case r of AtAddr a \<Rightarrow> d_upd (\<lambda>m. store32 m a v) st | FixedCount \<Rightarrow> st\<lparr>d_fixed := v\<rparr>)"

text \<open>The address of an array entry. Both factors are of type \<open>pb_size_t\<close>, so the product
  has 32 bits.\<close>

definition item_addr :: "addr \<Rightarrow> pb_size_t \<Rightarrow> pb_size_t \<Rightarrow> addr" where
  "item_addr base data_size i = base + ucast (data_size * i)"

section \<open>Allocation\<close>

definition allocate_field :: "'c dstate \<Rightarrow> addr \<Rightarrow> size_t \<Rightarrow> size_t \<Rightarrow> bool \<times> 'c dstate" where
  "allocate_field st pData data_size array_size =
     (let ptr = load64 (d_mem st) pData;
          check_limit = push_bit 32 1 :: size_t;
          size_max = - 1 :: size_t
      in if data_size = 0 \<or> array_size = 0 then d_error st ''invalid size''
         else if (data_size \<ge> check_limit \<or> array_size \<ge> check_limit) \<and>
                 size_max div array_size < data_size
         then d_error st ''size too large''
         else
           (case pb_realloc (d_heap st) ptr (array_size * data_size) of
              (ptr, h) \<Rightarrow>
                (let st = st\<lparr>d_heap := h\<rparr>
                 in if ptr = 0 then d_error st ''realloc failed''
                    else (True, d_upd (\<lambda>m. store64 m pData ptr) st))))"

text \<open>\<open>memset\<close> and the default values, for a new submessage.\<close>

definition fresh_submessage ::
  "nat \<Rightarrow> (addr \<Rightarrow> pb_field) \<Rightarrow> pb_field \<Rightarrow> addr \<Rightarrow> mem \<Rightarrow> mem option" where
  "fresh_submessage n field_of field p m =
     (case f_ptr field of
        PtrFields flds \<Rightarrow>
          pb_message_set_to_defaults (pb_field_set_to_default n field_of) flds p
            (memset0 m p (unat (f_data_size field)))
      | _ \<Rightarrow> None)"

definition initialize_pointer_field ::
  "nat \<Rightarrow> (addr \<Rightarrow> pb_field) \<Rightarrow> addr \<Rightarrow> pb_field_iter \<Rightarrow> mem \<Rightarrow> mem option" where
  "initialize_pointer_field n field_of pItem it m =
     (let ltype = PB_LTYPE (f_type (it_field it))
      in if ltype = PB_LTYPE_STRING \<or> ltype = PB_LTYPE_BYTES then Some (store64 m pItem 0)
         else if ltype = PB_LTYPE_SUBMESSAGE
         then fresh_submessage n field_of (it_field it) pItem m
         else Some m)"

text \<open>Continuing with a new memory.\<close>

definition d_with_mem :: "mem option \<Rightarrow> 'c dstate \<Rightarrow> ('c dstate \<Rightarrow> 'c dresult) \<Rightarrow> 'c dresult" where
  "d_with_mem r st k = (case r of None \<Rightarrow> None | Some m \<Rightarrow> k (d_upd (\<lambda>_. m) st))"

section \<open>Field decoders\<close>

text \<open>The value is stored before it is compared with what was read. For fields of up to 32
  bits the value is first cast to \<open>int32_t\<close>.\<close>

definition pb_dec_varint :: "'c pb_decoder_t" where
  "pb_dec_varint st field dest =
     d_read_value pb_decode_varint st (\<lambda>value st.
       let svalue = (if f_data_size field = 8 then value else scast (ucast value :: uint32)) :: uint64;
           store = (\<lambda>put clamped. if clamped \<noteq> svalue
                       then Some (d_error (d_upd put st) ''integer too large'')
                       else Some (True, d_upd put st))
       in if f_data_size field = 8 then store (\<lambda>m. store64 m dest svalue) svalue
          else if f_data_size field = 4
          then store (\<lambda>m. store32 m dest (ucast svalue)) (scast (ucast svalue :: uint32))
          else if f_data_size field = 2
          then store (\<lambda>m. store16 m dest (ucast svalue)) (scast (ucast svalue :: uint16))
          else if f_data_size field = 1
          then store (\<lambda>m. store8 m dest (ucast svalue)) (scast (ucast svalue :: uint8))
          else Some (d_error st ''invalid data_size''))"

definition pb_dec_uvarint :: "'c pb_decoder_t" where
  "pb_dec_uvarint st field dest =
     d_read_value pb_decode_varint st (\<lambda>value st.
       let store = (\<lambda>put clamped. if clamped \<noteq> value
                       then Some (d_error (d_upd put st) ''integer too large'')
                       else Some (True, d_upd put st))
       in if f_data_size field = 8 then store (\<lambda>m. store64 m dest value) value
          else if f_data_size field = 4
          then store (\<lambda>m. store32 m dest (ucast value)) (ucast (ucast value :: uint32))
          else if f_data_size field = 2
          then store (\<lambda>m. store16 m dest (ucast value)) (ucast (ucast value :: uint16))
          else if f_data_size field = 1
          then store (\<lambda>m. store8 m dest (ucast value)) (ucast (ucast value :: uint8))
          else Some (d_error st ''invalid data_size''))"

definition pb_dec_svarint :: "'c pb_decoder_t" where
  "pb_dec_svarint st field dest =
     d_read_value pb_decode_svarint st (\<lambda>value st.
       let store = (\<lambda>put clamped. if clamped \<noteq> value
                       then Some (d_error (d_upd put st) ''integer too large'')
                       else Some (True, d_upd put st))
       in if f_data_size field = 8 then store (\<lambda>m. store64 m dest value) value
          else if f_data_size field = 4
          then store (\<lambda>m. store32 m dest (ucast value)) (scast (ucast value :: uint32))
          else if f_data_size field = 2
          then store (\<lambda>m. store16 m dest (ucast value)) (scast (ucast value :: uint16))
          else if f_data_size field = 1
          then store (\<lambda>m. store8 m dest (ucast value)) (scast (ucast value :: uint8))
          else Some (d_error st ''invalid data_size''))"

definition pb_dec_fixed32 :: "'c pb_decoder_t" where
  "pb_dec_fixed32 st field dest =
     (case pb_decode_fixed32 (d_stream st) (d_mem st) dest of
        (ok, s, m) \<Rightarrow> Some (ok, d_set_stream s (d_upd (\<lambda>_. m) st)))"

definition pb_dec_fixed64 :: "'c pb_decoder_t" where
  "pb_dec_fixed64 st field dest =
     (case pb_decode_fixed64 (d_stream st) (d_mem st) dest of
        (ok, s, m) \<Rightarrow> Some (ok, d_set_stream s (d_upd (\<lambda>_. m) st)))"

text \<open>\<open>pb_read\<close> into memory: the bytes the stream delivered are at the destination, also when
  the read failed.\<close>

definition d_read_to :: "'c dstate \<Rightarrow> addr \<Rightarrow> size_t \<Rightarrow> bool \<times> 'c dstate" where
  "d_read_to st dest count =
     (case pb_read (d_stream st) True count of
        (ok, bs, s) \<Rightarrow> (ok, d_set_stream s (d_upd (\<lambda>m. store_bytes m dest bs) st)))"

definition pb_dec_bytes :: "'c pb_decoder_t" where
  "pb_dec_bytes st field dest =
     d_read_value pb_decode_varint32 st (\<lambda>sz st.
       let alloc_size = ucast sz + 4 :: size_t;
           finish = (\<lambda>bdest st. Some (d_read_to (d_upd (\<lambda>m. store32 m bdest sz) st) (bdest + 4) (ucast sz)))
       in if sz > PB_SIZE_MAX then Some (d_error st ''bytes overflow'')
          else if ucast sz > alloc_size then Some (d_error st ''size too large'')
          else if PB_ATYPE (f_type field) = PB_ATYPE_POINTER
          then seq_call (Some (allocate_field st dest alloc_size 1))
                 (\<lambda>st. finish (load64 (d_mem st) dest) st)
          else if alloc_size > ucast (f_data_size field) then Some (d_error st ''bytes overflow'')
          else finish dest st)"

definition pb_dec_string :: "'c pb_decoder_t" where
  "pb_dec_string st field dest =
     d_read_value pb_decode_varint32 st (\<lambda>sz st.
       let alloc_size = ucast (sz + 1) :: size_t;
           finish = (\<lambda>dest st. case d_read_to st dest (ucast sz) of
               (status, st) \<Rightarrow> Some (status, d_upd (\<lambda>m. store8 m (dest + ucast sz) 0) st))
       in if alloc_size < ucast sz then Some (d_error st ''size too large'')
          else if PB_ATYPE (f_type field) = PB_ATYPE_POINTER
          then seq_call (Some (allocate_field st dest alloc_size 1))
                 (\<lambda>st. finish (load64 (d_mem st) dest) st)
          else if alloc_size > ucast (f_data_size field) then Some (d_error st ''string overflow'')
          else finish dest st)"

text \<open>Decoding within a substream. On entry the substream replaces the stream; afterwards the
  parent stream is put back and the substream closed.\<close>

definition d_close :: "'c pb_istream \<Rightarrow> 'c dstate \<Rightarrow> bool \<times> 'c dstate" where
  "d_close parent st =
     (case pb_close_string_substream parent (d_stream st) of (ok, s) \<Rightarrow> (ok, d_set_stream s st))"

definition d_substream ::
  "'c dstate \<Rightarrow> ('c pb_istream \<Rightarrow> 'c dstate \<Rightarrow> 'c dresult) \<Rightarrow> 'c dresult" where
  "d_substream st k =
     (case pb_make_string_substream (d_stream st) of
        (None, s) \<Rightarrow> Some (False, d_set_stream s st)
      | (Some sub, s) \<Rightarrow> k s (d_set_stream sub st))"

definition d_finish_sub :: "'c pb_istream \<Rightarrow> 'c dresult \<Rightarrow> 'c dresult" where
  "d_finish_sub parent r =
     (case r of
        None \<Rightarrow> None
      | Some (status, st) \<Rightarrow>
          (case d_close parent st of (ok, st) \<Rightarrow> Some (if \<not> ok then (False, st) else (status, st))))"

text \<open>\<open>pb_decode\<close>, given \<open>pb_decode_noinit\<close>.\<close>

definition pb_decode_with ::
  "nat \<Rightarrow> (addr \<Rightarrow> pb_field) \<Rightarrow> 'c pb_decode_fn \<Rightarrow> 'c pb_decode_fn" where
  "pb_decode_with n field_of noinit st flds dest_struct =
     d_with_mem (pb_message_set_to_defaults (pb_field_set_to_default n field_of) flds dest_struct (d_mem st))
       st (\<lambda>st.
         case noinit st flds dest_struct of
           None \<Rightarrow> None
         | Some (status, st) \<Rightarrow>
             if status then Some (True, st)
             else map_option (\<lambda>h. (False, st\<lparr>d_heap := h\<rparr>))
                    (pb_release (pb_release_single_field n field_of) flds dest_struct (d_heap st)))"

definition pb_dec_submessage :: "nat \<Rightarrow> (addr \<Rightarrow> pb_field) \<Rightarrow> 'c pb_decode_fn \<Rightarrow> 'c pb_decoder_t" where
  "pb_dec_submessage n field_of noinit st field dest =
     d_substream st (\<lambda>parent st.
       case f_ptr field of
         PtrNull \<Rightarrow> Some (d_error (d_set_stream parent st) ''invalid field descriptor'')
       | PtrFields flds \<Rightarrow>
           d_finish_sub parent
             (if PB_HTYPE (f_type field) = PB_HTYPE_REPEATED
              then pb_decode_with n field_of noinit st flds dest
              else noinit st flds dest)
       | PtrDefault _ \<Rightarrow> None)"

definition pb_dec_fixed_length_bytes :: "'c pb_decoder_t" where
  "pb_dec_fixed_length_bytes st field dest =
     d_read_value pb_decode_varint32 st (\<lambda>sz st.
       if sz > PB_SIZE_MAX then Some (d_error st ''bytes overflow'')
       else if sz = 0
       then Some (True, d_upd (\<lambda>m. memset0 m dest (unat (f_data_size field))) st)
       else if sz \<noteq> f_data_size field
       then Some (d_error st ''incorrect fixed length bytes size'')
       else Some (d_read_to st dest (ucast (f_data_size field))))"

definition PB_DECODERS ::
  "nat \<Rightarrow> (addr \<Rightarrow> pb_field) \<Rightarrow> 'c pb_decode_fn \<Rightarrow> pb_type_t \<Rightarrow> 'c pb_decoder_t" where
  "PB_DECODERS n field_of noinit ltype =
     (if ltype = PB_LTYPE_VARINT then pb_dec_varint
      else if ltype = PB_LTYPE_UVARINT then pb_dec_uvarint
      else if ltype = PB_LTYPE_SVARINT then pb_dec_svarint
      else if ltype = PB_LTYPE_FIXED32 then pb_dec_fixed32
      else if ltype = PB_LTYPE_FIXED64 then pb_dec_fixed64
      else if ltype = PB_LTYPE_BYTES then pb_dec_bytes
      else if ltype = PB_LTYPE_STRING then pb_dec_string
      else if ltype = PB_LTYPE_SUBMESSAGE then pb_dec_submessage n field_of noinit
      else if ltype = PB_LTYPE_FIXED_LENGTH_BYTES then pb_dec_fixed_length_bytes
      else (\<lambda>st field dest. None))"

section \<open>Decoding one field\<close>

text \<open>The loop over a packed array in a static field. Its bound is never reached: every
  entry takes at least one byte.\<close>

primrec packed_static_loop ::
  "nat \<Rightarrow> 'c pb_decoder_t \<Rightarrow> pb_field_iter \<Rightarrow> 'c dstate \<Rightarrow> 'c dresult" where
  "packed_static_loop 0 func it st = None"
| "packed_static_loop (Suc k) func it st =
     (let field = it_field it; sz = load_size st (it_pSize it)
      in if is_bytes_left (d_stream st) > 0 \<and> sz < f_array_size field
         then (case func st field (item_addr (it_pData it) (f_data_size field) sz) of
                 None \<Rightarrow> None
               | Some (ok, st) \<Rightarrow>
                   if \<not> ok then Some (False, st)
                   else packed_static_loop k func it
                          (store_size st (it_pSize it) (load_size st (it_pSize it) + 1)))
         else Some (True, st))"

definition decode_static_field ::
  "nat \<Rightarrow> (addr \<Rightarrow> pb_field) \<Rightarrow> 'c pb_decode_fn \<Rightarrow> 'c dstate \<Rightarrow> pb_wire_type_t \<Rightarrow> pb_field_iter \<Rightarrow>
     'c dresult" where
  "decode_static_field n field_of noinit st wire_type it =
     (let field = it_field it; type = f_type field; htype = PB_HTYPE type;
          func = PB_DECODERS n field_of noinit (PB_LTYPE type)
      in if htype = PB_HTYPE_REQUIRED then func st field (it_pData it)
         else if htype = PB_HTYPE_OPTIONAL
         then (if it_pSize it \<noteq> AtAddr (it_pData it)
               then d_with_mem (store_at (it_pSize it) (\<lambda>a. store_bool (d_mem st) a True)) st
                      (\<lambda>st. func st field (it_pData it))
               else func st field (it_pData it))
         else if htype = PB_HTYPE_REPEATED
         then if wire_type = PB_WT_STRING \<and> PB_LTYPE type \<le> PB_LTYPE_LAST_PACKABLE
              then d_substream st (\<lambda>parent st.
                     case packed_static_loop (Suc (unat (is_bytes_left (d_stream st)))) func it st of
                       None \<Rightarrow> None
                     | Some (status, st) \<Rightarrow>
                         if is_bytes_left (d_stream st) \<noteq> 0
                         then Some (d_error (d_set_stream parent st) ''array overflow'')
                         else d_finish_sub parent (Some (status, st)))
              else
                (let sz = load_size st (it_pSize it);
                     pItem = item_addr (it_pData it) (f_data_size field) sz;
                     st = store_size st (it_pSize it) (sz + 1)
                 in if sz \<ge> f_array_size field then Some (d_error st ''array overflow'')
                    else func st field pItem)
         else
           (let st = store_size st (it_pSize it) (f_tag field)
            in if PB_LTYPE type = PB_LTYPE_SUBMESSAGE
               then d_with_mem (fresh_submessage n field_of field (it_pData it) (d_mem st)) st
                      (\<lambda>st. func st field (it_pData it))
               else func st field (it_pData it)))"

text \<open>The loop over a packed array in a pointer field. The result carries the parent stream,
  whose error message the loop may set. A zero \<open>data_size\<close> would be a division by zero.\<close>

primrec packed_pointer_loop ::
  "nat \<Rightarrow> nat \<Rightarrow> (addr \<Rightarrow> pb_field) \<Rightarrow> 'c pb_decoder_t \<Rightarrow> pb_field_iter \<Rightarrow> size_t \<Rightarrow>
     'c pb_istream \<Rightarrow> 'c dstate \<Rightarrow> (bool \<times> 'c pb_istream \<times> 'c dstate) option" where
  "packed_pointer_loop 0 n field_of func it allocated_size parent st = None"
| "packed_pointer_loop (Suc k) n field_of func it allocated_size parent st =
     (let field = it_field it; ds = f_data_size field; pSize = it_pSize it
      in if is_bytes_left (d_stream st) = 0 then Some (True, parent, st)
         else
           (let grow = (ucast (load_size st pSize) + 1 > allocated_size);
                allocated_size' = (if grow
                  then allocated_size + ((is_bytes_left (d_stream st) - 1) div ucast ds + 1)
                  else allocated_size)
            in if grow \<and> ds = 0 then None
               else
                 (case (if grow then allocate_field st (it_pData it) (ucast ds) allocated_size'
                        else (True, st)) of
                    (False, st) \<Rightarrow> Some (False, parent, st)
                  | (True, st) \<Rightarrow>
                      (let pItem = item_addr (load64 (d_mem st) (it_pData it)) ds (load_size st pSize)
                       in case initialize_pointer_field n field_of pItem it (d_mem st) of
                            None \<Rightarrow> None
                          | Some m \<Rightarrow>
                              (case func (d_upd (\<lambda>_. m) st) field pItem of
                                 None \<Rightarrow> None
                               | Some (False, st) \<Rightarrow> Some (False, parent, st)
                               | Some (True, st) \<Rightarrow>
                                   if load_size st pSize = PB_SIZE_MAX
                                   then Some (False,
                                          parent\<lparr>is_errmsg := Some ''too many array entries''\<rparr>, st)
                                   else packed_pointer_loop k n field_of func it allocated_size' parent
                                          (store_size st pSize (load_size st pSize + 1)))))))"

text \<open>A single item in a pointer field.\<close>

definition decode_pointer_single ::
  "nat \<Rightarrow> (addr \<Rightarrow> pb_field) \<Rightarrow> 'c pb_decoder_t \<Rightarrow> 'c dstate \<Rightarrow> pb_field_iter \<Rightarrow> 'c dresult" where
  "decode_pointer_single n field_of func st it =
     (let field = it_field it; ltype = PB_LTYPE (f_type field)
      in case (if ltype = PB_LTYPE_SUBMESSAGE \<and> load64 (d_mem st) (it_pData it) \<noteq> 0
               then pb_release_single_field n field_of it (d_heap st)
               else Some (d_heap st)) of
           None \<Rightarrow> None
         | Some h \<Rightarrow>
             (let st = st\<lparr>d_heap := h\<rparr>;
                  st = (if PB_HTYPE (f_type field) = PB_HTYPE_ONEOF
                        then store_size st (it_pSize it) (f_tag field) else st)
              in if ltype = PB_LTYPE_STRING \<or> ltype = PB_LTYPE_BYTES
                 then func st field (it_pData it)
                 else seq_call (Some (allocate_field st (it_pData it) (ucast (f_data_size field)) 1))
                        (\<lambda>st. let p = load64 (d_mem st) (it_pData it)
                               in d_with_mem (initialize_pointer_field n field_of p it (d_mem st)) st
                                    (\<lambda>st. func st field (load64 (d_mem st) (it_pData it))))))"

definition decode_pointer_field ::
  "nat \<Rightarrow> (addr \<Rightarrow> pb_field) \<Rightarrow> 'c pb_decode_fn \<Rightarrow> 'c dstate \<Rightarrow> pb_wire_type_t \<Rightarrow> pb_field_iter \<Rightarrow>
     'c dresult" where
  "decode_pointer_field n field_of noinit st wire_type it =
     (let field = it_field it; type = f_type field;
          func = PB_DECODERS n field_of noinit (PB_LTYPE type)
      in if PB_HTYPE type \<noteq> PB_HTYPE_REPEATED then decode_pointer_single n field_of func st it
         else if wire_type = PB_WT_STRING \<and> PB_LTYPE type \<le> PB_LTYPE_LAST_PACKABLE
         then
           (let allocated_size = ucast (load_size st (it_pSize it))
            in d_substream st (\<lambda>parent st.
                 case packed_pointer_loop (Suc (unat (is_bytes_left (d_stream st)))) n field_of func it
                        allocated_size parent st of
                   None \<Rightarrow> None
                 | Some (status, parent, st) \<Rightarrow> d_finish_sub parent (Some (status, st))))
         else
           (let sz = load_size st (it_pSize it)
            in if sz = PB_SIZE_MAX then Some (d_error st ''too many array entries'')
               else
                 seq_call
                   (Some (allocate_field (store_size st (it_pSize it) (sz + 1)) (it_pData it)
                            (ucast (f_data_size field))
                            (ucast (load_size (store_size st (it_pSize it) (sz + 1)) (it_pSize it)))))
                   (\<lambda>st. let pItem = item_addr (load64 (d_mem st) (it_pData it)) (f_data_size field)
                                       (load_size st (it_pSize it) - 1)
                         in d_with_mem (initialize_pointer_field n field_of pItem it (d_mem st)) st
                              (\<lambda>st. func st field pItem))))"

section \<open>Callback fields\<close>

text \<open>The \<open>do ... while (substream.bytes_left)\<close> loop around the user's callback, which may
  not read anything.\<close>

primrec callback_loop ::
  "nat \<Rightarrow> 'c dec_env \<Rightarrow> addr \<Rightarrow> pb_field \<Rightarrow> addr \<Rightarrow> 'c dstate \<Rightarrow> 'c dresult" where
  "callback_loop 0 env fn field arg st = None"
| "callback_loop (Suc k) env fn field arg st =
     (case de_callback env fn field arg (d_stream st) (d_heap st) of
        (ok, s, h) \<Rightarrow>
          (let st = st\<lparr>d_stream := s, d_heap := h\<rparr>
           in if \<not> ok then Some (False, st)
              else if is_bytes_left s \<noteq> 0 then callback_loop k env fn field arg st
              else Some (True, st)))"

definition decode_callback_field ::
  "nat \<Rightarrow> 'c dec_env \<Rightarrow> 'c dstate \<Rightarrow> pb_wire_type_t \<Rightarrow> pb_field_iter \<Rightarrow> 'c dresult" where
  "decode_callback_field n env st wire_type it =
     (let field = it_field it; pCallback = it_pData it; fn = load64 (d_mem st) pCallback;
          arg = pCallback + 8
      in if pCallback = 0 \<or> fn = 0
         then (case pb_skip_field (d_stream st) wire_type of
                 (ok, s) \<Rightarrow> Some (ok, d_set_stream s st))
         else if wire_type = PB_WT_STRING
         then d_substream st (\<lambda>parent st.
                case callback_loop n env fn field arg st of
                  None \<Rightarrow> None
                | Some (ok, st) \<Rightarrow>
                    if \<not> ok then Some (d_error (d_set_stream parent st) ''callback failed'')
                    else d_finish_sub parent (Some (True, st)))
         else
           (case read_raw_value (d_stream st) wire_type 10 of
              (ok, bs, s) \<Rightarrow>
                if \<not> ok then Some (False, d_set_stream s st)
                else
                  (case de_callback env fn field arg
                          (pb_istream_from_buffer bs (of_nat (length bs))) (d_heap st) of
                     (ok, _, h) \<Rightarrow> Some (ok, (d_set_stream s st)\<lparr>d_heap := h\<rparr>))))"

section \<open>Oneof fields and dispatch\<close>

text \<open>The iterator may have moved when the function returns.\<close>

definition pb_release_union_field ::
  "nat \<Rightarrow> (addr \<Rightarrow> pb_field) \<Rightarrow> 'c dstate \<Rightarrow> pb_field_iter \<Rightarrow> (bool \<times> pb_field_iter \<times> 'c dstate) option" where
  "pb_release_union_field n field_of st it =
     (let old_tag = load_size st (it_pSize it); new_tag = f_tag (it_field it)
      in if old_tag = 0 \<or> old_tag = new_tag then Some (True, it, st)
         else
           (case pb_field_iter_find it old_tag of
              None \<Rightarrow> None
            | Some (found, it) \<Rightarrow>
                if \<not> found
                then (case d_error st ''invalid union tag'' of (ok, st) \<Rightarrow> Some (ok, it, st))
                else
                  (case pb_release_single_field n field_of it (d_heap st) of
                     None \<Rightarrow> None
                   | Some h \<Rightarrow>
                       (let st = st\<lparr>d_heap := h\<rparr>
                        in case pb_field_iter_find it new_tag of
                             None \<Rightarrow> None
                           | Some (found, it) \<Rightarrow>
                               if \<not> found
                               then (case d_error st ''iterator error'' of (ok, st) \<Rightarrow> Some (ok, it, st))
                               else Some (True, it, st)))))"

definition decode_field ::
  "nat \<Rightarrow> 'c dec_env \<Rightarrow> 'c pb_decode_fn \<Rightarrow> 'c dstate \<Rightarrow> pb_wire_type_t \<Rightarrow> pb_field_iter \<Rightarrow>
     (bool \<times> pb_field_iter \<times> 'c dstate) option" where
  "decode_field n env noinit st wire_type it =
     (case (if PB_HTYPE (f_type (it_field it)) = PB_HTYPE_ONEOF
            then pb_release_union_field n (de_field env) st it else Some (True, it, st)) of
        None \<Rightarrow> None
      | Some (False, it, st) \<Rightarrow> Some (False, it, st)
      | Some (True, it, st) \<Rightarrow>
          (let atype = PB_ATYPE (f_type (it_field it))
           in map_option (\<lambda>(ok, st). (ok, it, st))
                (if atype = PB_ATYPE_STATIC
                 then decode_static_field n (de_field env) noinit st wire_type it
                 else if atype = PB_ATYPE_POINTER
                 then decode_pointer_field n (de_field env) noinit st wire_type it
                 else if atype = PB_ATYPE_CALLBACK then decode_callback_field n env st wire_type it
                 else Some (d_error st ''invalid field type''))))"

section \<open>Extensions\<close>

definition default_extension_decoder ::
  "nat \<Rightarrow> 'c dec_env \<Rightarrow> 'c pb_decode_fn \<Rightarrow> 'c dstate \<Rightarrow> addr \<Rightarrow> uint32 \<Rightarrow> pb_wire_type_t \<Rightarrow> 'c dresult" where
  "default_extension_decoder n env noinit st extension tag wire_type =
     (let field = de_field env (ext_type_arg (d_mem st) (ext_type (d_mem st) extension))
      in if f_tag field \<noteq> tag then Some (True, st)
         else
           (let it = iter_from_extension (de_field env) (d_mem st) extension;
                st = d_upd (\<lambda>m. store_bool m (ext_found extension) True) st
            in map_option (\<lambda>(ok, _, st). (ok, st)) (decode_field n env noinit st wire_type it)))"

primrec decode_extensions ::
  "nat \<Rightarrow> nat \<Rightarrow> 'c dec_env \<Rightarrow> 'c pb_decode_fn \<Rightarrow> size_t \<Rightarrow> uint32 \<Rightarrow> pb_wire_type_t \<Rightarrow> addr \<Rightarrow>
     'c dstate \<Rightarrow> 'c dresult" where
  "decode_extensions 0 n env noinit pos tag wire_type extension st = None"
| "decode_extensions (Suc k) n env noinit pos tag wire_type extension st =
     (if extension \<noteq> 0 \<and> pos = is_bytes_left (d_stream st)
      then
        (let decode = ext_type_decode (d_mem st) (ext_type (d_mem st) extension)
         in seq_call
              (if decode \<noteq> 0
               then (case de_ext_decode env decode extension tag wire_type (d_stream st) (d_heap st) of
                       (ok, s, h) \<Rightarrow> Some (ok, st\<lparr>d_stream := s, d_heap := h\<rparr>))
               else default_extension_decoder n env noinit st extension tag wire_type)
              (\<lambda>st. decode_extensions k n env noinit pos tag wire_type
                      (ext_next (d_mem st) extension) st))
      else Some (True, st))"

definition decode_extension ::
  "nat \<Rightarrow> 'c dec_env \<Rightarrow> 'c pb_decode_fn \<Rightarrow> 'c dstate \<Rightarrow> uint32 \<Rightarrow> pb_wire_type_t \<Rightarrow> pb_field_iter \<Rightarrow>
     'c dresult" where
  "decode_extension n env noinit st tag wire_type it =
     decode_extensions n n env noinit (is_bytes_left (d_stream st)) tag wire_type
       (load64 (d_mem st) (it_pData it)) st"

partial_function (option) find_extension_loop ::
  "nat \<Rightarrow> pb_field_iter \<Rightarrow> (bool \<times> pb_field_iter) option" where
  "find_extension_loop start it =
     (if PB_LTYPE (f_type (it_field it)) = PB_LTYPE_EXTENSION then Some (True, it)
      else let it' = snd (pb_field_iter_next it)
           in if it_pos it' = start then Some (False, it') else find_extension_loop start it')"

declare find_extension_loop.simps [code]

definition find_extension_field :: "pb_field_iter \<Rightarrow> (bool \<times> pb_field_iter) option" where
  "find_extension_field it = find_extension_loop (it_pos it) it"

section \<open>Decoding a message\<close>

text \<open>The locals of \<open>pb_decode_noinit\<close> that live through its loop; \<open>fixed_count_size\<close> is in
  the state. \<open>fixed_count_field\<close> is an index into the field array.\<close>

record noinit_vars =
  v_iter :: pb_field_iter
  v_fields_seen :: "uint32 list"
  v_extension_range_start :: uint32
  v_fixed_count_field :: "nat option"

text \<open>How one pass of the loop body ends: \<open>break\<close>, another pass, or a return.\<close>

datatype 'c noinit_step =
  StepBreak noinit_vars "'c dstate" | StepNext noinit_vars "'c dstate" | StepReturn bool "'c dstate"

definition step_result :: "noinit_vars \<Rightarrow> bool \<times> 'c dstate \<Rightarrow> 'c noinit_step" where
  "step_result v r = (case r of (ok, st) \<Rightarrow> if ok then StepNext v st else StepReturn False st)"

text \<open>A field without a match in the array: an extension, or skipped.\<close>

definition noinit_unknown ::
  "nat \<Rightarrow> 'c dec_env \<Rightarrow> 'c pb_decode_fn \<Rightarrow> uint32 \<Rightarrow> pb_wire_type_t \<Rightarrow> noinit_vars \<Rightarrow> 'c dstate \<Rightarrow>
     'c noinit_step option" where
  "noinit_unknown n env noinit tag wire_type v st =
     (let skip = (\<lambda>v st. case pb_skip_field (d_stream st) wire_type of
                     (ok, s) \<Rightarrow> step_result v (ok, d_set_stream s st))
      in if tag < v_extension_range_start v then Some (skip v st)
         else
           (case find_extension_field (v_iter v) of
              None \<Rightarrow> None
            | Some (found, it) \<Rightarrow>
                (let start = (if found then f_tag (it_field it) else - 1);
                     v = v\<lparr>v_iter := it, v_extension_range_start := start\<rparr>
                 in if tag < start then Some (skip v st)
                    else
                      (case decode_extension n env noinit st tag wire_type it of
                         None \<Rightarrow> None
                       | Some (ok, st') \<Rightarrow>
                           if \<not> ok then Some (StepReturn False st')
                           else if is_bytes_left (d_stream st) \<noteq> is_bytes_left (d_stream st')
                           then Some (StepNext v st')
                           else Some (skip v st')))))"

text \<open>Whether the last fixed count field has received all its entries.\<close>

definition fixed_count_ok :: "noinit_vars \<Rightarrow> 'c dstate \<Rightarrow> bool" where
  "fixed_count_ok v st =
     (case v_fixed_count_field v of
        None \<Rightarrow> True
      | Some pos \<Rightarrow> d_fixed st = f_array_size (field_at (it_start (v_iter v)) pos))"

definition mark_seen :: "noinit_vars \<Rightarrow> noinit_vars" where
  "mark_seen v =
     (let idx = it_required_field_index (v_iter v); w = unat (drop_bit 5 idx)
      in if PB_HTYPE (f_type (it_field (v_iter v))) = PB_HTYPE_REQUIRED \<and>
            unat idx < PB_MAX_REQUIRED_FIELDS
         then v\<lparr>v_fields_seen := (v_fields_seen v)
                  [w := (v_fields_seen v ! w) OR push_bit (unat (idx AND 31)) 1]\<rparr>
         else v)"

text \<open>A field with a match: the checks on fixed count fields, the mark of a required
  field, the data.\<close>

definition noinit_known ::
  "nat \<Rightarrow> 'c dec_env \<Rightarrow> 'c pb_decode_fn \<Rightarrow> pb_wire_type_t \<Rightarrow> noinit_vars \<Rightarrow> 'c dstate \<Rightarrow>
     'c noinit_step option" where
  "noinit_known n env noinit wire_type v st =
     (let it = v_iter v;
          fixed = (PB_HTYPE (f_type (it_field it)) = PB_HTYPE_REPEATED \<and>
                   it_pSize it = AtAddr (it_pData it));
          fresh = (fixed \<and> v_fixed_count_field v \<noteq> Some (it_pos it))
      in if fresh \<and> \<not> fixed_count_ok v st
         then Some (step_result v (d_error st ''wrong size for fixed count field''))
         else
           (let v = (if fixed then v\<lparr>v_iter := it\<lparr>it_pSize := FixedCount\<rparr>\<rparr> else v);
                v = (if fresh then v\<lparr>v_fixed_count_field := Some (it_pos it)\<rparr> else v);
                st = (if fresh then st\<lparr>d_fixed := 0\<rparr> else st);
                v = mark_seen v
            in case decode_field n env noinit st wire_type (v_iter v) of
                 None \<Rightarrow> None
               | Some (ok, it, st) \<Rightarrow> Some (step_result (v\<lparr>v_iter := it\<rparr>) (ok, st))))"

text \<open>One pass of the loop body.\<close>

definition noinit_body ::
  "nat \<Rightarrow> 'c dec_env \<Rightarrow> 'c pb_decode_fn \<Rightarrow> noinit_vars \<Rightarrow> 'c dstate \<Rightarrow> 'c noinit_step option" where
  "noinit_body n env noinit v st =
     (case pb_decode_tag (d_stream st) of
        (TagEof, s) \<Rightarrow> Some (StepBreak v (d_set_stream s st))
      | (TagError, s) \<Rightarrow> Some (StepReturn False (d_set_stream s st))
      | (TagField wire_type tag, s) \<Rightarrow>
          (let st = d_set_stream s st
           in case pb_field_iter_find (v_iter v) tag of
                None \<Rightarrow> None
              | Some (False, it) \<Rightarrow> noinit_unknown n env noinit tag wire_type (v\<lparr>v_iter := it\<rparr>) st
              | Some (True, it) \<Rightarrow> noinit_known n env noinit wire_type (v\<lparr>v_iter := it\<rparr>) st))"

text \<open>The loop \<open>while (stream->bytes_left)\<close>. Each pass takes at least one byte.\<close>

primrec noinit_loop ::
  "nat \<Rightarrow> (noinit_vars \<Rightarrow> 'c dstate \<Rightarrow> 'c noinit_step option) \<Rightarrow> noinit_vars \<Rightarrow> 'c dstate \<Rightarrow>
     'c noinit_step option" where
  "noinit_loop 0 body v st = None"
| "noinit_loop (Suc k) body v st =
     (if is_bytes_left (d_stream st) = 0 then Some (StepBreak v st)
      else
        (case body v st of
           None \<Rightarrow> None
         | Some (StepNext v st) \<Rightarrow> noinit_loop k body v st
         | Some (StepBreak v st) \<Rightarrow> Some (StepBreak v st)
         | Some (StepReturn ok st) \<Rightarrow> Some (StepReturn ok st)))"

text \<open>The loop that seeks to the end of the field array: the number of required fields
  before the last field, the type of the last field, the iterator back at the start.\<close>

function req_count_loop :: "pb_field_iter \<Rightarrow> uint32 \<times> pb_type_t \<times> pb_field_iter" where
  "req_count_loop it =
     (case pb_field_iter_next it of
        (again, it') \<Rightarrow>
          if again then req_count_loop it'
          else (it_required_field_index it, f_type (it_field it), it'))"
  by pat_completeness auto
termination
  by (relation "measure (\<lambda>it. length (it_start it) - it_pos it)")
    (auto dest!: pb_field_iter_next_decr)

declare req_count_loop.simps [simp del]

definition req_field_count :: "pb_field_iter \<Rightarrow> uint32" where
  "req_field_count it =
     (case req_count_loop it of
        (count, last_type, it) \<Rightarrow>
          (let count = (if PB_HTYPE last_type = PB_HTYPE_REQUIRED \<and> f_tag (it_field it) \<noteq> 0
                        then count + 1 else count)
           in if count > of_nat PB_MAX_REQUIRED_FIELDS then of_nat PB_MAX_REQUIRED_FIELDS else count))"

text \<open>The check of the bits of \<open>fields_seen\<close>.\<close>

definition all_required_seen :: "uint32 \<Rightarrow> uint32 list \<Rightarrow> bool" where
  "all_required_seen count seen =
     (let w = unat (drop_bit 5 count); rest = unat (count AND 31)
      in (\<forall>i \<in> set [0..<w]. seen ! i = - 1) \<and>
         (rest \<noteq> 0 \<longrightarrow> seen ! w = drop_bit (32 - rest) (- 1)))"

definition noinit_finish :: "noinit_vars \<Rightarrow> 'c dstate \<Rightarrow> bool \<times> 'c dstate" where
  "noinit_finish v st =
     (if \<not> fixed_count_ok v st then d_error st ''wrong size for fixed count field''
      else if \<not> all_required_seen (req_field_count (v_iter v)) (v_fields_seen v)
      then d_error st ''missing required field''
      else (True, st))"

definition noinit_start :: "pb_field list \<Rightarrow> addr \<Rightarrow> noinit_vars" where
  "noinit_start flds dest_struct =
     \<lparr>v_iter = snd (pb_field_iter_begin flds dest_struct), v_fields_seen = [0, 0],
      v_extension_range_start = 0, v_fixed_count_field = None\<rparr>"

text \<open>The caller's \<open>fixed_count_size\<close> is another variable, and keeps its value.\<close>

primrec pb_decode_noinit :: "nat \<Rightarrow> 'c dec_env \<Rightarrow> 'c pb_decode_fn" where
  "pb_decode_noinit 0 env st flds dest_struct = None"
| "pb_decode_noinit (Suc n) env st flds dest_struct =
     map_option (\<lambda>(ok, st'). (ok, st'\<lparr>d_fixed := d_fixed st\<rparr>))
       (case noinit_loop (Suc (unat (is_bytes_left (d_stream st))))
               (noinit_body n env (pb_decode_noinit n env))
               (noinit_start flds dest_struct) (st\<lparr>d_fixed := 0\<rparr>) of
          None \<Rightarrow> None
        | Some (StepReturn ok st) \<Rightarrow> Some (ok, st)
        | Some (StepBreak v st) \<Rightarrow> Some (noinit_finish v st)
        | Some (StepNext v st) \<Rightarrow> None)"

section \<open>Entry points\<close>

definition pb_decode :: "nat \<Rightarrow> 'c dec_env \<Rightarrow> 'c pb_decode_fn" where
  "pb_decode n env st flds dest_struct =
     pb_decode_with n (de_field env) (pb_decode_noinit n env) st flds dest_struct"

definition pb_decode_delimited_noinit :: "nat \<Rightarrow> 'c dec_env \<Rightarrow> 'c pb_decode_fn" where
  "pb_decode_delimited_noinit n env st flds dest_struct =
     d_substream st (\<lambda>parent st. d_finish_sub parent (pb_decode_noinit n env st flds dest_struct))"

definition pb_decode_delimited :: "nat \<Rightarrow> 'c dec_env \<Rightarrow> 'c pb_decode_fn" where
  "pb_decode_delimited n env st flds dest_struct =
     d_substream st (\<lambda>parent st. d_finish_sub parent (pb_decode n env st flds dest_struct))"

definition pb_decode_nullterminated :: "nat \<Rightarrow> 'c dec_env \<Rightarrow> 'c pb_decode_fn" where
  "pb_decode_nullterminated n env st flds dest_struct = pb_decode n env st flds dest_struct"

end
