(* ===== verification/Pb_Decode_Total.thy ===== *)
theory Pb_Decode_Total
  imports Pb_Decode Pb_Encode_Spec
begin

text \<open>
  The decoder returns on every input. Every read takes bytes off the input, so that the loops over
  packed arrays, over unknown fields and over the fields of a message end; the depth bound of the
  decoder exceeds the nesting of the message type, so that the recursion ends as well. The lemmas
  follow the functions of \<open>pb_decode.c\<close> from the varint reader up to \<open>pb_decode_noinit\<close>.
\<close>

section \<open>Input is only consumed\<close>

lemma pb_varint32_loop_left:
  "pb_varint32_loop s bitpos r = (v, s') \<Longrightarrow> unat (is_bytes_left s') \<le> unat (is_bytes_left s)"
proof (induction s bitpos r rule: pb_varint32_loop.induct)
  case (1 s bitpos r)
  obtain x s1 where rb: "pb_readbyte s = (x, s1)" by fastforce
  show ?case
  proof (cases x)
    case None
    with "1.prems" rb pb_readbyte_fail_bytes_left [of s s1] show ?thesis
      by (simp add: pb_varint32_loop.simps [of s])
  next
    case (Some b)
    with rb have "Suc (unat (is_bytes_left s1)) = unat (is_bytes_left s)"
      by (simp add: pb_readbyte_bytes_left)
    with "1.prems" "1.IH" [OF rb [symmetric] Some _ refl refl] Some rb show ?thesis
      by (fastforce simp: pb_varint32_loop.simps [of s bitpos] Let_def split: if_splits)
  qed
qed

lemma pb_decode_varint32_eof_left:
  assumes "pb_decode_varint32_eof s = (v, eof, s')"
  shows "unat (is_bytes_left s') \<le> unat (is_bytes_left s)"
    and "v \<noteq> None \<Longrightarrow> unat (is_bytes_left s') < unat (is_bytes_left s)"
proof -
  obtain x s1 where rb: "pb_readbyte s = (x, s1)" by fastforce
  have "unat (is_bytes_left s') \<le> unat (is_bytes_left s) \<and> (v \<noteq> None \<longrightarrow> unat (is_bytes_left s') < unat (is_bytes_left s))"
  proof (cases x)
    case None
    with assms rb pb_readbyte_fail_bytes_left [of s s1] show ?thesis
      by (auto simp: pb_decode_varint32_eof_def)
  next
    case (Some b)
    with rb have "Suc (unat (is_bytes_left s1)) = unat (is_bytes_left s)"
      by (simp add: pb_readbyte_bytes_left)
    with assms Some rb show ?thesis
      by (auto simp: pb_decode_varint32_eof_def split: if_splits prod.splits dest!: pb_varint32_loop_left)
  qed
  then show "unat (is_bytes_left s') \<le> unat (is_bytes_left s)"
    and "v \<noteq> None \<Longrightarrow> unat (is_bytes_left s') < unat (is_bytes_left s)" by simp_all
qed

lemma pb_decode_varint32_left:
  assumes "pb_decode_varint32 s = (v, s')"
  shows "unat (is_bytes_left s') \<le> unat (is_bytes_left s)"
    and "v \<noteq> None \<Longrightarrow> unat (is_bytes_left s') < unat (is_bytes_left s)"
  using assms by (auto simp: pb_decode_varint32_def split: prod.splits dest: pb_decode_varint32_eof_left)

lemma pb_varint_loop_left:
  "pb_varint_loop s bitpos r = (v, s') \<Longrightarrow> unat (is_bytes_left s') \<le> unat (is_bytes_left s) \<and>
     (v \<noteq> None \<longrightarrow> unat (is_bytes_left s') < unat (is_bytes_left s))"
proof (induction s bitpos r rule: pb_varint_loop.induct)
  case (1 s bitpos r)
  show ?case
  proof (cases "bitpos \<ge> 64")
    case True
    with "1.prems" show ?thesis by (auto simp: pb_varint_loop.simps [of s])
  next
    case False
    obtain x s1 where rb: "pb_readbyte s = (x, s1)" by fastforce
    show ?thesis
    proof (cases x)
      case None
      with "1.prems" rb False pb_readbyte_fail_bytes_left [of s s1] show ?thesis
        by (auto simp: pb_varint_loop.simps [of s])
    next
      case (Some b)
      with rb have "Suc (unat (is_bytes_left s1)) = unat (is_bytes_left s)"
        by (simp add: pb_readbyte_bytes_left)
      with "1.prems" "1.IH" [OF False rb [symmetric] Some] Some rb False show ?thesis
        by (auto simp: pb_varint_loop.simps [of s bitpos] Let_def split: if_splits)
    qed
  qed
qed

lemma pb_decode_varint_left:
  assumes "pb_decode_varint s = (v, s')"
  shows "unat (is_bytes_left s') \<le> unat (is_bytes_left s)"
    and "v \<noteq> None \<Longrightarrow> unat (is_bytes_left s') < unat (is_bytes_left s)"
  using pb_varint_loop_left assms by (fastforce simp: pb_decode_varint_def)+

lemma pb_decode_svarint_left:
  assumes "pb_decode_svarint s = (v, s')"
  shows "unat (is_bytes_left s') \<le> unat (is_bytes_left s)"
    and "v \<noteq> None \<Longrightarrow> unat (is_bytes_left s') < unat (is_bytes_left s)"
  using assms
  by (auto simp: pb_decode_svarint_def split: prod.splits option.splits dest: pb_decode_varint_left)

lemma pb_read_left:
  assumes "pb_read s hb n = (ok, bs, s')"
  shows "unat (is_bytes_left s') \<le> unat (is_bytes_left s)"
    and "ok \<Longrightarrow> hb \<Longrightarrow> unat (is_bytes_left s') + unat n = unat (is_bytes_left s)"
proof -
  show "unat (is_bytes_left s') \<le> unat (is_bytes_left s)"
    using pb_read_bytes_left [OF assms] by (simp add: word_le_nat_alt)
  assume "ok" "hb"
  with assms have "pb_read_direct s hb n = (True, bs, s')" by (auto simp: pb_read_def)
  from pb_read_direct_bytes_left [OF this]
  show "unat (is_bytes_left s') + unat n = unat (is_bytes_left s)"
    by (simp add: unat_sub_le word_le_nat_alt)
qed

lemma pb_decode_fixed_left:
  "pb_decode_fixed32 s m p = (ok, s', m') \<Longrightarrow> unat (is_bytes_left s') \<le> unat (is_bytes_left s) \<and>
     (ok \<longrightarrow> unat (is_bytes_left s') < unat (is_bytes_left s))"
  "pb_decode_fixed64 s m p = (ok, s', m') \<Longrightarrow> unat (is_bytes_left s') \<le> unat (is_bytes_left s) \<and>
     (ok \<longrightarrow> unat (is_bytes_left s') < unat (is_bytes_left s))"
  by (auto simp: pb_decode_fixed32_def pb_decode_fixed64_def split: prod.splits if_splits
      dest: pb_read_left)

lemma pb_skip_varint_left:
  "pb_skip_varint s = (ok, s') \<Longrightarrow> unat (is_bytes_left s') \<le> unat (is_bytes_left s)"
proof (induction s rule: pb_skip_varint.induct)
  case (1 s)
  obtain ok1 bs s1 where r: "pb_read s True 1 = (ok1, bs, s1)" by (cases "pb_read s True 1") auto
  note le = pb_read_left(1) [OF r]
  from "1.prems" "1.IH" [OF r [symmetric] refl] le r show ?case
    by (auto simp: pb_skip_varint.simps [of s] split: if_splits)
qed

lemma pb_skip_field_left:
  assumes "pb_skip_field s wt = (ok, s')"
  shows "unat (is_bytes_left s') \<le> unat (is_bytes_left s)"
proof -
  have "unat (is_bytes_left s2) \<le> unat (is_bytes_left s)"
    if "pb_skip_string s = (ok, s2)" for ok s2
    using that by (auto simp: pb_skip_string_def split: prod.splits option.splits
        dest!: pb_decode_varint32_left(1) pb_read_left(1))
  with assms show ?thesis
    by (auto simp: pb_skip_field_def split: prod.splits if_splits dest: pb_skip_varint_left pb_read_left(1))
qed

lemma pb_decode_tag_left:
  assumes "pb_decode_tag s = (r, s')"
  shows "unat (is_bytes_left s') \<le> unat (is_bytes_left s)"
    and "r = TagField wt tag \<Longrightarrow> unat (is_bytes_left s') < unat (is_bytes_left s)"
    and "r = TagField wt tag \<Longrightarrow> tag < - 1"
proof -
  show "unat (is_bytes_left s') \<le> unat (is_bytes_left s)"
    "r = TagField wt tag \<Longrightarrow> unat (is_bytes_left s') < unat (is_bytes_left s)"
    using assms by (auto simp: pb_decode_tag_def split: prod.splits option.splits if_splits
        dest: pb_decode_varint32_eof_left)
  assume "r = TagField wt tag"
  with assms obtain t :: uint32 where "tag = drop_bit 3 t"
    by (auto simp: pb_decode_tag_def split: prod.splits option.splits if_splits)
  moreover have "unat (drop_bit 3 t) < unat (- 1 :: uint32)"
    using unat_less_pow [of t] by (simp add: drop_bit_eq_div unat_div unsigned_minus_1_eq_mask mask_eq_exp_minus_1)
  ultimately show "tag < - 1" by (simp add: word_less_nat_alt)
qed

lemma pb_make_string_substream_left:
  assumes "pb_make_string_substream s = (r, s')"
  shows "unat (is_bytes_left s') \<le> unat (is_bytes_left s)"
  using assms
  by (auto simp: pb_make_string_substream_def word_less_nat_alt unat_sub_le word_le_nat_alt
      split: prod.splits option.splits if_splits dest!: pb_decode_varint32_left(1))

lemma pb_close_string_substream_left:
  "pb_close_string_substream s sub = (ok, s') \<Longrightarrow> is_bytes_left s' = is_bytes_left s"
  by (auto simp: pb_close_string_substream_def split: prod.splits if_splits)

section \<open>Message types for which decoding is defined\<close>

text \<open>No user code and no extensions; a size for every field; submessages have a field array with at
  least one field, other fields no default value or one of the size of the field.\<close>

definition default_ok :: "pb_size_t \<Rightarrow> pb_ptr \<Rightarrow> bool" where
  "default_ok ds ptr =
     (case ptr of PtrNull \<Rightarrow> True | PtrDefault bs \<Rightarrow> unat ds \<le> length bs | PtrFields fs \<Rightarrow> False)"

fun dec_field :: "pb_field \<Rightarrow> bool" and dec_ptr :: "pb_ptr \<Rightarrow> bool" where
  "dec_field (PbField tag ty d s ds as ptr) \<longleftrightarrow>
     tag = 0 \<or>
     (PB_ATYPE ty = PB_ATYPE_STATIC \<or> PB_ATYPE ty = PB_ATYPE_POINTER) \<and>
     wire_type_of (PB_LTYPE ty) \<noteq> None \<and> ds \<noteq> 0 \<and>
     (if PB_LTYPE ty = PB_LTYPE_SUBMESSAGE then dec_ptr ptr else default_ok ds ptr)"
| "dec_ptr (PtrFields fs) \<longleftrightarrow> fs \<noteq> [] \<and> f_tag (hd fs) \<noteq> 0 \<and> (\<forall>f \<in> set fs. dec_field f)"
| "dec_ptr PtrNull \<longleftrightarrow> False"
| "dec_ptr (PtrDefault bs) \<longleftrightarrow> False"

definition dec_msg :: "pb_field list \<Rightarrow> bool" where
  "dec_msg fs \<longleftrightarrow> dec_ptr (PtrFields fs)"

lemma dec_fieldD:
  assumes "dec_field f" and "f_tag f \<noteq> 0"
  shows "PB_ATYPE (f_type f) = PB_ATYPE_STATIC \<or> PB_ATYPE (f_type f) = PB_ATYPE_POINTER"
    and "wire_type_of (PB_LTYPE (f_type f)) \<noteq> None" and "f_data_size f \<noteq> 0"
    and "PB_LTYPE (f_type f) = PB_LTYPE_SUBMESSAGE \<Longrightarrow> \<exists>fs. f_ptr f = PtrFields fs \<and> dec_msg fs"
    and "PB_LTYPE (f_type f) \<noteq> PB_LTYPE_SUBMESSAGE \<Longrightarrow> default_ok (f_data_size f) (f_ptr f)"
    and "PB_LTYPE (f_type f) \<noteq> PB_LTYPE_EXTENSION"
  using assms by (cases f; cases "f_ptr f"; auto simp: dec_msg_def wire_type_of_def split: if_splits)+

text \<open>The iterator stands on a field of such a type, within the depth bound.\<close>

definition it_dec :: "nat \<Rightarrow> pb_field_iter \<Rightarrow> bool" where
  "it_dec n it \<longleftrightarrow> dec_field (it_field it) \<and> f_tag (it_field it) \<noteq> 0 \<and> field_depth (it_field it) < n"

lemma dec_msg_begin:
  assumes "dec_msg fs" shows "fst (pb_field_iter_begin fs dest)"
  using assms by (cases fs) (simp_all add: dec_msg_def pb_field_iter_begin_def field_at_def Let_def)

lemma iter_ok_it_dec:
  assumes "dec_msg fs" and "msg_depth fs < Suc n" and "iter_ok fs dest it"
  shows "it_dec n it"
proof -
  from iter_ok_place [OF assms(3)] have "(it_field it, it_pData it) \<in> set (field_places fs dest)"
    by (metis nth_mem)
  from field_places_set [OF this] have f: "it_field it \<in> set fs" "f_tag (it_field it) \<noteq> 0" by simp_all
  with field_depth_less [OF f(1)] assms(1,2) show ?thesis by (auto simp: it_dec_def dec_msg_def)
qed

section \<open>The count of an iterator\<close>

definition at_addr :: "pb_field_iter \<Rightarrow> bool" where
  "at_addr it \<longleftrightarrow> it_pSize it \<noteq> FixedCount"

text \<open>The local counter stands in only for a repeated field.\<close>

definition size_ref_ok :: "pb_field_iter \<Rightarrow> bool" where
  "size_ref_ok it \<longleftrightarrow> at_addr it \<or> PB_HTYPE (f_type (it_field it)) = PB_HTYPE_REPEATED"

lemma at_addr_begin: "at_addr (snd (pb_field_iter_begin fs dest))"
  by (simp add: at_addr_def pb_field_iter_begin_def Let_def)

lemma at_addr_next: "at_addr it \<Longrightarrow> at_addr (snd (pb_field_iter_next it))"
  by (auto simp: at_addr_def pb_field_iter_next_def pb_field_iter_begin_def Let_def)

lemma size_ref_ok_next:
  assumes "size_ref_ok it" and "iter_ok fs dest it"
  shows "at_addr (snd (pb_field_iter_next it))"
proof (cases "at_addr it")
  case False
  with assms(1) have "PB_HTYPE (f_type (it_field it)) = PB_HTYPE_REPEATED" by (simp add: size_ref_ok_def)
  with assms(2) show ?thesis
    by (auto simp: at_addr_def pb_field_iter_next_def pb_field_iter_begin_def in_same_union_def iter_ok_def Let_def)
qed (rule at_addr_next)

text \<open>Loops over the fields of a message keep both.\<close>

lemma for_fields_total:
  assumes "iter_ok fs dest it" and "at_addr it"
    and body: "\<And>it s. iter_ok fs dest it \<Longrightarrow> at_addr it \<Longrightarrow> \<exists>s'. body it s = Some (True, s')"
  shows "\<exists>s'. for_fields body it s = Some (True, s')"
  using assms(1,2)
proof (induction "length (field_places fs dest) - it_pos it" arbitrary: it s rule: less_induct)
  case less
  from body [OF less.prems] obtain s1 where s1: "body it s = Some (True, s1)" by blast
  obtain again it' where nx: "pb_field_iter_next it = (again, it')" by fastforce
  note n = iter_ok_next [OF less.prems(1) nx]
  show ?case
  proof (cases again)
    case True
    have "at_addr it'" using at_addr_next [OF less.prems(2)] nx by simp
    with less.hyps [of it' s1] n True iter_ok_place(1) [OF less.prems(1)] s1 nx show ?thesis
      by (simp add: for_fields.simps [of body it])
  qed (use s1 nx in \<open>simp add: for_fields.simps [of body it]\<close>)
qed

section \<open>Default values and release\<close>

lemma pb_message_set_to_defaults_total:
  assumes "dec_msg fs" and "msg_depth fs < Suc n"
    and set: "\<And>it m. it_dec n it \<Longrightarrow> at_addr it \<Longrightarrow> \<exists>m'. set_field it m = Some m'"
  shows "\<exists>m'. pb_message_set_to_defaults set_field fs dest m = Some m'"
proof -
  obtain it where it: "pb_field_iter_begin fs dest = (True, it)"
    using dec_msg_begin [OF assms(1), of dest] by (metis prod.collapse)
  have at: "at_addr it" using at_addr_begin [of fs dest] it by simp
  have "\<exists>m'. for_fields (\<lambda>it m. map_option (Pair True) (set_field it m)) it m = Some (True, m')"
  proof (rule for_fields_total [OF iter_ok_begin [OF it] at])
    fix it m assume "iter_ok fs dest it" "at_addr it"
    with iter_ok_it_dec [OF assms(1,2)] set [of it m]
    show "\<exists>m'. map_option (Pair True) (set_field it m) = Some (True, m')" by auto
  qed
  with it show ?thesis by (auto simp: pb_message_set_to_defaults_def)
qed

lemma at_addrE: "at_addr it \<Longrightarrow> \<exists>a. it_pSize it = AtAddr a"
  by (cases "it_pSize it") (simp_all add: at_addr_def)

lemma default_contents_total: "default_ok (f_data_size f) (f_ptr f) \<Longrightarrow> \<exists>m'. default_contents f p m = Some m'"
  by (auto simp: default_ok_def default_contents_def split: pb_ptr.splits)

lemma pb_field_set_to_default_total:
  "it_dec n it \<Longrightarrow> at_addr it \<Longrightarrow> \<exists>m'. pb_field_set_to_default n field_of it m = Some m'"
proof (induction n arbitrary: it m)
  case 0
  then show ?case by (simp add: it_dec_def)
next
  case (Suc n)
  let ?f = "it_field it"
  from Suc.prems(1) have f: "dec_field ?f" "f_tag ?f \<noteq> 0" "field_depth ?f < Suc n" by (simp_all add: it_dec_def)
  note d = dec_fieldD [OF f(1,2)]
  from at_addrE [OF Suc.prems(2)] obtain a where a: "it_pSize it = AtAddr a" ..
  have contents: "\<exists>m'. (if PB_LTYPE (f_type ?f) = PB_LTYPE_SUBMESSAGE
      then (case f_ptr ?f of PtrFields flds \<Rightarrow>
              pb_message_set_to_defaults (pb_field_set_to_default n field_of) flds (it_pData it) m
            | _ \<Rightarrow> None)
      else default_contents ?f (it_pData it) m) = Some m'" for m
  proof (cases "PB_LTYPE (f_type ?f) = PB_LTYPE_SUBMESSAGE")
    case True
    from d(4) [OF True] obtain fs where fs: "f_ptr ?f = PtrFields fs" "dec_msg fs" by blast
    have "msg_depth fs < Suc n" using f(3) fs(1) by (simp add: field_depth_ptr)
    from pb_message_set_to_defaults_total [OF fs(2) this Suc.IH] True fs(1) show ?thesis by simp
  next
    case False
    with default_contents_total [OF d(5)] show ?thesis by simp
  qed
  show ?case
    using d(1,6) contents a by (auto simp: store_at_def Let_def)
qed

lemma pb_release_total:
  assumes "dec_msg fs" and "msg_depth fs < Suc n"
    and rel: "\<And>it h. it_dec n it \<Longrightarrow> at_addr it \<Longrightarrow> \<exists>h'. release_field it h = Some h'"
  shows "\<exists>h'. pb_release release_field fs dest h = Some h'"
proof -
  obtain it where it: "pb_field_iter_begin fs dest = (True, it)"
    using dec_msg_begin [OF assms(1), of dest] by (metis prod.collapse)
  have at: "at_addr it" using at_addr_begin [of fs dest] it by simp
  have "\<exists>h'. for_fields (\<lambda>it h. map_option (Pair True) (release_field it h)) it h = Some (True, h')"
  proof (rule for_fields_total [OF iter_ok_begin [OF it] at])
    fix it h assume "iter_ok fs dest it" "at_addr it"
    with iter_ok_it_dec [OF assms(1,2)] rel [of it h]
    show "\<exists>h'. map_option (Pair True) (release_field it h) = Some (True, h')" by auto
  qed
  with it show ?thesis by (auto simp: pb_release_def)
qed

lemma release_entries_total:
  "(\<And>p h. \<exists>h'. f p h = Some h') \<Longrightarrow> \<exists>h'. release_entries k f ds p h = Some h'"
proof (induction k arbitrary: p h)
  case (Suc k)
  from Suc.prems [of p h] obtain h1 where "f p h = Some h1" by blast
  with Suc show ?case by simp
qed simp

lemma pb_release_single_field_total:
  "it_dec n it \<Longrightarrow> at_addr it \<Longrightarrow> \<exists>h'. pb_release_single_field n field_of it h = Some h'"
proof (induction n arbitrary: it h)
  case 0
  then show ?case by (simp add: it_dec_def)
next
  case (Suc n)
  let ?f = "it_field it"
  from Suc.prems(1) have f: "dec_field ?f" "f_tag ?f \<noteq> 0" "field_depth ?f < Suc n" by (simp_all add: it_dec_def)
  note d = dec_fieldD [OF f(1,2)]
  from at_addrE [OF Suc.prems(2)] obtain a where a: "it_pSize it = AtAddr a" ..
  have contents: "\<exists>h'. release_contents n field_of (pb_release_single_field n field_of) it h = Some h'"
  proof (cases "PB_LTYPE (f_type ?f) = PB_LTYPE_SUBMESSAGE")
    case True
    from d(4) [OF True] obtain fs where fs: "f_ptr ?f = PtrFields fs" "dec_msg fs" by blast
    have "msg_depth fs < Suc n" using f(3) fs(1) by (simp add: field_depth_ptr)
    have r: "\<exists>h'. release_entries k (pb_release (pb_release_single_field n field_of) fs) ds p h = Some h'"
      for k ds p h
      by (rule release_entries_total, rule pb_release_total [OF fs(2) \<open>msg_depth fs < Suc n\<close>], rule Suc.IH)
    have "\<exists>count. release_count it (h_mem h) = Some count"
      using a by (simp add: release_count_def load_at_def Let_def)
    then obtain count where "release_count it (h_mem h) = Some count" ..
    with True fs(1) r d(6) show ?thesis
      by (simp add: release_contents_def Let_def del: release_entries.simps)
  qed (use d(6) in \<open>simp add: release_contents_def Let_def\<close>)
  have pointer: "\<exists>h'. release_pointer it h = Some h'" for h
    using a by (auto simp: release_pointer_def load_at_def Let_def)
  show ?case using contents pointer a by (auto simp: load_at_def Let_def split: bool.split)
qed

section \<open>Results of decoding functions\<close>

definition left :: "'c dstate \<Rightarrow> nat" where
  "left st = unat (is_bytes_left (d_stream st))"

lemma left_simps [simp]:
  "left (d_upd f st) = left st" "left (st\<lparr>d_heap := h\<rparr>) = left st" "left (st\<lparr>d_fixed := v\<rparr>) = left st"
  "left (d_set_stream s st) = unat (is_bytes_left s)" "left (store_size st r v) = left st"
  "left (st\<lparr>d_stream := s\<rparr>) = unat (is_bytes_left s)"
  by (simp_all add: left_def d_upd_def d_set_stream_def store_size_def split: pb_size_ref.splits)

text \<open>A call that returns, without more input than it started with, and with less of it if it
  succeeds and \<open>strict\<close> is set.\<close>

definition returns :: "bool \<Rightarrow> nat \<Rightarrow> 'c dresult \<Rightarrow> bool" where
  "returns strict k r \<longleftrightarrow> (\<exists>ok st'. r = Some (ok, st') \<and> left st' \<le> k \<and> (strict \<longrightarrow> ok \<longrightarrow> left st' < k))"

lemma returnsI: "left st' \<le> k \<Longrightarrow> (strict \<Longrightarrow> ok \<Longrightarrow> left st' < k) \<Longrightarrow> returns strict k (Some (ok, st'))"
  by (simp add: returns_def)

lemma returns_weaken: "returns strict k r \<Longrightarrow> k \<le> j \<Longrightarrow> returns False j r"
  by (auto simp: returns_def)

lemma returns_mono: "returns strict k r \<Longrightarrow> k \<le> j \<Longrightarrow> returns strict j r"
  by (auto simp: returns_def)

lemma left_d_error [simp]: "left (snd (d_error st msg)) = left st"
  by (simp add: d_error_def left_def d_set_stream_def)

lemma fst_d_error [simp]: "fst (d_error st msg) = False"
  by (simp add: d_error_def)

lemma returns_error: "left st \<le> k \<Longrightarrow> returns strict k (Some (d_error st msg))"
  by (cases "d_error st msg") (metis fst_conv fst_d_error left_d_error returnsI snd_conv)

lemma returns_seq_call:
  assumes "returns strict k r" and "\<And>st. left st \<le> k \<Longrightarrow> (strict \<Longrightarrow> left st < k) \<Longrightarrow> returns strict' k (f st)"
    and "strict' \<Longrightarrow> strict"
  shows "returns strict' k (seq_call r f)"
  using assms by (auto simp: returns_def seq_call_def)

lemma returns_d_with_mem:
  assumes "\<exists>m. r = Some m" and "\<And>st'. left st' = left st \<Longrightarrow> returns strict k (f st')"
  shows "returns strict k (d_with_mem r st f)"
  using assms by (auto simp: d_with_mem_def)

section \<open>Field decoders\<close>

lemma returns_d_read_value:
  assumes "\<And>s v s'. R s = (v, s') \<Longrightarrow> unat (is_bytes_left s') \<le> unat (is_bytes_left s)"
    and "\<And>s v s'. R s = (Some v, s') \<Longrightarrow> unat (is_bytes_left s') < unat (is_bytes_left s)"
    and "\<And>v st'. left st' < left st \<Longrightarrow> returns strict (left st) (f v st')"
  shows "returns strict (left st) (d_read_value R st f)"
proof -
  obtain v s' where r: "R (d_stream st) = (v, s')" by fastforce
  show ?thesis
  proof (cases v)
    case None
    with r assms(1) [OF r] show ?thesis by (auto simp: d_read_value_def left_def d_set_stream_def returns_def)
  next
    case (Some x)
    with assms(2) r have "left (d_set_stream s' st) < left st" by (simp add: left_def d_set_stream_def)
    from assms(3) [OF this] r Some show ?thesis by (simp add: d_read_value_def)
  qed
qed

lemmas varint_consumes =
  returns_d_read_value [OF pb_decode_varint_left(1) pb_decode_varint_left(2) [OF _ option.distinct(2)]]
lemmas svarint_consumes =
  returns_d_read_value [OF pb_decode_svarint_left(1) pb_decode_svarint_left(2) [OF _ option.distinct(2)]]
lemmas varint32_consumes =
  returns_d_read_value [OF pb_decode_varint32_left(1) pb_decode_varint32_left(2) [OF _ option.distinct(2)]]

lemma returns_varints:
  "returns True (left st) (pb_dec_varint st f p)"
  "returns True (left st) (pb_dec_uvarint st f p)"
  "returns True (left st) (pb_dec_svarint st f p)"
  unfolding pb_dec_varint_def pb_dec_uvarint_def pb_dec_svarint_def
  by (rule varint_consumes svarint_consumes,
      auto simp: Let_def intro!: returns_error returnsI)+

lemma returns_fixed:
  "returns True (left st) (pb_dec_fixed32 st f p)"
  "returns True (left st) (pb_dec_fixed64 st f p)"
  by (auto simp: pb_dec_fixed32_def pb_dec_fixed64_def returns_def left_def d_set_stream_def d_upd_def
      split: prod.split dest: pb_decode_fixed_left)

lemma allocate_field_left: "allocate_field st p ds n = (ok, st') \<Longrightarrow> left st' = left st"
  by (auto simp: allocate_field_def d_error_def left_def d_set_stream_def d_upd_def Let_def
      split: if_splits prod.splits)

lemma returns_allocate: "left st \<le> k \<Longrightarrow> returns False k (Some (allocate_field st p ds n))"
  by (cases "allocate_field st p ds n") (auto simp: returns_def dest: allocate_field_left)

lemma d_read_to_left: "d_read_to st p n = (ok, st') \<Longrightarrow> left st' \<le> left st"
  by (auto simp: d_read_to_def left_def d_set_stream_def d_upd_def split: prod.splits dest: pb_read_left(1))

lemma returns_d_read_to: "left st \<le> k \<Longrightarrow> returns False k (Some (d_read_to st p n))"
  by (cases "d_read_to st p n") (auto simp: returns_def dest: d_read_to_left)

lemma returns_bytes:
  "returns False (left st) (pb_dec_bytes st f p)"
  "returns False (left st) (pb_dec_string st f p)"
  "returns False (left st) (pb_dec_fixed_length_bytes st f p)"
proof -
  have finish: "returns False k (case d_read_to st p n of (status, st) \<Rightarrow> Some (status, d_upd g st))"
    if "left st \<le> k" for k and st :: "'c dstate" and p n g
    using that by (cases "d_read_to st p n") (auto simp: returns_def dest: d_read_to_left)
  show "returns False (left st) (pb_dec_bytes st f p)" "returns False (left st) (pb_dec_string st f p)"
    "returns False (left st) (pb_dec_fixed_length_bytes st f p)"
    unfolding pb_dec_bytes_def pb_dec_string_def pb_dec_fixed_length_bytes_def
    by (rule varint32_consumes,
        auto simp: Let_def intro!: returns_error returnsI finish returns_d_read_to
          returns_seq_call [OF returns_allocate])+
qed

text \<open>Substreams: whatever happens in one, the parent goes on behind it.\<close>

lemma returns_d_substream:
  assumes "\<And>parent sub. pb_make_string_substream (d_stream st) = (Some sub, parent) \<Longrightarrow>
      returns strict (left st) (f parent (d_set_stream sub st))" and "\<not> strict"
  shows "returns strict (left st) (d_substream st f)"
proof -
  obtain r s' where r: "pb_make_string_substream (d_stream st) = (r, s')" by fastforce
  show ?thesis
  proof (cases r)
    case None
    with r pb_make_string_substream_left [OF r] assms(2) show ?thesis
      by (auto simp: d_substream_def left_def d_set_stream_def returns_def)
  next
    case (Some sub)
    with assms(1) r show ?thesis by (simp add: d_substream_def)
  qed
qed

lemma returns_d_finish_sub:
  assumes "\<exists>ok st'. r = Some (ok, st')" and "unat (is_bytes_left parent) \<le> k"
  shows "returns False k (d_finish_sub parent r)"
proof -
  from assms(1) obtain ok st' where r: "r = Some (ok, st')" by blast
  obtain ok2 s2 where c: "pb_close_string_substream parent (d_stream st') = (ok2, s2)" by fastforce
  from pb_close_string_substream_left [OF this] c r assms(2) show ?thesis
    by (auto simp: d_finish_sub_def d_close_def returns_def)
qed

section \<open>Submessages\<close>

text \<open>What the recursive call has to do: return, on every type within the depth bound.\<close>

definition total_on :: "nat \<Rightarrow> 'c pb_decode_fn \<Rightarrow> bool" where
  "total_on n dec \<longleftrightarrow>
     (\<forall>st fs dest. dec_msg fs \<longrightarrow> msg_depth fs < n \<longrightarrow> (\<exists>ok st'. dec st fs dest = Some (ok, st')))"

lemma total_onD: "total_on n dec \<Longrightarrow> dec_msg fs \<Longrightarrow> msg_depth fs < n \<Longrightarrow> \<exists>ok st'. dec st fs dest = Some (ok, st')"
  by (auto simp: total_on_def)

lemma set_to_defaults_total:
  "dec_msg fs \<Longrightarrow> msg_depth fs < n \<Longrightarrow>
     \<exists>m'. pb_message_set_to_defaults (pb_field_set_to_default n field_of) fs dest m = Some m'"
  by (rule pb_message_set_to_defaults_total [where n = n]) (auto intro: pb_field_set_to_default_total)

lemma release_total:
  "dec_msg fs \<Longrightarrow> msg_depth fs < n \<Longrightarrow>
     \<exists>h'. pb_release (pb_release_single_field n field_of) fs dest h = Some h'"
  by (rule pb_release_total [where n = n]) (auto intro: pb_release_single_field_total)

lemma pb_decode_with_total:
  assumes "dec_msg fs" and "msg_depth fs < n" and "total_on n noinit"
  shows "\<exists>ok st'. pb_decode_with n field_of noinit st fs dest = Some (ok, st')"
proof -
  from set_to_defaults_total [OF assms(1,2)] obtain m where
    m: "pb_message_set_to_defaults (pb_field_set_to_default n field_of) fs dest (d_mem st) = Some m" by blast
  from total_onD [OF assms(3,1,2)] obtain ok st1 where
    st1: "noinit (d_upd (\<lambda>_. m) st) fs dest = Some (ok, st1)" by blast
  from release_total [OF assms(1,2)] obtain h where
    "pb_release (pb_release_single_field n field_of) fs dest (d_heap st1) = Some h" by blast
  with m st1 show ?thesis by (cases ok) (auto simp: pb_decode_with_def d_with_mem_def)
qed

lemma returns_submessage:
  assumes "dec_field f" and "f_tag f \<noteq> 0" and "field_depth f < n" and "total_on n noinit"
    and "PB_LTYPE (f_type f) = PB_LTYPE_SUBMESSAGE"
  shows "returns False (left st) (pb_dec_submessage n field_of noinit st f p)"
proof -
  from dec_fieldD(4) [OF assms(1,2,5)] obtain fs where fs: "f_ptr f = PtrFields fs" "dec_msg fs" by blast
  then have "msg_depth fs < n" using assms(3) by (simp add: field_depth_ptr)
  note tot = pb_decode_with_total [OF fs(2) this assms(4)] total_onD [OF assms(4) fs(2) this]
  show ?thesis
    unfolding pb_dec_submessage_def fs(1) pb_ptr.case
    by (rule returns_d_substream)
      (auto intro!: returns_d_finish_sub tot simp: left_def dest: pb_make_string_substream_left)
qed

text \<open>The table of decoders.\<close>

lemma returns_decoders:
  assumes "dec_field f" and "f_tag f \<noteq> 0" and "field_depth f < n" and "total_on n noinit"
  shows "returns (PB_LTYPE (f_type f) \<le> PB_LTYPE_LAST_PACKABLE) (left st)
    (PB_DECODERS n field_of noinit (PB_LTYPE (f_type f)) st f p)"
proof -
  define lt where "lt = PB_LTYPE (f_type f)"
  have sub: "lt = PB_LTYPE_SUBMESSAGE \<Longrightarrow> returns False (left st) (pb_dec_submessage n field_of noinit st f p)"
    unfolding lt_def by (rule returns_submessage [OF assms])
  have "lt \<in> {0, 1, 2, 3, 4, 5, 6, 7, 9}"
    using dec_fieldD(2) [OF assms(1,2), folded lt_def] by (auto simp: wire_type_of_def split: if_splits)
  then show ?thesis
    unfolding lt_def [symmetric]
    using sub returns_varints returns_fixed returns_bytes by (auto simp: PB_DECODERS_def)
qed

section \<open>Static fields\<close>

lemma packed_static_loop_total:
  assumes func: "\<And>st p. returns True (left st) (func st (it_field it) p)" and "left st < k"
  shows "\<exists>ok st'. packed_static_loop k func it st = Some (ok, st')"
  using assms(2)
proof (induction k arbitrary: st)
  case (Suc k)
  let ?p = "item_addr (it_pData it) (f_data_size (it_field it)) (load_size st (it_pSize it))"
  from func [of st ?p] obtain ok st1 where st1: "func st (it_field it) ?p = Some (ok, st1)"
    "ok \<Longrightarrow> left st1 < left st" by (auto simp: returns_def)
  show ?case
  proof (cases ok)
    case True
    from Suc.IH [of "store_size st1 (it_pSize it) (load_size st1 (it_pSize it) + 1)"] Suc.prems st1 True
    show ?thesis by (auto simp: Let_def)
  qed (use st1 in \<open>auto simp: Let_def\<close>)
qed simp

lemma returns_static:
  assumes it: "it_dec n it" and sz: "size_ref_ok it" and rec: "total_on n noinit"
  shows "returns False (left st) (decode_static_field n field_of noinit st wt it)"
proof -
  let ?f = "it_field it"
  define func where "func = PB_DECODERS n field_of noinit (PB_LTYPE (f_type ?f))"
  from it have f: "dec_field ?f" "f_tag ?f \<noteq> 0" "field_depth ?f < n" by (simp_all add: it_dec_def)
  note decs = returns_decoders [OF f rec, where field_of = field_of, folded func_def]
  have weak: "returns False k (func st ?f p)" if "left st \<le> k" for st p k
    by (rule returns_weaken [OF decs that])
  have packed: "returns False (left st) (d_substream st (\<lambda>parent st.
      case packed_static_loop (Suc (unat (is_bytes_left (d_stream st)))) func it st of
        None \<Rightarrow> None
      | Some (status, st) \<Rightarrow>
          if is_bytes_left (d_stream st) \<noteq> 0
          then Some (d_error (d_set_stream parent st) ''array overflow'')
          else d_finish_sub parent (Some (status, st))))"
    if "PB_LTYPE (f_type ?f) \<le> PB_LTYPE_LAST_PACKABLE"
  proof (rule returns_d_substream)
    fix parent sub
    assume mk: "pb_make_string_substream (d_stream st) = (Some sub, parent)"
    have parent: "unat (is_bytes_left parent) \<le> left st"
      using pb_make_string_substream_left [OF mk] by (simp add: left_def)
    have "\<exists>ok st'. packed_static_loop (Suc (unat (is_bytes_left (d_stream (d_set_stream sub st))))) func it
        (d_set_stream sub st) = Some (ok, st')"
      by (rule packed_static_loop_total) (use decs that in \<open>simp_all add: left_def d_set_stream_def\<close>)
    then obtain ok st1 where st1: "packed_static_loop (Suc (unat (is_bytes_left (d_stream (d_set_stream sub st))))) func it
        (d_set_stream sub st) = Some (ok, st1)" by blast
    show "returns False (left st) (case packed_static_loop
        (Suc (unat (is_bytes_left (d_stream (d_set_stream sub st))))) func it (d_set_stream sub st) of
          None \<Rightarrow> None
        | Some (status, st) \<Rightarrow>
            if is_bytes_left (d_stream st) \<noteq> 0
            then Some (d_error (d_set_stream parent st) ''array overflow'')
            else d_finish_sub parent (Some (status, st)))"
      unfolding st1 using parent
      by (auto intro!: returns_error returns_d_finish_sub)
  qed simp
  have fresh: "\<exists>m'. fresh_submessage n field_of ?f p m = Some m'"
    if "PB_LTYPE (f_type ?f) = PB_LTYPE_SUBMESSAGE" for p m
  proof -
    from dec_fieldD(4) [OF f(1,2) that] obtain fs where fs: "f_ptr ?f = PtrFields fs" "dec_msg fs" by blast
    with set_to_defaults_total [OF fs(2)] f(3) show ?thesis
      by (simp add: fresh_submessage_def field_depth_ptr)
  qed
  have flag: "\<exists>m'. store_at (it_pSize it) g = Some m'"
    if "PB_HTYPE (f_type ?f) = PB_HTYPE_OPTIONAL" for g
    using sz that by (auto simp: size_ref_ok_def at_addr_def store_at_def split: pb_size_ref.splits)
  show ?thesis
    unfolding decode_static_field_def Let_def func_def [symmetric]
    by (auto intro!: weak packed returns_error returns_d_with_mem fresh flag simp del: packed_static_loop.simps)
qed

section \<open>Pointer fields\<close>

lemma fresh_submessage_total:
  assumes "dec_field f" and "f_tag f \<noteq> 0" and "field_depth f < n"
    and "PB_LTYPE (f_type f) = PB_LTYPE_SUBMESSAGE"
  shows "\<exists>m'. fresh_submessage n field_of f p m = Some m'"
proof -
  from dec_fieldD(4) [OF assms(1,2,4)] obtain fs where fs: "f_ptr f = PtrFields fs" "dec_msg fs" by blast
  with set_to_defaults_total [OF fs(2)] assms(3) show ?thesis
    by (simp add: fresh_submessage_def field_depth_ptr)
qed

lemma initialize_pointer_field_total:
  "it_dec n it \<Longrightarrow> \<exists>m'. initialize_pointer_field n field_of p it m = Some m'"
  using fresh_submessage_total [of "it_field it" n]
  by (auto simp: it_dec_def initialize_pointer_field_def Let_def)

lemma packed_pointer_loop_total:
  assumes it: "it_dec n it" and func: "\<And>st p. returns True (left st) (func st (it_field it) p)"
    and "left st < k"
  shows "\<exists>ok parent' st'. packed_pointer_loop k n field_of func it alloc parent st = Some (ok, parent', st') \<and>
    is_bytes_left parent' = is_bytes_left parent"
  using assms(3)
proof (induction k arbitrary: st alloc)
  case (Suc k)
  let ?ds = "f_data_size (it_field it)"
  have ds: "?ds \<noteq> 0" using it dec_fieldD(3) by (auto simp: it_dec_def)
  define grow where "grow \<longleftrightarrow> ucast (load_size st (it_pSize it)) + 1 > alloc"
  define alloc' where "alloc' = (if grow then alloc + ((is_bytes_left (d_stream st) - 1) div ucast ?ds + 1) else alloc)"
  obtain ok1 st1 where st1: "(if grow then allocate_field st (it_pData it) (ucast ?ds) alloc' else (True, st)) = (ok1, st1)"
    by fastforce
  then have left1: "left st1 = left st" by (auto dest: allocate_field_left split: if_splits)
  define pItem where "pItem = item_addr (load64 (d_mem st1) (it_pData it)) ?ds (load_size st1 (it_pSize it))"
  obtain m where m: "initialize_pointer_field n field_of pItem it (d_mem st1) = Some m"
    using initialize_pointer_field_total [OF it] by blast
  from func [of "d_upd (\<lambda>_. m) st1" pItem] obtain ok2 st2 where
    st2: "func (d_upd (\<lambda>_. m) st1) (it_field it) pItem = Some (ok2, st2)" "ok2 \<Longrightarrow> left st2 < left st"
    by (auto simp: returns_def left1)
  have step: "packed_pointer_loop (Suc k) n field_of func it alloc parent st =
    (if is_bytes_left (d_stream st) = 0 then Some (True, parent, st)
     else if \<not> ok1 then Some (False, parent, st1)
     else if \<not> ok2 then Some (False, parent, st2)
     else if load_size st2 (it_pSize it) = PB_SIZE_MAX
     then Some (False, parent\<lparr>is_errmsg := Some ''too many array entries''\<rparr>, st2)
     else packed_pointer_loop k n field_of func it alloc' parent
            (store_size st2 (it_pSize it) (load_size st2 (it_pSize it) + 1)))"
    unfolding packed_pointer_loop.simps(2) Let_def grow_def [symmetric] alloc'_def [symmetric] st1
    using ds by (cases ok1; cases ok2) (simp_all add: pItem_def [symmetric] m st2(1))
  show ?case
    unfolding step
    using Suc.IH [of "store_size st2 (it_pSize it) (load_size st2 (it_pSize it) + 1)" alloc'] st2(2) Suc.prems
    by auto
qed simp

lemma returns_pointer_single:
  assumes it: "it_dec n it" and at: "at_addr it"
    and func: "\<And>st p. returns False (left st) (func st (it_field it) p)"
  shows "returns False (left st) (decode_pointer_single n field_of func st it)"
proof -
  let ?f = "it_field it"
  have weak: "returns False k (func st ?f p)" if "left st \<le> k" for st p k
    by (rule returns_mono [OF func that])
  obtain h where h: "(if PB_LTYPE (f_type ?f) = PB_LTYPE_SUBMESSAGE \<and> load64 (d_mem st) (it_pData it) \<noteq> 0
      then pb_release_single_field n field_of it (d_heap st) else Some (d_heap st)) = Some h"
    using pb_release_single_field_total [OF it at] by (metis (full_types))
  show ?thesis
    unfolding decode_pointer_single_def Let_def h option.case
    by (auto intro!: weak returns_seq_call [OF returns_allocate] returns_d_with_mem
        initialize_pointer_field_total [OF it])
qed

lemma returns_pointer:
  assumes it: "it_dec n it" and sz: "size_ref_ok it" and rec: "total_on n noinit"
  shows "returns False (left st) (decode_pointer_field n field_of noinit st wt it)"
proof -
  let ?f = "it_field it"
  define func where "func = PB_DECODERS n field_of noinit (PB_LTYPE (f_type ?f))"
  from it have f: "dec_field ?f" "f_tag ?f \<noteq> 0" "field_depth ?f < n" by (simp_all add: it_dec_def)
  note decs = returns_decoders [OF f rec, where field_of = field_of, folded func_def]
  have weak: "returns False k (func st ?f p)" if "left st \<le> k" for st p k
    by (rule returns_weaken [OF decs that])
  have single: "returns False (left st) (decode_pointer_single n field_of func st it)"
    if "PB_HTYPE (f_type ?f) \<noteq> PB_HTYPE_REPEATED"
    using that sz by (intro returns_pointer_single [OF it] weak) (simp_all add: size_ref_ok_def)
  have packed: "returns False (left st) (d_substream st (\<lambda>parent st.
      case packed_pointer_loop (Suc (unat (is_bytes_left (d_stream st)))) n field_of func it alloc parent st of
        None \<Rightarrow> None
      | Some (status, parent, st) \<Rightarrow> d_finish_sub parent (Some (status, st))))"
    if lt: "PB_LTYPE (f_type ?f) \<le> PB_LTYPE_LAST_PACKABLE" for alloc
  proof (rule returns_d_substream)
    fix parent sub
    assume mk: "pb_make_string_substream (d_stream st) = (Some sub, parent)"
    let ?st = "d_set_stream sub st"
    have "\<exists>ok parent' st'. packed_pointer_loop (Suc (unat (is_bytes_left (d_stream ?st)))) n field_of func it
        alloc parent ?st = Some (ok, parent', st') \<and> is_bytes_left parent' = is_bytes_left parent"
      by (rule packed_pointer_loop_total [OF it]) (use decs lt in \<open>simp_all add: left_def d_set_stream_def\<close>)
    then obtain ok parent' st' where r: "packed_pointer_loop (Suc (unat (is_bytes_left (d_stream ?st)))) n
        field_of func it alloc parent ?st = Some (ok, parent', st')" "is_bytes_left parent' = is_bytes_left parent"
      by blast
    have "unat (is_bytes_left parent') \<le> left st"
      using pb_make_string_substream_left [OF mk] r(2) by (simp add: left_def)
    then show "returns False (left st) (case packed_pointer_loop (Suc (unat (is_bytes_left (d_stream ?st)))) n
        field_of func it alloc parent ?st of
          None \<Rightarrow> None
        | Some (status, parent, st) \<Rightarrow> d_finish_sub parent (Some (status, st)))"
      unfolding r(1) by (auto intro!: returns_d_finish_sub)
  qed simp
  show ?thesis
    unfolding decode_pointer_field_def Let_def func_def [symmetric]
    by (auto intro!: single packed weak returns_error returns_seq_call [OF returns_allocate] returns_d_with_mem
        initialize_pointer_field_total [OF it] simp del: packed_pointer_loop.simps)
qed

section \<open>Fields of a message\<close>

lemma find_loop_at_addr:
  assumes "pb_field_iter_find_loop start tag it = Some r" and "at_addr it"
  shows "at_addr (snd r)"
proof -
  have "at_addr it \<longrightarrow> at_addr (snd r)"
    using assms(1)
  proof (rule pb_field_iter_find_loop.raw_induct [where P = "\<lambda>start tag it r. at_addr it \<longrightarrow> at_addr (snd r)", rotated])
    fix loop :: "nat \<Rightarrow> uint32 \<Rightarrow> pb_field_iter \<Rightarrow> (bool \<times> pb_field_iter) option" and start tag it r
    assume IH: "\<And>start tag it r. loop start tag it = Some r \<Longrightarrow> at_addr it \<longrightarrow> at_addr (snd r)"
      and eq: "(if find_match it tag then Some (True, it)
        else let it' = snd (pb_field_iter_next it)
             in if it_pos it' = start then Some (False, it') else loop start tag it') = Some r"
    from eq IH at_addr_next [of it] show "at_addr it \<longrightarrow> at_addr (snd r)"
      by (auto simp: Let_def split: if_splits)
  qed
  with assms(2) show ?thesis by blast
qed

lemma pb_release_union_field_total:
  assumes ok: "iter_ok fs dest it" and at: "at_addr it" and dec: "\<And>it. iter_ok fs dest it \<Longrightarrow> it_dec n it"
  shows "\<exists>b it' st'. pb_release_union_field n field_of st it = Some (b, it', st') \<and>
    iter_ok fs dest it' \<and> at_addr it' \<and> left st' = left st"
proof (cases "load_size st (it_pSize it) = 0 \<or> load_size st (it_pSize it) = f_tag (it_field it)")
  case True
  with ok at show ?thesis by (auto simp: pb_release_union_field_def Let_def)
next
  case False
  let ?old = "load_size st (it_pSize it)" and ?new = "f_tag (it_field it)"
  from pb_field_iter_find_ok [OF ok, of ?old] obtain b1 it1 where
    it1: "pb_field_iter_find it ?old = Some (b1, it1)" "iter_ok fs dest it1" by blast
  have at1: "at_addr it1" using it1(1) at find_loop_at_addr by (fastforce simp: pb_field_iter_find_def)
  show ?thesis
  proof (cases b1)
    case False
    obtain e st' where e: "d_error st ''invalid union tag'' = (e, st')" by fastforce
    then have "left st' = left st" using left_d_error [of st "''invalid union tag''"] by simp
    with e it1 at1 False \<open>\<not> (?old = 0 \<or> ?old = ?new)\<close> show ?thesis
      by (simp add: pb_release_union_field_def Let_def)
  next
    case True
    from pb_release_single_field_total [OF dec [OF it1(2)] at1] obtain h where
      h: "pb_release_single_field n field_of it1 (d_heap st) = Some h" by blast
    from pb_field_iter_find_ok [OF it1(2), of ?new] obtain b2 it2 where
      it2: "pb_field_iter_find it1 ?new = Some (b2, it2)" "iter_ok fs dest it2" by blast
    have at2: "at_addr it2" using it2(1) at1 find_loop_at_addr by (fastforce simp: pb_field_iter_find_def)
    obtain e st' where e: "d_error (st\<lparr>d_heap := h\<rparr>) ''iterator error'' = (e, st')" by fastforce
    then have "left st' = left st" using left_d_error [of "st\<lparr>d_heap := h\<rparr>" "''iterator error''"] by simp
    with e it1 it2 at2 h True \<open>\<not> (?old = 0 \<or> ?old = ?new)\<close> show ?thesis
      by (cases b2) (auto simp: pb_release_union_field_def Let_def)
  qed
qed

lemma decode_field_total:
  assumes ok: "iter_ok fs dest it" and sz: "size_ref_ok it" and dec: "\<And>it. iter_ok fs dest it \<Longrightarrow> it_dec n it"
    and rec: "total_on n noinit"
  shows "\<exists>b it' st'. decode_field n env noinit st wt it = Some (b, it', st') \<and>
    iter_ok fs dest it' \<and> size_ref_ok it' \<and> left st' \<le> left st"
proof -
  have field: "\<exists>b st'. (if PB_ATYPE (f_type (it_field it)) = PB_ATYPE_STATIC
      then decode_static_field n (de_field env) noinit st wt it
      else if PB_ATYPE (f_type (it_field it)) = PB_ATYPE_POINTER
      then decode_pointer_field n (de_field env) noinit st wt it
      else if PB_ATYPE (f_type (it_field it)) = PB_ATYPE_CALLBACK then decode_callback_field n env st wt it
      else Some (d_error st ''invalid field type'')) = Some (b, st') \<and> left st' \<le> left st"
    if "iter_ok fs dest it" "size_ref_ok it" for it and st
    using returns_static [OF dec [OF that(1)] that(2) rec, of st "de_field env" wt]
      returns_pointer [OF dec [OF that(1)] that(2) rec, of st "de_field env" wt]
      dec_fieldD(1) [of "it_field it"] dec [OF that(1)]
    by (auto simp: returns_def it_dec_def)
  show ?thesis
  proof (cases "PB_HTYPE (f_type (it_field it)) = PB_HTYPE_ONEOF")
    case True
    then have "at_addr it" using sz by (simp add: size_ref_ok_def)
    from pb_release_union_field_total [OF ok this dec, of "de_field env" st] obtain b it1 st1 where
      r: "pb_release_union_field n (de_field env) st it = Some (b, it1, st1)" "iter_ok fs dest it1"
        "at_addr it1" "left st1 = left st" by blast
    from r(3) have "size_ref_ok it1" by (simp add: size_ref_ok_def)
    with field [OF r(2) this, of st1] r True show ?thesis
      by (cases b) (auto simp: decode_field_def Let_def)
  next
    case False
    with field [OF ok sz, of st] ok sz show ?thesis
      by (auto simp: decode_field_def Let_def)
  qed
qed

section \<open>The loop over the input\<close>

lemma at_addr_size_ref: "at_addr it \<Longrightarrow> size_ref_ok it"
  by (simp add: size_ref_ok_def)

lemma find_size_ref:
  assumes "pb_field_iter_find it tag = Some (b, it')" and "size_ref_ok it" and "iter_ok fs dest it"
  shows "size_ref_ok it'"
proof (cases "find_match it tag")
  case True
  with assms(1,2) show ?thesis
    by (simp add: pb_field_iter_find_def pb_field_iter_find_loop.simps [of _ _ it])
next
  case False
  have at: "at_addr (snd (pb_field_iter_next it))" by (rule size_ref_ok_next [OF assms(2,3)])
  with False assms(1) find_loop_at_addr [of _ _ "snd (pb_field_iter_next it)"] show ?thesis
    by (fastforce simp: pb_field_iter_find_def pb_field_iter_find_loop.simps [of _ _ it] Let_def
        intro: at_addr_size_ref split: if_splits)
qed

lemma find_extension_loop_total:
  assumes "iter_ok fs dest it" and "size_ref_ok it" and "0 < k"
    and "(it_pos it + k) mod length (field_places fs dest) = start"
    and no_ext: "\<And>it. iter_ok fs dest it \<Longrightarrow> PB_LTYPE (f_type (it_field it)) \<noteq> PB_LTYPE_EXTENSION"
  shows "\<exists>it'. find_extension_loop start it = Some (False, it') \<and> iter_ok fs dest it' \<and> size_ref_ok it'"
  using assms(1-4)
proof (induction k arbitrary: it)
  case (Suc k)
  let ?it = "snd (pb_field_iter_next it)"
  note nx = iter_ok_next_pos [OF Suc.prems(1)]
  have at: "size_ref_ok ?it"
    by (rule at_addr_size_ref [OF size_ref_ok_next [OF Suc.prems(2,1)]])
  show ?case
  proof (cases "it_pos ?it = start")
    case True
    with nx(2) at no_ext [OF Suc.prems(1)] show ?thesis
      by (simp add: find_extension_loop.simps [of start it] Let_def)
  next
    case False
    have shift: "(it_pos ?it + k) mod length (field_places fs dest) = start"
      using Suc.prems(4) unfolding nx(1) by (simp add: mod_add_left_eq)
    with False have "0 < k" using nx(1) by (cases k) (simp_all add: mod_less iter_ok_place(1) [OF nx(2)])
    from Suc.IH [OF nx(2) at this shift] False no_ext [OF Suc.prems(1)] show ?thesis
      by (simp add: find_extension_loop.simps [of start it] Let_def)
  qed
qed simp

definition vars_ok :: "pb_field list \<Rightarrow> addr \<Rightarrow> noinit_vars \<Rightarrow> bool" where
  "vars_ok fs dest v \<longleftrightarrow> iter_ok fs dest (v_iter v) \<and> size_ref_ok (v_iter v)"

text \<open>One pass ends, and goes on only with less input.\<close>

fun step_ok :: "pb_field list \<Rightarrow> addr \<Rightarrow> nat \<Rightarrow> 'c noinit_step \<Rightarrow> bool" where
  "step_ok fs dest k (StepNext v st) \<longleftrightarrow> vars_ok fs dest v \<and> left st < k"
| "step_ok fs dest k (StepBreak v st) \<longleftrightarrow> vars_ok fs dest v"
| "step_ok fs dest k (StepReturn ok st) \<longleftrightarrow> True"

lemma step_ok_result: "vars_ok fs dest v \<Longrightarrow> left st < k \<Longrightarrow> step_ok fs dest k (step_result v (ok, st))"
  by (simp add: step_result_def)

lemma noinit_unknown_total:
  assumes v: "vars_ok fs dest v" and dec: "\<And>it. iter_ok fs dest it \<Longrightarrow> it_dec n it"
    and "left st < k" and tag: "tag < - 1"
  shows "\<exists>r. noinit_unknown n env noinit tag wt v st = Some r \<and> step_ok fs dest k r"
proof -
  have skip: "step_ok fs dest k (case pb_skip_field (d_stream st) wt of
      (ok, s) \<Rightarrow> step_result v' (ok, d_set_stream s st))" if "vars_ok fs dest v'" for v'
  proof (cases "pb_skip_field (d_stream st) wt")
    case (Pair ok s)
    from pb_skip_field_left [OF this] assms(3) Pair that show ?thesis
      by (auto intro!: step_ok_result simp: left_def d_set_stream_def)
  qed
  have no_ext: "PB_LTYPE (f_type (it_field it)) \<noteq> PB_LTYPE_EXTENSION" if "iter_ok fs dest it" for it
    using dec [OF that] dec_fieldD(6) by (auto simp: it_dec_def)
  let ?len = "length (field_places fs dest)"
  from v have it: "iter_ok fs dest (v_iter v)" "size_ref_ok (v_iter v)" by (simp_all add: vars_ok_def)
  have "0 < ?len" by (rule le_less_trans [OF le0 iter_ok_place(1) [OF it(1)]])
  moreover have "(it_pos (v_iter v) + ?len) mod ?len = it_pos (v_iter v)"
    using iter_ok_place(1) [OF it(1)] by simp
  ultimately obtain it' where it': "find_extension_field (v_iter v) = Some (False, it')"
    "iter_ok fs dest it'" "size_ref_ok it'"
    using find_extension_loop_total [OF it, of ?len "it_pos (v_iter v)", OF _ _ no_ext]
    by (auto simp: find_extension_field_def)
  then have "vars_ok fs dest (v\<lparr>v_iter := it', v_extension_range_start := - 1\<rparr>)"
    by (simp add: vars_ok_def)
  from skip [OF v] skip [OF this] it'(1) tag show ?thesis
    by (auto simp: noinit_unknown_def Let_def)
qed

lemma v_iter_mark_seen: "v_iter (mark_seen v) = v_iter v"
  by (simp add: mark_seen_def Let_def)

lemma noinit_known_total:
  assumes v: "vars_ok fs dest v" and dec: "\<And>it. iter_ok fs dest it \<Longrightarrow> it_dec n it"
    and rec: "total_on n noinit" and "left st < k"
  shows "\<exists>r. noinit_known n env noinit wt v st = Some r \<and> step_ok fs dest k r"
proof -
  let ?it = "v_iter v"
  define fixed where "fixed \<longleftrightarrow> PB_HTYPE (f_type (it_field ?it)) = PB_HTYPE_REPEATED \<and> it_pSize ?it = AtAddr (it_pData ?it)"
  define fresh where "fresh \<longleftrightarrow> fixed \<and> v_fixed_count_field v \<noteq> Some (it_pos ?it)"
  define v1 where "v1 = (if fixed then v\<lparr>v_iter := ?it\<lparr>it_pSize := FixedCount\<rparr>\<rparr> else v)"
  define v2 where "v2 = mark_seen (if fresh then v1\<lparr>v_fixed_count_field := Some (it_pos ?it)\<rparr> else v1)"
  define st1 where "st1 = (if fresh then st\<lparr>d_fixed := 0\<rparr> else st)"
  have it1: "iter_ok fs dest (v_iter v2)" "size_ref_ok (v_iter v2)"
    using v by (auto simp: vars_ok_def v2_def v1_def v_iter_mark_seen fixed_def iter_ok_def size_ref_ok_def it_field_def)
  from decode_field_total [OF it1 dec rec, of env st1 wt] obtain b it' st' where
    r: "decode_field n env noinit st1 wt (v_iter v2) = Some (b, it', st')" "iter_ok fs dest it'"
      "size_ref_ok it'" "left st' \<le> left st1" by blast
  have "noinit_known n env noinit wt v st =
    (if fresh \<and> \<not> fixed_count_ok v st
     then Some (step_result v (d_error st ''wrong size for fixed count field''))
     else Some (step_result (v2\<lparr>v_iter := it'\<rparr>) (b, st')))"
    unfolding noinit_known_def Let_def fixed_def [symmetric] fresh_def [symmetric] v1_def [symmetric]
      v2_def [symmetric] st1_def [symmetric] r(1) by simp
  moreover have "step_ok fs dest k (step_result v (d_error st msg))" for msg
    by (simp add: d_error_def step_result_def)
  moreover have "step_ok fs dest k (step_result (v2\<lparr>v_iter := it'\<rparr>) (b, st'))"
    using r(2-4) assms(4) by (intro step_ok_result) (auto simp: vars_ok_def st1_def split: if_splits)
  ultimately show ?thesis by simp
qed

lemma noinit_body_total:
  assumes v: "vars_ok fs dest v" and dec: "\<And>it. iter_ok fs dest it \<Longrightarrow> it_dec n it" and rec: "total_on n noinit"
  shows "\<exists>r. noinit_body n env noinit v st = Some r \<and> step_ok fs dest (left st) r"
proof -
  obtain t s where t: "pb_decode_tag (d_stream st) = (t, s)" by fastforce
  show ?thesis
  proof (cases t)
    case (TagField wt tag)
    note l = pb_decode_tag_left(2,3) [OF t TagField]
    have less: "left (d_set_stream s st) < left st" using l(1) by (simp add: left_def d_set_stream_def)
    from v have it: "iter_ok fs dest (v_iter v)" "size_ref_ok (v_iter v)" by (simp_all add: vars_ok_def)
    from pb_field_iter_find_ok [OF it(1), of tag] obtain b it' where
      f: "pb_field_iter_find (v_iter v) tag = Some (b, it')" "iter_ok fs dest it'" by blast
    with find_size_ref [OF f(1) it(2,1)] have v': "vars_ok fs dest (v\<lparr>v_iter := it'\<rparr>)"
      by (simp add: vars_ok_def)
    from noinit_unknown_total [OF v' dec less l(2), of env noinit wt]
      noinit_known_total [OF v' dec rec less, of env wt] f(1) t TagField show ?thesis
      by (cases b) (simp_all add: noinit_body_def Let_def)
  qed (use t v in \<open>simp_all add: noinit_body_def\<close>)
qed

lemma noinit_loop_total:
  assumes "\<And>v st. vars_ok fs dest v \<Longrightarrow> \<exists>r. body v st = Some r \<and> step_ok fs dest (left st) r"
    and "vars_ok fs dest v" and "left st < k"
  shows "(\<exists>v' st'. noinit_loop k body v st = Some (StepBreak v' st') \<and> vars_ok fs dest v') \<or>
    (\<exists>ok st'. noinit_loop k body v st = Some (StepReturn ok st'))"
  using assms(2,3)
proof (induction k arbitrary: v st)
  case (Suc k)
  from assms(1) [OF Suc.prems(1), of st] obtain r where r: "body v st = Some r" "step_ok fs dest (left st) r" by blast
  show ?case
  proof (cases "is_bytes_left (d_stream st) = 0")
    case True
    with Suc.prems(1) show ?thesis by simp
  next
    case False
    show ?thesis
    proof (cases r)
      case (StepNext v' st')
      with Suc.IH [of v' st'] r Suc.prems(2) False show ?thesis by simp
    qed (use False r in simp_all)
  qed
qed simp

lemma vars_ok_start:
  assumes "dec_msg fs"
  shows "vars_ok fs dest (noinit_start fs dest)"
proof -
  obtain it where it: "pb_field_iter_begin fs dest = (True, it)"
    using dec_msg_begin [OF assms, of dest] by (metis prod.collapse)
  with iter_ok_begin [OF it] at_addr_begin [of fs dest] show ?thesis
    by (simp add: vars_ok_def noinit_start_def at_addr_size_ref)
qed

lemma pb_decode_noinit_total: "total_on n (pb_decode_noinit n env)"
proof (induction n)
  case 0
  show ?case by (simp add: total_on_def)
next
  case (Suc n)
  show ?case
    unfolding total_on_def
  proof (intro allI impI)
    fix st :: "'a dstate" and fs dest
    assume fs: "dec_msg fs" "msg_depth fs < Suc n"
    have body: "\<exists>r. noinit_body n env (pb_decode_noinit n env) v st = Some r \<and> step_ok fs dest (left st) r"
      if "vars_ok fs dest v" for v and st :: "'a dstate"
      by (rule noinit_body_total [OF that iter_ok_it_dec [OF fs] Suc.IH])
    have "left (st\<lparr>d_fixed := 0\<rparr>) < Suc (unat (is_bytes_left (d_stream st)))" by (simp add: left_def)
    from noinit_loop_total [where body = "noinit_body n env (pb_decode_noinit n env)", OF body vars_ok_start [OF fs(1)] this]
    show "\<exists>ok st'. pb_decode_noinit (Suc n) env st fs dest = Some (ok, st')"
      by (auto simp del: noinit_loop.simps split: prod.split)
  qed
qed

end
