(* ===== verification/Pb_Decode_Props.thy ===== *)
theory Pb_Decode_Props
  imports Pb_Decode_Total Pb_Message_Props
begin

text \<open>
  The properties of the decoder, stated over its entry points \<open>pb_decode\<close> and \<open>pb_decode_delimited\<close>
  and applied to the generated message types.
\<close>

section \<open>Termination on every input\<close>

text \<open>The ten generated message types are ones that the decoder handles without user code.\<close>

lemma dec_msg_tables: "list_all (\<lambda>(fs, st, ms). dec_msg fs) message_types"
  by (simp add: message_types_def dec_msg_def table_evals table_ok_simps default_ok_def)

definition no_decode_callbacks :: "'c dec_env" where
  "no_decode_callbacks = \<lparr>de_callback = (\<lambda>fn f arg s h. (False, s, h)),
     de_ext_decode = (\<lambda>fn ext tag wt s h. (False, s, h)), de_field = (\<lambda>a. PB_LAST_FIELD)\<rparr>"

text \<open>A decoder state: an input buffer, all memory zero, no block allocated, an allocator that
  hands out the listed addresses.\<close>

definition decode_input :: "byte list \<Rightarrow> addr list \<Rightarrow> unit dstate" where
  "decode_input bs choices =
     \<lparr>d_stream = pb_istream_from_buffer bs (of_nat (length bs)),
      d_heap = \<lparr>h_mem = (\<lambda>_. 0), h_blocks = [], h_choices = choices, h_fault = False\<rparr>, d_fixed = 0\<rparr>"



end
