(* ===== verification/Base64.thy ===== *)
theory Base64
  imports Pb_Prelude
begin

text \<open>
  Base64 of \<open>third_party/SocketRocket/fbase64.c\<close>: \<open>f_b64_ntop\<close> and
  \<open>f_b64_pton\<close>. Characters are bytes. A target area is a list of bytes that is updated
  in place; the target of \<open>f_b64_pton\<close> may be the null pointer. A source string ends at its
  first zero byte, or at the end of the list.
\<close>

section \<open>Encoding\<close>

definition Base64_table :: "byte list" where
  "Base64_table =
     map of_char ''ABCDEFGHIJKLMNOPQRSTUVWXYZabcdefghijklmnopqrstuvwxyz0123456789+/''"

abbreviation (input) Pad64 :: byte where "Pad64 \<equiv> 0x3D"

definition Base64_at :: "byte \<Rightarrow> byte" where
  "Base64_at i = Base64_table ! unat i"

text \<open>The six-bit groups of up to three input bytes.\<close>

definition b64_out0 :: "byte \<Rightarrow> byte" where
  "b64_out0 a = drop_bit 2 a"

definition b64_out1 :: "byte \<Rightarrow> byte \<Rightarrow> byte" where
  "b64_out1 a b = push_bit 4 (a AND 0x03) + drop_bit 4 b"

definition b64_out2 :: "byte \<Rightarrow> byte \<Rightarrow> byte" where
  "b64_out2 b c = push_bit 2 (b AND 0x0F) + drop_bit 6 c"

definition b64_out3 :: "byte \<Rightarrow> byte" where
  "b64_out3 c = c AND 0x3F"

text \<open>\<open>target[datalength++] = c\<close> for several characters.\<close>

primrec put_chars :: "byte list \<Rightarrow> size_t \<Rightarrow> byte list \<Rightarrow> byte list \<times> size_t" where
  "put_chars target datalength [] = (target, datalength)"
| "put_chars target datalength (c # cs) =
     put_chars (target[unat datalength := c]) (datalength + 1) cs"

text \<open>The loop over full groups: the rest of the source, the target and the length, or
  \<open>None\<close> when the target is too small; the target is returned in both cases.\<close>

fun f_b64_ntop_loop ::
  "byte list \<Rightarrow> byte list \<Rightarrow> size_t \<Rightarrow> size_t \<Rightarrow> (byte list \<times> size_t) option \<times> byte list" where
  "f_b64_ntop_loop (a # b # c # src) target datalength targsize =
     (if datalength + 4 > targsize then (None, target)
      else case put_chars target datalength
                  (map Base64_at [b64_out0 a, b64_out1 a b, b64_out2 b c, b64_out3 c]) of
        (target, datalength) \<Rightarrow> f_b64_ntop_loop src target datalength targsize)"
| "f_b64_ntop_loop src target datalength targsize = (Some (src, datalength), target)"

text \<open>The conversion of the length to \<open>int\<close>.\<close>

definition int_of_size :: "size_t \<Rightarrow> int" where
  "int_of_size n = sint (ucast n :: 32 word)"

definition f_b64_ntop :: "byte list \<Rightarrow> byte list \<Rightarrow> size_t \<Rightarrow> int \<times> byte list" where
  "f_b64_ntop src target targsize =
     (case f_b64_ntop_loop src target 0 targsize of
        (None, target) \<Rightarrow> (- 1, target)
      | (Some (rest, datalength), target) \<Rightarrow>
          (let finish = (\<lambda>target datalength.
                 if datalength \<ge> targsize then (- 1, target)
                 else (int_of_size datalength, target[unat datalength := 0]))
           in case rest of
                [] \<Rightarrow> finish target datalength
              | a # more_src \<Rightarrow>
                  (let b = (case more_src of [] \<Rightarrow> 0 | b # _ \<Rightarrow> b)
                   in if datalength + 4 > targsize then (- 1, target)
                      else case put_chars target datalength
                                  [Base64_at (b64_out0 a), Base64_at (b64_out1 a b),
                                   if more_src = [] then Pad64 else Base64_at (b64_out2 b 0), Pad64] of
                        (target, datalength) \<Rightarrow> finish target datalength)))"

section \<open>Decoding\<close>

text \<open>\<open>isspace\<close> in the C locale.\<close>

definition is_space :: "byte \<Rightarrow> bool" where
  "is_space c \<longleftrightarrow> c = 0x20 \<or> 0x09 \<le> c \<and> c \<le> 0x0D"

text \<open>\<open>strchr(Base64, ch) - Base64\<close>.\<close>

fun index_of :: "byte \<Rightarrow> byte list \<Rightarrow> byte \<Rightarrow> byte option" where
  "index_of c [] i = None"
| "index_of c (x # xs) i = (if x = c then Some i else index_of c xs (i + 1))"

definition b64_pos :: "byte \<Rightarrow> byte option" where
  "b64_pos c = index_of c Base64_table 0"

text \<open>\<open>target[i] = v\<close> and \<open>target[i] |= v\<close>.\<close>

definition tset :: "byte list \<Rightarrow> uint32 \<Rightarrow> byte \<Rightarrow> byte list" where
  "tset t i v = t[unat i := v]"

definition tor :: "byte list \<Rightarrow> uint32 \<Rightarrow> byte \<Rightarrow> byte list" where
  "tor t i v = t[unat i := (t ! unat i) OR v]"

text \<open>One character: the \<open>switch (state)\<close>. The new state, index and target, or
  \<open>None\<close> when the target is too small.\<close>

definition f_b64_pton_char ::
  "byte \<Rightarrow> nat \<Rightarrow> uint32 \<Rightarrow> byte list option \<Rightarrow> size_t \<Rightarrow> (nat \<times> uint32 \<times> byte list option) option" where
  "f_b64_pton_char pos state tarindex target targsize =
     (if state = 0 then
        (case target of
           None \<Rightarrow> Some (1, tarindex, None)
         | Some t \<Rightarrow>
             if ucast tarindex \<ge> targsize then None
             else Some (1, tarindex, Some (tset t tarindex (push_bit 2 pos))))
      else if state = 1 then
        (case target of
           None \<Rightarrow> Some (2, tarindex + 1, None)
         | Some t \<Rightarrow>
             if ucast (tarindex + 1) \<ge> targsize then None
             else Some (2, tarindex + 1,
                    Some (tset (tor t tarindex (drop_bit 4 pos)) (tarindex + 1)
                            (push_bit 4 (pos AND 0x0F)))))
      else if state = 2 then
        (case target of
           None \<Rightarrow> Some (3, tarindex + 1, None)
         | Some t \<Rightarrow>
             if ucast (tarindex + 1) \<ge> targsize then None
             else Some (3, tarindex + 1,
                    Some (tset (tor t tarindex (drop_bit 2 pos)) (tarindex + 1)
                            (push_bit 6 (pos AND 0x03)))))
      else
        (case target of
           None \<Rightarrow> Some (0, tarindex + 1, None)
         | Some t \<Rightarrow>
             if ucast tarindex \<ge> targsize then None
             else Some (0, tarindex + 1, Some (tor t tarindex pos))))"

text \<open>How the main loop ends: an error, the end of the string, or a pad character with what
  follows it.\<close>

datatype pton_end =
  PtonError "byte list option"
| PtonNul nat uint32 "byte list option"
| PtonPad "byte list" nat uint32 "byte list option"

fun f_b64_pton_loop :: "byte list \<Rightarrow> nat \<Rightarrow> uint32 \<Rightarrow> byte list option \<Rightarrow> size_t \<Rightarrow> pton_end" where
  "f_b64_pton_loop [] state tarindex target targsize = PtonNul state tarindex target"
| "f_b64_pton_loop (ch # src) state tarindex target targsize =
     (if ch = 0 then PtonNul state tarindex target
      else if is_space ch then f_b64_pton_loop src state tarindex target targsize
      else if ch = Pad64 then PtonPad src state tarindex target
      else case b64_pos ch of
        None \<Rightarrow> PtonError target
      | Some pos \<Rightarrow>
          (case f_b64_pton_char pos state tarindex target targsize of
             None \<Rightarrow> PtonError target
           | Some (state, tarindex, target) \<Rightarrow>
               f_b64_pton_loop src state tarindex target targsize))"

text \<open>The string from its first character that is not a space.\<close>

fun skip_spaces :: "byte list \<Rightarrow> byte list" where
  "skip_spaces [] = []"
| "skip_spaces (ch # src) = (if ch \<noteq> 0 \<and> is_space ch then skip_spaces src else ch # src)"

definition at_end :: "byte list \<Rightarrow> bool" where
  "at_end src \<longleftrightarrow> src = [] \<or> hd src = 0"

definition f_b64_pton :: "byte list \<Rightarrow> byte list option \<Rightarrow> size_t \<Rightarrow> int \<times> byte list option" where
  "f_b64_pton src target targsize =
     (case f_b64_pton_loop src 0 0 target targsize of
        PtonError target \<Rightarrow> (- 1, target)
      | PtonNul state tarindex target \<Rightarrow>
          if state \<noteq> 0 then (- 1, target) else (sint tarindex, target)
      | PtonPad src state tarindex target \<Rightarrow>
          if state = 0 \<or> state = 1 then (- 1, target)
          else
            (let src1 = skip_spaces src
             in if state = 2 \<and> (at_end src1 \<or> hd src1 \<noteq> Pad64) then (- 1, target)
                else if \<not> at_end (skip_spaces (if state = 2 then tl src1 else src)) then (- 1, target)
                else if (case target of None \<Rightarrow> False | Some t \<Rightarrow> t ! unat tarindex \<noteq> 0)
                then (- 1, target)
                else (sint tarindex, target)))"

end
