(* ===== verification/Base64_Props.thy ===== *)
theory Base64_Props
  imports Base64
begin

text \<open>
  What \<open>fbase64.c\<close> computes: \<open>f_b64_ntop\<close> writes the reference encoding
  \<open>b64_spec\<close> followed by a terminator, \<open>f_b64_pton\<close> inverts it, and neither writes
  outside the size it is given.
\<close>

section \<open>Reference encoding\<close>

text \<open>RFC 1521: groups of three bytes as four characters, the last group padded.\<close>

fun b64_spec :: "byte list \<Rightarrow> byte list" where
  "b64_spec (a # b # c # src) =
     map Base64_at [b64_out0 a, b64_out1 a b, b64_out2 b c, b64_out3 c] @ b64_spec src"
| "b64_spec [a, b] = [Base64_at (b64_out0 a), Base64_at (b64_out1 a b), Base64_at (b64_out2 b 0), Pad64]"
| "b64_spec [a] = [Base64_at (b64_out0 a), Base64_at (b64_out1 a 0), Pad64, Pad64]"
| "b64_spec [] = []"

lemma length_b64_spec: "length (b64_spec src) = 4 * ((length src + 2) div 3)"
proof (induction src rule: b64_spec.induct)
  case (1 a b c src)
  have "(length src + 5) div 3 = Suc ((length src + 2) div 3)" by (simp add: div_if)
  with 1 show ?case by (simp add: add.commute)
qed simp_all

section \<open>The encoder writes the reference encoding\<close>

lemma unat_add_of_nat:
  "unat (d :: size_t) + k < 2 ^ 64 \<Longrightarrow> unat (d + of_nat k) = unat d + k"
  by (subst unat_add_no_wrap) (simp_all add: unat_of_nat)

lemma put_chars_split:
  "unat d + length cs \<le> length t \<Longrightarrow> unat d + length cs < 2 ^ 64 \<Longrightarrow>
     put_chars t d cs = (take (unat d) t @ cs @ drop (unat d + length cs) t, d + of_nat (length cs))"
proof (induction cs arbitrary: t d)
  case Nil
  then show ?case by simp
next
  case (Cons c cs)
  have d: "unat (d + 1) = unat d + 1" using Cons.prems unat_add_of_nat [of d 1] by simp
  have "take (Suc (unat d)) (t[unat d := c]) = take (unat d) t @ [c]"
    using Cons.prems by (simp add: take_Suc_conv_app_nth)
  with Cons d show ?case by (simp add: add.assoc add.commute)
qed

lemma splice:
  assumes "d + length cs \<le> length t"
  shows "take (d + length cs) (take d t @ cs @ drop (d + length cs) t) = take d t @ cs"
    and "d + length cs \<le> e \<Longrightarrow> drop e (take d t @ cs @ drop (d + length cs) t) = drop e t"
    and "length (take d t @ cs @ drop (d + length cs) t) = length t"
  using assms by simp_all

lemma f_b64_ntop_loop_group:
  assumes "cs = map Base64_at [b64_out0 a, b64_out1 a b, b64_out2 b c, b64_out3 c]"
    and "unat d + 4 \<le> unat targsize" and "unat targsize \<le> length t" and "unat targsize < 2 ^ 63"
  shows "f_b64_ntop_loop (a # b # c # src) t d targsize =
      f_b64_ntop_loop src (take (unat d) t @ cs @ drop (unat d + length cs) t) (d + 4) targsize"
proof -
  have d: "unat (d + 4) = unat d + 4" using assms unat_add_of_nat [of d 4] by simp
  then have "\<not> d + 4 > targsize" using assms by (simp add: word_less_nat_alt)
  moreover have "length cs = 4" using assms(1) by simp
  then have "put_chars t d cs = (take (unat d) t @ cs @ drop (unat d + length cs) t, d + 4)"
    using assms put_chars_split [of d cs t] by (simp del: put_chars.simps)
  ultimately show ?thesis unfolding f_b64_ntop_loop.simps(1) assms(1) [symmetric] by simp
qed

lemma f_b64_ntop_loop_spec:
  assumes "unat d + length (b64_spec src) < unat targsize" and "unat targsize \<le> length t"
    and "unat targsize < 2 ^ 63"
  shows "\<exists>rest pre d'. f_b64_ntop_loop src t d targsize =
      (Some (rest, d'), take (unat d) t @ pre @ drop (unat d') t) \<and>
      length rest < 3 \<and> b64_spec src = pre @ b64_spec rest \<and> unat d' = unat d + length pre"
  using assms
proof (induction src arbitrary: t d rule: b64_spec.induct)
  case (1 a b c src)
  define cs where "cs = map Base64_at [b64_out0 a, b64_out1 a b, b64_out2 b c, b64_out3 c]"
  define t' where "t' = take (unat d) t @ cs @ drop (unat d + length cs) t"
  have len: "length cs = 4" by (simp add: cs_def)
  have spec: "b64_spec (a # b # c # src) = cs @ b64_spec src" by (simp add: cs_def)
  from "1.prems" spec len have fits: "unat d + 4 + length (b64_spec src) < unat targsize" by simp
  then have d: "unat (d + 4) = unat d + length cs"
    using "1.prems"(3) len unat_add_of_nat [of d 4] by simp
  note sp = splice [of "unat d" cs t, folded t'_def]
  have "\<exists>rest pre d'. f_b64_ntop_loop src t' (d + 4) targsize =
      (Some (rest, d'), take (unat (d + 4)) t' @ pre @ drop (unat d') t') \<and>
      length rest < 3 \<and> b64_spec src = pre @ b64_spec rest \<and> unat d' = unat (d + 4) + length pre"
    using fits d len "1.prems" sp(3) by (intro "1.IH") simp_all
  then obtain rest pre d' where r: "f_b64_ntop_loop src t' (d + 4) targsize =
      (Some (rest, d'), take (unat (d + 4)) t' @ pre @ drop (unat d') t')" "length rest < 3"
      "b64_spec src = pre @ b64_spec rest" "unat d' = unat (d + 4) + length pre" by blast
  have "f_b64_ntop_loop (a # b # c # src) t d targsize = f_b64_ntop_loop src t' (d + 4) targsize"
    unfolding t'_def using fits "1.prems" by (intro f_b64_ntop_loop_group cs_def) simp_all
  also have "\<dots> = (Some (rest, d'), take (unat d) t @ (cs @ pre) @ drop (unat d') t)"
    using r d sp fits "1.prems"(2) len by simp
  finally show ?case using r d spec len
    by (intro exI [of _ rest] exI [of _ "cs @ pre"] exI [of _ d']) simp
qed (auto intro: exI [of _ "[]"])

lemma signed_31: "k < 2 ^ 31 \<Longrightarrow> signed_take_bit 31 (int k) = int k"
  by (rule signed_take_bit_int_eq_self) auto

lemma int_of_size_small: "unat n < 2 ^ 31 \<Longrightarrow> int_of_size n = int (unat n)"
proof -
  assume n: "unat n < 2 ^ 31"
  then have "unat (ucast n :: 32 word) = unat n" by (simp add: unsigned_ucast_eq take_bit_eq_mod)
  then have u: "uint (ucast n :: 32 word) = int (unat n)" by (metis uint_nat)
  with n signed_31 [of "unat n"] show ?thesis by (simp add: int_of_size_def sint_uint)
qed

lemma list_less_3: "length xs < 3 \<Longrightarrow> xs = [] \<or> (\<exists>a. xs = [a]) \<or> (\<exists>a b. xs = [a, b])"
  by (cases xs; cases "tl xs"; cases "tl (tl xs)") auto

lemma f_b64_ntop_spec:
  assumes "length (b64_spec src) < unat targsize" and "unat targsize \<le> length target"
    and "unat targsize < 2 ^ 31"
  shows "f_b64_ntop src target targsize =
    (int (length (b64_spec src)), b64_spec src @ 0 # drop (Suc (length (b64_spec src))) target)"
proof -
  from assms(3) have big: "unat targsize < 2 ^ 63" by simp
  from f_b64_ntop_loop_spec [of 0 src targsize target] assms(1,2) big
  obtain rest pre d where r: "f_b64_ntop_loop src target 0 targsize = (Some (rest, d), pre @ drop (unat d) target)"
    "length rest < 3" "b64_spec src = pre @ b64_spec rest" "unat d = length pre" by auto
  let ?t = "pre @ drop (unat d) target"
  have len: "length ?t = length target" using assms r(3,4) by simp
  show ?thesis
  proof (cases "rest = []")
    case True
    then have "\<not> d \<ge> targsize" using assms(1) r(3,4) by (simp add: word_le_nat_alt)
    moreover have "?t[unat d := 0] = pre @ 0 # drop (Suc (unat d)) target"
      using assms r(3,4) True by (simp add: list_update_append Cons_nth_drop_Suc [symmetric])
    ultimately show ?thesis using r True assms by (simp add: f_b64_ntop_def int_of_size_small)
  next
    case False
    define cs where "cs = b64_spec rest"
    from False list_less_3 [OF r(2)] obtain a where rest: "rest = [a] \<or> (\<exists>b. rest = [a, b])" by auto
    then have c4: "length cs = 4" by (auto simp: cs_def)
    have fits: "unat d + 4 < unat targsize" using assms(1) r(3,4) c4 by (simp add: cs_def)
    then have d4: "unat (d + 4) = unat d + 4" using big unat_add_of_nat [of d 4] by simp
    have put: "put_chars ?t d cs = (pre @ cs @ drop (unat d + 4) target, d + 4)"
      using put_chars_split [of d cs ?t] fits assms(2) len c4 r(4) big
      by (simp del: put_chars.simps add: add.commute)
    have ok: "\<not> d + 4 > targsize" "\<not> d + 4 \<ge> targsize"
      using fits d4 by (simp_all add: word_less_nat_alt word_le_nat_alt)
    have upd: "(pre @ cs @ drop (unat d + 4) target)[unat (d + 4) := 0]
        = pre @ cs @ 0 # drop (Suc (unat d + 4)) target"
      using fits assms(2) r(4) c4 d4 by (simp add: list_update_append Cons_nth_drop_Suc [symmetric])
    have val: "int_of_size (d + 4) = int (length (b64_spec src))"
      using fits assms(3) d4 r(3,4) c4 by (subst int_of_size_small) (simp_all add: cs_def)
    from rest r(1) ok put upd val r(3,4) c4 show ?thesis
      by (auto simp: f_b64_ntop_def cs_def simp del: put_chars.simps)
  qed
qed

section \<open>The decoder inverts the reference encoding\<close>

lemma Base64_table_eval: "Base64_table =
     [65, 66, 67, 68, 69, 70, 71, 72, 73, 74, 75, 76, 77, 78, 79, 80, 81, 82, 83, 84, 85,
      86, 87, 88, 89, 90, 97, 98, 99, 100, 101, 102, 103, 104, 105, 106, 107, 108, 109,
      110, 111, 112, 113, 114, 115, 116, 117, 118, 119, 120, 121, 122, 48, 49, 50, 51, 52,
      53, 54, 55, 56, 57, 43, 47]"
  by (simp add: Base64_table_def of_char_def)

lemma index_of_nth:
  "distinct xs \<Longrightarrow> n < length xs \<Longrightarrow> index_of (xs ! n) xs i = Some (i + of_nat n)"
proof (induction xs arbitrary: n i)
  case (Cons x xs)
  then show ?case by (cases n) (auto simp: add.assoc)
qed simp

lemma Base64_table_chars:
  "distinct Base64_table" "length Base64_table = 64"
  "\<forall>c \<in> set Base64_table. c \<noteq> 0 \<and> \<not> is_space c \<and> c \<noteq> Pad64"
  unfolding Base64_table_eval is_space_def by simp_all

lemma Base64_at_ok:
  assumes "unat x < 64"
  shows "b64_pos (Base64_at x) = Some x" "Base64_at x \<noteq> 0" "\<not> is_space (Base64_at x)"
    "Base64_at x \<noteq> Pad64"
proof -
  have "Base64_at x \<in> set Base64_table"
    using assms Base64_table_chars(2) by (simp add: Base64_at_def)
  with Base64_table_chars(3) show "Base64_at x \<noteq> 0" "\<not> is_space (Base64_at x)"
    "Base64_at x \<noteq> Pad64" by blast+
  show "b64_pos (Base64_at x) = Some x"
    using index_of_nth [OF Base64_table_chars(1), of "unat x" 0] assms Base64_table_chars(2)
    by (simp add: b64_pos_def Base64_at_def)
qed

lemma f_b64_pton_loop_char:
  assumes "unat x < 64"
  shows "f_b64_pton_loop (Base64_at x # cs) st i t sz =
    (case f_b64_pton_char x st i t sz of
       None \<Rightarrow> PtonError t
     | Some (st, i, t) \<Rightarrow> f_b64_pton_loop cs st i t sz)"
  using Base64_at_ok [OF assms] by simp

lemma and_mask_byte: "(0x03 :: byte) = mask 2" "(0x0F :: byte) = mask 4" "(0x3F :: byte) = mask 6"
  by (simp_all add: mask_eq_exp_minus_1)

lemma add_is_or:
  fixes x y :: byte
  assumes "\<And>n. bit x n \<Longrightarrow> \<not> bit y n"
  shows "x + y = x OR y"
  using assms by (intro disjunctive_add) blast

lemma b64_out1_or: "b64_out1 a b = push_bit 4 (a AND 0x03) OR drop_bit 4 b"
  unfolding b64_out1_def
  by (rule add_is_or) (auto simp: bit_simps and_mask_byte dest: bit_imp_le_length)

lemma b64_out2_or: "b64_out2 b c = push_bit 2 (b AND 0x0F) OR drop_bit 6 c"
  unfolding b64_out2_def
  by (rule add_is_or) (auto simp: bit_simps and_mask_byte dest: bit_imp_le_length)

lemma lt64I: "(\<And>n. bit (x :: byte) n \<Longrightarrow> n < 6) \<Longrightarrow> unat x < 64"
proof -
  assume "\<And>n. bit x n \<Longrightarrow> n < 6"
  then have "take_bit 6 x = x" by (intro bit_word_eqI) (auto simp: bit_simps)
  then show ?thesis using unat_take_bit [of 6 x] by simp
qed

lemma b64_out_lt:
  "unat (b64_out0 a) < 64" "unat (b64_out1 a b) < 64" "unat (b64_out2 b c) < 64" "unat (b64_out3 c) < 64"
  unfolding b64_out1_or b64_out2_or b64_out0_def b64_out3_def
  by (rule lt64I; auto simp: bit_simps and_mask_byte dest: bit_imp_le_length)+

lemma less_8_cases:
  "n < LENGTH(8) \<Longrightarrow> n = 0 \<or> n = 1 \<or> n = 2 \<or> n = 3 \<or> n = 4 \<or> n = 5 \<or> n = 6 \<or> n = 7"
  by auto

lemma b64_recombine:
  "push_bit 2 (b64_out0 a) OR drop_bit 4 (b64_out1 a b) = a"
  "push_bit 4 (b64_out1 a b AND 0x0F) OR drop_bit 2 (b64_out2 b c) = b"
  "push_bit 6 (b64_out2 b c AND 0x03) OR b64_out3 c = c"
  "push_bit 4 (b64_out1 a 0 AND 0x0F) = 0" "push_bit 6 (b64_out2 b 0 AND 0x03) = 0"
  unfolding b64_out1_or b64_out2_or b64_out0_def b64_out3_def
  by (rule bit_word_eqI, drule less_8_cases, elim disjE; simp add: bit_simps and_mask_byte)+

lemma unat_add_u32: "unat (i :: uint32) + k < 2 ^ 32 \<Longrightarrow> unat (i + of_nat k) = unat i + k"
  by (subst unat_add_no_wrap) (simp_all add: unat_of_nat)

lemma ucast_index: "unat (ucast (i :: uint32) :: size_t) = unat i"
  using unat_less_pow [of i] by (simp add: unsigned_ucast_eq take_bit_eq_mod)

lemma f_b64_pton_loop_pad: "f_b64_pton_loop (Pad64 # cs) st i t sz = PtonPad cs st i t"
  by (simp add: is_space_def)

declare f_b64_pton_loop.simps [simp del]

lemmas pton_eval = f_b64_pton_loop_pad f_b64_pton_loop_char b64_out_lt f_b64_pton_char_def tset_def tor_def
  word_le_nat_alt ucast_index

text \<open>One, two and three bytes at position \<open>i\<close> of the target.\<close>

lemma f_b64_pton_group:
  assumes "unat i + 3 \<le> unat sz" and "unat i + 3 < 2 ^ 32" and "unat sz \<le> length t"
  shows "f_b64_pton_loop (map Base64_at [b64_out0 a, b64_out1 a b, b64_out2 b c, b64_out3 c] @ cs) 0 i (Some t) sz
    = f_b64_pton_loop cs 0 (3 + i) (Some (t[unat i := a, Suc (unat i) := b, Suc (Suc (unat i)) := c])) sz"
proof -
  have i: "unat (i + 1) = Suc (unat i)" "unat (2 + i) = Suc (Suc (unat i))"
    using assms(2) unat_add_u32 [of i 1] unat_add_u32 [of i 2] by (simp_all add: add.commute)
  then show ?thesis using assms
    by (simp add: pton_eval b64_recombine [simplified])
qed

lemma f_b64_pton_two:
  assumes "unat i + 2 < unat sz" and "unat i + 3 < 2 ^ 32" and "unat sz \<le> length t"
  shows "f_b64_pton_loop [Base64_at (b64_out0 a), Base64_at (b64_out1 a b), Base64_at (b64_out2 b 0), Pad64] 0 i (Some t) sz
    = PtonPad [] 3 (2 + i) (Some (t[unat i := a, Suc (unat i) := b, Suc (Suc (unat i)) := 0]))"
proof -
  have i: "unat (i + 1) = Suc (unat i)" "unat (2 + i) = Suc (Suc (unat i))"
    using assms(2) unat_add_u32 [of i 1] unat_add_u32 [of i 2] by (simp_all add: add.commute)
  then show ?thesis using assms
    by (simp add: pton_eval b64_recombine [simplified])
qed

lemma f_b64_pton_one:
  assumes "unat i + 1 < unat sz" and "unat i + 3 < 2 ^ 32" and "unat sz \<le> length t"
  shows "f_b64_pton_loop [Base64_at (b64_out0 a), Base64_at (b64_out1 a 0), Pad64, Pad64] 0 i (Some t) sz
    = PtonPad [Pad64] 2 (i + 1) (Some (t[unat i := a, Suc (unat i) := 0]))"
proof -
  have i: "unat (i + 1) = Suc (unat i)"
    using assms(2) unat_add_u32 [of i 1] by simp_all
  with assms show ?thesis
    by (simp add: pton_eval b64_recombine [simplified])
qed

lemma take_put:
  "n < length t \<Longrightarrow> take (Suc n) (t[n := a]) = take n t @ [a]"
  by (simp add: take_Suc_conv_app_nth)

lemma mod_three: "Suc (Suc (Suc n)) mod 3 = n mod 3"
proof -
  have "Suc (Suc (Suc n)) = n + 3" by simp
  then show ?thesis by (metis mod_add_self2)
qed

text \<open>What the loop has made of the encoding of \<open>src\<close> when it stops.\<close>

definition pton_done :: "byte list \<Rightarrow> uint32 \<Rightarrow> byte list \<Rightarrow> pton_end" where
  "pton_done src i t =
     (if length src mod 3 = 0 then PtonNul 0 i (Some t)
      else if length src mod 3 = 1 then PtonPad [Pad64] 2 i (Some t) else PtonPad [] 3 i (Some t))"

lemma f_b64_pton_loop_spec:
  assumes "unat i + length src < unat sz" and "unat i + length src + 3 < 2 ^ 32" and "unat sz \<le> length t"
  shows "\<exists>t'. f_b64_pton_loop (b64_spec src) 0 i (Some t) sz = pton_done src (of_nat (length src) + i) t' \<and>
    length t' = length t \<and> take (unat i + length src) t' = take (unat i) t @ src \<and>
    (length src mod 3 \<noteq> 0 \<longrightarrow> t' ! (unat i + length src) = 0)"
  using assms
proof (induction src arbitrary: i t rule: b64_spec.induct)
  case (1 a b c src)
  let ?t = "t[unat i := a, Suc (unat i) := b, Suc (Suc (unat i)) := c]"
  have i: "unat (3 + i) = unat i + 3" using "1.prems" unat_add_u32 [of i 3] by (simp add: add.commute)
  have len: "length ?t = length t" by simp
  have pre: "take (unat i + 3) ?t = take (unat i) t @ [a, b, c]"
    using "1.prems" by (simp add: numeral_3_eq_3 take_put)
  have "f_b64_pton_loop (b64_spec (a # b # c # src)) 0 i (Some t) sz
      = f_b64_pton_loop (b64_spec src) 0 (3 + i) (Some ?t) sz"
    using "1.prems" f_b64_pton_group [of i sz t a b c "b64_spec src"] by simp
  moreover obtain t' where t': "f_b64_pton_loop (b64_spec src) 0 (3 + i) (Some ?t) sz
      = pton_done src (of_nat (length src) + (3 + i)) t'"
      "length t' = length ?t" "take (unat (3 + i) + length src) t' = take (unat (3 + i)) ?t @ src"
      "length src mod 3 \<noteq> 0 \<longrightarrow> t' ! (unat (3 + i) + length src) = 0"
    using "1.prems" i len "1.IH" [of "3 + i" ?t] by auto
  moreover have "pton_done (a # b # c # src) k t' = pton_done src k t'" for k
    by (simp add: pton_done_def mod_three)
  moreover have "of_nat (length (a # b # c # src)) + i = of_nat (length src) + (3 + i)" by simp
  moreover have n: "unat i + length (a # b # c # src) = unat (3 + i) + length src" using i by simp
  ultimately show ?case
    using i pre len mod_three [of "length src"] unfolding n
    by (intro exI [of _ t']) (simp add: add.left_commute add.assoc)
next
  case (2 a b)
  then show ?case using f_b64_pton_two [of i sz t a b]
    by (simp add: pton_done_def take_put numeral_2_eq_2)
next
  case (3 a)
  then show ?case using f_b64_pton_one [of i sz t a]
    by (simp add: pton_done_def take_put)
next
  case 4
  then show ?case by (simp add: pton_done_def f_b64_pton_loop.simps)
qed

section \<open>Strings end at their terminator\<close>

lemma f_b64_pton_loop_nul:
  assumes "0 \<notin> set xs"
  shows "f_b64_pton_loop (xs @ 0 # ys) st i t sz =
    (case f_b64_pton_loop xs st i t sz of
       PtonPad src st i t \<Rightarrow> PtonPad (src @ 0 # ys) st i t | e \<Rightarrow> e)"
  using assms
proof (induction xs arbitrary: st i t)
  case (Cons x xs)
  then show ?case
    by (auto simp: f_b64_pton_loop.simps split: option.split)
qed (simp add: f_b64_pton_loop.simps)

lemma f_b64_pton_loop_pad_src:
  "f_b64_pton_loop xs st i t sz = PtonPad src st' i' t' \<Longrightarrow> set src \<subseteq> set xs"
proof (induction xs arbitrary: st i t)
  case (Cons x xs)
  then show ?case
    by (auto simp: f_b64_pton_loop.simps split: if_splits option.splits)
qed (simp add: f_b64_pton_loop.simps)

lemma skip_spaces_nul: "0 \<notin> set xs \<Longrightarrow> skip_spaces (xs @ 0 # ys) = skip_spaces xs @ 0 # ys"
  by (induction xs) auto

lemma set_skip_spaces: "set (skip_spaces xs) \<subseteq> set xs"
  by (induction xs) auto

lemma at_end_nul: "0 \<notin> set xs \<Longrightarrow> at_end (xs @ 0 # ys) \<longleftrightarrow> at_end xs"
  by (cases xs) (auto simp: at_end_def)

lemma f_b64_pton_nul:
  assumes "0 \<notin> set xs"
  shows "f_b64_pton (xs @ 0 # ys) t sz = f_b64_pton xs t sz"
proof (cases "f_b64_pton_loop xs 0 0 t sz")
  case (PtonPad src st i t')
  have src: "0 \<notin> set src" using f_b64_pton_loop_pad_src [OF PtonPad] assms by blast
  let ?s = "skip_spaces src"
  have s: "0 \<notin> set ?s" using src set_skip_spaces by blast
  have "at_end (skip_spaces (if st = 2 then tl (?s @ 0 # ys) else src @ 0 # ys))
      \<longleftrightarrow> at_end (skip_spaces (if st = 2 then tl ?s else src))"
    if "\<not> at_end ?s \<or> st \<noteq> 2"
  proof (cases ?s)
    case Nil
    with that src s show ?thesis by (auto simp: at_end_def skip_spaces_nul)
  next
    case (Cons c cs)
    then have "0 \<notin> set cs" using s by auto
    moreover then have "0 \<notin> set (skip_spaces cs)" using set_skip_spaces by blast
    ultimately show ?thesis using Cons src s by (auto simp: skip_spaces_nul at_end_nul)
        (auto simp: at_end_def)
  qed
  with PtonPad src s show ?thesis
    by (auto simp: f_b64_pton_def f_b64_pton_loop_nul [OF assms] skip_spaces_nul at_end_nul Let_def
        split: if_splits) (auto simp: at_end_def hd_append split: if_splits)
qed (simp_all add: f_b64_pton_def f_b64_pton_loop_nul [OF assms])

lemma b64_spec_nonzero: "0 \<notin> set (b64_spec src)"
  by (induction src rule: b64_spec.induct)
    (auto simp: Base64_at_ok(2) b64_out_lt dest!: sym [of 0])

lemma f_b64_pton_b64_spec:
  assumes "length src < unat sz" and "unat sz \<le> length t" and "length src < 2 ^ 31"
  shows "\<exists>t'. f_b64_pton (b64_spec src) (Some t) sz = (int (length src), Some t') \<and>
    take (length src) t' = src \<and> length t' = length t"
proof -
  let ?n = "of_nat (length src) :: uint32"
  from f_b64_pton_loop_spec [of 0 src sz t] assms obtain t' where
    t': "f_b64_pton_loop (b64_spec src) 0 0 (Some t) sz = pton_done src ?n t'"
      "length t' = length t" "take (length src) t' = src"
      "length src mod 3 \<noteq> 0 \<longrightarrow> t' ! length src = 0" by auto
  have n: "unat ?n = length src" using assms(3) by (simp add: unat_of_nat)
  then have "uint ?n = int (length src)" by (metis uint_nat)
  then have s: "sint ?n = int (length src)"
    using signed_31 [OF assms(3)] by (simp add: sint_uint)
  have "length src mod 3 < 3" by simp
  then consider "length src mod 3 = 0" | "length src mod 3 = 1" | "length src mod 3 = 2" by linarith
  then show ?thesis
    by cases (use t' s n in \<open>simp_all add: f_b64_pton_def pton_done_def at_end_def is_space_def\<close>)
qed

text \<open>C37: base64 round trip at the C interface: \<open>f_b64_ntop\<close> with a target that can hold
  the encoding and its terminator returns the length of the encoding and leaves it, with a
  terminating zero, in the target; \<open>f_b64_pton\<close> on that string returns the number of source
  bytes and restores them. The decoder needs one byte of room beyond the data.\<close>

lemma f_b64_roundtrip:
  assumes "4 * ((length src + 2) div 3) < unat n" and "unat n \<le> length target" and "unat n < 2 ^ 31"
    and "length src < unat k" and "unat k \<le> length area"
  shows "\<exists>str area'. f_b64_ntop src target n = (int (4 * ((length src + 2) div 3)), str) \<and>
    f_b64_pton str (Some area) k = (int (length src), Some area') \<and> take (length src) area' = src"
proof -
  let ?str = "b64_spec src @ 0 # drop (Suc (length (b64_spec src))) target"
  have "f_b64_ntop src target n = (int (4 * ((length src + 2) div 3)), ?str)"
    using f_b64_ntop_spec [of src n target] assms(1-3) by (simp add: length_b64_spec)
  moreover have "length src < 2 ^ 31" using assms(1,3) by simp
  from f_b64_pton_b64_spec [OF assms(4,5) this]
  have "\<exists>area'. f_b64_pton ?str (Some area) k = (int (length src), Some area') \<and>
      take (length src) area' = src"
    by (auto simp: f_b64_pton_nul [OF b64_spec_nonzero])
  ultimately show ?thesis by blast
qed

lemma f_b64_roundtrip_witness:
  "\<exists>str area'. f_b64_ntop [1, 2, 3, 4] (replicate 16 7) 16 = (8, str) \<and>
    f_b64_pton str (Some (replicate 9 5)) 9 = (4, Some area') \<and> take 4 area' = [1, 2, 3, 4]"
proof -
  have "length [1, 2, 3, 4 :: byte] = 4" by simp
  from f_b64_roundtrip [of "[1, 2, 3, 4]" 16 "replicate 16 7" 9 "replicate 9 5", unfolded this]
  show ?thesis by simp
qed

section \<open>Writes stay within the target\<close>

lemma put_chars_confined:
  "unat d + length cs \<le> n \<Longrightarrow> n < 2 ^ 64 \<Longrightarrow> drop n (fst (put_chars t d cs)) = drop n t"
proof (induction cs arbitrary: t d)
  case (Cons c cs)
  have "unat (d + 1) = unat d + 1" using Cons.prems unat_add_of_nat [of d 1] by simp
  with Cons show ?case by simp
qed simp

lemma put_chars_snd: "snd (put_chars t d cs) = d + of_nat (length cs)"
  by (induction cs arbitrary: t d) (simp_all add: add.assoc)

lemma datalength_step:
  assumes "\<not> d + 4 > n" and "d \<le> n" and "unat (n :: size_t) < 2 ^ 63"
  shows "unat d + 4 \<le> unat n" and "d + 4 \<le> n"
proof -
  have "unat d + 4 < 2 ^ 64" using assms(2,3) by (simp add: word_le_nat_alt)
  then have "unat (d + 4) = unat d + 4" using unat_add_of_nat [of d 4] by simp
  with assms(1) show "unat d + 4 \<le> unat n" by (simp add: word_less_nat_alt)
  show "d + 4 \<le> n" using assms(1) by simp
qed

lemma f_b64_ntop_loop_confined:
  assumes "f_b64_ntop_loop src t d n = (r, t')" and "d \<le> n" and "unat n < 2 ^ 63"
  shows "drop (unat n) t' = drop (unat n) t \<and> (\<forall>rest d'. r = Some (rest, d') \<longrightarrow> d' \<le> n \<and> length rest < 3)"
  using assms
proof (induction src t d n rule: f_b64_ntop_loop.induct)
  case (1 a b c src t d n)
  let ?cs = "map Base64_at [b64_out0 a, b64_out1 a b, b64_out2 b c, b64_out3 c]"
  show ?case
  proof (cases "d + 4 > n")
    case True
    with "1.prems" show ?thesis by simp
  next
    case False
    note d = datalength_step [OF False "1.prems"(2,3)]
    obtain t1 d1 where put: "put_chars t d ?cs = (t1, d1)" by fastforce
    then have "d1 = d + 4" using put_chars_snd [of t d ?cs] by simp
    moreover have "drop (unat n) t1 = drop (unat n) t"
      using put_chars_confined [of d ?cs "unat n" t] d put unat_less_64 [of n] by simp
    ultimately show ?thesis
      using "1.IH" [OF False put [symmetric]] "1.prems" False put d
      by (simp del: put_chars.simps list.map)
  qed
qed auto

text \<open>For every source and every target, \<open>f_b64_ntop\<close> leaves all bytes at and beyond
  \<open>targsize\<close> as they were.\<close>

lemma f_b64_ntop_confined:
  assumes "unat targsize < 2 ^ 63"
  shows "drop (unat targsize) (snd (f_b64_ntop src target targsize)) = drop (unat targsize) target"
proof -
  obtain r t where l: "f_b64_ntop_loop src target 0 targsize = (r, t)" by fastforce
  from f_b64_ntop_loop_confined [OF l _ assms]
  have t: "drop (unat targsize) t = drop (unat targsize) target"
    and r: "\<And>rest d. r = Some (rest, d) \<Longrightarrow> d \<le> targsize" by simp_all
  have fin: "drop (unat targsize) (t'[unat d := 0]) = drop (unat targsize) t'"
    if "\<not> d \<ge> targsize" for d t' using that by (simp add: word_le_nat_alt)
  have put: "drop (unat targsize) t' = drop (unat targsize) t"
    if "\<not> d + 4 > targsize" "d \<le> targsize" "put_chars t d [a, b, c, e] = (t', d')" for a b c e d d' t'
    using put_chars_confined [of d "[a, b, c, e]" "unat targsize" t] that(3)
      datalength_step(1) [OF that(1,2) assms] unat_less_64 [of targsize]
    by (simp del: put_chars.simps)
  show ?thesis
    using l t r by (auto simp: f_b64_ntop_def Let_def fin dest: put
        simp del: put_chars.simps split: option.split prod.split list.split)
qed

text \<open>The witness: a target of six bytes of which five may be written.\<close>

lemma f_b64_ntop_confined_witness:
  "drop 5 (snd (f_b64_ntop [1, 2] [9, 9, 9, 9, 9, 42] 5)) = [42]"
  using f_b64_ntop_confined [of 5 "[1, 2]" "[9, 9, 9, 9, 9, 42]"] by simp

lemma f_b64_pton_char_confined:
  assumes "f_b64_pton_char pos st i (Some t) sz = Some (st', i', t')"
    and "st \<noteq> 0 \<Longrightarrow> unat i < unat sz"
  shows "\<exists>u. t' = Some u \<and> drop (unat sz) u = drop (unat sz) t \<and> (st' \<noteq> 0 \<longrightarrow> unat i' < unat sz)"
  using assms
  by (auto simp: f_b64_pton_char_def tset_def tor_def word_le_nat_alt ucast_index split: if_splits)

lemma f_b64_pton_loop_confined:
  assumes "st \<noteq> 0 \<Longrightarrow> unat i < unat sz"
  shows "case f_b64_pton_loop src st i (Some t) sz of
      PtonError t' \<Rightarrow> \<exists>u. t' = Some u \<and> drop (unat sz) u = drop (unat sz) t
    | PtonNul st' i' t' \<Rightarrow> \<exists>u. t' = Some u \<and> drop (unat sz) u = drop (unat sz) t
    | PtonPad src' st' i' t' \<Rightarrow> \<exists>u. t' = Some u \<and> drop (unat sz) u = drop (unat sz) t \<and>
        (st' \<noteq> 0 \<longrightarrow> unat i' < unat sz)"
  using assms
proof (induction src arbitrary: st i t)
  case (Cons ch src)
  show ?case
  proof (cases "b64_pos ch")
    case (Some pos)
    show ?thesis
    proof (cases "f_b64_pton_char pos st i (Some t) sz")
      case None
      with Some Cons show ?thesis by (simp add: f_b64_pton_loop.simps)
    next
      case (Some r)
      obtain st' i' t' where r: "r = (st', i', t')" by (cases r)
      from f_b64_pton_char_confined [OF Some [unfolded r] Cons.prems] obtain u
        where u: "t' = Some u" "drop (unat sz) u = drop (unat sz) t" "st' \<noteq> 0 \<Longrightarrow> unat i' < unat sz" by auto
      show ?thesis
        using Cons.IH [of st' i' u, unfolded u(2)] Cons.IH [of st i t] Cons.prems u(3) Some r u(1)
          \<open>b64_pos ch = Some pos\<close>
        by (simp add: f_b64_pton_loop.simps)
    qed
  qed (use Cons in \<open>simp add: f_b64_pton_loop.simps\<close>)
qed (simp add: f_b64_pton_loop.simps)

text \<open>C38: for every string, valid base64 or not, \<open>f_b64_pton\<close> leaves all bytes of the target
  at and beyond \<open>targsize\<close> as they were.\<close>

lemma f_b64_pton_confined:
  "\<exists>area'. snd (f_b64_pton src (Some area) targsize) = Some area' \<and>
     drop (unat targsize) area' = drop (unat targsize) area"
  using f_b64_pton_loop_confined [where st = 0 and i = 0 and sz = targsize and src = src and t = area]
  by (auto simp: f_b64_pton_def Let_def split: pton_end.splits)

end
