(* ===== verification/Ldb_Slice.thy ===== *)
theory Ldb_Slice
  imports Pb_Prelude "HOL-Library.List_Lexorder"
begin

text \<open>
  The byte strings of leveldb: \<open>Slice\<close> of \<open>include/leveldb/slice.h\<close> and \<open>std::string\<close>, both as
  lists of bytes. A slice refers to bytes that its owner keeps alive and unchanged while the slice
  is in use, which makes the list of those bytes its value. \<open>memcmp\<close> is the C function, reduced to
  the sign of its result; the order it induces is the lexicographic order of the lists.
\<close>

type_synonym slice = "byte list"

fun memcmp :: "byte list \<Rightarrow> byte list \<Rightarrow> nat \<Rightarrow> int" where
  "memcmp (x # xs) (y # ys) (Suc n) = (if x < y then -1 else if y < x then 1 else memcmp xs ys n)"
| "memcmp _ _ _ = 0"

definition Slice_compare :: "slice \<Rightarrow> slice \<Rightarrow> int" where
  "Slice_compare a b =
     (let min_len = if length a < length b then length a else length b;
          r = memcmp a b min_len
      in if r = 0 then if length a < length b then -1 else if length b < length a then 1 else 0
         else r)"

definition Slice_starts_with :: "slice \<Rightarrow> slice \<Rightarrow> bool" where
  "Slice_starts_with a x \<longleftrightarrow> length x \<le> length a \<and> memcmp a x (length x) = 0"

definition Slice_eq :: "slice \<Rightarrow> slice \<Rightarrow> bool" where
  "Slice_eq x y \<longleftrightarrow> length x = length y \<and> memcmp x y (length x) = 0"

definition remove_prefix :: "nat \<Rightarrow> slice \<Rightarrow> slice" where
  "remove_prefix n s = drop n s"

lemma Slice_compare_Nil [simp]:
  "Slice_compare [] [] = 0" "Slice_compare [] (y # ys) = -1" "Slice_compare (x # xs) [] = 1"
  by (simp_all add: Slice_compare_def)

lemma Slice_compare_Cons [simp]:
  "Slice_compare (x # xs) (y # ys) = (if x < y then -1 else if y < x then 1 else Slice_compare xs ys)"
  by (simp add: Slice_compare_def Let_def)

lemma Slice_compare_order:
  "Slice_compare a b = (if a < b then -1 else if b < a then 1 else 0)"
proof (induction a arbitrary: b)
  case Nil
  then show ?case by (cases b) auto
next
  case (Cons x a)
  then show ?case by (cases b) (auto simp: not_less_iff_gr_or_eq)
qed

lemma Slice_compare_sign [simp]:
  "Slice_compare a b < 0 \<longleftrightarrow> a < b" "Slice_compare a b = 0 \<longleftrightarrow> a = b" "0 < Slice_compare a b \<longleftrightarrow> b < a"
  "Slice_compare a b \<le> 0 \<longleftrightarrow> a \<le> b" "0 \<le> Slice_compare a b \<longleftrightarrow> b \<le> a"
  by (auto simp: Slice_compare_order)

lemma memcmp_eq:
  "n \<le> length a \<Longrightarrow> n \<le> length b \<Longrightarrow> memcmp a b n = 0 \<longleftrightarrow> take n a = take n b"
  by (induction a b n rule: memcmp.induct) auto

lemma Slice_eq_iff [simp]: "Slice_eq x y \<longleftrightarrow> x = y"
  using memcmp_eq [of "length x" x y] by (auto simp: Slice_eq_def)

lemma Slice_starts_with_iff: "Slice_starts_with a x \<longleftrightarrow> (\<exists>rest. a = x @ rest)"
  using memcmp_eq [of "length x" a x]
  by (auto simp: Slice_starts_with_def) (metis append_take_drop_id)

end
