(* ===== verification/Ldb_Coding.thy ===== *)
theory Ldb_Coding
  imports Ldb_Slice
begin

text \<open>
  The integer and string codec of leveldb, \<open>util/coding.cc\<close> and \<open>util/coding.h\<close>. The \<open>Put\<close>
  functions append to a string, the \<open>Get\<close> functions take a value off the front of a slice and
  return what is left, or fail. The pointer variants work on the bytes from \<open>p\<close> to \<open>limit\<close>, which
  is the list they get; the returned pointer is the list of the bytes that follow. A failed call
  returns \<open>None\<close>: what it leaves in its output arguments is read by no caller. Both branches of
  the endianness test are kept: \<open>kLittleEndian\<close> is an argument.
\<close>

section \<open>Fixed-width integers\<close>

definition EncodeFixed32 :: "bool \<Rightarrow> uint32 \<Rightarrow> byte list" where
  "EncodeFixed32 kLittleEndian value =
     (if kLittleEndian then to_bytes 4 value
      else [ucast (value AND 0xff), ucast (drop_bit 8 value AND 0xff),
            ucast (drop_bit 16 value AND 0xff), ucast (drop_bit 24 value AND 0xff)])"

definition EncodeFixed64 :: "bool \<Rightarrow> uint64 \<Rightarrow> byte list" where
  "EncodeFixed64 kLittleEndian value =
     (if kLittleEndian then to_bytes 8 value
      else [ucast (value AND 0xff), ucast (drop_bit 8 value AND 0xff),
            ucast (drop_bit 16 value AND 0xff), ucast (drop_bit 24 value AND 0xff),
            ucast (drop_bit 32 value AND 0xff), ucast (drop_bit 40 value AND 0xff),
            ucast (drop_bit 48 value AND 0xff), ucast (drop_bit 56 value AND 0xff)])"

definition PutFixed32 :: "bool \<Rightarrow> byte list \<Rightarrow> uint32 \<Rightarrow> byte list" where
  "PutFixed32 le dst value = dst @ EncodeFixed32 le value"

definition PutFixed64 :: "bool \<Rightarrow> byte list \<Rightarrow> uint64 \<Rightarrow> byte list" where
  "PutFixed64 le dst value = dst @ EncodeFixed64 le value"

text \<open>The decoders read at a pointer without a check of bounds; the list holds the bytes from the
  pointer on, and has to have enough of them.\<close>

definition DecodeFixed32 :: "bool \<Rightarrow> byte list \<Rightarrow> uint32" where
  "DecodeFixed32 kLittleEndian ptr =
     (if kLittleEndian then of_bytes (take 4 ptr)
      else ucast (ptr ! 0) OR push_bit 8 (ucast (ptr ! 1)) OR push_bit 16 (ucast (ptr ! 2))
        OR push_bit 24 (ucast (ptr ! 3)))"

definition DecodeFixed64 :: "bool \<Rightarrow> byte list \<Rightarrow> uint64" where
  "DecodeFixed64 kLittleEndian ptr =
     (if kLittleEndian then of_bytes (take 8 ptr)
      else let lo = ucast (DecodeFixed32 False ptr);
               hi = ucast (DecodeFixed32 False (drop 4 ptr))
           in push_bit 32 hi OR lo)"

section \<open>Variable-length integers\<close>

definition EncodeVarint32 :: "uint32 \<Rightarrow> byte list" where
  "EncodeVarint32 v =
     (let B = 128 in
      if v < push_bit 7 1 then [ucast v]
      else if v < push_bit 14 1 then [ucast (v OR B), ucast (drop_bit 7 v)]
      else if v < push_bit 21 1 then
        [ucast (v OR B), ucast (drop_bit 7 v OR B), ucast (drop_bit 14 v)]
      else if v < push_bit 28 1 then
        [ucast (v OR B), ucast (drop_bit 7 v OR B), ucast (drop_bit 14 v OR B), ucast (drop_bit 21 v)]
      else
        [ucast (v OR B), ucast (drop_bit 7 v OR B), ucast (drop_bit 14 v OR B),
         ucast (drop_bit 21 v OR B), ucast (drop_bit 28 v)])"

definition PutVarint32 :: "byte list \<Rightarrow> uint32 \<Rightarrow> byte list" where
  "PutVarint32 dst v = dst @ EncodeVarint32 v"

lemma shift_decreases: "128 \<le> (v :: uint64) \<Longrightarrow> unat (drop_bit 7 v) < unat v"
  by (simp add: unat_drop_bit word_le_nat_alt)

function EncodeVarint64 :: "uint64 \<Rightarrow> byte list" where
  "EncodeVarint64 v =
     (if v \<ge> 128 then ucast (v OR 128) # EncodeVarint64 (drop_bit 7 v) else [ucast v])"
  by auto
termination
  by (relation "measure unat") (simp_all add: shift_decreases)

definition PutVarint64 :: "byte list \<Rightarrow> uint64 \<Rightarrow> byte list" where
  "PutVarint64 dst v = dst @ EncodeVarint64 v"

definition PutLengthPrefixedSlice :: "byte list \<Rightarrow> slice \<Rightarrow> byte list" where
  "PutLengthPrefixedSlice dst value = PutVarint32 dst (of_nat (length value)) @ value"

function VarintLength_loop :: "uint64 \<Rightarrow> int \<Rightarrow> int" where
  "VarintLength_loop v len = (if v \<ge> 128 then VarintLength_loop (drop_bit 7 v) (len + 1) else len)"
  by auto
termination
  by (relation "measure (unat o fst)") (simp_all add: shift_decreases)

definition VarintLength :: "uint64 \<Rightarrow> int" where
  "VarintLength v = VarintLength_loop v 1"

function GetVarint32PtrFallback_loop ::
  "uint32 \<Rightarrow> uint32 \<Rightarrow> byte list \<Rightarrow> (uint32 \<times> byte list) option" where
  "GetVarint32PtrFallback_loop shift result p =
     (if shift \<le> 28 \<and> p \<noteq> [] then
        let byte = ucast (hd p)
        in if byte AND 128 \<noteq> 0 then
             GetVarint32PtrFallback_loop (shift + 7) (result OR push_bit (unat shift) (byte AND 127)) (tl p)
           else Some (result OR push_bit (unat shift) byte, tl p)
      else None)"
  by auto
termination
  by (relation "measure (\<lambda>(shift, result, p). length p)") auto

definition GetVarint32PtrFallback :: "byte list \<Rightarrow> (uint32 \<times> byte list) option" where
  "GetVarint32PtrFallback p = GetVarint32PtrFallback_loop 0 0 p"

definition GetVarint32Ptr :: "byte list \<Rightarrow> (uint32 \<times> byte list) option" where
  "GetVarint32Ptr p =
     (if p \<noteq> [] \<and> (ucast (hd p) :: uint32) AND 128 = 0 then Some (ucast (hd p), tl p)
      else GetVarint32PtrFallback p)"

definition GetVarint32 :: "slice \<Rightarrow> (uint32 \<times> slice) option" where
  "GetVarint32 input = GetVarint32Ptr input"

function GetVarint64Ptr_loop ::
  "uint32 \<Rightarrow> uint64 \<Rightarrow> byte list \<Rightarrow> (uint64 \<times> byte list) option" where
  "GetVarint64Ptr_loop shift result p =
     (if shift \<le> 63 \<and> p \<noteq> [] then
        let byte = ucast (hd p)
        in if byte AND 128 \<noteq> 0 then
             GetVarint64Ptr_loop (shift + 7) (result OR push_bit (unat shift) (byte AND 127)) (tl p)
           else Some (result OR push_bit (unat shift) byte, tl p)
      else None)"
  by auto
termination
  by (relation "measure (\<lambda>(shift, result, p). length p)") auto

definition GetVarint64Ptr :: "byte list \<Rightarrow> (uint64 \<times> byte list) option" where
  "GetVarint64Ptr p = GetVarint64Ptr_loop 0 0 p"

definition GetVarint64 :: "slice \<Rightarrow> (uint64 \<times> slice) option" where
  "GetVarint64 input = GetVarint64Ptr input"

text \<open>The two overloads of \<open>GetLengthPrefixedSlice\<close>: on pointers, and on a slice.\<close>

definition GetLengthPrefixedSlicePtr :: "byte list \<Rightarrow> (slice \<times> byte list) option" where
  "GetLengthPrefixedSlicePtr p =
     (case GetVarint32Ptr p of None \<Rightarrow> None
      | Some (len, p) \<Rightarrow> if unat len > length p then None else Some (take (unat len) p, drop (unat len) p))"

definition GetLengthPrefixedSlice :: "slice \<Rightarrow> (slice \<times> slice) option" where
  "GetLengthPrefixedSlice input =
     (case GetVarint32 input of None \<Rightarrow> None
      | Some (len, input) \<Rightarrow>
          if length input \<ge> unat len then Some (take (unat len) input, remove_prefix (unat len) input)
          else None)"

declare EncodeVarint64.simps [simp del] VarintLength_loop.simps [simp del]
  GetVarint32PtrFallback_loop.simps [simp del] GetVarint64Ptr_loop.simps [simp del]

section \<open>The encodings\<close>

lemma EncodeFixed_bytes: "EncodeFixed32 le v = to_bytes 4 v" "EncodeFixed64 le w = to_bytes 8 w"
  by (simp_all add: EncodeFixed32_def EncodeFixed64_def to_bytes_def upt_rec)

lemma take4: "4 \<le> length ptr \<Longrightarrow> take 4 ptr = [ptr ! 0, ptr ! 1, ptr ! 2, ptr ! 3]"
  by (rule nth_equalityI) (auto simp: less_Suc_eq numeral_eq_Suc)

lemma DecodeFixed32_bytes: "4 \<le> length ptr \<Longrightarrow> DecodeFixed32 le ptr = of_bytes (take 4 ptr)"
  by (simp add: take4 DecodeFixed32_def push_bit_or or.assoc)

lemma ucast_of_bytes:
  assumes "8 * length bs \<le> LENGTH('b)"
  shows "(ucast (of_bytes bs :: 'b::len word) :: 'a::len word) = of_bytes bs"
  by (rule bit_word_eqI) (use assms in \<open>auto simp: bit_simps bit_of_bytes\<close>)

lemma DecodeFixed64_bytes:
  assumes "8 \<le> length ptr"
  shows "DecodeFixed64 le ptr = of_bytes (take 8 ptr)"
proof -
  have "take 8 ptr = take 4 ptr @ take 4 (drop 4 ptr)" using take_add [of 4 4 ptr] by simp
  with assms show ?thesis
    by (simp add: DecodeFixed64_def DecodeFixed32_bytes of_bytes_append ucast_of_bytes or.commute)
qed

lemma varint_head:
  assumes "8 \<le> LENGTH('a)"
  shows "(ucast ((v :: 'a::len word) OR 0x80) :: byte) = of_nat (unat v mod 128 + 128)"
proof -
  let ?x = "take_bit 7 (ucast v) :: byte"
  have eq: "(ucast (v OR 0x80) :: byte) = ?x OR push_bit 7 1"
  proof (rule bit_word_eqI)
    fix n assume "n < LENGTH(8)"
    then show "bit (ucast (v OR 0x80) :: byte) n = bit (?x OR push_bit 7 1) n"
      using assms by (cases "n = 7") (auto simp: bit_128 bit_simps)
  qed
  have x: "unat ?x = unat v mod 128" 
    by (subst unat_take_bit) (simp add: unsigned_ucast_eq take_bit_eq_mod mod_mod_cancel)
  have "unat (?x OR push_bit 7 1) = unat ?x + 2 ^ 7 * unat (1 :: byte)"
    by (rule unat_or_push_bit) (use x in \<open>simp_all\<close>)
  then show ?thesis unfolding eq using x
    by (intro word_unat_eq_iff [THEN iffD2]) (simp add: unat_word_ariths unat_of_nat)
qed

lemma varint_head_32 [simp]: "(ucast ((v :: uint32) OR 0x80) :: byte) = of_nat (unat v mod 128 + 128)"
  and varint_head_64 [simp]: "(ucast ((w :: uint64) OR 0x80) :: byte) = of_nat (unat w mod 128 + 128)"
  by (simp_all add: varint_head)

lemma EncodeVarint64_spec: "EncodeVarint64 v = varint_spec (unat v)"
proof (induction v rule: EncodeVarint64.induct)
  case (1 v)
  show ?case
  proof (cases "128 \<le> v")
    case True
    then have "128 \<le> unat v" by (simp add: word_le_nat_alt)
    with True "1.IH" show ?thesis
      by (subst EncodeVarint64.simps) (simp add: varint_spec_large unat_drop_bit del: of_nat_add)
  next
    case False
    then have "unat v < 128" by (simp add: word_le_nat_alt)
    with False show ?thesis
      by (subst EncodeVarint64.simps) (simp add: varint_spec_small)
  qed
qed

lemma varint_spec_unrolled:
  assumes "n < 2 ^ 35"
  shows "varint_spec n =
    (let d = (\<lambda>k. n div 2 ^ k); h = (\<lambda>k. of_nat (d k mod 128 + 128)) in
     if n < 2 ^ 7 then [of_nat n]
     else if n < 2 ^ 14 then [h 0, of_nat (d 7)]
     else if n < 2 ^ 21 then [h 0, h 7, of_nat (d 14)]
     else if n < 2 ^ 28 then [h 0, h 7, h 14, of_nat (d 21)]
     else [h 0, h 7, h 14, h 21, of_nat (d 28)])"
proof -
  have lt: "k div m < 128 \<longleftrightarrow> k < 128 * m" if "0 < m" for k m :: nat
    using that by (simp add: div_less_iff_less_mult)
  show ?thesis
    using assms unfolding Let_def
    by (simp add: varint_spec.simps [of n] varint_spec.simps [of "n div 128"]
        varint_spec.simps [of "n div 16384"] varint_spec.simps [of "n div 2097152"]
        varint_spec.simps [of "n div 268435456"] lt flip: div_mult2_eq del: of_nat_add)
qed

lemma EncodeVarint32_spec: "EncodeVarint32 v = varint_spec (unat v)"
proof -
  have s: "(ucast (drop_bit k v) :: byte) = of_nat (unat v div 2 ^ k)" for k
    unfolding unat_drop_bit [symmetric] by simp
  have h: "(ucast (drop_bit k v OR 0x80) :: byte) = of_nat (unat v div 2 ^ k mod 128 + 128)" for k
    by (simp add: unat_drop_bit del: of_nat_add)
  have l: "v < push_bit k 1 \<longleftrightarrow> unat v < 2 ^ k" if "k < 32" for k
  proof -
    have "unat (2 ^ k :: uint32) = 2 ^ k"
      using unat_of_nat_size [of "2 ^ k", where 'a = 32] power_strict_increasing [OF that, of "2 :: nat"]
      by simp
    then show ?thesis by (simp add: word_less_nat_alt push_bit_of_1)
  qed
  have "unat v < 2 ^ 35" using unat_less_pow [of v] by simp
  note u = varint_spec_unrolled [OF this, unfolded Let_def]
  show ?thesis
    unfolding EncodeVarint32_def Let_def u
    using s [of 0] h [of 0] l [of 7] l [of 14] l [of 21] l [of 28] s [of 7] s [of 14] s [of 21] s [of 28]
      h [of 7] h [of 14] h [of 21] by simp
qed

lemma VarintLength_loop_spec: "VarintLength_loop v len = len - 1 + int (length (EncodeVarint64 v))"
proof (induction v arbitrary: len rule: EncodeVarint64.induct)
  case (1 v)
  then show ?case
    by (subst VarintLength_loop.simps, subst EncodeVarint64.simps) simp
qed

text \<open>The loops test and mask the byte after it has been widened.\<close>

lemma and_widened:
  assumes "8 \<le> LENGTH('a)"
  shows "(ucast (b :: byte) :: 'a::len word) AND 127 = ucast (b AND 0x7F)"
    and "(ucast b :: 'a word) AND 128 = 0 \<longleftrightarrow> b AND 0x80 = 0"
proof -
  show "(ucast b :: 'a word) AND 127 = ucast (b AND 0x7F)"
    by (rule bit_word_eqI) (use assms in \<open>auto simp: and_7F bit_simps dest: bit_imp_le_length\<close>)
  have "(ucast b :: 'a word) AND 128 = ucast (b AND 0x80)"
    by (rule bit_word_eqI) (use assms in \<open>auto simp: bit_128 bit_simps dest: bit_imp_le_length\<close>)
  moreover have "(ucast c :: 'a word) = 0 \<longleftrightarrow> c = 0" for c :: byte
  proof -
    have "(ucast (ucast c :: 'a word) :: byte) = c"
      by (rule bit_word_eqI) (use assms in \<open>auto simp: bit_simps\<close>)
    then show ?thesis by (metis unsigned_0)
  qed
  ultimately show "(ucast b :: 'a word) AND 128 = 0 \<longleftrightarrow> b AND 0x80 = 0" by simp
qed

lemmas and_widened_simps [simp] =
  and_widened [where 'a = 32, simplified] and_widened [where 'a = 64, simplified]

lemma group_byte: "n < 128 \<Longrightarrow> (of_nat n :: byte) AND 0x7F = of_nat n"
  by (rule word_unat_eq_iff [THEN iffD2]) (simp add: unat_and_7F unat_of_nat)

lemma GetVarint64Ptr_loop_spec:
  assumes "unat shift \<le> 63" and "unat r < 2 ^ unat shift" and "unat r + 2 ^ unat shift * n < 2 ^ 64"
  shows "GetVarint64Ptr_loop shift r (varint_spec n @ cs) = Some (of_nat (unat r + 2 ^ unat shift * n), cs)"
  using assms
proof (induction n arbitrary: shift r rule: varint_spec.induct)
  case (1 n)
  have sh: "shift \<le> 63" using "1.prems"(1) by (simp add: word_le_nat_alt)
  show ?case
  proof (cases "n < 128")
    case True
    with group_last [OF True "1.prems"(2)] "1.prems"(3) sh final_bit [OF True] show ?thesis
      by (subst GetVarint64Ptr_loop.simps) (simp add: varint_spec_small Let_def group_byte)
  next
    case False
    then have n: "128 \<le> n" by simp
    let ?b = "of_nat (n mod 128 + 128) :: byte"
    let ?r = "r OR push_bit (unat shift) (ucast (?b AND 0x7F))"
    have bp: "unat (shift + 7) \<le> 63" and small: "unat ?r < 2 ^ unat (shift + 7)"
      and tot: "unat ?r + 2 ^ unat (shift + 7) * (n div 128) = unat r + 2 ^ unat shift * n"
      using group_step [OF n "1.prems"(2)] "1.prems"(3) by (simp_all del: of_nat_add)
    from "1.IH" [OF False bp small, unfolded tot, OF "1.prems"(3)] show ?thesis
      using sh n continuation_bit [of n] by (subst GetVarint64Ptr_loop.simps) (simp add: varint_spec_large Let_def del: of_nat_add)
  qed
qed

lemma GetVarint32PtrFallback_loop_spec:
  assumes "unat shift \<le> 28" and "unat r < 2 ^ unat shift" and "unat r + 2 ^ unat shift * n < 2 ^ 32"
    and "7 dvd unat shift"
  shows "GetVarint32PtrFallback_loop shift r (varint_spec n @ cs)
    = Some (of_nat (unat r + 2 ^ unat shift * n), cs)"
  using assms
proof (induction n arbitrary: shift r rule: varint_spec.induct)
  case (1 n)
  have sh: "shift \<le> 28" using "1.prems"(1) by (simp add: word_le_nat_alt)
  show ?case
  proof (cases "n < 128")
    case True
    with group_last [OF True "1.prems"(2)] "1.prems"(3) sh final_bit [OF True] show ?thesis
      by (subst GetVarint32PtrFallback_loop.simps) (simp add: varint_spec_small Let_def group_byte)
  next
    case False
    then have n: "128 \<le> n" by simp
    let ?b = "of_nat (n mod 128 + 128) :: byte"
    let ?r = "r OR push_bit (unat shift) (ucast (?b AND 0x7F))"
    have bp: "unat (shift + 7) < 32" "unat (shift + 7) = unat shift + 7"
      and small: "unat ?r < 2 ^ unat (shift + 7)"
      and tot: "unat ?r + 2 ^ unat (shift + 7) * (n div 128) = unat r + 2 ^ unat shift * n"
      using group_step [OF n "1.prems"(2)] "1.prems"(3) by (simp_all del: of_nat_add)
    have dvd: "7 dvd unat (shift + 7)" using "1.prems"(4) bp(2) by simp
    then have "unat (shift + 7) \<le> 28" using bp(1) by (elim dvdE) simp
    from "1.IH" [OF False this small, unfolded tot, OF "1.prems"(3) dvd] show ?thesis
      using sh n continuation_bit [of n]
      by (subst GetVarint32PtrFallback_loop.simps) (simp add: varint_spec_large Let_def del: of_nat_add)
  qed
qed

section \<open>The codec interface\<close>

text \<open>What the users of the codec rely on: a decoder that gets an encoded value followed by
  anything returns the value and what follows. \<open>ok\<close> delimits the values that can be encoded.\<close>

locale codec =
  fixes enc :: "'a \<Rightarrow> byte list" and dec :: "byte list \<Rightarrow> ('a \<times> byte list) option" and ok :: "'a \<Rightarrow> bool"
  assumes dec_enc: "ok x \<Longrightarrow> dec (enc x @ rest) = Some (x, rest)"
begin

lemma dec_enc_end: "ok x \<Longrightarrow> dec (enc x) = Some (x, [])"
  using dec_enc [of x "[]"] by simp

text \<open>No encoding is a proper prefix of another one.\<close>

lemma enc_unique:
  assumes "ok x" and "ok y" and "enc x @ r = enc y @ s"
  shows "x = y \<and> r = s"
proof -
  have "Some (x, r) = Some (y, s)"
    using dec_enc [OF assms(1), of r, symmetric] dec_enc [OF assms(2), of s]
    by (simp only: assms(3))
  then show ?thesis by simp
qed

lemma enc_inj: "ok x \<Longrightarrow> ok y \<Longrightarrow> enc x = enc y \<Longrightarrow> x = y"
  using enc_unique [of x y "[]" "[]"] by simp

end

lemma GetVarint32Ptr_spec: "GetVarint32Ptr (EncodeVarint32 v @ rest) = Some (v, rest)"
proof (cases "unat v < 128")
  case True
  obtain b :: byte where b: "EncodeVarint32 v = [b]" "b AND 0x80 = 0" "ucast b = v"
    using final_bit [OF True] ucast_of_nat_byte [OF True] varint_spec_small [OF True]
    by (simp add: EncodeVarint32_spec)
  have "(ucast b :: uint32) AND 128 = 0" using b(2) by simp
  with b show ?thesis by (simp add: GetVarint32Ptr_def)
next
  case False
  then have n: "128 \<le> unat v" by simp
  from continuation_bit [of "unat v"] GetVarint32PtrFallback_loop_spec [of 0 0 "unat v" rest]
    unat_less_pow [of v]
  show ?thesis
    by (simp add: GetVarint32Ptr_def GetVarint32PtrFallback_def EncodeVarint32_spec
        varint_spec_large [OF n] del: of_nat_add)
qed

lemma GetVarint64Ptr_spec: "GetVarint64Ptr (EncodeVarint64 v @ rest) = Some (v, rest)"
  using GetVarint64Ptr_loop_spec [of 0 0 "unat v" rest] unat_less_64 [of v]
  by (simp add: GetVarint64Ptr_def EncodeVarint64_spec)

interpretation fixed32: codec "EncodeFixed32 le" "\<lambda>bs. if 4 \<le> length bs then Some (DecodeFixed32 le bs, drop 4 bs) else None" "\<lambda>_. True"
  by unfold_locales (simp add: EncodeFixed_bytes DecodeFixed32_bytes of_bytes_to_bytes)

interpretation fixed64: codec "EncodeFixed64 le" "\<lambda>bs. if 8 \<le> length bs then Some (DecodeFixed64 le bs, drop 8 bs) else None" "\<lambda>_. True"
  by unfold_locales (simp add: EncodeFixed_bytes DecodeFixed64_bytes of_bytes_to_bytes)

interpretation varint32: codec EncodeVarint32 GetVarint32 "\<lambda>_. True"
  by unfold_locales (simp add: GetVarint32_def GetVarint32Ptr_spec)

interpretation varint64: codec EncodeVarint64 GetVarint64 "\<lambda>_. True"
  by unfold_locales (simp add: GetVarint64_def GetVarint64Ptr_spec)

interpretation slice: codec "PutLengthPrefixedSlice []" GetLengthPrefixedSlice "\<lambda>s. length s < 2 ^ 32"
  by unfold_locales (simp add: PutLengthPrefixedSlice_def PutVarint32_def GetLengthPrefixedSlice_def
      varint32.dec_enc unat_of_nat_size remove_prefix_def)

lemmas coding_simps [simp] = varint32.dec_enc varint32.dec_enc_end varint64.dec_enc varint64.dec_enc_end
  slice.dec_enc slice.dec_enc_end

section \<open>Properties\<close>

text \<open>C19: every value that the codec appends to a string is read back, whatever follows it: 32-bit
  and 64-bit variable-length integers, fixed-width integers on machines of either byte order, also
  when writer and reader differ in theirs, and strings of less than 4 GiB.\<close>

lemma coding_roundtrip:
  assumes "length s < 2 ^ 32"
  shows "GetVarint32 (PutVarint32 [] v32 @ rest) = Some (v32, rest) \<and>
    GetVarint64 (PutVarint64 [] v64 @ rest) = Some (v64, rest) \<and>
    DecodeFixed32 le (PutFixed32 le' [] v32 @ rest) = v32 \<and>
    DecodeFixed64 le (PutFixed64 le' [] v64 @ rest) = v64 \<and>
    GetLengthPrefixedSlice (PutLengthPrefixedSlice [] s @ rest) = Some (s, rest)"
  using assms
  by (simp add: PutVarint32_def PutVarint64_def PutFixed32_def PutFixed64_def EncodeFixed_bytes
      DecodeFixed32_bytes DecodeFixed64_bytes of_bytes_to_bytes)

lemma coding_roundtrip_witness:
  "GetVarint32 (PutVarint32 [] 300 @ [9]) = Some (300, [9]) \<and>
   GetVarint64 (PutVarint64 [] 300 @ [9]) = Some (300, [9]) \<and>
   DecodeFixed32 True (PutFixed32 False [] 300 @ [9]) = 300 \<and>
   DecodeFixed64 True (PutFixed64 False [] 300 @ [9]) = 300 \<and>
   GetLengthPrefixedSlice (PutLengthPrefixedSlice [] [1, 2] @ [9]) = Some ([1, 2], [9])"
  by (rule coding_roundtrip) simp

text \<open>The unrolled 32-bit encoder writes what the loop of the 64-bit encoder writes for the
  same number, \<open>VarintLength\<close> is the number of bytes written, and it is at most five and ten.\<close>

lemma EncodeVarint_equiv:
  "EncodeVarint32 v = EncodeVarint64 (ucast v) \<and> VarintLength w = int (length (EncodeVarint64 w)) \<and>
   length (EncodeVarint32 v) \<le> 5 \<and> length (EncodeVarint64 w) \<le> 10"
proof -
  have v: "unat (ucast v :: uint64) = unat v"
    using unat_less_pow [of v] by (simp add: unsigned_ucast_eq take_bit_eq_mod)
  have "length (varint_spec (unat v)) \<le> 5"
    using unat_less_pow [of v] by (intro length_varint_spec_le) simp_all
  with v length_varint_64 [of w] show ?thesis
    by (simp add: EncodeVarint32_spec EncodeVarint64_spec VarintLength_def VarintLength_loop_spec)
qed

end
