(* ===== verification/Ldb_Status.thy ===== *)
theory Ldb_Status
  imports Ldb_Coding
begin

text \<open>
  The result type of leveldb's operations, \<open>util/status.cc\<close> and \<open>include/leveldb/status.h\<close>. A status
  is its \<open>state_\<close> pointer: null for success, otherwise an array that holds the length of the message
  in four bytes (little-endian on the machines of the build), the code in one byte, and the message.
  A C++ string literal is the list of its characters as bytes.
\<close>

type_synonym status = "byte list option"

definition str :: "string \<Rightarrow> byte list" where
  "str s = map of_char s"

datatype Code = kOk | kNotFound | kCorruption | kNotSupported | kInvalidArgument | kIOError

fun Code_num :: "Code \<Rightarrow> byte" where
  "Code_num kOk = 0"
| "Code_num kNotFound = 1"
| "Code_num kCorruption = 2"
| "Code_num kNotSupported = 3"
| "Code_num kInvalidArgument = 4"
| "Code_num kIOError = 5"

definition Status_OK :: status where
  "Status_OK = None"

text \<open>The constructor computes the size of the message with 32-bit integers. \<open>memcpy\<close> copies \<open>len1\<close>
  and \<open>len2\<close> bytes, which are the low 32 bits of the lengths.\<close>

definition Status_new :: "Code \<Rightarrow> slice \<Rightarrow> slice \<Rightarrow> status" where
  "Status_new code msg msg2 =
     (let len1 = of_nat (length msg) :: uint32;
          len2 = of_nat (length msg2) :: uint32;
          size = len1 + (if len2 \<noteq> 0 then 2 + len2 else 0)
      in Some (to_bytes 4 size @ [Code_num code] @ take (unat len1) msg @
           (if len2 \<noteq> 0 then str '': '' @ take (unat len2) msg2 else [])))"

definition Status_NotFound :: "slice \<Rightarrow> slice \<Rightarrow> status" where
  "Status_NotFound msg msg2 = Status_new kNotFound msg msg2"

definition Status_Corruption :: "slice \<Rightarrow> slice \<Rightarrow> status" where
  "Status_Corruption msg msg2 = Status_new kCorruption msg msg2"

definition Status_NotSupported :: "slice \<Rightarrow> slice \<Rightarrow> status" where
  "Status_NotSupported msg msg2 = Status_new kNotSupported msg msg2"

definition Status_InvalidArgument :: "slice \<Rightarrow> slice \<Rightarrow> status" where
  "Status_InvalidArgument msg msg2 = Status_new kInvalidArgument msg msg2"

definition Status_IOError :: "slice \<Rightarrow> slice \<Rightarrow> status" where
  "Status_IOError msg msg2 = Status_new kIOError msg msg2"

definition Status_ok :: "status \<Rightarrow> bool" where
  "Status_ok s \<longleftrightarrow> s = None"

definition Status_code :: "status \<Rightarrow> byte" where
  "Status_code s = (case s of None \<Rightarrow> Code_num kOk | Some state_ \<Rightarrow> state_ ! 4)"

definition Status_IsNotFound :: "status \<Rightarrow> bool" where
  "Status_IsNotFound s \<longleftrightarrow> Status_code s = Code_num kNotFound"

definition Status_IsCorruption :: "status \<Rightarrow> bool" where
  "Status_IsCorruption s \<longleftrightarrow> Status_code s = Code_num kCorruption"

definition Status_IsIOError :: "status \<Rightarrow> bool" where
  "Status_IsIOError s \<longleftrightarrow> Status_code s = Code_num kIOError"

definition Status_IsNotSupportedError :: "status \<Rightarrow> bool" where
  "Status_IsNotSupportedError s \<longleftrightarrow> Status_code s = Code_num kNotSupported"

definition Status_IsInvalidArgument :: "status \<Rightarrow> bool" where
  "Status_IsInvalidArgument s \<longleftrightarrow> Status_code s = Code_num kInvalidArgument"

definition CopyState :: "byte list \<Rightarrow> byte list" where
  "CopyState state = take (unat (of_bytes (take 4 state) :: uint32) + 5) state"

definition Status_copy :: "status \<Rightarrow> status" where
  "Status_copy rhs = map_option CopyState rhs"

text \<open>The text of an unknown code is a number, which the constructors never store.\<close>

definition code_text :: "byte \<Rightarrow> (byte \<Rightarrow> byte list) \<Rightarrow> byte list" where
  "code_text code unknown =
     (if code = 0 then str ''OK'' else if code = 1 then str ''NotFound: ''
      else if code = 2 then str ''Corruption: '' else if code = 3 then str ''Not implemented: ''
      else if code = 4 then str ''Invalid argument: '' else if code = 5 then str ''IO error: ''
      else unknown code)"

definition Status_ToString :: "(byte \<Rightarrow> byte list) \<Rightarrow> status \<Rightarrow> byte list" where
  "Status_ToString unknown s =
     (case s of None \<Rightarrow> str ''OK''
      | Some state_ \<Rightarrow>
          let len = of_bytes (take 4 state_) :: uint32
          in code_text (Status_code s) unknown @ take (unat len) (drop 5 state_))"

text \<open>Decimal notation, as \<open>printf\<close> writes an unsigned number.\<close>

fun decimal :: "nat \<Rightarrow> byte list" where
  "decimal n = (if n < 10 then [of_nat (48 + n)] else decimal (n div 10) @ [of_nat (48 + n mod 10)])"

declare decimal.simps [simp del]

lemma length_str [simp]: "length (str s) = length s"
  by (simp add: str_def)

lemma Status_ok_simps [simp]:
  "Status_ok Status_OK" "\<not> Status_ok (Status_new c m m2)" "\<not> Status_ok (Status_Corruption m m2)"
  "\<not> Status_ok (Status_IOError m m2)" "\<not> Status_ok (Status_NotFound m m2)"
  "\<not> Status_ok (Status_NotSupported m m2)" "\<not> Status_ok (Status_InvalidArgument m m2)"
  by (simp_all add: Status_ok_def Status_OK_def Status_new_def Let_def Status_Corruption_def
      Status_IOError_def Status_NotFound_def Status_NotSupported_def Status_InvalidArgument_def)

lemma Status_code_new: "Status_code (Status_new c m m2) = Code_num c"
  by (simp add: Status_code_def Status_new_def Let_def nth_append)

lemma Status_codes [simp]:
  "Status_IsCorruption (Status_Corruption m m2)" "\<not> Status_IsCorruption Status_OK"
  "Status_IsIOError (Status_IOError m m2)" "Status_IsNotFound (Status_NotFound m m2)"
  "\<not> Status_IsNotFound (Status_Corruption m m2)" "\<not> Status_IsNotFound (Status_IOError m m2)"
  "\<not> Status_IsNotFound Status_OK"
  by (simp_all add: Status_IsCorruption_def Status_Corruption_def Status_code_new Status_IsIOError_def
      Status_IOError_def Status_IsNotFound_def Status_NotFound_def) (simp_all add: Status_code_def Status_OK_def)

text \<open>A status keeps the code and the messages it was made from: for messages of less than
  2 GiB together, the printed form is the name of the code and the messages, separated by a colon
  when there are two, a copy is equal to the original, and exactly the status without an error is
  ok.\<close>

lemma Status_roundtrip:
  assumes "length m + length m2 < 2 ^ 31" and "c \<noteq> kOk"
  shows "Status_code (Status_new c m m2) = Code_num c \<and>
    Status_ToString unknown (Status_new c m m2) =
      code_text (Code_num c) unknown @ m @ (if m2 = [] then [] else str '': '' @ m2) \<and>
    Status_copy (Status_new c m m2) = Status_new c m m2 \<and> \<not> Status_ok (Status_new c m m2)"
proof -
  have u: "unat (of_nat (length m) :: uint32) = length m" "unat (of_nat (length m2) :: uint32) = length m2"
    using assms(1) by (simp_all add: unat_of_nat_size)
  have z: "(of_nat (length m2) :: uint32) = 0 \<longleftrightarrow> m2 = []"
    using u(2) by (simp add: word_unat_eq_iff)
  define body where "body = m @ (if m2 = [] then [] else str '': '' @ m2)"
  have len: "length body < 2 ^ 32" using assms(1) by (simp add: body_def)
  have "of_nat (length m) + (if (of_nat (length m2) :: uint32) \<noteq> 0 then 2 + of_nat (length m2) else 0)
      = (of_nat (length body) :: uint32)"
    by (simp add: body_def z)
  then have s: "Status_new c m m2 = Some (to_bytes 4 (of_nat (length body) :: uint32) @ [Code_num c] @ body)"
    unfolding Status_new_def Let_def u by (simp add: body_def z)
  have "unat (of_bytes (to_bytes 4 (of_nat (length body) :: uint32)) :: uint32) = length body"
    using len by (simp add: of_bytes_to_bytes unat_of_nat_size)
  then show ?thesis
    using Status_code_new [of c m m2] unfolding s
    by (simp add: Status_ToString_def Status_copy_def CopyState_def Status_ok_def Let_def body_def)
qed

lemma Status_roundtrip_witness:
  "Status_code (Status_new kIOError (str ''a'') (str ''b'')) = Code_num kIOError \<and>
    Status_ToString (\<lambda>_. []) (Status_new kIOError (str ''a'') (str ''b'')) =
      code_text (Code_num kIOError) (\<lambda>_. []) @ str ''a'' @
        (if str ''b'' = [] then [] else str '': '' @ str ''b'') \<and>
    Status_copy (Status_new kIOError (str ''a'') (str ''b'')) = Status_new kIOError (str ''a'') (str ''b'') \<and>
    \<not> Status_ok (Status_new kIOError (str ''a'') (str ''b''))"
  by (rule Status_roundtrip) simp_all

end
