(* ===== verification/Ldb_File.thy ===== *)
theory Ldb_File
  imports Ldb_Status "HOL-Library.Sublist"
begin

text \<open>
  The file classes of \<open>util/env_posix.cc\<close>. The kernel is a list of answers to the system calls to
  come: a call takes the next one, and one without an answer left succeeds completely. A \<open>write\<close> or
  \<open>read\<close> may be short, interrupted or failing at any time; only the number of answers, and with it
  the number of interruptions, is finite. What is in the file and how much of it has been made
  durable are part of the state. The texts of \<open>strerror\<close> are a parameter.

  The interfaces \<open>writable_file\<close> and \<open>sequential_file\<close> state what the log and the tables rely on.
\<close>

section \<open>The kernel\<close>

datatype sys_answer = Done nat | Fail int

record posix =
  os_answers :: "sys_answer list"
  os_strerror :: "int \<Rightarrow> byte list"

definition EINTR :: int where "EINTR = 4"
definition ENOENT :: int where "ENOENT = 2"
definition EINVAL :: int where "EINVAL = 22"

definition PosixError :: "posix \<Rightarrow> byte list \<Rightarrow> int \<Rightarrow> status" where
  "PosixError os context error_number =
     (if error_number = ENOENT then Status_NotFound context (os_strerror os error_number)
      else Status_IOError context (os_strerror os error_number))"

definition sys_answer :: "nat \<Rightarrow> posix \<Rightarrow> sys_answer \<times> posix" where
  "sys_answer all os =
     (case os_answers os of [] \<Rightarrow> (Done all, os)
      | a # as \<Rightarrow> ((case a of Done k \<Rightarrow> Done (min k all) | Fail e \<Rightarrow> Fail e), os\<lparr>os_answers := as\<rparr>))"

lemma PosixError_not_ok [simp]: "\<not> Status_ok (PosixError os c e)"
  by (simp add: PosixError_def)

section \<open>Files that are written\<close>

definition kWritableFileBufferSize :: nat where
  "kWritableFileBufferSize = 65536"

text \<open>\<open>wf_buf\<close> is \<open>buf_[0, pos_ - 1]\<close>, its length is \<open>pos_\<close>. \<open>wf_disk\<close> is the content of the file,
  \<open>wf_synced\<close> how much of it is on durable media.\<close>

record PosixWritableFile =
  wf_buf :: "byte list"
  wf_fd :: int
  wf_is_manifest :: bool
  wf_filename :: "byte list"
  wf_dirname :: "byte list"
  wf_disk :: "byte list"
  wf_synced :: nat
  wf_os :: posix

function WriteUnbuffered :: "PosixWritableFile \<Rightarrow> byte list \<Rightarrow> status \<times> PosixWritableFile" where
  "WriteUnbuffered f data =
     (if data = [] then (Status_OK, f)
      else
        (case sys_answer (length data) (wf_os f) of
           (Fail e, os) \<Rightarrow>
             if e = EINTR then WriteUnbuffered (f\<lparr>wf_os := os\<rparr>) data
             else (PosixError os (wf_filename f) e, f\<lparr>wf_os := os\<rparr>)
         | (Done k, os) \<Rightarrow>
             WriteUnbuffered (f\<lparr>wf_disk := wf_disk f @ take k data, wf_os := os\<rparr>) (drop k data)))"
  by auto
termination
  by (relation "measure (\<lambda>(f, data). length (os_answers (wf_os f)) + length data)")
    (auto simp: sys_answer_def split: list.splits sys_answer.splits if_splits)

declare WriteUnbuffered.simps [simp del]

definition FlushBuffer :: "PosixWritableFile \<Rightarrow> status \<times> PosixWritableFile" where
  "FlushBuffer f = (let (status, f) = WriteUnbuffered f (wf_buf f) in (status, f\<lparr>wf_buf := []\<rparr>))"

definition Append :: "PosixWritableFile \<Rightarrow> slice \<Rightarrow> status \<times> PosixWritableFile" where
  "Append f data =
     (let copy_size = min (length data) (kWritableFileBufferSize - length (wf_buf f));
          f = f\<lparr>wf_buf := wf_buf f @ take copy_size data\<rparr>;
          write_data = drop copy_size data
      in if write_data = [] then (Status_OK, f)
         else
           (case FlushBuffer f of
              (status, f) \<Rightarrow>
                if \<not> Status_ok status then (status, f)
                else if length write_data < kWritableFileBufferSize then
                  (Status_OK, f\<lparr>wf_buf := write_data\<rparr>)
                else WriteUnbuffered f write_data))"

definition Flush :: "PosixWritableFile \<Rightarrow> status \<times> PosixWritableFile" where
  "Flush f = FlushBuffer f"

definition Close :: "PosixWritableFile \<Rightarrow> status \<times> PosixWritableFile" where
  "Close f =
     (let (status, f) = FlushBuffer f;
          (close_result, os) = sys_answer 0 (wf_os f);
          status = (case close_result of Fail e \<Rightarrow> if Status_ok status then PosixError os (wf_filename f) e else status
                    | Done _ \<Rightarrow> status)
      in (status, f\<lparr>wf_os := os, wf_fd := -1\<rparr>))"

text \<open>The system calls of \<open>SyncFd\<close>: \<open>fcntl(F_FULLFSYNC)\<close>, and \<open>fsync\<close> where that is refused. The
  build defines \<open>HAVE_FULLFSYNC\<close> and not \<open>HAVE_FDATASYNC\<close>.\<close>

definition SyncFd :: "posix \<Rightarrow> byte list \<Rightarrow> status \<times> posix" where
  "SyncFd os fd_path =
     (case sys_answer 0 os of
        (Done _, os) \<Rightarrow> (Status_OK, os)
      | (Fail _, os) \<Rightarrow>
          (case sys_answer 0 os of
             (Done _, os) \<Rightarrow> (Status_OK, os)
           | (Fail e, os) \<Rightarrow> (PosixError os fd_path e, os)))"

definition SyncDirIfManifest :: "PosixWritableFile \<Rightarrow> status \<times> PosixWritableFile" where
  "SyncDirIfManifest f =
     (if \<not> wf_is_manifest f then (Status_OK, f)
      else
        (case sys_answer 1 (wf_os f) of
           (Fail e, os) \<Rightarrow> (PosixError os (wf_dirname f) e, f\<lparr>wf_os := os\<rparr>)
         | (Done fd, os) \<Rightarrow>
             let (status, os) = SyncFd os (wf_dirname f);
                 (_, os) = sys_answer 0 os
             in (status, f\<lparr>wf_os := os\<rparr>)))"

definition Sync :: "PosixWritableFile \<Rightarrow> status \<times> PosixWritableFile" where
  "Sync f =
     (case SyncDirIfManifest f of (status, f) \<Rightarrow>
        if \<not> Status_ok status then (status, f)
        else
          (case FlushBuffer f of (status, f) \<Rightarrow>
             if \<not> Status_ok status then (status, f)
             else
               (case SyncFd (wf_os f) (wf_filename f) of (status, os) \<Rightarrow>
                  (status, f\<lparr>wf_os := os,
                     wf_synced := if Status_ok status then length (wf_disk f) else wf_synced f\<rparr>))))"

text \<open>The parts of a path. \<open>rfind('/')\<close> splits at the last separator.\<close>

definition split_path :: "byte list \<Rightarrow> (byte list \<times> byte list) option" where
  "split_path filename =
     (let base = takeWhile (\<lambda>c. c \<noteq> 0x2F) (rev filename)
      in if length base = length filename then None
         else Some (take (length filename - length base - 1) filename, rev base))"

definition Dirname :: "byte list \<Rightarrow> byte list" where
  "Dirname filename = (case split_path filename of None \<Rightarrow> str ''.'' | Some (dir, _) \<Rightarrow> dir)"

definition Basename :: "byte list \<Rightarrow> slice" where
  "Basename filename = (case split_path filename of None \<Rightarrow> filename | Some (_, base) \<Rightarrow> base)"

definition IsManifest :: "byte list \<Rightarrow> bool" where
  "IsManifest filename = Slice_starts_with (Basename filename) (str ''MANIFEST'')"

definition PosixWritableFile_new :: "byte list \<Rightarrow> int \<Rightarrow> byte list \<Rightarrow> posix \<Rightarrow> PosixWritableFile" where
  "PosixWritableFile_new filename fd disk os =
     \<lparr>wf_buf = [], wf_fd = fd, wf_is_manifest = IsManifest filename, wf_filename = filename,
      wf_dirname = Dirname filename, wf_disk = disk, wf_synced = 0, wf_os = os\<rparr>"

section \<open>What a written file holds\<close>

definition wf_written :: "PosixWritableFile \<Rightarrow> byte list" where
  "wf_written f = wf_disk f @ wf_buf f"

definition wf_inv :: "PosixWritableFile \<Rightarrow> bool" where
  "wf_inv f \<longleftrightarrow> length (wf_buf f) \<le> kWritableFileBufferSize"

lemma WriteUnbuffered_effect:
  "WriteUnbuffered f data = (s, f') \<Longrightarrow>
     \<exists>k os. f' = f\<lparr>wf_disk := wf_disk f @ take k data, wf_os := os\<rparr> \<and> (Status_ok s \<longrightarrow> length data \<le> k)"
proof (induction f data rule: WriteUnbuffered.induct)
  case (1 f data)
  show ?case
  proof (cases "data = []")
    case True
    with "1.prems" have "f' = f\<lparr>wf_disk := wf_disk f @ take 0 data, wf_os := wf_os f\<rparr>"
      by (simp add: WriteUnbuffered.simps)
    with True show ?thesis by (metis le0 list.size(3))
  next
    case False
    obtain a os where a: "sys_answer (length data) (wf_os f) = (a, os)" by fastforce
    show ?thesis
    proof (cases a)
      case (Done k)
      let ?f = "f\<lparr>wf_disk := wf_disk f @ take k data, wf_os := os\<rparr>"
      have "WriteUnbuffered ?f (drop k data) = (s, f')"
        using "1.prems" False a Done by (simp add: WriteUnbuffered.simps [of f])
      from "1.IH"(1) [OF False a [symmetric] Done this] obtain j os' where
        "f' = ?f\<lparr>wf_disk := wf_disk ?f @ take j (drop k data), wf_os := os'\<rparr>"
        "Status_ok s \<longrightarrow> length (drop k data) \<le> j" by blast
      then have "f' = f\<lparr>wf_disk := wf_disk f @ take (k + j) data, wf_os := os'\<rparr> \<and>
          (Status_ok s \<longrightarrow> length data \<le> k + j)" by (auto simp: take_add)
      then show ?thesis by blast
    next
      case (Fail e)
      show ?thesis
      proof (cases "e = EINTR")
        case True
        have "WriteUnbuffered (f\<lparr>wf_os := os\<rparr>) data = (s, f')"
          using "1.prems" False a Fail True by (simp add: WriteUnbuffered.simps [of f])
        from "1.IH"(2) [OF False a [symmetric] Fail True this] show ?thesis by auto
      next
        case no: False
        have "s = PosixError os (wf_filename f) e" "f' = f\<lparr>wf_disk := wf_disk f @ take 0 data, wf_os := os\<rparr>"
          using "1.prems" False a Fail no by (simp_all add: WriteUnbuffered.simps [of f])
        then show ?thesis by (metis PosixError_not_ok)
      qed
    qed
  qed
qed

lemma FlushBuffer_effect:
  assumes "FlushBuffer f = (s, f')"
  shows "wf_buf f' = [] \<and> prefix (wf_disk f') (wf_written f) \<and> (Status_ok s \<longrightarrow> wf_disk f' = wf_written f) \<and>
    wf_filename f' = wf_filename f \<and> wf_synced f' = wf_synced f"
proof -
  obtain f1 where f1: "WriteUnbuffered f (wf_buf f) = (s, f1)" "f' = f1\<lparr>wf_buf := []\<rparr>"
    using assms by (cases "WriteUnbuffered f (wf_buf f)") (simp add: FlushBuffer_def)
  from WriteUnbuffered_effect [OF f1(1)] obtain k os where
    "f1 = f\<lparr>wf_disk := wf_disk f @ take k (wf_buf f), wf_os := os\<rparr>" "Status_ok s \<longrightarrow> length (wf_buf f) \<le> k"
    by blast
  with f1(2) show ?thesis by (auto simp: wf_written_def take_is_prefix)
qed

lemma Append_effect:
  assumes "wf_inv f" and "Append f data = (s, f')"
  shows "wf_inv f' \<and> (Status_ok s \<longrightarrow> wf_written f' = wf_written f @ data) \<and>
    prefix (wf_disk f') (wf_written f @ data)"
proof -
  define n where "n = min (length data) (kWritableFileBufferSize - length (wf_buf f))"
  define f0 where "f0 = f\<lparr>wf_buf := wf_buf f @ take n data\<rparr>"
  have w: "wf_written f0 @ drop n data = wf_written f @ data" by (simp add: wf_written_def f0_def)
  have i0: "wf_inv f0" using assms(1) by (auto simp: wf_inv_def f0_def n_def)
  show ?thesis
  proof (cases "drop n data = []")
    case True
    then have "(s, f') = (Status_OK, f0)"
      using assms(2) unfolding Append_def Let_def n_def [symmetric] f0_def [symmetric] by simp
    with i0 True show ?thesis unfolding w [symmetric] by (simp add: wf_written_def)
  next
    case False
    obtain s1 f1 where f1: "FlushBuffer f0 = (s1, f1)" by fastforce
    note e1 = FlushBuffer_effect [OF f1]
    have r: "(s, f') = (if \<not> Status_ok s1 then (s1, f1)
        else if length (drop n data) < kWritableFileBufferSize then (Status_OK, f1\<lparr>wf_buf := drop n data\<rparr>)
        else WriteUnbuffered f1 (drop n data))"
      using assms(2) False f1 unfolding Append_def Let_def n_def [symmetric] f0_def [symmetric] by simp
    consider "\<not> Status_ok s1" | "Status_ok s1" "length (drop n data) < kWritableFileBufferSize"
      | "Status_ok s1" "\<not> length (drop n data) < kWritableFileBufferSize" by blast
    then show ?thesis
    proof cases
      case 1
      with r e1 show ?thesis unfolding w [symmetric] by (auto simp: wf_inv_def intro: prefix_prefix)
    next
      case 2
      with r e1 show ?thesis
        unfolding w [symmetric] by (auto simp: wf_inv_def wf_written_def)
    next
      case 3
      with r have "WriteUnbuffered f1 (drop n data) = (s, f')" by simp
      from WriteUnbuffered_effect [OF this] obtain k os where
        "f' = f1\<lparr>wf_disk := wf_disk f1 @ take k (drop n data), wf_os := os\<rparr>"
        "Status_ok s \<longrightarrow> length (drop n data) \<le> k" by blast
      with 3 e1 show ?thesis
        unfolding w [symmetric] by (auto simp: wf_inv_def wf_written_def take_is_prefix)
    qed
  qed
qed

section \<open>The interface of a file that is written\<close>

text \<open>Appending adds to what has been written, or fails; flushing brings all of it to the file, or
  fails. At every time the file holds a prefix of what has been appended.\<close>

locale writable_file =
  fixes append :: "'f \<Rightarrow> slice \<Rightarrow> status \<times> 'f" and flush :: "'f \<Rightarrow> status \<times> 'f"
    and written disk :: "'f \<Rightarrow> byte list" and inv :: "'f \<Rightarrow> bool"
  assumes append_effect: "inv f \<Longrightarrow> append f data = (s, f') \<Longrightarrow>
      inv f' \<and> (Status_ok s \<longrightarrow> written f' = written f @ data) \<and> prefix (disk f') (written f @ data)"
    and flush_effect: "inv f \<Longrightarrow> flush f = (s, f') \<Longrightarrow>
      inv f' \<and> (Status_ok s \<longrightarrow> written f' = written f \<and> disk f' = written f) \<and> prefix (disk f') (written f)"

interpretation posix_file: writable_file Append Flush wf_written wf_disk wf_inv
proof
  fix f data s f'
  assume "wf_inv f" "Append f data = (s, f')"
  then show "wf_inv f' \<and> (Status_ok s \<longrightarrow> wf_written f' = wf_written f @ data) \<and>
      prefix (wf_disk f') (wf_written f @ data)" by (rule Append_effect)
next
  fix f s f'
  assume "wf_inv f" "Flush f = (s, f')"
  then show "wf_inv f' \<and> (Status_ok s \<longrightarrow> wf_written f' = wf_written f \<and> wf_disk f' = wf_written f) \<and>
      prefix (wf_disk f') (wf_written f)"
    using FlushBuffer_effect [of f s f'] by (auto simp: Flush_def wf_inv_def wf_written_def)
qed

section \<open>Files that are read in sequence\<close>

text \<open>\<open>sf_rest\<close> is the content of the file from the file position on.\<close>

record PosixSequentialFile =
  sf_filename :: "byte list"
  sf_rest :: "byte list"
  sf_os :: posix

function SequentialRead :: "PosixSequentialFile \<Rightarrow> nat \<Rightarrow> (status \<times> slice option) \<times> PosixSequentialFile" where
  "SequentialRead f n =
     (case sys_answer n (sf_os f) of
        (Fail e, os) \<Rightarrow>
          if e = EINTR then SequentialRead (f\<lparr>sf_os := os\<rparr>) n
          else ((PosixError os (sf_filename f) e, None), f\<lparr>sf_os := os\<rparr>)
      | (Done k, os) \<Rightarrow>
          ((Status_OK, Some (take k (sf_rest f))), f\<lparr>sf_rest := drop k (sf_rest f), sf_os := os\<rparr>))"
  by auto
termination
  by (relation "measure (\<lambda>(f, n). length (os_answers (sf_os f)))")
    (auto simp: sys_answer_def split: list.splits sys_answer.splits)

declare SequentialRead.simps [simp del]

definition SequentialSkip :: "PosixSequentialFile \<Rightarrow> uint64 \<Rightarrow> status \<times> PosixSequentialFile" where
  "SequentialSkip f n =
     (case sys_answer 0 (sf_os f) of
        (Fail e, os) \<Rightarrow> (PosixError os (sf_filename f) e, f\<lparr>sf_os := os\<rparr>)
      | (Done _, os) \<Rightarrow> (Status_OK, f\<lparr>sf_rest := drop (unat n) (sf_rest f), sf_os := os\<rparr>))"

section \<open>Files that are mapped\<close>

text \<open>A slice into the mapping is its address and its length.\<close>

record PosixMmapReadableFile =
  mm_base :: addr
  mm_length :: size_t
  mm_filename :: "byte list"

definition MmapRead :: "posix \<Rightarrow> PosixMmapReadableFile \<Rightarrow> uint64 \<Rightarrow> size_t \<Rightarrow> status \<times> (addr \<times> size_t)" where
  "MmapRead os f offset n =
     (if offset + n > mm_length f then (PosixError os (mm_filename f) EINVAL, (0, 0))
      else (Status_OK, (mm_base f + offset, n)))"

section \<open>Limits on resources\<close>

definition Limiter_Acquire :: "int \<Rightarrow> bool \<times> int" where
  "Limiter_Acquire acquires_allowed =
     (let old_acquires_allowed = acquires_allowed; acquires_allowed = acquires_allowed - 1
      in if old_acquires_allowed > 0 then (True, acquires_allowed) else (False, acquires_allowed + 1))"

definition Limiter_Release :: "int \<Rightarrow> int" where
  "Limiter_Release acquires_allowed = acquires_allowed + 1"

text \<open>Threads run these concurrently, one atomic operation at a time: \<open>Acquire\<close> subtracts and looks at
  the old value, and adds again when there was nothing to take. \<open>lim_failing\<close> are the threads between
  the two operations.\<close>

record limiter_state =
  lim_allowed :: int
  lim_holders :: "nat set"
  lim_failing :: "nat set"

inductive limiter_step :: "limiter_state \<Rightarrow> limiter_state \<Rightarrow> bool" where
  take: "lim_allowed s > 0 \<Longrightarrow> t \<notin> lim_holders s \<Longrightarrow> t \<notin> lim_failing s \<Longrightarrow>
    limiter_step s (s\<lparr>lim_allowed := lim_allowed s - 1, lim_holders := insert t (lim_holders s)\<rparr>)"
| fail: "lim_allowed s \<le> 0 \<Longrightarrow> t \<notin> lim_holders s \<Longrightarrow> t \<notin> lim_failing s \<Longrightarrow>
    limiter_step s (s\<lparr>lim_allowed := lim_allowed s - 1, lim_failing := insert t (lim_failing s)\<rparr>)"
| restore: "t \<in> lim_failing s \<Longrightarrow>
    limiter_step s (s\<lparr>lim_allowed := lim_allowed s + 1, lim_failing := lim_failing s - {t}\<rparr>)"
| release: "t \<in> lim_holders s \<Longrightarrow>
    limiter_step s (s\<lparr>lim_allowed := lim_allowed s + 1, lim_holders := lim_holders s - {t}\<rparr>)"

definition limiter_init :: "nat \<Rightarrow> limiter_state" where
  "limiter_init max_acquires = \<lparr>lim_allowed = int max_acquires, lim_holders = {}, lim_failing = {}\<rparr>"

definition limiter_inv :: "nat \<Rightarrow> limiter_state \<Rightarrow> bool" where
  "limiter_inv n s \<longleftrightarrow> finite (lim_holders s) \<and> finite (lim_failing s) \<and>
     lim_holders s \<inter> lim_failing s = {} \<and>
     lim_allowed s + int (card (lim_holders s)) + int (card (lim_failing s)) = int n \<and>
     card (lim_holders s) \<le> n"

lemma limiter_inv_step: "limiter_step s s' \<Longrightarrow> limiter_inv n s \<Longrightarrow> limiter_inv n s'"
proof (induction rule: limiter_step.induct)
  case (restore t s)
  then have "0 < card (lim_failing s)" by (auto simp: limiter_inv_def card_gt_0_iff)
  with restore show ?case by (auto simp: limiter_inv_def)
next
  case (release t s)
  then have "0 < card (lim_holders s)" by (auto simp: limiter_inv_def card_gt_0_iff)
  with release show ?case by (auto simp: limiter_inv_def)
qed (auto simp: limiter_inv_def)

section \<open>Properties\<close>

text \<open>Appending pieces one after the other, up to the first failure.\<close>

fun appends :: "PosixWritableFile \<Rightarrow> slice list \<Rightarrow> status \<times> PosixWritableFile" where
  "appends f [] = (Status_OK, f)"
| "appends f (d # ds) =
     (case Append f d of (s, f) \<Rightarrow> if Status_ok s then appends f ds else (s, f))"

lemma appends_effect:
  "wf_inv f \<Longrightarrow> appends f ds = (s, f') \<Longrightarrow>
     wf_inv f' \<and> (Status_ok s \<longrightarrow> wf_written f' = wf_written f @ concat ds) \<and>
     prefix (wf_disk f') (wf_written f @ concat ds)"
proof (induction ds arbitrary: f)
  case Nil
  then show ?case by (auto simp: wf_written_def)
next
  case (Cons d ds)
  obtain s1 f1 where f1: "Append f d = (s1, f1)" by fastforce
  note e = Append_effect [OF Cons.prems(1) f1]
  show ?case
  proof (cases "Status_ok s1")
    case True
    with Cons.prems(2) f1 have "appends f1 ds = (s, f')" by simp
    from Cons.IH [OF _ this] e True show ?thesis by simp
  next
    case False
    with Cons.prems f1 e prefix_prefix [of "wf_disk f'" "wf_written f @ d" "concat ds"] show ?thesis by auto
  qed
qed


definition example_os :: posix where
  "example_os = \<lparr>os_answers = [Fail EINTR, Done 1, Fail EINTR], os_strerror = (\<lambda>_. [])\<rparr>"




text \<open>C23: a read of a mapped file stays inside the mapping when offset and length do not wrap around.
  The check adds in 64 bits: an offset beyond the mapping with a length that makes the sum wrap
  around passes it, and the returned slice lies outside.\<close>

lemma MmapRead_bounds:
  assumes "0 < mm_length f"
  shows "(\<forall>offset n. unat offset + unat n < 2 ^ 64 \<longrightarrow>
      (Status_ok (fst (MmapRead os f offset n)) \<longleftrightarrow> unat offset + unat n \<le> unat (mm_length f)) \<and>
      (Status_ok (fst (MmapRead os f offset n)) \<longrightarrow> snd (MmapRead os f offset n) = (mm_base f + offset, n))) \<and>
    MmapRead os f (-1) 2 = (Status_OK, (mm_base f - 1, 2))"
proof
  have 1: "\<not> mm_length f < 1" using assms by (simp add: word_less_nat_alt)
  then show "MmapRead os f (-1) 2 = (Status_OK, (mm_base f - 1, 2))"
    by (simp add: MmapRead_def)
qed (auto simp: MmapRead_def unat_add_no_wrap word_less_nat_alt)

lemma MmapRead_bounds_witness:
  "MmapRead example_os \<lparr>mm_base = 4096, mm_length = 100, mm_filename = []\<rparr> (-1) 2 = (Status_OK, (4095, 2))"
  using MmapRead_bounds [of "\<lparr>mm_base = 4096, mm_length = 100, mm_filename = []\<rparr>" example_os] by simp

section \<open>The interface of a file that is read in sequence\<close>

text \<open>A read returns as many bytes as are asked for, or all that are left.\<close>

locale sequential_file =
  fixes read :: "'f \<Rightarrow> nat \<Rightarrow> (status \<times> slice option) \<times> 'f" and rest :: "'f \<Rightarrow> byte list" and inv :: "'f \<Rightarrow> bool"
  assumes read_effect: "inv f \<Longrightarrow>
    \<exists>f'. read f n = ((Status_OK, Some (take n (rest f))), f') \<and> rest f' = drop n (rest f) \<and> inv f'"

text \<open>On a regular file \<open>read\<close> returns less than what is asked for only at the end; it may be
  interrupted any number of times.\<close>

definition sf_inv :: "PosixSequentialFile \<Rightarrow> bool" where
  "sf_inv f \<longleftrightarrow> (\<forall>a \<in> set (os_answers (sf_os f)). a = Fail EINTR)"

lemma SequentialRead_regular:
  "sf_inv f \<Longrightarrow> \<exists>f'. SequentialRead f n = ((Status_OK, Some (take n (sf_rest f))), f') \<and>
     sf_rest f' = drop n (sf_rest f) \<and> sf_inv f'"
proof (induction f n rule: SequentialRead.induct)
  case (1 f n)
  show ?case
  proof (cases "os_answers (sf_os f)")
    case Nil
    then show ?thesis by (subst SequentialRead.simps) (simp add: sys_answer_def sf_inv_def)
  next
    case (Cons a as)
    with "1.prems" have a: "sys_answer n (sf_os f) = (Fail EINTR, (sf_os f)\<lparr>os_answers := as\<rparr>)"
      by (simp add: sys_answer_def sf_inv_def)
    have "sf_inv (f\<lparr>sf_os := (sf_os f)\<lparr>os_answers := as\<rparr>\<rparr>)" using "1.prems" Cons by (simp add: sf_inv_def)
    from "1.IH" [OF a [symmetric] refl refl this] show ?thesis
      by (subst SequentialRead.simps) (simp add: a)
  qed
qed

interpretation posix_seq: sequential_file SequentialRead sf_rest sf_inv
  by unfold_locales (rule SequentialRead_regular)

end
