(* ===== verification/Ldb_Crc32c.thy ===== *)
theory Ldb_Crc32c
  imports Ldb_Crc_Tables Ldb_Coding
begin

text \<open>
  The checksum of leveldb, \<open>util/crc32c.cc\<close> and \<open>util/crc32c.h\<close>. \<open>Extend\<close> is the portable routine
  of the code with its three phases: single bytes up to an aligned address, four interleaved
  strides of words, single bytes again. It gets the address of the data, which decides where the
  phases begin, and the byte order of the machine. \<open>AcceleratedCRC32C\<close> is the build's version, which
  returns zero, so that the portable routine is the one that runs.

  The result is compared with the division of the message by the polynomial, bit by bit, and the
  \<open>checksum\<close> interface that the log and the tables rely on is derived from it.
\<close>

section \<open>The code\<close>

definition kCRC32Xor :: uint32 where
  "kCRC32Xor = 0xffffffff"

definition ReadUint32LE :: "bool \<Rightarrow> byte list \<Rightarrow> uint32" where
  "ReadUint32LE le buffer = DecodeFixed32 le buffer"

text \<open>\<open>RoundUp<4>\<close> on the address of the data.\<close>

definition RoundUp4 :: "addr \<Rightarrow> addr" where
  "RoundUp4 pointer = (pointer + 3) AND NOT 3"

definition AcceleratedCRC32C :: "uint32 \<Rightarrow> byte list \<Rightarrow> uint32" where
  "AcceleratedCRC32C crc buf = 0"

definition CanAccelerateCRC32C :: bool where
  "CanAccelerateCRC32C \<longleftrightarrow>
     AcceleratedCRC32C 0 [0x54, 0x65, 0x73, 0x74, 0x43, 0x52, 0x43, 0x42, 0x75, 0x66, 0x66, 0x65, 0x72]
       = 0xdcbc59fa"

definition STEP1 :: "uint32 \<Rightarrow> byte \<Rightarrow> uint32" where
  "STEP1 l b = (let c = (l AND 0xff) XOR ucast b in kByteExtensionTable ! unat c XOR drop_bit 8 l)"

definition STEP4 :: "bool \<Rightarrow> uint32 \<Rightarrow> byte list \<Rightarrow> uint32" where
  "STEP4 le crc p =
     ReadUint32LE le p XOR kStrideExtensionTable3 ! unat (crc AND 0xff)
       XOR kStrideExtensionTable2 ! unat (drop_bit 8 crc AND 0xff)
       XOR kStrideExtensionTable1 ! unat (drop_bit 16 crc AND 0xff)
       XOR kStrideExtensionTable0 ! unat (drop_bit 24 crc)"

type_synonym strides = "uint32 \<times> uint32 \<times> uint32 \<times> uint32"

fun STEP16 :: "bool \<Rightarrow> strides \<Rightarrow> byte list \<Rightarrow> strides" where
  "STEP16 le (crc0, crc1, crc2, crc3) p =
     (STEP4 le crc0 p, STEP4 le crc1 (drop 4 p), STEP4 le crc2 (drop 8 p), STEP4 le crc3 (drop 12 p))"

definition STEP4W_body :: "uint32 \<Rightarrow> uint32" where
  "STEP4W_body w = drop_bit 8 w XOR kByteExtensionTable ! unat (w AND 0xff)"

definition STEP4W :: "uint32 \<Rightarrow> uint32 \<Rightarrow> uint32" where
  "STEP4W l w = (STEP4W_body ^^ 4) (w XOR l)"

text \<open>The loops: \<open>while (p != x)\<close> and \<open>while (p != e)\<close> over single bytes, \<open>while ((e - p) >= 16)\<close> over
  swaths, \<open>while ((e - p) >= 4)\<close> over words, which rotates the strides.\<close>

definition byte_loop :: "uint32 \<Rightarrow> byte list \<Rightarrow> uint32" where
  "byte_loop l bs = foldl STEP1 l bs"

function swath_loop :: "bool \<Rightarrow> strides \<Rightarrow> byte list \<Rightarrow> strides \<times> byte list" where
  "swath_loop le crcs p =
     (if length p \<ge> 16 then swath_loop le (STEP16 le crcs p) (drop 16 p) else (crcs, p))"
  by auto
termination
  by (relation "measure (\<lambda>(le, crcs, p). length p)") auto

function word_loop :: "bool \<Rightarrow> strides \<Rightarrow> byte list \<Rightarrow> strides \<times> byte list" where
  "word_loop le crcs p =
     (if length p \<ge> 4 then
        case crcs of (crc0, crc1, crc2, crc3) \<Rightarrow>
          let crc0 = STEP4 le crc0 p in word_loop le (crc1, crc2, crc3, crc0) (drop 4 p)
      else (crcs, p))"
  by auto
termination
  by (relation "measure (\<lambda>(le, crcs, p). length p)") auto

declare swath_loop.simps [simp del] word_loop.simps [simp del]

definition stride_phase :: "bool \<Rightarrow> uint32 \<Rightarrow> byte list \<Rightarrow> uint32 \<times> byte list" where
  "stride_phase le l p =
     (let crc0 = ReadUint32LE le p XOR l;
          crc1 = ReadUint32LE le (drop 4 p);
          crc2 = ReadUint32LE le (drop 8 p);
          crc3 = ReadUint32LE le (drop 12 p);
          (crcs, p) = swath_loop le (crc0, crc1, crc2, crc3) (drop 16 p);
          ((crc0, crc1, crc2, crc3), p) = word_loop le crcs p
      in (STEP4W (STEP4W (STEP4W (STEP4W 0 crc0) crc1) crc2) crc3, p))"

definition Extend :: "bool \<Rightarrow> addr \<Rightarrow> uint32 \<Rightarrow> byte list \<Rightarrow> uint32" where
  "Extend le addr crc data =
     (if CanAccelerateCRC32C then AcceleratedCRC32C crc data
      else
        let l = crc XOR kCRC32Xor;
            x = unat (RoundUp4 addr - addr);
            (l, p) = (if x \<le> length data then (byte_loop l (take x data), drop x data) else (l, data));
            (l, p) = (if length p \<ge> 16 then stride_phase le l p else (l, p));
            l = byte_loop l p
        in l XOR kCRC32Xor)"

definition Value :: "bool \<Rightarrow> addr \<Rightarrow> byte list \<Rightarrow> uint32" where
  "Value le addr data = Extend le addr 0 data"

definition kMaskDelta :: uint32 where
  "kMaskDelta = 0xa282ead8"

definition Mask :: "uint32 \<Rightarrow> uint32" where
  "Mask crc = (drop_bit 15 crc OR push_bit 17 crc) + kMaskDelta"

definition Unmask :: "uint32 \<Rightarrow> uint32" where
  "Unmask masked_crc =
     (let rot = masked_crc - kMaskDelta in drop_bit 17 rot OR push_bit 15 rot)"

section \<open>Single bytes\<close>

text \<open>The reference: one byte of the message enters the low byte of the remainder.\<close>

definition crc_byte :: "uint32 \<Rightarrow> byte \<Rightarrow> uint32" where
  "crc_byte l b = crc_zero (l XOR ucast b)"

definition crc_spec :: "uint32 \<Rightarrow> byte list \<Rightarrow> uint32" where
  "crc_spec crc data = foldl crc_byte (crc XOR 0xffffffff) data XOR 0xffffffff"

text \<open>A remainder whose low bits are clear is only shifted.\<close>

lemma crc_bits_push:
  "(crc_bit ^^ n) (push_bit n (drop_bit m w)) = drop_bit m w" if "n \<le> m" for w :: uint32
  using that
proof (induction n arbitrary: m)
  case (Suc n)
  let ?w = "drop_bit m w"
  have "drop_bit 1 (push_bit (Suc n) ?w) = push_bit n ?w"
    by (rule bit_word_eqI)
      (use Suc.prems in \<open>auto simp: bit_simps simp del: push_bit_Suc drop_bit_Suc dest: bit_imp_le_length\<close>)
  moreover have "\<not> bit (push_bit (Suc n) ?w) 0" by (simp add: bit_simps del: push_bit_Suc)
  ultimately have "crc_bit (push_bit (Suc n) ?w) = push_bit n ?w" by (simp add: crc_bit_odd del: push_bit_Suc)
  with Suc show ?case by (simp add: funpow_Suc_right del: funpow.simps push_bit_Suc)
qed simp

lemma crc_zero_push: "crc_zero (push_bit 8 (drop_bit 8 w)) = drop_bit 8 w"
  unfolding crc_zero_def by (rule crc_bits_push) simp

lemma low_high: "(l :: uint32) = (l AND 0xff) XOR push_bit 8 (drop_bit 8 l)"
  by (rule bit_word_eqI) (auto simp: and_FF bit_simps)

lemma crc_zero_split: "crc_zero l = kByteExtensionTable ! unat (l AND 0xff) XOR drop_bit 8 l"
proof -
  have "unat (l AND 0xff) < 256" by (simp add: and_FF unat_take_bit del: take_bit_eq_mod)
  then have "kByteExtensionTable ! unat (l AND 0xff) = crc_zero (l AND 0xff)"
    by (simp add: table_nth)
  then show ?thesis
    by (metis crc_zero_xor crc_zero_push low_high)
qed

lemma STEP1_spec: "STEP1 l b = crc_byte l b"
proof -
  have "(l AND 0xff) XOR ucast b = (l XOR ucast b) AND 0xff"
    by (rule bit_word_eqI) (auto simp: and_FF bit_simps dest: bit_imp_le_length)
  moreover have "drop_bit 8 (l XOR ucast b) = drop_bit 8 l"
    by (rule bit_word_eqI) (auto simp: bit_simps dest: bit_imp_le_length)
  ultimately show ?thesis by (simp add: STEP1_def crc_byte_def crc_zero_split)
qed

lemma byte_loop_spec: "byte_loop l bs = foldl crc_byte l bs"
  unfolding byte_loop_def STEP1_spec ..

section \<open>Words and strides\<close>

lemma crc_zeros_split: "(crc_zero ^^ Suc n) l = (crc_zero ^^ Suc n) (l AND 0xff) XOR (crc_zero ^^ n) (drop_bit 8 l)"
proof -
  have "(crc_zero ^^ Suc n) (push_bit 8 (drop_bit 8 l)) = (crc_zero ^^ n) (drop_bit 8 l)"
    by (simp only: funpow_Suc_right comp_def crc_zero_push)
  then show ?thesis by (metis crc_zeros_xor low_high)
qed

lemma STEP4_spec:
  assumes "4 \<le> length p"
  shows "STEP4 le crc p = of_bytes (take 4 p) XOR (crc_zero ^^ 16) crc"
proof -
  have lt: "unat (w AND 0xff) < 256" for w :: uint32 by (simp add: and_FF unat_take_bit)
  have lt': "unat (drop_bit 24 crc) < 256"
    using unat_less_pow [of crc] by (simp add: unat_drop_bit)
  have "(crc_zero ^^ 16) crc = (crc_zero ^^ 16) (crc AND 0xff) XOR (crc_zero ^^ 15) (drop_bit 8 crc AND 0xff)
      XOR (crc_zero ^^ 14) (drop_bit 16 crc AND 0xff) XOR (crc_zero ^^ 13) (drop_bit 24 crc)"
    using crc_zeros_split [of 15 crc] crc_zeros_split [of 14 "drop_bit 8 crc"]
      crc_zeros_split [of 13 "drop_bit 16 crc"]
    by (simp add: xor.assoc)
  then show ?thesis
    using assms by (simp add: STEP4_def ReadUint32LE_def DecodeFixed32_bytes table_nth lt lt' xor.assoc)
qed

lemma crc_zero_of_bytes: "length bs \<le> 3 \<Longrightarrow> crc_zero (push_bit 8 (of_bytes bs)) = of_bytes bs"
proof -
  assume "length bs \<le> 3"
  then have "drop_bit 8 (push_bit 8 (of_bytes bs) :: uint32) = of_bytes bs"
    by (intro bit_word_eqI) (auto simp: bit_simps bit_of_bytes)
  then show ?thesis using crc_zero_push [of "push_bit 8 (of_bytes bs)"] by simp
qed

lemma crc_word: "length bs \<le> 4 \<Longrightarrow> foldl crc_byte l bs = (crc_zero ^^ length bs) (l XOR of_bytes bs)"
proof (induction bs arbitrary: l)
  case (Cons b bs)
  have "(ucast b OR push_bit 8 (of_bytes bs) :: uint32) = ucast b XOR push_bit 8 (of_bytes bs)"
    by (rule bit_word_eqI) (auto simp: bit_simps dest: bit_imp_le_length)
  with Cons show ?case
    by (simp add: crc_byte_def funpow_Suc_right crc_zero_xor crc_zero_of_bytes xor.assoc del: funpow.simps)
qed simp

text \<open>The value of the four partial results, and how one more word enters it.\<close>

fun combine :: "strides \<Rightarrow> uint32" where
  "combine (c0, c1, c2, c3) = STEP4W (STEP4W (STEP4W (STEP4W 0 c0) c1) c2) c3"

lemma STEP4W_spec: "STEP4W l w = (crc_zero ^^ 4) l XOR (crc_zero ^^ 4) w"
proof -
  have "STEP4W_body = crc_zero" by (rule ext) (simp add: STEP4W_body_def crc_zero_split xor.commute)
  then show ?thesis by (simp add: STEP4W_def crc_zeros_xor xor.commute)
qed

lemma crc_zeros_0 [simp]: "(crc_zero ^^ n) 0 = 0"
  using crc_zeros_xor [of n 0 0] by simp

lemma combine_spec:
  "combine (c0, c1, c2, c3) =
     (crc_zero ^^ 16) c0 XOR (crc_zero ^^ 12) c1 XOR (crc_zero ^^ 8) c2 XOR (crc_zero ^^ 4) c3"
  by (simp add: STEP4W_spec crc_zeros_xor xor.assoc flip: funpow_add [unfolded comp_def, THEN fun_cong])

lemma combine_word:
  assumes "4 \<le> length p"
  shows "combine (c1, c2, c3, STEP4 le c0 p) = foldl crc_byte (combine (c0, c1, c2, c3)) (take 4 p)"
proof -
  have add: "(crc_zero ^^ 4) ((crc_zero ^^ n) w) = (crc_zero ^^ (n + 4)) w" for n w
    by (simp add: funpow_add add.commute [of n])
  show ?thesis
    using assms
    by (simp add: combine_spec STEP4_spec crc_word crc_zeros_xor add ac_simps del: combine.simps)
qed

lemma combine_swath:
  assumes "16 \<le> length p"
  shows "combine (STEP16 le crcs p) = foldl crc_byte (combine crcs) (take 16 p)"
proof -
  obtain c0 c1 c2 c3 where c: "crcs = (c0, c1, c2, c3)" by (cases crcs)
  have "take 16 p = take 4 p @ take 4 (drop 4 p) @ take 4 (drop 8 p) @ take 4 (drop 12 p)"
    using take_add [of 4 12 p] take_add [of 4 8 "drop 4 p"] take_add [of 4 4 "drop 8 p"] by simp
  then show ?thesis
    using assms unfolding c by (simp add: combine_word del: combine.simps)
qed

lemma swath_loop_spec:
  "swath_loop le crcs p = (crcs', p') \<Longrightarrow> foldl crc_byte (combine crcs') p' = foldl crc_byte (combine crcs) p"
proof (induction le crcs p rule: swath_loop.induct)
  case (1 le crcs p)
  show ?case
  proof (cases "16 \<le> length p")
    case True
    with "1.prems" have "swath_loop le (STEP16 le crcs p) (drop 16 p) = (crcs', p')"
      by (subst (asm) swath_loop.simps) simp
    from "1.IH" [OF True this] combine_swath [OF True] show ?thesis
      by (metis append_take_drop_id foldl_append)
  next
    case False
    with "1.prems" show ?thesis by (subst (asm) swath_loop.simps) simp
  qed
qed

lemma word_loop_spec:
  "word_loop le crcs p = (crcs', p') \<Longrightarrow> foldl crc_byte (combine crcs') p' = foldl crc_byte (combine crcs) p"
proof (induction le crcs p rule: word_loop.induct)
  case (1 le crcs p)
  obtain c0 c1 c2 c3 where c: "crcs = (c0, c1, c2, c3)" by (cases crcs)
  show ?case
  proof (cases "4 \<le> length p")
    case True
    with "1.prems" have "word_loop le (c1, c2, c3, STEP4 le c0 p) (drop 4 p) = (crcs', p')"
      by (subst (asm) word_loop.simps) (simp add: c)
    from "1.IH" [OF True c [symmetric] refl refl refl this] combine_word [OF True] show ?thesis
      unfolding c by (metis append_take_drop_id foldl_append)
  next
    case False
    with "1.prems" show ?thesis by (subst (asm) word_loop.simps) simp
  qed
qed

lemma stride_phase_spec:
  assumes "16 \<le> length p" and "stride_phase le l p = (l', p')"
  shows "foldl crc_byte l' p' = foldl crc_byte l p"
proof -
  let ?w = "\<lambda>n. of_bytes (take 4 (drop n p)) :: uint32"
  have "take 16 p = take 4 p @ take 4 (drop 4 p) @ take 4 (drop 8 p) @ take 4 (drop 12 p)"
    using take_add [of 4 12 p] take_add [of 4 8 "drop 4 p"] take_add [of 4 4 "drop 8 p"] by simp
  then have "foldl crc_byte l (take 16 p) = combine (?w 0 XOR l, ?w 4, ?w 8, ?w 12)"
    using assms(1)
    by (simp add: crc_word STEP4W_spec crc_zeros_xor ac_simps flip: funpow_add [unfolded comp_def, THEN fun_cong])
  moreover obtain crcs p1 where s: "swath_loop le (?w 0 XOR l, ?w 4, ?w 8, ?w 12) (drop 16 p) = (crcs, p1)" by fastforce
  moreover obtain d0 d1 d2 d3 p2 where w: "word_loop le crcs p1 = ((d0, d1, d2, d3), p2)" by (metis surj_pair)
  ultimately show ?thesis
    using assms swath_loop_spec [OF s] word_loop_spec [OF w]
    by (simp add: stride_phase_def Let_def ReadUint32LE_def DecodeFixed32_bytes)
      (metis append_take_drop_id foldl_append)
qed

section \<open>The whole routine\<close>

lemma Extend_spec: "Extend le addr crc data = crc_spec crc data"
proof -
  have acc: "\<not> CanAccelerateCRC32C" by (simp add: CanAccelerateCRC32C_def AcceleratedCRC32C_def)
  define x where "x = unat (RoundUp4 addr - addr)"
  define l where "l = crc XOR kCRC32Xor"
  obtain l1 p1 where 1: "(if x \<le> length data then (byte_loop l (take x data), drop x data) else (l, data)) = (l1, p1)"
    by fastforce
  then have f1: "foldl crc_byte l1 p1 = foldl crc_byte l data"
    by (auto simp: byte_loop_spec split: if_splits simp flip: foldl_append)
  obtain l2 p2 where 2: "(if length p1 \<ge> 16 then stride_phase le l1 p1 else (l1, p1)) = (l2, p2)"
    by fastforce
  then have "foldl crc_byte l2 p2 = foldl crc_byte l1 p1"
    by (auto intro: stride_phase_spec split: if_splits)
  moreover have "crc_spec crc data = foldl crc_byte l data XOR kCRC32Xor"
    by (simp add: crc_spec_def l_def kCRC32Xor_def)
  ultimately show ?thesis
    using acc 1 2 f1 unfolding Extend_def x_def [symmetric] l_def [symmetric] Let_def
    by (simp add: byte_loop_spec)
qed

lemma crc_spec_append: "crc_spec (crc_spec crc xs) ys = crc_spec crc (xs @ ys)"
  by (simp add: crc_spec_def xor.assoc)

lemma Unmask_Mask: "Unmask (Mask crc) = crc"
  by (rule bit_word_eqI) (auto simp: Mask_def Unmask_def Let_def bit_simps, metis add_diff_inverse_nat)

lemma Mask_Unmask: "Mask (Unmask m) = m"
proof -
  have "drop_bit 15 (Unmask m) OR push_bit 17 (Unmask m) = m - kMaskDelta"
    by (rule bit_word_eqI) (auto simp: Unmask_def Let_def bit_simps, metis add_diff_inverse_nat)
  then show ?thesis by (simp add: Mask_def)
qed

section \<open>The checksum interface\<close>

text \<open>What the writers and readers of files rely on: a checksum can be extended piece by piece, and
  the stored form of a checksum is invertible.\<close>

locale checksum =
  fixes extend :: "uint32 \<Rightarrow> byte list \<Rightarrow> uint32" and mask unmask :: "uint32 \<Rightarrow> uint32"
  assumes extend_append: "extend (extend crc xs) ys = extend crc (xs @ ys)"
    and unmask_mask: "unmask (mask crc) = crc"
begin

lemma verify_extended: "unmask (mask (extend (extend crc [t]) data)) = extend crc (t # data)"
  by (simp add: unmask_mask extend_append)

lemma mask_inj: "mask a = mask b \<Longrightarrow> a = b"
  by (metis unmask_mask)

end

text \<open>The checksum as the other components call it. The build is for little-endian machines; by
  \<open>Extend_spec\<close> the result depends neither on that nor on the address of the data.\<close>

definition crc32c_Extend :: "uint32 \<Rightarrow> byte list \<Rightarrow> uint32" where
  "crc32c_Extend = Extend True 0"

definition crc32c_Value :: "byte list \<Rightarrow> uint32" where
  "crc32c_Value = Value True 0"

lemma crc32c_Value_Extend: "crc32c_Value data = crc32c_Extend 0 data"
  by (simp add: crc32c_Value_def crc32c_Extend_def Value_def)

interpretation crc: checksum crc32c_Extend Mask Unmask
  by unfold_locales (simp_all add: crc32c_Extend_def Extend_spec crc_spec_append Unmask_Mask)

text \<open>C14: the checksum routine, with its tables, alignment phase and interleaved strides, computes
  CRC-32C: for every initial value, every data and every address of the data, and on machines of
  either byte order, the result is that of dividing bit by bit. Extending a checksum by two pieces
  of data, wherever they lie, is extending it by their concatenation.\<close>

lemma Extend_correct:
  "Extend le addr crc data = crc_spec crc data \<and>
   Extend le2 addr2 (Extend le1 addr1 crc xs) ys = Extend le addr crc (xs @ ys)"
  by (simp add: Extend_spec crc_spec_append)

text \<open>Masking a checksum and unmasking it are inverse to each other.\<close>

lemma Mask_roundtrip: "Unmask (Mask crc) = crc \<and> Mask (Unmask m) = m"
  by (simp add: Unmask_Mask Mask_Unmask)

section \<open>Detection of errors\<close>

lemma crc_bit_zero: "crc_bit l = 0 \<Longrightarrow> l = 0"
proof -
  assume z: "crc_bit l = 0"
  have "bit (crc_bit l) 31 \<longleftrightarrow> bit l 0"
    by (auto simp: crc_bit_odd bit_simps dest: bit_imp_le_length)
  with z have no: "\<not> bit l 0" by simp
  with z have d: "drop_bit 1 l = 0" by (simp add: crc_bit_odd)
  show ?thesis
  proof (rule bit_word_eqI)
    fix n
    show "bit l n = bit 0 n"
    proof (cases n)
      case 0
      with no show ?thesis by simp
    next
      case (Suc m)
      have "bit (drop_bit 1 l) m = bit l (Suc m)" by (simp add: bit_drop_bit_eq)
      with d Suc show ?thesis by simp
    qed
  qed
qed

lemma crc_zero_inj: "crc_zero a = crc_zero b \<Longrightarrow> a = b"
proof -
  assume "crc_zero a = crc_zero b"
  then have "crc_zero (a XOR b) = 0" by (simp add: crc_zero_xor)
  then have "a XOR b = 0" by (auto simp: crc_zero_eval dest!: crc_bit_zero)
  then show ?thesis by (metis xor.assoc xor.right_neutral xor_self_eq xor.left_neutral)
qed

lemma xor_cancel_right: "(a XOR c = b XOR c) = (a = b)" for a b c :: uint32
  by (metis xor.assoc xor.right_neutral xor_self_eq)

lemma foldl_crc_inj: "foldl crc_byte a xs = foldl crc_byte b xs \<Longrightarrow> a = b"
proof (induction xs arbitrary: a b)
  case (Cons x xs)
  then have "crc_byte a x = crc_byte b x" by simp
  then show ?case by (auto simp: crc_byte_def xor_cancel_right dest!: crc_zero_inj)
qed simp

text \<open>C22: the checksum detects every error that is confined to one byte, and every error in its initial
  value.\<close>

lemma crc_detects_byte:
  assumes "b \<noteq> b'" and "crc \<noteq> crc'"
  shows "Value le addr (xs @ b # ys) \<noteq> Value le addr (xs @ b' # ys) \<and>
    Extend le addr crc xs \<noteq> Extend le addr crc' xs"
proof
  show "Value le addr (xs @ b # ys) \<noteq> Value le addr (xs @ b' # ys)"
  proof
    assume "Value le addr (xs @ b # ys) = Value le addr (xs @ b' # ys)"
    then have "crc_byte l b = crc_byte l b'" if "l = foldl crc_byte (0 XOR 0xffffffff) xs" for l
      using that by (simp add: Value_def Extend_spec crc_spec_def xor_cancel_right foldl_crc_inj)
    then have "(ucast b :: uint32) = ucast b'"
      by (auto simp: crc_byte_def xor.commute xor_cancel_right dest!: crc_zero_inj)
    then have "(ucast (ucast b :: uint32) :: byte) = ucast (ucast b' :: uint32)" by simp
    moreover have "(ucast (ucast c :: uint32) :: byte) = c" for c
      by (rule bit_word_eqI) (simp add: bit_simps)
    ultimately show False using assms(1) by simp
  qed
  show "Extend le addr crc xs \<noteq> Extend le addr crc' xs"
    using assms(2) by (auto simp: Extend_spec crc_spec_def xor_cancel_right dest: foldl_crc_inj)
qed

lemma crc_detects_byte_witness:
  "Value True 0 ([1, 2] @ 3 # [4]) \<noteq> Value True 0 ([1, 2] @ 7 # [4]) \<and> Extend True 0 0 [1, 2] \<noteq> Extend True 0 5 [1, 2]"
  by (rule crc_detects_byte) simp_all

text \<open>The value that the code expects of its test string.\<close>

lemma test_buffer_value:
  "Value True 0 [0x54, 0x65, 0x73, 0x74, 0x43, 0x52, 0x43, 0x42, 0x75, 0x66, 0x66, 0x65, 0x72] = 0xdcbc59fa"
  by (simp add: Value_def Extend_spec crc_spec_def crc_byte_def crc_zero_eval crc_bit_def)

end
