(* ===== verification/Ldb_Log_Writer.thy ===== *)
theory Ldb_Log_Writer
  imports Ldb_File Ldb_Crc32c
begin

text \<open>
  The writer of the log, \<open>db/log_writer.cc\<close> with the constants of \<open>db/log_format.h\<close>. The log is a
  sequence of blocks of 32 KiB; a record is cut into fragments that do not cross blocks, each with
  a header of checksum, length and type. The destination is any class with the operations of a
  written file, given by \<open>wfile_ops\<close>.

  \<open>fragments\<close> and \<open>log_bytes\<close> say what the log of a sequence of records is, as a list of bytes; the
  writer is shown to append exactly these.
\<close>

section \<open>The format\<close>

datatype RecordType = kZeroType | kFullType | kFirstType | kMiddleType | kLastType

fun RecordType_num :: "RecordType \<Rightarrow> nat" where
  "RecordType_num kZeroType = 0"
| "RecordType_num kFullType = 1"
| "RecordType_num kFirstType = 2"
| "RecordType_num kMiddleType = 3"
| "RecordType_num kLastType = 4"

definition kMaxRecordType :: nat where
  "kMaxRecordType = 4"

definition kBlockSize :: nat where
  "kBlockSize = 32768"

definition kHeaderSize :: nat where
  "kHeaderSize = 4 + 2 + 1"

section \<open>The writer\<close>

record 'f wfile_ops =
  wo_Append :: "'f \<Rightarrow> slice \<Rightarrow> status \<times> 'f"
  wo_Flush :: "'f \<Rightarrow> status \<times> 'f"

record 'f Writer =
  lw_dest :: 'f
  lw_block_offset :: nat
  lw_type_crc :: "uint32 list"

definition InitTypeCrc :: "uint32 list" where
  "InitTypeCrc = map (\<lambda>i. crc32c_Value [of_nat i]) [0..<Suc kMaxRecordType]"

definition Writer_new :: "'f \<Rightarrow> 'f Writer" where
  "Writer_new dest = \<lparr>lw_dest = dest, lw_block_offset = 0, lw_type_crc = InitTypeCrc\<rparr>"

definition Writer_reopen :: "'f \<Rightarrow> uint64 \<Rightarrow> 'f Writer" where
  "Writer_reopen dest dest_length =
     \<lparr>lw_dest = dest, lw_block_offset = unat (dest_length mod of_nat kBlockSize), lw_type_crc = InitTypeCrc\<rparr>"

definition record_header :: "uint32 list \<Rightarrow> RecordType \<Rightarrow> byte list \<Rightarrow> byte list" where
  "record_header type_crc t data =
     (let n = of_nat (length data) :: size_t;
          crc = crc32c_Extend (type_crc ! RecordType_num t) data;
          crc = Mask crc
      in EncodeFixed32 True crc @ [ucast (n AND 0xff), ucast (drop_bit 8 n), of_nat (RecordType_num t)])"

definition EmitPhysicalRecord ::
  "'f wfile_ops \<Rightarrow> 'f Writer \<Rightarrow> RecordType \<Rightarrow> byte list \<Rightarrow> status \<times> 'f Writer" where
  "EmitPhysicalRecord ops w t data =
     (let buf = record_header (lw_type_crc w) t data;
          (s, dest) = wo_Append ops (lw_dest w) buf;
          (s, dest) = (if Status_ok s then
                         let (s, dest) = wo_Append ops dest data
                         in if Status_ok s then wo_Flush ops dest else (s, dest)
                       else (s, dest))
      in (s, w\<lparr>lw_dest := dest, lw_block_offset := lw_block_offset w + kHeaderSize + length data\<rparr>))"

text \<open>The part of the loop body before the fragment is emitted: the trailer of a full block.\<close>

definition switch_block :: "'f wfile_ops \<Rightarrow> 'f Writer \<Rightarrow> 'f Writer" where
  "switch_block ops w =
     (let leftover = kBlockSize - lw_block_offset w
      in if leftover < kHeaderSize then
           let w = (if leftover > 0
                    then w\<lparr>lw_dest := snd (wo_Append ops (lw_dest w) (replicate leftover 0))\<rparr> else w)
           in w\<lparr>lw_block_offset := 0\<rparr>
         else w)"

definition fragment_type :: "bool \<Rightarrow> bool \<Rightarrow> RecordType" where
  "fragment_type first last_one =
     (if first \<and> last_one then kFullType
      else if first then kFirstType
      else if last_one then kLastType else kMiddleType)"

text \<open>Room for the payload of a fragment at a block offset, after a switch of blocks if need be.\<close>

definition avail_at :: "nat \<Rightarrow> nat" where
  "avail_at off = (if kBlockSize - off < kHeaderSize then kBlockSize - kHeaderSize
     else kBlockSize - off - kHeaderSize)"

lemma switch_block_offset:
  "lw_block_offset (switch_block ops w) =
     (if kBlockSize - lw_block_offset w < kHeaderSize then 0 else lw_block_offset w)"
  by (simp add: switch_block_def Let_def)

lemma switch_block_room:
  "kBlockSize - lw_block_offset (switch_block ops w) - kHeaderSize = avail_at (lw_block_offset w)"
  "lw_block_offset (switch_block ops w) + kHeaderSize + avail_at (lw_block_offset w) = kBlockSize"
  by (auto simp: switch_block_offset avail_at_def kBlockSize_def kHeaderSize_def)

lemma EmitPhysicalRecord_offset:
  "EmitPhysicalRecord ops w t data = (s, w') \<Longrightarrow>
     lw_block_offset w' = lw_block_offset w + kHeaderSize + length data \<and> lw_type_crc w' = lw_type_crc w"
  by (auto simp: EmitPhysicalRecord_def Let_def split: prod.splits)

function AddRecord_loop ::
  "'f wfile_ops \<Rightarrow> 'f Writer \<Rightarrow> bool \<Rightarrow> byte list \<Rightarrow> status \<times> 'f Writer" where
  "AddRecord_loop ops w first data =
     (let w = switch_block ops w;
          avail = kBlockSize - lw_block_offset w - kHeaderSize;
          fragment_length = (if length data < avail then length data else avail);
          t = fragment_type first (length data = fragment_length);
          (s, w) = EmitPhysicalRecord ops w t (take fragment_length data);
          data = drop fragment_length data
      in if Status_ok s \<and> data \<noteq> [] then AddRecord_loop ops w False data else (s, w))"
  by auto
termination
proof (relation "measure (\<lambda>(ops, w, first, data).
    2 * length data + (if avail_at (lw_block_offset w) = 0 then 1 else 0))", goal_cases)
  case (2 ops w first data w1 avail n t p s w2 rest)
  have full: "avail_at kBlockSize \<noteq> 0" by (simp add: avail_at_def kBlockSize_def kHeaderSize_def)
  have a: "avail = avail_at (lw_block_offset w)" using 2(1,2) switch_block_room(1) [of ops w] by simp
  have n: "n = avail_at (lw_block_offset w)" "n < length data"
    using 2(3) 2(7,8) unfolding a by (auto split: if_splits)
  have "lw_block_offset w2 = kBlockSize"
    using EmitPhysicalRecord_offset [of ops w1 t "take n data" s w2] switch_block_room(2) [of ops w] 2 n
    by simp
  with full n 2 show ?case by auto
qed simp

declare AddRecord_loop.simps [simp del]

definition AddRecord :: "'f wfile_ops \<Rightarrow> 'f Writer \<Rightarrow> slice \<Rightarrow> status \<times> 'f Writer" where
  "AddRecord ops w data = AddRecord_loop ops w True data"

text \<open>A sequence of records, up to the first failure.\<close>

fun AddRecords :: "'f wfile_ops \<Rightarrow> 'f Writer \<Rightarrow> slice list \<Rightarrow> status \<times> 'f Writer" where
  "AddRecords ops w [] = (Status_OK, w)"
| "AddRecords ops w (r # rs) =
     (case AddRecord ops w r of (s, w) \<Rightarrow> if Status_ok s then AddRecords ops w rs else (s, w))"

section \<open>The bytes of a log\<close>

text \<open>A physical record: the header and the payload. The two length bytes hold up to 65535.\<close>

definition physical :: "RecordType \<Rightarrow> byte list \<Rightarrow> byte list" where
  "physical t data =
     EncodeFixed32 True (Mask (crc32c_Value (of_nat (RecordType_num t) # data))) @
     [of_nat (length data mod 256), of_nat (length data div 256), of_nat (RecordType_num t)] @ data"

lemma length_physical [simp]: "length (physical t data) = kHeaderSize + length data"
  by (simp add: physical_def EncodeFixed_bytes kHeaderSize_def)

text \<open>The fragments of a record, each with the length of the trailer that precedes it, from a block
  offset on, and the block offset after them.\<close>

function fragments :: "nat \<Rightarrow> bool \<Rightarrow> byte list \<Rightarrow> (nat \<times> RecordType \<times> byte list) list \<times> nat" where
  "fragments off first data =
     (let pad = (if kBlockSize - off < kHeaderSize then kBlockSize - off else 0);
          off = (if kBlockSize - off < kHeaderSize then 0 else off);
          n = min (length data) (kBlockSize - off - kHeaderSize);
          frag = (pad, fragment_type first (length data = n), take n data);
          off = off + kHeaderSize + n
      in if drop n data = [] then ([frag], off)
         else let (frags, off) = fragments off False (drop n data) in (frag # frags, off))"
  by auto
termination
proof (relation "measure (\<lambda>(off, first, data).
    2 * length data + (if avail_at off = 0 then 1 else 0))", goal_cases)
  case (2 off first data pad off' n frag off2)
  have full: "avail_at kBlockSize \<noteq> 0" by (simp add: avail_at_def kBlockSize_def kHeaderSize_def)
  from 2 have n: "n = avail_at off" "n < length data" and "off2 = kBlockSize"
    by (auto simp: avail_at_def kBlockSize_def kHeaderSize_def split: if_splits)
  with full 2 show ?case by auto
qed simp

declare fragments.simps [simp del]

definition frag_bytes :: "nat \<times> RecordType \<times> byte list \<Rightarrow> byte list" where
  "frag_bytes = (\<lambda>(pad, t, data). replicate pad 0 @ physical t data)"

fun log_bytes :: "nat \<Rightarrow> byte list list \<Rightarrow> byte list" where
  "log_bytes off [] = []"
| "log_bytes off (r # rs) =
     (let (frags, off) = fragments off True r in concat (map frag_bytes frags) @ log_bytes off rs)"

section \<open>The writer appends these bytes\<close>

lemma RecordType_num_le: "RecordType_num t < Suc kMaxRecordType"
  by (cases t) (simp_all add: kMaxRecordType_def)

lemma record_header_physical:
  assumes "length data < 2 ^ 16"
  shows "record_header InitTypeCrc t data @ data = physical t data"
proof -
  have crc: "crc32c_Extend (InitTypeCrc ! RecordType_num t) data = crc32c_Value (of_nat (RecordType_num t) # data)"
    using RecordType_num_le [of t]
    by (simp add: InitTypeCrc_def crc32c_Value_Extend crc.extend_append del: upt_Suc)
  have n: "unat (of_nat (length data) :: size_t) = length data"
    using assms by (simp add: unat_of_nat_size)
  have "(ucast (of_nat (length data) :: size_t) :: byte) = of_nat (length data mod 256)"
    by (rule word_unat_eq_iff [THEN iffD2]) (simp add: unsigned_ucast_eq take_bit_eq_mod unat_of_nat mod_mod_cancel)
  moreover have "(ucast (drop_bit 8 (of_nat (length data) :: size_t)) :: byte) = of_nat (length data div 256)"
    by (rule word_unat_eq_iff [THEN iffD2])
      (use assms in \<open>simp add: unsigned_ucast_eq take_bit_eq_mod unat_drop_bit unat_of_nat\<close>)
  ultimately show ?thesis by (simp add: record_header_def physical_def Let_def crc)
qed

text \<open>What the writer relies on beyond the contract of a written file: after a flush there is room for
  the few bytes of a trailer, since the writer does not look at the status of that call.\<close>

locale log_destination = writable_file +
  assumes small_append: "inv f \<Longrightarrow> disk f = written f \<Longrightarrow> length data < kHeaderSize \<Longrightarrow> Status_ok (fst (append f data))"
begin

definition ops :: "'a wfile_ops" where
  "ops = \<lparr>wo_Append = append, wo_Flush = flush\<rparr>"

definition writer_ok :: "'a Writer \<Rightarrow> bool" where
  "writer_ok w \<longleftrightarrow> inv (lw_dest w) \<and> disk (lw_dest w) = written (lw_dest w) \<and> lw_type_crc w = InitTypeCrc"

lemma emit_effect:
  assumes "inv (lw_dest w)" and "lw_type_crc w = InitTypeCrc" and "length data < 2 ^ 16"
    and "EmitPhysicalRecord ops w t data = (s, w')"
  shows "prefix (disk (lw_dest w')) (written (lw_dest w) @ physical t data) \<and>
    (Status_ok s \<longrightarrow> writer_ok w' \<and> written (lw_dest w') = written (lw_dest w) @ physical t data)"
proof -
  let ?h = "record_header (lw_type_crc w) t data"
  have p: "physical t data = ?h @ data" using record_header_physical [OF assms(3)] assms(2) by simp
  obtain s1 f1 where 1: "append (lw_dest w) ?h = (s1, f1)" by fastforce
  obtain s2 f2 where 2: "append f1 data = (s2, f2)" by fastforce
  obtain s3 f3 where 3: "flush f2 = (s3, f3)" by fastforce
  note e1 = append_effect [OF assms(1) 1]
  then have e2: "inv f2 \<and> (Status_ok s2 \<longrightarrow> written f2 = written f1 @ data) \<and> prefix (disk f2) (written f1 @ data)"
    using append_effect [OF _ 2] by blast
  then have e3: "inv f3 \<and> (Status_ok s3 \<longrightarrow> written f3 = written f2 \<and> disk f3 = written f2) \<and> prefix (disk f3) (written f2)"
    using flush_effect [OF _ 3] by blast
  have pre: "prefix (disk f1) (written (lw_dest w) @ ?h @ data)"
    using e1 prefix_prefix [of "disk f1" "written (lw_dest w) @ ?h" data] by simp
  have w': "(s, lw_dest w') = (if Status_ok s1 then if Status_ok s2 then (s3, f3) else (s2, f2) else (s1, f1))"
      "lw_type_crc w' = InitTypeCrc"
    using assms(2,4) 1 2 3 by (auto simp: EmitPhysicalRecord_def Let_def ops_def split: if_splits)
  show ?thesis
    using w' e1 e2 e3 pre unfolding p by (auto simp: writer_ok_def split: if_splits)
qed

lemma switch_effect:
  assumes "writer_ok w" and "lw_block_offset w \<le> kBlockSize"
  defines "pad \<equiv> if kBlockSize - lw_block_offset w < kHeaderSize then kBlockSize - lw_block_offset w else 0"
  shows "inv (lw_dest (switch_block ops w)) \<and> lw_type_crc (switch_block ops w) = InitTypeCrc \<and>
    written (lw_dest (switch_block ops w)) = written (lw_dest w) @ replicate pad 0"
proof (cases "0 < pad")
  case True
  then have pad: "pad = kBlockSize - lw_block_offset w" "pad < kHeaderSize" by (auto simp: pad_def split: if_splits)
  obtain s f where f: "append (lw_dest w) (replicate pad 0) = (s, f)" by fastforce
  with small_append [of "lw_dest w" "replicate pad 0"] pad(2) assms(1) append_effect [OF _ f] True
  show ?thesis by (simp add: switch_block_def writer_ok_def pad ops_def)
next
  case False
  then show ?thesis using assms(1) by (auto simp: switch_block_def writer_ok_def pad_def Let_def split: if_splits)
qed

lemma AddRecord_loop_effect:
  assumes "writer_ok w" and "lw_block_offset w \<le> kBlockSize" and "AddRecord_loop ops w first data = (s, w')"
  shows "prefix (disk (lw_dest w'))
      (written (lw_dest w) @ concat (map frag_bytes (fst (fragments (lw_block_offset w) first data)))) \<and>
    (Status_ok s \<longrightarrow> writer_ok w' \<and> lw_block_offset w' = snd (fragments (lw_block_offset w) first data) \<and>
      lw_block_offset w' \<le> kBlockSize \<and>
      written (lw_dest w') =
        written (lw_dest w) @ concat (map frag_bytes (fst (fragments (lw_block_offset w) first data))))"
  using assms
proof (induction "lw_block_offset w" first data arbitrary: w rule: fragments.induct)
  case (1 first data)
  define w1 where "w1 = switch_block ops w"
  define pad where "pad = (if kBlockSize - lw_block_offset w < kHeaderSize then kBlockSize - lw_block_offset w else 0)"
  define off where "off = (if kBlockSize - lw_block_offset w < kHeaderSize then 0 else lw_block_offset w)"
  define n where "n = min (length data) (kBlockSize - off - kHeaderSize)"
  define t where "t = fragment_type first (length data = n)"
  have off: "lw_block_offset w1 = off" by (simp add: w1_def off_def switch_block_offset)
  have room: "off + kHeaderSize + n \<le> kBlockSize" "n < 2 ^ 16"
    using "1.prems"(2) by (auto simp: off_def n_def kBlockSize_def kHeaderSize_def)
  have sw: "inv (lw_dest w1)" "lw_type_crc w1 = InitTypeCrc"
      "written (lw_dest w1) = written (lw_dest w) @ replicate pad 0"
    using switch_effect [OF "1.prems"(1,2)] by (simp_all add: w1_def pad_def)
  obtain s2 w2 where w2: "EmitPhysicalRecord ops w1 t (take n data) = (s2, w2)" by fastforce
  from room(2) have "length (take n data) < 2 ^ 16" by simp
  note em = emit_effect [OF sw(1,2) this w2, unfolded sw(3)]
  have off2: "lw_block_offset w2 = off + kHeaderSize + n"
    using EmitPhysicalRecord_offset [OF w2] off by (simp add: n_def)
  have frag: "frag_bytes (pad, t, take n data) = replicate pad 0 @ physical t (take n data)"
    by (simp add: frag_bytes_def)
  have n: "(if length data < kBlockSize - off - kHeaderSize then length data else kBlockSize - off - kHeaderSize) = n"
    by (simp add: n_def min_def)
  have loop: "(s, w') = (if Status_ok s2 \<and> drop n data \<noteq> [] then AddRecord_loop ops w2 False (drop n data) else (s2, w2))"
    using "1.prems"(3) w2
    unfolding AddRecord_loop.simps [of ops w] Let_def w1_def [symmetric] off n t_def [symmetric] by simp
  have frags: "fragments (lw_block_offset w) first data =
      (if drop n data = [] then ([(pad, t, take n data)], off + kHeaderSize + n)
       else ((pad, t, take n data) # fst (fragments (off + kHeaderSize + n) False (drop n data)),
             snd (fragments (off + kHeaderSize + n) False (drop n data))))"
    unfolding fragments.simps [of "lw_block_offset w"] Let_def off_def [symmetric] pad_def [symmetric]
      n_def [symmetric] t_def [symmetric] by (simp add: split_beta)
  show ?case
  proof (cases "Status_ok s2 \<and> drop n data \<noteq> []")
    case True
    with em have w2_ok: "writer_ok w2"
      and wr: "written (lw_dest w2) = (written (lw_dest w) @ replicate pad 0) @ physical t (take n data)" by simp_all
    have "AddRecord_loop ops w2 False (drop n data) = (s, w')" using loop True by simp
    note "1.hyps" [OF pad_def off_def n_def refl off2 _ w2_ok _ this]
    with True room(1) show ?thesis unfolding off2 wr frags by (auto simp: frag)
  next
    case False
    have "(s, w') = (s2, w2)" using loop unfolding if_not_P [OF False] .
    then have "s = s2" "w' = w2" by simp_all
    show ?thesis
    proof (cases "drop n data = []")
      case True
      with em frags frag off2 room \<open>s = s2\<close> \<open>w' = w2\<close> show ?thesis by simp
    next
      case no: False
      with False have "\<not> Status_ok s2" by simp
      with no em frags frag \<open>s = s2\<close> \<open>w' = w2\<close> show ?thesis
        by (auto intro: prefix_prefix simp flip: append_assoc)
    qed
  qed
qed

lemma AddRecords_effect:
  assumes "writer_ok w" and "lw_block_offset w \<le> kBlockSize" and "AddRecords ops w rs = (s, w')"
  shows "prefix (disk (lw_dest w')) (written (lw_dest w) @ log_bytes (lw_block_offset w) rs) \<and>
    (Status_ok s \<longrightarrow> writer_ok w' \<and>
      written (lw_dest w') = written (lw_dest w) @ log_bytes (lw_block_offset w) rs)"
  using assms
proof (induction rs arbitrary: w)
  case Nil
  then show ?case by (auto simp: writer_ok_def)
next
  case (Cons r rs)
  obtain s1 w1 where w1: "AddRecord ops w r = (s1, w1)" by fastforce
  note e = AddRecord_loop_effect [OF Cons.prems(1,2) w1 [unfolded AddRecord_def]]
  show ?case
  proof (cases "Status_ok s1")
    case True
    with Cons.prems(3) w1 have "AddRecords ops w1 rs = (s, w')" by simp
    from Cons.IH [OF _ _ this] e True show ?thesis by (auto simp: split_beta)
  next
    case False
    with Cons.prems(3) w1 have "s = s1" "w' = w1" by simp_all
    with False e prefix_prefix [of "disk (lw_dest w1)" "written (lw_dest w) @
        concat (map frag_bytes (fst (fragments (lw_block_offset w) True r)))"] show ?thesis
      by (simp add: split_beta)
  qed
qed

end

definition posix_ops :: "PosixWritableFile wfile_ops" where
  "posix_ops = \<lparr>wo_Append = Append, wo_Flush = Flush\<rparr>"

interpretation log_dest: log_destination Append Flush wf_written wf_disk wf_inv
proof
  fix f :: PosixWritableFile and data :: "byte list"
  assume "wf_inv f" "wf_disk f = wf_written f" "length data < kHeaderSize"
  then show "Status_ok (fst (Append f data))"
    by (simp add: Append_def Let_def wf_written_def kHeaderSize_def kWritableFileBufferSize_def)
qed

lemma log_dest_ops: "log_dest.ops = posix_ops"
  by (simp add: log_dest.ops_def posix_ops_def)

text \<open>The log writer over a file: whatever the kernel answers, the file holds a prefix of the log of
  the records, and when every call reports success it holds the whole log.\<close>

lemma AddRecords_log:
  assumes "wf_disk f = []" and "wf_buf f = []" and "AddRecords posix_ops (Writer_new f) rs = (s, w')"
  shows "prefix (wf_disk (lw_dest w')) (log_bytes 0 rs) \<and>
    (Status_ok s \<longrightarrow> wf_disk (lw_dest w') = log_bytes 0 rs)"
proof -
  have "log_dest.writer_ok (Writer_new f)"
    using assms(1,2) by (simp add: log_dest.writer_ok_def Writer_new_def wf_inv_def wf_written_def)
  from log_dest.AddRecords_effect [OF this _ assms(3) [folded log_dest_ops]] assms(1,2) show ?thesis
    by (auto simp: Writer_new_def log_dest.writer_ok_def wf_written_def)
qed

end
