(* ===== verification/Ldb_Log_Reader.thy ===== *)
theory Ldb_Log_Reader
  imports Ldb_Log_Writer
begin

text \<open>
  The reader of the log, \<open>db/log_reader.cc\<close>. It reads the file block by block, checks and strips the
  headers, and puts the fragments of a record together again. What it drops it reports, unless it
  is the incomplete end of the log that a crash of the writer leaves behind. Offsets are 64-bit
  integers, record types are \<open>unsigned int\<close> (the byte in the header is a \<open>char\<close>, which is signed on
  the machines of the build).
\<close>

section \<open>The reader\<close>

record 'f rfile_ops =
  ro_Read :: "'f \<Rightarrow> nat \<Rightarrow> (status \<times> slice option) \<times> 'f"
  ro_Skip :: "'f \<Rightarrow> uint64 \<Rightarrow> status \<times> 'f"

text \<open>\<open>lr_reports\<close> lists the calls of \<open>reporter_->Corruption\<close> so far, and \<open>lr_reporter\<close> says whether
  there is a reporter.\<close>

record 'f Reader =
  lr_file :: 'f
  lr_reporter :: bool
  lr_reports :: "(uint64 \<times> status) list"
  lr_checksum :: bool
  lr_buffer :: slice
  lr_eof :: bool
  lr_last_record_offset :: uint64
  lr_end_of_buffer_offset :: uint64
  lr_initial_offset :: uint64
  lr_resyncing :: bool

definition kEof :: uint32 where
  "kEof = of_nat (kMaxRecordType + 1)"

definition kBadRecord :: uint32 where
  "kBadRecord = of_nat (kMaxRecordType + 2)"

definition Reader_new :: "'f \<Rightarrow> bool \<Rightarrow> bool \<Rightarrow> uint64 \<Rightarrow> 'f Reader" where
  "Reader_new file reporter verify initial_offset =
     \<lparr>lr_file = file, lr_reporter = reporter, lr_reports = [], lr_checksum = verify, lr_buffer = [],
      lr_eof = False, lr_last_record_offset = 0, lr_end_of_buffer_offset = 0,
      lr_initial_offset = initial_offset, lr_resyncing = initial_offset > 0\<rparr>"

definition ReportDrop :: "uint64 \<Rightarrow> status \<Rightarrow> 'f Reader \<Rightarrow> 'f Reader" where
  "ReportDrop bytes reason rd =
     (if lr_reporter rd \<and>
         lr_end_of_buffer_offset rd - of_nat (length (lr_buffer rd)) - bytes \<ge> lr_initial_offset rd
      then rd\<lparr>lr_reports := lr_reports rd @ [(bytes, reason)]\<rparr> else rd)"

definition ReportCorruption :: "uint64 \<Rightarrow> byte list \<Rightarrow> 'f Reader \<Rightarrow> 'f Reader" where
  "ReportCorruption bytes reason rd = ReportDrop bytes (Status_Corruption reason []) rd"

definition SkipToInitialBlock :: "'f rfile_ops \<Rightarrow> 'f Reader \<Rightarrow> bool \<times> 'f Reader" where
  "SkipToInitialBlock ops rd =
     (let offset_in_block = lr_initial_offset rd mod of_nat kBlockSize;
          block_start_location = lr_initial_offset rd - offset_in_block;
          block_start_location =
            (if offset_in_block > of_nat (kBlockSize - 6) then block_start_location + of_nat kBlockSize
             else block_start_location);
          rd = rd\<lparr>lr_end_of_buffer_offset := block_start_location\<rparr>
      in if block_start_location > 0 then
           (case ro_Skip ops (lr_file rd) block_start_location of (skip_status, file) \<Rightarrow>
              let rd = rd\<lparr>lr_file := file\<rparr>
              in if \<not> Status_ok skip_status then (False, ReportDrop block_start_location skip_status rd)
                 else (True, rd))
         else (True, rd))"

text \<open>One block is read into the buffer; the boolean says that the read failed.\<close>

definition read_block :: "'f rfile_ops \<Rightarrow> 'f Reader \<Rightarrow> bool \<times> 'f Reader" where
  "read_block ops rd =
     (let rd = rd\<lparr>lr_buffer := []\<rparr>;
          ((status, result), file) = ro_Read ops (lr_file rd) kBlockSize;
          rd = rd\<lparr>lr_file := file, lr_buffer := (case result of None \<Rightarrow> lr_buffer rd | Some b \<Rightarrow> b)\<rparr>;
          rd = rd\<lparr>lr_end_of_buffer_offset := lr_end_of_buffer_offset rd + of_nat (length (lr_buffer rd))\<rparr>
      in if \<not> Status_ok status then
           (False, (ReportDrop (of_nat kBlockSize) status (rd\<lparr>lr_buffer := []\<rparr>))\<lparr>lr_eof := True\<rparr>)
         else (True, if length (lr_buffer rd) < kBlockSize then rd\<lparr>lr_eof := True\<rparr> else rd))"

text \<open>The part of the loop body that parses the header at the start of the buffer.\<close>

definition parse_record :: "'f Reader \<Rightarrow> slice \<Rightarrow> uint32 \<times> slice \<times> 'f Reader" where
  "parse_record rd result =
     (let header = lr_buffer rd;
          a = ucast (header ! 4) AND 0xff :: uint32;
          b = ucast (header ! 5) AND 0xff :: uint32;
          type = scast (header ! 6) :: uint32;
          len = a OR push_bit 8 b
      in if (ucast (of_nat kHeaderSize + len) :: size_t) > of_nat (length (lr_buffer rd)) then
           let drop_size = length (lr_buffer rd);
               rd = rd\<lparr>lr_buffer := []\<rparr>
           in if \<not> lr_eof rd then
                (kBadRecord, result, ReportCorruption (of_nat drop_size) (str ''bad record length'') rd)
              else (kEof, result, rd)
         else if type = 0 \<and> len = 0 then (kBadRecord, result, rd\<lparr>lr_buffer := []\<rparr>)
         else if lr_checksum rd \<and>
                 crc32c_Value (take (1 + unat len) (drop 6 header)) \<noteq> Unmask (DecodeFixed32 True header) then
           let drop_size = length (lr_buffer rd);
               rd = rd\<lparr>lr_buffer := []\<rparr>
           in (kBadRecord, result, ReportCorruption (of_nat drop_size) (str ''checksum mismatch'') rd)
         else
           let rd = rd\<lparr>lr_buffer := remove_prefix (kHeaderSize + unat len) (lr_buffer rd)\<rparr>
           in if lr_end_of_buffer_offset rd - of_nat (length (lr_buffer rd)) - of_nat kHeaderSize - ucast len
                   < lr_initial_offset rd
              then (kBadRecord, [], rd)
              else (type, take (unat len) (drop kHeaderSize header), rd))"

function ReadPhysicalRecord :: "'f rfile_ops \<Rightarrow> 'f Reader \<Rightarrow> slice \<Rightarrow> uint32 \<times> slice \<times> 'f Reader" where
  "ReadPhysicalRecord ops rd result =
     (if length (lr_buffer rd) < kHeaderSize then
        if \<not> lr_eof rd then
          (case read_block ops rd of (ok, rd) \<Rightarrow>
             if \<not> ok then (kEof, result, rd) else ReadPhysicalRecord ops rd result)
        else (kEof, result, rd\<lparr>lr_buffer := []\<rparr>)
      else parse_record rd result)"
  by auto
termination
  by (relation "measure (\<lambda>(ops, rd, result). if length (lr_buffer rd) < kHeaderSize \<and> \<not> lr_eof rd then 1 else 0)")
    (auto simp: read_block_def Let_def kHeaderSize_def kBlockSize_def split: prod.splits if_splits)

declare ReadPhysicalRecord.simps [simp del]

text \<open>The loop of \<open>ReadRecord\<close>, with its local variables; the result is the record, or nothing for the
  return value \<open>false\<close>.\<close>

record read_vars =
  rv_in_fragmented_record :: bool
  rv_scratch :: "byte list"
  rv_prospective :: uint64
  rv_fragment :: slice

datatype 'f read_outcome = Continue read_vars "'f Reader" | Return "slice option" "'f Reader"

definition report_partial :: "read_vars \<Rightarrow> string \<Rightarrow> 'f Reader \<Rightarrow> 'f Reader" where
  "report_partial v msg rd =
     (if rv_in_fragmented_record v \<and> rv_scratch v \<noteq> []
      then ReportCorruption (of_nat (length (rv_scratch v))) (str msg) rd else rd)"

definition switch_record :: "uint32 \<Rightarrow> uint64 \<Rightarrow> read_vars \<Rightarrow> 'f Reader \<Rightarrow> 'f read_outcome" where
  "switch_record record_type physical_record_offset v rd =
     (let fragment = rv_fragment v in
      if record_type = 1 then
        Return (Some fragment)
          ((report_partial v ''partial record without end(1)'' rd)\<lparr>lr_last_record_offset := physical_record_offset\<rparr>)
      else if record_type = 2 then
        Continue (v\<lparr>rv_prospective := physical_record_offset, rv_scratch := fragment, rv_in_fragmented_record := True\<rparr>)
          (report_partial v ''partial record without end(2)'' rd)
      else if record_type = 3 then
        if \<not> rv_in_fragmented_record v then
          Continue v (ReportCorruption (of_nat (length fragment)) (str ''missing start of fragmented record(1)'') rd)
        else Continue (v\<lparr>rv_scratch := rv_scratch v @ fragment\<rparr>) rd
      else if record_type = 4 then
        if \<not> rv_in_fragmented_record v then
          Continue v (ReportCorruption (of_nat (length fragment)) (str ''missing start of fragmented record(2)'') rd)
        else Return (Some (rv_scratch v @ fragment)) (rd\<lparr>lr_last_record_offset := rv_prospective v\<rparr>)
      else if record_type = kEof then Return None rd
      else if record_type = kBadRecord then
        if rv_in_fragmented_record v then
          Continue (v\<lparr>rv_in_fragmented_record := False, rv_scratch := []\<rparr>)
            (ReportCorruption (of_nat (length (rv_scratch v))) (str ''error in middle of record'') rd)
        else Continue v rd
      else
        Continue (v\<lparr>rv_in_fragmented_record := False, rv_scratch := []\<rparr>)
          (ReportCorruption
             (of_nat (length fragment + (if rv_in_fragmented_record v then length (rv_scratch v) else 0)))
             (str ''unknown record type '' @ decimal (unat record_type)) rd))"

definition read_body :: "'f rfile_ops \<Rightarrow> read_vars \<Rightarrow> 'f Reader \<Rightarrow> 'f read_outcome" where
  "read_body ops v rd =
     (let (record_type, fragment, rd) = ReadPhysicalRecord ops rd (rv_fragment v);
          v = v\<lparr>rv_fragment := fragment\<rparr>;
          physical_record_offset =
            lr_end_of_buffer_offset rd - of_nat (length (lr_buffer rd)) - of_nat kHeaderSize - of_nat (length fragment)
      in if lr_resyncing rd \<and> record_type = 3 then Continue v rd
         else if lr_resyncing rd \<and> record_type = 4 then Continue v (rd\<lparr>lr_resyncing := False\<rparr>)
         else switch_record record_type physical_record_offset v (rd\<lparr>lr_resyncing := False\<rparr>))"

partial_function (option) ReadRecord_loop ::
  "'f rfile_ops \<Rightarrow> read_vars \<Rightarrow> 'f Reader \<Rightarrow> (slice option \<times> 'f Reader) option" where
  [code]: "ReadRecord_loop ops v rd =
     (case read_body ops v rd of
        Continue v rd \<Rightarrow> ReadRecord_loop ops v rd
      | Return r rd \<Rightarrow> Some (r, rd))"

definition ReadRecord :: "'f rfile_ops \<Rightarrow> 'f Reader \<Rightarrow> (slice option \<times> 'f Reader) option" where
  "ReadRecord ops rd =
     (let (ok, rd) = (if lr_last_record_offset rd < lr_initial_offset rd then SkipToInitialBlock ops rd
                      else (True, rd))
      in if \<not> ok then Some (None, rd)
         else ReadRecord_loop ops
                \<lparr>rv_in_fragmented_record = False, rv_scratch = [], rv_prospective = 0, rv_fragment = []\<rparr> rd)"

definition LastRecordOffset :: "'f Reader \<Rightarrow> uint64" where
  "LastRecordOffset rd = lr_last_record_offset rd"

end
