(* ===== verification/Ldb_Log.thy ===== *)
theory Ldb_Log
  imports Ldb_Log_Reader
begin

text \<open>
  The log as a whole: what the reader makes of the bytes that the writer appends. The reader gets
  any prefix of the log, as a crash of the writer leaves it, and returns the records that are
  complete, in order, and reports nothing.
\<close>

section \<open>One physical record\<close>

lemma header_length:
  assumes "n < 2 ^ 16"
  shows "unat (((ucast (of_nat (n mod 256) :: byte) AND 0xff) OR push_bit 8 (ucast (of_nat (n div 256) :: byte) AND 0xff)) :: uint32) = n"
proof -
  have b: "unat (ucast (of_nat k :: byte) AND 0xff :: uint32) = k" if "k < 256" for k
    using that by (simp add: and_FF unat_take_bit unat_ucast_byte unat_of_nat)
  have d: "n div 256 < 256" using assms by (simp add: less_mult_imp_div_less)
  have "unat ((ucast (of_nat (n mod 256) :: byte) AND 0xff) OR
      push_bit 8 (ucast (of_nat (n div 256) :: byte) AND 0xff) :: uint32) = n mod 256 + 2 ^ 8 * (n div 256)"
    using assms d by (subst unat_or_push_bit) (simp_all add: b)
  then show ?thesis by simp
qed

lemma RecordType_scast: "scast (of_nat (RecordType_num t) :: byte) = (of_nat (RecordType_num t) :: uint32)"
  by (cases t) simp_all

lemma header_exceeds:
  fixes len :: uint32
  assumes "unat len < 2 ^ 16" and "length buf \<le> kBlockSize"
  shows "(ucast (of_nat kHeaderSize + len) :: size_t) > of_nat (length buf) \<longleftrightarrow> length buf < kHeaderSize + unat len"
proof -
  have l: "unat (of_nat kHeaderSize + len) = kHeaderSize + unat len"
    using assms(1) by (simp add: unat_word_ariths kHeaderSize_def)
  have "unat (ucast (of_nat kHeaderSize + len) :: size_t) = kHeaderSize + unat len"
    using assms(1) unfolding unsigned_ucast_eq l by (simp add: take_bit_eq_mod kHeaderSize_def)
  moreover have "unat (of_nat (length buf) :: size_t) = length buf"
    using assms(2) by (simp add: unat_of_nat_size kBlockSize_def)
  ultimately show ?thesis by (simp add: word_less_nat_alt)
qed

lemma physical_parts:
  obtains c where "physical t data = c @ [of_nat (length data mod 256), of_nat (length data div 256),
      of_nat (RecordType_num t)] @ data"
    and "length c = 4" and "\<And>x. DecodeFixed32 True (c @ x) = Mask (crc32c_Value (of_nat (RecordType_num t) # data))"
proof
  show "physical t data = EncodeFixed32 True (Mask (crc32c_Value (of_nat (RecordType_num t) # data))) @
      [of_nat (length data mod 256), of_nat (length data div 256), of_nat (RecordType_num t)] @ data"
    by (simp add: physical_def)
qed (simp_all add: EncodeFixed_bytes DecodeFixed32_bytes of_bytes_to_bytes)

lemma type_nonzero: "t \<noteq> kZeroType \<Longrightarrow> (of_nat (RecordType_num t) :: uint32) \<noteq> 0"
  by (cases t) simp_all

lemma parse_complete:
  assumes "lr_buffer rd = physical t data @ tail" and "length data < 2 ^ 16" and "t \<noteq> kZeroType"
    and "lr_initial_offset rd = 0" and "length (lr_buffer rd) \<le> kBlockSize"
  shows "parse_record rd result = (of_nat (RecordType_num t), data, rd\<lparr>lr_buffer := tail\<rparr>)"
proof -
  obtain c where c: "physical t data = c @ [of_nat (length data mod 256), of_nat (length data div 256),
      of_nat (RecordType_num t)] @ data" "length c = 4"
    "\<And>x. DecodeFixed32 True (c @ x) = Mask (crc32c_Value (of_nat (RecordType_num t) # data))"
    using physical_parts [of t data] by blast
  let ?len = "((ucast (of_nat (length data mod 256) :: byte) AND 0xff) OR
      push_bit 8 (ucast (of_nat (length data div 256) :: byte) AND 0xff)) :: uint32"
  note len = header_length [OF assms(2)]
  have ex: "\<not> (ucast (of_nat kHeaderSize + ?len) :: size_t) > of_nat (length (lr_buffer rd))"
    using header_exceeds [of ?len "lr_buffer rd"] len assms(1,2,5) by simp
  have h: "lr_buffer rd ! 4 = of_nat (length data mod 256)" "lr_buffer rd ! 5 = of_nat (length data div 256)"
      "lr_buffer rd ! 6 = of_nat (RecordType_num t)"
    using assms(1) c(1,2) by (simp_all add: nth_append)
  have d: "take (1 + length data) (drop 6 (lr_buffer rd)) = of_nat (RecordType_num t) # data"
      "take (length data) (drop kHeaderSize (lr_buffer rd)) = data"
      "remove_prefix (kHeaderSize + length data) (lr_buffer rd) = tail"
    using assms(1) c(1,2) by (simp_all add: kHeaderSize_def remove_prefix_def numeral_3_eq_3)
  have crc: "Unmask (DecodeFixed32 True (lr_buffer rd)) = crc32c_Value (of_nat (RecordType_num t) # data)"
    using assms(1) c(1,3) by (simp add: crc.unmask_mask)
  show ?thesis
    unfolding parse_record_def Let_def h len RecordType_scast d crc
    using ex type_nonzero [OF assms(3)] assms(4) by simp
qed

lemma parse_truncated:
  assumes "lr_buffer rd = take m (physical t data)" and "kHeaderSize \<le> m" and "m < length (physical t data)"
    and "length data < 2 ^ 16" and "lr_eof rd" and "m \<le> kBlockSize"
  shows "parse_record rd result = (kEof, result, rd\<lparr>lr_buffer := []\<rparr>)"
proof -
  obtain c where c: "physical t data = c @ [of_nat (length data mod 256), of_nat (length data div 256),
      of_nat (RecordType_num t)] @ data" "length c = 4"
    using physical_parts [of t data] by blast
  let ?len = "((ucast (of_nat (length data mod 256) :: byte) AND 0xff) OR
      push_bit 8 (ucast (of_nat (length data div 256) :: byte) AND 0xff)) :: uint32"
  note len = header_length [OF assms(4)]
  have ex: "(ucast (of_nat kHeaderSize + ?len) :: size_t) > of_nat (length (lr_buffer rd))"
    using header_exceeds [of ?len "lr_buffer rd"] len assms by simp
  have h: "lr_buffer rd ! 4 = of_nat (length data mod 256)" "lr_buffer rd ! 5 = of_nat (length data div 256)"
    using assms(1,2) c(1,2) by (simp_all add: nth_append kHeaderSize_def)
  show ?thesis
    unfolding parse_record_def Let_def h using ex assms(5) by simp
qed

lemma strict_prefix_drop:
  assumes "strict_prefix D (xs @ ys)" and "length xs \<le> length D"
  shows "strict_prefix (drop (length xs) D) ys"
proof -
  from assms(1) obtain z zs where "xs @ ys = D @ z # zs" by (rule strict_prefixE')
  then have "drop (length xs) (xs @ ys) = drop (length xs) (D @ z # zs)" by simp
  with assms(2) have "ys = drop (length xs) D @ z # zs" by simp
  then show ?thesis by (rule strict_prefixI')
qed

text \<open>Whether a fragment fits at a position, given the trailer before it.\<close>

definition fits :: "nat \<Rightarrow> nat \<Rightarrow> nat \<Rightarrow> bool" where
  "fits r pad n \<longleftrightarrow> (if r < kHeaderSize then pad = r \<and> kHeaderSize + n \<le> kBlockSize else pad = 0 \<and> kHeaderSize + n \<le> r)"

definition room :: "nat \<Rightarrow> nat" where
  "room r = (if r < kHeaderSize then kBlockSize else r)"

lemma fits_small: "fits r pad n \<Longrightarrow> r \<le> kBlockSize \<Longrightarrow> n < 2 ^ 16"
  by (auto simp: fits_def kBlockSize_def split: if_splits)

lemma strict_prefix_append_cases:
  assumes "strict_prefix D (xs @ ys)"
  obtains "strict_prefix D xs" | D' where "D = xs @ D'" and "strict_prefix D' ys"
proof (cases "length D < length xs")
  case True
  from assms obtain zs where "xs @ ys = D @ zs" by (auto simp: strict_prefix_def prefix_def)
  then have "D = take (length D) xs" by (metis True append_eq_conv_conj less_imp_le take_append diff_is_0_eq take_0 append_Nil2)
  with True have "strict_prefix D xs" by (metis nat_less_le order_refl strict_prefix_def take_is_prefix)
  then show ?thesis by (rule that(1))
next
  case False
  then have le: "length xs \<le> length D" by simp
  from assms obtain zs where "xs @ ys = D @ zs" by (auto simp: strict_prefix_def prefix_def)
  then have "D = xs @ drop (length xs) D" using le by (metis append_eq_append_conv_if append_take_drop_id)
  then show ?thesis by (rule that(2) [OF _ strict_prefix_drop [OF assms le]])
qed

section \<open>The reader at a position of the log\<close>

text \<open>\<open>reading reps r D rd\<close>: the reader has reported \<open>reps\<close>, the bytes that it has not consumed yet are
  \<open>D\<close>, and \<open>r\<close> of them, if there are as many, lie before the next block boundary and have been read
  into its buffer.\<close>

context sequential_file
begin

definition reading :: "(uint64 \<times> status) list \<Rightarrow> nat \<Rightarrow> byte list \<Rightarrow> 'f Reader \<Rightarrow> bool" where
  "reading reps r D rd \<longleftrightarrow> r \<le> kBlockSize \<and> lr_buffer rd = take r D \<and> rest (lr_file rd) = drop r D \<and>
     (lr_eof rd \<longleftrightarrow> length D < r) \<and> inv (lr_file rd) \<and> lr_initial_offset rd = 0 \<and> \<not> lr_resyncing rd \<and>
     lr_reports rd = reps"

lemma reading_block:
  assumes "reading reps r D rd" and "ro_Read ops = read" and "r \<le> length D"
  shows "\<exists>rd'. read_block ops rd = (True, rd') \<and> reading reps kBlockSize (drop r D) rd'"
proof -
  from read_effect [of "lr_file rd" kBlockSize] assms(1) obtain f where
    "read (lr_file rd) kBlockSize = ((Status_OK, Some (take kBlockSize (drop r D))), f)"
    "rest f = drop kBlockSize (drop r D)" "inv f" by (auto simp: reading_def)
  with assms show ?thesis
    by (auto simp: read_block_def Let_def reading_def)
qed

lemma reading_physical:
  assumes "reading reps r (physical t data @ D) rd" and "kHeaderSize + length data \<le> r"
    and "length data < 2 ^ 16" and "t \<noteq> kZeroType"
  shows "\<exists>rd'. ReadPhysicalRecord ops rd result = (of_nat (RecordType_num t), data, rd') \<and>
    reading reps (r - kHeaderSize - length data) D rd'"
proof -
  let ?r = "r - kHeaderSize - length data"
  have b: "lr_buffer rd = physical t data @ take ?r D"
    using assms(1,2) by (simp add: reading_def diff_diff_left)
  have "length (lr_buffer rd) \<le> kBlockSize" "lr_initial_offset rd = 0" using assms(1) by (auto simp: reading_def)
  with parse_complete [OF b assms(3,4)] b
  have "ReadPhysicalRecord ops rd result = (of_nat (RecordType_num t), data, rd\<lparr>lr_buffer := take ?r D\<rparr>)"
    by (subst ReadPhysicalRecord.simps) simp
  moreover have "reading reps ?r D (rd\<lparr>lr_buffer := take ?r D\<rparr>)"
    using assms(1,2) by (auto simp: reading_def diff_diff_left)
  ultimately show ?thesis by blast
qed

lemma reading_truncated:
  assumes "reading reps r D rd" and "strict_prefix D (physical t data)" and "kHeaderSize + length data \<le> r"
    and "length data < 2 ^ 16"
  shows "\<exists>rd'. ReadPhysicalRecord ops rd result = (kEof, result, rd') \<and> lr_reports rd' = reps \<and> \<not> lr_resyncing rd'"
proof -
  have l: "length D < length (physical t data)" using assms(2) by (rule prefix_length_less)
  then have b: "lr_buffer rd = D" "lr_eof rd" using assms(1,3) by (auto simp: reading_def)
  have d: "D = take (length D) (physical t data)"
    using assms(2) by (auto simp: strict_prefix_def prefix_def)
  show ?thesis
  proof (cases "length D < kHeaderSize")
    case True
    with b assms(1) show ?thesis
      by (subst ReadPhysicalRecord.simps) (simp add: reading_def)
  next
    case False
    then have m: "kHeaderSize \<le> length D" by simp
    have k: "length D \<le> kBlockSize" using l assms(1,3) by (simp add: reading_def)
    have "parse_record rd result = (kEof, result, rd\<lparr>lr_buffer := []\<rparr>)"
      by (rule parse_truncated [OF _ m l assms(4) b(2) k]) (use b(1) d in simp)
    with False b assms(1) show ?thesis
      by (subst ReadPhysicalRecord.simps) (simp add: reading_def)
  qed
qed

text \<open>The same across a block boundary: what is left of the block is a trailer.\<close>

lemma ReadPhysicalRecord_next_block:
  assumes "reading reps r D rd" and "ro_Read ops = read" and "r < kHeaderSize" and "r \<le> length D"
  shows "\<exists>rd'. ReadPhysicalRecord ops rd result = ReadPhysicalRecord ops rd' result \<and>
    reading reps kBlockSize (drop r D) rd'"
proof -
  from reading_block [OF assms(1,2,4)] obtain rd' where
    rd': "read_block ops rd = (True, rd')" "reading reps kBlockSize (drop r D) rd'" by blast
  have "length (lr_buffer rd) < kHeaderSize" "\<not> lr_eof rd" using assms by (auto simp: reading_def)
  with rd' show ?thesis by (subst ReadPhysicalRecord.simps) auto
qed

lemma reading_fragment:
  assumes "reading reps r (frag_bytes (pad, t, data) @ D) rd" and "ro_Read ops = read"
    and "fits r pad (length data)" and "t \<noteq> kZeroType"
  shows "\<exists>rd'. ReadPhysicalRecord ops rd result = (of_nat (RecordType_num t), data, rd') \<and>
    reading reps (room r - kHeaderSize - length data) D rd'"
proof -
  have n: "length data < 2 ^ 16" using fits_small [OF assms(3)] assms(1) by (simp add: reading_def)
  show ?thesis
  proof (cases "r < kHeaderSize")
    case True
    with assms(3) have pad: "pad = r" "kHeaderSize + length data \<le> kBlockSize" by (simp_all add: fits_def)
    from ReadPhysicalRecord_next_block [OF assms(1,2) True] pad(1) obtain rd' where
      rd': "ReadPhysicalRecord ops rd result = ReadPhysicalRecord ops rd' result"
        "reading reps kBlockSize (physical t data @ D) rd'" by (auto simp: frag_bytes_def)
    from reading_physical [OF rd'(2) pad(2) n assms(4)] rd'(1) True show ?thesis by (simp add: room_def)
  next
    case False
    with assms(1,3) have "reading reps r (physical t data @ D) rd" "kHeaderSize + length data \<le> r"
      by (simp_all add: frag_bytes_def fits_def)
    from reading_physical [OF this n assms(4)] False show ?thesis by (simp add: room_def)
  qed
qed

lemma reading_cut_fragment:
  assumes "reading reps r D rd" and "ro_Read ops = read" and "strict_prefix D (frag_bytes (pad, t, data))"
    and "fits r pad (length data)"
  shows "\<exists>rd'. ReadPhysicalRecord ops rd result = (kEof, result, rd') \<and> lr_reports rd' = reps \<and> \<not> lr_resyncing rd'"
proof -
  have n: "length data < 2 ^ 16" using fits_small [OF assms(4)] assms(1) by (simp add: reading_def)
  show ?thesis
  proof (cases "r < kHeaderSize")
    case True
    with assms(4) have pad: "pad = r" "kHeaderSize + length data \<le> kBlockSize" by (simp_all add: fits_def)
    show ?thesis
    proof (cases "r \<le> length D")
      case le: True
      have "strict_prefix (drop r D) (physical t data)"
        using strict_prefix_drop [of D "replicate r 0"] assms(3) le pad(1) by (simp add: frag_bytes_def)
      moreover from ReadPhysicalRecord_next_block [OF assms(1,2) True le] obtain rd' where
        "ReadPhysicalRecord ops rd result = ReadPhysicalRecord ops rd' result"
        "reading reps kBlockSize (drop r D) rd'" by blast
      ultimately show ?thesis using reading_truncated [of reps kBlockSize "drop r D" rd' t data] pad(2) n by metis
    next
      case False
      with True assms(1) show ?thesis by (subst ReadPhysicalRecord.simps) (auto simp: reading_def)
    qed
  next
    case False
    with assms(3,4) have "strict_prefix D (physical t data)" "kHeaderSize + length data \<le> r"
      by (simp_all add: frag_bytes_def fits_def)
    from reading_truncated [OF assms(1) this n] show ?thesis .
  qed
qed

end

section \<open>Records\<close>

text \<open>All records of a log, up to the first call of \<open>ReadRecord\<close> that returns \<open>false\<close>.\<close>

partial_function (option) ReadRecords :: "'f rfile_ops \<Rightarrow> 'f Reader \<Rightarrow> (slice list \<times> 'f Reader) option" where
  [code]: "ReadRecords ops rd =
     Option.bind (ReadRecord ops rd) (\<lambda>(r, rd).
       case r of None \<Rightarrow> Some ([], rd)
       | Some r \<Rightarrow> Option.bind (ReadRecords ops rd) (\<lambda>(rs, rd). Some (r # rs, rd)))"

text \<open>How much of a block is left for the reader when the writer is at a block offset; at the start
  nothing has been read.\<close>

definition left_at :: "nat \<Rightarrow> nat" where
  "left_at off = (if off = 0 then 0 else kBlockSize - off)"

lemma log_bytes_take: "length (log_bytes off (take j rs)) \<le> length (log_bytes off rs)"
  by (induction rs arbitrary: off j) (simp_all add: take_Cons' split_beta)

lemma fragments_step:
  assumes "off \<le> kBlockSize"
  obtains pad n off' where "n \<le> length data" and "fits (left_at off) pad n"
    and "room (left_at off) - kHeaderSize - n = left_at off'"
    and "off' \<le> kBlockSize" and "0 < off'"
    and "fragments off first data =
      (if n = length data then ([(pad, fragment_type first True, data)], off')
       else ((pad, fragment_type first False, take n data) # fst (fragments off' False (drop n data)),
             snd (fragments off' False (drop n data))))"
proof -
  define pad where "pad = (if kBlockSize - off < kHeaderSize then kBlockSize - off else 0)"
  define o1 where "o1 = (if kBlockSize - off < kHeaderSize then 0 else off)"
  define n where "n = min (length data) (kBlockSize - o1 - kHeaderSize)"
  have len: "n \<le> length data" by (simp add: n_def)
  have frags: "fragments off first data =
      (if n = length data then ([(pad, fragment_type first True, data)], o1 + kHeaderSize + n)
       else ((pad, fragment_type first False, take n data) # fst (fragments (o1 + kHeaderSize + n) False (drop n data)),
             snd (fragments (o1 + kHeaderSize + n) False (drop n data))))"
    unfolding fragments.simps [of off] Let_def pad_def [symmetric] o1_def [symmetric] n_def [symmetric]
    by (cases "n = length data") (use len in \<open>simp_all add: split_beta\<close>)
  have n: "n \<le> length data" "n \<le> kBlockSize - o1 - kHeaderSize" by (simp_all add: n_def)
  have "o1 + kHeaderSize \<le> kBlockSize" by (auto simp: o1_def kBlockSize_def kHeaderSize_def)
  then have off: "o1 + kHeaderSize + n \<le> kBlockSize" "0 < o1 + kHeaderSize + n"
    using n(2) by (simp_all add: kHeaderSize_def)
  have fits: "fits (left_at off) pad n"
    using n(2) assms
    by (cases "off = 0"; cases "kBlockSize - off < kHeaderSize") (simp_all add: fits_def left_at_def pad_def o1_def kBlockSize_def kHeaderSize_def)
  have room: "room (left_at off) - kHeaderSize - n = left_at (o1 + kHeaderSize + n)"
    using n(2) assms
    by (cases "off = 0"; cases "kBlockSize - off < kHeaderSize") (simp_all add: room_def left_at_def o1_def kBlockSize_def kHeaderSize_def)
  show ?thesis by (rule that [OF len fits room off frags])
qed

lemma fragment_type_simps:
  "fragment_type True True = kFullType" "fragment_type True False = kFirstType"
  "fragment_type False True = kLastType" "fragment_type False False = kMiddleType"
  "fragment_type first last_one \<noteq> kZeroType"
  by (auto simp: fragment_type_def)

context sequential_file
begin

text \<open>The loop of \<open>ReadRecord\<close> on one fragment.\<close>

lemma read_body_switch:
  assumes "ReadPhysicalRecord ops rd (rv_fragment v) = (ty, frag, rd1)" and "\<not> lr_resyncing rd1"
  shows "\<exists>off. read_body ops v rd = switch_record ty off (v\<lparr>rv_fragment := frag\<rparr>) rd1"
proof -
  have same: "rd1\<lparr>lr_resyncing := False\<rparr> = rd1" using assms(2) by (cases rd1) simp
  have "\<exists>off. read_body ops v rd = switch_record ty off (v\<lparr>rv_fragment := frag\<rparr>) (rd1\<lparr>lr_resyncing := False\<rparr>)"
    using assms by (auto simp: read_body_def Let_def)
  then show ?thesis unfolding same .
qed

lemma read_body_fragment:
  assumes "reading reps r (frag_bytes (pad, fragment_type first last_one, frag) @ D) rd" and "ro_Read ops = read"
    and "fits r pad (length frag)" and "rv_in_fragmented_record v \<longleftrightarrow> \<not> first"
  shows "\<exists>rd'. reading reps (room r - kHeaderSize - length frag) D rd' \<and>
    (if last_one then read_body ops v rd = Return (Some ((if first then [] else rv_scratch v) @ frag)) rd'
     else \<exists>v'. read_body ops v rd = Continue v' rd' \<and> rv_in_fragmented_record v' \<and>
       rv_scratch v' = (if first then [] else rv_scratch v) @ frag)"
proof -
  let ?t = "fragment_type first last_one"
  from reading_fragment [OF assms(1-3) fragment_type_simps(5), of "rv_fragment v"] obtain rd1 where
    rd1: "ReadPhysicalRecord ops rd (rv_fragment v) = (of_nat (RecordType_num ?t), frag, rd1)"
      "reading reps (room r - kHeaderSize - length frag) D rd1" by blast
  have "\<not> lr_resyncing rd1" using rd1(2) by (simp add: reading_def)
  from read_body_switch [OF rd1(1) this] obtain off where
    b: "read_body ops v rd = switch_record (of_nat (RecordType_num ?t)) off (v\<lparr>rv_fragment := frag\<rparr>) rd1" by blast
  have last: "reading reps (room r - kHeaderSize - length frag) D (rd1\<lparr>lr_last_record_offset := x\<rparr>)" for x
    using rd1(2) by (simp add: reading_def)
  show ?thesis
  proof (cases last_one)
    case True
    then have "\<exists>x. read_body ops v rd =
        Return (Some ((if first then [] else rv_scratch v) @ frag)) (rd1\<lparr>lr_last_record_offset := x\<rparr>)"
      unfolding b using assms(4) by (cases first) (auto simp: switch_record_def report_partial_def fragment_type_simps)
    with last True show ?thesis by auto
  next
    case False
    then have "\<exists>v'. read_body ops v rd = Continue v' rd1 \<and> rv_in_fragmented_record v' \<and>
        rv_scratch v' = (if first then [] else rv_scratch v) @ frag"
      unfolding b using assms(4) by (cases first) (simp_all add: switch_record_def report_partial_def fragment_type_simps)
    with rd1(2) False show ?thesis by auto
  qed
qed

lemma read_body_cut:
  assumes "reading reps r D rd" and "ro_Read ops = read" and "strict_prefix D (frag_bytes (pad, t, frag))"
    and "fits r pad (length frag)"
  shows "\<exists>rd'. read_body ops v rd = Return None rd' \<and> lr_reports rd' = reps"
proof -
  from reading_cut_fragment [OF assms, of "rv_fragment v"] obtain rd1 where
    "ReadPhysicalRecord ops rd (rv_fragment v) = (kEof, rv_fragment v, rd1)" "lr_reports rd1 = reps"
    "\<not> lr_resyncing rd1" by blast
  with read_body_switch [OF this(1,3)] show ?thesis
    by (auto simp: switch_record_def kEof_def kMaxRecordType_def)
qed

lemma ReadRecord_loop_record:
  assumes "reading reps (left_at off) (concat (map frag_bytes (fst (fragments off first data))) @ D) rd"
    and "ro_Read ops = read" and "off \<le> kBlockSize" and "rv_in_fragmented_record v \<longleftrightarrow> \<not> first"
  shows "\<exists>rd'. ReadRecord_loop ops v rd = Some (Some ((if first then [] else rv_scratch v) @ data), rd') \<and>
    reading reps (left_at (snd (fragments off first data))) D rd' \<and> snd (fragments off first data) \<le> kBlockSize"
  using assms
proof (induction "length (fst (fragments off first data))" arbitrary: off first data v rd rule: less_induct)
  case less
  obtain pad n off' where s: "n \<le> length data" "fits (left_at off) pad n"
    "room (left_at off) - kHeaderSize - n = left_at off'" "off' \<le> kBlockSize" "0 < off'"
    "fragments off first data =
      (if n = length data then ([(pad, fragment_type first True, data)], off')
       else ((pad, fragment_type first False, take n data) # fst (fragments off' False (drop n data)),
             snd (fragments off' False (drop n data))))"
    using fragments_step [OF less.prems(3)] by metis
  show ?case
  proof (cases "n = length data")
    case True
    with less.prems(1) s(6) have "reading reps (left_at off) (frag_bytes (pad, fragment_type first True, data) @ D) rd" by simp
    from read_body_fragment [OF this less.prems(2) _ less.prems(4)] s(2,3) True obtain rd' where
      "reading reps (left_at off') D rd'" "read_body ops v rd = Return (Some ((if first then [] else rv_scratch v) @ data)) rd'"
      by auto
    with s(4,6) True show ?thesis by (subst ReadRecord_loop.simps) simp
  next
    case False
    let ?D = "concat (map frag_bytes (fst (fragments off' False (drop n data)))) @ D"
    have f: "fragments off first data = ((pad, fragment_type first False, take n data) #
        fst (fragments off' False (drop n data)), snd (fragments off' False (drop n data)))"
      using s(6) False by simp
    have len: "length (take n data) = n" using s(1) by simp
    from less.prems(1) have "reading reps (left_at off) (frag_bytes (pad, fragment_type first False, take n data) @ ?D) rd"
      by (simp add: f)
    from read_body_fragment [OF this less.prems(2) _ less.prems(4), unfolded len, OF s(2)] s(3) obtain rd1 v1 where
      1: "reading reps (left_at off') ?D rd1" "read_body ops v rd = Continue v1 rd1" "rv_in_fragmented_record v1"
        "rv_scratch v1 = (if first then [] else rv_scratch v) @ take n data" by auto
    have "\<exists>rd'. ReadRecord_loop ops v1 rd1 = Some (Some (rv_scratch v1 @ drop n data), rd') \<and>
        reading reps (left_at (snd (fragments off' False (drop n data)))) D rd' \<and>
        snd (fragments off' False (drop n data)) \<le> kBlockSize"
      using less.hyps [of off' False "drop n data" rd1 v1] 1 less.prems(2) s(4) by (simp add: f)
    with 1(2,4) show ?thesis by (subst ReadRecord_loop.simps) (simp add: f)
  qed
qed

lemma ReadRecord_loop_cut:
  assumes "reading reps (left_at off) D rd" and "strict_prefix D (concat (map frag_bytes (fst (fragments off first data))))"
    and "ro_Read ops = read" and "off \<le> kBlockSize" and "rv_in_fragmented_record v \<longleftrightarrow> \<not> first"
  shows "\<exists>rd'. ReadRecord_loop ops v rd = Some (None, rd') \<and> lr_reports rd' = reps"
  using assms
proof (induction "length (fst (fragments off first data))" arbitrary: off first data v rd D rule: less_induct)
  case less
  obtain pad n off' where s: "n \<le> length data" "fits (left_at off) pad n"
    "room (left_at off) - kHeaderSize - n = left_at off'" "off' \<le> kBlockSize" "0 < off'"
    "fragments off first data =
      (if n = length data then ([(pad, fragment_type first True, data)], off')
       else ((pad, fragment_type first False, take n data) # fst (fragments off' False (drop n data)),
             snd (fragments off' False (drop n data))))"
    using fragments_step [OF less.prems(4)] by metis
  have len: "length (take n data) = n" using s(1) by simp
  define fr where "fr = frag_bytes (pad, fragment_type first (n = length data), take n data)"
  have cut: ?case if "strict_prefix D fr"
    using read_body_cut [OF less.prems(1,3) that [unfolded fr_def], unfolded len, OF s(2), of v]
    by (subst ReadRecord_loop.simps) auto
  show ?case
  proof (cases "n = length data")
    case True
    with less.prems(2) s(6) have "strict_prefix D fr" by (simp add: fr_def)
    then show ?thesis by (rule cut)
  next
    case False
    let ?X = "concat (map frag_bytes (fst (fragments off' False (drop n data))))"
    have f: "fragments off first data = ((pad, fragment_type first False, take n data) #
        fst (fragments off' False (drop n data)), snd (fragments off' False (drop n data)))"
      using s(6) False by simp
    have "strict_prefix D (fr @ ?X)" using less.prems(2) False by (simp add: f fr_def)
    then show ?thesis
    proof (cases rule: strict_prefix_append_cases)
      case 1
      then show ?thesis by (rule cut)
    next
      case (2 D')
      from less.prems(1) have "reading reps (left_at off) (frag_bytes (pad, fragment_type first False, take n data) @ D') rd"
        using False 2(1) by (simp add: fr_def)
      from read_body_fragment [OF this less.prems(3) _ less.prems(5), unfolded len, OF s(2)] s(3) obtain rd1 v1 where
        1: "reading reps (left_at off') D' rd1" "read_body ops v rd = Continue v1 rd1" "rv_in_fragmented_record v1"
        by auto
      have "\<exists>rd'. ReadRecord_loop ops v1 rd1 = Some (None, rd') \<and> lr_reports rd' = reps"
        using less.hyps [of off' False "drop n data" D' rd1 v1] 1 2(2) less.prems(3) s(4) by (simp add: f)
      with 1(2) show ?thesis by (subst ReadRecord_loop.simps) simp
    qed
  qed
qed

lemma ReadRecord_start:
  assumes "reading reps r D rd"
  shows "ReadRecord ops rd = ReadRecord_loop ops
    \<lparr>rv_in_fragmented_record = False, rv_scratch = [], rv_prospective = 0, rv_fragment = []\<rparr> rd"
  using assms by (simp add: ReadRecord_def reading_def)

text \<open>One call of \<open>ReadRecord\<close> on what is there of a log: it returns nothing when the next record is not complete,
  and the record otherwise.\<close>

lemma ReadRecord_log:
  assumes "reading reps (left_at off) D rd" and "prefix D (log_bytes off rs)"
    and "ro_Read ops = read" and "off \<le> kBlockSize"
  obtains (stop) rd' where "ReadRecord ops rd = Some (None, rd')" and "lr_reports rd' = reps"
      and "rs \<noteq> [] \<Longrightarrow> strict_prefix D (log_bytes off (take 1 rs))"
  | (next_record) a rs' D' rd' where "rs = a # rs'"
      and "D = concat (map frag_bytes (fst (fragments off True a))) @ D'"
      and "prefix D' (log_bytes (snd (fragments off True a)) rs')" and "ReadRecord ops rd = Some (Some a, rd')"
      and "reading reps (left_at (snd (fragments off True a))) D' rd'" and "snd (fragments off True a) \<le> kBlockSize"
proof -
  let ?v = "\<lparr>rv_in_fragmented_record = False, rv_scratch = [], rv_prospective = 0, rv_fragment = []\<rparr>"
  note start = ReadRecord_start [OF assms(1), of ops]
  show ?thesis
  proof (cases rs)
    case Nil
    let ?pad = "if left_at off < kHeaderSize then left_at off else 0"
    have "fits (left_at off) ?pad (length ([] :: byte list))" by (simp add: fits_def kHeaderSize_def kBlockSize_def)
    moreover have "strict_prefix D (frag_bytes (?pad, kFullType, []))"
      using assms(2) Nil by (simp add: frag_bytes_def strict_prefix_def physical_def)
    ultimately obtain rd' where "read_body ops ?v rd = Return None rd'" "lr_reports rd' = reps"
      using read_body_cut [OF assms(1,3)] by blast
    with start Nil show ?thesis by (intro stop [of rd']) (simp_all add: ReadRecord_loop.simps)
  next
    case (Cons a rs')
    let ?A = "concat (map frag_bytes (fst (fragments off True a)))" and ?off = "snd (fragments off True a)"
    have log: "log_bytes off (a # xs) = ?A @ log_bytes ?off xs" for xs by (simp add: split_beta)
    show ?thesis
    proof (cases "strict_prefix D ?A")
      case True
      from ReadRecord_loop_cut [OF assms(1) True assms(3,4), of ?v] obtain rd' where
        "ReadRecord_loop ops ?v rd = Some (None, rd')" "lr_reports rd' = reps" by auto
      with start True Cons show ?thesis by (intro stop [of rd']) (simp_all add: split_beta)
    next
      case False
      from assms(2) Cons have "prefix D (?A @ log_bytes ?off rs')" by (simp only: log)
      then obtain D' where D: "D = ?A @ D'" "prefix D' (log_bytes ?off rs')"
        using False by (auto simp: strict_prefix_def prefix_append)
      from ReadRecord_loop_record [of reps off True a D' rd ops ?v] assms D(1) obtain rd' where
        "ReadRecord_loop ops ?v rd = Some (Some a, rd')" "reading reps (left_at ?off) D' rd'" "?off \<le> kBlockSize" by auto
      with start D Cons show ?thesis by (intro next_record) simp_all
    qed
  qed
qed

lemma ReadRecords_log:
  assumes "reading reps (left_at off) D rd" and "prefix D (log_bytes off rs)"
    and "ro_Read ops = read" and "off \<le> kBlockSize"
  shows "\<exists>j rd'. j \<le> length rs \<and> ReadRecords ops rd = Some (take j rs, rd') \<and> lr_reports rd' = reps \<and>
    prefix (log_bytes off (take j rs)) D \<and> (j < length rs \<longrightarrow> strict_prefix D (log_bytes off (take (Suc j) rs)))"
  using assms
proof (induction rs arbitrary: off D rd)
  case Nil
  from Nil.prems show ?case
    by (cases rule: ReadRecord_log) (simp_all add: ReadRecords.simps [of ops rd])
next
  case (Cons a rs)
  let ?off = "snd (fragments off True a)"
  from Cons.prems show ?case
  proof (cases rule: ReadRecord_log)
    case (stop rd')
    then show ?thesis by (subst ReadRecords.simps) (auto intro!: exI [of _ 0])
  next
    case (next_record b rs' D' rd1)
    then have eq: "b = a" "rs' = rs" by simp_all
    note r = next_record [unfolded eq]
    from Cons.IH [OF r(5,3) Cons.prems(3) r(6)] obtain j rd' where
      2: "j \<le> length rs" "ReadRecords ops rd1 = Some (take j rs, rd')" "lr_reports rd' = reps"
        "prefix (log_bytes ?off (take j rs)) D'" "j < length rs \<longrightarrow> strict_prefix D' (log_bytes ?off (take (Suc j) rs))"
      by blast
    have "ReadRecords ops rd = Some (take (Suc j) (a # rs), rd')"
      using r(4) 2(2) by (subst ReadRecords.simps) simp
    moreover have "prefix (log_bytes off (take (Suc j) (a # rs))) D"
      using 2(4) unfolding r(2) by (simp add: split_beta)
    moreover have "j < length rs \<longrightarrow> strict_prefix D (log_bytes off (take (Suc (Suc j)) (a # rs)))"
      using 2(5) unfolding r(2) by (simp add: strict_prefix_def split_beta)
    ultimately show ?thesis using 2(1,3) by (intro exI [of _ "Suc j"] exI [of _ rd']) simp
  qed
qed

end

section \<open>Properties\<close>

definition posix_read_ops :: "PosixSequentialFile rfile_ops" where
  "posix_read_ops = \<lparr>ro_Read = SequentialRead, ro_Skip = SequentialSkip\<rparr>"

lemma reading_new:
  assumes "sf_inv f"
  shows "posix_seq.reading [] (left_at 0) (sf_rest f) (Reader_new f rep verify 0)"
  using assms by (simp add: posix_seq.reading_def left_at_def Reader_new_def)

lemma ReadRecords_new:
  assumes "sf_inv f" and "prefix (sf_rest f) (log_bytes 0 rs)"
  shows "\<exists>j rd'. j \<le> length rs \<and>
    ReadRecords posix_read_ops (Reader_new f rep verify 0) = Some (take j rs, rd') \<and> lr_reports rd' = [] \<and>
    prefix (log_bytes 0 (take j rs)) (sf_rest f) \<and>
    (j < length rs \<longrightarrow> strict_prefix (sf_rest f) (log_bytes 0 (take (Suc j) rs)))"
  using posix_seq.ReadRecords_log [OF reading_new [OF assms(1)] assms(2), of posix_read_ops]
  by (simp add: posix_read_ops_def)

text \<open>C2: reading back a log, also one that is cut off anywhere: the reader returns exactly the records
  whose bytes are all there, in order, reports no corruption and ends, whether it verifies
  checksums or not and however often its reads are interrupted.\<close>

lemma log_cut_anywhere:
  assumes "sf_inv f" and "sf_rest f = take k (log_bytes 0 rs)"
  shows "\<exists>j rd'. j \<le> length rs \<and>
    ReadRecords posix_read_ops (Reader_new f rep verify 0) = Some (take j rs, rd') \<and> lr_reports rd' = [] \<and>
    length (log_bytes 0 (take j rs)) \<le> length (sf_rest f) \<and>
    (j < length rs \<longrightarrow> length (sf_rest f) < length (log_bytes 0 (take (Suc j) rs)))"
proof -
  have "prefix (sf_rest f) (log_bytes 0 rs)" unfolding assms(2) by (rule take_is_prefix)
  from ReadRecords_new [OF assms(1) this, of rep verify] show ?thesis
    using prefix_length_le prefix_length_less by metis
qed

text \<open>A log of two records of which the second is incomplete.\<close>

definition cut_log :: PosixSequentialFile where
  "cut_log = \<lparr>sf_filename = [], sf_rest = take 16 (log_bytes 0 [[1, 2], [3]]),
     sf_os = \<lparr>os_answers = [Fail EINTR], os_strerror = (\<lambda>_. [])\<rparr>\<rparr>"

lemma log_cut_anywhere_witness:
  "\<exists>j rd'. j \<le> length [[1, 2], [3 :: byte]] \<and>
    ReadRecords posix_read_ops (Reader_new cut_log True True 0) = Some (take j [[1, 2], [3]], rd') \<and>
    lr_reports rd' = []"
  using log_cut_anywhere [of cut_log 16 "[[1, 2], [3]]" True True] by (auto simp: cut_log_def sf_inv_def)


text \<open>A kernel that writes byte by byte at first, and a reader that is interrupted.\<close>

definition slow_file :: PosixWritableFile where
  "slow_file = PosixWritableFile_new (str ''1.log'') 3 [] \<lparr>os_answers = [Done 1, Fail EINTR, Done 2], os_strerror = (\<lambda>_. [])\<rparr>"

definition reread :: "PosixWritableFile Writer \<Rightarrow> PosixSequentialFile" where
  "reread w = \<lparr>sf_filename = [], sf_rest = wf_disk (lw_dest w),
     sf_os = \<lparr>os_answers = [Fail EINTR], os_strerror = (\<lambda>_. [])\<rparr>\<rparr>"


end
