(* ===== verification/Ldb_Dbformat.thy ===== *)
theory Ldb_Dbformat
  imports Ldb_Status
begin

text \<open>
  Keys and their order: the bytewise comparator of \<open>util/comparator.cc\<close> and the internal keys of
  \<open>db/dbformat.cc\<close> and \<open>db/dbformat.h\<close>. An internal key is a user key followed by eight bytes with a
  sequence number and a value type; the order is by user key, and among equal user keys the newest
  comes first.

  The interface \<open>comparator\<close> is the documented contract of the class \<open>Comparator\<close>. The comparator of
  internal keys gets the comparator of user keys as an argument, and meets the contract on internal
  keys whenever that one does on user keys.
\<close>

section \<open>The bytewise comparator\<close>

record comparator_ops =
  co_Compare :: "slice \<Rightarrow> slice \<Rightarrow> int"
  co_FindShortestSeparator :: "slice \<Rightarrow> slice \<Rightarrow> slice"
  co_FindShortSuccessor :: "slice \<Rightarrow> slice"

definition Bytewise_Compare :: "slice \<Rightarrow> slice \<Rightarrow> int" where
  "Bytewise_Compare a b = Slice_compare a b"

fun diff_index :: "slice \<Rightarrow> slice \<Rightarrow> nat" where
  "diff_index (x # xs) (y # ys) = (if x = y then Suc (diff_index xs ys) else 0)"
| "diff_index _ _ = 0"

definition Bytewise_FindShortestSeparator :: "slice \<Rightarrow> slice \<Rightarrow> slice" where
  "Bytewise_FindShortestSeparator start limit =
     (let min_length = min (length start) (length limit);
          i = diff_index start limit
      in if i \<ge> min_length then start
         else
           let diff_byte = start ! i
           in if diff_byte < 0xff \<and> unat diff_byte + 1 < unat (limit ! i)
              then take (i + 1) (start[i := start ! i + 1]) else start)"

text \<open>The loop over the key: the first byte that can be incremented.\<close>

fun Bytewise_FindShortSuccessor :: "slice \<Rightarrow> slice" where
  "Bytewise_FindShortSuccessor [] = []"
| "Bytewise_FindShortSuccessor (b # key) =
     (if b \<noteq> 0xff then [b + 1] else b # Bytewise_FindShortSuccessor key)"

definition BytewiseComparator :: comparator_ops where
  "BytewiseComparator = \<lparr>co_Compare = Bytewise_Compare,
     co_FindShortestSeparator = Bytewise_FindShortestSeparator,
     co_FindShortSuccessor = Bytewise_FindShortSuccessor\<rparr>"

section \<open>Internal keys\<close>

datatype ValueType = kTypeDeletion | kTypeValue

fun ValueType_num :: "ValueType \<Rightarrow> byte" where
  "ValueType_num kTypeDeletion = 0"
| "ValueType_num kTypeValue = 1"

definition kValueTypeForSeek :: ValueType where
  "kValueTypeForSeek = kTypeValue"

type_synonym SequenceNumber = uint64

definition kMaxSequenceNumber :: SequenceNumber where
  "kMaxSequenceNumber = push_bit 56 1 - 1"

record ParsedInternalKey =
  pk_user_key :: slice
  pk_sequence :: SequenceNumber
  pk_type :: ValueType

definition PackSequenceAndType :: "uint64 \<Rightarrow> ValueType \<Rightarrow> uint64" where
  "PackSequenceAndType seq t = push_bit 8 seq OR ucast (ValueType_num t)"

definition AppendInternalKey :: "byte list \<Rightarrow> ParsedInternalKey \<Rightarrow> byte list" where
  "AppendInternalKey result key =
     PutFixed64 True (result @ pk_user_key key) (PackSequenceAndType (pk_sequence key) (pk_type key))"

definition InternalKeyEncodingLength :: "ParsedInternalKey \<Rightarrow> nat" where
  "InternalKeyEncodingLength key = length (pk_user_key key) + 8"

definition ExtractUserKey :: "slice \<Rightarrow> slice" where
  "ExtractUserKey internal_key = take (length internal_key - 8) internal_key"

definition key_number :: "slice \<Rightarrow> uint64" where
  "key_number key = DecodeFixed64 True (drop (length key - 8) key)"

definition ParseInternalKey :: "slice \<Rightarrow> ParsedInternalKey option" where
  "ParseInternalKey internal_key =
     (if length internal_key < 8 then None
      else
        let num = key_number internal_key;
            c = ucast (num AND 0xff) :: byte
        in if c \<le> ValueType_num kTypeValue then
             Some \<lparr>pk_user_key = take (length internal_key - 8) internal_key, pk_sequence = drop_bit 8 num,
                   pk_type = (if c = 0 then kTypeDeletion else kTypeValue)\<rparr>
           else None)"

definition InternalKey_Compare :: "comparator_ops \<Rightarrow> slice \<Rightarrow> slice \<Rightarrow> int" where
  "InternalKey_Compare user akey bkey =
     (let r = co_Compare user (ExtractUserKey akey) (ExtractUserKey bkey)
      in if r = 0 then
           let anum = key_number akey; bnum = key_number bkey
           in if anum > bnum then -1 else if anum < bnum then 1 else r
         else r)"

definition InternalKey_FindShortestSeparator :: "comparator_ops \<Rightarrow> slice \<Rightarrow> slice \<Rightarrow> slice" where
  "InternalKey_FindShortestSeparator user start limit =
     (let user_start = ExtractUserKey start;
          user_limit = ExtractUserKey limit;
          tmp = co_FindShortestSeparator user user_start user_limit
      in if length tmp < length user_start \<and> co_Compare user user_start tmp < 0
         then PutFixed64 True tmp (PackSequenceAndType kMaxSequenceNumber kValueTypeForSeek)
         else start)"

definition InternalKey_FindShortSuccessor :: "comparator_ops \<Rightarrow> slice \<Rightarrow> slice" where
  "InternalKey_FindShortSuccessor user key =
     (let user_key = ExtractUserKey key;
          tmp = co_FindShortSuccessor user user_key
      in if length tmp < length user_key \<and> co_Compare user user_key tmp < 0
         then PutFixed64 True tmp (PackSequenceAndType kMaxSequenceNumber kValueTypeForSeek)
         else key)"

definition InternalKeyComparator :: "comparator_ops \<Rightarrow> comparator_ops" where
  "InternalKeyComparator user = \<lparr>co_Compare = InternalKey_Compare user,
     co_FindShortestSeparator = InternalKey_FindShortestSeparator user,
     co_FindShortSuccessor = InternalKey_FindShortSuccessor user\<rparr>"

text \<open>\<open>LookupKey\<close>: one array that serves as key of the memory table and, from \<open>kstart_\<close> on, as internal
  key.\<close>

record LookupKey =
  lk_array :: "byte list"
  lk_kstart :: nat

definition LookupKey_new :: "slice \<Rightarrow> SequenceNumber \<Rightarrow> LookupKey" where
  "LookupKey_new user_key s =
     (let prefix = EncodeVarint32 (of_nat (length user_key + 8))
      in \<lparr>lk_array = prefix @ user_key @ EncodeFixed64 True (PackSequenceAndType s kValueTypeForSeek),
          lk_kstart = length prefix\<rparr>)"

definition memtable_key :: "LookupKey \<Rightarrow> slice" where
  "memtable_key k = lk_array k"

definition internal_key :: "LookupKey \<Rightarrow> slice" where
  "internal_key k = drop (lk_kstart k) (lk_array k)"

definition lookup_user_key :: "LookupKey \<Rightarrow> slice" where
  "lookup_user_key k = take (length (lk_array k) - lk_kstart k - 8) (drop (lk_kstart k) (lk_array k))"

section \<open>The contract of a comparator\<close>

text \<open>A three-way comparison of a linear order, and the two functions that shorten keys: a key that
  separates two keys, and one that is not before a key.\<close>

locale comparator =
  fixes C :: comparator_ops and ok :: "slice \<Rightarrow> bool"
  assumes compare_sym: "ok a \<Longrightarrow> ok b \<Longrightarrow> co_Compare C a b < 0 \<longleftrightarrow> 0 < co_Compare C b a"
    and compare_eq: "ok a \<Longrightarrow> ok b \<Longrightarrow> co_Compare C a b = 0 \<longleftrightarrow> a = b"
    and compare_trans: "ok a \<Longrightarrow> ok b \<Longrightarrow> ok c \<Longrightarrow>
      co_Compare C a b < 0 \<Longrightarrow> co_Compare C b c < 0 \<Longrightarrow> co_Compare C a c < 0"
    and separator: "ok a \<Longrightarrow> ok b \<Longrightarrow> co_Compare C a b < 0 \<Longrightarrow>
      ok (co_FindShortestSeparator C a b) \<and> co_Compare C a (co_FindShortestSeparator C a b) \<le> 0 \<and>
      co_Compare C (co_FindShortestSeparator C a b) b < 0"
    and separator_self: "ok a \<Longrightarrow> co_FindShortestSeparator C a a = a"
    and successor: "ok a \<Longrightarrow> ok (co_FindShortSuccessor C a) \<and> co_Compare C a (co_FindShortSuccessor C a) \<le> 0"
begin

lemma compare_le_less_trans:
  assumes "ok a" and "ok b" and "ok c" and "co_Compare C a b \<le> 0" and "co_Compare C b c < 0"
  shows "co_Compare C a c < 0"
  using assms compare_eq [of a b] compare_trans [of a b c] by (cases "co_Compare C a b = 0") auto

lemma compare_linear:
  assumes "ok a" and "ok b"
  shows "co_Compare C a b < 0 \<or> a = b \<or> co_Compare C b a < 0"
  using assms compare_eq [of a b] compare_sym [of b a] by linarith

end

lemma separator_Cons:
  "Bytewise_FindShortestSeparator (x # xs) (x # ys) = x # Bytewise_FindShortestSeparator xs ys"
  by (simp add: Bytewise_FindShortestSeparator_def Let_def)

lemma separator_diff:
  "x \<noteq> y \<Longrightarrow> Bytewise_FindShortestSeparator (x # xs) (y # ys) =
     (if x < 0xff \<and> unat x + 1 < unat y then [x + 1] else x # xs)"
  by (simp add: Bytewise_FindShortestSeparator_def Let_def)

lemma separator_Nil:
  "Bytewise_FindShortestSeparator [] ys = []" "Bytewise_FindShortestSeparator xs [] = xs"
  by (simp_all add: Bytewise_FindShortestSeparator_def Let_def)

lemma separator_self_bytes: "Bytewise_FindShortestSeparator a a = a"
  by (induction a) (simp_all add: separator_Cons separator_Nil)

lemma byte_succ: "(b :: byte) \<noteq> 0xff \<Longrightarrow> unat (b + 1) = unat b + 1"
proof -
  assume "b \<noteq> 0xff"
  then have "unat b \<noteq> 255" by (metis unat_of_nat_byte of_nat_numeral of_nat_unat ucast_id numeral_less_iff semiring_norm(76))
  with unat_less_pow [of b] show ?thesis by (simp add: unat_word_ariths)
qed

lemma Bytewise_separator:
  "a < b \<Longrightarrow> a \<le> Bytewise_FindShortestSeparator a b \<and> Bytewise_FindShortestSeparator a b < b"
proof (induction a b rule: diff_index.induct)
  case (1 x xs y ys)
  show ?case
  proof (cases "x = y")
    case True
    with 1 show ?thesis by (simp add: separator_Cons)
  next
    case False
    with "1.prems" have "x < y" by auto
    show ?thesis
    proof (cases "x < 0xff \<and> unat x + 1 < unat y")
      case True
      then have "x \<noteq> 0xff" by auto
      from byte_succ [OF this] True False show ?thesis
        by (auto simp: separator_diff word_less_nat_alt)
    next
      case no: False
      have "Bytewise_FindShortestSeparator (x # xs) (y # ys) = x # xs"
        unfolding separator_diff [OF False] by (rule if_not_P [OF no])
      with \<open>x < y\<close> show ?thesis by simp
    qed
  qed
qed (auto simp: separator_Nil)

lemma Bytewise_successor: "a \<le> Bytewise_FindShortSuccessor a"
proof (induction a)
  case (Cons b a)
  then show ?case using byte_succ [of b] by (auto simp: word_less_nat_alt)
qed simp

interpretation bytewise: comparator BytewiseComparator "\<lambda>_. True"
proof
  fix a b :: slice
  assume "co_Compare BytewiseComparator a b < 0"
  then show "True \<and> co_Compare BytewiseComparator a (co_FindShortestSeparator BytewiseComparator a b) \<le> 0 \<and>
      co_Compare BytewiseComparator (co_FindShortestSeparator BytewiseComparator a b) b < 0"
    using Bytewise_separator [of a b] by (simp add: BytewiseComparator_def Bytewise_Compare_def)
qed (auto simp: BytewiseComparator_def Bytewise_Compare_def Bytewise_successor separator_self_bytes)

section \<open>The encoding of internal keys\<close>

definition ikey :: "slice \<Rightarrow> SequenceNumber \<Rightarrow> ValueType \<Rightarrow> slice" where
  "ikey u s t = AppendInternalKey [] \<lparr>pk_user_key = u, pk_sequence = s, pk_type = t\<rparr>"

definition is_ikey :: "slice \<Rightarrow> bool" where
  "is_ikey k \<longleftrightarrow> 8 \<le> length k"

lemma ikey_bytes: "ikey u s t = u @ to_bytes 8 (PackSequenceAndType s t)"
  by (simp add: ikey_def AppendInternalKey_def PutFixed64_def EncodeFixed_bytes)

lemma length_ikey [simp]: "length (ikey u s t) = length u + 8"
  by (simp add: ikey_bytes)

lemma ikey_parts [simp]:
  "ExtractUserKey (u @ to_bytes 8 (w :: uint64)) = u" "key_number (u @ to_bytes 8 w) = w"
  by (simp_all add: ExtractUserKey_def key_number_def DecodeFixed64_bytes of_bytes_to_bytes)

lemma is_ikey_split: "is_ikey k \<Longrightarrow> k = ExtractUserKey k @ to_bytes 8 (key_number k)"
proof -
  assume "is_ikey k"
  then have k: "8 \<le> length k" by (simp add: is_ikey_def)
  let ?t = "drop (length k - 8) k"
  have l: "length ?t = 8" using k by simp
  have "to_bytes 8 (key_number k) = to_bytes (length ?t) (of_bytes ?t :: uint64)"
    using k l by (simp add: key_number_def DecodeFixed64_bytes)
  also have "\<dots> = ?t" by (rule to_bytes_of_bytes) (simp add: l)
  finally show ?thesis by (simp add: ExtractUserKey_def)
qed

lemma is_ikey_append [simp]: "is_ikey (u @ to_bytes 8 (w :: uint64))"
  by (simp add: is_ikey_def)

lemma Pack_parts:
  assumes "s \<le> kMaxSequenceNumber"
  shows "drop_bit 8 (PackSequenceAndType s t) = s" and "ucast (PackSequenceAndType s t) = ValueType_num t"
    and "unat (PackSequenceAndType s t) = 256 * unat s + unat (ValueType_num t)"
proof -
  have "unat s < 2 ^ 56" using assms by (simp add: kMaxSequenceNumber_def word_le_nat_alt)
  have lt: "unat (ucast (ValueType_num t) :: uint64) < 2 ^ 8" by (cases t) simp_all
  have "unat (ucast (ValueType_num t) OR push_bit 8 s :: uint64) = unat (ucast (ValueType_num t) :: uint64) + 2 ^ 8 * unat s"
    by (rule unat_or_push_bit) (use \<open>unat s < 2 ^ 56\<close> lt in simp_all)
  moreover have "unat (ucast (ValueType_num t) :: uint64) = unat (ValueType_num t)" by (cases t) simp_all
  ultimately show u: "unat (PackSequenceAndType s t) = 256 * unat s + unat (ValueType_num t)"
    by (simp add: PackSequenceAndType_def or.commute)
  have n: "unat (ValueType_num t) < 256" by (cases t) simp_all
  show "drop_bit 8 (PackSequenceAndType s t) = s"
    by (rule word_unat_eq_iff [THEN iffD2]) (use n in \<open>simp add: unat_drop_bit u\<close>)
  show "ucast (PackSequenceAndType s t) = ValueType_num t"
    by (rule word_unat_eq_iff [THEN iffD2]) (use n in \<open>simp add: unsigned_ucast_eq take_bit_eq_mod u\<close>)
qed

lemma ValueType_num_inj: "ValueType_num t = ValueType_num t' \<Longrightarrow> t = t'"
  by (cases t; cases t') simp_all

lemma Pack_max: "PackSequenceAndType s t \<le> PackSequenceAndType kMaxSequenceNumber kValueTypeForSeek"
    if "s \<le> kMaxSequenceNumber"
proof -
  have m: "unat (PackSequenceAndType kMaxSequenceNumber kValueTypeForSeek) = 256 * (2 ^ 56 - 1) + 1"
    by (subst Pack_parts(3)) (simp_all add: kMaxSequenceNumber_def kValueTypeForSeek_def)
  have "unat s \<le> 2 ^ 56 - 1" using that by (simp add: kMaxSequenceNumber_def word_le_nat_alt)
  moreover have "unat (ValueType_num t) \<le> 1" by (cases t) simp_all
  ultimately show ?thesis unfolding word_le_nat_alt m Pack_parts(3) [OF that] by linarith
qed

section \<open>The order of internal keys\<close>

lemma ExtractUserKey_number_eq:
  "is_ikey a \<Longrightarrow> is_ikey b \<Longrightarrow> ExtractUserKey a = ExtractUserKey b \<Longrightarrow> key_number a = key_number b \<Longrightarrow> a = b"
  using is_ikey_split [of a] is_ikey_split [of b] by metis

context comparator
begin

definition internal_ok :: "slice \<Rightarrow> bool" where
  "internal_ok k \<longleftrightarrow> is_ikey k \<and> ok (ExtractUserKey k)"

lemma internal_less:
  assumes "internal_ok a" and "internal_ok b"
  shows "InternalKey_Compare C a b < 0 \<longleftrightarrow>
    co_Compare C (ExtractUserKey a) (ExtractUserKey b) < 0 \<or>
    ExtractUserKey a = ExtractUserKey b \<and> key_number b < key_number a"
  using assms compare_eq [of "ExtractUserKey a" "ExtractUserKey b"]
  by (auto simp: InternalKey_Compare_def internal_ok_def Let_def)

lemma internal_eq:
  assumes "internal_ok a" and "internal_ok b"
  shows "InternalKey_Compare C a b = 0 \<longleftrightarrow> a = b"
  using assms compare_eq [of "ExtractUserKey a" "ExtractUserKey b"] compare_eq [of "ExtractUserKey a" "ExtractUserKey a"]
  by (auto simp: InternalKey_Compare_def internal_ok_def Let_def intro: ExtractUserKey_number_eq split: if_splits)

lemma internal_greater:
  assumes "internal_ok a" and "internal_ok b"
  shows "0 < InternalKey_Compare C b a \<longleftrightarrow> InternalKey_Compare C a b < 0"
proof (cases "ExtractUserKey a = ExtractUserKey b")
  case True
  have "co_Compare C (ExtractUserKey b) (ExtractUserKey b) = 0"
    using compare_eq [of "ExtractUserKey b" "ExtractUserKey b"] assms(2) by (simp add: internal_ok_def)
  with True show ?thesis by (auto simp: InternalKey_Compare_def Let_def)
next
  case False
  then have "co_Compare C (ExtractUserKey a) (ExtractUserKey b) \<noteq> 0" "co_Compare C (ExtractUserKey b) (ExtractUserKey a) \<noteq> 0"
    using compare_eq [of "ExtractUserKey a" "ExtractUserKey b"] compare_eq [of "ExtractUserKey b" "ExtractUserKey a"] assms
    by (auto simp: internal_ok_def)
  moreover have "co_Compare C (ExtractUserKey a) (ExtractUserKey b) < 0 \<longleftrightarrow> 0 < co_Compare C (ExtractUserKey b) (ExtractUserKey a)"
    using assms by (intro compare_sym) (simp_all add: internal_ok_def)
  ultimately show ?thesis by (simp add: InternalKey_Compare_def)
qed

lemma internal_separator:
  assumes "internal_ok a" and "internal_ok b" and "InternalKey_Compare C a b < 0"
  shows "internal_ok (InternalKey_FindShortestSeparator C a b) \<and>
    InternalKey_Compare C a (InternalKey_FindShortestSeparator C a b) \<le> 0 \<and>
    InternalKey_Compare C (InternalKey_FindShortestSeparator C a b) b < 0"
proof -
  let ?ua = "ExtractUserKey a" and ?ub = "ExtractUserKey b"
  let ?tmp = "co_FindShortestSeparator C ?ua ?ub"
  have okab: "ok ?ua" "ok ?ub" using assms(1,2) by (simp_all add: internal_ok_def)
  show ?thesis
  proof (cases "length ?tmp < length ?ua \<and> co_Compare C ?ua ?tmp < 0")
    case True
    then have "?ua \<noteq> ?ub" using separator_self [OF okab(1)] by auto
    then have lt: "co_Compare C ?ua ?ub < 0" using internal_less [OF assms(1,2)] assms(3) by simp
    note s = separator [OF okab lt]
    let ?k = "?tmp @ to_bytes 8 (PackSequenceAndType kMaxSequenceNumber kValueTypeForSeek)"
    have k: "InternalKey_FindShortestSeparator C a b = ?k"
      using True by (simp add: InternalKey_FindShortestSeparator_def Let_def PutFixed64_def EncodeFixed_bytes)
    have ok_k: "internal_ok ?k" using s by (simp add: internal_ok_def)
    show ?thesis
      unfolding k using ok_k s True internal_less [OF assms(1) ok_k] internal_less [OF ok_k assms(2)] by simp
  next
    case False
    then have "InternalKey_FindShortestSeparator C a b = a"
      unfolding InternalKey_FindShortestSeparator_def Let_def by (rule if_not_P)
    with assms internal_eq [OF assms(1,1)] show ?thesis by simp
  qed
qed

lemma internal_successor:
  assumes "internal_ok a"
  shows "internal_ok (InternalKey_FindShortSuccessor C a) \<and>
    InternalKey_Compare C a (InternalKey_FindShortSuccessor C a) \<le> 0"
proof -
  let ?ua = "ExtractUserKey a"
  let ?tmp = "co_FindShortSuccessor C ?ua"
  have oka: "ok ?ua" using assms by (simp add: internal_ok_def)
  show ?thesis
  proof (cases "length ?tmp < length ?ua \<and> co_Compare C ?ua ?tmp < 0")
    case True
    let ?k = "?tmp @ to_bytes 8 (PackSequenceAndType kMaxSequenceNumber kValueTypeForSeek)"
    have k: "InternalKey_FindShortSuccessor C a = ?k"
      using True by (simp add: InternalKey_FindShortSuccessor_def Let_def PutFixed64_def EncodeFixed_bytes)
    have ok_k: "internal_ok ?k" using successor [OF oka] by (simp add: internal_ok_def)
    show ?thesis unfolding k using ok_k True internal_less [OF assms ok_k] by simp
  next
    case False
    then have "InternalKey_FindShortSuccessor C a = a"
      unfolding InternalKey_FindShortSuccessor_def Let_def by (rule if_not_P)
    with assms internal_eq [OF assms assms] show ?thesis by simp
  qed
qed

lemma internal_comparator: "comparator (InternalKeyComparator C) internal_ok"
proof
  fix a b c
  assume "internal_ok a" "internal_ok b" "internal_ok c"
    "co_Compare (InternalKeyComparator C) a b < 0" "co_Compare (InternalKeyComparator C) b c < 0"
  then show "co_Compare (InternalKeyComparator C) a c < 0"
    using compare_trans [of "ExtractUserKey a" "ExtractUserKey b" "ExtractUserKey c"]
    by (auto simp: InternalKeyComparator_def internal_less) (auto simp: internal_ok_def)
next
  fix a assume "internal_ok a"
  then show "co_FindShortestSeparator (InternalKeyComparator C) a a = a"
    using separator_self [of "ExtractUserKey a"]
    by (simp add: InternalKeyComparator_def InternalKey_FindShortestSeparator_def internal_ok_def Let_def)
qed (simp_all add: InternalKeyComparator_def internal_eq internal_greater internal_separator internal_successor)

end

interpretation internal: comparator "InternalKeyComparator BytewiseComparator" bytewise.internal_ok
  by (rule bytewise.internal_comparator)

lemma bytewise_internal_ok [simp]: "bytewise.internal_ok k \<longleftrightarrow> is_ikey k"
  by (simp add: bytewise.internal_ok_def)

section \<open>Properties\<close>



text \<open>C16: an internal key is parsed back to what it was made of, its length is as announced, and the
  order of internal keys is the order of the user keys, and for the same user key the higher
  sequence number first, and for the same sequence number values before deletions.\<close>

lemma internal_key_format:
  assumes "s \<le> kMaxSequenceNumber" and "s' \<le> kMaxSequenceNumber"
  shows "ParseInternalKey (ikey u s t) = Some \<lparr>pk_user_key = u, pk_sequence = s, pk_type = t\<rparr> \<and>
    length (ikey u s t) = InternalKeyEncodingLength \<lparr>pk_user_key = u, pk_sequence = s, pk_type = t\<rparr> \<and>
    (InternalKey_Compare BytewiseComparator (ikey u s t) (ikey u' s' t') < 0 \<longleftrightarrow>
       u < u' \<or> u = u' \<and> (s > s' \<or> s = s' \<and> t = kTypeValue \<and> t' = kTypeDeletion))"
proof -
  have "(ucast (PackSequenceAndType s t AND 0xff) :: byte) = ValueType_num t"
    using Pack_parts(2) [OF assms(1), of t] by simp
  then have "ParseInternalKey (ikey u s t) = Some \<lparr>pk_user_key = u, pk_sequence = s, pk_type = t\<rparr>"
    by (cases t) (simp_all add: ParseInternalKey_def ikey_bytes Pack_parts(1) [OF assms(1)] Let_def)
  moreover have "PackSequenceAndType s' t' < PackSequenceAndType s t \<longleftrightarrow>
      s > s' \<or> s = s' \<and> t = kTypeValue \<and> t' = kTypeDeletion"
    unfolding word_less_nat_alt Pack_parts(3) [OF assms(1)] Pack_parts(3) [OF assms(2)] word_unat_eq_iff [of s]
    by (cases t; cases t') auto
  ultimately show ?thesis
    using bytewise.internal_less [of "ikey u s t" "ikey u' s' t'"]
    by (simp add: ikey_bytes InternalKeyEncodingLength_def BytewiseComparator_def Bytewise_Compare_def)
qed

lemma internal_key_format_witness:
  "ParseInternalKey (ikey [1, 2] 7 kTypeValue) = Some \<lparr>pk_user_key = [1, 2], pk_sequence = 7, pk_type = kTypeValue\<rparr> \<and>
    InternalKey_Compare BytewiseComparator (ikey [1, 2] 7 kTypeValue) (ikey [1, 2] 6 kTypeDeletion) < 0"
  using internal_key_format [of 7 6 "[1, 2]" kTypeValue "[1, 2]" kTypeDeletion]
  by (simp add: kMaxSequenceNumber_def)

text \<open>A lookup key holds the internal key of its user key and snapshot, and that user key.\<close>

lemma LookupKey_parts:
  "internal_key (LookupKey_new u s) = ikey u s kValueTypeForSeek" "lookup_user_key (LookupKey_new u s) = u"
  "memtable_key (LookupKey_new u s) = EncodeVarint32 (of_nat (length u + 8)) @ ikey u s kValueTypeForSeek"
  by (simp_all add: internal_key_def lookup_user_key_def memtable_key_def LookupKey_new_def Let_def ikey_bytes EncodeFixed_bytes)

end
