(* ===== verification/Ldb_Random.thy ===== *)
theory Ldb_Random
  imports Ldb_Slice
begin

text \<open>
  The generator of \<open>util/random.h\<close>, a linear congruence modulo the Mersenne prime \<open>2^31 - 1\<close>, which the
  code reduces with shifts instead of a division. The seed is a 32-bit integer, the product a 64-bit
  integer.
\<close>

definition Random_new :: "uint32 \<Rightarrow> uint32" where
  "Random_new s =
     (let seed = s AND 0x7fffffff in if seed = 0 \<or> seed = 2147483647 then 1 else seed)"

definition Random_Next :: "uint32 \<Rightarrow> uint32" where
  "Random_Next seed =
     (let M = 2147483647 :: uint32;
          product = (ucast seed :: uint64) * 16807;
          seed = ucast (drop_bit 31 product + (product AND ucast M)) :: uint32
      in if seed > M then seed - M else seed)"

definition Random_Uniform :: "uint32 \<Rightarrow> uint32 \<Rightarrow> uint32 \<times> uint32" where
  "Random_Uniform seed n = (let seed = Random_Next seed in (seed mod n, seed))"

definition Random_OneIn :: "uint32 \<Rightarrow> uint32 \<Rightarrow> bool \<times> uint32" where
  "Random_OneIn seed n = (let seed = Random_Next seed in (seed mod n = 0, seed))"

definition Random_Skewed :: "uint32 \<Rightarrow> nat \<Rightarrow> uint32 \<times> uint32" where
  "Random_Skewed seed max_log =
     (let (base, seed) = Random_Uniform seed (of_nat (max_log + 1))
      in Random_Uniform seed (push_bit (unat base) 1))"

lemma mersenne_reduce:
  fixes p :: nat
  defines "M \<equiv> 2 ^ 31 - 1 :: nat"
  assumes "p < 2 ^ 31 * M" and "p mod M \<noteq> 0"
  shows "(let r = p div 2 ^ 31 + p mod 2 ^ 31 in if r > M then r - M else r) = p mod M"
proof -
  define q r where "q = p div 2 ^ 31" and "r = p mod 2 ^ 31"
  have p: "p = q * 2 ^ 31 + r" by (simp add: q_def r_def)
  have r: "r < 2 ^ 31" by (simp add: r_def)
  have q: "q < M" using assms(2) unfolding q_def by (simp add: less_mult_imp_div_less mult.commute)
  have M: "(2 :: nat) ^ 31 = M + 1" "0 < M" by (simp_all add: M_def)
  have "p = q * M + (q + r)" unfolding p M(1) by (simp add: algebra_simps)
  then have m: "p mod M = (q + r) mod M" by simp
  show ?thesis
  proof (cases "q + r > M")
    case True
    have "(q + r) mod M = (q + r - M) mod M" using True by (simp add: le_mod_geq)
    also have "\<dots> = q + r - M" using q r M by simp
    finally show ?thesis using True m by (simp add: q_def r_def Let_def)
  next
    case False
    then have "q + r < M" using assms(3) m by (cases "q + r = M") auto
    then show ?thesis using m by (simp add: q_def r_def Let_def)
  qed
qed

lemma Random_new_range: "0 < unat (Random_new s) \<and> unat (Random_new s) < 2 ^ 31 - 1"
proof -
  define seed where "seed = s AND 0x7fffffff"
  have "seed = take_bit 31 s" by (simp add: seed_def take_bit_eq_mask mask_eq_exp_minus_1)
  then have lt: "unat seed < 2147483648" by (simp add: unat_take_bit)
  show ?thesis
  proof (cases "seed = 0 \<or> seed = 2147483647")
    case False
    then have "unat seed \<noteq> unat (0 :: uint32)" "unat seed \<noteq> unat (2147483647 :: uint32)"
      by (metis unsigned_word_eqI)+
    then show ?thesis using lt False by (simp add: Random_new_def seed_def [symmetric])
  qed (simp add: Random_new_def seed_def [symmetric])
qed

text \<open>The generator computes its linear congruence exactly, from every seed it can have, and
  never reaches the two seeds it has to avoid; the constructor does not start with one of them.\<close>

lemma Random_Next_congruence:
  assumes "0 < unat seed" and "unat seed < 2 ^ 31 - 1"
  shows "unat (Random_Next seed) = unat seed * 16807 mod (2 ^ 31 - 1) \<and>
    0 < unat (Random_Next seed) \<and> unat (Random_Next seed) < 2 ^ 31 - 1 \<and>
    0 < unat (Random_new s) \<and> unat (Random_new s) < 2 ^ 31 - 1"
proof -
  let ?M = "2 ^ 31 - 1 :: nat" and ?p = "unat seed * 16807"
  have "unat seed < 2 ^ 31" using assms(2) by simp
  then have prod: "unat ((ucast seed :: uint64) * 16807) = ?p"
    by (simp add: unat_word_ariths unsigned_ucast_eq take_bit_eq_mod)
  have "coprime (16807 :: nat) ?M" by (simp add: coprime_iff_gcd_eq_1 gcd_nat.simps)
  moreover have "\<not> ?M dvd unat seed" using assms by (meson dvd_imp_le linorder_not_less)
  ultimately have nz: "?p mod ?M \<noteq> 0"
    by (metis coprime_commute coprime_dvd_mult_left_iff mod_eq_0_iff_dvd)
  have lt: "?p < 2 ^ 31 * ?M" using assms(2) by simp
  note red = mersenne_reduce [OF lt nz]
  define w where "w = (ucast seed :: uint64) * 16807"
  have "w AND ucast (2147483647 :: uint32) = take_bit 31 w"
    by (simp add: take_bit_eq_mask mask_eq_exp_minus_1)
  moreover have "unat (drop_bit 31 w) = ?p div 2 ^ 31" "unat (take_bit 31 w) = ?p mod 2 ^ 31"
    using prod by (simp_all add: w_def unat_drop_bit unat_take_bit)
  moreover have small: "?p div 2 ^ 31 < 2 ^ 31" "?p mod 2 ^ 31 < 2 ^ 31" using lt by simp_all
  ultimately have "unat (drop_bit 31 w + (w AND ucast (2147483647 :: uint32))) = ?p div 2 ^ 31 + ?p mod 2 ^ 31"
    by (subst unat_add_no_wrap) auto
  then have sum: "unat (ucast (drop_bit 31 w + (w AND ucast (2147483647 :: uint32))) :: uint32)
      = ?p div 2 ^ 31 + ?p mod 2 ^ 31"
    using small by (simp add: unsigned_ucast_eq take_bit_eq_mod)
  define r :: uint32 where "r = ucast (drop_bit 31 w + (w AND ucast (2147483647 :: uint32)))"
  have "unat (Random_Next seed) = (if unat r > ?M then unat r - ?M else unat r)"
    by (auto simp: Random_Next_def Let_def r_def w_def [symmetric] word_less_nat_alt unat_sub_le word_le_nat_alt)
  then have eq: "unat (Random_Next seed) = ?p mod ?M" using red sum unfolding r_def Let_def by (simp only:)
  have "?p mod ?M < ?M" by simp
  then show ?thesis unfolding eq using nz Random_new_range [of s] by (simp only: simp_thms not_gr_zero [symmetric])
qed

theorem Random_Next_congruence_witness:
  "unat (Random_Next 1) = 16807 \<and> 0 < unat (Random_new 0) \<and> Random_new 0xdeadbeef = 0x5eadbeef"
  using Random_Next_congruence [of 1 0] by (simp add: Random_new_def)

end
