(* ===== verification/Ldb_Skiplist.thy ===== *)
theory Ldb_Skiplist
  imports Ldb_Random Ldb_Dbformat
begin

text \<open>
  The skip list of \<open>db/skiplist.h\<close>, the table behind a memtable. The nodes lie in a list that stands for
  the arena; a node is named by its place in it, the head is the node 0, and \<open>None\<close> is the null pointer. A
  node has as many links as its height. The comparison is an argument of the operations, as the
  comparator is a parameter of the class.

  Every level is a sorted chain from the head, and the nodes of a level are also on the level below. That
  is what the searches rely on, and it holds as well while an insertion is under way, after each of its
  stores.
\<close>

section \<open>The code\<close>

definition kMaxHeight :: nat where
  "kMaxHeight = 12"

record 'k Node =
  n_key :: 'k
  n_next :: "nat option list"

record 'k SkipList =
  sl_nodes :: "'k Node list"
  sl_max_height :: nat
  sl_rnd :: uint32

definition node_key :: "'k SkipList \<Rightarrow> nat \<Rightarrow> 'k" where
  "node_key sl x = n_key (sl_nodes sl ! x)"

definition Next :: "'k SkipList \<Rightarrow> nat \<Rightarrow> nat \<Rightarrow> nat option" where
  "Next sl x n = n_next (sl_nodes sl ! x) ! n"

definition SetNext :: "'k SkipList \<Rightarrow> nat \<Rightarrow> nat \<Rightarrow> nat option \<Rightarrow> 'k SkipList" where
  "SetNext sl x n v =
     (let node = sl_nodes sl ! x
      in sl\<lparr>sl_nodes := (sl_nodes sl)[x := node\<lparr>n_next := (n_next node)[n := v]\<rparr>]\<rparr>)"

text \<open>The links of a new node are not initialised by the code; every one of them is stored before the node
  can be reached.\<close>

definition NewNode :: "'k SkipList \<Rightarrow> 'k \<Rightarrow> nat \<Rightarrow> nat \<times> 'k SkipList" where
  "NewNode sl key height =
     (length (sl_nodes sl),
      sl\<lparr>sl_nodes := sl_nodes sl @ [\<lparr>n_key = key, n_next = replicate height None\<rparr>]\<rparr>)"

definition SkipList_new :: "'k \<Rightarrow> 'k SkipList" where
  "SkipList_new any_key =
     (let (head, sl) = NewNode \<lparr>sl_nodes = [], sl_max_height = 1, sl_rnd = Random_new 0xdeadbeef\<rparr> any_key kMaxHeight
      in foldl (\<lambda>sl i. SetNext sl head i None) sl [0..<kMaxHeight])"

function RandomHeight_loop :: "nat \<Rightarrow> uint32 \<Rightarrow> nat \<times> uint32" where
  "RandomHeight_loop height seed =
     (if height < kMaxHeight
      then let seed = Random_Next seed
           in if seed mod 4 = 0 then RandomHeight_loop (height + 1) seed else (height, seed)
      else (height, seed))"
  by pat_completeness auto
termination by (relation "measure (\<lambda>(height, seed). kMaxHeight - height)") auto

declare RandomHeight_loop.simps [simp del]

definition RandomHeight :: "'k SkipList \<Rightarrow> nat \<times> 'k SkipList" where
  "RandomHeight sl =
     (let (height, seed) = RandomHeight_loop 1 (sl_rnd sl) in (height, sl\<lparr>sl_rnd := seed\<rparr>))"

definition Equal :: "('k \<Rightarrow> 'k \<Rightarrow> int) \<Rightarrow> 'k \<Rightarrow> 'k \<Rightarrow> bool" where
  "Equal compare a b \<longleftrightarrow> compare a b = 0"

definition KeyIsAfterNode :: "('k \<Rightarrow> 'k \<Rightarrow> int) \<Rightarrow> 'k SkipList \<Rightarrow> 'k \<Rightarrow> nat option \<Rightarrow> bool" where
  "KeyIsAfterNode compare sl key n \<longleftrightarrow> (case n of None \<Rightarrow> False | Some n \<Rightarrow> compare (node_key sl n) key < 0)"

text \<open>The loop of the three searches. They differ in the condition for staying on a level, and in what they
  return: the node where level 0 ends or the node after it. \<open>prev\<close> is the array that
  \<open>FindGreaterOrEqual\<close> fills when it is not null.\<close>

partial_function (option) search ::
  "'k SkipList \<Rightarrow> (nat option \<Rightarrow> bool) \<Rightarrow> nat \<Rightarrow> nat \<Rightarrow> nat list option \<Rightarrow>
    (nat \<times> nat option \<times> nat list option) option" where
  "search sl stay x level prev =
     (let next = Next sl x level
      in if stay next then search sl stay (the next) level prev
         else let prev = (case prev of None \<Rightarrow> None | Some p \<Rightarrow> Some (p[level := x]))
              in if level = 0 then Some (x, next, prev) else search sl stay x (level - 1) prev)"

definition FindGreaterOrEqual ::
  "('k \<Rightarrow> 'k \<Rightarrow> int) \<Rightarrow> 'k SkipList \<Rightarrow> 'k \<Rightarrow> nat list option \<Rightarrow> (nat option \<times> nat list option) option" where
  "FindGreaterOrEqual compare sl key prev =
     Option.bind (search sl (KeyIsAfterNode compare sl key) 0 (sl_max_height sl - 1) prev)
       (\<lambda>(x, next, prev). Some (next, prev))"

definition FindLessThan :: "('k \<Rightarrow> 'k \<Rightarrow> int) \<Rightarrow> 'k SkipList \<Rightarrow> 'k \<Rightarrow> nat option" where
  "FindLessThan compare sl key =
     Option.bind (search sl (\<lambda>next. \<not> (next = None \<or> compare (node_key sl (the next)) key \<ge> 0)) 0
         (sl_max_height sl - 1) None)
       (\<lambda>(x, next, prev). Some x)"

definition FindLast :: "'k SkipList \<Rightarrow> nat option" where
  "FindLast sl =
     Option.bind (search sl (\<lambda>next. next \<noteq> None) 0 (sl_max_height sl - 1) None) (\<lambda>(x, next, prev). Some x)"

text \<open>The two stores that link a node \<open>x\<close> on a level, and the loop over the levels.\<close>

definition link_own :: "nat list \<Rightarrow> nat \<Rightarrow> nat \<Rightarrow> 'k SkipList \<Rightarrow> 'k SkipList" where
  "link_own prev x i sl = SetNext sl x i (Next sl (prev ! i) i)"

definition link_publish :: "nat list \<Rightarrow> nat \<Rightarrow> nat \<Rightarrow> 'k SkipList \<Rightarrow> 'k SkipList" where
  "link_publish prev x i sl = SetNext sl (prev ! i) i (Some x)"

definition link_levels :: "nat list \<Rightarrow> nat \<Rightarrow> nat \<Rightarrow> 'k SkipList \<Rightarrow> 'k SkipList" where
  "link_levels prev x height sl = foldl (\<lambda>sl i. link_publish prev x i (link_own prev x i sl)) sl [0..<height]"

text \<open>What happens before the links are stored: \<open>prev\<close> for the levels the list did not have, and the new height.\<close>

definition raise_height :: "nat \<Rightarrow> nat list \<times> 'k SkipList \<Rightarrow> nat list \<times> 'k SkipList" where
  "raise_height height = (\<lambda>(prev, sl).
     if height > sl_max_height sl
     then (foldl (\<lambda>prev i. prev[i := 0]) prev [sl_max_height sl..<height], sl\<lparr>sl_max_height := height\<rparr>)
     else (prev, sl))"

definition Insert :: "('k \<Rightarrow> 'k \<Rightarrow> int) \<Rightarrow> 'k SkipList \<Rightarrow> 'k \<Rightarrow> 'k SkipList option" where
  "Insert compare sl key =
     Option.bind (FindGreaterOrEqual compare sl key (Some (replicate kMaxHeight 0))) (\<lambda>(x, prev).
       let (height, sl) = RandomHeight sl;
           (prev, sl) = raise_height height (the prev, sl);
           (x, sl) = NewNode sl key height
       in Some (link_levels prev x height sl))"

definition Contains :: "('k \<Rightarrow> 'k \<Rightarrow> int) \<Rightarrow> 'k SkipList \<Rightarrow> 'k \<Rightarrow> bool option" where
  "Contains compare sl key =
     Option.bind (FindGreaterOrEqual compare sl key None) (\<lambda>(x, prev).
       Some (case x of None \<Rightarrow> False | Some x \<Rightarrow> Equal compare key (node_key sl x)))"

text \<open>The iterator is its node; \<open>None\<close> is an iterator that is not valid.\<close>

definition iter_Valid :: "nat option \<Rightarrow> bool" where
  "iter_Valid node \<longleftrightarrow> node \<noteq> None"

definition iter_key :: "'k SkipList \<Rightarrow> nat option \<Rightarrow> 'k" where
  "iter_key sl node = node_key sl (the node)"

definition iter_Next :: "'k SkipList \<Rightarrow> nat option \<Rightarrow> nat option" where
  "iter_Next sl node = Next sl (the node) 0"

definition iter_Prev :: "('k \<Rightarrow> 'k \<Rightarrow> int) \<Rightarrow> 'k SkipList \<Rightarrow> nat option \<Rightarrow> nat option option" where
  "iter_Prev compare sl node =
     Option.bind (FindLessThan compare sl (node_key sl (the node))) (\<lambda>x. Some (if x = 0 then None else Some x))"

definition iter_Seek :: "('k \<Rightarrow> 'k \<Rightarrow> int) \<Rightarrow> 'k SkipList \<Rightarrow> 'k \<Rightarrow> nat option option" where
  "iter_Seek compare sl target = Option.bind (FindGreaterOrEqual compare sl target None) (\<lambda>(x, prev). Some x)"

definition iter_SeekToFirst :: "'k SkipList \<Rightarrow> nat option" where
  "iter_SeekToFirst sl = Next sl 0 0"

definition iter_SeekToLast :: "'k SkipList \<Rightarrow> nat option option" where
  "iter_SeekToLast sl = Option.bind (FindLast sl) (\<lambda>x. Some (if x = 0 then None else Some x))"

section \<open>Links and chains\<close>

definition has_link :: "'k SkipList \<Rightarrow> nat \<Rightarrow> nat \<Rightarrow> bool" where
  "has_link sl i x \<longleftrightarrow> x < length (sl_nodes sl) \<and> i < length (n_next (sl_nodes sl ! x))"

fun chain :: "'k SkipList \<Rightarrow> nat \<Rightarrow> nat \<Rightarrow> nat list \<Rightarrow> bool" where
  "chain sl i x [] \<longleftrightarrow> has_link sl i x \<and> Next sl x i = None"
| "chain sl i x (y # ys) \<longleftrightarrow> has_link sl i x \<and> Next sl x i = Some y \<and> chain sl i y ys"

definition first :: "nat list \<Rightarrow> nat option" where
  "first xs = (case xs of [] \<Rightarrow> None | x # _ \<Rightarrow> Some x)"

lemma first_simps [simp]: "first [] = None" "first (x # xs) = Some x"
  by (simp_all add: first_def)

lemma SetNext_counts [simp]:
  "length (sl_nodes (SetNext sl x n v)) = length (sl_nodes sl)"
  "sl_max_height (SetNext sl x n v) = sl_max_height sl" "sl_rnd (SetNext sl x n v) = sl_rnd sl"
  by (simp_all add: SetNext_def Let_def)

lemma SetNext_node:
  "sl_nodes (SetNext sl x n v) ! y =
     (if y = x \<and> x < length (sl_nodes sl)
      then (sl_nodes sl ! x)\<lparr>n_next := (n_next (sl_nodes sl ! x))[n := v]\<rparr> else sl_nodes sl ! y)"
  by (cases "y = x"; cases "x < length (sl_nodes sl)") (simp_all add: SetNext_def Let_def list_update_beyond)

lemma SetNext_keeps [simp]:
  "node_key (SetNext sl x n v) y = node_key sl y" "has_link (SetNext sl x n v) i y = has_link sl i y"
  by (simp_all add: node_key_def has_link_def SetNext_node)

lemma Next_SetNext:
  "has_link sl n x \<Longrightarrow> Next (SetNext sl x n v) y i = (if y = x \<and> i = n then v else Next sl y i)"
  by (auto simp: Next_def SetNext_node has_link_def)

lemma chain_first: "chain sl i x ys \<Longrightarrow> Next sl x i = first ys"
  by (cases ys) auto

lemma chain_has_link: "chain sl i x ys \<Longrightarrow> has_link sl i x"
  by (cases ys) auto

lemma chain_members: "chain sl i x ys \<Longrightarrow> y \<in> set ys \<Longrightarrow> has_link sl i y"
  by (induction ys arbitrary: x) (auto intro: chain_has_link)

lemma chain_suffix: "chain sl i x (ys @ y # zs) \<Longrightarrow> chain sl i y zs"
  by (induction ys arbitrary: x) auto

lemma chain_last: "chain sl i x (ys @ zs) \<Longrightarrow> chain sl i (last (x # ys)) zs"
  by (induction ys arbitrary: x) auto

lemma chain_cong:
  "\<lbrakk>chain sl i x ys; \<And>y. y \<in> set (x # ys) \<Longrightarrow> has_link sl i y \<Longrightarrow> has_link sl' i y \<and> Next sl' y i = Next sl y i\<rbrakk>
    \<Longrightarrow> chain sl' i x ys"
proof (induction ys arbitrary: x)
  case (Cons y ys)
  have "chain sl' i y ys" by (rule Cons.IH) (use Cons.prems in auto)
  then show ?case using Cons.prems by auto
qed auto

text \<open>The two stores that put \<open>z\<close> between the nodes \<open>ys\<close> and \<open>zs\<close> of a level.\<close>

lemma chain_insert:
  assumes "chain sl i x (ys @ zs)" and "has_link sl i z" and "z \<notin> set (x # ys @ zs)"
    and "distinct (x # ys @ zs)" and "p = last (x # ys)"
  shows "chain (SetNext (SetNext sl z i (Next sl p i)) p i (Some z)) i x (ys @ z # zs)"
    (is "chain ?sl i x _")
  using assms
proof (induction ys arbitrary: x)
  case Nil
  then have p: "p = x" "has_link sl i p" using chain_has_link by auto
  show ?case
  proof (cases zs)
    case (Cons a as)
    with Nil(1) have "chain sl i a as" by simp
    then have "chain ?sl i a as"
      by (rule chain_cong) (use Nil Cons p in \<open>auto simp: Next_SetNext\<close>)
    then show ?thesis using Nil p Cons by (simp add: Next_SetNext)
  qed (use Nil p in \<open>simp add: Next_SetNext\<close>)
next
  case (Cons y ys)
  have "chain ?sl i y (ys @ z # zs)"
    by (rule Cons.IH) (use Cons.prems in \<open>auto split: if_splits\<close>)
  moreover have "p \<in> set (y # ys)" using Cons.prems(5) by auto
  then have "x \<noteq> p" using Cons.prems(4) by auto
  moreover have "has_link sl i p"
    using \<open>p \<in> set (y # ys)\<close> Cons.prems(1) chain_members [of sl i x "(y # ys) @ zs" p] by auto
  ultimately show ?case using Cons.prems by (auto simp: Next_SetNext)
qed

section \<open>Searching\<close>

lemma search_walk:
  assumes "chain sl i x (ys @ zs)" and "\<And>n. stay n = (case n of None \<Rightarrow> False | Some n \<Rightarrow> P n)"
    and "\<forall>y \<in> set ys. P y" and "\<forall>z \<in> set zs. \<not> P z"
  shows "search sl stay x i prev =
    (let y = last (x # ys); prev = map_option (\<lambda>p. p[i := y]) prev
     in if i = 0 then Some (y, first zs, prev) else search sl stay y (i - 1) prev)"
  using assms(1,3)
proof (induction ys arbitrary: x)
  case Nil
  then have "\<not> stay (Next sl x i)" using assms(2,4) by (cases zs) auto
  then show ?case using chain_first [OF Nil(1)]
    by (subst search.simps) (simp add: Let_def map_option_case cong: option.case_cong)
next
  case (Cons y ys)
  then have "stay (Next sl x i)" "the (Next sl x i) = y" using assms(2) by auto
  then show ?case using Cons.IH [of y] Cons.prems by (subst search.simps) simp
qed

definition before :: "(nat \<Rightarrow> bool) \<Rightarrow> (nat \<Rightarrow> nat list) \<Rightarrow> nat \<Rightarrow> nat" where
  "before P C i = last (0 # filter P (C i))"

lemma search_level:
  assumes "chain sl i 0 (C i)" and "\<And>n. stay n = (case n of None \<Rightarrow> False | Some n \<Rightarrow> P n)"
    and "C i = filter P (C i) @ filter (\<lambda>n. \<not> P n) (C i)" and "x \<in> set (0 # filter P (C i))"
  shows "search sl stay x i prev =
    (let y = before P C i; prev = map_option (\<lambda>p. p[i := y]) prev
     in if i = 0 then Some (y, first (filter (\<lambda>n. \<not> P n) (C i)), prev) else search sl stay y (i - 1) prev)"
proof -
  define ps zs where "ps = filter P (C i)" and "zs = filter (\<lambda>n. \<not> P n) (C i)"
  have c: "chain sl i 0 (ps @ zs)" 
    using assms(1) unfolding ps_def zs_def assms(3) [symmetric] .
  obtain ws ys where split: "0 # ps = ws @ x # ys" 
    using assms(4) split_list [of x "0 # ps"] unfolding ps_def by blast
  have "chain sl i x (ys @ zs)"
  proof (cases ws)
    case Nil
    with split c show ?thesis by simp
  next
    case (Cons w ws')
    with split have "ps @ zs = ws' @ x # (ys @ zs)" by simp
    with c show ?thesis using chain_suffix [of sl i 0 ws' x "ys @ zs"] by simp
  qed
  moreover have "set ys \<subseteq> set ps" using arg_cong [OF split, of tl] by (cases ws) auto
  then have "\<forall>y \<in> set ys. P y" by (auto simp: ps_def)
  moreover have "\<forall>z \<in> set zs. \<not> P z" by (simp add: zs_def)
  moreover have "last (x # ys) = before P C i" unfolding before_def ps_def [symmetric] split by simp
  ultimately show ?thesis using search_walk [of sl i x ys zs stay P prev, OF _ assms(2)] unfolding zs_def by metis
qed

text \<open>A search on levels that \<open>P\<close> splits into a beginning and an end. It may start at every node of the
  beginning of its level; it returns the last node of the beginning of level 0 and the node after it.\<close>

lemma search_levels:
  assumes "\<forall>j \<le> i. chain sl j 0 (C j)" and "\<forall>j. set (C (Suc j)) \<subseteq> set (C j)"
    and "\<And>n. stay n = (case n of None \<Rightarrow> False | Some n \<Rightarrow> P n)"
    and "\<forall>j. C j = filter P (C j) @ filter (\<lambda>n. \<not> P n) (C j)" and "x \<in> set (0 # filter P (C i))"
  shows "search sl stay x i prev =
    Some (before P C 0, first (filter (\<lambda>n. \<not> P n) (C 0)),
      map_option (\<lambda>p. map (\<lambda>j. if j \<le> i then before P C j else p ! j) [0..<length p]) prev)"
  using assms(1,5)
proof (induction i arbitrary: x prev)
  case (0 x prev)
  have "search sl stay x 0 prev = Some (before P C 0, first (filter (\<lambda>n. \<not> P n) (C 0)),
      map_option (\<lambda>p. p[0 := before P C 0]) prev)"
    using search_level [OF _ assms(3), of sl 0 C x] 0 assms(4) by (simp add: Let_def)
  moreover have "p[0 := before P C 0] = map (\<lambda>j. if j \<le> 0 then before P C j else p ! j) [0..<length p]" for p
    by (rule nth_equalityI) (auto simp: nth_list_update)
  ultimately show ?case by simp
next
  case (Suc i)
  have "before P C (Suc i) \<in> set (0 # filter P (C (Suc i)))" unfolding before_def by (rule last_in_set) simp
  then have "before P C (Suc i) \<in> set (0 # filter P (C i))" using assms(2) by auto
  moreover have "search sl stay x (Suc i) prev =
      search sl stay (before P C (Suc i)) i (map_option (\<lambda>p. p[Suc i := before P C (Suc i)]) prev)"
    using search_level [OF _ assms(3), of sl "Suc i" C x] Suc.prems assms(4) by (simp add: Let_def)
  moreover have "map (\<lambda>j. if j \<le> i then before P C j else p[Suc i := before P C (Suc i)] ! j) [0..<length p]
      = map (\<lambda>j. if j \<le> Suc i then before P C j else p ! j) [0..<length p]" for p
    by (rule nth_equalityI) (auto simp: nth_list_update le_Suc_eq)
  ultimately show ?case using Suc.IH [of "before P C (Suc i)"] Suc.prems(1)
    by (simp add: option.map_comp comp_def)
qed

section \<open>The order of the keys and the invariant\<close>

text \<open>What the list asks of its comparison: the sign says which key comes first, and keys that compare equal
  may differ.\<close>

locale key_order =
  fixes compare :: "'k \<Rightarrow> 'k \<Rightarrow> int" and ok :: "'k \<Rightarrow> bool"
  assumes sign: "ok a \<Longrightarrow> ok b \<Longrightarrow> compare a b < 0 \<longleftrightarrow> 0 < compare b a"
    and le_trans: "ok a \<Longrightarrow> ok b \<Longrightarrow> ok c \<Longrightarrow> compare a b \<le> 0 \<Longrightarrow> compare b c \<le> 0 \<Longrightarrow> compare a c \<le> 0"
begin

lemma le_less_trans: "ok a \<Longrightarrow> ok b \<Longrightarrow> ok c \<Longrightarrow> compare a b \<le> 0 \<Longrightarrow> compare b c < 0 \<Longrightarrow> compare a c < 0"
  using le_trans [of c a b] sign [of a c] sign [of b c] sign [of c b] by force

lemma less_le_trans: "ok a \<Longrightarrow> ok b \<Longrightarrow> ok c \<Longrightarrow> compare a b < 0 \<Longrightarrow> compare b c \<le> 0 \<Longrightarrow> compare a c < 0"
  using le_trans [of b c a] sign [of a c] sign [of a b] sign [of b a] by force

lemma less_trans: "ok a \<Longrightarrow> ok b \<Longrightarrow> ok c \<Longrightarrow> compare a b < 0 \<Longrightarrow> compare b c < 0 \<Longrightarrow> compare a c < 0"
  by (rule less_le_trans) auto

lemma not_less: "ok a \<Longrightarrow> ok b \<Longrightarrow> \<not> compare a b < 0 \<longleftrightarrow> compare b a \<le> 0"
  using sign [of a b] by auto

lemma irrefl: "ok a \<Longrightarrow> \<not> compare a a < 0"
  using sign [of a a] by auto

lemma refl_zero: "ok a \<Longrightarrow> compare a a = 0"
  using sign [of a a] by auto

end

sublocale comparator \<subseteq> order: key_order "co_Compare C" ok
proof
  fix a b c assume "ok a" "ok b" "ok c" "co_Compare C a b \<le> 0" "co_Compare C b c \<le> 0"
  then show "co_Compare C a c \<le> 0"
    using compare_eq [of b c] compare_le_less_trans [of a b c] by (cases "co_Compare C b c = 0") auto
qed (rule compare_sym)

text \<open>\<open>C i\<close> are the nodes of level \<open>i\<close>.\<close>

definition levels_ok :: "('k \<Rightarrow> 'k \<Rightarrow> int) \<Rightarrow> ('k \<Rightarrow> bool) \<Rightarrow> 'k SkipList \<Rightarrow> (nat \<Rightarrow> nat list) \<Rightarrow> bool" where
  "levels_ok compare ok sl C \<longleftrightarrow>
     0 < sl_max_height sl \<and> sl_max_height sl \<le> kMaxHeight \<and>
     (\<forall>i < kMaxHeight. chain sl i 0 (C i)) \<and> (\<forall>i \<ge> sl_max_height sl. C i = []) \<and>
     (\<forall>i. set (C (Suc i)) \<subseteq> set (C i)) \<and>
     (\<forall>i. sorted_wrt (\<lambda>x y. compare (node_key sl x) (node_key sl y) < 0) (C i)) \<and>
     0 \<notin> set (C 0) \<and> (\<forall>x \<in> set (C 0). ok (node_key sl x))"

text \<open>The keys of a list, in order.\<close>

definition represents :: "('k \<Rightarrow> 'k \<Rightarrow> int) \<Rightarrow> ('k \<Rightarrow> bool) \<Rightarrow> 'k SkipList \<Rightarrow> 'k list \<Rightarrow> bool" where
  "represents compare ok sl ks \<longleftrightarrow> (\<exists>C. levels_ok compare ok sl C \<and> ks = map (node_key sl) (C 0))"

lemma levels_okD:
  assumes "levels_ok compare ok sl C"
  shows "0 < sl_max_height sl" "sl_max_height sl \<le> kMaxHeight" "i < kMaxHeight \<Longrightarrow> chain sl i 0 (C i)"
    "sl_max_height sl \<le> i \<Longrightarrow> C i = []" "set (C (Suc i)) \<subseteq> set (C i)"
    "sorted_wrt (\<lambda>x y. compare (node_key sl x) (node_key sl y) < 0) (C i)"
    "0 \<notin> set (C 0)" "x \<in> set (C 0) \<Longrightarrow> ok (node_key sl x)"
  using assms unfolding levels_ok_def by blast+

lemma levels_subset: "levels_ok compare ok sl C \<Longrightarrow> set (C i) \<subseteq> set (C 0)"
  by (induction i) (use levels_okD(5) in blast)+

lemma sorted_wrt_split:
  "sorted_wrt (\<lambda>x y. P y \<longrightarrow> P x) xs \<Longrightarrow> xs = filter P xs @ filter (\<lambda>x. \<not> P x) xs"
  by (induction xs) (auto simp: filter_empty_conv)

lemma sorted_wrt_neq: "sorted_wrt (\<noteq>) xs \<longleftrightarrow> distinct xs"
  by (induction xs) auto

context key_order
begin

text \<open>The nodes before a key are the beginning of every level.\<close>

lemma levels_split:
  assumes "levels_ok compare ok sl C" and "ok key"
  shows "C i = filter (\<lambda>n. compare (node_key sl n) key < 0) (C i) @
    filter (\<lambda>n. \<not> compare (node_key sl n) key < 0) (C i)"
proof (rule sorted_wrt_split, rule sorted_wrt_mono_rel [OF _ levels_okD(6) [OF assms(1)]])
  fix x y assume "x \<in> set (C i)" "y \<in> set (C i)" "compare (node_key sl x) (node_key sl y) < 0"
  moreover have "ok (node_key sl x)" "ok (node_key sl y)"
    using levels_subset [OF assms(1)] levels_okD(8) [OF assms(1)] calculation by blast+
  ultimately show "compare (node_key sl y) key < 0 \<longrightarrow> compare (node_key sl x) key < 0"
    using less_trans assms(2) by blast
qed

lemma levels_distinct:
  assumes "levels_ok compare ok sl C"
  shows "distinct (0 # C i)"
proof -
  have "x \<in> set (C i) \<Longrightarrow> ok (node_key sl x)" for x
    using levels_subset [OF assms] levels_okD(8) [OF assms] by blast
  then have "sorted_wrt (\<noteq>) (C i)"
    by (rule_tac sorted_wrt_mono_rel [OF _ levels_okD(6) [OF assms]]) (use irrefl in auto)
  moreover have "0 \<notin> set (C i)" using levels_subset [OF assms] levels_okD(7) [OF assms] by blast
  ultimately show ?thesis by (simp add: sorted_wrt_neq)
qed

abbreviation below :: "'k SkipList \<Rightarrow> 'k \<Rightarrow> nat \<Rightarrow> bool" where
  "below sl key n \<equiv> compare (node_key sl n) key < 0"

lemma search_result:
  assumes "levels_ok compare ok sl C" and "ok key" and "\<And>n. stay n = (case n of None \<Rightarrow> False | Some n \<Rightarrow> below sl key n)"
  shows "search sl stay 0 (sl_max_height sl - 1) prev =
    Some (before (below sl key) C 0, first (filter (\<lambda>n. \<not> below sl key n) (C 0)),
      map_option (\<lambda>p. map (\<lambda>j. if j < sl_max_height sl then before (below sl key) C j else p ! j) [0..<length p]) prev)"
proof -
  note L = levels_okD [OF assms(1)]
  have "j \<le> sl_max_height sl - 1 \<longleftrightarrow> j < sl_max_height sl" for j using L(1) by auto
  moreover have "\<forall>j \<le> sl_max_height sl - 1. chain sl j 0 (C j)" using L(1-3) by auto
  ultimately show ?thesis
    using search_levels [of "sl_max_height sl - 1" sl C stay "below sl key" 0 prev] L(5)
      assms(3) levels_split [OF assms(1,2)] by simp
qed

lemma FindGreaterOrEqual_result:
  assumes "levels_ok compare ok sl C" and "ok key"
  shows "FindGreaterOrEqual compare sl key prev =
    Some (first (filter (\<lambda>n. \<not> below sl key n) (C 0)),
      map_option (\<lambda>p. map (\<lambda>j. if j < sl_max_height sl then before (below sl key) C j else p ! j) [0..<length p]) prev)"
  unfolding FindGreaterOrEqual_def
  by (subst search_result [OF assms]) (simp_all add: KeyIsAfterNode_def)

lemma FindLessThan_result:
  assumes "levels_ok compare ok sl C" and "ok key"
  shows "FindLessThan compare sl key = Some (before (below sl key) C 0)"
  unfolding FindLessThan_def
  by (subst search_result [OF assms]) (auto split: option.splits)

text \<open>The two stores that put a node on a level. After the first one nothing has changed for a reader.\<close>

lemma own_ok:
  assumes "levels_ok compare ok sl C" and "x \<notin> set (0 # C i)" and "has_link sl i x"
  shows "levels_ok compare ok (SetNext sl x i v) C"
proof -
  have "chain (SetNext sl x i v) j 0 (C j)" if "j < kMaxHeight" for j
    by (rule chain_cong [OF levels_okD(3) [OF assms(1) that]]) (use assms(2,3) in \<open>auto simp: Next_SetNext\<close>)
  then show ?thesis using assms(1) by (simp add: levels_ok_def)
qed

lemma publish_ok:
  fixes sl :: "'k SkipList" and C and x i :: nat
  defines "D \<equiv> filter (below sl (node_key sl x)) (C i)" and "R \<equiv> filter (\<lambda>n. \<not> below sl (node_key sl x) n) (C i)"
    and "p \<equiv> before (below sl (node_key sl x)) C i"
  assumes L: "levels_ok compare ok sl C" and i: "i < sl_max_height sl" and x: "has_link sl i x" "ok (node_key sl x)"
      "x \<notin> set (0 # C i)" "i = 0 \<or> x \<in> set (C (i - 1))"
    and neq: "\<forall>n \<in> set (C i). compare (node_key sl x) (node_key sl n) \<noteq> 0"
  shows "levels_ok compare ok (SetNext (SetNext sl x i (Next sl p i)) p i (Some x)) (C(i := D @ x # R))"
proof -
  let ?sl = "SetNext (SetNext sl x i (Next sl p i)) p i (Some x)" and ?C = "C(i := D @ x # R)"
  note LD = levels_okD [OF L]
  have C: "C i = D @ R" using levels_split [OF L x(2)] by (simp add: D_def R_def)
  have okn: "ok (node_key sl n)" if "n \<in> set (C i)" for n using that LD(8) levels_subset [OF L] by blast
  have p: "p = last (0 # D)" by (simp add: p_def before_def D_def)
  have ch: "chain sl i 0 (D @ R)" using LD(3) [of i] LD(2) i by (simp add: C)
  then have "has_link sl i p" unfolding p by (rule chain_last [THEN chain_has_link])
  have "chain ?sl j 0 (?C j)" if "j < kMaxHeight" for j
  proof (cases "j = i")
    case True
    have "chain ?sl i 0 (D @ x # R)"
      by (rule chain_insert) (use ch x C p levels_distinct [OF L, of i] in auto)
    with True show ?thesis by simp
  next
    case False
    have "chain ?sl j 0 (C j)"
      by (rule chain_cong [OF LD(3) [OF that]])
        (use False x \<open>has_link sl i p\<close> in \<open>auto simp: Next_SetNext\<close>)
    with False show ?thesis by simp
  qed
  moreover have "sorted_wrt (\<lambda>x y. compare (node_key sl x) (node_key sl y) < 0) (D @ x # R)"
  proof -
    have "compare (node_key sl x) (node_key sl n) < 0" if "n \<in> set R" for n
      using that neq okn [of n] not_less [of "node_key sl n" "node_key sl x"] x(2) by (force simp: R_def)
    moreover have "compare (node_key sl d) (node_key sl x) < 0" if "d \<in> set D" for d using that by (simp add: D_def)
    ultimately show ?thesis using LD(6) [of i] C x(2) okn
      by (auto simp: sorted_wrt_append intro: less_trans)
  qed
  moreover have "set (?C (Suc j)) \<subseteq> set (?C j)" for j
    using LD(5) [of j] x(4) C by auto
  moreover have "0 \<notin> set (?C 0)" "\<forall>n \<in> set (?C 0). ok (node_key sl n)" using LD(7,8) x C by auto
  ultimately show ?thesis using LD(1,2,4,6) i by (simp add: levels_ok_def)
qed

definition spliced :: "'k SkipList \<Rightarrow> nat \<Rightarrow> (nat \<Rightarrow> nat list) \<Rightarrow> nat \<Rightarrow> nat \<Rightarrow> nat list" where
  "spliced sl x C h j =
     (if j < h then filter (below sl (node_key sl x)) (C j) @ x # filter (\<lambda>n. \<not> below sl (node_key sl x) n) (C j)
      else C j)"

lemma link_levels_Suc:
  "link_levels prev x (Suc h) sl = link_publish prev x h (link_own prev x h (link_levels prev x h sl))"
  by (simp add: link_levels_def)

lemma link_levels_keeps [simp]:
  "length (sl_nodes (link_levels prev x h sl)) = length (sl_nodes sl)"
  "sl_max_height (link_levels prev x h sl) = sl_max_height sl"
  "node_key (link_levels prev x h sl) y = node_key sl y"
  "has_link (link_levels prev x h sl) i y = has_link sl i y"
  by (induction h) (simp_all add: link_levels_Suc, simp_all add: link_levels_def link_publish_def link_own_def)

lemma link_levels_ok:
  assumes "levels_ok compare ok sl C" and "h \<le> sl_max_height sl" and "\<forall>i < h. has_link sl i x"
    and "ok (node_key sl x)" and "x \<notin> set (0 # C 0)"
    and "\<forall>n \<in> set (C 0). compare (node_key sl x) (node_key sl n) \<noteq> 0"
    and "\<forall>i < h. prev ! i = before (below sl (node_key sl x)) C i"
  shows "levels_ok compare ok (link_levels prev x h sl) (spliced sl x C h)"
  using assms(2,3,7)
proof (induction h)
  case 0
  have "spliced sl x C 0 = C" by (rule ext) (simp add: spliced_def)
  with assms(1) show ?case by (simp add: link_levels_def)
next
  case (Suc h)
  let ?sl = "link_levels prev x h sl" and ?C = "spliced sl x C h"
  have L: "levels_ok compare ok ?sl ?C" using Suc by simp
  have here: "?C h = C h" by (simp add: spliced_def)
  have sub: "x \<notin> set (0 # C h)" "\<forall>n \<in> set (C h). compare (node_key sl x) (node_key sl n) \<noteq> 0"
    using levels_subset [OF assms(1), of h] assms(5,6) by auto
  have "?C(h := filter (below sl (node_key sl x)) (C h) @ x # filter (\<lambda>n. \<not> below sl (node_key sl x) n) (C h))
      = spliced sl x C (Suc h)"
    by (rule ext) (simp add: spliced_def)
  moreover have "h = 0 \<or> x \<in> set (?C (h - 1))" by (auto simp: spliced_def)
  ultimately show ?case
    using publish_ok [OF L, of h x] Suc.prems assms(4) here sub
    by (simp add: link_levels_Suc link_publish_def link_own_def before_def)
qed

end

section \<open>Insertion\<close>

lemma RandomHeight_loop_bounds:
  "height \<le> kMaxHeight \<Longrightarrow>
     height \<le> fst (RandomHeight_loop height seed) \<and> fst (RandomHeight_loop height seed) \<le> kMaxHeight"
proof (induction height seed rule: RandomHeight_loop.induct)
  case (1 height seed)
  define c where "c \<longleftrightarrow> Random_Next seed mod 4 = 0"
  show ?case
    using "1.IH" [OF _ refl] "1.prems" unfolding c_def [symmetric]
    by (subst (1 2) RandomHeight_loop.simps, unfold Let_def c_def [symmetric]) auto
qed

lemma RandomHeight_bounds:
  "RandomHeight sl = (height, sl') \<Longrightarrow> 0 < height \<and> height \<le> kMaxHeight \<and> (\<exists>seed. sl' = sl\<lparr>sl_rnd := seed\<rparr>)"
  using RandomHeight_loop_bounds [of 1 "sl_rnd sl"]
  by (auto simp: RandomHeight_def kMaxHeight_def split: prod.splits)

lemma foldl_zero:
  "length (foldl (\<lambda>p i. p[i := 0 :: nat]) p is) = length p"
  "j < length p \<Longrightarrow> foldl (\<lambda>p i. p[i := 0]) p is ! j = (if j \<in> set is then 0 else p ! j)"
  by (induction "is" arbitrary: p) (auto simp: nth_list_update)

lemma chain_update:
  "chain (sl\<lparr>sl_rnd := r\<rparr>) i x ys = chain sl i x ys" "chain (sl\<lparr>sl_max_height := h\<rparr>) i x ys = chain sl i x ys"
  by (induction ys arbitrary: x) (simp_all add: has_link_def Next_def)

lemma node_key_update:
  "node_key (sl\<lparr>sl_rnd := r\<rparr>) x = node_key sl x" "node_key (sl\<lparr>sl_max_height := h\<rparr>) x = node_key sl x"
  by (simp_all add: node_key_def)

lemma NewNode_ok:
  assumes "levels_ok compare ok sl C" and "NewNode sl key height = (x, sl')"
  shows "levels_ok compare ok sl' C" and "x \<notin> set (0 # C 0)" and "node_key sl' x = key"
    and "\<forall>i < height. has_link sl' i x" and "\<And>n. n \<in> set (0 # C 0) \<Longrightarrow> node_key sl' n = node_key sl n"
    and "sl_max_height sl' = sl_max_height sl"
proof -
  note L = levels_okD [OF assms(1)]
  have sl': "x = length (sl_nodes sl)"
    "sl' = sl\<lparr>sl_nodes := sl_nodes sl @ [\<lparr>n_key = key, n_next = replicate height None\<rparr>]\<rparr>"
    using assms(2) by (auto simp: NewNode_def)
  have "chain sl 0 0 (C 0)" using L(3) by (simp add: kMaxHeight_def)
  then have bound: "n < length (sl_nodes sl)" if "n \<in> set (0 # C 0)" for n
    using that chain_has_link chain_members by (fastforce simp: has_link_def)
  then show "x \<notin> set (0 # C 0)" using sl' by blast
  show keys: "node_key sl' n = node_key sl n" if "n \<in> set (0 # C 0)" for n
    using bound [OF that] by (simp add: sl' node_key_def nth_append)
  have "chain sl' i 0 (C i)" if "i < kMaxHeight" for i
    by (rule chain_cong [OF L(3) [OF that]]) (auto simp: sl' has_link_def Next_def nth_append)
  moreover have "sorted_wrt (\<lambda>x y. compare (node_key sl' x) (node_key sl' y) < 0) (C i)" for i
    by (rule sorted_wrt_mono_rel [OF _ L(6)]) (use keys levels_subset [OF assms(1), of i] in \<open>simp add: subset_iff\<close>)
  ultimately show "levels_ok compare ok sl' C" using L keys by (simp add: levels_ok_def sl')
qed (use assms(2) in \<open>auto simp: NewNode_def node_key_def has_link_def\<close>)

definition insert_key :: "('k \<Rightarrow> 'k \<Rightarrow> int) \<Rightarrow> 'k \<Rightarrow> 'k list \<Rightarrow> 'k list" where
  "insert_key compare key ks =
     filter (\<lambda>k. compare k key < 0) ks @ key # filter (\<lambda>k. \<not> compare k key < 0) ks"

context key_order
begin

lemma raise_height_ok:
  assumes "levels_ok compare ok sl C" and "0 < height" and "height \<le> kMaxHeight" and "length prev = kMaxHeight"
    and "\<forall>j < sl_max_height sl. prev ! j = before P C j"
  obtains prev' sl' where "raise_height height (prev, sl) = (prev', sl')" and "levels_ok compare ok sl' C"
    and "height \<le> sl_max_height sl'" and "\<forall>j < height. prev' ! j = before P C j" and "node_key sl' = node_key sl"
    and "sl_nodes sl' = sl_nodes sl"
proof (cases "height > sl_max_height sl")
  case True
  show ?thesis
  proof (rule that)
    show "raise_height height (prev, sl) =
        (foldl (\<lambda>prev i. prev[i := 0]) prev [sl_max_height sl..<height], sl\<lparr>sl_max_height := height\<rparr>)"
      using True by (simp add: raise_height_def)
    show "levels_ok compare ok (sl\<lparr>sl_max_height := height\<rparr>) C"
      using assms(1-3) True by (auto simp: levels_ok_def chain_update node_key_update)
    show "\<forall>j < height. foldl (\<lambda>prev i. prev[i := 0]) prev [sl_max_height sl..<height] ! j = before P C j"
      using assms(3-5) levels_okD(4) [OF assms(1)] by (auto simp: foldl_zero before_def)
  qed (auto simp: node_key_update)
next
  case False
  then show ?thesis using assms by (intro that [of prev sl]) (auto simp: raise_height_def)
qed

lemma Insert_ok:
  assumes L: "levels_ok compare ok sl C" and key: "ok key"
    and neq: "\<forall>k \<in> node_key sl ` set (C 0). compare key k \<noteq> 0"
  obtains sl' C' where "Insert compare sl key = Some sl'" and "levels_ok compare ok sl' C'"
    and "map (node_key sl') (C' 0) = insert_key compare key (map (node_key sl) (C 0))"
proof -
  obtain height sl1 where h: "RandomHeight sl = (height, sl1)" by fastforce
  from RandomHeight_bounds [OF h] have bounds: "0 < height" "height \<le> kMaxHeight"
    and sl1: "\<exists>seed. sl1 = sl\<lparr>sl_rnd := seed\<rparr>" by auto
  then have L1: "levels_ok compare ok sl1 C" and k1: "node_key sl1 = node_key sl"
    and m1: "sl_max_height sl1 = sl_max_height sl"
    using L by (auto simp: levels_ok_def chain_update node_key_update)
  define prev where "prev = map (\<lambda>j. if j < sl_max_height sl then before (below sl key) C j else replicate kMaxHeight 0 ! j) [0..<kMaxHeight]"
  have find: "FindGreaterOrEqual compare sl key (Some (replicate kMaxHeight 0)) =
      Some (first (filter (\<lambda>n. \<not> below sl key n) (C 0)), Some prev)"
    by (simp add: FindGreaterOrEqual_result [OF L key] prev_def)
  have prev: "length prev = kMaxHeight" "\<forall>j < sl_max_height sl1. prev ! j = before (below sl key) C j"
    using levels_okD(2) [OF L] by (auto simp: prev_def m1)
  obtain prev' sl2 where r: "raise_height height (prev, sl1) = (prev', sl2)" "levels_ok compare ok sl2 C"
      "height \<le> sl_max_height sl2" "\<forall>j < height. prev' ! j = before (below sl key) C j" "node_key sl2 = node_key sl1"
    using raise_height_ok [OF L1 bounds prev] by metis
  obtain x sl3 where n: "NewNode sl2 key height = (x, sl3)" by fastforce
  note N = NewNode_ok [OF r(2) n]
  have k3: "node_key sl3 y = node_key sl y" if "y \<in> set (C 0)" for y using N(5) that r(5) k1 by simp
  have P: "filter (below sl3 key) (C j) = filter (below sl key) (C j)"
    "filter (\<lambda>n. \<not> below sl3 key n) (C j) = filter (\<lambda>n. \<not> below sl key n) (C j)" for j
    using k3 levels_subset [OF L, of j] by (auto intro!: filter_cong simp: subset_iff)
  have "levels_ok compare ok (link_levels prev' x height sl3) (spliced sl3 x C height)"
  proof (rule link_levels_ok [OF N(1) _ N(4) _ N(2)])
    show "\<forall>n \<in> set (C 0). compare (node_key sl3 x) (node_key sl3 n) \<noteq> 0"
      using neq k3 N(3) by simp
  qed (use r N(3,6) key in \<open>simp_all add: before_def P\<close>)
  moreover have "map (node_key (link_levels prev' x height sl3)) (spliced sl3 x C height 0)
      = insert_key compare key (map (node_key sl) (C 0))"
    using bounds(1) k3 by (auto simp: spliced_def N(3) P insert_key_def filter_map comp_def)
  moreover have "Insert compare sl key = Some (link_levels prev' x height sl3)"
    by (simp add: Insert_def find h r(1) n)
  ultimately show ?thesis using that by blast
qed

end

lemma SkipList_new_ok: "levels_ok compare ok (SkipList_new any_key) (\<lambda>_. [])"
proof -
  define base where "base = \<lparr>sl_nodes = [\<lparr>n_key = any_key, n_next = replicate kMaxHeight None\<rparr>],
    sl_max_height = 1, sl_rnd = Random_new 0xdeadbeef\<rparr>"
  have "(replicate kMaxHeight None)[i := None] = replicate kMaxHeight (None :: nat option)" for i
    by (cases "i < kMaxHeight") (metis list_update_id nth_replicate, simp add: list_update_beyond)
  then have step: "SetNext base 0 i None = base" for i by (simp add: SetNext_def base_def)
  have "foldl (\<lambda>sl i. SetNext sl 0 i None) base is = base" for "is" by (induction "is") (simp_all add: step)
  moreover have "NewNode \<lparr>sl_nodes = [], sl_max_height = 1, sl_rnd = Random_new 0xdeadbeef\<rparr> any_key kMaxHeight = (0, base)"
    by (simp add: NewNode_def base_def)
  ultimately have "SkipList_new any_key = base" unfolding SkipList_new_def by simp
  then show ?thesis by (simp add: base_def levels_ok_def has_link_def Next_def kMaxHeight_def)
qed

section \<open>Membership and iteration\<close>

text \<open>An iterator at place \<open>j\<close> of the keys; the place after the last key is that of an iterator that is not
  valid.\<close>

definition iter_at :: "('k \<Rightarrow> 'k \<Rightarrow> int) \<Rightarrow> ('k \<Rightarrow> bool) \<Rightarrow> 'k SkipList \<Rightarrow> 'k list \<Rightarrow> nat \<Rightarrow> nat option \<Rightarrow> bool" where
  "iter_at compare ok sl ks j node \<longleftrightarrow>
     (\<exists>C. levels_ok compare ok sl C \<and> ks = map (node_key sl) (C 0) \<and> node = first (drop j (C 0)))"

lemma first_None [simp]: "first xs = None \<longleftrightarrow> xs = []"
  by (cases xs) auto

lemma first_drop: "first (drop j xs) = (if j < length xs then Some (xs ! j) else None)"
  by (auto simp: Cons_nth_drop_Suc [symmetric])

lemma iter_at_key:
  assumes "iter_at compare ok sl ks j node"
  shows "iter_Valid node \<longleftrightarrow> j < length ks" and "j < length ks \<Longrightarrow> iter_key sl node = ks ! j"
  using assms by (auto simp: iter_at_def iter_Valid_def iter_key_def first_drop split: if_splits)

lemma iter_at_Next:
  assumes "iter_at compare ok sl ks j node" and "j < length ks"
  shows "iter_at compare ok sl ks (Suc j) (iter_Next sl node)"
proof -
  obtain C where C: "levels_ok compare ok sl C" "ks = map (node_key sl) (C 0)" "node = first (drop j (C 0))"
    using assms(1) by (auto simp: iter_at_def)
  have "chain sl 0 0 (take j (C 0) @ C 0 ! j # drop (Suc j) (C 0))"
    using levels_okD(3) [OF C(1), of 0] assms(2) C(2) by (simp add: kMaxHeight_def id_take_nth_drop [symmetric])
  then have "Next sl (C 0 ! j) 0 = first (drop (Suc j) (C 0))" by (rule chain_suffix [THEN chain_first])
  with C assms(2) show ?thesis by (auto simp: iter_at_def iter_Next_def first_drop)
qed

context key_order
begin

lemma iter_at_Seek:
  assumes "represents compare ok sl ks" and "ok target"
  obtains node where "iter_Seek compare sl target = Some node"
    and "iter_at compare ok sl ks (length (filter (\<lambda>k. compare k target < 0) ks)) node"
proof -
  obtain C where C: "levels_ok compare ok sl C" "ks = map (node_key sl) (C 0)"
    using assms(1) by (auto simp: represents_def)
  have d: "drop (length (filter (below sl target) (C 0))) (C 0) = filter (\<lambda>n. \<not> below sl target n) (C 0)"
    by (subst (2) levels_split [OF C(1) assms(2)]) simp
  show ?thesis
  proof (rule that)
    show "iter_Seek compare sl target = Some (first (filter (\<lambda>n. \<not> below sl target n) (C 0)))"
      by (simp add: iter_Seek_def FindGreaterOrEqual_result [OF C(1) assms(2)])
    show "iter_at compare ok sl ks (length (filter (\<lambda>k. compare k target < 0) ks))
        (first (filter (\<lambda>n. \<not> below sl target n) (C 0)))"
      unfolding iter_at_def using C d by (intro exI [of _ C]) (simp add: filter_map comp_def)
  qed
qed

lemma Contains_result:
  assumes "represents compare ok sl ks" and "ok key"
  shows "Contains compare sl key = Some (\<exists>k \<in> set ks. compare key k = 0)"
proof -
  obtain C where C: "levels_ok compare ok sl C" "ks = map (node_key sl) (C 0)"
    using assms(1) by (auto simp: represents_def)
  let ?R = "filter (\<lambda>n. \<not> below sl key n) (C 0)"
  have okn: "ok (node_key sl n)" if "n \<in> set (C 0)" for n using levels_okD(8) [OF C(1) that] .
  have "(\<exists>k \<in> set ks. compare key k = 0) \<longleftrightarrow> (\<exists>n \<in> set ?R. compare key (node_key sl n) = 0)"
    using C(2) okn sign [OF _ assms(2)] by fastforce
  also have "\<dots> \<longleftrightarrow> (case first ?R of None \<Rightarrow> False | Some x \<Rightarrow> Equal compare key (node_key sl x))"
  proof (cases ?R)
    case (Cons x xs)
    have x: "x \<in> set (C 0)" "compare key (node_key sl x) \<le> 0" and xs: "set xs \<subseteq> set (C 0)"
      using Cons [symmetric] okn not_less assms(2) by (auto simp: Cons_eq_filter_iff)
    have "sorted_wrt (\<lambda>x y. compare (node_key sl x) (node_key sl y) < 0) (x # xs)"
      using sorted_wrt_filter [OF levels_okD(6) [OF C(1)]] Cons by metis
    then have "compare key (node_key sl n) \<noteq> 0" if "n \<in> set xs" for n
      using that x xs le_less_trans [of key "node_key sl x" "node_key sl n"] okn assms(2) by fastforce
    then show ?thesis unfolding Cons by (auto simp: Equal_def)
  qed simp
  finally show ?thesis using FindGreaterOrEqual_result [OF C(1) assms(2)] by (simp add: Contains_def)
qed

lemma filter_below_take:
  assumes "levels_ok compare ok sl C" and "j < length (C 0)"
  shows "filter (below sl (node_key sl (C 0 ! j))) (C 0) = take j (C 0)"
proof -
  let ?k = "node_key sl (C 0 ! j)"
  note sorted = levels_okD(6) [OF assms(1), of 0, unfolded sorted_wrt_iff_nth_less]
  have okn: "ok (node_key sl (C 0 ! i))" if "i < length (C 0)" for i using levels_okD(8) [OF assms(1)] that by simp
  have "below sl ?k (C 0 ! i) \<longleftrightarrow> i < j" if "i < length (C 0)" for i
  proof (cases i j rule: linorder_cases)
    case greater
    then have "compare ?k (node_key sl (C 0 ! i)) < 0" using sorted that by blast
    then show ?thesis using greater sign [OF okn okn, of j i] assms(2) that by auto
  qed (use sorted assms(2) irrefl [OF okn] in auto)
  then have "filter (below sl ?k) (take j (C 0)) = take j (C 0)" "filter (below sl ?k) (drop j (C 0)) = []"
    using assms(2) by (auto simp: filter_id_conv filter_empty_conv in_set_conv_nth)
  then show ?thesis by (metis append_Nil2 append_take_drop_id filter_append)
qed

lemma last_take: "0 < j \<Longrightarrow> j \<le> length xs \<Longrightarrow> last (x # take j xs) = xs ! (j - 1)"
  by (auto simp: last_conv_nth nth_append)

lemma iter_at_Prev:
  assumes "iter_at compare ok sl ks j node" and "j < length ks"
  shows "\<exists>node'. iter_Prev compare sl node = Some node' \<and>
    iter_at compare ok sl ks (if j = 0 then length ks else j - 1) node'"
proof -
  obtain C where C: "levels_ok compare ok sl C" "ks = map (node_key sl) (C 0)" "node = first (drop j (C 0))"
    using assms(1) by (auto simp: iter_at_def)
  have "the node = C 0 ! j" using C(2,3) assms(2) by (simp add: first_drop)
  then have find: "FindLessThan compare sl (node_key sl (the node)) = Some (last (0 # take j (C 0)))"
    using FindLessThan_result [OF C(1) levels_okD(8) [OF C(1)], of "C 0 ! j"] filter_below_take [OF C(1), of j]
      C(2) assms(2) by (simp add: before_def)
  have "last (0 # take j (C 0)) = 0 \<longleftrightarrow> j = 0"
    using levels_okD(7) [OF C(1)] last_take [of j "C 0" 0] nth_mem [of "j - 1" "C 0"] C(2) assms(2)
    by (cases "j = 0") (simp, metis One_nat_def Suc_lessD Suc_pred length_map less_imp_le_nat not_gr_zero)
  then have "iter_Prev compare sl node = Some (first (drop (if j = 0 then length ks else j - 1) (C 0)))"
    using find C(2) assms(2) last_take [of j "C 0" 0] by (cases j) (auto simp: iter_Prev_def first_drop)
  with C show ?thesis by (auto simp: iter_at_def)
qed

lemma iter_at_SeekToFirst:
  assumes "represents compare ok sl ks"
  shows "iter_at compare ok sl ks 0 (iter_SeekToFirst sl)"
  using assms chain_first [OF levels_okD(3), of compare ok sl _ 0]
  by (auto simp: represents_def iter_at_def iter_SeekToFirst_def kMaxHeight_def)

lemma iter_at_SeekToLast:
  assumes "represents compare ok sl ks"
  shows "\<exists>node. iter_SeekToLast sl = Some node \<and> iter_at compare ok sl ks (length ks - 1) node"
proof -
  obtain C where C: "levels_ok compare ok sl C" "ks = map (node_key sl) (C 0)"
    using assms by (auto simp: represents_def)
  have find: "FindLast sl = Some (last (0 # C 0))"
    unfolding FindLast_def
    by (subst search_levels [where P = "\<lambda>_. True" and C = C])
      (use levels_okD [OF C(1)] in \<open>auto simp: before_def split: option.splits\<close>)
  have "last (0 # C 0) = 0 \<longleftrightarrow> C 0 = []"
    using levels_okD(7) [OF C(1)] last_in_set [of "C 0"] by (metis last.simps)
  then have "iter_SeekToLast sl = Some (first (drop (length ks - 1) (C 0)))"
    using find C(2) by (auto simp: iter_SeekToLast_def first_drop last_conv_nth)
  with C show ?thesis by (auto simp: iter_at_def)
qed

end

section \<open>The list as a sorted list of keys\<close>

text \<open>C5: the skip list implements a sorted list of keys, whatever heights the generator draws: a new list is
  empty, a key is contained if and only if the list has one that compares equal, an insertion returns and
  puts the key at its place in the order, seeking stops at the first key that is not smaller, and the
  iterator visits the keys in both directions. All searches end.\<close>

theorem skiplist_refines_sorted_list:
  assumes "key_order compare ok" and "represents compare ok sl ks" and "ok key"
  shows "represents compare ok (SkipList_new key) [] \<and>
    Contains compare sl key = Some (\<exists>k \<in> set ks. compare key k = 0) \<and>
    ((\<forall>k \<in> set ks. compare key k \<noteq> 0) \<longrightarrow>
      (\<exists>sl'. Insert compare sl key = Some sl' \<and> represents compare ok sl' (insert_key compare key ks))) \<and>
    (\<exists>node. iter_Seek compare sl key = Some node \<and>
      iter_at compare ok sl ks (length (filter (\<lambda>k. compare k key < 0) ks)) node) \<and>
    iter_at compare ok sl ks 0 (iter_SeekToFirst sl) \<and>
    (\<exists>node. iter_SeekToLast sl = Some node \<and> iter_at compare ok sl ks (length ks - 1) node) \<and>
    (\<forall>j node. iter_at compare ok sl ks j node \<and> j < length ks \<longrightarrow>
      iter_Valid node \<and> iter_key sl node = ks ! j \<and> iter_at compare ok sl ks (Suc j) (iter_Next sl node) \<and>
      (\<exists>node'. iter_Prev compare sl node = Some node' \<and>
        iter_at compare ok sl ks (if j = 0 then length ks else j - 1) node'))"
proof -
  have new: "represents compare ok (SkipList_new key) []"
    using SkipList_new_ok [of compare ok key] by (auto simp: represents_def)
  have ins: "\<exists>sl'. Insert compare sl key = Some sl' \<and> represents compare ok sl' (insert_key compare key ks)"
    if neq: "\<forall>k \<in> set ks. compare key k \<noteq> 0"
  proof -
    obtain C where C: "levels_ok compare ok sl C" "ks = map (node_key sl) (C 0)"
      using assms(2) by (auto simp: represents_def)
    then have "\<forall>k \<in> node_key sl ` set (C 0). compare key k \<noteq> 0" using neq by simp
    from key_order.Insert_ok [OF assms(1) C(1) assms(3) this] C(2) show ?thesis
      unfolding represents_def by metis
  qed
  have seek: "\<exists>node. iter_Seek compare sl key = Some node \<and>
      iter_at compare ok sl ks (length (filter (\<lambda>k. compare k key < 0) ks)) node"
    by (rule key_order.iter_at_Seek [OF assms]) blast
  have walk: "iter_Valid node \<and> iter_key sl node = ks ! j \<and> iter_at compare ok sl ks (Suc j) (iter_Next sl node) \<and>
      (\<exists>node'. iter_Prev compare sl node = Some node' \<and>
        iter_at compare ok sl ks (if j = 0 then length ks else j - 1) node')"
    if "iter_at compare ok sl ks j node \<and> j < length ks" for j node
    using that iter_at_key [of compare ok sl ks j node] iter_at_Next [of compare ok sl ks j node]
      key_order.iter_at_Prev [OF assms(1), of sl ks j node] by simp
  note parts = new key_order.Contains_result [OF assms] impI [OF ins] seek
    key_order.iter_at_SeekToFirst [OF assms(1,2)] key_order.iter_at_SeekToLast [OF assms(1,2)]
    allI [OF allI [OF impI [OF walk]]]
  show ?thesis by (intro conjI) (rule parts; assumption)+
qed

theorem skiplist_refines_sorted_list_witness:
  "Contains (co_Compare BytewiseComparator) (SkipList_new [7]) [7] = Some False \<and>
   (\<exists>sl. Insert (co_Compare BytewiseComparator) (SkipList_new [7]) [7] = Some sl \<and>
     represents (co_Compare BytewiseComparator) (\<lambda>_. True) sl [[7]])"
  using skiplist_refines_sorted_list [of "co_Compare BytewiseComparator" "\<lambda>_. True" "SkipList_new [7]" "[]" "[7]"]
    bytewise.order.key_order_axioms SkipList_new_ok [of "co_Compare BytewiseComparator" "\<lambda>_. True" "[7]"]
  by (auto simp: represents_def insert_key_def)

end
