(* ===== verification/Ldb_Skiplist_Readers.thy ===== *)
theory Ldb_Skiplist_Readers
  imports Ldb_Skiplist
begin

text \<open>
  A reader of the skip list beside a writer. The comment at the top of \<open>db/skiplist.h\<close> asks of the callers
  that writes are synchronised with each other, and promises that reads need no lock. The insertion is
  split into its stores to shared memory, in the order of the code, and a search into its loads; the steps
  interleave freely. The key of a node and the private steps of the writer (its search, in a list that
  only it changes, and the drawing of a height) need no step of their own.
\<close>

datatype 'k writer_pc =
    Idle
  | Raise 'k nat "nat list"
  | Alloc 'k nat "nat list"
  | Own nat nat "nat list" nat
  | Publish nat nat "nat list" nat

datatype 'k reader_pc = Rest | Search 'k nat nat | Found 'k "nat option"

record 'k world =
  w_list :: "'k SkipList"
  w_writer :: "'k writer_pc"
  w_reader :: "'k reader_pc"

inductive writer_step :: "('k \<Rightarrow> 'k \<Rightarrow> int) \<Rightarrow> ('k \<Rightarrow> bool) \<Rightarrow> 'k world \<Rightarrow> 'k world \<Rightarrow> bool"
  for compare ok where
  start: "w_writer w = Idle \<Longrightarrow> ok key \<Longrightarrow> Contains compare (w_list w) key = Some False \<Longrightarrow>
    FindGreaterOrEqual compare (w_list w) key (Some (replicate kMaxHeight 0)) = Some (x, Some prev) \<Longrightarrow>
    RandomHeight (w_list w) = (height, sl) \<Longrightarrow>
    writer_step compare ok w (w\<lparr>w_list := sl, w_writer := Raise key height prev\<rparr>)"
| raise: "w_writer w = Raise key height prev \<Longrightarrow> raise_height height (prev, w_list w) = (prev', sl) \<Longrightarrow>
    writer_step compare ok w (w\<lparr>w_list := sl, w_writer := Alloc key height prev'\<rparr>)"
| alloc: "w_writer w = Alloc key height prev \<Longrightarrow> NewNode (w_list w) key height = (x, sl) \<Longrightarrow>
    writer_step compare ok w (w\<lparr>w_list := sl, w_writer := Own x height prev 0\<rparr>)"
| own: "w_writer w = Own x height prev i \<Longrightarrow> i < height \<Longrightarrow>
    writer_step compare ok w (w\<lparr>w_list := link_own prev x i (w_list w), w_writer := Publish x height prev i\<rparr>)"
| publish: "w_writer w = Publish x height prev i \<Longrightarrow>
    writer_step compare ok w (w\<lparr>w_list := link_publish prev x i (w_list w), w_writer := Own x height prev (Suc i)\<rparr>)"
| finish: "w_writer w = Own x height prev height \<Longrightarrow> writer_step compare ok w (w\<lparr>w_writer := Idle\<rparr>)"

inductive reader_step :: "('k \<Rightarrow> 'k \<Rightarrow> int) \<Rightarrow> ('k \<Rightarrow> bool) \<Rightarrow> 'k world \<Rightarrow> 'k world \<Rightarrow> bool"
  for compare ok where
  begin_search: "ok key \<Longrightarrow>
    reader_step compare ok w (w\<lparr>w_reader := Search key 0 (sl_max_height (w_list w) - 1)\<rparr>)"
| stay: "w_reader w = Search key x level \<Longrightarrow> KeyIsAfterNode compare (w_list w) key (Next (w_list w) x level) \<Longrightarrow>
    reader_step compare ok w (w\<lparr>w_reader := Search key (the (Next (w_list w) x level)) level\<rparr>)"
| down: "w_reader w = Search key x (Suc level) \<Longrightarrow>
    \<not> KeyIsAfterNode compare (w_list w) key (Next (w_list w) x (Suc level)) \<Longrightarrow>
    reader_step compare ok w (w\<lparr>w_reader := Search key x level\<rparr>)"
| found: "w_reader w = Search key x 0 \<Longrightarrow> \<not> KeyIsAfterNode compare (w_list w) key (Next (w_list w) x 0) \<Longrightarrow>
    reader_step compare ok w (w\<lparr>w_reader := Found key (Next (w_list w) x 0)\<rparr>)"

definition world_step :: "('k \<Rightarrow> 'k \<Rightarrow> int) \<Rightarrow> ('k \<Rightarrow> bool) \<Rightarrow> 'k world \<Rightarrow> 'k world \<Rightarrow> bool" where
  "world_step compare ok w w' \<longleftrightarrow> writer_step compare ok w w' \<or> reader_step compare ok w w'"

definition world_init :: "'k \<Rightarrow> 'k world" where
  "world_init any_key = \<lparr>w_list = SkipList_new any_key, w_writer = Idle, w_reader = Rest\<rparr>"

section \<open>The invariant\<close>

lemma SetNext_same: "has_link sl i x \<Longrightarrow> SetNext sl x i (Next sl x i) = sl"
  by (simp add: SetNext_def Next_def)

lemma chain_next:
  "chain sl i x ys \<Longrightarrow> z \<in> set (x # ys) \<Longrightarrow> Next sl z i = Some y \<Longrightarrow> y \<in> set ys"
  by (induction ys arbitrary: x) auto

context key_order
begin

text \<open>Where the writer is, for the levels \<open>C\<close> of the list: it has found the predecessors of its key on the levels it
  has still to link, and its node is on the levels below.\<close>

definition linking :: "'k SkipList \<Rightarrow> (nat \<Rightarrow> nat list) \<Rightarrow> nat \<Rightarrow> nat \<Rightarrow> nat list \<Rightarrow> nat \<Rightarrow> bool" where
  "linking sl C x height prev i \<longleftrightarrow>
     i \<le> height \<and> height \<le> sl_max_height sl \<and> ok (node_key sl x) \<and> (\<forall>j < height. has_link sl j x) \<and>
     (\<forall>j \<ge> i. x \<notin> set (0 # C j)) \<and> (i = 0 \<or> x \<in> set (C (i - 1))) \<and>
     (\<forall>j \<ge> i. \<forall>n \<in> set (C j). compare (node_key sl x) (node_key sl n) \<noteq> 0) \<and>
     (\<forall>j \<ge> i. j < height \<longrightarrow> prev ! j = before (below sl (node_key sl x)) C j)"

fun writer_ok :: "'k SkipList \<Rightarrow> (nat \<Rightarrow> nat list) \<Rightarrow> 'k writer_pc \<Rightarrow> bool" where
  "writer_ok sl C Idle \<longleftrightarrow> True"
| "writer_ok sl C (Raise key height prev) \<longleftrightarrow> ok key \<and> (\<forall>n \<in> set (C 0). compare key (node_key sl n) \<noteq> 0) \<and>
     0 < height \<and> height \<le> kMaxHeight \<and> length prev = kMaxHeight \<and>
     (\<forall>j < sl_max_height sl. prev ! j = before (below sl key) C j)"
| "writer_ok sl C (Alloc key height prev) \<longleftrightarrow> ok key \<and> (\<forall>n \<in> set (C 0). compare key (node_key sl n) \<noteq> 0) \<and>
     height \<le> sl_max_height sl \<and> (\<forall>j < height. prev ! j = before (below sl key) C j)"
| "writer_ok sl C (Own x height prev i) \<longleftrightarrow> linking sl C x height prev i"
| "writer_ok sl C (Publish x height prev i) \<longleftrightarrow>
     linking sl C x height prev i \<and> i < height \<and> Next sl x i = Next sl (prev ! i) i"

text \<open>Where the reader is: at a node of its level whose key is smaller than its own.\<close>

fun reader_ok :: "'k SkipList \<Rightarrow> (nat \<Rightarrow> nat list) \<Rightarrow> 'k reader_pc \<Rightarrow> bool" where
  "reader_ok sl C (Search key x level) \<longleftrightarrow>
     ok key \<and> level < kMaxHeight \<and> x \<in> set (0 # filter (below sl key) (C level))"
| "reader_ok sl C _ \<longleftrightarrow> True"

definition world_ok :: "'k world \<Rightarrow> (nat \<Rightarrow> nat list) \<Rightarrow> bool" where
  "world_ok w C \<longleftrightarrow> levels_ok compare ok (w_list w) C \<and> writer_ok (w_list w) C (w_writer w) \<and>
     reader_ok (w_list w) C (w_reader w)"

text \<open>A store keeps the reader's place when the levels grow and the keys of the nodes stay.\<close>

lemma reader_ok_mono:
  assumes "reader_ok sl C r" and "\<And>i. set (C i) \<subseteq> set (C' i)"
    and "\<And>i n. n \<in> set (C i) \<Longrightarrow> node_key sl' n = node_key sl n"
  shows "reader_ok sl' C' r"
  using assms by (cases r) auto

lemma before_in: "before P C i \<in> set (0 # C i)"
proof -
  have "before P C i \<in> set (0 # filter P (C i))" unfolding before_def by (rule last_in_set) simp
  then show ?thesis by auto
qed

lemma before_cong:
  assumes "\<And>n. n \<in> set (C i) \<Longrightarrow> node_key sl' n = node_key sl n"
  shows "before (below sl' key) C i = before (below sl key) C i"
  unfolding before_def using assms by (metis (no_types, lifting) filter_cong)

lemma start_ok:
  assumes L: "levels_ok compare ok sl C" and key: "ok key" and "Contains compare sl key = Some False"
    and "FindGreaterOrEqual compare sl key (Some (replicate kMaxHeight 0)) = Some (x, Some prev)"
    and "RandomHeight sl = (height, sl')"
  shows "levels_ok compare ok sl' C" and "writer_ok sl' C (Raise key height prev)" and "node_key sl' = node_key sl"
proof -
  from RandomHeight_bounds [OF assms(5)] have h: "0 < height" "height \<le> kMaxHeight"
    and sl': "\<exists>seed. sl' = sl\<lparr>sl_rnd := seed\<rparr>" by auto
  show keys: "node_key sl' = node_key sl" using sl' by (auto simp: node_key_update)
  show "levels_ok compare ok sl' C" using L sl' by (auto simp: levels_ok_def chain_update node_key_update)
  have "represents compare ok sl (map (node_key sl) (C 0))" using L by (auto simp: represents_def)
  from Contains_result [OF this key] assms(3) have "\<forall>n \<in> set (C 0). compare key (node_key sl n) \<noteq> 0" by simp
  moreover have "length prev = kMaxHeight" "\<forall>j < sl_max_height sl. prev ! j = before (below sl key) C j"
    using assms(4) FindGreaterOrEqual_result [OF L key] levels_okD(2) [OF L] by auto
  moreover have "sl_max_height sl' = sl_max_height sl" using sl' by auto
  ultimately show "writer_ok sl' C (Raise key height prev)" using h key by (simp add: keys)
qed

lemma alloc_ok:
  assumes "levels_ok compare ok sl C" and "writer_ok sl C (Alloc key height prev)" and "NewNode sl key height = (x, sl')"
  shows "linking sl' C x height prev 0"
proof -
  note N = NewNode_ok [OF assms(1,3)]
  have sub: "set (C j) \<subseteq> set (C 0)" for j by (rule levels_subset [OF assms(1)])
  have keys: "node_key sl' n = node_key sl n" if "n \<in> set (C j)" for j n using N(5) sub [of j] that by auto
  have "before (below sl' key) C j = before (below sl key) C j" for j by (rule before_cong) (rule keys)
  then show ?thesis using assms(2) N(2-4,6) keys sub by (fastforce simp: linking_def)
qed

lemma publish_step_ok:
  fixes sl :: "'k SkipList" and C and x i :: nat
  defines "C' \<equiv> C(i := filter (below sl (node_key sl x)) (C i) @ x # filter (\<lambda>n. \<not> below sl (node_key sl x) n) (C i))"
  assumes "levels_ok compare ok sl C" and "writer_ok sl C (Publish x height prev i)"
  shows "levels_ok compare ok (link_publish prev x i sl) C'"
    and "linking (link_publish prev x i sl) C' x height prev (Suc i)"
proof -
  have w: "linking sl C x height prev i" "i < height" "Next sl x i = Next sl (prev ! i) i" using assms(3) by simp_all
  then have p: "prev ! i = before (below sl (node_key sl x)) C i" and x: "has_link sl i x" "ok (node_key sl x)"
    "x \<notin> set (0 # C i)" "i = 0 \<or> x \<in> set (C (i - 1))" "i < sl_max_height sl"
    "\<forall>n \<in> set (C i). compare (node_key sl x) (node_key sl n) \<noteq> 0"
    unfolding linking_def by auto
  have "link_publish prev x i sl = SetNext (SetNext sl x i (Next sl (prev ! i) i)) (prev ! i) i (Some x)"
    using SetNext_same [OF x(1)] w(3) by (simp add: link_publish_def)
  then show "levels_ok compare ok (link_publish prev x i sl) C'"
    using publish_ok [OF assms(2) x(5,1-4,6)] unfolding C'_def p by simp
  show "linking (link_publish prev x i sl) C' x height prev (Suc i)"
    using w(1,2) unfolding linking_def link_publish_def C'_def
    by (auto simp: before_def) (meson Suc_leD)+
qed

lemma raise_step_ok:
  assumes "levels_ok compare ok sl C" and "writer_ok sl C (Raise key height prev)"
    and "raise_height height (prev, sl) = (prev', sl')"
  shows "levels_ok compare ok sl' C" and "writer_ok sl' C (Alloc key height prev')" and "node_key sl' = node_key sl"
proof -
  obtain p s where r: "raise_height height (prev, sl) = (p, s)" "levels_ok compare ok s C" "height \<le> sl_max_height s"
      "\<forall>j < height. p ! j = before (below sl key) C j" "node_key s = node_key sl"
    by (rule raise_height_ok [OF assms(1), of height prev "below sl key"]) (use assms(2) in auto)
  then show "levels_ok compare ok sl' C" "writer_ok sl' C (Alloc key height prev')" "node_key sl' = node_key sl"
    using assms(2,3) by simp_all
qed

lemma own_step_ok:
  assumes "levels_ok compare ok sl C" and "linking sl C x height prev i" and "i < height"
  shows "levels_ok compare ok (link_own prev x i sl) C"
    and "writer_ok (link_own prev x i sl) C (Publish x height prev i)"
proof -
  have x: "x \<notin> set (0 # C i)" "has_link sl i x" and p: "prev ! i \<in> set (0 # C i)"
    using assms(2,3) before_in unfolding linking_def by auto
  then show "levels_ok compare ok (link_own prev x i sl) C"
    unfolding link_own_def by (intro own_ok [OF assms(1)])
  show "writer_ok (link_own prev x i sl) C (Publish x height prev i)"
    using assms(2,3) x p by (auto simp: linking_def link_own_def Next_SetNext before_def)
qed

lemma writer_step_ok:
  assumes "writer_step compare ok w w'" and "world_ok w C"
  shows "\<exists>C'. world_ok w' C' \<and> node_key (w_list w) ` set (C 0) \<subseteq> node_key (w_list w') ` set (C' 0)"
proof -
  have L: "levels_ok compare ok (w_list w) C" and W: "writer_ok (w_list w) C (w_writer w)"
    and R: "reader_ok (w_list w) C (w_reader w)" using assms(2) by (auto simp: world_ok_def)
  have same: "reader_ok sl C (w_reader w)" if "\<And>n. n \<in> set (C 0) \<Longrightarrow> node_key sl n = node_key (w_list w) n" for sl
    by (rule reader_ok_mono [OF R]) (use that levels_subset [OF L] in auto)
  show ?thesis
    using assms(1)
  proof cases
    case (start key x prev height sl)
    with start_ok [OF L start(3-6)] same [of sl] show ?thesis
      by (intro exI [of _ C]) (simp add: world_ok_def)
  next
    case (raise key height prev prev' sl)
    with W have "writer_ok (w_list w) C (Raise key height prev)" by simp
    from raise_step_ok [OF L this raise(3)] raise same [of sl] show ?thesis
      by (intro exI [of _ C]) (simp add: world_ok_def)
  next
    case (alloc key height prev x sl)
    have "node_key sl n = node_key (w_list w) n" if "n \<in> set (C 0)" for n
      using NewNode_ok(5) [OF L alloc(3)] that by simp
    with alloc NewNode_ok(1) [OF L alloc(3)] alloc_ok [OF L _ alloc(3)] W same [of sl] show ?thesis
      by (intro exI [of _ C]) (simp add: world_ok_def)
  next
    case (own x height prev i)
    with own_step_ok [OF L, of x height prev i] W same [of "link_own prev x i (w_list w)"] show ?thesis
      by (intro exI [of _ C]) (simp add: world_ok_def link_own_def)
  next
    case (publish x height prev i)
    let ?sl = "link_publish prev x i (w_list w)"
    define C' where "C' = C(i := filter (below (w_list w) (node_key (w_list w) x)) (C i) @
      x # filter (\<lambda>n. \<not> below (w_list w) (node_key (w_list w) x) n) (C i))"
    have "reader_ok ?sl C' (w_reader w)"
      by (rule reader_ok_mono [OF R]) (auto simp: C'_def link_publish_def)
    with publish publish_step_ok [OF L, of x height prev i, folded C'_def] W show ?thesis
      by (intro exI [of _ C']) (auto simp: world_ok_def link_publish_def C'_def)
  next
    case (finish x height prev)
    with assms(2) show ?thesis by (auto simp: world_ok_def)
  qed
qed

lemma reader_step_ok:
  assumes "reader_step compare ok w w'" and "world_ok w C"
  shows "world_ok w' C"
proof -
  have L: "levels_ok compare ok (w_list w) C" and R: "reader_ok (w_list w) C (w_reader w)"
    using assms(2) by (auto simp: world_ok_def)
  show ?thesis
    using assms(1)
  proof cases
    case (begin_search key)
    with assms(2) levels_okD(1,2) [OF L] show ?thesis by (auto simp: world_ok_def)
  next
    case (stay key x level)
    then obtain y where y: "Next (w_list w) x level = Some y" "below (w_list w) key y"
      by (auto simp: KeyIsAfterNode_def split: option.splits)
    have "y \<in> set (C level)"
      by (rule chain_next [OF levels_okD(3) [OF L] _ y(1)]) (use R stay in auto)
    with assms(2) stay y R show ?thesis by (auto simp: world_ok_def)
  next
    case (down key x level)
    with assms(2) R levels_okD(5) [OF L, of level] show ?thesis by (auto simp: world_ok_def)
  qed (use assms(2) in \<open>auto simp: world_ok_def\<close>)
qed

text \<open>What a search finds is what a search without a writer finds in the list of that moment.\<close>

lemma found_current:
  assumes "world_ok w C" and "w_reader w = Search key x 0"
    and "\<not> KeyIsAfterNode compare (w_list w) key (Next (w_list w) x 0)"
  shows "FindGreaterOrEqual compare (w_list w) key None = Some (Next (w_list w) x 0, None)"
proof -
  let ?sl = "w_list w"
  have L: "levels_ok compare ok ?sl C" and R: "ok key" "x \<in> set (0 # filter (below ?sl key) (C 0))"
    using assms(1,2) by (auto simp: world_ok_def)
  have "search ?sl (KeyIsAfterNode compare ?sl key) x 0 None =
      Some (before (below ?sl key) C 0, first (filter (\<lambda>n. \<not> below ?sl key n) (C 0)), None)"
    using search_level [where P = "below ?sl key" and stay = "KeyIsAfterNode compare ?sl key" and sl = ?sl and C = C
        and i = 0 and x = x and prev = None]
      levels_okD(3) [OF L, of 0] levels_split [OF L R(1), of 0] R(2)
    by (simp add: KeyIsAfterNode_def kMaxHeight_def)
  moreover have "search ?sl (KeyIsAfterNode compare ?sl key) x 0 None = Some (x, Next ?sl x 0, None)"
    using assms(3) by (subst search.simps) simp
  ultimately have "Next ?sl x 0 = first (filter (\<lambda>n. \<not> below ?sl key n) (C 0))"
    by (metis option.inject prod.inject)
  then show ?thesis using FindGreaterOrEqual_result [OF L R(1), of None] by simp
qed

lemma Contains_world:
  assumes "world_ok w C" and "ok key"
  shows "Contains compare (w_list w) key = Some (\<exists>k \<in> node_key (w_list w) ` set (C 0). compare key k = 0)"
proof -
  have "represents compare ok (w_list w) (map (node_key (w_list w)) (C 0))"
    using assms(1) by (auto simp: world_ok_def represents_def)
  from Contains_result [OF this assms(2)] show ?thesis by simp
qed

lemma world_reachable:
  assumes "(world_step compare ok)\<^sup>*\<^sup>* (world_init any_key) w"
  shows "\<exists>C. world_ok w C"
  using assms
proof (induction rule: rtranclp_induct)
  case base
  show ?case using SkipList_new_ok [of compare ok any_key] by (auto simp: world_ok_def world_init_def)
next
  case (step w w')
  then show ?case using writer_step_ok reader_step_ok unfolding world_step_def by blast
qed

lemma world_step_grows:
  assumes "world_ok w C" and "world_step compare ok w w'" and "ok key" and "Contains compare (w_list w) key = Some True"
  shows "Contains compare (w_list w') key = Some True"
proof -
  obtain C' where C': "world_ok w' C'" "node_key (w_list w) ` set (C 0) \<subseteq> node_key (w_list w') ` set (C' 0)"
  proof (cases "writer_step compare ok w w'")
    case True
    then show ?thesis using that writer_step_ok [OF True assms(1)] by blast
  next
    case False
    then have r: "reader_step compare ok w w'" using assms(2) by (simp add: world_step_def)
    then have "w_list w' = w_list w" by cases auto
    then show ?thesis using that reader_step_ok [OF r assms(1)] by auto
  qed
  have "\<exists>k \<in> node_key (w_list w) ` set (C 0). compare key k = 0" using Contains_world [OF assms(1,3)] assms(4) by simp
  with C'(2) have "\<exists>k \<in> node_key (w_list w') ` set (C' 0). compare key k = 0" by blast
  then show ?thesis using Contains_world [OF C'(1) assms(3)] by simp
qed

end

inductive_cases reader_foundE: "reader_step compare ok w w'"


lemma SkipList_new_first: "sl_max_height (SkipList_new any_key) = 1" "Next (SkipList_new any_key) 0 0 = None"
proof -
  have "chain (SkipList_new any_key) 0 0 []"
    using levels_okD(3) [OF SkipList_new_ok [of "\<lambda>_ _. 0" "\<lambda>_. True" any_key], of 0] by (simp add: kMaxHeight_def)
  then show "Next (SkipList_new any_key) 0 0 = None" by simp
  have "sl_max_height (foldl (\<lambda>sl i. SetNext sl head i None) sl is) = sl_max_height sl" for head "is" and sl :: "'a SkipList"
    by (induction "is" arbitrary: sl) simp_all
  then show "sl_max_height (SkipList_new any_key) = 1" by (simp add: SkipList_new_def NewNode_def)
qed


end
