(* ===== verification/Ldb_Memtable.thy ===== *)
theory Ldb_Memtable
  imports Ldb_Skiplist
begin

text \<open>
  The memtable of \<open>db/memtable.cc\<close>: a skip list whose keys are encoded entries, the length-prefixed internal key
  followed by the length-prefixed value. A pointer to an entry is the list of bytes that begins there.

  A memtable is compared with the history of the additions it was built from: a lookup returns the newest
  addition for the user key that is not newer than the snapshot.
\<close>

section \<open>The code\<close>

text \<open>\<open>GetVarint32Ptr(p, p + 5, &len)\<close>: the length and the pointer behind it. The code relies on the entry; on
  bytes that are no varint the pointer would be null.\<close>

definition varint_at :: "byte list \<Rightarrow> uint32 \<times> byte list" where
  "varint_at p =
     (case GetVarint32Ptr (take 5 p) of
        Some (len, r) \<Rightarrow> (len, drop (length (take 5 p) - length r) p)
      | None \<Rightarrow> (0, []))"

definition memtable_slice :: "byte list \<Rightarrow> slice" where
  "memtable_slice data = (let (len, p) = varint_at data in take (unat len) p)"

definition KeyComparator :: "comparator_ops \<Rightarrow> byte list \<Rightarrow> byte list \<Rightarrow> int" where
  "KeyComparator user aptr bptr =
     co_Compare (InternalKeyComparator user) (memtable_slice aptr) (memtable_slice bptr)"

definition EncodeKey :: "slice \<Rightarrow> byte list" where
  "EncodeKey target = PutVarint32 [] (of_nat (length target)) @ target"

record MemTable =
  mt_user :: comparator_ops
  mt_refs :: int
  mt_table :: "byte list SkipList"

definition MemTable_new :: "comparator_ops \<Rightarrow> MemTable" where
  "MemTable_new user = \<lparr>mt_user = user, mt_refs = 0, mt_table = SkipList_new []\<rparr>"

definition MemTable_Ref :: "MemTable \<Rightarrow> MemTable" where
  "MemTable_Ref mt = mt\<lparr>mt_refs := mt_refs mt + 1\<rparr>"

text \<open>\<open>None\<close> is a memtable that has been deleted.\<close>

definition MemTable_Unref :: "MemTable \<Rightarrow> MemTable option" where
  "MemTable_Unref mt =
     (let mt = mt\<lparr>mt_refs := mt_refs mt - 1\<rparr> in if mt_refs mt \<le> 0 then None else Some mt)"

definition MemTable_Add :: "MemTable \<Rightarrow> SequenceNumber \<Rightarrow> ValueType \<Rightarrow> slice \<Rightarrow> slice \<Rightarrow> MemTable option" where
  "MemTable_Add mt s type key val =
     (let internal_key_size = length key + 8;
          buf = EncodeVarint32 (of_nat internal_key_size) @ key @
                EncodeFixed64 True (push_bit 8 s OR ucast (ValueType_num type)) @
                EncodeVarint32 (of_nat (length val)) @ val
      in Option.bind (Insert (KeyComparator (mt_user mt)) (mt_table mt) buf)
           (\<lambda>table. Some (mt\<lparr>mt_table := table\<rparr>)))"

text \<open>The result says whether the key was found, the string stored in \<open>*value\<close> and the status stored in \<open>*s\<close>.\<close>

definition MemTable_Get :: "MemTable \<Rightarrow> LookupKey \<Rightarrow> (bool \<times> slice option \<times> status option) option" where
  "MemTable_Get mt key =
     Option.bind (iter_Seek (KeyComparator (mt_user mt)) (mt_table mt) (memtable_key key)) (\<lambda>iter.
       Some (if iter_Valid iter then
               let entry = iter_key (mt_table mt) iter;
                   (key_length, key_ptr) = varint_at entry
               in if co_Compare (mt_user mt) (take (unat (key_length - 8)) key_ptr) (lookup_user_key key) = 0 then
                    let tag = DecodeFixed64 True (drop (unat key_length - 8) key_ptr);
                        type = ucast (tag AND 0xff)
                    in if type = ValueType_num kTypeValue then
                         (True, Some (memtable_slice (drop (unat key_length) key_ptr)), None)
                       else if type = ValueType_num kTypeDeletion then (True, None, Some (Status_NotFound [] []))
                       else (False, None, None)
                  else (False, None, None)
             else (False, None, None)))"

text \<open>The iterator over a memtable.\<close>

definition MemTableIterator_Seek :: "MemTable \<Rightarrow> slice \<Rightarrow> nat option option" where
  "MemTableIterator_Seek mt k = iter_Seek (KeyComparator (mt_user mt)) (mt_table mt) (EncodeKey k)"

definition MemTableIterator_key :: "MemTable \<Rightarrow> nat option \<Rightarrow> slice" where
  "MemTableIterator_key mt iter = memtable_slice (iter_key (mt_table mt) iter)"

definition MemTableIterator_value :: "MemTable \<Rightarrow> nat option \<Rightarrow> slice" where
  "MemTableIterator_value mt iter =
     (let (len, p) = varint_at (iter_key (mt_table mt) iter) in memtable_slice (drop (unat len) p))"

section \<open>Entries\<close>

record addition =
  a_seq :: SequenceNumber
  a_type :: ValueType
  a_key :: slice
  a_value :: slice

definition a_ikey :: "addition \<Rightarrow> slice" where
  "a_ikey a = ikey (a_key a) (a_seq a) (a_type a)"

definition entry :: "addition \<Rightarrow> byte list" where
  "entry a = EncodeVarint32 (of_nat (length (a_key a) + 8)) @ a_ikey a @
     EncodeVarint32 (of_nat (length (a_value a))) @ a_value a"

definition sized :: "addition \<Rightarrow> bool" where
  "sized a \<longleftrightarrow> a_seq a \<le> kMaxSequenceNumber \<and> length (a_key a) + 8 < 2 ^ 32 \<and> length (a_value a) < 2 ^ 32"

lemma varint_at_enc [simp]: "varint_at (EncodeVarint32 v @ rest) = (v, rest)"
proof -
  let ?e = "EncodeVarint32 v"
  have "length ?e \<le> 5" using unat_less_pow [of v] by (simp add: EncodeVarint32_spec length_varint_spec_le)
  then have "take 5 (?e @ rest) = ?e @ take (5 - length ?e) rest" by simp
  then show ?thesis by (simp add: varint_at_def GetVarint32Ptr_spec)
qed

lemma memtable_slice_enc:
  "length s < 2 ^ 32 \<Longrightarrow> memtable_slice (EncodeVarint32 (of_nat (length s)) @ s @ rest) = s"
  by (simp add: memtable_slice_def unat_of_nat_size)

lemma memtable_slice_entry: "sized a \<Longrightarrow> memtable_slice (entry a) = a_ikey a"
  using memtable_slice_enc [of "a_ikey a"] by (simp add: sized_def entry_def a_ikey_def)

lemma a_ikey_inj:
  assumes "sized a" and "sized b" and "a_ikey a = a_ikey b"
  shows "a_key a = a_key b \<and> a_seq a = a_seq b \<and> a_type a = a_type b"
  using assms Pack_parts [of "a_seq a" "a_type a"] Pack_parts [of "a_seq b" "a_type b"] ValueType_num_inj
  unfolding a_ikey_def ikey_bytes sized_def by (metis ikey_parts)

section \<open>The order of entries\<close>

text \<open>A seek for a target stops at the smallest key that is not smaller than the target.\<close>

context key_order
begin

lemma represents_sorted:
  assumes "represents compare ok sl ks"
  shows "sorted_wrt (\<lambda>a b. compare a b < 0) ks" and "k \<in> set ks \<Longrightarrow> ok k"
  using assms by (auto simp: represents_def sorted_wrt_map levels_ok_def)

lemma seek_place:
  fixes target ks
  defines "p \<equiv> length (filter (\<lambda>k. compare k target < 0) ks)"
  assumes "represents compare ok sl ks" and "ok target"
  shows "p < length ks \<Longrightarrow> \<not> compare (ks ! p) target < 0"
    and "k \<in> set ks \<Longrightarrow> \<not> compare k target < 0 \<Longrightarrow> p < length ks \<and> (k = ks ! p \<or> compare (ks ! p) k < 0)"
proof -
  let ?P = "\<lambda>k. compare k target < 0"
  note S = represents_sorted [OF assms(2)]
  have "sorted_wrt (\<lambda>x y. ?P y \<longrightarrow> ?P x) ks"
    by (rule sorted_wrt_mono_rel [OF _ S(1)]) (use S(2) less_trans assms(3) in blast)
  then have split: "ks = filter ?P ks @ filter (\<lambda>k. \<not> ?P k) ks" by (rule sorted_wrt_split)
  then have nth: "ks ! (p + j) = filter (\<lambda>k. \<not> ?P k) ks ! j" for j
    unfolding p_def by (metis nth_append_length_plus)
  have len: "length ks = p + length (filter (\<lambda>k. \<not> ?P k) ks)"
    unfolding p_def by (metis split length_append)
  show "\<not> ?P (ks ! p)" if "p < length ks"
    using that nth [of 0] len nth_mem [of 0 "filter (\<lambda>k. \<not> ?P k) ks"] by auto
  show "p < length ks \<and> (k = ks ! p \<or> compare (ks ! p) k < 0)" if "k \<in> set ks" "\<not> ?P k"
  proof -
    have "k \<in> set (filter (\<lambda>k. \<not> ?P k) ks)" using that by simp
    then obtain j where j: "j < length (filter (\<lambda>k. \<not> ?P k) ks)" "k = ks ! (p + j)"
      unfolding in_set_conv_nth nth by blast
    then show ?thesis using S(1) len by (cases j) (auto simp: sorted_wrt_iff_nth_less)
  qed
qed

end

context comparator
begin

definition entry_ok :: "byte list \<Rightarrow> bool" where
  "entry_ok e \<longleftrightarrow> internal_ok (memtable_slice e)"

lemma order_key_order: "key_order (co_Compare C) ok"
  by (rule order.key_order_axioms)

end

lemma key_order_image:
  assumes "key_order compare ok"
  shows "key_order (\<lambda>a b. compare (f a) (f b)) (\<lambda>a. ok (f a))"
  using assms unfolding key_order_def by blast

context comparator
begin

lemma entry_order: "key_order (KeyComparator C) entry_ok"
  using key_order_image [OF comparator.order_key_order [OF internal_comparator], of memtable_slice]
  unfolding KeyComparator_def [abs_def] entry_ok_def [abs_def] .

lemma KeyComparator_entries:
  assumes "sized a" and "sized b" and "ok (a_key a)" and "ok (a_key b)"
  shows "KeyComparator C (entry a) (entry b) = 0 \<longleftrightarrow>
      a_key a = a_key b \<and> a_seq a = a_seq b \<and> a_type a = a_type b"
    and "KeyComparator C (entry a) (entry b) < 0 \<longleftrightarrow>
      co_Compare C (a_key a) (a_key b) < 0 \<or> a_key a = a_key b \<and>
      PackSequenceAndType (a_seq b) (a_type b) < PackSequenceAndType (a_seq a) (a_type a)"
proof -
  have i: "internal_ok (a_ikey a)" "internal_ok (a_ikey b)"
    using assms(3,4) by (simp_all add: internal_ok_def a_ikey_def ikey_bytes)
  have c: "KeyComparator C (entry a) (entry b) = InternalKey_Compare C (a_ikey a) (a_ikey b)"
    using assms(1,2) by (simp add: KeyComparator_def memtable_slice_entry InternalKeyComparator_def)
  show "KeyComparator C (entry a) (entry b) = 0 \<longleftrightarrow>
      a_key a = a_key b \<and> a_seq a = a_seq b \<and> a_type a = a_type b"
    unfolding c internal_eq [OF i] using a_ikey_inj [OF assms(1,2)] by (metis a_ikey_def)
  show "KeyComparator C (entry a) (entry b) < 0 \<longleftrightarrow>
      co_Compare C (a_key a) (a_key b) < 0 \<or> a_key a = a_key b \<and>
      PackSequenceAndType (a_seq b) (a_type b) < PackSequenceAndType (a_seq a) (a_type a)"
    unfolding c internal_less [OF i] by (simp add: a_ikey_def ikey_bytes)
qed

lemma entry_ok_entry: "sized a \<Longrightarrow> ok (a_key a) \<Longrightarrow> entry_ok (entry a)"
  by (simp add: entry_ok_def memtable_slice_entry internal_ok_def a_ikey_def ikey_bytes)

end

section \<open>A memtable and its history\<close>

text \<open>The additions have different keys or sequence numbers, and fit their length fields.\<close>

definition history_ok :: "(slice \<Rightarrow> bool) \<Rightarrow> addition list \<Rightarrow> bool" where
  "history_ok ok h \<longleftrightarrow> (\<forall>a \<in> set h. sized a \<and> ok (a_key a)) \<and>
     distinct (map (\<lambda>a. (a_key a, a_seq a)) h)"

fun add_all :: "MemTable \<Rightarrow> addition list \<Rightarrow> MemTable option" where
  "add_all mt [] = Some mt"
| "add_all mt (a # h) =
     Option.bind (MemTable_Add mt (a_seq a) (a_type a) (a_key a) (a_value a)) (\<lambda>mt. add_all mt h)"

text \<open>The newest addition for a key that a snapshot sees.\<close>

fun newest :: "addition list \<Rightarrow> addition option" where
  "newest [] = None"
| "newest (a # h) = (case newest h of None \<Rightarrow> Some a | Some b \<Rightarrow> if a_seq a < a_seq b then Some b else Some a)"

definition visible :: "addition list \<Rightarrow> slice \<Rightarrow> SequenceNumber \<Rightarrow> addition option" where
  "visible h key snapshot = newest (filter (\<lambda>a. a_key a = key \<and> a_seq a \<le> snapshot) h)"

definition lookup_result :: "addition option \<Rightarrow> bool \<times> slice option \<times> status option" where
  "lookup_result r =
     (case r of None \<Rightarrow> (False, None, None)
      | Some a \<Rightarrow> (case a_type a of kTypeValue \<Rightarrow> (True, Some (a_value a), None)
                  | kTypeDeletion \<Rightarrow> (True, None, Some (Status_NotFound [] []))))"

lemma newest_None [simp]: "newest h = None \<longleftrightarrow> h = []"
  by (cases h) (auto split: option.splits)

lemma newest_Some: "newest h = Some a \<Longrightarrow> a \<in> set h \<and> (\<forall>b \<in> set h. a_seq b \<le> a_seq a)"
  by (induction h arbitrary: a) (fastforce split: option.splits if_splits)+

lemma MemTable_Add_entry:
  "MemTable_Add mt (a_seq a) (a_type a) (a_key a) (a_value a) =
     Option.bind (Insert (KeyComparator (mt_user mt)) (mt_table mt) (entry a)) (\<lambda>table. Some (mt\<lparr>mt_table := table\<rparr>))"
  by (simp add: MemTable_Add_def entry_def a_ikey_def ikey_bytes PackSequenceAndType_def EncodeFixed_bytes Let_def)

context comparator
begin

definition holds :: "MemTable \<Rightarrow> addition set \<Rightarrow> bool" where
  "holds mt A \<longleftrightarrow> mt_user mt = C \<and>
     (\<exists>ks. represents (KeyComparator C) entry_ok (mt_table mt) ks \<and> set ks = entry ` A)"

lemma holds_Add:
  assumes "holds mt A" and "\<forall>b \<in> insert a A. sized b \<and> ok (a_key b)"
    and "\<forall>b \<in> A. \<not> (a_key a = a_key b \<and> a_seq a = a_seq b)"
  obtains mt' where "MemTable_Add mt (a_seq a) (a_type a) (a_key a) (a_value a) = Some mt'" and "holds mt' (insert a A)"
proof -
  obtain ks L where ks: "set ks = entry ` A" "mt_user mt = C" "levels_ok (KeyComparator C) entry_ok (mt_table mt) L"
      "ks = map (node_key (mt_table mt)) (L 0)"
    using assms(1) by (auto simp: holds_def represents_def)
  have neq: "\<forall>k \<in> node_key (mt_table mt) ` set (L 0). KeyComparator C (entry a) k \<noteq> 0"
    using ks(1,4) assms(2,3) KeyComparator_entries(1) by auto
  have "entry_ok (entry a)" using assms(2) by (simp add: entry_ok_entry)
  from key_order.Insert_ok [OF entry_order ks(3) this neq] obtain sl L' where
    ins: "Insert (KeyComparator C) (mt_table mt) (entry a) = Some sl" "levels_ok (KeyComparator C) entry_ok sl L'"
      "map (node_key sl) (L' 0) = insert_key (KeyComparator C) (entry a) ks"
    unfolding ks(4) by metis
  have "set (insert_key (KeyComparator C) (entry a) ks) = entry ` insert a A"
    using ks(1) by (auto simp: insert_key_def)
  then have "holds (mt\<lparr>mt_table := sl\<rparr>) (insert a A)"
    unfolding holds_def represents_def using ins(2,3) ks(2) by auto
  moreover have "MemTable_Add mt (a_seq a) (a_type a) (a_key a) (a_value a) = Some (mt\<lparr>mt_table := sl\<rparr>)"
    by (simp add: MemTable_Add_entry ks(2) ins(1))
  ultimately show ?thesis by (rule that [rotated])
qed

lemma holds_new: "holds (MemTable_new C) {}"
  unfolding holds_def represents_def MemTable_new_def using SkipList_new_ok by fastforce

lemma holds_add_all:
  assumes "holds mt (set h')" and "history_ok ok (h' @ h)"
  shows "\<exists>mt'. add_all mt h = Some mt' \<and> holds mt' (set (h' @ h))"
  using assms
proof (induction h arbitrary: mt h')
  case (Cons a h)
  obtain mt1 where mt1: "MemTable_Add mt (a_seq a) (a_type a) (a_key a) (a_value a) = Some mt1"
      "holds mt1 (insert a (set h'))"
    by (rule holds_Add [OF Cons.prems(1), of a]) (use Cons.prems(2) in \<open>auto simp: history_ok_def\<close>)
  have "\<exists>mt'. add_all mt1 h = Some mt' \<and> holds mt' (set ((h' @ [a]) @ h))"
    by (rule Cons.IH) (use mt1(2) Cons.prems(2) in simp_all)
  then show ?case using mt1(1) by simp
qed simp

text \<open>A lookup key is the entry of a value with the sequence number of the snapshot, as far as the comparison looks.\<close>

lemma lookup_slice:
  assumes "length u + 8 < 2 ^ 32" and "snapshot \<le> kMaxSequenceNumber"
  obtains b where "sized b" and "a_key b = u" and "a_seq b = snapshot" and "a_type b = kValueTypeForSeek"
    and "memtable_slice (memtable_key (LookupKey_new u snapshot)) = memtable_slice (entry b)"
proof -
  let ?b = "\<lparr>a_seq = snapshot, a_type = kValueTypeForSeek, a_key = u, a_value = []\<rparr>"
  have b: "sized ?b" using assms by (simp add: sized_def)
  have "memtable_slice (memtable_key (LookupKey_new u snapshot)) = a_ikey ?b"
    using memtable_slice_enc [of "a_ikey ?b" "[]"] assms(1) by (simp add: LookupKey_parts a_ikey_def)
  then show ?thesis using that [of ?b] b by (simp add: memtable_slice_entry)
qed

lemma lookup_ok:
  "\<lbrakk>ok u; length u + 8 < 2 ^ 32; snapshot \<le> kMaxSequenceNumber\<rbrakk> \<Longrightarrow>
    entry_ok (memtable_key (LookupKey_new u snapshot))"
  by (rule lookup_slice [of u snapshot]) (auto simp: entry_ok_def dest: entry_ok_entry)

lemma KeyComparator_lookup:
  assumes "sized a" and "ok (a_key a)" and "ok u" and "length u + 8 < 2 ^ 32" and "snapshot \<le> kMaxSequenceNumber"
  shows "KeyComparator C (entry a) (memtable_key (LookupKey_new u snapshot)) < 0 \<longleftrightarrow>
      co_Compare C (a_key a) u < 0 \<or> a_key a = u \<and> snapshot < a_seq a"
proof -
  obtain b where b: "sized b" "a_key b = u" "a_seq b = snapshot" "a_type b = kValueTypeForSeek"
    and same: "memtable_slice (memtable_key (LookupKey_new u snapshot)) = memtable_slice (entry b)"
    by (rule lookup_slice [OF assms(4,5)])
  have "PackSequenceAndType snapshot kValueTypeForSeek < PackSequenceAndType (a_seq a) (a_type a) \<longleftrightarrow> snapshot < a_seq a"
    using Pack_parts(3) [of snapshot kValueTypeForSeek] Pack_parts(3) [of "a_seq a" "a_type a"] assms(1,5)
    by (cases "a_type a") (auto simp: word_less_nat_alt sized_def kValueTypeForSeek_def)
  then show ?thesis
    using KeyComparator_entries(2) [OF assms(1) b(1) assms(2)] assms(3) b by (simp add: KeyComparator_def same)
qed

lemma Get_at_entry:
  assumes "iter_Seek (KeyComparator C) (mt_table mt) (memtable_key (LookupKey_new u snapshot)) = Some iter"
    and "iter_Valid iter" and "iter_key (mt_table mt) iter = entry a" and "sized a" and "mt_user mt = C"
    and "ok (a_key a)" and "ok u"
  shows "MemTable_Get mt (LookupKey_new u snapshot) = Some (lookup_result (if a_key a = u then Some a else None))"
proof -
  let ?n = "of_nat (length (a_key a) + 8) :: uint32"
  let ?rest = "EncodeVarint32 (of_nat (length (a_value a))) @ a_value a"
  have n: "unat ?n = length (a_key a) + 8" "unat (?n - 8) = length (a_key a)"
    using assms(4) by (simp_all add: sized_def unat_of_nat_size unat_sub_le word_le_nat_alt del: of_nat_add)
  have v: "varint_at (entry a) = (?n, a_ikey a @ ?rest)" unfolding entry_def by (rule varint_at_enc)
  have tag: "DecodeFixed64 True (drop (unat ?n - 8) (a_ikey a @ ?rest)) = PackSequenceAndType (a_seq a) (a_type a)"
    unfolding n by (simp add: a_ikey_def ikey_bytes DecodeFixed64_bytes of_bytes_to_bytes)
  have type: "(ucast (PackSequenceAndType (a_seq a) (a_type a) AND 0xff) :: byte) = ValueType_num (a_type a)"
    using Pack_parts(2) assms(4) by (simp add: sized_def)
  have val: "memtable_slice (drop (unat ?n) (a_ikey a @ ?rest)) = a_value a"
    using memtable_slice_enc [of "a_value a" "[]"] assms(4) unfolding n by (simp add: a_ikey_def sized_def)
  have key: "take (unat (?n - 8)) (a_ikey a @ ?rest) = a_key a"
    unfolding n by (simp add: a_ikey_def ikey_bytes)
  have cmp: "co_Compare C (a_key a) u = 0 \<longleftrightarrow> a_key a = u" using compare_eq assms(6,7) by simp
  show ?thesis
    unfolding MemTable_Get_def assms(5) assms(1) Option.bind.bind_lunit if_P [OF assms(2)] assms(3) v Let_def prod.case
      key LookupKey_parts(2) cmp tag type val
    by (cases "a_type a") (auto simp: lookup_result_def)
qed

lemma Pack_less_seq:
  assumes "sized a" and "sized b" and "PackSequenceAndType (a_seq b) (a_type b) < PackSequenceAndType (a_seq a) (a_type a)"
  shows "a_seq b \<le> a_seq a"
  using assms Pack_parts(3) [of "a_seq a" "a_type a"] Pack_parts(3) [of "a_seq b" "a_type b"]
  by (cases "a_type a"; cases "a_type b") (auto simp: sized_def word_less_nat_alt word_le_nat_alt)

lemma visible_first:
  assumes h: "history_ok ok h" and a: "a \<in> set h" and u: "ok u" "length u + 8 < 2 ^ 32" "snapshot \<le> kMaxSequenceNumber"
    and notless: "\<not> KeyComparator C (entry a) (memtable_key (LookupKey_new u snapshot)) < 0"
    and least: "\<And>b. b \<in> set h \<Longrightarrow> a_key b = u \<Longrightarrow> a_seq b \<le> snapshot \<Longrightarrow>
      entry b = entry a \<or> KeyComparator C (entry a) (entry b) < 0"
  shows "visible h u snapshot = (if a_key a = u then Some a else None)"
proof -
  let ?V = "filter (\<lambda>a. a_key a = u \<and> a_seq a \<le> snapshot) h"
  have hist: "sized b" "ok (a_key b)" if "b \<in> set h" for b using h that by (simp_all add: history_ok_def)
  have uniq: "b = a" if "b \<in> set h" "a_key b = a_key a" "a_seq b = a_seq a" for b
    using h that a inj_onD [of "\<lambda>a. (a_key a, a_seq a)" "set h" b a] by (simp add: history_ok_def distinct_map)
  have least': "b = a \<or> co_Compare C (a_key a) u < 0 \<or> a_key a = u \<and> a_seq b \<le> a_seq a" if "b \<in> set ?V" for b
  proof -
    have b: "b \<in> set h" "a_key b = u" "a_seq b \<le> snapshot" using that by simp_all
    note cmp = KeyComparator_entries [OF hist(1) [OF a] hist(1) [OF b(1)] hist(2) [OF a] hist(2) [OF b(1)]]
    note self = KeyComparator_entries(1) [OF hist(1) [OF a] hist(1) [OF a] hist(2) [OF a] hist(2) [OF a]]
    from least [OF b] show ?thesis
    proof
      assume "entry b = entry a"
      then have "KeyComparator C (entry a) (entry b) = 0" using self by simp
      then show ?thesis using cmp(1) uniq [OF b(1)] by simp
    next
      assume "KeyComparator C (entry a) (entry b) < 0"
      then show ?thesis using cmp(2) b(2) Pack_less_seq [OF hist(1) [OF a] hist(1) [OF b(1)]] by blast
    qed
  qed
  note lk = KeyComparator_lookup [OF hist(1) [OF a] hist(2) [OF a] u]
  show ?thesis
  proof (cases "a_key a = u")
    case True
    have eq0: "\<not> co_Compare C u u < 0" using compare_eq [of u u] u(1) by simp
    have "a_seq a \<le> snapshot" using notless lk True by (simp add: not_less)
    then have V: "a \<in> set ?V" using a True by simp
    then have "newest ?V \<noteq> None" using newest_None [of ?V] by (cases ?V) auto
    then obtain c where c: "newest ?V = Some c" by blast
    note cV = conjunct1 [OF newest_Some [OF c]] bspec [OF conjunct2 [OF newest_Some [OF c]] V]
    from cV have ch: "c \<in> set h" "a_key c = a_key a" using True by simp_all
    have "c = a" using least' [OF cV(1)] eq0 True cV(2) uniq [OF ch] by auto
    with c True show ?thesis by (simp add: visible_def)
  next
    case False
    then have "\<not> co_Compare C (a_key a) u < 0" using notless lk by blast
    then have "b \<notin> set ?V" for b using least' [of b] False by auto
    then have "?V = []" by (cases ?V) auto
    with False show ?thesis by (simp add: visible_def)
  qed
qed

lemma Get_holds:
  assumes "holds mt (set h)" and "history_ok ok h" and "ok u" and "length u + 8 < 2 ^ 32" and "snapshot \<le> kMaxSequenceNumber"
  shows "MemTable_Get mt (LookupKey_new u snapshot) = Some (lookup_result (visible h u snapshot))"
proof -
  let ?cmp = "KeyComparator C" and ?T = "memtable_key (LookupKey_new u snapshot)"
  have hist: "sized a" "ok (a_key a)" if "a \<in> set h" for a using assms(2) that by (simp_all add: history_ok_def)
  obtain ks where ks: "mt_user mt = C" "represents ?cmp entry_ok (mt_table mt) ks" "set ks = entry ` set h"
    using assms(1) by (auto simp: holds_def)
  define p where "p = length (filter (\<lambda>k. ?cmp k ?T < 0) ks)"
  obtain iter where iter: "iter_Seek ?cmp (mt_table mt) ?T = Some iter" "iter_at ?cmp entry_ok (mt_table mt) ks p iter"
    using key_order.iter_at_Seek [OF entry_order ks(2) lookup_ok [OF assms(3-5)]] unfolding p_def by blast
  note seek = key_order.seek_place [OF entry_order ks(2) lookup_ok [OF assms(3-5)], folded p_def]
  have seen: "entry b \<in> set ks" "\<not> ?cmp (entry b) ?T < 0"
    if "b \<in> set h" "a_key b = u" "a_seq b \<le> snapshot" for b
    using that ks(3) KeyComparator_lookup [OF hist [OF that(1)] assms(3-5)] compare_eq [of u u] assms(3) by auto
  show ?thesis
  proof (cases "p < length ks")
    case False
    then have "filter (\<lambda>a. a_key a = u \<and> a_seq a \<le> snapshot) h = []"
      using seen seek(2) unfolding filter_empty_conv by blast
    moreover have "\<not> iter_Valid iter" using iter_at_key(1) [OF iter(2)] False by simp
    ultimately show ?thesis by (simp add: MemTable_Get_def ks(1) iter(1) visible_def lookup_result_def)
  next
    case True
    then have "ks ! p \<in> entry ` set h" using ks(3) nth_mem by blast
    then obtain a where a: "a \<in> set h" "ks ! p = entry a" by blast
    have "visible h u snapshot = (if a_key a = u then Some a else None)"
      by (rule visible_first [OF assms(2) a(1) assms(3-5)]) (use seek(1) [OF True] a(2) seen seek(2) in metis)+
    moreover have "MemTable_Get mt (LookupKey_new u snapshot) = Some (lookup_result (if a_key a = u then Some a else None))"
      by (rule Get_at_entry [OF iter(1)]) (use iter_at_key [OF iter(2)] True a hist ks(1) assms(3) in auto)
    ultimately show ?thesis by simp
  qed
qed

end

section \<open>Properties\<close>

text \<open>C7: a memtable built by any sequence of additions with different keys or sequence numbers answers a lookup of a
  key at a snapshot with the newest addition for that key that is not newer than the snapshot: the value of
  a value, NotFound for a deletion, and nothing when there is no such addition. All additions and lookups
  return.\<close>

theorem memtable_get_newest:
  assumes "comparator user ok" and "history_ok ok h" and "ok u" and "length u + 8 < 2 ^ 32"
    and "snapshot \<le> kMaxSequenceNumber"
  shows "\<exists>mt. add_all (MemTable_new user) h = Some mt \<and>
    MemTable_Get mt (LookupKey_new u snapshot) = Some (lookup_result (visible h u snapshot))"
proof -
  obtain mt where "add_all (MemTable_new user) h = Some mt" "comparator.holds user ok mt (set h)"
    using comparator.holds_add_all [OF assms(1), of "MemTable_new user" "[]" h] assms(2)
      comparator.holds_new [OF assms(1)] by auto
  with comparator.Get_holds [OF assms(1) _ assms(2-5)] show ?thesis by blast
qed

theorem memtable_get_newest_witness:
  "\<exists>mt. add_all (MemTable_new BytewiseComparator)
       [\<lparr>a_seq = 5, a_type = kTypeValue, a_key = [1], a_value = [50]\<rparr>,
        \<lparr>a_seq = 6, a_type = kTypeDeletion, a_key = [2], a_value = []\<rparr>,
        \<lparr>a_seq = 8, a_type = kTypeValue, a_key = [1], a_value = [80]\<rparr>] = Some mt \<and>
     MemTable_Get mt (LookupKey_new [1] 7) = Some (True, Some [50], None)"
  using memtable_get_newest [of BytewiseComparator "\<lambda>_. True"
       "[\<lparr>a_seq = 5, a_type = kTypeValue, a_key = [1], a_value = [50]\<rparr>,
        \<lparr>a_seq = 6, a_type = kTypeDeletion, a_key = [2], a_value = []\<rparr>,
        \<lparr>a_seq = 8, a_type = kTypeValue, a_key = [1], a_value = [80]\<rparr>]" "[1]" 7]
    bytewise.comparator_axioms
  by (simp add: history_ok_def sized_def kMaxSequenceNumber_def visible_def lookup_result_def)

text \<open>The iterator shows an entry as its internal key and its value.\<close>

lemma MemTableIterator_entry:
  assumes "iter_key (mt_table mt) iter = entry a" and "sized a"
  shows "MemTableIterator_key mt iter = a_ikey a" and "MemTableIterator_value mt iter = a_value a"
proof -
  show "MemTableIterator_key mt iter = a_ikey a"
    using assms by (simp add: MemTableIterator_key_def memtable_slice_entry)
  have "unat (of_nat (length (a_key a) + 8) :: uint32) = length (a_ikey a)"
    using assms(2) by (simp add: sized_def unat_of_nat_size a_ikey_def del: of_nat_add)
  moreover have "varint_at (entry a) = (of_nat (length (a_key a) + 8), a_ikey a @
      EncodeVarint32 (of_nat (length (a_value a))) @ a_value a)"
    unfolding entry_def by (rule varint_at_enc)
  ultimately show "MemTableIterator_value mt iter = a_value a"
    using memtable_slice_enc [of "a_value a" "[]"] assms(2)
    by (simp add: MemTableIterator_value_def assms(1) sized_def del: of_nat_add)
qed

end
