(* ===== verification/Ldb_Write_Batch.thy ===== *)
theory Ldb_Write_Batch
  imports Ldb_Memtable Ldb_Log
begin

text \<open>
  Batches of updates, \<open>db/write_batch.cc\<close>. A batch is a string: a sequence number, a count and the updates one after
  the other. The log holds batches as records, and recovery iterates over them again, so that the string has
  to be self-contained: it yields its updates in order, and a string that was cut off is refused.
\<close>

section \<open>The code\<close>

definition kHeader :: nat where
  "kHeader = 12"

type_synonym WriteBatch = "byte list"

definition Batch_Clear :: WriteBatch where
  "Batch_Clear = replicate kHeader 0"

definition Batch_ApproximateSize :: "WriteBatch \<Rightarrow> nat" where
  "Batch_ApproximateSize rep = length rep"

text \<open>Bytes stored into a string at a place.\<close>

definition store_at :: "nat \<Rightarrow> byte list \<Rightarrow> byte list \<Rightarrow> byte list" where
  "store_at i bs xs = take i xs @ bs @ drop (i + length bs) xs"

definition Batch_Count :: "WriteBatch \<Rightarrow> uint32" where
  "Batch_Count rep = DecodeFixed32 True (drop 8 rep)"

definition Batch_SetCount :: "WriteBatch \<Rightarrow> uint32 \<Rightarrow> WriteBatch" where
  "Batch_SetCount rep n = store_at 8 (EncodeFixed32 True n) rep"

definition Batch_Sequence :: "WriteBatch \<Rightarrow> SequenceNumber" where
  "Batch_Sequence rep = DecodeFixed64 True rep"

definition Batch_SetSequence :: "WriteBatch \<Rightarrow> SequenceNumber \<Rightarrow> WriteBatch" where
  "Batch_SetSequence rep seq = store_at 0 (EncodeFixed64 True seq) rep"

definition Batch_Put :: "WriteBatch \<Rightarrow> slice \<Rightarrow> slice \<Rightarrow> WriteBatch" where
  "Batch_Put rep key val =
     (let rep = Batch_SetCount rep (Batch_Count rep + 1);
          rep = rep @ [ValueType_num kTypeValue];
          rep = PutLengthPrefixedSlice rep key
      in PutLengthPrefixedSlice rep val)"

definition Batch_Delete :: "WriteBatch \<Rightarrow> slice \<Rightarrow> WriteBatch" where
  "Batch_Delete rep key =
     (let rep = Batch_SetCount rep (Batch_Count rep + 1);
          rep = rep @ [ValueType_num kTypeDeletion]
      in PutLengthPrefixedSlice rep key)"

definition Batch_Append :: "WriteBatch \<Rightarrow> WriteBatch \<Rightarrow> WriteBatch" where
  "Batch_Append dst src = Batch_SetCount dst (Batch_Count dst + Batch_Count src) @ drop kHeader src"

definition Batch_SetContents :: "slice \<Rightarrow> WriteBatch" where
  "Batch_SetContents contents = contents"

text \<open>A handler has a state of its own, which its two methods change.\<close>

record 'h handler_ops =
  h_Put :: "'h \<Rightarrow> slice \<Rightarrow> slice \<Rightarrow> 'h"
  h_Delete :: "'h \<Rightarrow> slice \<Rightarrow> 'h"

lemma GetVarint32PtrFallback_loop_shorter:
  "GetVarint32PtrFallback_loop shift result p = Some (v, r) \<Longrightarrow> length r < length p"
  by (induction shift result p rule: GetVarint32PtrFallback_loop.induct)
    (subst (asm) (2) GetVarint32PtrFallback_loop.simps, auto simp: Let_def split: if_splits)

lemma GetVarint32_shorter: "GetVarint32 p = Some (v, r) \<Longrightarrow> length r < length p"
  by (auto simp: GetVarint32_def GetVarint32Ptr_def GetVarint32PtrFallback_def
      dest: GetVarint32PtrFallback_loop_shorter split: if_splits)

lemma GetLengthPrefixedSlice_shorter: "GetLengthPrefixedSlice p = Some (s, r) \<Longrightarrow> length r < length p"
  by (auto simp: GetLengthPrefixedSlice_def remove_prefix_def dest!: GetVarint32_shorter split: option.splits if_splits)

function Iterate_loop :: "'h handler_ops \<Rightarrow> 'h \<Rightarrow> uint32 \<Rightarrow> slice \<Rightarrow> (status + uint32) \<times> 'h" where
  "Iterate_loop ops h found input =
     (if input = [] then (Inr found, h)
      else
        let found = found + 1; tag = hd input; input = remove_prefix 1 input
        in if tag = ValueType_num kTypeValue then
             (case GetLengthPrefixedSlice input of
                None \<Rightarrow> (Inl (Status_Corruption (str ''bad WriteBatch Put'') []), h)
              | Some (key, input1) \<Rightarrow>
                  (case GetLengthPrefixedSlice input1 of
                     None \<Rightarrow> (Inl (Status_Corruption (str ''bad WriteBatch Put'') []), h)
                   | Some (val, input2) \<Rightarrow> Iterate_loop ops (h_Put ops h key val) found input2))
           else if tag = ValueType_num kTypeDeletion then
             (case GetLengthPrefixedSlice input of
                None \<Rightarrow> (Inl (Status_Corruption (str ''bad WriteBatch Delete'') []), h)
              | Some (key, input1) \<Rightarrow> Iterate_loop ops (h_Delete ops h key) found input1)
           else (Inl (Status_Corruption (str ''unknown WriteBatch tag'') []), h))"
  by pat_completeness auto
termination
  by (relation "measure (\<lambda>(ops, h, found, input). length input)")
    (auto simp: remove_prefix_def dest!: GetLengthPrefixedSlice_shorter)

declare Iterate_loop.simps [simp del]

definition Iterate :: "'h handler_ops \<Rightarrow> 'h \<Rightarrow> WriteBatch \<Rightarrow> status \<times> 'h" where
  "Iterate ops h rep =
     (let input = rep
      in if length input < kHeader then (Status_Corruption (str ''malformed WriteBatch (too small)'') [], h)
         else
           (case Iterate_loop ops h 0 (remove_prefix kHeader input) of
              (Inl s, h) \<Rightarrow> (s, h)
            | (Inr found, h) \<Rightarrow>
                if found \<noteq> Batch_Count rep then (Status_Corruption (str ''WriteBatch has wrong count'') [], h)
                else (Status_OK, h)))"

text \<open>The handler that adds to a memtable. Its state is the next sequence number and the memtable, \<open>None\<close> once an
  addition has not returned.\<close>

definition MemTableInserter :: "(SequenceNumber \<times> MemTable) option handler_ops" where
  "MemTableInserter =
     \<lparr>h_Put = (\<lambda>h key val. Option.bind h (\<lambda>(seq, mem).
                 Option.bind (MemTable_Add mem seq kTypeValue key val) (\<lambda>mem. Some (seq + 1, mem)))),
      h_Delete = (\<lambda>h key. Option.bind h (\<lambda>(seq, mem).
                 Option.bind (MemTable_Add mem seq kTypeDeletion key []) (\<lambda>mem. Some (seq + 1, mem))))\<rparr>"

definition InsertInto :: "WriteBatch \<Rightarrow> MemTable \<Rightarrow> (status \<times> MemTable) option" where
  "InsertInto rep memtable =
     (let (s, h) = Iterate MemTableInserter (Some (Batch_Sequence rep, memtable)) rep
      in Option.bind h (\<lambda>(seq, mem). Some (s, mem)))"

section \<open>The format\<close>

datatype update = UPut slice slice | UDelete slice

fun update_bytes :: "update \<Rightarrow> byte list" where
  "update_bytes (UPut key val) = 1 # PutLengthPrefixedSlice [] key @ PutLengthPrefixedSlice [] val"
| "update_bytes (UDelete key) = 0 # PutLengthPrefixedSlice [] key"

fun update_sized :: "update \<Rightarrow> bool" where
  "update_sized (UPut key val) \<longleftrightarrow> length key < 2 ^ 32 \<and> length val < 2 ^ 32"
| "update_sized (UDelete key) \<longleftrightarrow> length key < 2 ^ 32"

fun apply_update :: "WriteBatch \<Rightarrow> update \<Rightarrow> WriteBatch" where
  "apply_update rep (UPut key val) = Batch_Put rep key val"
| "apply_update rep (UDelete key) = Batch_Delete rep key"

fun handle :: "'h handler_ops \<Rightarrow> 'h \<Rightarrow> update \<Rightarrow> 'h" where
  "handle ops h (UPut key val) = h_Put ops h key val"
| "handle ops h (UDelete key) = h_Delete ops h key"

definition batch_bytes :: "SequenceNumber \<Rightarrow> uint32 \<Rightarrow> update list \<Rightarrow> WriteBatch" where
  "batch_bytes seq n us = to_bytes 8 seq @ to_bytes 4 n @ concat (map update_bytes us)"

lemma PutLengthPrefixedSlice_append: "PutLengthPrefixedSlice dst s = dst @ PutLengthPrefixedSlice [] s"
  by (simp add: PutLengthPrefixedSlice_def PutVarint32_def)

lemma length_batch_bytes: "kHeader \<le> length (batch_bytes seq n us)"
  by (simp add: batch_bytes_def kHeader_def)

lemma batch_fields [simp]:
  "Batch_Count (batch_bytes seq n us) = n" "Batch_Sequence (batch_bytes seq n us) = seq"
  "remove_prefix kHeader (batch_bytes seq n us) = concat (map update_bytes us)"
  by (simp_all add: Batch_Count_def Batch_Sequence_def batch_bytes_def DecodeFixed32_bytes DecodeFixed64_bytes
      of_bytes_to_bytes remove_prefix_def kHeader_def)

lemma batch_build [simp]:
  "Batch_Clear = batch_bytes 0 0 []"
  "Batch_SetSequence (batch_bytes seq n us) seq' = batch_bytes seq' n us"
  "Batch_SetCount (batch_bytes seq n us) n' = batch_bytes seq n' us"
  "apply_update (batch_bytes seq n us) u = batch_bytes seq (n + 1) (us @ [u])"
  "Batch_Append (batch_bytes seq n us) (batch_bytes seq' n' us') = batch_bytes seq (n + n') (us @ us')"
proof -
  show set_count: "Batch_SetCount (batch_bytes seq n us) n' = batch_bytes seq n' us" for seq n us n'
    by (simp add: Batch_SetCount_def store_at_def batch_bytes_def EncodeFixed_bytes)
  show "Batch_Clear = batch_bytes 0 0 []"
    by (simp add: Batch_Clear_def batch_bytes_def kHeader_def to_bytes_def upt_rec numeral_eq_Suc)
  show "Batch_SetSequence (batch_bytes seq n us) seq' = batch_bytes seq' n us"
    by (simp add: Batch_SetSequence_def store_at_def batch_bytes_def EncodeFixed_bytes)
  show "apply_update (batch_bytes seq n us) u = batch_bytes seq (n + 1) (us @ [u])"
    by (cases u) (simp_all add: Batch_Put_def Batch_Delete_def Let_def set_count,
      simp_all add: PutLengthPrefixedSlice_append [of "_ @ _"] batch_bytes_def)
  show "Batch_Append (batch_bytes seq n us) (batch_bytes seq' n' us') = batch_bytes seq (n + n') (us @ us')"
    by (simp add: Batch_Append_def set_count) (simp add: batch_bytes_def kHeader_def)
qed

section \<open>Iterating over a batch\<close>

lemma Iterate_loop_update:
  assumes "update_sized u"
  shows "Iterate_loop ops h found (update_bytes u @ rest) = Iterate_loop ops (handle ops h u) (found + 1) rest"
  using assms by (subst Iterate_loop.simps, cases u) (simp_all add: remove_prefix_def Let_def)

lemma Iterate_loop_updates:
  assumes "list_all update_sized us"
  shows "Iterate_loop ops h found (concat (map update_bytes us) @ rest) =
    Iterate_loop ops (foldl (handle ops) h us) (found + of_nat (length us)) rest"
  using assms by (induction us arbitrary: h found) (simp_all add: Iterate_loop_update ac_simps)

lemma Iterate_loop_end: "Iterate_loop ops h found [] = (Inr found, h)"
  by (subst Iterate_loop.simps) simp

lemma Iterate_batch:
  assumes "list_all update_sized us"
  shows "Iterate ops h (batch_bytes seq n us) =
    ((if of_nat (length us) = n then Status_OK else Status_Corruption (str ''WriteBatch has wrong count'') []),
     foldl (handle ops) h us)"
  using Iterate_loop_updates [OF assms, of ops h 0 "[]"] length_batch_bytes [of seq n us]
  by (simp add: Iterate_def Let_def Iterate_loop_end)

section \<open>Strings that were cut off\<close>

lemma strict_prefix_varint: "strict_prefix p (varint_spec n) \<Longrightarrow> b \<in> set p \<Longrightarrow> b AND 0x80 \<noteq> 0"
proof (induction n arbitrary: p rule: varint_spec.induct)
  case (1 n)
  show ?case
  proof (cases "n < 128")
    case True
    then have "p = []" using "1.prems"(1) by (cases p) (auto simp: varint_spec_small)
    with "1.prems"(2) show ?thesis by simp
  next
    case False
    define c :: byte where "c = of_nat (n mod 128 + 128)"
    have "varint_spec n = c # varint_spec (n div 128)" using False unfolding c_def by (simp only: varint_spec_large not_less)
    with "1.prems" obtain q where p: "p = c # q" "strict_prefix q (varint_spec (n div 128))"
      by (cases p) simp_all
    with "1.prems"(2) have "b = c \<or> b \<in> set q" by simp
    then show ?thesis
    proof
      assume "b = c"
      then show ?thesis using continuation_bit [of n] unfolding c_def by (simp only: not_False_eq_True)
    qed (rule "1.IH" [OF False p(2)])
  qed
qed

lemma GetVarint32PtrFallback_loop_cut:
  "\<forall>b \<in> set p. b AND 0x80 \<noteq> 0 \<Longrightarrow> GetVarint32PtrFallback_loop shift result p = None"
  by (induction shift result p rule: GetVarint32PtrFallback_loop.induct)
    (subst GetVarint32PtrFallback_loop.simps, auto simp: Let_def neq_Nil_conv)

lemma GetVarint32_cut: "strict_prefix p (EncodeVarint32 v) \<Longrightarrow> GetVarint32 p = None"
  using strict_prefix_varint [of p "unat v"] GetVarint32PtrFallback_loop_cut [of p 0 0]
  by (cases p) (auto simp: GetVarint32_def GetVarint32Ptr_def GetVarint32PtrFallback_def EncodeVarint32_spec)

lemma slice_cut:
  assumes "strict_prefix p (PutLengthPrefixedSlice [] s)" and "length s < 2 ^ 32"
  shows "GetLengthPrefixedSlice p = None"
proof -
  let ?v = "EncodeVarint32 (of_nat (length s))"
  have e: "PutLengthPrefixedSlice [] s = ?v @ s" by (simp add: PutLengthPrefixedSlice_def PutVarint32_def)
  from assms(1) show ?thesis
    unfolding e
  proof (cases rule: strict_prefix_append_cases)
    case 1
    then show ?thesis by (simp add: GetLengthPrefixedSlice_def GetVarint32_cut)
  next
    case (2 q)
    then have "length q < length s" by (simp add: prefix_length_less)
    with 2 assms(2) show ?thesis by (simp add: GetLengthPrefixedSlice_def unat_of_nat_size)
  qed
qed

lemma update_cut:
  assumes "strict_prefix p (update_bytes u)" and "p \<noteq> []" and "update_sized u"
  shows "\<exists>s. Iterate_loop ops h found p = (Inl s, h) \<and> \<not> Status_ok s"
proof (cases u)
  case (UPut key val)
  with assms(1,2) obtain q where p: "p = 1 # q"
    and q: "strict_prefix q (PutLengthPrefixedSlice [] key @ PutLengthPrefixedSlice [] val)" by (cases p) auto
  have sized: "length key < 2 ^ 32" "length val < 2 ^ 32" using assms(3) UPut by simp_all
  from q show ?thesis
  proof (cases rule: strict_prefix_append_cases)
    case 1
    then show ?thesis
      using slice_cut [OF 1 sized(1)] by (subst Iterate_loop.simps) (simp add: p remove_prefix_def Status_ok_simps)
  next
    case (2 q')
    then show ?thesis
      using slice_cut [OF 2(2) sized(2)] sized(1)
      by (subst Iterate_loop.simps) (simp add: p remove_prefix_def Status_ok_simps)
  qed
next
  case (UDelete key)
  with assms(1,2) obtain q where p: "p = 0 # q" and q: "strict_prefix q (PutLengthPrefixedSlice [] key)"
    by (cases p) auto
  then show ?thesis
    using slice_cut [OF q] assms(3) UDelete
    by (subst Iterate_loop.simps) (simp add: p remove_prefix_def Status_ok_simps)
qed

lemma updates_cut:
  assumes "strict_prefix D (concat (map update_bytes us))" and "list_all update_sized us"
  shows "(\<exists>s h'. Iterate_loop ops h found D = (Inl s, h') \<and> \<not> Status_ok s) \<or>
    (\<exists>k h'. k < length us \<and> Iterate_loop ops h found D = (Inr (found + of_nat k), h'))"
  using assms
proof (induction us arbitrary: D h found)
  case (Cons u us)
  from Cons.prems(1) have "strict_prefix D (update_bytes u @ concat (map update_bytes us))" by simp
  then show ?case
  proof (cases rule: strict_prefix_append_cases)
    case 1
    show ?thesis
    proof (cases "D = []")
      case True
      then show ?thesis by (auto simp: Iterate_loop_end intro!: exI [of _ 0])
    next
      case False
      then show ?thesis using update_cut [OF 1 False, of ops h found] Cons.prems(2) by auto
    qed
  next
    case (2 D')
    have step: "Iterate_loop ops h found D = Iterate_loop ops (handle ops h u) (found + 1) D'"
      using 2(1) Iterate_loop_update [of u ops h found D'] Cons.prems(2) by simp
    show ?thesis
      using Cons.IH [OF 2(2), of "handle ops h u" "found + 1"] Cons.prems(2) unfolding step
      by (auto simp: algebra_simps)
  qed
qed simp

lemma of_nat_inj_32: "a < 2 ^ 32 \<Longrightarrow> b < 2 ^ 32 \<Longrightarrow> (of_nat a :: uint32) = of_nat b \<longleftrightarrow> a = b"
proof -
  assume "a < 2 ^ 32" and "b < 2 ^ 32"
  then have "unat (of_nat a :: uint32) = a" and "unat (of_nat b :: uint32) = b" by (simp_all add: unat_of_nat)
  then show ?thesis by metis
qed

lemma batch_cut:
  assumes "strict_prefix D (batch_bytes seq (of_nat (length us)) us)" and "list_all update_sized us" and "length us < 2 ^ 32"
  shows "\<not> Status_ok (fst (Iterate ops h D))"
proof (cases "length D < kHeader")
  case True
  then show ?thesis by (simp add: Iterate_def Status_ok_simps)
next
  case False
  let ?hd = "to_bytes 8 seq @ to_bytes 4 (of_nat (length us) :: uint32)"
  have "strict_prefix D (?hd @ concat (map update_bytes us))" using assms(1) by (simp add: batch_bytes_def)
  then obtain D' where D: "D = ?hd @ D'" "strict_prefix D' (concat (map update_bytes us))"
  proof (cases rule: strict_prefix_append_cases)
    case 1
    then have "length D < 12" using prefix_length_less [OF 1] by simp
    with False show ?thesis by (simp add: kHeader_def)
  qed (use that in blast)
  have c: "Batch_Count D = of_nat (length us)" "remove_prefix kHeader D = D'"
    by (simp_all add: D(1) Batch_Count_def DecodeFixed32_bytes of_bytes_to_bytes remove_prefix_def kHeader_def)
  have "(of_nat k :: uint32) \<noteq> of_nat (length us)" if "k < length us" for k
    using that assms(3) of_nat_inj_32 [of k "length us"] by simp
  with updates_cut [OF D(2) assms(2), of ops h 0] False show ?thesis
    by (auto simp: Iterate_def c Status_ok_simps)
qed

section \<open>Into a memtable\<close>

text \<open>The additions of a batch: consecutive sequence numbers from the number of the batch on.\<close>

fun update_addition :: "SequenceNumber \<Rightarrow> update \<Rightarrow> addition" where
  "update_addition seq (UPut key val) = \<lparr>a_seq = seq, a_type = kTypeValue, a_key = key, a_value = val\<rparr>"
| "update_addition seq (UDelete key) = \<lparr>a_seq = seq, a_type = kTypeDeletion, a_key = key, a_value = []\<rparr>"

fun additions :: "SequenceNumber \<Rightarrow> update list \<Rightarrow> addition list" where
  "additions seq [] = []"
| "additions seq (u # us) = update_addition seq u # additions (seq + 1) us"

lemma foldl_inserter_None: "foldl (handle MemTableInserter) None us = None"
proof (induction us)
  case (Cons u us)
  then show ?case by (cases u) (simp_all add: MemTableInserter_def)
qed simp

lemma handle_inserter:
  "handle MemTableInserter (Some (seq, mt)) u =
     Option.bind (MemTable_Add mt (a_seq (update_addition seq u)) (a_type (update_addition seq u))
       (a_key (update_addition seq u)) (a_value (update_addition seq u))) (\<lambda>mt. Some (seq + 1, mt))"
  by (cases u) (simp_all add: MemTableInserter_def)

lemma foldl_inserter:
  "foldl (handle MemTableInserter) (Some (seq, mt)) us =
     map_option (\<lambda>mt. (seq + of_nat (length us), mt)) (add_all mt (additions seq us))"
proof (induction us arbitrary: seq mt)
  case (Cons u us)
  show ?case
  proof (cases "MemTable_Add mt (a_seq (update_addition seq u)) (a_type (update_addition seq u))
      (a_key (update_addition seq u)) (a_value (update_addition seq u))")
    case None
    then show ?thesis by (simp add: handle_inserter foldl_inserter_None)
  next
    case (Some mt')
    then show ?thesis by (simp add: handle_inserter Cons.IH algebra_simps)
  qed
qed simp

lemma InsertInto_batch:
  assumes "list_all update_sized us"
  shows "InsertInto (batch_bytes seq (of_nat (length us)) us) mt =
    map_option (Pair Status_OK) (add_all mt (additions seq us))"
  using Iterate_batch [OF assms, of MemTableInserter "Some (seq, mt)" seq "of_nat (length us)"]
  by (cases "add_all mt (additions seq us)") (simp_all add: InsertInto_def foldl_inserter)

lemma foldl_apply_update:
  "foldl apply_update (batch_bytes seq n us) us' = batch_bytes seq (n + of_nat (length us')) (us @ us')"
  by (induction us' arbitrary: n us) (simp_all add: algebra_simps)

section \<open>Properties\<close>

text \<open>C8: a batch yields its updates, in order, to any handler, also after other batches were appended to it, and
  into a memtable with consecutive sequence numbers; a batch that was cut at any place is refused.\<close>

theorem write_batch_roundtrip:
  assumes "list_all update_sized (us @ us')" and "length (us @ us') < 2 ^ 32"
    and "rep = Batch_SetSequence (Batch_Append (foldl apply_update Batch_Clear us) (foldl apply_update Batch_Clear us')) seq"
  shows "Iterate ops h rep = (Status_OK, foldl (handle ops) h (us @ us')) \<and>
    Batch_Sequence rep = seq \<and> Batch_Count rep = of_nat (length (us @ us')) \<and>
    InsertInto rep mt = map_option (Pair Status_OK) (add_all mt (additions seq (us @ us'))) \<and>
    (\<forall>D. strict_prefix D rep \<longrightarrow> \<not> Status_ok (fst (Iterate ops h D)))"
proof -
  have rep: "rep = batch_bytes seq (of_nat (length (us @ us'))) (us @ us')"
    by (simp add: assms(3) foldl_apply_update)
  show ?thesis
    unfolding rep
    by (intro conjI allI impI batch_fields Iterate_batch [OF assms(1), THEN trans] InsertInto_batch [OF assms(1)]
        batch_cut [OF _ assms(1,2)]) simp_all
qed

theorem write_batch_roundtrip_witness:
  "Batch_Count (Batch_SetSequence (Batch_Append (Batch_Put Batch_Clear [1] [2]) (Batch_Delete Batch_Clear [3])) 9) = 2 \<and>
   InsertInto (Batch_SetSequence (Batch_Append (Batch_Put Batch_Clear [1] [2]) (Batch_Delete Batch_Clear [3])) 9)
       (MemTable_new BytewiseComparator) =
     map_option (Pair Status_OK) (add_all (MemTable_new BytewiseComparator) (additions 9 [UPut [1] [2], UDelete [3]]))"
  using write_batch_roundtrip [of "[UPut [1] [2]]" "[UDelete [3]]" _ 9 MemTableInserter None "MemTable_new BytewiseComparator"]
  by simp

end
