(* ===== verification/Ldb_Db.thy ===== *)
theory Ldb_Db
  imports Ldb_Write_Batch
begin

text \<open>
  The write path of the database and the recovery of its log, from \<open>db/db_impl.cc\<close>. Writers queue up; the one at
  the front merges the batches of those behind it into a group, gives the group its sequence numbers, adds it
  to the log and then to the memtable. Recovery reads the records of the log and adds them to a new memtable.

  Whether the memory usage of a memtable is within the size of the write buffer is a parameter, \<open>has_room\<close>, and so is
  the writing of a level-0 table. The part of \<open>MakeRoomForWrite\<close> that switches to a new log and memtable is not
  modelled: a write that finds no room has no result here.
\<close>

section \<open>The write path\<close>

record WriteRequest =
  wr_batch :: "WriteBatch option"
  wr_sync :: bool

record 'f db =
  db_log :: "'f Writer"
  db_mem :: MemTable
  db_last_sequence :: SequenceNumber
  db_bg_error :: status

text \<open>The loop over the writers behind the first one. \<open>tmp\<close> is \<open>tmp_batch_\<close> once the group has left the batch of the
  first writer, \<open>last_writer\<close> counts the writers behind the first that have joined.\<close>

fun BuildBatchGroup_loop ::
  "bool \<Rightarrow> WriteBatch \<Rightarrow> size_t \<Rightarrow> size_t \<Rightarrow> WriteBatch option \<Rightarrow> nat \<Rightarrow> WriteRequest list \<Rightarrow>
    WriteBatch option \<times> nat" where
  "BuildBatchGroup_loop first_sync first_batch max_size group_size tmp last_writer [] = (tmp, last_writer)"
| "BuildBatchGroup_loop first_sync first_batch max_size group_size tmp last_writer (w # ws) =
     (if wr_sync w \<and> \<not> first_sync then (tmp, last_writer)
      else
        (case wr_batch w of
           Some b \<Rightarrow>
             let group_size = group_size + of_nat (length b)
             in if group_size > max_size then (tmp, last_writer)
                else
                  let result = (case tmp of None \<Rightarrow> Batch_Append Batch_Clear first_batch | Some t \<Rightarrow> t)
                  in BuildBatchGroup_loop first_sync first_batch max_size group_size (Some (Batch_Append result b))
                       (last_writer + 1) ws
         | None \<Rightarrow>
             BuildBatchGroup_loop first_sync first_batch max_size group_size tmp (last_writer + 1) ws))"

definition BuildBatchGroup :: "bool \<Rightarrow> WriteBatch \<Rightarrow> WriteRequest list \<Rightarrow> WriteBatch \<times> nat" where
  "BuildBatchGroup first_sync first_batch ws =
     (let sz = of_nat (length first_batch) :: size_t;
          max_size = (if sz \<le> push_bit 10 128 then sz + push_bit 10 128 else push_bit 20 1);
          (tmp, last_writer) = BuildBatchGroup_loop first_sync first_batch max_size sz None 0 ws
      in (case tmp of None \<Rightarrow> first_batch | Some t \<Rightarrow> t, last_writer))"

text \<open>The two ways out of the loop of \<open>MakeRoomForWrite\<close> that leave the memtable and the log alone: an earlier error,
  or room in the memtable. \<open>None\<close> is the rest of the loop.\<close>

definition MakeRoomForWrite :: "(MemTable \<Rightarrow> bool) \<Rightarrow> 'f db \<Rightarrow> status option" where
  "MakeRoomForWrite has_room db =
     (if \<not> Status_ok (db_bg_error db) then Some (db_bg_error db)
      else if has_room (db_mem db) then Some Status_OK else None)"

definition RecordBackgroundError :: "'f db \<Rightarrow> status \<Rightarrow> 'f db" where
  "RecordBackgroundError db s = (if Status_ok (db_bg_error db) then db\<lparr>db_bg_error := s\<rparr> else db)"

text \<open>What the writer at the front of the queue does, with the writers behind it, for a batch that is not null. The
  result has the status that the writers of the group get, and the writers that stay in the queue.\<close>

definition db_Write ::
  "(MemTable \<Rightarrow> bool) \<Rightarrow> 'f wfile_ops \<Rightarrow> ('f \<Rightarrow> status \<times> 'f) \<Rightarrow> 'f db \<Rightarrow> WriteBatch \<Rightarrow> bool \<Rightarrow> WriteRequest list \<Rightarrow>
    (status \<times> 'f db \<times> WriteRequest list) option" where
  "db_Write has_room ops file_Sync db my_batch sync ws =
     Option.bind (MakeRoomForWrite has_room db) (\<lambda>status.
       if \<not> Status_ok status then Some (status, db, ws)
       else
         let last_sequence = db_last_sequence db;
             (updates, last_writer) = BuildBatchGroup sync my_batch ws;
             updates = Batch_SetSequence updates (last_sequence + 1);
             last_sequence = last_sequence + scast (Batch_Count updates);
             (status, log) = AddRecord ops (db_log db) updates;
             (status, sync_error, log) =
               (if Status_ok status \<and> sync then
                  let (status, dest) = file_Sync (lw_dest log)
                  in (status, \<not> Status_ok status, log\<lparr>lw_dest := dest\<rparr>)
                else (status, False, log))
         in Option.bind (if Status_ok status then InsertInto updates (db_mem db) else Some (status, db_mem db))
              (\<lambda>(status, mem).
                 let db = db\<lparr>db_log := log, db_mem := mem\<rparr>;
                     db = (if sync_error then RecordBackgroundError db status else db);
                     db = db\<lparr>db_last_sequence := last_sequence\<rparr>
                 in Some (status, db, drop last_writer ws)))"

section \<open>Recovery of a log\<close>

definition MaybeIgnoreError :: "bool \<Rightarrow> status \<Rightarrow> status" where
  "MaybeIgnoreError paranoid_checks s = (if Status_ok s \<or> paranoid_checks then s else Status_OK)"

text \<open>\<open>LogReporter::Corruption\<close>: the first report becomes the status when checks are paranoid.\<close>

definition LogReporter_Corruption :: "bool \<Rightarrow> status \<Rightarrow> status \<Rightarrow> status" where
  "LogReporter_Corruption paranoid_checks status s =
     (if paranoid_checks \<and> Status_ok status then s else status)"

record 's recovery =
  rc_status :: status
  rc_mem :: "MemTable option"
  rc_max_sequence :: SequenceNumber
  rc_compactions :: nat
  rc_save_manifest :: bool
  rc_level0 :: 's

text \<open>A new memtable with the reference of the database.\<close>

definition mem_new :: "comparator_ops \<Rightarrow> MemTable" where
  "mem_new user = MemTable_Ref (MemTable_new user)"

definition mem_or_new :: "comparator_ops \<Rightarrow> MemTable option \<Rightarrow> MemTable" where
  "mem_or_new user mem = (case mem of None \<Rightarrow> mem_new user | Some mem \<Rightarrow> mem)"

text \<open>One record of the log. The result says whether the loop goes on.\<close>

definition recover_record ::
  "bool \<Rightarrow> comparator_ops \<Rightarrow> (MemTable \<Rightarrow> bool) \<Rightarrow> (MemTable \<Rightarrow> 's \<Rightarrow> status \<times> 's) \<Rightarrow> slice \<Rightarrow> 's recovery \<Rightarrow>
    (bool \<times> 's recovery) option" where
  "recover_record paranoid_checks user has_room WriteLevel0Table record_slice rc =
     (if length record_slice < 12 then
        Some (True, rc\<lparr>rc_status := LogReporter_Corruption paranoid_checks (rc_status rc)
                         (Status_Corruption (str ''log record too small'') [])\<rparr>)
      else
        let batch = Batch_SetContents record_slice; mem = mem_or_new user (rc_mem rc)
        in Option.bind (InsertInto batch mem) (\<lambda>(status, mem).
             let status = MaybeIgnoreError paranoid_checks status;
                 rc = rc\<lparr>rc_status := status, rc_mem := Some mem\<rparr>
             in Some
                  (if \<not> Status_ok status then (False, rc)
                   else
                     let last_seq = Batch_Sequence batch + scast (Batch_Count batch) - 1;
                         rc = (if last_seq > rc_max_sequence rc then rc\<lparr>rc_max_sequence := last_seq\<rparr> else rc)
                     in if \<not> has_room mem then
                          let (status, level0) = WriteLevel0Table mem (rc_level0 rc)
                          in (Status_ok status,
                              rc\<lparr>rc_compactions := rc_compactions rc + 1, rc_save_manifest := True,
                                 rc_status := status, rc_mem := None, rc_level0 := level0\<rparr>)
                        else (True, rc))))"

text \<open>The loop. The reports of the reader during a call reach the status before the condition looks at it.\<close>

partial_function (option) RecoverLogFile_loop ::
  "'f rfile_ops \<Rightarrow> bool \<Rightarrow> comparator_ops \<Rightarrow> (MemTable \<Rightarrow> bool) \<Rightarrow> (MemTable \<Rightarrow> 's \<Rightarrow> status \<times> 's) \<Rightarrow>
    'f Reader \<Rightarrow> 's recovery \<Rightarrow> 's recovery option" where
  "RecoverLogFile_loop ops paranoid_checks user has_room WriteLevel0Table rd rc =
     Option.bind (ReadRecord ops rd) (\<lambda>(r, rd').
       let reports = drop (length (lr_reports rd)) (lr_reports rd');
           rc = rc\<lparr>rc_status := foldl (LogReporter_Corruption paranoid_checks) (rc_status rc) (map snd reports)\<rparr>
       in case r of
            None \<Rightarrow> Some rc
          | Some record_slice \<Rightarrow>
              if \<not> Status_ok (rc_status rc) then Some rc
              else
                Option.bind (recover_record paranoid_checks user has_room WriteLevel0Table record_slice rc)
                  (\<lambda>(go_on, rc).
                     if go_on then RecoverLogFile_loop ops paranoid_checks user has_room WriteLevel0Table rd' rc
                     else Some rc))"

text \<open>After the loop: the log is kept in use, or the memtable becomes a table. \<open>reopened\<close> is the writer on the end of
  the file, if the calls that get its size and open it succeed.\<close>

definition recover_finish ::
  "bool \<Rightarrow> bool \<Rightarrow> 'w Writer option \<Rightarrow> comparator_ops \<Rightarrow> (MemTable \<Rightarrow> 's \<Rightarrow> status \<times> 's) \<Rightarrow> 's recovery \<Rightarrow>
    's recovery \<times> ('w Writer \<times> MemTable) option" where
  "recover_finish reuse_logs last_log reopened user WriteLevel0Table rc =
     (let (kept, mem) =
            (if Status_ok (rc_status rc) \<and> reuse_logs \<and> last_log \<and> rc_compactions rc = 0 then
               (case reopened of
                  Some log \<Rightarrow> (Some (log, mem_or_new user (rc_mem rc)), None)
                | None \<Rightarrow> (None, rc_mem rc))
             else (None, rc_mem rc))
      in case mem of
           None \<Rightarrow> (rc\<lparr>rc_mem := None\<rparr>, kept)
         | Some mem \<Rightarrow>
             if Status_ok (rc_status rc) then
               let (status, level0) = WriteLevel0Table mem (rc_level0 rc)
               in (rc\<lparr>rc_mem := None, rc_save_manifest := True, rc_status := status, rc_level0 := level0\<rparr>, kept)
             else (rc\<lparr>rc_mem := None\<rparr>, kept))"

text \<open>The whole function, from the outcome of opening the file on.\<close>

definition RecoverLogFile ::
  "'f rfile_ops \<Rightarrow> bool \<Rightarrow> bool \<Rightarrow> bool \<Rightarrow> 'w Writer option \<Rightarrow> comparator_ops \<Rightarrow> (MemTable \<Rightarrow> bool) \<Rightarrow>
    (MemTable \<Rightarrow> 's \<Rightarrow> status \<times> 's) \<Rightarrow> (status + 'f) \<Rightarrow> SequenceNumber \<Rightarrow> bool \<Rightarrow> 's \<Rightarrow>
    ('s recovery \<times> ('w Writer \<times> MemTable) option) option" where
  "RecoverLogFile ops paranoid_checks reuse_logs last_log reopened user has_room WriteLevel0Table opened
     max_sequence save_manifest level0 =
     (let rc = \<lparr>rc_status = Status_OK, rc_mem = None, rc_max_sequence = max_sequence, rc_compactions = 0,
                rc_save_manifest = save_manifest, rc_level0 = level0\<rparr>
      in case opened of
           Inl status \<Rightarrow> Some (rc\<lparr>rc_status := MaybeIgnoreError paranoid_checks status\<rparr>, None)
         | Inr file \<Rightarrow>
             Option.bind (RecoverLogFile_loop ops paranoid_checks user has_room WriteLevel0Table
                            (Reader_new file True True 0) rc)
               (\<lambda>rc. Some (recover_finish reuse_logs last_log reopened user WriteLevel0Table rc)))"

section \<open>Groups of writers\<close>

text \<open>A client hands in updates, and whether to synchronise the log; its batch is built with \<open>Put\<close> and \<open>Delete\<close>.\<close>

type_synonym client = "update list \<times> bool"

definition client_batch :: "update list \<Rightarrow> WriteBatch" where
  "client_batch us = foldl apply_update Batch_Clear us"

definition request :: "client \<Rightarrow> WriteRequest" where
  "request c = \<lparr>wr_batch = Some (client_batch (fst c)), wr_sync = snd c\<rparr>"

lemma client_batch_bytes: "client_batch us = batch_bytes 0 (of_nat (length us)) us"
  by (simp add: client_batch_def foldl_apply_update)

lemma client_batch_Append: "Batch_Append (client_batch us) (client_batch vs) = client_batch (us @ vs)"
  by (simp add: client_batch_bytes)

lemma Batch_Append_Clear: "Batch_Append Batch_Clear (client_batch us) = client_batch us"
  using client_batch_Append [of "[]" us] by (simp add: client_batch_def)

lemma BuildBatchGroup_loop_clients:
  assumes "(case tmp of None \<Rightarrow> B | Some t \<Rightarrow> t) = client_batch us"
  shows "\<exists>n tmp'. n \<le> length q \<and>
    BuildBatchGroup_loop first_sync B max_size group_size tmp k (map request q) = (tmp', k + n) \<and>
    (case tmp' of None \<Rightarrow> B | Some t \<Rightarrow> t) = client_batch (us @ concat (map fst (take n q))) \<and>
    list_all (\<lambda>c. snd c \<longrightarrow> first_sync) (take n q)"
  using assms
proof (induction q arbitrary: group_size tmp k us)
  case Nil
  then show ?case by simp
next
  case (Cons c q)
  let ?b = "client_batch (fst c)" and ?size = "group_size + of_nat (length (client_batch (fst c)))"
  let ?r = "case tmp of None \<Rightarrow> Batch_Append Batch_Clear B | Some t \<Rightarrow> t"
  show ?case
  proof (cases "(snd c \<and> \<not> first_sync) \<or> ?size > max_size")
    case True
    then have "BuildBatchGroup_loop first_sync B max_size group_size tmp k (map request (c # q)) = (tmp, k)"
      by (auto simp: request_def Let_def)
    then show ?thesis using Cons.prems by (intro exI [of _ 0] exI [of _ tmp]) simp
  next
    case False
    have "?r = client_batch us" using Cons.prems Batch_Append_Clear by (cases tmp) auto
    then have "(case Some (Batch_Append ?r ?b) of None \<Rightarrow> B | Some t \<Rightarrow> t) = client_batch (us @ fst c)"
      by (simp add: client_batch_Append)
    from Cons.IH [OF this, of ?size "k + 1"] obtain n tmp' where
      1: "n \<le> length q" "BuildBatchGroup_loop first_sync B max_size ?size (Some (Batch_Append ?r ?b)) (k + 1) (map request q) =
          (tmp', k + 1 + n)"
        "(case tmp' of None \<Rightarrow> B | Some t \<Rightarrow> t) = client_batch ((us @ fst c) @ concat (map fst (take n q)))"
        "list_all (\<lambda>c. snd c \<longrightarrow> first_sync) (take n q)" by blast
    from False have "BuildBatchGroup_loop first_sync B max_size group_size tmp k (map request (c # q)) =
        BuildBatchGroup_loop first_sync B max_size ?size (Some (Batch_Append ?r ?b)) (k + 1) (map request q)"
      by (auto simp: request_def Let_def)
    with 1 False show ?thesis by (intro exI [of _ "Suc n"] exI [of _ tmp']) simp
  qed
qed

lemma BuildBatchGroup_clients:
  obtains n where "n \<le> length q"
    and "BuildBatchGroup sync (client_batch us) (map request q) = (client_batch (us @ concat (map fst (take n q))), n)"
    and "list_all (\<lambda>c. snd c \<longrightarrow> sync) (take n q)"
proof -
  let ?B = "client_batch us"
  let ?sz = "of_nat (length ?B) :: size_t"
  let ?max = "if ?sz \<le> push_bit 10 128 then ?sz + push_bit 10 128 else push_bit 20 1"
  from BuildBatchGroup_loop_clients [of ?B None us q sync ?max ?sz 0] obtain n tmp' where
    "n \<le> length q" "BuildBatchGroup_loop sync ?B ?max ?sz None 0 (map request q) = (tmp', n)"
    "(case tmp' of None \<Rightarrow> ?B | Some t \<Rightarrow> t) = client_batch (us @ concat (map fst (take n q)))"
    "list_all (\<lambda>c. snd c \<longrightarrow> sync) (take n q)" by auto
  then show ?thesis by (intro that [of n]) (simp_all add: BuildBatchGroup_def Let_def)
qed

end
