(* ===== verification/Ldb_Recovery.thy ===== *)
theory Ldb_Recovery
  imports Ldb_Db
begin

text \<open>
  Writes and recovery together. Clients hand in updates, in any order and at any time; the writer at the front
  serves a group of them. At some moment the machine stops, perhaps in the middle of a write, and what is left of the
  log is a prefix of what was in the file, at least what had been synchronised. Recovery then finds a prefix of the
  batches, in the order in which they were served, each of them whole or not at all.
\<close>

section \<open>Histories\<close>

lemma additions_append: "additions seq (us @ vs) = additions seq us @ additions (seq + of_nat (length us)) vs"
  by (induction us arbitrary: seq) (simp_all add: algebra_simps)

lemma add_all_append: "add_all mt (h @ h') = Option.bind (add_all mt h) (\<lambda>mt. add_all mt h')"
  by (induction h arbitrary: mt) (simp_all add: bind_assoc)

fun update_key :: "update \<Rightarrow> slice" where
  "update_key (UPut key val) = key"
| "update_key (UDelete key) = key"

text \<open>Updates whose keys the comparator covers and whose lengths fit the formats.\<close>

definition updates_ok :: "(slice \<Rightarrow> bool) \<Rightarrow> update list \<Rightarrow> bool" where
  "updates_ok ok us \<longleftrightarrow> list_all (\<lambda>u. update_sized u \<and> length (update_key u) + 8 < 2 ^ 32 \<and> ok (update_key u)) us"

lemma updates_ok_sized: "updates_ok ok us \<Longrightarrow> list_all update_sized us"
  by (auto simp: updates_ok_def list_all_iff)

lemma updates_ok_append [simp]: "updates_ok ok (us @ vs) \<longleftrightarrow> updates_ok ok us \<and> updates_ok ok vs"
  by (simp add: updates_ok_def)

lemma addition_fields:
  "a_key (update_addition seq u) = update_key u" "a_seq (update_addition seq u) = seq"
  "update_sized u \<Longrightarrow> length (update_key u) + 8 < 2 ^ 32 \<Longrightarrow> seq \<le> kMaxSequenceNumber \<Longrightarrow> sized (update_addition seq u)"
  by (cases u; simp add: sized_def)+

lemma additions_nth: "additions seq us = map (\<lambda>i. update_addition (seq + of_nat i) (us ! i)) [0..<length us]"
proof (induction us rule: rev_induct)
  case (snoc u us)
  then show ?case by (simp add: additions_append nth_append)
qed simp

lemma seq_bound:
  fixes seq :: SequenceNumber
  assumes "i < n" and "unat seq + n < 2 ^ 32"
  shows "unat (seq + of_nat i) = unat seq + i" and "seq + of_nat i \<le> kMaxSequenceNumber"
proof -
  have "unat (of_nat i :: SequenceNumber) = i"
    by (subst unat_of_nat_size) (use assms in simp_all)
  then show u: "unat (seq + of_nat i) = unat seq + i" using assms by (simp add: unat_word_ariths(1))
  have "unat kMaxSequenceNumber = 2 ^ 56 - 1" by (simp add: kMaxSequenceNumber_def)
  then show "seq + of_nat i \<le> kMaxSequenceNumber"
    using assms unfolding word_le_nat_alt u by simp
qed

lemma additions_seq:
  assumes "a \<in> set (additions seq us)" and "unat seq + length us < 2 ^ 32"
  shows "unat seq \<le> unat (a_seq a) \<and> unat (a_seq a) < unat seq + length us"
  using assms seq_bound(1) [OF _ assms(2)] by (auto simp: additions_nth addition_fields)

lemma history_ok_additions:
  assumes "updates_ok ok us" and "unat seq + length us < 2 ^ 32"
  shows "history_ok ok (additions seq us)"
  unfolding history_ok_def
proof (intro conjI ballI)
  fix a
  assume "a \<in> set (additions seq us)"
  then obtain i where i: "i < length us" "a = update_addition (seq + of_nat i) (us ! i)"
    by (auto simp: additions_nth)
  have "update_sized (us ! i) \<and> length (update_key (us ! i)) + 8 < 2 ^ 32 \<and> ok (update_key (us ! i))"
    using assms(1) i(1) by (simp add: updates_ok_def list_all_length)
  then show "sized a" "ok (a_key a)"
    unfolding i(2) using addition_fields seq_bound(2) [OF i(1) assms(2)] by simp_all
next
  have "inj_on (\<lambda>i. seq + of_nat i) {0..<length us}"
    by (rule inj_onI) (use seq_bound(1) [OF _ assms(2)] in \<open>metis atLeastLessThan_iff add_left_cancel\<close>)
  then have "inj_on (\<lambda>i. (update_key (us ! i), seq + of_nat i)) {0..<length us}"
    by (auto simp: inj_on_def)
  then show "distinct (map (\<lambda>a. (a_key a, a_seq a)) (additions seq us))"
    by (simp add: additions_nth comp_def addition_fields distinct_map)
qed

text \<open>The memtable that a sequence of updates leads to.\<close>

definition mem_after :: "comparator_ops \<Rightarrow> update list \<Rightarrow> MemTable option" where
  "mem_after user us = add_all (mem_new user) (additions 1 us)"

lemma mem_after_append:
  "mem_after user us = Some m \<Longrightarrow> mem_after user (us @ vs) = add_all m (additions (1 + of_nat (length us)) vs)"
  by (simp add: mem_after_def additions_append add_all_append)

lemma mem_after_Nil [simp]: "mem_after user [] = Some (mem_new user)"
  by (simp add: mem_after_def)

context comparator
begin

lemma holds_Ref: "holds mt A \<Longrightarrow> holds (MemTable_Ref mt) A"
  by (simp add: holds_def MemTable_Ref_def)

lemma mem_after_holds:
  assumes "updates_ok ok us" and "length us < 2 ^ 31"
  obtains m where "mem_after C us = Some m" and "holds m (set (additions 1 us))"
proof -
  have "holds (mem_new C) (set [])" using holds_Ref [OF holds_new] by (simp add: mem_new_def)
  from holds_add_all [OF this, of "additions 1 us"] history_ok_additions [OF assms(1), of 1] assms(2) show ?thesis
    using that by (auto simp: mem_after_def)
qed

end

section \<open>The log of a sequence of groups\<close>

fun group_records :: "SequenceNumber \<Rightarrow> update list list \<Rightarrow> slice list" where
  "group_records seq [] = []"
| "group_records seq (g # gs) = batch_bytes seq (of_nat (length g)) g # group_records (seq + of_nat (length g)) gs"

lemma length_group_records [simp]: "length (group_records seq gs) = length gs"
  by (induction gs arbitrary: seq) simp_all

lemma group_records_snoc:
  "group_records seq (gs @ [g]) =
     group_records seq gs @ [batch_bytes (seq + of_nat (length (concat gs))) (of_nat (length g)) g]"
  by (induction gs arbitrary: seq) (simp_all add: algebra_simps)

fun log_off :: "nat \<Rightarrow> slice list \<Rightarrow> nat" where
  "log_off off [] = off"
| "log_off off (r # rs) = log_off (snd (fragments off True r)) rs"

lemma log_off_snoc: "log_off off (rs @ [r]) = snd (fragments (log_off off rs) True r)"
  by (induction rs arbitrary: off) simp_all

lemma log_bytes_snoc:
  "log_bytes off (rs @ [r]) = log_bytes off rs @ concat (map frag_bytes (fst (fragments (log_off off rs) True r)))"
  by (induction rs arbitrary: off) (simp_all add: split_beta)

lemma log_bytes_take_mono: "i \<le> j \<Longrightarrow> length (log_bytes off (take i rs)) \<le> length (log_bytes off (take j rs))"
  using log_bytes_take [of off i "take j rs"] by (simp add: min_def)

definition log_holds :: "PosixWritableFile Writer \<Rightarrow> slice list \<Rightarrow> bool" where
  "log_holds w rs \<longleftrightarrow> log_dest.writer_ok w \<and> lw_block_offset w = log_off 0 rs \<and> lw_block_offset w \<le> kBlockSize \<and>
     wf_written (lw_dest w) = log_bytes 0 rs"

lemma log_holds_disk: "log_holds w rs \<Longrightarrow> wf_disk (lw_dest w) = log_bytes 0 rs"
  by (simp add: log_holds_def log_dest.writer_ok_def)

lemma log_holds_AddRecord:
  assumes "log_holds w rs" and "AddRecord posix_ops w r = (s, w')"
  shows "prefix (wf_disk (lw_dest w')) (log_bytes 0 (rs @ [r])) \<and> (Status_ok s \<longrightarrow> log_holds w' (rs @ [r]))"
  using log_dest.AddRecord_loop_effect [of w True r s w'] assms
  by (auto simp: log_holds_def log_dest_ops AddRecord_def log_bytes_snoc log_off_snoc)

text \<open>Adding a record only appends to the file, and leaves the synchronised part alone.\<close>

definition file_grows :: "PosixWritableFile \<Rightarrow> PosixWritableFile \<Rightarrow> bool" where
  "file_grows f f' \<longleftrightarrow> prefix (wf_disk f) (wf_disk f') \<and> wf_synced f' = wf_synced f"

lemma file_grows_trans [trans]: "file_grows f g \<Longrightarrow> file_grows g h \<Longrightarrow> file_grows f h"
  by (auto simp: file_grows_def dest: prefix_order.order_trans)

lemma file_grows_buf [simp]:
  "file_grows (f\<lparr>wf_buf := b\<rparr>) g \<longleftrightarrow> file_grows f g" "file_grows f (g\<lparr>wf_buf := b\<rparr>) \<longleftrightarrow> file_grows f g" "file_grows f f"
  by (simp_all add: file_grows_def)

lemma WriteUnbuffered_grows: "file_grows f (snd (WriteUnbuffered f data))"
proof (cases "WriteUnbuffered f data")
  case (Pair s f')
  from WriteUnbuffered_effect [OF this] obtain k os where "f' = f\<lparr>wf_disk := wf_disk f @ take k data, wf_os := os\<rparr>"
    by blast
  with Pair show ?thesis by (simp add: file_grows_def)
qed

lemma FlushBuffer_grows: "file_grows f (snd (FlushBuffer f))"
  by (simp add: FlushBuffer_def split_beta WriteUnbuffered_grows)

lemma Append_grows: "file_grows f (snd (Append f data))"
proof -
  define n where "n = min (length data) (kWritableFileBufferSize - length (wf_buf f))"
  define f0 where "f0 = f\<lparr>wf_buf := wf_buf f @ take n data\<rparr>"
  have flush: "file_grows f (snd (FlushBuffer f0))" using FlushBuffer_grows [of f0] by (simp add: f0_def)
  then have "file_grows f (snd (WriteUnbuffered (snd (FlushBuffer f0)) (drop n data)))"
    using WriteUnbuffered_grows by (rule file_grows_trans)
  with flush show ?thesis
    unfolding Append_def Let_def n_def [symmetric] f0_def [symmetric] by (simp add: split_beta) (simp add: f0_def)
qed

lemma Flush_grows: "file_grows f (snd (Flush f))"
  by (simp add: Flush_def FlushBuffer_grows)

lemma switch_block_grows: "file_grows (lw_dest w) (lw_dest (switch_block posix_ops w))"
  by (simp add: switch_block_def Let_def posix_ops_def Append_grows)

lemma EmitPhysicalRecord_grows: "file_grows (lw_dest w) (lw_dest (snd (EmitPhysicalRecord posix_ops w t data)))"
  by (simp add: EmitPhysicalRecord_def Let_def posix_ops_def split_beta Append_grows)
    (meson file_grows_trans Append_grows Flush_grows)

lemma AddRecord_loop_grows: "file_grows (lw_dest w) (lw_dest (snd (AddRecord_loop posix_ops w beginning data)))"
proof -
  have "ops = posix_ops \<Longrightarrow> file_grows (lw_dest w) (lw_dest (snd (AddRecord_loop ops w beginning data)))" for ops
  proof (induction ops w beginning data rule: AddRecord_loop.induct)
    case (1 ops w beginning data)
    define avail where "avail = kBlockSize - lw_block_offset (switch_block ops w) - kHeaderSize"
    define n where "n = (if length data < avail then length data else avail)"
    define e where "e = EmitPhysicalRecord ops (switch_block ops w) (fragment_type beginning (length data = n)) (take n data)"
    have e: "file_grows (lw_dest w) (lw_dest (snd e))"
      using switch_block_grows EmitPhysicalRecord_grows unfolding e_def "1.prems" by (rule file_grows_trans)
    have step: "AddRecord_loop ops w beginning data =
        (if Status_ok (fst e) \<and> drop n data \<noteq> [] then AddRecord_loop ops (snd e) False (drop n data) else e)"
      unfolding AddRecord_loop.simps [of ops w] Let_def split_beta avail_def [symmetric] n_def [symmetric] e_def [symmetric]
      by simp
    show ?case
      using file_grows_trans [OF e "1.IH" [OF refl avail_def n_def refl e_def prod.collapse refl _ "1.prems"]] e
      unfolding step by (simp split: if_split)
  qed
  then show ?thesis by simp
qed

lemma AddRecord_grows: "AddRecord posix_ops w r = (s, w') \<Longrightarrow> file_grows (lw_dest w) (lw_dest w')"
  using AddRecord_loop_grows [of w True r] by (simp add: AddRecord_def)

lemma Sync_effect:
  assumes "Sync f = (s, f')"
  shows "prefix (wf_disk f) (wf_disk f') \<and> prefix (wf_disk f') (wf_written f) \<and>
    (if Status_ok s then wf_buf f' = [] \<and> wf_disk f' = wf_written f \<and> wf_synced f' = length (wf_disk f')
     else wf_synced f' = wf_synced f)"
proof -
  obtain s1 g where g: "SyncDirIfManifest f = (s1, g)" by fastforce
  then have w: "wf_written g = wf_written f" "wf_disk g = wf_disk f" "wf_synced g = wf_synced f"
    by (auto simp: SyncDirIfManifest_def wf_written_def split: if_splits prod.splits sys_answer.splits)
  obtain s2 h where h: "FlushBuffer g = (s2, h)" by fastforce
  have gr: "file_grows g h" using FlushBuffer_grows [of g] h by simp
  obtain s3 os where "SyncFd (wf_os h) (wf_filename h) = (s3, os)" by fastforce
  with assms g h FlushBuffer_effect [OF h] gr w show ?thesis
    by (auto simp: Sync_def wf_written_def file_grows_def split: if_splits)
qed

lemma log_holds_Sync:
  assumes "log_holds w rs" and "Sync (lw_dest w) = (s, f)"
  shows "prefix (wf_disk (lw_dest w)) (wf_disk f) \<and> prefix (wf_disk f) (log_bytes 0 rs) \<and>
    (if Status_ok s then log_holds (w\<lparr>lw_dest := f\<rparr>) rs \<and> wf_synced f = length (log_bytes 0 rs)
     else wf_synced f = wf_synced (lw_dest w))"
  using Sync_effect [OF assms(2)] assms(1)
  by (auto simp: log_holds_def log_dest.writer_ok_def wf_inv_def wf_written_def split: if_splits)

section \<open>Sessions\<close>

record session =
  ss_db :: "PosixWritableFile db"
  ss_queue :: "client list"
  ss_finished :: "(client \<times> status) list"

definition session_new :: "comparator_ops \<Rightarrow> PosixWritableFile \<Rightarrow> session" where
  "session_new user f =
     \<lparr>ss_db = \<lparr>db_log = Writer_new f, db_mem = mem_new user, db_last_sequence = 0, db_bg_error = Status_OK\<rparr>,
      ss_queue = [], ss_finished = []\<rparr>"

text \<open>A client joins the queue, or the one at its front serves a group of clients.\<close>

inductive db_step :: "(MemTable \<Rightarrow> bool) \<Rightarrow> session \<Rightarrow> session \<Rightarrow> bool" for has_room where
  arrive: "db_step has_room S (S\<lparr>ss_queue := ss_queue S @ [c]\<rparr>)"
| serve: "\<lbrakk>ss_queue S = c # q;
    db_Write has_room posix_ops Sync (ss_db S) (client_batch (fst c)) (snd c) (map request q) = Some (s, db, ws);
    n = length q - length ws\<rbrakk> \<Longrightarrow>
    db_step has_room S \<lparr>ss_db = db, ss_queue = drop n q,
      ss_finished = ss_finished S @ map (\<lambda>c. (c, s)) (c # take n q)\<rparr>"

definition acked :: "session \<Rightarrow> bool" where
  "acked S \<longleftrightarrow> list_all (\<lambda>(c, s). Status_ok s) (ss_finished S)"

text \<open>The runs up to the first write that reports an error: it may be the last step.\<close>

inductive db_run :: "(MemTable \<Rightarrow> bool) \<Rightarrow> comparator_ops \<Rightarrow> session \<Rightarrow> bool" for has_room user where
  start: "wf_disk f = [] \<Longrightarrow> wf_buf f = [] \<Longrightarrow> wf_synced f = 0 \<Longrightarrow> db_run has_room user (session_new user f)"
| step: "db_run has_room user S \<Longrightarrow> acked S \<Longrightarrow> db_step has_room S S' \<Longrightarrow> db_run has_room user S'"

definition finished_updates :: "session \<Rightarrow> update list" where
  "finished_updates S = concat (map (\<lambda>(c, s). fst c) (ss_finished S))"

definition group_updates :: "client list \<Rightarrow> update list" where
  "group_updates g = concat (map fst g)"

definition records_of :: "client list list \<Rightarrow> slice list" where
  "records_of gs = group_records 1 (map group_updates gs)"

definition updates_of :: "client list list \<Rightarrow> update list" where
  "updates_of gs = concat (map group_updates gs)"

lemma records_of_snoc:
  "records_of (gs @ [g]) = records_of gs @ [batch_bytes (1 + of_nat (length (updates_of gs)))
     (of_nat (length (group_updates g))) (group_updates g)]"
  by (simp add: records_of_def updates_of_def group_records_snoc)

lemma updates_of_simps [simp]: "updates_of [] = []" "updates_of (gs @ hs) = updates_of gs @ updates_of hs"
    "updates_of [g] = group_updates g"
  by (simp_all add: updates_of_def)

lemma updates_of_concat: "updates_of gs = concat (map fst (concat gs))"
  by (induction gs) (simp_all add: updates_of_def group_updates_def)

lemma length_records_of [simp]: "length (records_of gs) = length gs"
  by (simp add: records_of_def)

lemma group_records_take: "take i (group_records seq us) = group_records seq (take i us)"
  by (induction us arbitrary: i seq) (simp_all add: take_Cons split: nat.split)

lemma records_of_take: "take i (records_of gs) = records_of (take i gs)"
  by (simp add: records_of_def group_records_take take_map)

section \<open>One write\<close>

lemma scast_count:
  assumes "n < 2 ^ 31"
  shows "(scast (of_nat n :: uint32) :: uint64) = of_nat n"
proof -
  have "take_bit 32 n = n" using assms by (simp add: take_bit_nat_eq_self)
  then have "sint (of_nat n :: uint32) = int n"
    using assms by (simp add: sint_uint unsigned_of_nat signed_take_bit_int_eq_self take_bit_int_eq_self)
  then show ?thesis by (simp add: scast_eq)
qed

context comparator
begin

lemma db_Write_group:
  assumes db: "log_holds (db_log db) rs" "Status_ok (db_bg_error db)" "has_room (db_mem db)"
      "db_last_sequence db = of_nat (length us)" "mem_after C us = Some (db_mem db)"
    and group: "BuildBatchGroup sync (client_batch (fst c)) (map request q) = (client_batch vs, n)"
    and fits: "updates_ok ok (us @ vs)" "length (us @ vs) < 2 ^ 31"
  defines "r \<equiv> batch_bytes (1 + of_nat (length us)) (of_nat (length vs)) vs"
  obtains s db' where
    "db_Write has_room posix_ops Sync db (client_batch (fst c)) sync (map request q) = Some (s, db', map request (drop n q))"
    and "prefix (wf_disk (lw_dest (db_log db))) (wf_disk (lw_dest (db_log db')))"
    and "prefix (wf_disk (lw_dest (db_log db'))) (log_bytes 0 (rs @ [r]))"
    and "\<not> Status_ok s \<or> \<not> sync \<Longrightarrow> wf_synced (lw_dest (db_log db')) = wf_synced (lw_dest (db_log db))"
    and "Status_ok s \<Longrightarrow> log_holds (db_log db') (rs @ [r]) \<and> mem_after C (us @ vs) = Some (db_mem db') \<and>
      db_last_sequence db' = of_nat (length (us @ vs)) \<and> db_bg_error db' = db_bg_error db \<and>
      (sync \<longrightarrow> wf_synced (lw_dest (db_log db')) = length (log_bytes 0 (rs @ [r])))"
proof -
  obtain s1 w1 where w1: "AddRecord posix_ops (db_log db) r = (s1, w1)" by fastforce
  obtain s2 f2 where f2: "Sync (lw_dest w1) = (s2, f2)" by fastforce
  obtain m where m: "mem_after C (us @ vs) = Some m" by (rule mem_after_holds [OF fits]) simp
  note add = log_holds_AddRecord [OF db(1) w1] AddRecord_grows [OF w1, unfolded file_grows_def]
  have rep: "Batch_SetSequence (client_batch vs) (db_last_sequence db + 1) = r"
    by (simp add: r_def client_batch_bytes db(4) add.commute)
  have count: "Batch_Count r = of_nat (length vs)" by (simp add: r_def)
  have seq: "db_last_sequence db + scast (Batch_Count r) = of_nat (length (us @ vs))"
    unfolding count using fits(2) by (simp add: scast_count db(4))
  have ins: "InsertInto r (db_mem db) = Some (Status_OK, m)"
    using InsertInto_batch [OF updates_ok_sized, of ok vs "1 + of_nat (length us)" "db_mem db"] fits(1) m
    by (simp add: r_def mem_after_append [OF db(5)])
  define db1 where "db1 = db\<lparr>db_log := w1, db_last_sequence := of_nat (length (us @ vs))\<rparr>"
  define db2 where "db2 = db1\<lparr>db_log := w1\<lparr>lw_dest := f2\<rparr>\<rparr>"
  have run: "db_Write has_room posix_ops Sync db (client_batch (fst c)) sync (map request q) =
      (if \<not> Status_ok s1 then Some (s1, db1, map request (drop n q))
       else if \<not> sync then Some (Status_OK, db1\<lparr>db_mem := m\<rparr>, map request (drop n q))
       else if Status_ok s2 then Some (Status_OK, db2\<lparr>db_mem := m\<rparr>, map request (drop n q))
       else Some (s2, db2\<lparr>db_bg_error := s2\<rparr>, map request (drop n q)))"
    using db(2,3) ins w1 f2
    by (auto simp: db_Write_def MakeRoomForWrite_def group rep Let_def seq db1_def db2_def RecordBackgroundError_def drop_map)
  consider "\<not> Status_ok s1" | "Status_ok s1" "\<not> sync" | "Status_ok s1" "sync" "Status_ok s2"
    | "Status_ok s1" "sync" "\<not> Status_ok s2" by blast
  then show ?thesis
  proof cases
    case 1
    with run add show ?thesis by (intro that [of s1 db1]) (simp_all add: db1_def)
  next
    case 2
    with run add m show ?thesis by (intro that [of Status_OK "db1\<lparr>db_mem := m\<rparr>"]) (simp_all add: db1_def)
  next
    case 3
    then have h: "log_holds w1 (rs @ [r])" using add(1) by simp
    from 3 run add m log_holds_Sync [OF h f2] show ?thesis
      by (intro that [of Status_OK "db2\<lparr>db_mem := m\<rparr>"]) (auto simp: db1_def db2_def)
  next
    case 4
    then have h: "log_holds w1 (rs @ [r])" using add(1) by simp
    from 4 run add log_holds_Sync [OF h f2] show ?thesis
      by (intro that [of s2 "db2\<lparr>db_bg_error := s2\<rparr>"]) (auto simp: db1_def db2_def)
  qed
qed

end

section \<open>What a run leaves behind\<close>

text \<open>Groups with a client that asked for it have been synchronised.\<close>

definition durable :: "client list list \<Rightarrow> nat \<Rightarrow> bool" where
  "durable gs synced \<longleftrightarrow>
     (\<forall>i < length gs. list_ex snd (gs ! i) \<longrightarrow> length (log_bytes 0 (records_of (take (Suc i) gs))) \<le> synced)"

text \<open>The memtable had room before each group.\<close>

definition roomy :: "(MemTable \<Rightarrow> bool) \<Rightarrow> comparator_ops \<Rightarrow> client list list \<Rightarrow> bool" where
  "roomy has_room user gs \<longleftrightarrow>
     (\<forall>i < length gs. \<exists>m. mem_after user (updates_of (take i gs)) = Some m \<and> has_room m)"

lemma durable_snoc:
  assumes "durable gs n" and "n \<le> n'" and "list_ex snd g \<Longrightarrow> length (log_bytes 0 (records_of (gs @ [g]))) \<le> n'"
  shows "durable (gs @ [g]) n'"
  using assms by (auto simp: durable_def nth_append less_Suc_eq)

lemma roomy_snoc:
  assumes "roomy has_room user gs" and "mem_after user (updates_of gs) = Some m" and "has_room m"
  shows "roomy has_room user (gs @ [g])"
  using assms by (auto simp: roomy_def less_Suc_eq)

text \<open>\<open>gs\<close> are the groups that were acknowledged, \<open>failed\<close> the group that got the error \<open>s\<close>, if any.\<close>

definition left_behind ::
  "(MemTable \<Rightarrow> bool) \<Rightarrow> comparator_ops \<Rightarrow> session \<Rightarrow> client list list \<Rightarrow> client list list \<Rightarrow> status \<Rightarrow> bool" where
  "left_behind has_room user S gs failed s \<longleftrightarrow>
     ss_finished S = map (\<lambda>c. (c, Status_OK)) (concat gs) @ map (\<lambda>c. (c, s)) (concat failed) \<and>
     (failed \<noteq> [] \<longrightarrow> \<not> Status_ok s) \<and>
     prefix (log_bytes 0 (records_of gs)) (wf_disk (lw_dest (db_log (ss_db S)))) \<and>
     prefix (wf_disk (lw_dest (db_log (ss_db S)))) (log_bytes 0 (records_of (gs @ failed))) \<and>
     durable gs (wf_synced (lw_dest (db_log (ss_db S)))) \<and> roomy has_room user (gs @ failed) \<and>
     wf_synced (lw_dest (db_log (ss_db S))) \<le> length (wf_disk (lw_dest (db_log (ss_db S))))"

definition running :: "(MemTable \<Rightarrow> bool) \<Rightarrow> comparator_ops \<Rightarrow> session \<Rightarrow> client list list \<Rightarrow> bool" where
  "running has_room user S gs \<longleftrightarrow>
     left_behind has_room user S gs [] Status_OK \<and> log_holds (db_log (ss_db S)) (records_of gs) \<and>
     Status_ok (db_bg_error (ss_db S)) \<and> db_last_sequence (ss_db S) = of_nat (length (updates_of gs)) \<and>
     mem_after user (updates_of gs) = Some (db_mem (ss_db S))"

lemma running_start:
  assumes "wf_disk f = []" and "wf_buf f = []" and "wf_synced f = 0"
  shows "running has_room user (session_new user f) []"
  using assms
  by (simp add: running_def left_behind_def session_new_def durable_def roomy_def records_of_def log_holds_def
      log_dest.writer_ok_def Writer_new_def wf_inv_def wf_written_def)

lemma running_arrive:
  "running has_room user S gs \<Longrightarrow> running has_room user (S\<lparr>ss_queue := ss_queue S @ [c]\<rparr>) gs"
  by (simp add: running_def left_behind_def)

lemma finished_updates_behind:
  "left_behind has_room user S gs failed s \<Longrightarrow> finished_updates S = updates_of (gs @ failed)"
  by (simp add: left_behind_def finished_updates_def updates_of_concat comp_def)

lemma running_behind: "running has_room user S gs \<Longrightarrow> left_behind has_room user S gs [] Status_OK"
  by (simp add: running_def)

lemma running_acked: "running has_room user S gs \<Longrightarrow> acked S"
  by (simp add: running_def left_behind_def acked_def list_all_iff)

lemma log_bytes_snoc_prefix: "prefix (log_bytes off rs) (log_bytes off (rs @ [r]))"
  by (simp add: log_bytes_snoc)

context comparator
begin

lemma serve_effect:
  assumes run: "running has_room C S gs" and q: "ss_queue S = c # q"
    and w: "db_Write has_room posix_ops Sync (ss_db S) (client_batch (fst c)) (snd c) (map request q) = Some (s, db, ws)"
    and S': "S' = \<lparr>ss_db = db, ss_queue = drop (length q - length ws) q,
      ss_finished = ss_finished S @ map (\<lambda>c. (c, s)) (c # take (length q - length ws) q)\<rparr>"
    and fits: "updates_ok ok (finished_updates S')" "length (finished_updates S') < 2 ^ 31"
  shows "\<exists>g. if Status_ok s then running has_room C S' (gs @ [g]) else left_behind has_room C S' gs [g] s"
proof -
  let ?us = "updates_of gs" and ?dest = "lw_dest (db_log (ss_db S))"
  note R = run [unfolded running_def left_behind_def]
  obtain n where n: "n \<le> length q"
      "BuildBatchGroup (snd c) (client_batch (fst c)) (map request q) = (client_batch (fst c @ concat (map fst (take n q))), n)"
      "list_all (\<lambda>d. snd d \<longrightarrow> snd c) (take n q)"
    by (rule BuildBatchGroup_clients)
  define g where "g = c # take n q"
  have vs: "fst c @ concat (map fst (take n q)) = group_updates g" by (simp add: g_def group_updates_def)
  have room: "has_room (db_mem (ss_db S))"
    using w R by (auto simp: db_Write_def MakeRoomForWrite_def split: if_splits)
  have ws: "length q - length ws = n"
    using w R room n(1,2) by (auto simp: db_Write_def MakeRoomForWrite_def Let_def split_beta split: if_splits bind_splits)
  have upd: "finished_updates S' = ?us @ group_updates g"
    using R by (simp add: S' ws finished_updates_def updates_of_concat g_def group_updates_def comp_def)
  obtain s' db' where W:
    "db_Write has_room posix_ops Sync (ss_db S) (client_batch (fst c)) (snd c) (map request q) = Some (s', db', map request (drop n q))"
    "prefix (wf_disk ?dest) (wf_disk (lw_dest (db_log db')))"
    "prefix (wf_disk (lw_dest (db_log db'))) (log_bytes 0 (records_of (gs @ [g])))"
    "\<not> Status_ok s' \<or> \<not> snd c \<Longrightarrow> wf_synced (lw_dest (db_log db')) = wf_synced ?dest"
    "Status_ok s' \<Longrightarrow> log_holds (db_log db') (records_of (gs @ [g])) \<and>
      mem_after C (?us @ group_updates g) = Some (db_mem db') \<and>
      db_last_sequence db' = of_nat (length (?us @ group_updates g)) \<and> db_bg_error db' = db_bg_error (ss_db S) \<and>
      (snd c \<longrightarrow> wf_synced (lw_dest (db_log db')) = length (log_bytes 0 (records_of (gs @ [g]))))"
    unfolding records_of_snoc
    by (rule db_Write_group [of "ss_db S" "records_of gs" has_room ?us "snd c" c q "group_updates g" n])
      (use R room n(2) vs upd fits in simp_all)
  then have eq: "s' = s" "db' = db" using w by simp_all
  have fin: "ss_finished S' = map (\<lambda>c. (c, Status_OK)) (concat gs) @ map (\<lambda>c. (c, s)) g"
    using R by (simp add: S' ws g_def)
  have roomy: "roomy has_room C (gs @ [g])" using R room by (auto intro: roomy_snoc)
  have disk: "prefix (log_bytes 0 (records_of gs)) (wf_disk (lw_dest (db_log db)))"
    using W(2) R eq by (auto dest: prefix_order.order_trans)
  have longer: "length (log_bytes 0 (records_of gs)) \<le> length (log_bytes 0 (records_of (gs @ [g])))"
    unfolding records_of_snoc by (rule prefix_length_le [OF log_bytes_snoc_prefix])
  have sync: "list_ex snd g \<Longrightarrow> snd c" using n(3) by (auto simp: g_def list_ex_iff list_all_iff)
  show ?thesis
  proof (cases "Status_ok s")
    case True
    note ok = W(5) [unfolded eq, OF True]
    have synced: "wf_synced ?dest \<le> wf_synced (lw_dest (db_log db)) \<and>
        (snd c \<longrightarrow> wf_synced (lw_dest (db_log db)) = length (log_bytes 0 (records_of (gs @ [g])))) \<and>
        wf_synced (lw_dest (db_log db)) \<le> length (log_bytes 0 (records_of (gs @ [g])))"
      using ok R longer log_holds_disk [of "db_log (ss_db S)" "records_of gs"] W(4) [unfolded eq] by (cases "snd c") auto
    have "durable (gs @ [g]) (wf_synced (lw_dest (db_log db)))"
      by (rule durable_snoc [of gs "wf_synced ?dest"]) (use R synced sync in auto)
    with True ok R fin roomy synced log_holds_disk [of "db_log db" "records_of (gs @ [g])"] have "running has_room C S' (gs @ [g])"
      by (simp add: running_def left_behind_def S' Status_ok_def Status_OK_def)
    with True show ?thesis by auto
  next
    case False
    have "left_behind has_room C S' gs [g] s"
      using False R fin roomy disk W(3,4) eq prefix_length_le [OF W(2)] by (simp add: left_behind_def S')
    with False show ?thesis by auto
  qed
qed

lemma db_run_left:
  assumes "db_run has_room C S" and "updates_ok ok (finished_updates S)" and "length (finished_updates S) < 2 ^ 31"
  shows "\<exists>gs failed s. left_behind has_room C S gs failed s \<and> (acked S \<longrightarrow> failed = [] \<and> running has_room C S gs)"
  using assms
proof (induction S rule: db_run.induct)
  case (start f)
  from running_start [OF start(1-3)] show ?case using running_behind by blast
next
  case (step S S')
  from step.hyps(3) obtain vs where vs: "finished_updates S' = finished_updates S @ vs"
    by cases (auto simp: finished_updates_def)
  with step.IH step.prems step.hyps(2) obtain gs where run: "running has_room C S gs" by auto
  from step.hyps(3) show ?case
  proof cases
    case (arrive c)
    with running_arrive [OF run, of c] show ?thesis using running_behind by blast
  next
    case (serve c q s db ws n)
    from serve_effect [OF run serve(2,3) serve(1) [unfolded serve(4)] step.prems] obtain g where
      g: "if Status_ok s then running has_room C S' (gs @ [g]) else left_behind has_room C S' gs [g] s" by blast
    show ?thesis
    proof (cases "Status_ok s")
      case True
      with g have "running has_room C S' (gs @ [g])" by simp
      then show ?thesis using running_behind by blast
    next
      case False
      then have "\<not> acked S'" using serve(1) by (simp add: acked_def)
      with g False show ?thesis by auto
    qed
  qed
qed

end

section \<open>Recovery of a prefix of a log\<close>

lemma recover_batch:
  assumes "updates_ok ok vs" and "length vs < 2 ^ 31"
    and "mem_or_new user (rc_mem rc) = m" and "add_all m (additions seq vs) = Some m'" and "has_room m'"
    and "rc_max_sequence rc = seq - 1" and "unat seq + length vs < 2 ^ 63" and "0 < unat seq" and "rc_status rc = Status_OK"
  shows "recover_record paranoid user has_room WL (batch_bytes seq (of_nat (length vs)) vs) rc =
    Some (True, rc\<lparr>rc_mem := Some m', rc_max_sequence := seq - 1 + of_nat (length vs)\<rparr>)"
proof -
  let ?b = "batch_bytes seq (of_nat (length vs)) vs"
  have long: "\<not> length ?b < 12" using length_batch_bytes [of seq "of_nat (length vs)" vs] by (simp add: kHeader_def)
  have ins: "InsertInto ?b m = Some (Status_OK, m')"
    using InsertInto_batch [OF updates_ok_sized [OF assms(1)]] assms(4) by simp
  have last: "seq + scast (of_nat (length vs) :: uint32) - 1 = seq - 1 + of_nat (length vs)"
    using assms(2) by (simp add: scast_count)
  have u: "unat (seq - 1) = unat seq - 1" using assms(8) by (simp add: unat_minus_one unat_gt_0)
  have l: "unat (of_nat (length vs) :: uint64) = length vs" by (subst unat_of_nat_size) (use assms(2) in simp_all)
  have sum: "unat (seq - 1 + of_nat (length vs)) = unat seq - 1 + length vs"
    using assms(7,8) by (simp add: unat_word_ariths(1) u l)
  have max: "(if seq - 1 + of_nat (length vs) > rc_max_sequence rc
      then rc\<lparr>rc_mem := Some m', rc_max_sequence := seq - 1 + of_nat (length vs)\<rparr> else rc\<lparr>rc_mem := Some m'\<rparr>) =
      rc\<lparr>rc_mem := Some m', rc_max_sequence := seq - 1 + of_nat (length vs)\<rparr>"
  proof (cases "vs = []")
    case False
    then have "seq - 1 + of_nat (length vs) > rc_max_sequence rc"
      by (simp add: word_less_nat_alt assms(6) sum u)
    then show ?thesis by simp
  qed (simp add: assms(6) [symmetric])
  have "rc\<lparr>rc_status := Status_OK, rc_mem := Some m'\<rparr> = rc\<lparr>rc_mem := Some m'\<rparr>" by (simp add: assms(9) [symmetric])
  then show ?thesis
    using long ins assms(3,5) max
    by (simp add: recover_record_def Batch_SetContents_def MaybeIgnoreError_def Let_def last split: if_split_asm)
qed

text \<open>From a position in the log on. \<open>m\<close> is the memtable so far and \<open>seq\<close> the next sequence number.\<close>

lemma RecoverLogFile_loop_groups:
  assumes "posix_seq.reading [] (left_at off) D rd" and "prefix D (log_bytes off (group_records seq us))" and "off \<le> kBlockSize"
    and "updates_ok ok (concat us)" and "unat seq + length (concat us) < 2 ^ 31" and "0 < unat seq"
    and "mem_or_new user (rc_mem rc) = m" and "rc_max_sequence rc = seq - 1" and "rc_status rc = Status_OK"
    and "\<forall>i \<le> length us. \<exists>m'. add_all m (additions seq (concat (take i us))) = Some m' \<and> has_room m'"
  shows "\<exists>j rc'. j \<le> length us \<and> RecoverLogFile_loop posix_read_ops paranoid user has_room WL rd rc = Some rc' \<and>
    add_all m (additions seq (concat (take j us))) = Some (mem_or_new user (rc_mem rc')) \<and>
    rc' = rc\<lparr>rc_mem := rc_mem rc', rc_max_sequence := seq - 1 + of_nat (length (concat (take j us)))\<rparr> \<and>
    prefix (log_bytes off (take j (group_records seq us))) D \<and>
    (j < length us \<longrightarrow> strict_prefix D (log_bytes off (take (Suc j) (group_records seq us))))"
  using assms
proof (induction us arbitrary: off D rd seq rc m)
  case Nil
  have ops: "ro_Read posix_read_ops = SequentialRead" by (simp add: posix_read_ops_def)
  from Nil.prems(1,2) ops Nil.prems(3) show ?case
  proof (cases rule: posix_seq.ReadRecord_log)
    case (stop rd')
    then show ?thesis using Nil.prems(7,8)
      by (subst RecoverLogFile_loop.simps) (auto intro!: exI [of _ rc])
  qed simp
next
  case (Cons v us)
  have ops: "ro_Read posix_read_ops = SequentialRead" by (simp add: posix_read_ops_def)
  have reps: "lr_reports rd = []" using Cons.prems(1) by (simp add: posix_seq.reading_def)
  let ?b = "batch_bytes seq (of_nat (length v)) v"
  from Cons.prems(1,2) ops Cons.prems(3) show ?case
  proof (cases rule: posix_seq.ReadRecord_log)
    case (stop rd')
    then show ?thesis using Cons.prems(7,8) reps
      by (subst RecoverLogFile_loop.simps) (auto intro!: exI [of _ 0] exI [of _ rc])
  next
    case (next_record a rs' D' rd')
    then have eq: "a = ?b" "rs' = group_records (seq + of_nat (length v)) us" by simp_all
    note r = next_record [unfolded eq]
    let ?off = "snd (fragments off True ?b)" and ?seq = "seq + of_nat (length v)"
    have reps': "lr_reports rd' = []" using r(5) by (simp add: posix_seq.reading_def)
    obtain m1 where m1: "add_all m (additions seq v) = Some m1" "has_room m1"
      using Cons.prems(10) [rule_format, of 1] by auto
    define rc1 where "rc1 = rc\<lparr>rc_mem := Some m1, rc_max_sequence := seq - 1 + of_nat (length v)\<rparr>"
    have "recover_record paranoid user has_room WL ?b rc = Some (True, rc1)"
      unfolding rc1_def
      by (rule recover_batch [of ok]) (use Cons.prems m1 in simp_all)
    moreover have "Status_ok (rc_status rc)" using Cons.prems(9) by simp
    ultimately have loop: "RecoverLogFile_loop posix_read_ops paranoid user has_room WL rd rc =
        RecoverLogFile_loop posix_read_ops paranoid user has_room WL rd' rc1"
      using r(4) reps reps' by (subst RecoverLogFile_loop.simps) simp
    have l: "unat (of_nat (length v) :: uint64) = length v"
      by (subst unat_of_nat_size) (use Cons.prems(5) in simp_all)
    have seq: "unat ?seq = unat seq + length v"
      using Cons.prems(5) by (simp add: unat_word_ariths(1) l)
    have rest: "\<forall>i \<le> length us. \<exists>m'. add_all m1 (additions ?seq (concat (take i us))) = Some m' \<and> has_room m'"
    proof (intro allI impI)
      fix i
      assume "i \<le> length us"
      then show "\<exists>m'. add_all m1 (additions ?seq (concat (take i us))) = Some m' \<and> has_room m'"
        using Cons.prems(10) [rule_format, of "Suc i"] m1(1) by (simp add: additions_append add_all_append)
    qed
    have "\<exists>j rc'. j \<le> length us \<and> RecoverLogFile_loop posix_read_ops paranoid user has_room WL rd' rc1 = Some rc' \<and>
      add_all m1 (additions ?seq (concat (take j us))) = Some (mem_or_new user (rc_mem rc')) \<and>
      rc' = rc1\<lparr>rc_mem := rc_mem rc', rc_max_sequence := ?seq - 1 + of_nat (length (concat (take j us)))\<rparr> \<and>
      prefix (log_bytes ?off (take j (group_records ?seq us))) D' \<and>
      (j < length us \<longrightarrow> strict_prefix D' (log_bytes ?off (take (Suc j) (group_records ?seq us))))"
      by (rule Cons.IH [OF r(5,3,6) _ _ _ _ _ _ rest])
        (use Cons.prems(4,5,6,9) seq in \<open>simp_all add: rc1_def mem_or_new_def\<close>)
    then obtain j rc' where
      2: "j \<le> length us" "RecoverLogFile_loop posix_read_ops paranoid user has_room WL rd' rc1 = Some rc'"
        "add_all m1 (additions ?seq (concat (take j us))) = Some (mem_or_new user (rc_mem rc'))"
        "rc' = rc1\<lparr>rc_mem := rc_mem rc', rc_max_sequence := ?seq - 1 + of_nat (length (concat (take j us)))\<rparr>"
        "prefix (log_bytes ?off (take j (group_records ?seq us))) D'"
        "j < length us \<longrightarrow> strict_prefix D' (log_bytes ?off (take (Suc j) (group_records ?seq us)))" by blast
    have "add_all m (additions seq (concat (take (Suc j) (v # us)))) = Some (mem_or_new user (rc_mem rc'))"
      using 2(3) m1(1) by (simp add: additions_append add_all_append)
    moreover have "rc' = rc\<lparr>rc_mem := rc_mem rc', rc_max_sequence := seq - 1 + of_nat (length (concat (take (Suc j) (v # us))))\<rparr>"
      by (subst 2(4)) (simp add: rc1_def algebra_simps)
    moreover have "prefix (log_bytes off (take (Suc j) (group_records seq (v # us)))) D"
      using 2(5) unfolding r(2) by (simp add: split_beta)
    moreover have "Suc j < length (v # us) \<longrightarrow> strict_prefix D (log_bytes off (take (Suc (Suc j)) (group_records seq (v # us))))"
      using 2(6) unfolding r(2) by (simp add: strict_prefix_def split_beta)
    ultimately show ?thesis
      using 2(1,2) loop by (intro exI [of _ "Suc j"] exI [of _ rc']) simp
  qed
qed

section \<open>What is recovered\<close>

lemma length_concat_take_mono: "i \<le> j \<Longrightarrow> length (concat (take i xss)) \<le> length (concat (take j xss))"
proof -
  assume "i \<le> j"
  then have "take j xss = take i xss @ drop i (take j xss)" by (metis append_take_drop_id min.absorb1 take_take)
  then show ?thesis by (metis concat_append length_append le_add1)
qed

text \<open>The group of a finished client.\<close>

lemma concat_nth_group:
  "i < length (concat gs) \<Longrightarrow> \<exists>m < length gs. concat gs ! i \<in> set (gs ! m) \<and> i < length (concat (take (Suc m) gs))"
proof (induction gs rule: rev_induct)
  case (snoc g gs)
  show ?case
  proof (cases "i < length (concat gs)")
    case True
    with snoc.IH obtain m where "m < length gs" "concat gs ! i \<in> set (gs ! m)" "i < length (concat (take (Suc m) gs))"
      by blast
    with True show ?thesis by (intro exI [of _ m]) (simp add: nth_append)
  next
    case False
    with snoc.prems show ?thesis by (intro exI [of _ "length gs"]) (simp add: nth_append)
  qed
qed simp

lemma take_concat_groups: "take (length (concat (take j gs))) (concat gs) = concat (take j gs)"
proof -
  have "concat gs = concat (take j gs) @ concat (drop j gs)" by (metis append_take_drop_id concat_append)
  then show ?thesis by (metis append_eq_conv_conj)
qed

lemma prefix_group_cut:
  assumes "prefix D E" and "j < length gs \<longrightarrow> strict_prefix D (log_bytes 0 (take (Suc j) (records_of gs)))"
    and "length (log_bytes 0 (records_of (take i gs))) \<le> length D" and "i \<le> length gs"
  shows "i \<le> j"
proof (rule ccontr)
  assume "\<not> i \<le> j"
  then have "Suc j \<le> i" "j < length gs" using assms(4) by simp_all
  with assms(2) have "length D < length (log_bytes 0 (take (Suc j) (records_of gs)))" by (simp add: prefix_length_less)
  also have "\<dots> \<le> length (log_bytes 0 (take i (records_of gs)))" by (rule log_bytes_take_mono) fact
  finally show False using assms(3) by (simp add: records_of_take)
qed

text \<open>Acknowledged batches are recovered, if they were synchronised or the file kept its content.\<close>

lemma acked_kept:
  assumes L: "left_behind has_room user S gs failed s" and "prefix D (wf_disk (lw_dest (db_log (ss_db S))))"
    and "wf_synced (lw_dest (db_log (ss_db S))) \<le> length D"
    and "j < length (gs @ failed) \<longrightarrow> strict_prefix D (log_bytes 0 (take (Suc j) (records_of (gs @ failed))))"
    and i: "i < length (ss_finished S)" "Status_ok (snd (ss_finished S ! i))"
    and c: "snd (fst (ss_finished S ! i)) \<or> D = wf_disk (lw_dest (db_log (ss_db S)))"
  shows "i < length (concat (take j (gs @ failed)))"
proof -
  let ?disk = "wf_disk (lw_dest (db_log (ss_db S)))"
  have gs: "i < length (concat gs)"
  proof (rule ccontr)
    assume "\<not> i < length (concat gs)"
    with i(1) L have "snd (ss_finished S ! i) = s" "failed \<noteq> []" by (auto simp: left_behind_def nth_append)
    with i(2) L show False by (simp add: left_behind_def)
  qed
  then have client: "fst (ss_finished S ! i) = concat gs ! i" using L by (simp add: left_behind_def nth_append)
  from concat_nth_group [OF gs] obtain m where
    m: "m < length gs" "concat gs ! i \<in> set (gs ! m)" "i < length (concat (take (Suc m) gs))" by blast
  have "length (log_bytes 0 (records_of (take (Suc m) gs))) \<le> length D"
    using c
  proof
    assume "snd (fst (ss_finished S ! i))"
    with client m(2) have "list_ex snd (gs ! m)" by (auto simp: list_ex_iff)
    then have "length (log_bytes 0 (records_of (take (Suc m) gs))) \<le> wf_synced (lw_dest (db_log (ss_db S)))"
      using L m(1) by (simp add: left_behind_def durable_def)
    then show ?thesis using assms(3) by simp
  next
    assume "D = ?disk"
    moreover have "length (log_bytes 0 (records_of gs)) \<le> length ?disk"
      using L by (auto simp: left_behind_def dest: prefix_length_le)
    ultimately show ?thesis
      using log_bytes_take [of 0 "Suc m" "records_of gs"] by (simp add: records_of_take)
  qed
  then have "Suc m \<le> j" using prefix_group_cut [OF assms(2,4), of "Suc m"] m(1) by simp
  then have "length (concat (take (Suc m) (gs @ failed))) \<le> length (concat (take j (gs @ failed)))"
    by (rule length_concat_take_mono)
  with m show ?thesis by simp
qed

context comparator
begin

lemma roomy_all:
  assumes "roomy has_room C gs" and "\<forall>m. mem_after C (updates_of gs) = Some m \<longrightarrow> has_room m"
    and "updates_ok ok (updates_of gs)" and "length (updates_of gs) < 2 ^ 31" and "i \<le> length gs"
  shows "\<exists>m. mem_after C (updates_of (take i gs)) = Some m \<and> has_room m"
proof (cases "i < length gs")
  case True
  with assms(1) show ?thesis by (simp add: roomy_def)
next
  case False
  obtain m where "mem_after C (updates_of gs) = Some m" by (rule mem_after_holds [OF assms(3,4)])
  with assms(2,5) False show ?thesis by auto
qed

lemma recovered_groups:
  assumes "left_behind has_room C S gs failed s" and "updates_ok ok (finished_updates S)"
    and "length (finished_updates S) + 1 < 2 ^ 31"
    and "\<forall>m. mem_after C (finished_updates S) = Some m \<longrightarrow> has_room m"
    and "prefix (sf_rest f) (wf_disk (lw_dest (db_log (ss_db S))))" and "sf_inv f"
  defines "all \<equiv> gs @ failed"
  shows "\<exists>j rc. j \<le> length all \<and>
    RecoverLogFile posix_read_ops paranoid reuse last_log reopened C has_room WL (Inr f) 0 sm level0 =
      Some (recover_finish reuse last_log reopened C WL rc) \<and>
    mem_after C (updates_of (take j all)) = Some (mem_or_new C (rc_mem rc)) \<and>
    rc_status rc = Status_OK \<and> rc_level0 rc = level0 \<and> rc_compactions rc = 0 \<and>
    rc_max_sequence rc = of_nat (length (updates_of (take j all))) \<and>
    (j < length all \<longrightarrow> strict_prefix (sf_rest f) (log_bytes 0 (take (Suc j) (records_of all))))"
proof -
  let ?us = "map group_updates all" and ?D = "sf_rest f"
  let ?rc = "\<lparr>rc_status = Status_OK, rc_mem = None, rc_max_sequence = 0, rc_compactions = 0, rc_save_manifest = sm,
    rc_level0 = level0\<rparr>"
  have upd: "finished_updates S = updates_of all" using finished_updates_behind [OF assms(1)] by (simp add: all_def)
  have D: "prefix ?D (log_bytes 0 (group_records 1 ?us))"
    using assms(1,5) by (auto simp: left_behind_def all_def records_of_def dest: prefix_order.order_trans)
  have take: "concat (take i ?us) = updates_of (take i all)" for i by (simp add: updates_of_def take_map)
  have room: "\<forall>i \<le> length ?us. \<exists>m'. add_all (mem_new C) (additions 1 (concat (take i ?us))) = Some m' \<and> has_room m'"
    unfolding take mem_after_def [symmetric]
    using roomy_all [of has_room all] assms(1-4) upd by (auto simp: left_behind_def all_def)
  have "\<exists>j rc'. j \<le> length ?us \<and>
    RecoverLogFile_loop posix_read_ops paranoid C has_room WL (Reader_new f True True 0) ?rc = Some rc' \<and>
    add_all (mem_new C) (additions 1 (concat (take j ?us))) = Some (mem_or_new C (rc_mem rc')) \<and>
    rc' = ?rc\<lparr>rc_mem := rc_mem rc', rc_max_sequence := 1 - 1 + of_nat (length (concat (take j ?us)))\<rparr> \<and>
    prefix (log_bytes 0 (take j (group_records 1 ?us))) ?D \<and>
    (j < length ?us \<longrightarrow> strict_prefix ?D (log_bytes 0 (take (Suc j) (group_records 1 ?us))))"
    by (rule RecoverLogFile_loop_groups [OF reading_new [OF assms(6)] D _ _ _ _ _ _ _ room, of ok])
      (use assms(2,3) upd in \<open>simp_all add: mem_or_new_def updates_of_def\<close>)
  then obtain j rc' where j: "j \<le> length all"
      "j < length all \<longrightarrow> strict_prefix ?D (log_bytes 0 (take (Suc j) (records_of all)))"
    and rc: "RecoverLogFile_loop posix_read_ops paranoid C has_room WL (Reader_new f True True 0) ?rc = Some rc'"
      "mem_after C (updates_of (take j all)) = Some (mem_or_new C (rc_mem rc'))"
    and eq: "rc' = ?rc\<lparr>rc_mem := rc_mem rc', rc_max_sequence := of_nat (length (updates_of (take j all)))\<rparr>"
    unfolding take mem_after_def records_of_def by auto
  have "rc_status rc' = Status_OK" "rc_level0 rc' = level0" "rc_compactions rc' = 0"
      "rc_max_sequence rc' = of_nat (length (updates_of (take j all)))"
    by (subst eq, simp)+
  with j rc show ?thesis by (intro exI [of _ j] exI [of _ rc']) (simp add: RecoverLogFile_def)
qed

end

section \<open>Properties\<close>


text \<open>A database that has served one client, with a kernel that is interrupted once.\<close>

definition example_file :: PosixWritableFile where
  "example_file = PosixWritableFile_new (str ''3.log'') 3 [] \<lparr>os_answers = [Fail EINTR], os_strerror = (\<lambda>_. [])\<rparr>"

lemma example_run:
  "\<exists>S s. db_run (\<lambda>_. True) BytewiseComparator S \<and> ss_finished S = [(([UPut [1] [2]], True), s)]"
proof -
  let ?S0 = "session_new BytewiseComparator example_file"
  let ?c = "([UPut [1] [2]], True) :: client"
  let ?S1 = "?S0\<lparr>ss_queue := ss_queue ?S0 @ [?c]\<rparr>"
  have r0: "db_run (\<lambda>_. True) BytewiseComparator ?S0"
    by (rule db_run.start) (simp_all add: example_file_def PosixWritableFile_new_def)
  have run: "running (\<lambda>_. True) BytewiseComparator ?S0 []"
    by (rule running_start) (simp_all add: example_file_def PosixWritableFile_new_def)
  have r1: "db_run (\<lambda>_. True) BytewiseComparator ?S1"
    by (rule db_run.step [OF r0 running_acked [OF run] db_step.arrive])
  obtain s db where w: "db_Write (\<lambda>_. True) posix_ops Sync (ss_db ?S1) (client_batch (fst ?c)) (snd ?c) (map request []) =
      Some (s, db, map request (drop 0 []))"
    by (rule comparator.db_Write_group [OF bytewise.comparator_axioms, of "ss_db ?S1" "[]" "\<lambda>_. True" "[]" "snd ?c" ?c "[]" "fst ?c" 0])
      (use run in \<open>simp_all add: running_def records_of_def BuildBatchGroup_def Let_def updates_ok_def\<close>)
  have "db_step (\<lambda>_. True) ?S1 \<lparr>ss_db = db, ss_queue = drop 0 [], ss_finished = ss_finished ?S1 @ map (\<lambda>c. (c, s)) (?c # take 0 [])\<rparr>"
    by (rule db_step.serve [OF _ w]) (simp_all add: session_new_def)
  from db_run.step [OF r1 running_acked [OF running_arrive [OF run]] this] show ?thesis
    by (intro exI conjI, assumption) (simp add: session_new_def)
qed


end
