(* ===== verification/Ldb_Writers.thy ===== *)
theory Ldb_Writers
  imports Ldb_Recovery
begin

text \<open>
  The queue of writers makes progress: whatever the kernel answers, errors included, the writer at the front serves at
  least itself, so that every client in the queue gets an answer.
\<close>

section \<open>All updates\<close>

text \<open>All updates of a session, finished or waiting.\<close>

definition all_updates :: "session \<Rightarrow> update list" where
  "all_updates S = finished_updates S @ concat (map fst (ss_queue S))"

lemma finished_updates_clients: "finished_updates S = concat (map fst (map fst (ss_finished S)))"
  by (simp add: finished_updates_def case_prod_unfold comp_def)

lemma concat_split: "concat (map fst q) = concat (map fst (take i q)) @ concat (map fst (drop i q))"
  by (metis append_take_drop_id concat_append map_append)

section \<open>A memtable below a sequence number\<close>

context comparator
begin

text \<open>The memtable holds additions up to a sequence number.\<close>

definition mem_upto :: "MemTable \<Rightarrow> SequenceNumber \<Rightarrow> bool" where
  "mem_upto mt seq \<longleftrightarrow> (\<exists>h. holds mt (set h) \<and> history_ok ok h \<and> (\<forall>a \<in> set h. unat (a_seq a) \<le> unat seq))"

lemma mem_upto_mono: "mem_upto mt seq \<Longrightarrow> unat seq \<le> unat seq' \<Longrightarrow> mem_upto mt seq'"
  by (fastforce simp: mem_upto_def)

lemma mem_upto_add:
  assumes "mem_upto mt seq" and "updates_ok ok us" and "unat seq + length us < 2 ^ 31"
  obtains mt' where "add_all mt (additions (seq + 1) us) = Some mt'" and "mem_upto mt' (seq + of_nat (length us))"
proof -
  obtain h where h: "holds mt (set h)" "history_ok ok h" "\<forall>a \<in> set h. unat (a_seq a) \<le> unat seq"
    using assms(1) by (auto simp: mem_upto_def)
  have seq: "unat (seq + 1) = unat seq + 1"
    using seq_bound(1) [of 1 2 seq] assms(3) by simp
  have new: "history_ok ok (additions (seq + 1) us)"
    by (rule history_ok_additions [OF assms(2)]) (use assms(3) seq in simp)
  have later: "unat seq < unat (a_seq a) \<and> unat (a_seq a) \<le> unat seq + length us" if "a \<in> set (additions (seq + 1) us)" for a
    using additions_seq [OF that] assms(3) seq by simp
  have "(\<lambda>a. (a_key a, a_seq a)) ` set h \<inter> (\<lambda>a. (a_key a, a_seq a)) ` set (additions (seq + 1) us) = {}"
    using h(3) later by (fastforce simp: image_iff)
  with h(2) new have "history_ok ok (h @ additions (seq + 1) us)" by (auto simp: history_ok_def)
  from holds_add_all [OF h(1) this] obtain mt' where
    mt': "add_all mt (additions (seq + 1) us) = Some mt'" "holds mt' (set (h @ additions (seq + 1) us))" by blast
  have "unat (of_nat (length us) :: SequenceNumber) = length us"
    by (subst unat_of_nat_size) (use assms(3) in simp_all)
  then have "unat (seq + of_nat (length us)) = unat seq + length us" using assms(3) by (simp add: unat_word_ariths(1))
  then have "mem_upto mt' (seq + of_nat (length us))"
    unfolding mem_upto_def using mt'(2) \<open>history_ok ok (h @ _)\<close> h(3) later
    by (intro exI [of _ "h @ additions (seq + 1) us"]) fastforce
  with mt'(1) show ?thesis by (rule that)
qed

lemma mem_upto_new: "mem_upto (mem_new C) 0"
  using holds_Ref [OF holds_new] by (auto simp: mem_upto_def mem_new_def history_ok_def intro!: exI [of _ "[]"])

section \<open>Every write returns\<close>

definition live :: "'f db \<Rightarrow> nat \<Rightarrow> bool" where
  "live db n \<longleftrightarrow> mem_upto (db_mem db) (db_last_sequence db) \<and> unat (db_last_sequence db) \<le> n"

lemma live_mono: "live db k \<Longrightarrow> k \<le> k' \<Longrightarrow> live db k'"
  by (simp add: live_def)

lemma db_Write_returns:
  assumes "live db k" and "has_room (db_mem db)"
    and group: "BuildBatchGroup sync (client_batch us) (map request q) = (client_batch vs, n)"
    and fits: "updates_ok ok vs" "k + length vs + 1 < 2 ^ 31"
  shows "\<exists>s db' i.
    db_Write has_room ops file_Sync db (client_batch us) sync (map request q) = Some (s, db', map request (drop i q)) \<and>
    (i = 0 \<and> live db' k \<or> i = n \<and> live db' (k + length vs))"
proof -
  let ?seq = "db_last_sequence db" and ?r = "batch_bytes (db_last_sequence db + 1) (of_nat (length vs)) vs"
  have up: "mem_upto (db_mem db) ?seq" and k: "unat ?seq \<le> k" using assms(1) by (simp_all add: live_def)
  obtain mt' where mt': "add_all (db_mem db) (additions (?seq + 1) vs) = Some mt'" "mem_upto mt' (?seq + of_nat (length vs))"
    by (rule mem_upto_add [OF up fits(1)]) (use k fits(2) in auto)
  have ins: "InsertInto ?r (db_mem db) = Some (Status_OK, mt')"
    using InsertInto_batch [OF updates_ok_sized [OF fits(1)]] mt'(1) by simp
  have rep: "Batch_SetSequence (client_batch vs) (?seq + 1) = ?r" by (simp add: client_batch_bytes)
  have count: "scast (of_nat (length vs) :: uint32) = (of_nat (length vs) :: SequenceNumber)"
    by (rule scast_count) (use fits(2) in simp)
  have "unat (of_nat (length vs) :: SequenceNumber) = length vs"
    by (subst unat_of_nat_size) (use fits(2) in simp_all)
  then have seq: "unat (?seq + of_nat (length vs)) = unat ?seq + length vs"
    using k fits(2) by (simp add: unat_word_ariths(1))
  have keep: "mem_upto (db_mem db) (?seq + of_nat (length vs))" by (rule mem_upto_mono [OF up]) (simp add: seq)
  show ?thesis
  proof (cases "Status_ok (db_bg_error db)")
    case False
    then have "db_Write has_room ops file_Sync db (client_batch us) sync (map request q) =
        Some (db_bg_error db, db, map request (drop 0 q))"
      by (simp add: db_Write_def MakeRoomForWrite_def)
    then show ?thesis using up k by (intro exI [of _ "db_bg_error db"] exI [of _ db] exI [of _ 0]) (simp add: live_def)
  next
    case True
    have "\<exists>s db'. db_Write has_room ops file_Sync db (client_batch us) sync (map request q) =
        Some (s, db', map request (drop n q)) \<and> db_last_sequence db' = ?seq + of_nat (length vs) \<and>
        (db_mem db' = mt' \<or> db_mem db' = db_mem db)"
      using True assms(2)
      by (auto simp: db_Write_def MakeRoomForWrite_def group rep Let_def count RecordBackgroundError_def drop_map ins
          split: prod.splits)
    then obtain s db' where w: "db_Write has_room ops file_Sync db (client_batch us) sync (map request q) =
        Some (s, db', map request (drop n q))"
      and db': "db_last_sequence db' = ?seq + of_nat (length vs)" "db_mem db' = mt' \<or> db_mem db' = db_mem db" by blast
    have "live db' (k + length vs)" using db' mt'(2) keep k by (auto simp: live_def seq)
    with w show ?thesis by blast
  qed
qed

lemma serve_returns:
  assumes "live (ss_db S) (length (finished_updates S))" and "\<forall>m. has_room m" and q: "ss_queue S = c # q"
    and "updates_ok ok (all_updates S)" and "length (all_updates S) + 1 < 2 ^ 31"
  shows "\<exists>s db i. i \<le> length q \<and>
    db_Write has_room posix_ops Sync (ss_db S) (client_batch (fst c)) (snd c) (map request q) = Some (s, db, map request (drop i q)) \<and>
    live db (length (finished_updates S @ concat (map fst (c # take i q))))"
proof -
  obtain n where n: "n \<le> length q"
      "BuildBatchGroup (snd c) (client_batch (fst c)) (map request q) = (client_batch (fst c @ concat (map fst (take n q))), n)"
    by (rule BuildBatchGroup_clients)
  let ?vs = "fst c @ concat (map fst (take n q))"
  have "\<exists>s db i.
    db_Write has_room posix_ops Sync (ss_db S) (client_batch (fst c)) (snd c) (map request q) = Some (s, db, map request (drop i q)) \<and>
    (i = 0 \<and> live db (length (finished_updates S)) \<or> i = n \<and> live db (length (finished_updates S) + length ?vs))"
    by (rule db_Write_returns [OF assms(1) spec [OF assms(2)] n(2)])
      (use assms(4,5) q in \<open>simp_all add: all_updates_def concat_split [of q n]\<close>)
  then obtain s db i where w: "db_Write has_room posix_ops Sync (ss_db S) (client_batch (fst c)) (snd c) (map request q) =
      Some (s, db, map request (drop i q))"
    and i: "i = 0 \<and> live db (length (finished_updates S)) \<or> i = n \<and> live db (length (finished_updates S) + length ?vs)"
    by blast
  from i have "live db (length (finished_updates S @ concat (map fst (c # take i q))))" by (auto intro: live_mono)
  with w i n(1) show ?thesis by (intro exI [of _ s] exI [of _ db] exI [of _ i]) auto
qed

lemma all_updates_step: "db_step has_room S S' \<Longrightarrow> \<exists>us. all_updates S' = all_updates S @ us"
  by (erule db_step.cases) (simp_all add: all_updates_def finished_updates_clients comp_def concat_split [symmetric])

lemma live_step:
  assumes "db_step has_room S S'" and "live (ss_db S) (length (finished_updates S))" and "\<forall>m. has_room m"
    and "updates_ok ok (all_updates S)" and "length (all_updates S) + 1 < 2 ^ 31"
  shows "live (ss_db S') (length (finished_updates S'))"
  using assms(1)
proof cases
  case (arrive c)
  with assms(2) show ?thesis by (simp add: finished_updates_def)
next
  case (serve c q s db ws n)
  from serve_returns [OF assms(2,3) serve(2) assms(4,5)] serve(3) obtain i where
    i: "i \<le> length q" "ws = map request (drop i q)" "live db (length (finished_updates S @ concat (map fst (c # take i q))))"
    by auto
  then have "n = i" using serve(4) by simp
  with i(3) serve(1) show ?thesis by (simp add: finished_updates_clients comp_def)
qed

lemma live_run:
  assumes "(db_step has_room)\<^sup>*\<^sup>* (session_new C f) S" and "\<forall>m. has_room m"
    and "updates_ok ok (all_updates S)" and "length (all_updates S) + 1 < 2 ^ 31"
  shows "live (ss_db S) (length (finished_updates S))"
  using assms(1,3,4)
proof (induction rule: rtranclp_induct)
  case base
  then show ?case using mem_upto_new by (simp add: live_def session_new_def)
next
  case (step S S')
  from all_updates_step [OF step.hyps(2)] obtain us where "all_updates S' = all_updates S @ us" by blast
  with step.prems have fits: "updates_ok ok (all_updates S)" "length (all_updates S) + 1 < 2 ^ 31" by simp_all
  show ?case by (rule live_step [OF step.hyps(2) step.IH [OF fits] assms(2) fits])
qed

lemma queue_served:
  assumes "live (ss_db S) (length (finished_updates S))" and "\<forall>m. has_room m"
    and "updates_ok ok (all_updates S)" and "length (all_updates S) + 1 < 2 ^ 31"
  shows "\<exists>S'. (db_step has_room)\<^sup>*\<^sup>* S S' \<and> ss_queue S' = [] \<and>
    map fst (ss_finished S') = map fst (ss_finished S) @ ss_queue S"
  using assms
proof (induction "length (ss_queue S)" arbitrary: S rule: less_induct)
  case less
  show ?case
  proof (cases "ss_queue S")
    case Nil
    then show ?thesis by (intro exI [of _ S]) simp
  next
    case (Cons c q)
    from serve_returns [OF less.prems(1,2) Cons less.prems(3,4)] obtain s db i where i: "i \<le> length q"
      "db_Write has_room posix_ops Sync (ss_db S) (client_batch (fst c)) (snd c) (map request q) = Some (s, db, map request (drop i q))"
      by blast
    define S1 where "S1 = \<lparr>ss_db = db, ss_queue = drop i q, ss_finished = ss_finished S @ map (\<lambda>c. (c, s)) (c # take i q)\<rparr>"
    have step: "db_step has_room S S1" unfolding S1_def by (rule db_step.serve [OF Cons i(2)]) (use i(1) in simp)
    have all: "all_updates S1 = all_updates S"
      by (simp add: all_updates_def finished_updates_clients S1_def comp_def Cons concat_split [of q i])
    have "\<exists>S'. (db_step has_room)\<^sup>*\<^sup>* S1 S' \<and> ss_queue S' = [] \<and>
        map fst (ss_finished S') = map fst (ss_finished S1) @ ss_queue S1"
      by (rule less.hyps [OF _ live_step [OF step less.prems]])
        (use Cons less.prems(2-4) in \<open>simp_all add: all\<close>, simp add: S1_def)
    then obtain S' where "(db_step has_room)\<^sup>*\<^sup>* S1 S'" "ss_queue S' = []"
      "map fst (ss_finished S') = map fst (ss_finished S1) @ ss_queue S1" by blast
    with step Cons show ?thesis
      by (intro exI [of _ S']) (simp add: converse_rtranclp_into_rtranclp S1_def comp_def)
  qed
qed

end

section \<open>Properties\<close>


text \<open>Two clients wait, on a kernel whose first write fails.\<close>

definition failing_file :: PosixWritableFile where
  "failing_file = PosixWritableFile_new (str ''3.log'') 3 [] \<lparr>os_answers = [Fail 5], os_strerror = (\<lambda>_. [])\<rparr>"

definition two_waiting :: session where
  "two_waiting = (session_new BytewiseComparator failing_file)
     \<lparr>ss_queue := [([UPut [1] [2]], False), ([UDelete [1]], True)]\<rparr>"


end
