(* ===== verification/Ldb_Block.thy ===== *)
theory Ldb_Block
  imports Ldb_Write_Batch
begin

text \<open>
  Blocks of a table file: \<open>table/block_builder.cc\<close> writes them, \<open>table/block.cc\<close> reads them. The entries of a block are
  sorted by key, and a key is stored as what differs from the key before it; every few entries there is a restart point,
  where the whole key is stored, and the offsets of these points stand at the end of the block.

  The reader works on memory, of which the block is the first part, so that what it would read behind the block is a part
  of the model. Offsets are 32-bit integers.
\<close>

section \<open>The builder\<close>

record BlockBuilder =
  bb_buffer :: "byte list"
  bb_restarts :: "uint32 list"
  bb_counter :: nat
  bb_finished :: bool
  bb_last_key :: "byte list"

definition BlockBuilder_new :: BlockBuilder where
  "BlockBuilder_new = \<lparr>bb_buffer = [], bb_restarts = [0], bb_counter = 0, bb_finished = False, bb_last_key = []\<rparr>"

definition BlockBuilder_Reset :: "BlockBuilder \<Rightarrow> BlockBuilder" where
  "BlockBuilder_Reset b =
     b\<lparr>bb_buffer := [], bb_restarts := [0], bb_counter := 0, bb_finished := False, bb_last_key := []\<rparr>"

definition CurrentSizeEstimate :: "BlockBuilder \<Rightarrow> nat" where
  "CurrentSizeEstimate b = length (bb_buffer b) + length (bb_restarts b) * 4 + 4"

definition BlockBuilder_empty :: "BlockBuilder \<Rightarrow> bool" where
  "BlockBuilder_empty b \<longleftrightarrow> bb_buffer b = []"

definition BlockBuilder_Finish :: "BlockBuilder \<Rightarrow> slice \<times> BlockBuilder" where
  "BlockBuilder_Finish b =
     (let buffer = foldl (PutFixed32 True) (bb_buffer b) (bb_restarts b);
          buffer = PutFixed32 True buffer (of_nat (length (bb_restarts b)))
      in (buffer, b\<lparr>bb_buffer := buffer, bb_finished := True\<rparr>))"

text \<open>The loop that counts the bytes two keys share.\<close>

fun shared_bytes :: "byte list \<Rightarrow> byte list \<Rightarrow> nat" where
  "shared_bytes (a # as) (b # bs) = (if a = b then Suc (shared_bytes as bs) else 0)"
| "shared_bytes _ _ = 0"

definition BlockBuilder_Add :: "nat \<Rightarrow> BlockBuilder \<Rightarrow> slice \<Rightarrow> slice \<Rightarrow> BlockBuilder" where
  "BlockBuilder_Add block_restart_interval b key val =
     (let (shared, b) =
            (if bb_counter b < block_restart_interval then (shared_bytes (bb_last_key b) key, b)
             else (0, b\<lparr>bb_restarts := bb_restarts b @ [of_nat (length (bb_buffer b))], bb_counter := 0\<rparr>));
          non_shared = length key - shared;
          buffer = PutVarint32 (bb_buffer b) (of_nat shared);
          buffer = PutVarint32 buffer (of_nat non_shared);
          buffer = PutVarint32 buffer (of_nat (length val));
          buffer = buffer @ drop shared key;
          buffer = buffer @ val
      in b\<lparr>bb_buffer := buffer, bb_last_key := take shared (bb_last_key b) @ drop shared key,
           bb_counter := bb_counter b + 1\<rparr>)"

section \<open>The reader\<close>

text \<open>The bytes of the memory from an address on. The block starts at the address 0.\<close>

definition bytes_at :: "(nat \<Rightarrow> byte) \<Rightarrow> nat \<Rightarrow> nat \<Rightarrow> byte list" where
  "bytes_at mem a n = map mem [a..<a + n]"

record Block =
  bl_data :: "nat \<Rightarrow> byte"
  bl_size :: nat
  bl_restart_offset :: uint32

definition NumRestarts :: "(nat \<Rightarrow> byte) \<Rightarrow> nat \<Rightarrow> uint32" where
  "NumRestarts data sz = DecodeFixed32 True (bytes_at data (sz - 4) 4)"

text \<open>The restart offset of a block that is marked as bad is not set.\<close>

definition Block_new :: "(nat \<Rightarrow> byte) \<Rightarrow> nat \<Rightarrow> Block" where
  "Block_new data sz =
     (if sz < 4 then \<lparr>bl_data = data, bl_size = 0, bl_restart_offset = 0\<rparr>
      else
        let max_restarts_allowed = (sz - 4) div 4
        in if unat (NumRestarts data sz) > max_restarts_allowed
           then \<lparr>bl_data = data, bl_size = 0, bl_restart_offset = 0\<rparr>
           else \<lparr>bl_data = data, bl_size = sz,
                 bl_restart_offset = of_nat (sz - unat (1 + NumRestarts data sz) * 4)\<rparr>)"

text \<open>The result has the three numbers and the address of the key delta.\<close>

definition DecodeEntry :: "(nat \<Rightarrow> byte) \<Rightarrow> nat \<Rightarrow> nat \<Rightarrow> (uint32 \<times> uint32 \<times> uint32 \<times> nat) option" where
  "DecodeEntry data p limit =
     (if int limit - int p < 3 then None
      else
        let shared = ucast (data p) :: uint32;
            non_shared = ucast (data (p + 1)) :: uint32;
            value_length = ucast (data (p + 2)) :: uint32
        in Option.bind
             (if shared OR non_shared OR value_length < 128 then Some (shared, non_shared, value_length, p + 3)
              else
                Option.bind (GetVarint32Ptr (bytes_at data p (limit - p))) (\<lambda>(shared, r).
                Option.bind (GetVarint32Ptr r) (\<lambda>(non_shared, r).
                Option.bind (GetVarint32Ptr r) (\<lambda>(value_length, r).
                  Some (shared, non_shared, value_length, limit - length r)))))
             (\<lambda>(shared, non_shared, value_length, p).
                if of_nat (limit - p) < non_shared + value_length then None
                else Some (shared, non_shared, value_length, p)))"

text \<open>The iterator. \<open>bi_value\<close> is the address and the length of the current value; a cleared value has no address that
  matters.\<close>

record BlockIter =
  bi_data :: "nat \<Rightarrow> byte"
  bi_restarts :: uint32
  bi_num_restarts :: uint32
  bi_current :: uint32
  bi_restart_index :: uint32
  bi_key :: "byte list"
  bi_value :: "nat \<times> nat"
  bi_status :: status

definition NextEntryOffset :: "BlockIter \<Rightarrow> uint32" where
  "NextEntryOffset it = of_nat (fst (bi_value it) + snd (bi_value it))"

definition GetRestartPoint :: "BlockIter \<Rightarrow> uint32 \<Rightarrow> uint32" where
  "GetRestartPoint it index = DecodeFixed32 True (bytes_at (bi_data it) (unat (bi_restarts it) + unat index * 4) 4)"

definition SeekToRestartPoint :: "BlockIter \<Rightarrow> uint32 \<Rightarrow> BlockIter" where
  "SeekToRestartPoint it index =
     it\<lparr>bi_key := [], bi_restart_index := index, bi_value := (unat (GetRestartPoint it index), 0)\<rparr>"

definition BlockIter_new :: "(nat \<Rightarrow> byte) \<Rightarrow> uint32 \<Rightarrow> uint32 \<Rightarrow> BlockIter" where
  "BlockIter_new data restarts num_restarts =
     \<lparr>bi_data = data, bi_restarts = restarts, bi_num_restarts = num_restarts, bi_current = restarts,
      bi_restart_index = num_restarts, bi_key = [], bi_value = (0, 0), bi_status = Status_OK\<rparr>"

definition BlockIter_Valid :: "BlockIter \<Rightarrow> bool" where
  "BlockIter_Valid it \<longleftrightarrow> bi_current it < bi_restarts it"

definition BlockIter_value :: "BlockIter \<Rightarrow> slice" where
  "BlockIter_value it = bytes_at (bi_data it) (fst (bi_value it)) (snd (bi_value it))"

definition CorruptionError :: "BlockIter \<Rightarrow> BlockIter" where
  "CorruptionError it =
     it\<lparr>bi_current := bi_restarts it, bi_restart_index := bi_num_restarts it,
        bi_status := Status_Corruption (str ''bad entry in block'') [], bi_key := [], bi_value := (0, 0)\<rparr>"

lemma unat_inc: "i < n \<Longrightarrow> unat (i + 1) = unat i + 1" for i n :: "'a :: len word"
proof -
  assume "i < n"
  then have "Suc (unat i) < 2 ^ LENGTH('a)"
    using unat_less_pow [of n] unfolding word_less_nat_alt by linarith
  then show ?thesis by (simp add: unat_word_ariths(1) del: unat_add_no_wrap)
qed

text \<open>The loop at the end of \<open>ParseNextKey\<close>.\<close>

function advance_restart :: "BlockIter \<Rightarrow> BlockIter" where
  "advance_restart it =
     (if bi_restart_index it + 1 < bi_num_restarts it \<and> GetRestartPoint it (bi_restart_index it + 1) < bi_current it
      then advance_restart (it\<lparr>bi_restart_index := bi_restart_index it + 1\<rparr>) else it)"
  by auto
termination
proof (relation "measure (\<lambda>it. unat (bi_num_restarts it) - unat (bi_restart_index it + 1))", goal_cases)
  case (2 it)
  then have "unat (bi_restart_index it + 1 + 1) = unat (bi_restart_index it + 1) + 1" by (blast intro: unat_inc)
  moreover have "unat (bi_restart_index it + 1) < unat (bi_num_restarts it)" using 2 by (simp only: word_less_nat_alt)
  ultimately show ?case by simp
qed simp

declare advance_restart.simps [simp del]

definition ParseNextKey :: "BlockIter \<Rightarrow> bool \<times> BlockIter" where
  "ParseNextKey it =
     (let it = it\<lparr>bi_current := NextEntryOffset it\<rparr>;
          p = unat (bi_current it);
          limit = unat (bi_restarts it)
      in if p \<ge> limit then
           (False, it\<lparr>bi_current := bi_restarts it, bi_restart_index := bi_num_restarts it\<rparr>)
         else
           (case DecodeEntry (bi_data it) p limit of
              None \<Rightarrow> (False, CorruptionError it)
            | Some (shared, non_shared, value_length, p) \<Rightarrow>
                if length (bi_key it) < unat shared then (False, CorruptionError it)
                else
                  (True, advance_restart
                     (it\<lparr>bi_key := take (unat shared) (bi_key it) @ bytes_at (bi_data it) p (unat non_shared),
                         bi_value := (p + unat non_shared, unat value_length)\<rparr>))))"

text \<open>Each entry that is parsed lies before the next one, on any bytes.\<close>

lemma GetVarint32Ptr_shorter: "GetVarint32Ptr p = Some (v, r) \<Longrightarrow> length r < length p"
  using GetVarint32_shorter [of p v r] by (simp add: GetVarint32_def)

lemma length_bytes_at [simp]: "length (bytes_at mem a n) = n"
  by (simp add: bytes_at_def)

lemma DecodeEntry_within:
  assumes "DecodeEntry data p limit = Some (shared, non_shared, value_length, q)" and "limit < 2 ^ 32"
  shows "p < q \<and> q + unat (non_shared + value_length) \<le> limit"
proof -
  have "p < q \<and> q \<le> limit"
    using assms(1) by (fastforce simp: DecodeEntry_def Let_def bind_eq_Some_conv split: if_splits dest!: GetVarint32Ptr_shorter)
  moreover have "\<not> of_nat (limit - q) < non_shared + value_length"
    using assms(1) by (auto simp: DecodeEntry_def Let_def bind_eq_Some_conv split: if_splits)
  moreover have "unat (of_nat (limit - q) :: uint32) = limit - q" using assms(2) by (simp add: unat_of_nat)
  ultimately show ?thesis unfolding word_less_nat_alt by linarith
qed

lemma advance_restart_keeps:
  "bi_data (advance_restart it) = bi_data it" "bi_restarts (advance_restart it) = bi_restarts it"
  "bi_num_restarts (advance_restart it) = bi_num_restarts it" "bi_current (advance_restart it) = bi_current it"
  "bi_key (advance_restart it) = bi_key it" "bi_value (advance_restart it) = bi_value it"
  "bi_status (advance_restart it) = bi_status it"
  by (induction it rule: advance_restart.induct; subst advance_restart.simps; simp)+

lemma ParseNextKey_progress:
  assumes "ParseNextKey it = (True, it')"
  shows "bi_restarts it' = bi_restarts it \<and> unat (NextEntryOffset it) < unat (NextEntryOffset it') \<and>
    unat (NextEntryOffset it') \<le> unat (bi_restarts it)"
proof -
  obtain shared non_shared value_length q where
    d: "DecodeEntry (bi_data it) (unat (NextEntryOffset it)) (unat (bi_restarts it)) = Some (shared, non_shared, value_length, q)"
    and it': "bi_restarts it' = bi_restarts it" "bi_value it' = (q + unat non_shared, unat value_length)"
    using assms by (auto simp: ParseNextKey_def Let_def advance_restart_keeps split: if_splits option.splits)
  have lim: "unat (bi_restarts it) < 2 ^ 32" using unat_less_pow [of "bi_restarts it"] by simp
  note w = DecodeEntry_within [OF d lim]
  have "NextEntryOffset it' = of_nat q + (non_shared + value_length)" by (simp add: NextEntryOffset_def it'(2))
  moreover have "unat (of_nat q :: uint32) = q" using w lim by (simp add: unat_of_nat)
  ultimately have "unat (NextEntryOffset it') = q + unat (non_shared + value_length)"
    using w lim by (simp add: unat_word_ariths(1) del: unat_add_no_wrap)
  with w it'(1) show ?thesis by simp
qed

text \<open>The loops of \<open>Prev\<close> and \<open>SeekToLast\<close> that skip entries, and the one of \<open>Seek\<close>.\<close>

function skip_to :: "uint32 \<Rightarrow> BlockIter \<Rightarrow> BlockIter" where
  "skip_to bound it =
     (let (ok, it') = ParseNextKey it
      in if ok \<and> NextEntryOffset it' < bound then skip_to bound it' else it')"
  by auto
termination
  by (relation "measure (\<lambda>(bound, it). unat (bi_restarts it) - unat (NextEntryOffset it))")
    (auto dest!: ParseNextKey_progress [OF sym])

declare skip_to.simps [simp del]

function seek_linear :: "(slice \<Rightarrow> slice \<Rightarrow> int) \<Rightarrow> slice \<Rightarrow> BlockIter \<Rightarrow> BlockIter" where
  "seek_linear compare target it =
     (let (ok, it') = ParseNextKey it
      in if \<not> ok then it'
         else if compare (bi_key it') target \<ge> 0 then it'
         else seek_linear compare target it')"
  by auto
termination
  by (relation "measure (\<lambda>(compare, target, it). unat (bi_restarts it) - unat (NextEntryOffset it))")
    (auto dest!: ParseNextKey_progress [OF sym])

declare seek_linear.simps [simp del]

text \<open>The binary search: \<open>None\<close> for an entry that does not decode. The midpoint is computed in 32 bits.\<close>

partial_function (option) seek_binary ::
  "(slice \<Rightarrow> slice \<Rightarrow> int) \<Rightarrow> slice \<Rightarrow> BlockIter \<Rightarrow> uint32 \<Rightarrow> uint32 \<Rightarrow> uint32 option option" where
  [code]: "seek_binary compare target it left right =
     (if left < right then
        let mid = (left + right + 1) div 2;
            region_offset = unat (GetRestartPoint it mid)
        in case DecodeEntry (bi_data it) region_offset (unat (bi_restarts it)) of
             None \<Rightarrow> Some None
           | Some (shared, non_shared, value_length, key_ptr) \<Rightarrow>
               if shared \<noteq> 0 then Some None
               else if compare (bytes_at (bi_data it) key_ptr (unat non_shared)) target < 0
                    then seek_binary compare target it mid right
                    else seek_binary compare target it left (mid - 1)
      else Some (Some left))"

definition BlockIter_Seek :: "(slice \<Rightarrow> slice \<Rightarrow> int) \<Rightarrow> BlockIter \<Rightarrow> slice \<Rightarrow> BlockIter option" where
  "BlockIter_Seek compare it target =
     Option.bind (seek_binary compare target it 0 (bi_num_restarts it - 1)) (\<lambda>r.
       Some (case r of
               None \<Rightarrow> CorruptionError it
             | Some left \<Rightarrow> seek_linear compare target (SeekToRestartPoint it left)))"

definition BlockIter_Next :: "BlockIter \<Rightarrow> BlockIter" where
  "BlockIter_Next it = snd (ParseNextKey it)"

text \<open>The first loop of \<open>Prev\<close>: a restart point before the entry, if there is one.\<close>

function prev_restart :: "uint32 \<Rightarrow> BlockIter \<Rightarrow> bool \<times> BlockIter" where
  "prev_restart original it =
     (if GetRestartPoint it (bi_restart_index it) \<ge> original then
        if bi_restart_index it = 0 then
          (False, it\<lparr>bi_current := bi_restarts it, bi_restart_index := bi_num_restarts it\<rparr>)
        else prev_restart original (it\<lparr>bi_restart_index := bi_restart_index it - 1\<rparr>)
      else (True, it))"
  by auto
termination
  by (relation "measure (\<lambda>(original, it). unat (bi_restart_index it))") (auto simp: unat_minus_one unat_gt_0)

declare prev_restart.simps [simp del]

definition BlockIter_Prev :: "BlockIter \<Rightarrow> BlockIter" where
  "BlockIter_Prev it =
     (let original = bi_current it; (found, it) = prev_restart original it
      in if \<not> found then it else skip_to original (SeekToRestartPoint it (bi_restart_index it)))"

definition BlockIter_SeekToFirst :: "BlockIter \<Rightarrow> BlockIter" where
  "BlockIter_SeekToFirst it = snd (ParseNextKey (SeekToRestartPoint it 0))"

definition BlockIter_SeekToLast :: "BlockIter \<Rightarrow> BlockIter" where
  "BlockIter_SeekToLast it = skip_to (bi_restarts it) (SeekToRestartPoint it (bi_num_restarts it - 1))"

text \<open>\<open>NewIterator\<close>: an error, the empty iterator, or an iterator over the block.\<close>

definition Block_NewIterator :: "Block \<Rightarrow> status + BlockIter option" where
  "Block_NewIterator b =
     (if bl_size b < 4 then Inl (Status_Corruption (str ''bad block contents'') [])
      else
        let num_restarts = NumRestarts (bl_data b) (bl_size b)
        in if num_restarts = 0 then Inr None
           else Inr (Some (BlockIter_new (bl_data b) (bl_restart_offset b) num_restarts)))"

end
