(* ===== verification/Ldb_Block_Props.thy ===== *)
theory Ldb_Block_Props
  imports Ldb_Block
begin

text \<open>
  The block format: the builder writes the layout \<open>block_bytes\<close>, and an iterator on these bytes behaves as a position in
  the list of entries, in both directions and for searches. On any other bytes the iterator stops as well, with the
  status of a corruption or at the end.
\<close>

section \<open>Entries\<close>

lemma EncodeVarint32_cases:
  obtains b r where "EncodeVarint32 v = b # r" and "b AND 0x80 = 0" and "r = []" and "ucast b = v"
  | b r where "EncodeVarint32 v = b # r" and "b AND 0x80 \<noteq> 0"
proof (cases "unat v < 128")
  case True
  then show ?thesis
    using that(1) final_bit [OF True] ucast_of_nat_byte [OF True] varint_spec_small [OF True]
    by (simp add: EncodeVarint32_spec)
next
  case False
  then have "128 \<le> unat v" by simp
  then have "EncodeVarint32 v = of_nat (unat v mod 128 + 128) # varint_spec (unat v div 128)"
    by (simp only: EncodeVarint32_spec varint_spec_large)
  then show ?thesis by (rule that(2)) (rule continuation_bit)
qed

lemma fast_path:
  "(ucast a OR ucast b OR ucast c :: uint32) < 128 \<longleftrightarrow> a AND 0x80 = 0 \<and> b AND 0x80 = 0 \<and> c AND 0x80 = 0"
  for a b c :: byte
proof -
  let ?d = "a OR b OR c"
  have "(ucast a OR ucast b OR ucast c :: uint32) = ucast ?d" by (simp add: unsigned_or_eq)
  then have "(ucast a OR ucast b OR ucast c :: uint32) < 128 \<longleftrightarrow> unat ?d < 128"
    using unat_less_pow [of ?d] by (simp add: word_less_nat_alt unat_ucast_byte)
  also have "\<dots> \<longleftrightarrow> ?d AND 0x80 = 0" using high_bit_iff [of ?d] by auto
  also have "\<dots> \<longleftrightarrow> a AND 0x80 = 0 \<and> b AND 0x80 = 0 \<and> c AND 0x80 = 0"
    by (simp add: bit.conj_disj_distrib2 or_eq_0_iff)
  finally show ?thesis .
qed

lemma bytes_at_nth: "i < n \<Longrightarrow> mem (a + i) = bytes_at mem a n ! i"
  by (simp add: bytes_at_def)

lemma DecodeEntry_enc:
  assumes "bytes_at data p (limit - p) = EncodeVarint32 shared @ EncodeVarint32 non_shared @ EncodeVarint32 value_length @ rest"
    and "p \<le> limit" and "limit < 2 ^ 32" and "unat non_shared + unat value_length \<le> length rest"
  shows "DecodeEntry data p limit = Some (shared, non_shared, value_length, limit - length rest)"
proof -
  obtain a as where a: "EncodeVarint32 shared = a # as" by (rule EncodeVarint32_cases)
  obtain b bs where b: "EncodeVarint32 non_shared = b # bs" by (rule EncodeVarint32_cases)
  obtain c cs where c: "EncodeVarint32 value_length = c # cs" by (rule EncodeVarint32_cases)
  have len: "limit - p = length (EncodeVarint32 shared @ EncodeVarint32 non_shared @ EncodeVarint32 value_length @ rest)"
    by (simp only: assms(1) [symmetric] length_bytes_at)
  then have three: "\<not> int limit - int p < 3" using assms(2) by (simp add: a b c)
  have "length rest \<le> limit" using len by simp
  then have rl: "limit - (limit - length rest) = length rest" by simp
  have "unat (of_nat (length rest) :: uint32) = length rest"
    using len assms(3) by (simp add: unat_of_nat)
  moreover have "unat (non_shared + value_length) \<le> unat non_shared + unat value_length"
    by (simp add: unat_word_ariths(1) del: unat_add_no_wrap)
  ultimately have room: "\<not> of_nat (length rest) < non_shared + value_length"
    using assms(4) by (simp add: word_less_nat_alt)
  define x y z where "x = data p" and "y = data (p + 1)" and "z = data (p + 2)"
  have xyz: "x = (EncodeVarint32 shared @ EncodeVarint32 non_shared @ EncodeVarint32 value_length @ rest) ! 0"
      "y = (EncodeVarint32 shared @ EncodeVarint32 non_shared @ EncodeVarint32 value_length @ rest) ! 1"
      "z = (EncodeVarint32 shared @ EncodeVarint32 non_shared @ EncodeVarint32 value_length @ rest) ! 2"
    unfolding x_def y_def z_def assms(1) [symmetric]
    using bytes_at_nth [of 0 "limit - p" data p] bytes_at_nth [of 1 "limit - p" data p] bytes_at_nth [of 2 "limit - p" data p] three
    by simp_all
  have slow: "Option.bind (GetVarint32Ptr (bytes_at data p (limit - p))) (\<lambda>(shared, r).
      Option.bind (GetVarint32Ptr r) (\<lambda>(non_shared, r).
      Option.bind (GetVarint32Ptr r) (\<lambda>(value_length, r). Some (shared, non_shared, value_length, limit - length r)))) =
      Some (shared, non_shared, value_length, limit - length rest)"
    by (simp add: assms(1) GetVarint32Ptr_spec)
  have fast: "(ucast x, ucast y, ucast z, p + 3) = (shared, non_shared, value_length, limit - length rest)"
    if "(ucast x OR ucast y OR ucast z :: uint32) < 128"
  proof -
    have bits: "x AND 0x80 = 0" "y AND 0x80 = 0" "z AND 0x80 = 0" using that by (simp_all only: fast_path)
    have 1: "as = []" "ucast x = shared"
      using bits(1) a xyz(1) by (cases shared rule: EncodeVarint32_cases; simp)+
    have 2: "bs = []" "ucast y = non_shared"
      using bits(2) a b 1 xyz(2) by (cases non_shared rule: EncodeVarint32_cases; simp)+
    have 3: "cs = []" "ucast z = value_length"
      using bits(3) a b c 1 2 xyz(3) by (cases value_length rule: EncodeVarint32_cases; simp)+
    have "limit - p = 3 + length rest" using len by (simp add: a b c 1 2 3)
    with 1 2 3 assms(2) show ?thesis by simp
  qed
  show ?thesis
    unfolding DecodeEntry_def if_not_P [OF three] Let_def x_def [symmetric] y_def [symmetric] z_def [symmetric] slow
    using fast room rl by (auto split: if_split)
qed

section \<open>The layout of a block\<close>

text \<open>Every \<open>k\<close>-th entry stores its whole key.\<close>

definition e_shared :: "nat \<Rightarrow> (slice \<times> slice) list \<Rightarrow> nat \<Rightarrow> nat" where
  "e_shared k es i = (if i mod k = 0 then 0 else shared_bytes (fst (es ! (i - 1))) (fst (es ! i)))"

definition e_bytes :: "nat \<Rightarrow> (slice \<times> slice) list \<Rightarrow> nat \<Rightarrow> byte list" where
  "e_bytes k es i =
     EncodeVarint32 (of_nat (e_shared k es i)) @ EncodeVarint32 (of_nat (length (fst (es ! i)) - e_shared k es i)) @
     EncodeVarint32 (of_nat (length (snd (es ! i)))) @ drop (e_shared k es i) (fst (es ! i)) @ snd (es ! i)"

definition e_all :: "nat \<Rightarrow> (slice \<times> slice) list \<Rightarrow> nat \<Rightarrow> byte list" where
  "e_all k es n = concat (map (e_bytes k es) [0..<n])"

abbreviation e_off :: "nat \<Rightarrow> (slice \<times> slice) list \<Rightarrow> nat \<Rightarrow> nat" where
  "e_off k es n \<equiv> length (e_all k es n)"

definition num_points :: "nat \<Rightarrow> nat \<Rightarrow> nat" where
  "num_points k n = (if n = 0 then 1 else (n - 1) div k + 1)"

definition block_bytes :: "nat \<Rightarrow> (slice \<times> slice) list \<Rightarrow> byte list" where
  "block_bytes k es = e_all k es (length es) @
     concat (map (\<lambda>j. to_bytes 4 (of_nat (e_off k es (j * k)) :: uint32)) [0..<num_points k (length es)]) @
     to_bytes 4 (of_nat (num_points k (length es)) :: uint32)"

lemma e_all_Suc: "e_all k es (Suc n) = e_all k es n @ e_bytes k es n"
  by (simp add: e_all_def)

lemma e_bytes_append: "i < length es \<Longrightarrow> e_bytes k (es @ es') i = e_bytes k es i"
  by (auto simp: e_bytes_def e_shared_def nth_append)

lemma e_all_append: "n \<le> length es \<Longrightarrow> e_all k (es @ es') n = e_all k es n"
  by (auto simp: e_all_def e_bytes_append intro!: arg_cong [of _ _ concat])

lemma shared_bytes_le: "shared_bytes a b \<le> length a" "shared_bytes a b \<le> length b"
  by (induction a b rule: shared_bytes.induct) auto

lemma shared_bytes_take: "take (shared_bytes a b) a = take (shared_bytes a b) b"
  by (induction a b rule: shared_bytes.induct) auto

definition build :: "nat \<Rightarrow> (slice \<times> slice) list \<Rightarrow> BlockBuilder" where
  "build k es = foldl (\<lambda>b (key, val). BlockBuilder_Add k b key val) BlockBuilder_new es"

lemma build_snoc: "build k (es @ [(key, val)]) = BlockBuilder_Add k (build k es) key val"
  by (simp add: build_def)

lemma num_points_step:
  assumes "0 < k"
  shows "num_points k (Suc n) = (if 0 < n \<and> n mod k = 0 then Suc (num_points k n) else num_points k n)"
    and "0 < n \<Longrightarrow> n mod k = 0 \<Longrightarrow> num_points k n * k = n"
proof -
  have div: "n div k = (n - 1) div k + (if n mod k = 0 then 1 else 0)" if "0 < n"
    using assms that div_Suc [of "n - 1" k] by (cases n) (auto split: if_splits)
  then show "num_points k (Suc n) = (if 0 < n \<and> n mod k = 0 then Suc (num_points k n) else num_points k n)"
    by (auto simp: num_points_def)
  show "num_points k n * k = n" if "0 < n" "n mod k = 0"
    using div [OF that(1)] that by (auto simp: num_points_def dest: dvd_div_mult_self)
qed

lemma num_points_bound:
  assumes "0 < k" and "j < num_points k n"
  shows "j * k \<le> n" and "0 < n \<Longrightarrow> j * k < n"
proof -
  show "j * k < n" if "0 < n"
  proof -
    have "j \<le> (n - 1) div k" using assms that by (simp add: num_points_def)
    then have "j * k \<le> n - 1" using assms(1) by (simp add: less_eq_div_iff_mult_less_eq)
    with that show ?thesis by simp
  qed
  then show "j * k \<le> n" using assms by (cases "n = 0") (auto simp: num_points_def)
qed

lemma num_points_cover: "0 < k \<Longrightarrow> n \<le> num_points k n * k"
proof -
  assume "0 < k"
  then have "n - 1 < ((n - 1) div k + 1) * k" by (simp add: dividend_less_div_times)
  then have "0 < n \<Longrightarrow> n \<le> ((n - 1) div k + 1) * k" by linarith
  then show ?thesis by (auto simp: num_points_def)
qed

lemma build_layout:
  assumes "0 < k"
  shows "bb_buffer (build k es) = e_all k es (length es) \<and>
    bb_restarts (build k es) = map (\<lambda>j. of_nat (e_off k es (j * k))) [0..<num_points k (length es)] \<and>
    bb_counter (build k es) = (if es = [] then 0 else (length es - 1) mod k + 1) \<and>
    bb_last_key (build k es) = (if es = [] then [] else fst (last es))"
proof (induction es rule: rev_induct)
  case Nil
  show ?case by (simp add: build_def BlockBuilder_new_def e_all_def num_points_def)
next
  case (snoc e es)
  obtain key val where e: "e = (key, val)" by fastforce
  let ?n = "length es" and ?b = "build k es" and ?es = "es @ [(key, val)]"
  let ?sh = "e_shared k ?es ?n"
  have mod: "(?n - 1) mod k + 1 = (if ?n mod k = 0 then k else ?n mod k)" if "es \<noteq> []"
    using that assms mod_Suc [of "?n - 1" k] by (cases "length es") (auto split: if_splits)
  have restart: "bb_counter ?b < k \<longleftrightarrow> es = [] \<or> ?n mod k \<noteq> 0"
    using snoc assms mod mod_less_divisor [of k ?n] by (auto split: if_splits)
  have last: "bb_last_key ?b = (if es = [] then [] else fst (es ! (?n - 1)))" using snoc by (simp add: last_conv_nth)
  have sh: "(if bb_counter ?b < k then shared_bytes (bb_last_key ?b) key else 0) = ?sh"
    using last by (auto simp: e_shared_def restart nth_append)
  have "take ?sh (bb_last_key ?b) @ drop ?sh key = key"
    unfolding sh [symmetric] using shared_bytes_take [of "bb_last_key ?b" key] by auto
  moreover have "bb_buffer (BlockBuilder_Add k ?b key val) = e_all k ?es ?n @ e_bytes k ?es ?n"
    using snoc sh by (auto simp: BlockBuilder_Add_def Let_def PutVarint32_def e_all_append e_bytes_def nth_append)
  moreover have "bb_last_key (BlockBuilder_Add k ?b key val) = take ?sh (bb_last_key ?b) @ drop ?sh key"
    using sh by (auto simp: BlockBuilder_Add_def Let_def)
  moreover have "bb_counter (BlockBuilder_Add k ?b key val) = ?n mod k + 1"
    using snoc restart mod by (auto simp: BlockBuilder_Add_def Let_def)
  moreover have "bb_restarts (BlockBuilder_Add k ?b key val) =
      map (\<lambda>j. of_nat (e_off k ?es (j * k))) [0..<num_points k (Suc ?n)]"
  proof -
    have "bb_restarts ?b = map (\<lambda>j. of_nat (e_off k ?es (j * k))) [0..<num_points k ?n]"
      using snoc num_points_bound(1) [OF assms] by (simp add: e_all_append)
    moreover have "bb_restarts (BlockBuilder_Add k ?b key val) =
        bb_restarts ?b @ (if 0 < ?n \<and> ?n mod k = 0 then [of_nat (e_off k es ?n)] else [])"
      using snoc restart by (auto simp: BlockBuilder_Add_def Let_def)
    ultimately show ?thesis
      using num_points_step [OF assms, of ?n] by (auto simp: e_all_append)
  qed
  ultimately show ?case unfolding e build_snoc by (simp add: e_all_Suc)
qed

lemma foldl_PutFixed32: "foldl (PutFixed32 True) bs xs = bs @ concat (map (to_bytes 4) xs)"
  by (induction xs arbitrary: bs) (simp_all add: PutFixed32_def EncodeFixed_bytes)

lemma Finish_block:
  assumes "0 < k"
  shows "fst (BlockBuilder_Finish (build k es)) = block_bytes k es"
  using build_layout [OF assms, of es]
  by (simp add: BlockBuilder_Finish_def Let_def foldl_PutFixed32 block_bytes_def PutFixed32_def EncodeFixed_bytes comp_def)

section \<open>The iterator on a block\<close>

lemma length_e_bytes: "3 \<le> length (e_bytes k es i)"
proof -
  have "0 < length (EncodeVarint32 v)" for v by (cases v rule: EncodeVarint32_cases) simp_all
  from this [of "of_nat (e_shared k es i)"] this [of "of_nat (length (fst (es ! i)) - e_shared k es i)"]
    this [of "of_nat (length (snd (es ! i)))"] show ?thesis
    unfolding e_bytes_def length_append by linarith
qed

lemma e_off_less: "i < j \<Longrightarrow> e_off k es i < e_off k es j"
proof (induction j)
  case (Suc j)
  then show ?case using length_e_bytes [of k es j] by (cases "i = j") (auto simp: e_all_Suc)
qed simp

lemma e_off_less_iff: "e_off k es i < e_off k es j \<longleftrightarrow> i < j"
  using e_off_less [of i j k es] e_off_less [of j i k es] by (cases i j rule: linorder_cases) auto

lemma e_off_mono: "i \<le> j \<Longrightarrow> e_off k es i \<le> e_off k es j"
  using e_off_less [of i j k es] by (cases "i = j") auto

lemma e_all_split: "i < n \<Longrightarrow> \<exists>rest. e_all k es n = e_all k es i @ e_bytes k es i @ rest"
proof -
  assume "i < n"
  then have "[0..<n] = [0..<i] @ i # [Suc i..<n]"
    using upt_add_eq_append [of 0 i "n - i"] by (simp add: upt_rec [of i n])
  then show ?thesis by (simp add: e_all_def)
qed

lemma bytes_at_drop: "bytes_at mem 0 n = bs \<Longrightarrow> p \<le> n \<Longrightarrow> bytes_at mem p (n - p) = drop p bs"
  by (auto simp: bytes_at_def drop_map)

lemma bytes_at_sub: "a + m \<le> n \<Longrightarrow> bytes_at mem a m = take m (drop a (bytes_at mem 0 n))"
  by (simp add: bytes_at_def drop_map take_map)

lemma bytes_at_take: "bytes_at mem p n = bs @ rest \<Longrightarrow> bytes_at mem p (length bs) = bs"
proof -
  assume a: "bytes_at mem p n = bs @ rest"
  then have "length bs \<le> n" by (metis length_append length_bytes_at le_add1)
  then have "bytes_at mem p (length bs) = take (length bs) (bytes_at mem p n)"
    by (simp add: bytes_at_def take_map)
  with a show ?thesis by simp
qed

lemma bytes_at_add: "bytes_at mem p (m + n) = bytes_at mem p m @ bytes_at mem (p + m) n"
  using upt_add_eq_append [of p "p + m" n] by (simp add: bytes_at_def add.assoc flip: map_append)

text \<open>A block of entries in memory, with its restart array.\<close>

definition block_in :: "(nat \<Rightarrow> byte) \<Rightarrow> nat \<Rightarrow> (slice \<times> slice) list \<Rightarrow> uint32 \<Rightarrow> uint32 \<Rightarrow> bool" where
  "block_in mem k es restarts num \<longleftrightarrow> 0 < k \<and> list_all (\<lambda>(key, val). length key < 2 ^ 32) es \<and>
     unat restarts = e_off k es (length es) \<and> unat num = num_points k (length es) \<and>
     bytes_at mem 0 (e_off k es (length es)) = e_all k es (length es) \<and>
     (\<forall>j < num_points k (length es).
        DecodeFixed32 True (bytes_at mem (e_off k es (length es) + j * 4) 4) = of_nat (e_off k es (j * k)))"

definition iter_on :: "(nat \<Rightarrow> byte) \<Rightarrow> uint32 \<Rightarrow> uint32 \<Rightarrow> BlockIter \<Rightarrow> bool" where
  "iter_on mem restarts num it \<longleftrightarrow> bi_data it = mem \<and> bi_restarts it = restarts \<and> bi_num_restarts it = num \<and>
     bi_status it = Status_OK"

text \<open>The next entry to be parsed is the \<open>i\<close>-th one.\<close>

definition before_entry :: "nat \<Rightarrow> (slice \<times> slice) list \<Rightarrow> BlockIter \<Rightarrow> nat \<Rightarrow> bool" where
  "before_entry k es it i \<longleftrightarrow> i \<le> length es \<and> NextEntryOffset it = of_nat (e_off k es i) \<and>
     (i < length es \<longrightarrow> e_shared k es i \<le> length (bi_key it) \<and>
        take (e_shared k es i) (bi_key it) = take (e_shared k es i) (fst (es ! i)) \<and>
        unat (bi_restart_index it) * k \<le> i \<and> unat (bi_restart_index it) < num_points k (length es))"

definition at_entry :: "nat \<Rightarrow> (slice \<times> slice) list \<Rightarrow> BlockIter \<Rightarrow> nat \<Rightarrow> bool" where
  "at_entry k es it i \<longleftrightarrow> i < length es \<and> bi_current it = of_nat (e_off k es i) \<and> bi_key it = fst (es ! i) \<and>
     bi_value it = (e_off k es (Suc i) - length (snd (es ! i)), length (snd (es ! i))) \<and>
     unat (bi_restart_index it) * k \<le> i \<and> i \<le> Suc (unat (bi_restart_index it)) * k \<and>
     unat (bi_restart_index it) < num_points k (length es)"

lemma block_in_size: "block_in mem k es R N \<Longrightarrow> i \<le> length es \<Longrightarrow> e_off k es i < 2 ^ 32"
  using unat_less_pow [of R] e_off_mono [of i "length es" k es] by (simp add: block_in_def)

lemma unat_e_off:
  "block_in mem k es R N \<Longrightarrow> i \<le> length es \<Longrightarrow> unat (of_nat (e_off k es i) :: uint32) = e_off k es i"
  using block_in_size [of mem k es R N i] by (simp add: unat_of_nat)

lemma GetRestartPoint_at:
  assumes "block_in mem k es R N" and "iter_on mem R N it" and "unat j < num_points k (length es)"
  shows "GetRestartPoint it j = of_nat (e_off k es (unat j * k))"
  using assms by (simp add: GetRestartPoint_def block_in_def iter_on_def)

lemma SeekToRestartPoint_before:
  assumes "block_in mem k es R N" and "iter_on mem R N it" and "unat j < num_points k (length es)"
  shows "before_entry k es (SeekToRestartPoint it j) (unat j * k) \<and> iter_on mem R N (SeekToRestartPoint it j)"
  using assms num_points_bound(1) [of k "unat j" "length es"] GetRestartPoint_at [OF assms]
  by (auto simp: before_entry_def SeekToRestartPoint_def NextEntryOffset_def e_shared_def iter_on_def block_in_def)

lemma entry_at:
  assumes "block_in mem k es R N" and "i < length es"
  obtains rest where "bytes_at mem (e_off k es i) (unat R - e_off k es i) = e_bytes k es i @ rest"
    and "length (e_bytes k es i @ rest) = unat R - e_off k es i"
proof -
  obtain rest where r: "e_all k es (length es) = e_all k es i @ e_bytes k es i @ rest" using e_all_split [OF assms(2)] by blast
  have R: "unat R = e_off k es (length es)" using assms(1) by (simp add: block_in_def)
  have "bytes_at mem (e_off k es i) (unat R - e_off k es i) = drop (e_off k es i) (e_all k es (length es))"
    unfolding R by (rule bytes_at_drop) (use assms e_off_mono [of i "length es" k es] in \<open>simp_all add: block_in_def\<close>)
  also have "\<dots> = e_bytes k es i @ rest" using r by simp
  finally show ?thesis by (rule that) (simp add: R r)
qed

lemma advance_restart_index:
  assumes "block_in mem k es R N" and "iter_on mem R N it" and "i < length es" and "bi_current it = of_nat (e_off k es i)"
    and "unat (bi_restart_index it) * k \<le> i" and "unat (bi_restart_index it) < num_points k (length es)"
  shows "unat (bi_restart_index (advance_restart it)) * k \<le> i \<and> i \<le> Suc (unat (bi_restart_index (advance_restart it))) * k \<and>
    unat (bi_restart_index (advance_restart it)) < num_points k (length es)"
  using assms
proof (induction it rule: advance_restart.induct)
  case (1 it)
  let ?r = "bi_restart_index it"
  have N: "bi_num_restarts it = N" "unat N = num_points k (length es)" using "1.prems"(1,2) by (simp_all add: iter_on_def block_in_def)
  have inc: "unat (?r + 1) = Suc (unat ?r)"
    using unat_inc [of ?r N] "1.prems"(6) N(2) by (simp add: word_less_nat_alt)
  have cond: "?r + 1 < bi_num_restarts it \<longleftrightarrow> Suc (unat ?r) < num_points k (length es)"
    unfolding N(1) word_less_nat_alt inc N(2) ..
  have point: "GetRestartPoint it (?r + 1) < bi_current it \<longleftrightarrow> Suc (unat ?r) * k < i"
    if "Suc (unat ?r) < num_points k (length es)"
  proof -
    have j: "unat (?r + 1) < num_points k (length es)" using that by (simp only: inc)
    have le: "Suc (unat ?r) * k \<le> length es"
      using num_points_bound(1) [of k "Suc (unat ?r)"] that "1.prems"(1) by (simp add: block_in_def)
    show ?thesis
      unfolding GetRestartPoint_at [OF "1.prems"(1,2) j] inc "1.prems"(4) word_less_nat_alt
        unat_e_off [OF "1.prems"(1) le] unat_e_off [OF "1.prems"(1) less_imp_le [OF "1.prems"(3)]]
      by (rule e_off_less_iff)
  qed
  show ?case
  proof (cases "Suc (unat ?r) < num_points k (length es) \<and> Suc (unat ?r) * k < i")
    case True
    then have c: "?r + 1 < bi_num_restarts it \<and> GetRestartPoint it (?r + 1) < bi_current it"
      using cond point by blast
    have step: "advance_restart it = advance_restart (it\<lparr>bi_restart_index := ?r + 1\<rparr>)"
      using c by (subst advance_restart.simps) (simp only: if_True simp_thms)
    show ?thesis
      unfolding step
      by (rule "1.IH" [OF c "1.prems"(1)]) (use "1.prems" True inc in \<open>simp_all add: iter_on_def\<close>)
  next
    case False
    then have "\<not> (?r + 1 < bi_num_restarts it \<and> GetRestartPoint it (?r + 1) < bi_current it)"
      using cond point by blast
    then have stop: "advance_restart it = it" by (subst advance_restart.simps) (simp only: if_False simp_thms)
    have "i \<le> Suc (unat ?r) * k"
    proof (cases "Suc (unat ?r) < num_points k (length es)")
      case True
      with False show ?thesis by simp
    next
      case no: False
      with "1.prems"(6) have "Suc (unat ?r) = num_points k (length es)" by simp
      moreover have "length es \<le> num_points k (length es) * k"
        using "1.prems"(1,3) num_points_cover [of k] by (auto simp: block_in_def)
      ultimately show ?thesis using "1.prems"(3) by simp
    qed
    with "1.prems"(5,6) stop show ?thesis by simp
  qed
qed

lemma e_shared_le: "e_shared k es i \<le> length (fst (es ! i))"
  by (simp add: e_shared_def shared_bytes_le)

lemma e_off_Suc: "e_off k es (Suc i) = e_off k es i + length (e_bytes k es i)"
  by (simp add: e_all_Suc)

lemma DecodeEntry_at:
  assumes B: "block_in mem k es R N" and i: "i < length es"
  defines "key \<equiv> fst (es ! i)" and "val \<equiv> snd (es ! i)" and "sh \<equiv> e_shared k es i"
  obtains q where "DecodeEntry mem (e_off k es i) (unat R) = Some (of_nat sh, of_nat (length key - sh), of_nat (length val), q)"
    and "bytes_at mem q (length key - sh) = drop sh key" and "q + (length key - sh) = e_off k es (Suc i) - length val"
    and "unat (of_nat sh :: uint32) = sh" and "unat (of_nat (length key - sh) :: uint32) = length key - sh"
    and "unat (of_nat (length val) :: uint32) = length val" and "e_off k es i < unat R"
proof -
  let ?p = "e_off k es i" and ?R = "unat R"
  let ?v = "\<lambda>n. EncodeVarint32 (of_nat n)"
  have e: "e_bytes k es i = ?v sh @ ?v (length key - sh) @ ?v (length val) @ drop sh key @ val"
    by (simp only: e_bytes_def key_def val_def sh_def)
  obtain rest where bytes: "bytes_at mem ?p (?R - ?p) = e_bytes k es i @ rest"
    and len: "length (e_bytes k es i @ rest) = ?R - ?p" using entry_at [OF B i] by blast
  have pR: "?p < ?R" using e_off_less [OF i, of k es] B by (simp add: block_in_def)
  have lim: "?R < 2 ^ 32" using unat_less_pow [of R] by simp
  have keylen: "length key < 2 ^ 32" using B i by (simp add: block_in_def list_all_length split_beta key_def)
  have "length val \<le> ?R - ?p" unfolding len [symmetric] e by (simp only: length_append)
  then have vallen: "length val < 2 ^ 32" "sh \<le> length key" using lim by (simp_all add: e_shared_le sh_def key_def)
  then have u: "unat (of_nat sh :: uint32) = sh" "unat (of_nat (length key - sh) :: uint32) = length key - sh"
      "unat (of_nat (length val) :: uint32) = length val"
    using keylen by (simp_all add: unat_of_nat del: of_nat_diff)
  have bytes': "bytes_at mem ?p (?R - ?p) = ?v sh @ ?v (length key - sh) @ ?v (length val) @ (drop sh key @ val @ rest)"
    using bytes by (simp only: e append_assoc)
  define q where "q = ?R - length (drop sh key @ val @ rest)"
  have dec: "DecodeEntry mem ?p ?R = Some (of_nat sh, of_nat (length key - sh), of_nat (length val), q)"
    unfolding q_def by (rule DecodeEntry_enc [OF bytes']) (use pR lim in \<open>simp_all add: u del: of_nat_diff\<close>)
  let ?h = "length (?v sh) + length (?v (length key - sh)) + length (?v (length val))"
  have n: "?R - ?p = ?h + length (drop sh key @ val @ rest)" unfolding len [symmetric] e by (simp only: length_append add.assoc)
  then have q: "q = ?p + ?h" using pR unfolding q_def by linarith
  have "bytes_at mem q (length (drop sh key @ val @ rest)) = drop sh key @ val @ rest"
    using bytes' unfolding n bytes_at_add [of mem ?p] q by (simp add: append_eq_append_conv del: of_nat_diff)
  then have "bytes_at mem q (length (drop sh key)) = drop sh key" by (rule bytes_at_take)
  then have k: "bytes_at mem q (length key - sh) = drop sh key" by simp
  have "q + (length key - sh) = e_off k es (Suc i) - length val"
    unfolding q e_off_Suc e by (simp only: length_append length_drop)
  from that [OF dec k this u pR] show ?thesis .
qed

lemma ParseNextKey_entry:
  assumes B: "block_in mem k es R N" and it: "iter_on mem R N it" and "before_entry k es it i" and i: "i < length es"
  shows "\<exists>it'. ParseNextKey it = (True, it') \<and> at_entry k es it' i \<and> iter_on mem R N it'"
proof -
  define key where "key = fst (es ! i)"
  define val where "val = snd (es ! i)"
  define sh where "sh = e_shared k es i"
  define ns where "ns = length key - sh"
  obtain q where dec: "DecodeEntry mem (e_off k es i) (unat R) = Some (of_nat sh, of_nat ns, of_nat (length val), q)"
    and bytes: "bytes_at mem q ns = drop sh key" and off: "q + ns = e_off k es (Suc i) - length val"
    and u: "unat (of_nat sh :: uint32) = sh" "unat (of_nat ns :: uint32) = ns" "unat (of_nat (length val) :: uint32) = length val"
    and pR: "e_off k es i < unat R"
    by (rule DecodeEntry_at [OF B i]) (simp only: key_def val_def sh_def ns_def)
  have before: "unat (NextEntryOffset it) = e_off k es i" "sh \<le> length (bi_key it)" "take sh (bi_key it) = take sh key"
      "unat (bi_restart_index it) * k \<le> i" "unat (bi_restart_index it) < num_points k (length es)"
    using assms(3) i unat_e_off [OF B, of i] by (simp_all add: before_entry_def sh_def key_def)
  define it1 where "it1 = it\<lparr>bi_current := NextEntryOffset it, bi_key := take sh (bi_key it) @ bytes_at mem q ns,
      bi_value := (q + ns, length val)\<rparr>"
  have on1: "iter_on mem R N it1" using it by (simp add: iter_on_def it1_def)
  have "ParseNextKey it = (True, advance_restart it1)"
    using it pR dec before(1,2) u unfolding it1_def by (simp add: ParseNextKey_def Let_def iter_on_def)
  moreover have "at_entry k es (advance_restart it1) i"
  proof -
    have f: "bi_current it1 = of_nat (e_off k es i)" "bi_key it1 = key" "bi_value it1 = (e_off k es (Suc i) - length val, length val)"
        "bi_restart_index it1 = bi_restart_index it"
      using assms(3) by (simp_all add: it1_def bytes off before(3) before_entry_def)
    show ?thesis
      using advance_restart_index [OF B on1 i f(1)] before(4,5) i
      by (simp add: at_entry_def advance_restart_keeps f key_def val_def)
  qed
  moreover have "iter_on mem R N (advance_restart it1)" using on1 by (simp add: iter_on_def advance_restart_keeps)
  ultimately show ?thesis by blast
qed

lemma ParseNextKey_end:
  assumes "block_in mem k es R N" and "iter_on mem R N it" and "before_entry k es it (length es)"
  shows "\<exists>it'. ParseNextKey it = (False, it') \<and> \<not> BlockIter_Valid it' \<and> iter_on mem R N it'"
  using assms unat_e_off [OF assms(1), of "length es"]
  by (auto simp: ParseNextKey_def Let_def before_entry_def iter_on_def block_in_def BlockIter_Valid_def)

lemma at_entry_next: "block_in mem k es R N \<Longrightarrow> at_entry k es it i \<Longrightarrow> before_entry k es it (Suc i)"
proof -
  assume B: "block_in mem k es R N" and it: "at_entry k es it i"
  have "length (snd (es ! i)) \<le> e_off k es (Suc i)" by (simp add: e_all_Suc e_bytes_def)
  then have "NextEntryOffset it = of_nat (e_off k es (Suc i))" using it by (simp add: NextEntryOffset_def at_entry_def)
  with it show ?thesis
    by (auto simp: before_entry_def at_entry_def e_shared_def shared_bytes_le intro: shared_bytes_take)
qed

text \<open>A position in the list of entries; behind the last entry the iterator is not valid.\<close>

definition cursor :: "(nat \<Rightarrow> byte) \<Rightarrow> nat \<Rightarrow> (slice \<times> slice) list \<Rightarrow> uint32 \<Rightarrow> uint32 \<Rightarrow> BlockIter \<Rightarrow> nat \<Rightarrow> bool" where
  "cursor mem k es R N it p \<longleftrightarrow> iter_on mem R N it \<and>
     (if p < length es then at_entry k es it p else \<not> BlockIter_Valid it)"

lemma ParseNextKey_cursor:
  assumes "block_in mem k es R N" and "iter_on mem R N it" and "before_entry k es it i"
  shows "\<exists>it'. ParseNextKey it = (i < length es, it') \<and> cursor mem k es R N it' i"
proof (cases "i < length es")
  case True
  with ParseNextKey_entry [OF assms True] show ?thesis by (auto simp: cursor_def)
next
  case False
  with assms(3) have "i = length es" by (simp add: before_entry_def)
  with ParseNextKey_end [OF assms(1,2)] assms(3) show ?thesis by (auto simp: cursor_def)
qed

lemma skip_to_cursor:
  assumes "block_in mem k es R N" and "iter_on mem R N it" and "before_entry k es it i" and "i < m" and "m \<le> length es"
    and "bound = of_nat (e_off k es m)"
  shows "cursor mem k es R N (skip_to bound it) (m - 1)"
  using assms
proof (induction "m - i" arbitrary: i it)
  case (Suc d)
  have i: "i < length es" using Suc.prems(4,5) by simp
  obtain it' where it': "ParseNextKey it = (True, it')" "cursor mem k es R N it' i" "iter_on mem R N it'" "at_entry k es it' i"
    using ParseNextKey_cursor [OF Suc.prems(1-3)] i by (auto simp: cursor_def)
  note nxt = at_entry_next [OF Suc.prems(1) it'(4)]
  have "NextEntryOffset it' < bound \<longleftrightarrow> Suc i < m"
  proof -
    have "NextEntryOffset it' = of_nat (e_off k es (Suc i))" using nxt by (simp add: before_entry_def)
    then show ?thesis
      unfolding Suc.prems(6) word_less_nat_alt using unat_e_off [OF Suc.prems(1), of "Suc i"] unat_e_off [OF Suc.prems(1), of m]
        i Suc.prems(5) e_off_less_iff by simp
  qed
  then have step: "skip_to bound it = (if Suc i < m then skip_to bound it' else it')"
    using it'(1) by (subst skip_to.simps) simp
  show ?case
  proof (cases "Suc i < m")
    case True
    from Suc.hyps(1) [OF _ Suc.prems(1) it'(3) nxt True Suc.prems(5,6)] Suc.hyps(2) True show ?thesis
      by (simp add: step)
  next
    case False
    with Suc.prems(4) have "m - 1 = i" by simp
    with it'(2) False show ?thesis by (simp add: step)
  qed
qed simp

lemma cursor_SeekToFirst:
  assumes "block_in mem k es R N" and "iter_on mem R N it"
  shows "cursor mem k es R N (BlockIter_SeekToFirst it) 0"
proof -
  have "unat (0 :: uint32) < num_points k (length es)" by (simp add: num_points_def)
  from SeekToRestartPoint_before [OF assms this] ParseNextKey_cursor [OF assms(1), of "SeekToRestartPoint it 0" 0]
  show ?thesis by (auto simp: BlockIter_SeekToFirst_def)
qed

lemma cursor_Next:
  assumes "block_in mem k es R N" and "cursor mem k es R N it p" and "p < length es"
  shows "cursor mem k es R N (BlockIter_Next it) (Suc p)"
  using ParseNextKey_cursor [OF assms(1), of it "Suc p"] assms at_entry_next [OF assms(1), of it p]
  by (auto simp: BlockIter_Next_def cursor_def)

lemma cursor_SeekToLast:
  assumes "block_in mem k es R N" and "iter_on mem R N it"
  shows "cursor mem k es R N (BlockIter_SeekToLast it) (length es - 1)"
proof -
  let ?j = "N - 1"
  have N: "unat N = num_points k (length es)" and k: "0 < k" using assms(1) by (simp_all add: block_in_def)
  have "0 < num_points k (length es)" by (simp add: num_points_def)
  with N have "N \<noteq> 0" by auto
  then have j: "unat ?j = num_points k (length es) - 1" by (simp add: unat_minus_one N)
  then have jn: "unat ?j < num_points k (length es)" using \<open>0 < num_points k (length es)\<close> by simp
  note s = SeekToRestartPoint_before [OF assms jn]
  have last: "BlockIter_SeekToLast it = skip_to R (SeekToRestartPoint it ?j)"
    using assms(2) by (simp add: BlockIter_SeekToLast_def iter_on_def)
  show ?thesis
  proof (cases "es = []")
    case True
    with j s have b: "before_entry k es (SeekToRestartPoint it ?j) 0" by (simp add: num_points_def)
    from ParseNextKey_cursor [OF assms(1) conjunct2 [OF s] b] True show ?thesis
      unfolding last by (subst skip_to.simps) auto
  next
    case False
    have R: "R = of_nat (e_off k es (length es))" 
      by (rule word_unat_eq_iff [THEN iffD2]) (use assms(1) unat_e_off [OF assms(1)] in \<open>simp add: block_in_def\<close>)
    have "unat ?j * k < length es" using num_points_bound(2) [OF k jn] False by simp
    from skip_to_cursor [OF assms(1) conjunct2 [OF s] conjunct1 [OF s] this order_refl R] show ?thesis by (simp add: last)
  qed
qed

lemma prev_restart_found:
  assumes "block_in mem k es R N" and "iter_on mem R N it" and "at_entry k es it i" and "0 < i"
  shows "\<exists>j. unat j * k < i \<and> unat j < num_points k (length es) \<and>
    prev_restart (of_nat (e_off k es i)) it = (True, it\<lparr>bi_restart_index := j\<rparr>)"
proof -
  let ?r = "bi_restart_index it" and ?o = "of_nat (e_off k es i) :: uint32"
  have k: "0 < k" using assms(1) by (simp add: block_in_def)
  have r: "unat ?r * k \<le> i" "i < length es" "unat ?r < num_points k (length es)" using assms(3) by (simp_all add: at_entry_def)
  have ge: "GetRestartPoint it' j \<ge> ?o \<longleftrightarrow> i \<le> unat j * k"
    if "iter_on mem R N it'" "unat j < num_points k (length es)" for it' j
  proof -
    have "unat j * k \<le> length es" using num_points_bound(1) [OF k that(2)] .
    then show ?thesis
      unfolding GetRestartPoint_at [OF assms(1) that] word_le_nat_alt
      using unat_e_off [OF assms(1), of i] unat_e_off [OF assms(1), of "unat j * k"] r(2)
        e_off_less_iff [of k es "unat j * k" i] by (simp add: not_less [symmetric])
  qed
  show ?thesis
  proof (cases "i \<le> unat ?r * k")
    case False
    then have "prev_restart ?o it = (True, it)" using ge [OF assms(2) r(3)] by (subst prev_restart.simps) simp
    with False r(3) show ?thesis by (intro exI [of _ ?r]) simp
  next
    case True
    with r(1) have eq: "unat ?r * k = i" by simp
    with assms(4) have nz: "?r \<noteq> 0" by auto
    have dec: "unat (?r - 1) = unat ?r - 1" using nz by (simp add: unat_minus_one)
    let ?it = "it\<lparr>bi_restart_index := ?r - 1\<rparr>"
    have on: "iter_on mem R N ?it" using assms(2) by (simp add: iter_on_def)
    have lt: "unat (?r - 1) * k < i" using eq k assms(4) by (simp add: dec diff_mult_distrib)
    have np: "unat (?r - 1) < num_points k (length es)" using dec r(3) by simp
    have "prev_restart ?o it = prev_restart ?o ?it" using ge [OF assms(2) r(3)] True nz by (subst prev_restart.simps) simp
    also have "\<dots> = (True, ?it)" using ge [OF on np] lt by (subst prev_restart.simps) simp
    finally show ?thesis using lt np by blast
  qed
qed

lemma cursor_Prev:
  assumes "block_in mem k es R N" and "cursor mem k es R N it p" and "p < length es"
  shows "cursor mem k es R N (BlockIter_Prev it) (if p = 0 then length es else p - 1)"
proof -
  have on: "iter_on mem R N it" and at: "at_entry k es it p" using assms(2,3) by (simp_all add: cursor_def)
  have cur: "bi_current it = of_nat (e_off k es p)" using at by (simp add: at_entry_def)
  show ?thesis
  proof (cases "p = 0")
    case True
    have k: "0 < k" using assms(1) by (simp add: block_in_def)
    have r0: "bi_restart_index it = 0" using at True k by (simp add: at_entry_def unat_eq_0)
    have "GetRestartPoint it 0 = 0"
      using GetRestartPoint_at [OF assms(1) on, of 0] by (simp add: num_points_def e_all_def)
    then have "BlockIter_Prev it = it\<lparr>bi_current := bi_restarts it, bi_restart_index := bi_num_restarts it\<rparr>"
      using True cur r0 by (simp add: BlockIter_Prev_def prev_restart.simps e_all_def)
    with on True show ?thesis by (simp add: cursor_def iter_on_def BlockIter_Valid_def)
  next
    case False
    then have "0 < p" by simp
    from prev_restart_found [OF assms(1) on at this] obtain j where
      j: "unat j * k < p" "unat j < num_points k (length es)" "prev_restart (bi_current it) it = (True, it\<lparr>bi_restart_index := j\<rparr>)"
      unfolding cur by blast
    let ?it = "it\<lparr>bi_restart_index := j\<rparr>"
    have on': "iter_on mem R N ?it" using on by (simp add: iter_on_def)
    note s = SeekToRestartPoint_before [OF assms(1) on' j(2)]
    have "BlockIter_Prev it = skip_to (bi_current it) (SeekToRestartPoint ?it j)"
      using j(3) by (simp add: BlockIter_Prev_def Let_def)
    with skip_to_cursor [OF assms(1) conjunct2 [OF s] conjunct1 [OF s] j(1) _ cur] assms(3) False show ?thesis by simp
  qed
qed

lemma num_points_small:
  assumes "block_in mem k es R N"
  shows "num_points k (length es) < 2 ^ 31"
proof -
  have "3 * n \<le> e_off k es n" for n
  proof (induction n)
    case (Suc n)
    then show ?case using length_e_bytes [of k es n] by (simp add: e_all_Suc)
  qed simp
  from this [of "length es"] block_in_size [OF assms, of "length es"] have "length es < 2 ^ 31" by simp
  moreover have "(length es - 1) div k \<le> length es - 1" by (rule div_le_dividend)
  ultimately have "length es \<noteq> 0 \<Longrightarrow> (length es - 1) div k + 1 < 2 ^ 31" by linarith
  then show ?thesis by (auto simp: num_points_def)
qed

text \<open>The binary search ends at the last restart point with a smaller key, or at the first one.\<close>

lemma seek_binary_correct:
  fixes es :: "(slice \<times> slice) list" and k :: nat and compare target
  defines "P \<equiv> \<lambda>j. compare (fst (es ! (j * k))) target < 0"
  assumes B: "block_in mem k es R N" and "iter_on mem R N it" and "unat right < num_points k (length es)" and "left \<le> right"
    and "es \<noteq> []" and "left = 0 \<or> P (unat left)" and "\<forall>j. unat right < j \<and> j < num_points k (length es) \<longrightarrow> \<not> P j"
    and down: "\<forall>i j. i < j \<and> j < num_points k (length es) \<and> P j \<longrightarrow> P i"
  shows "\<exists>l. seek_binary compare target it left right = Some (Some l) \<and> unat l < num_points k (length es) \<and>
    (l = 0 \<or> P (unat l)) \<and> (\<forall>j. unat l < j \<and> j < num_points k (length es) \<longrightarrow> \<not> P j)"
  using assms(4-8)
proof (induction "unat right - unat left" arbitrary: left right rule: less_induct)
  case less
  have k: "0 < k" and data: "bi_data it = mem" "bi_restarts it = R" using B assms(3) by (simp_all add: block_in_def iter_on_def)
  show ?case
  proof (cases "left < right")
    case False
    with less.prems(2) have "left = right" by simp
    with False less.prems show ?thesis by (subst seek_binary.simps) auto
  next
    case True
    let ?mid = "(left + right + 1) div 2"
    have lr: "unat left < unat right" using True by (simp add: word_less_nat_alt)
    have small: "unat left + unat right + 1 < 2 ^ 32" using less.prems(1) num_points_small [OF B] lr by simp
    have mid: "unat ?mid = (unat left + unat right + 1) div 2"
      using small by (simp add: unat_div unat_word_ariths(1) del: unat_add_no_wrap)
    then have m: "unat left < unat ?mid" "unat ?mid \<le> unat right" using lr by simp_all
    then have mp: "unat ?mid < num_points k (length es)" using less.prems(1) by simp
    then have i: "unat ?mid * k < length es" using num_points_bound(2) [OF k] less.prems(3) by simp
    have "GetRestartPoint it ?mid = of_nat (e_off k es (unat ?mid * k))" by (rule GetRestartPoint_at [OF B assms(3) mp])
    then have off: "unat (GetRestartPoint it ?mid) = e_off k es (unat ?mid * k)"
      using unat_e_off [OF B, of "unat ?mid * k"] i by simp
    have sh: "e_shared k es (unat ?mid * k) = 0" by (simp add: e_shared_def)
    obtain q v where dec: "DecodeEntry mem (e_off k es (unat ?mid * k)) (unat R) =
        Some (0, of_nat (length (fst (es ! (unat ?mid * k)))), v, q)"
      and key: "bytes_at mem q (unat (of_nat (length (fst (es ! (unat ?mid * k)))) :: uint32)) = fst (es ! (unat ?mid * k))"
      by (rule DecodeEntry_at [OF B i]) (simp add: sh)
    have step: "seek_binary compare target it left right =
        (if P (unat ?mid) then seek_binary compare target it ?mid right else seek_binary compare target it left (?mid - 1))"
      using True by (subst seek_binary.simps) (simp add: Let_def off data dec key P_def)
    show ?thesis
    proof (cases "P (unat ?mid)")
      case P: True
      have "unat right - unat ?mid < unat right - unat left" using m lr by linarith
      from less.hyps [OF this less.prems(1) _ less.prems(3) _ less.prems(5)] P m show ?thesis
        by (simp add: step word_le_nat_alt)
    next
      case no: False
      have "?mid \<noteq> 0" using m(1) by auto
      then have dec1: "unat (?mid - 1) = unat ?mid - 1" by (simp add: unat_minus_one)
      have mono: "\<not> P j" if "unat ?mid - 1 < j" "j < num_points k (length es)" for j
      proof (cases "j = unat ?mid")
        case False
        with that(1) have "unat ?mid < j" by linarith
        with that(2) no down show ?thesis by blast
      qed (use no in simp)
      have "unat (?mid - 1) - unat left < unat right - unat left" using m dec1 by linarith
      from less.hyps [OF this _ _ less.prems(3,4)] no m mp mono show ?thesis
        by (simp add: step dec1 word_le_nat_alt)
    qed
  qed
qed

lemma seek_linear_cursor:
  assumes "block_in mem k es R N" and "iter_on mem R N it" and "before_entry k es it i" and "i \<le> p" and "p \<le> length es"
    and "\<forall>j. i \<le> j \<and> j < p \<longrightarrow> compare (fst (es ! j)) target < 0"
    and "p < length es \<longrightarrow> \<not> compare (fst (es ! p)) target < 0"
  shows "cursor mem k es R N (seek_linear compare target it) p"
  using assms
proof (induction "p - i" arbitrary: i it)
  case 0
  then have i: "i = p" by simp
  from ParseNextKey_cursor [OF "0.prems"(1-3)] obtain it' where
    it': "ParseNextKey it = (p < length es, it')" "cursor mem k es R N it' p" unfolding i by blast
  then have "p < length es \<Longrightarrow> bi_key it' = fst (es ! p)" by (simp add: cursor_def at_entry_def)
  with it' "0.prems"(7) show ?case by (subst seek_linear.simps) (auto simp: not_less)
next
  case (Suc d)
  then have i: "i < p" "i < length es" by simp_all
  from ParseNextKey_cursor [OF Suc.prems(1-3)] obtain it' where
    it': "ParseNextKey it = (True, it')" "cursor mem k es R N it' i" using i by auto
  then have at: "at_entry k es it' i" "iter_on mem R N it'" using i by (simp_all add: cursor_def)
  then have "bi_key it' = fst (es ! i)" by (simp add: at_entry_def)
  moreover have "compare (fst (es ! i)) target < 0" using Suc.prems(6) i by simp
  ultimately have step: "seek_linear compare target it = seek_linear compare target it'"
    using it'(1) by (subst seek_linear.simps) simp
  show ?case
    unfolding step
    by (rule Suc.hyps(1) [OF _ Suc.prems(1) at(2) at_entry_next [OF Suc.prems(1) at(1)]])
      (use Suc.hyps(2) Suc.prems i in auto)
qed

lemma cursor_Seek:
  assumes "block_in mem k es R N" and "iter_on mem R N it"
    and sorted: "\<forall>i j. i < j \<and> j < length es \<and> compare (fst (es ! j)) target < 0 \<longrightarrow> compare (fst (es ! i)) target < 0"
  defines "p \<equiv> length (takeWhile (\<lambda>e. compare (fst e) target < 0) es)"
  shows "\<exists>it'. BlockIter_Seek compare it target = Some it' \<and> cursor mem k es R N it' p"
proof -
  let ?P = "\<lambda>e. compare (fst e) target < 0"
  have k: "0 < k" and N: "unat N = num_points k (length es)" "bi_num_restarts it = N"
    using assms(1,2) by (simp_all add: block_in_def iter_on_def)
  have pos: "0 < num_points k (length es)" by (simp add: num_points_def)
  with N have "N \<noteq> 0" by auto
  then have N1: "unat (N - 1) = num_points k (length es) - 1" by (simp add: unat_minus_one N)
  have p: "p \<le> length es" "\<And>j. j < p \<Longrightarrow> ?P (es ! j)" "p < length es \<Longrightarrow> \<not> ?P (es ! p)"
    unfolding p_def
    by (simp add: length_takeWhile_le, metis nth_mem set_takeWhileD takeWhile_nth) (rule nth_length_takeWhile)
  have "\<exists>l. seek_binary compare target it 0 (N - 1) = Some (Some l) \<and> unat l < num_points k (length es) \<and> unat l * k \<le> p"
  proof (cases "es = []")
    case True
    then have "N - 1 = 0" using N1 by (simp add: num_points_def unat_eq_0)
    then show ?thesis using True by (intro exI [of _ 0]) (simp add: seek_binary.simps num_points_def)
  next
    case False
    have down: "\<forall>i j. i < j \<and> j < num_points k (length es) \<and> ?P (es ! (j * k)) \<longrightarrow> ?P (es ! (i * k))"
    proof (intro allI impI)
      fix i j
      assume a: "i < j \<and> j < num_points k (length es) \<and> ?P (es ! (j * k))"
      then have "i * k < j * k" "j * k < length es" using k num_points_bound(2) [OF k, of j "length es"] False by simp_all
      with a sorted show "?P (es ! (i * k))" by blast
    qed
    have "\<exists>l. seek_binary compare target it 0 (N - 1) = Some (Some l) \<and> unat l < num_points k (length es) \<and>
      (l = 0 \<or> compare (fst (es ! (unat l * k))) target < 0) \<and>
      (\<forall>j. unat l < j \<and> j < num_points k (length es) \<longrightarrow> \<not> compare (fst (es ! (j * k))) target < 0)"
      by (rule seek_binary_correct [where compare = compare and target = target, OF assms(1,2) _ _ False _ _ down]) (use N1 pos in auto)
    then obtain l where l: "seek_binary compare target it 0 (N - 1) = Some (Some l)" "unat l < num_points k (length es)"
      "l = 0 \<or> ?P (es ! (unat l * k))" by blast
    have "unat l * k \<le> p"
    proof (rule ccontr)
      assume "\<not> unat l * k \<le> p"
      then have "p < unat l * k" "l \<noteq> 0" by auto
      moreover have in_es: "unat l * k < length es" using num_points_bound(2) [OF k l(2)] False by simp
      moreover have "?P (es ! (unat l * k))" using l(3) calculation(2) by simp
      ultimately have "?P (es ! p)" using sorted by blast
      then show False using p(3) \<open>p < unat l * k\<close> in_es by simp
    qed
    with l show ?thesis by blast
  qed
  then obtain l where l: "seek_binary compare target it 0 (N - 1) = Some (Some l)" "unat l < num_points k (length es)" "unat l * k \<le> p"
    by blast
  note s = SeekToRestartPoint_before [OF assms(1,2) l(2)]
  have "cursor mem k es R N (seek_linear compare target (SeekToRestartPoint it l)) p"
    by (rule seek_linear_cursor [OF assms(1) conjunct2 [OF s] conjunct1 [OF s] l(3) p(1)]) (use p(2,3) in auto)
  with l(1) N(2) show ?thesis by (simp add: BlockIter_Seek_def)
qed

section \<open>Operations on an iterator\<close>

datatype block_op = OpFirst | OpLast | OpNext | OpPrev | OpSeek slice

fun iter_op :: "(slice \<Rightarrow> slice \<Rightarrow> int) \<Rightarrow> BlockIter \<Rightarrow> block_op \<Rightarrow> BlockIter option" where
  "iter_op compare it OpFirst = Some (BlockIter_SeekToFirst it)"
| "iter_op compare it OpLast = Some (BlockIter_SeekToLast it)"
| "iter_op compare it OpNext = Some (BlockIter_Next it)"
| "iter_op compare it OpPrev = Some (BlockIter_Prev it)"
| "iter_op compare it (OpSeek target) = BlockIter_Seek compare it target"

fun iter_ops :: "(slice \<Rightarrow> slice \<Rightarrow> int) \<Rightarrow> BlockIter \<Rightarrow> block_op list \<Rightarrow> BlockIter option" where
  "iter_ops compare it [] = Some it"
| "iter_ops compare it (op # ops) = Option.bind (iter_op compare it op) (\<lambda>it. iter_ops compare it ops)"

text \<open>The same on a position in a list; the length of the list is the position of an iterator that is not valid. \<open>Next\<close>
  and \<open>Prev\<close> need a valid one.\<close>

fun pos_op :: "(slice \<Rightarrow> slice \<Rightarrow> int) \<Rightarrow> (slice \<times> slice) list \<Rightarrow> nat \<Rightarrow> block_op \<Rightarrow> nat option" where
  "pos_op compare es p OpFirst = Some 0"
| "pos_op compare es p OpLast = Some (length es - 1)"
| "pos_op compare es p OpNext = (if p < length es then Some (Suc p) else None)"
| "pos_op compare es p OpPrev = (if p < length es then Some (if p = 0 then length es else p - 1) else None)"
| "pos_op compare es p (OpSeek target) = Some (length (takeWhile (\<lambda>e. compare (fst e) target < 0) es))"

fun pos_ops :: "(slice \<Rightarrow> slice \<Rightarrow> int) \<Rightarrow> (slice \<times> slice) list \<Rightarrow> nat \<Rightarrow> block_op list \<Rightarrow> nat option" where
  "pos_ops compare es p [] = Some p"
| "pos_ops compare es p (op # ops) = Option.bind (pos_op compare es p op) (\<lambda>p. pos_ops compare es p ops)"

fun seek_ok :: "(slice \<Rightarrow> bool) \<Rightarrow> block_op \<Rightarrow> bool" where
  "seek_ok ok (OpSeek target) \<longleftrightarrow> ok target"
| "seek_ok ok _ \<longleftrightarrow> True"

text \<open>Entries with ascending keys that the comparator covers.\<close>

definition entries_ok :: "(slice \<Rightarrow> slice \<Rightarrow> int) \<Rightarrow> (slice \<Rightarrow> bool) \<Rightarrow> (slice \<times> slice) list \<Rightarrow> bool" where
  "entries_ok compare ok es \<longleftrightarrow> sorted_wrt (\<lambda>a b. compare (fst a) (fst b) < 0) es \<and>
     list_all (\<lambda>e. ok (fst e) \<and> length (fst e) < 2 ^ 32) es"

lemma entries_down:
  assumes "key_order compare ok" and "entries_ok compare ok es" and "ok target" and "i < j" and "j < length es" and "compare (fst (es ! j)) target < 0"
  shows "compare (fst (es ! i)) target < 0"
proof -
  have "compare (fst (es ! i)) (fst (es ! j)) < 0" "ok (fst (es ! i))" "ok (fst (es ! j))"
    using assms(2,4,5) by (auto simp: entries_ok_def sorted_wrt_iff_nth_less list_all_length)
  with assms(3,6) show ?thesis using key_order.less_trans [OF assms(1)] by blast
qed

lemma iter_op_cursor:
  assumes "block_in mem k es R N" and "entries_ok compare ok es" and "cursor mem k es R N it p"
    and "pos_op compare es p op = Some q" and "seek_ok ok op" and "key_order compare ok"
  shows "\<exists>it'. iter_op compare it op = Some it' \<and> cursor mem k es R N it' q"
proof -
  have on: "iter_on mem R N it" using assms(3) by (simp add: cursor_def)
  show ?thesis
  proof (cases op)
    case OpFirst
    with cursor_SeekToFirst [OF assms(1) on] assms(4) show ?thesis by simp
  next
    case OpLast
    with cursor_SeekToLast [OF assms(1) on] assms(4) show ?thesis by simp
  next
    case OpNext
    with cursor_Next [OF assms(1,3)] assms(4) show ?thesis by (auto split: if_splits)
  next
    case OpPrev
    with cursor_Prev [OF assms(1,3)] assms(4) show ?thesis by (auto split: if_splits)
  next
    case (OpSeek target)
    then have "\<forall>i j. i < j \<and> j < length es \<and> compare (fst (es ! j)) target < 0 \<longrightarrow> compare (fst (es ! i)) target < 0"
      using entries_down [OF assms(6,2)] assms(5) by auto
    from cursor_Seek [where compare = compare and target = target, OF assms(1) on this] OpSeek assms(4) show ?thesis by simp
  qed
qed

lemma iter_ops_cursor:
  assumes "block_in mem k es R N" and "entries_ok compare ok es" and "cursor mem k es R N it p"
    and "pos_ops compare es p ops = Some q" and "list_all (seek_ok ok) ops" and "key_order compare ok"
  shows "\<exists>it'. iter_ops compare it ops = Some it' \<and> cursor mem k es R N it' q"
  using assms(3-5)
proof (induction ops arbitrary: it p)
  case (Cons op ops)
  from Cons.prems(2) obtain p' where p': "pos_op compare es p op = Some p'" "pos_ops compare es p' ops = Some q"
    by (auto simp: bind_eq_Some_conv)
  from iter_op_cursor [OF assms(1,2) Cons.prems(1) p'(1) _ assms(6)] Cons.prems(3) obtain it' where
    it': "iter_op compare it op = Some it'" "cursor mem k es R N it' p'" by auto
  from Cons.IH [OF it'(2) p'(2)] Cons.prems(3) it'(1) show ?case by simp
qed simp

section \<open>Properties\<close>

lemma length_concat_fixed: "length (concat (map (\<lambda>j. to_bytes 4 (f j :: uint32)) xs)) = 4 * length xs"
  by (induction xs) simp_all

lemma concat_fixed_nth:
  "j < length xs \<Longrightarrow> take 4 (drop (4 * j) (concat (map (\<lambda>j. to_bytes 4 (f j :: uint32)) xs))) = to_bytes 4 (f (xs ! j))"
proof (induction xs arbitrary: j)
  case (Cons x xs)
  then show ?case by (cases j) simp_all
qed simp

lemma block_in_bytes:
  assumes "0 < k" and "list_all (\<lambda>(key, val). length key < 2 ^ 32) es" and "bytes_at mem 0 (length (block_bytes k es)) = block_bytes k es"
    and "length (block_bytes k es) < 2 ^ 32"
  shows "\<exists>R N. Block_NewIterator (Block_new mem (length (block_bytes k es))) = Inr (Some (BlockIter_new mem R N)) \<and> block_in mem k es R N"
proof -
  let ?n = "length es" and ?np = "num_points k (length es)" and ?bs = "block_bytes k es"
  let ?rs = "concat (map (\<lambda>j. to_bytes 4 (of_nat (e_off k es (j * k)) :: uint32)) [0..<?np])"
  have bs: "?bs = e_all k es ?n @ ?rs @ to_bytes 4 (of_nat ?np :: uint32)" by (simp add: block_bytes_def)
  have len: "length ?bs = e_off k es ?n + 4 * ?np + 4" unfolding bs by (simp add: length_concat_fixed)
  have np: "?np < 2 ^ 30" "0 < ?np" using assms(4) len by (simp_all add: num_points_def)
  have at: "bytes_at mem a m = take m (drop a ?bs)" if "a + m \<le> length ?bs" for a m
    using bytes_at_sub [OF that, of mem] assms(3) by simp
  have num: "NumRestarts mem (length ?bs) = of_nat ?np"
    using at [of "length ?bs - 4" 4] len unfolding NumRestarts_def
    by (simp add: bs length_concat_fixed DecodeFixed32_bytes of_bytes_to_bytes)
  have unp: "unat (of_nat ?np :: uint32) = ?np" "unat (1 + of_nat ?np :: uint32) = 1 + ?np"
    using np by (simp_all add: unat_of_nat unat_word_ariths(1) del: unat_add_no_wrap)
  let ?R = "of_nat (e_off k es ?n) :: uint32"
  have blk: "Block_new mem (length ?bs) = \<lparr>bl_data = mem, bl_size = length ?bs, bl_restart_offset = ?R\<rparr>"
    unfolding Block_new_def num Let_def unp unfolding len by simp
  have "block_in mem k es ?R (of_nat ?np)"
    unfolding block_in_def
  proof (intro conjI allI impI)
    show "unat ?R = e_off k es ?n" using assms(4) len by (simp add: unat_of_nat)
    show "bytes_at mem 0 (e_off k es ?n) = e_all k es ?n" using at [of 0 "e_off k es ?n"] len by (simp add: bs)
    fix j
    assume j: "j < ?np"
    have "bytes_at mem (e_off k es ?n + j * 4) 4 = to_bytes 4 (of_nat (e_off k es (j * k)) :: uint32)"
      using at [of "e_off k es ?n + j * 4" 4] j len concat_fixed_nth [of j "[0..<?np]"]
      by (simp add: bs mult.commute)
    then show "DecodeFixed32 True (bytes_at mem (e_off k es ?n + j * 4) 4) = of_nat (e_off k es (j * k))"
      by (simp add: DecodeFixed32_bytes of_bytes_to_bytes)
  qed (use assms unp in simp_all)
  moreover have "(of_nat ?np :: uint32) \<noteq> 0" using unp(1) np(2) by auto
  moreover have "4 \<le> length ?bs" using len by simp
  ultimately show ?thesis by (auto simp: Block_NewIterator_def blk num Let_def)
qed

lemma entry_value:
  assumes "block_in mem k es R N" and "at_entry k es it i" and "iter_on mem R N it"
  shows "BlockIter_value it = snd (es ! i)"
proof -
  let ?v = "snd (es ! i)" and ?e = "e_off k es (Suc i)"
  have i: "i < length es" using assms(2) by (simp add: at_entry_def)
  obtain h where h: "e_all k es (Suc i) = h @ ?v" by (metis e_all_Suc e_bytes_def append.assoc)
  obtain rest where rest: "e_all k es (length es) = e_all k es (Suc i) @ rest"
    using e_all_split [OF i, of k es] by (metis e_all_Suc append.assoc)
  have "bytes_at mem (?e - length ?v) (length ?v) = take (length ?v) (drop (?e - length ?v) (bytes_at mem 0 (e_off k es (length es))))"
    by (rule bytes_at_sub) (simp add: h rest)
  also have "bytes_at mem 0 (e_off k es (length es)) = h @ ?v @ rest" using assms(1) h rest by (simp add: block_in_def)
  finally show ?thesis using assms(2,3) h by (simp add: BlockIter_value_def at_entry_def iter_on_def)
qed

lemma cursor_shows:
  assumes "block_in mem k es R N" and "cursor mem k es R N it p"
  shows "bi_status it = Status_OK \<and> (BlockIter_Valid it \<longleftrightarrow> p < length es) \<and>
    (p < length es \<longrightarrow> bi_key it = fst (es ! p) \<and> BlockIter_value it = snd (es ! p))"
proof (cases "p < length es")
  case True
  then have at: "at_entry k es it p" "iter_on mem R N it" using assms(2) by (simp_all add: cursor_def)
  then have "BlockIter_Valid it"
    using unat_e_off [OF assms(1), of p] True e_off_less [OF True, of k es] assms(1)
    by (simp add: BlockIter_Valid_def at_entry_def iter_on_def block_in_def word_less_nat_alt)
  with at True entry_value [OF assms(1) at] show ?thesis by (simp add: iter_on_def at_entry_def)
qed (use assms(2) in \<open>simp add: cursor_def iter_on_def\<close>)

text \<open>C10: a block that was built from entries with ascending keys, with any restart interval, is read back: an iterator on
  its bytes, after any sequence of seeks and steps in both directions, is valid exactly where a position in the list of
  the entries is, with the key and the value of that entry and without an error. A seek finds the first key that is not
  smaller than the target. All loops end.\<close>

theorem block_iterator_refines_list:
  assumes "0 < k" and "key_order compare ok" and "entries_ok compare ok es"
    and "bs = fst (BlockBuilder_Finish (foldl (\<lambda>b (key, val). BlockBuilder_Add k b key val) BlockBuilder_new es))"
    and "length bs < 2 ^ 32" and "bytes_at mem 0 (length bs) = bs"
    and "list_all (seek_ok ok) ops" and "pos_ops compare es (length es) ops = Some p"
  shows "\<exists>it it'. Block_NewIterator (Block_new mem (length bs)) = Inr (Some it) \<and> iter_ops compare it ops = Some it' \<and>
    bi_status it' = Status_OK \<and> (BlockIter_Valid it' \<longleftrightarrow> p < length es) \<and>
    (p < length es \<longrightarrow> bi_key it' = fst (es ! p) \<and> BlockIter_value it' = snd (es ! p))"
proof -
  have bs: "bs = block_bytes k es" using Finish_block [OF assms(1)] assms(4) by (simp add: build_def)
  have "list_all (\<lambda>(key, val). length key < 2 ^ 32) es" using assms(3) by (auto simp: entries_ok_def list_all_iff)
  from block_in_bytes [OF assms(1) this] assms(5,6) obtain R N where
    it: "Block_NewIterator (Block_new mem (length bs)) = Inr (Some (BlockIter_new mem R N))" and B: "block_in mem k es R N"
    unfolding bs by blast
  have "cursor mem k es R N (BlockIter_new mem R N) (length es)"
    by (simp add: cursor_def iter_on_def BlockIter_new_def BlockIter_Valid_def)
  from iter_ops_cursor [OF B assms(3) this assms(8,7,2)] obtain it' where
    "iter_ops compare (BlockIter_new mem R N) ops = Some it'" "cursor mem k es R N it' p" by blast
  with it cursor_shows [OF B] show ?thesis by blast
qed

text \<open>Three entries, a restart point at every second one.\<close>

definition example_entries :: "(slice \<times> slice) list" where
  "example_entries = [([1, 2], [7]), ([1, 3], []), ([4], [8, 9])]"

definition example_block :: slice where
  "example_block = fst (BlockBuilder_Finish (foldl (\<lambda>b (key, val). BlockBuilder_Add 2 b key val) BlockBuilder_new example_entries))"

theorem block_iterator_refines_list_witness:
  "\<exists>it it'. Block_NewIterator (Block_new (\<lambda>i. if i < length example_block then example_block ! i else 0) (length example_block)) =
       Inr (Some it) \<and>
     iter_ops (co_Compare BytewiseComparator) it [OpSeek [1, 2, 5], OpNext, OpPrev, OpPrev] = Some it' \<and>
     bi_status it' = Status_OK \<and> BlockIter_Valid it' \<and> bi_key it' = [1, 2] \<and> BlockIter_value it' = [7]"
proof -
  let ?mem = "\<lambda>i. if i < length example_block then example_block ! i else (0 :: byte)"
  let ?ops = "[OpSeek [1, 2, 5], OpNext, OpPrev, OpPrev]"
  have order: "key_order (co_Compare BytewiseComparator) (\<lambda>_. True)"
    by (rule comparator.order_key_order [OF bytewise.comparator_axioms])
  have es: "entries_ok (co_Compare BytewiseComparator) (\<lambda>_. True) example_entries"
    by (simp add: entries_ok_def example_entries_def BytewiseComparator_def Bytewise_Compare_def Slice_compare_def)
  have len: "length example_block < 2 ^ 32"
    by (simp add: example_block_def example_entries_def BlockBuilder_Finish_def BlockBuilder_Add_def BlockBuilder_new_def
        PutVarint32_def PutFixed32_def EncodeFixed_bytes EncodeVarint32_spec varint_spec_small Let_def)
  have mem: "bytes_at ?mem 0 (length example_block) = example_block"
    by (rule nth_equalityI) (simp_all add: bytes_at_def)
  have pos: "pos_ops (co_Compare BytewiseComparator) example_entries (length example_entries) ?ops = Some 0"
    by (simp add: example_entries_def BytewiseComparator_def Bytewise_Compare_def Slice_compare_def)
  have seeks: "list_all (seek_ok (\<lambda>_. True)) ?ops" by simp
  have "\<exists>it it'. Block_NewIterator (Block_new ?mem (length example_block)) = Inr (Some it) \<and>
      iter_ops (co_Compare BytewiseComparator) it ?ops = Some it' \<and> bi_status it' = Status_OK \<and>
      (BlockIter_Valid it' \<longleftrightarrow> 0 < length example_entries) \<and>
      (0 < length example_entries \<longrightarrow> bi_key it' = fst (example_entries ! 0) \<and> BlockIter_value it' = snd (example_entries ! 0))"
    by (rule block_iterator_refines_list [OF _ order es example_block_def len mem seeks pos]) simp
  then show ?thesis by (simp add: example_entries_def)
qed

definition wrapping_entry :: "nat \<Rightarrow> byte" where
  "wrapping_entry i = [0, 0xFF, 0xFF, 0xFF, 0xFF, 0x0F, 1] ! i"

text \<open>C11: the check of an entry against the end of the block. When the two lengths add up without wrapping around, the key
  delta and the value of an accepted entry lie inside the block, whatever its bytes are. The check adds in 32 bits, so
  that an entry with lengths that wrap around is accepted and its key delta reaches beyond the end of the block.\<close>

theorem block_entry_bounds:
  "(\<forall>data p limit shared non_shared value_length q.
      limit < 2 ^ 32 \<and> DecodeEntry data p limit = Some (shared, non_shared, value_length, q) \<and>
      unat non_shared + unat value_length < 2 ^ 32 \<longrightarrow>
      p < q \<and> q + unat non_shared + unat value_length \<le> limit) \<and>
   DecodeEntry wrapping_entry 0 7 = Some (0, 0xFFFFFFFF, 1, 7)"
proof (intro conjI allI impI)
  fix data p limit shared and non_shared value_length :: uint32 and q
  assume a: "limit < 2 ^ 32 \<and> DecodeEntry data p limit = Some (shared, non_shared, value_length, q) \<and>
      unat non_shared + unat value_length < 2 ^ 32"
  then have "unat (non_shared + value_length) = unat non_shared + unat value_length" by (simp add: unat_word_ariths(1))
  with a DecodeEntry_within [of data p limit shared non_shared value_length q]
  show "p < q" "q + unat non_shared + unat value_length \<le> limit" by auto
next
  have bytes: "bytes_at wrapping_entry 0 7 = [0, 0xFF, 0xFF, 0xFF, 0xFF, 0x0F, 1]"
    by (simp add: bytes_at_def wrapping_entry_def upt_rec)
  have e: "[0, 0xFF, 0xFF, 0xFF, 0xFF, 0x0F, 1] = EncodeVarint32 0 @ EncodeVarint32 0xFFFFFFFF @ EncodeVarint32 1 @ []"
    by (simp add: EncodeVarint32_def)
  have "GetVarint32Ptr (bytes_at wrapping_entry 0 7) = Some (0, EncodeVarint32 0xFFFFFFFF @ EncodeVarint32 1 @ [])"
    unfolding bytes e by (rule GetVarint32Ptr_spec)
  then show "DecodeEntry wrapping_entry 0 7 = Some (0, 0xFFFFFFFF, 1, 7)"
    using GetVarint32Ptr_spec [of 1 "[]"] GetVarint32Ptr_spec [of "0xFFFFFFFF" "EncodeVarint32 1"]
    by (simp add: DecodeEntry_def Let_def wrapping_entry_def)
qed

definition plain_entry :: "nat \<Rightarrow> byte" where
  "plain_entry i = [0, 1, 2, 10, 20, 21] ! i"

theorem block_entry_bounds_witness:
  "DecodeEntry plain_entry 0 6 = Some (0, 1, 2, 3) \<and> (0 :: nat) < 3 \<and> 3 + unat (1 :: uint32) + unat (2 :: uint32) \<le> 6"
proof -
  have d: "DecodeEntry plain_entry 0 6 = Some (0, 1, 2, 3)"
    by (simp add: DecodeEntry_def Let_def plain_entry_def)
  have "(0 :: nat) < 3 \<and> 3 + unat (1 :: uint32) + unat (2 :: uint32) \<le> 6"
    by (rule conjunct1 [OF block_entry_bounds, rule_format]) (use d in auto)
  with d show ?thesis by simp
qed

end
