(* ===== verification/Ldb_Filter.thy ===== *)
theory Ldb_Filter
  imports Ldb_Block
begin

text \<open>
  Filters of a table: the hash of \<open>util/hash.cc\<close>, the Bloom filter of \<open>util/bloom.cc\<close> and the filter block of
  \<open>table/filter_block.cc\<close>, which holds one filter for every two kilobytes of data blocks. A filter may say that a key is
  there when it is not, never the other way round: that is the interface \<open>filter_policy\<close>, which the filter block relies
  on and the Bloom filter provides.
\<close>

section \<open>The hash\<close>

definition hash_m :: uint32 where
  "hash_m = 0xc6a4a793"

function Hash_loop :: "byte list \<Rightarrow> uint32 \<Rightarrow> uint32 \<times> byte list" where
  "Hash_loop data h =
     (if 4 \<le> length data then
        let w = DecodeFixed32 True data; h = h + w; h = h * hash_m
        in Hash_loop (drop 4 data) (h XOR drop_bit 16 h)
      else (h, data))"
  by auto
termination
  by (relation "measure (\<lambda>(data, h). length data)") auto

declare Hash_loop.simps [simp del]

definition Hash :: "byte list \<Rightarrow> uint32 \<Rightarrow> uint32" where
  "Hash data seed =
     (let h = seed XOR ucast (of_nat (length data) * ucast hash_m :: size_t);
          (h, data) = Hash_loop data h;
          n = length data;
          h = (if n = 3 then h + push_bit 16 (ucast (data ! 2)) else h);
          h = (if n = 3 \<or> n = 2 then h + push_bit 8 (ucast (data ! 1)) else h)
      in if n = 3 \<or> n = 2 \<or> n = 1 then
           let h = h + ucast (data ! 0); h = h * hash_m in h XOR drop_bit 24 h
         else h)"

section \<open>The Bloom filter\<close>

definition BloomHash :: "slice \<Rightarrow> uint32" where
  "BloomHash key = Hash key 0xbc9f1d34"

text \<open>The number of probes. The code multiplies by 0.69 in floating point and cuts off; the two agree where the result is
  not replaced by a bound.\<close>

definition bloom_k :: "nat \<Rightarrow> nat" where
  "bloom_k bits_per_key =
     (let k = bits_per_key * 69 div 100; k = (if k < 1 then 1 else k) in if k > 30 then 30 else k)"

definition bloom_delta :: "uint32 \<Rightarrow> uint32" where
  "bloom_delta h = drop_bit 17 h OR push_bit 15 h"

definition bitpos :: "uint32 \<Rightarrow> nat \<Rightarrow> nat" where
  "bitpos h bits = unat h mod bits"

fun set_probes :: "nat \<Rightarrow> uint32 \<Rightarrow> uint32 \<Rightarrow> nat \<Rightarrow> byte list \<Rightarrow> byte list" where
  "set_probes 0 h delta bits array = array"
| "set_probes (Suc j) h delta bits array =
     (let p = bitpos h bits
      in set_probes j (h + delta) delta bits (array[p div 8 := array ! (p div 8) OR push_bit (p mod 8) 1]))"

definition add_key :: "nat \<Rightarrow> nat \<Rightarrow> byte list \<Rightarrow> slice \<Rightarrow> byte list" where
  "add_key k bits array key = (let h = BloomHash key in set_probes k h (bloom_delta h) bits array)"

text \<open>The size of the filter is computed in \<open>size_t\<close>.\<close>

definition Bloom_CreateFilter :: "nat \<Rightarrow> slice list \<Rightarrow> byte list \<Rightarrow> byte list" where
  "Bloom_CreateFilter bits_per_key keys dst =
     (let bits = of_nat (length keys) * of_nat bits_per_key :: size_t;
          bits = (if bits < 64 then 64 else bits);
          bytes = unat ((bits + 7) div 8);
          bits = bytes * 8
      in dst @ foldl (add_key (bloom_k bits_per_key) bits) (replicate bytes 0) keys @ [of_nat (bloom_k bits_per_key)])"

fun test_probes :: "nat \<Rightarrow> uint32 \<Rightarrow> uint32 \<Rightarrow> nat \<Rightarrow> byte list \<Rightarrow> bool" where
  "test_probes 0 h delta bits array = True"
| "test_probes (Suc j) h delta bits array =
     (let p = bitpos h bits
      in if array ! (p div 8) AND push_bit (p mod 8) 1 = 0 then False
         else test_probes j (h + delta) delta bits array)"

text \<open>The last byte of the filter is a \<open>char\<close>, which becomes a \<open>size_t\<close> with its sign.\<close>

definition Bloom_KeyMayMatch :: "slice \<Rightarrow> slice \<Rightarrow> bool" where
  "Bloom_KeyMayMatch key bloom_filter =
     (let len = length bloom_filter
      in if len < 2 then False
         else
           let bits = (len - 1) * 8; k = unat (scast (bloom_filter ! (len - 1)) :: size_t)
           in if k > 30 then True
              else let h = BloomHash key in test_probes k h (bloom_delta h) bits bloom_filter)"

section \<open>The filter block\<close>

record filter_ops =
  fo_Name :: "byte list"
  fo_CreateFilter :: "slice list \<Rightarrow> byte list \<Rightarrow> byte list"
  fo_KeyMayMatch :: "slice \<Rightarrow> slice \<Rightarrow> bool"

definition BloomFilterPolicy :: "nat \<Rightarrow> filter_ops" where
  "BloomFilterPolicy bits_per_key =
     \<lparr>fo_Name = str ''leveldb.BuiltinBloomFilter2'', fo_CreateFilter = Bloom_CreateFilter bits_per_key, fo_KeyMayMatch = Bloom_KeyMayMatch\<rparr>"

definition kFilterBaseLg :: nat where
  "kFilterBaseLg = 11"

definition kFilterBase :: uint64 where
  "kFilterBase = push_bit kFilterBaseLg 1"

record FilterBlockBuilder =
  fb_keys :: "byte list"
  fb_start :: "nat list"
  fb_result :: "byte list"
  fb_filter_offsets :: "uint32 list"

definition FilterBlockBuilder_new :: FilterBlockBuilder where
  "FilterBlockBuilder_new = \<lparr>fb_keys = [], fb_start = [], fb_result = [], fb_filter_offsets = []\<rparr>"

definition GenerateFilter :: "filter_ops \<Rightarrow> FilterBlockBuilder \<Rightarrow> FilterBlockBuilder" where
  "GenerateFilter policy b =
     (let num_keys = length (fb_start b)
      in if num_keys = 0 then b\<lparr>fb_filter_offsets := fb_filter_offsets b @ [of_nat (length (fb_result b))]\<rparr>
         else
           let start = fb_start b @ [length (fb_keys b)];
               tmp_keys = map (\<lambda>i. take (start ! (i + 1) - start ! i) (drop (start ! i) (fb_keys b))) [0..<num_keys];
               b = b\<lparr>fb_filter_offsets := fb_filter_offsets b @ [of_nat (length (fb_result b))]\<rparr>
           in b\<lparr>fb_result := fo_CreateFilter policy tmp_keys (fb_result b), fb_keys := [], fb_start := []\<rparr>)"

lemma length_GenerateFilter [simp]:
  "length (fb_filter_offsets (GenerateFilter policy b)) = Suc (length (fb_filter_offsets b))"
  by (simp add: GenerateFilter_def Let_def)

function generate_upto :: "filter_ops \<Rightarrow> nat \<Rightarrow> FilterBlockBuilder \<Rightarrow> FilterBlockBuilder" where
  "generate_upto policy filter_index b =
     (if filter_index > length (fb_filter_offsets b) then generate_upto policy filter_index (GenerateFilter policy b)
      else b)"
  by auto
termination
  by (relation "measure (\<lambda>(policy, filter_index, b). filter_index - length (fb_filter_offsets b))") auto

declare generate_upto.simps [simp del]

definition StartBlock :: "filter_ops \<Rightarrow> FilterBlockBuilder \<Rightarrow> uint64 \<Rightarrow> FilterBlockBuilder" where
  "StartBlock policy b block_offset =
     (let filter_index = block_offset div kFilterBase in generate_upto policy (unat filter_index) b)"

definition AddKey :: "FilterBlockBuilder \<Rightarrow> slice \<Rightarrow> FilterBlockBuilder" where
  "AddKey b key = b\<lparr>fb_start := fb_start b @ [length (fb_keys b)], fb_keys := fb_keys b @ key\<rparr>"

definition FilterBlock_Finish :: "filter_ops \<Rightarrow> FilterBlockBuilder \<Rightarrow> slice \<times> FilterBlockBuilder" where
  "FilterBlock_Finish policy b =
     (let b = (if fb_start b \<noteq> [] then GenerateFilter policy b else b);
          array_offset = of_nat (length (fb_result b)) :: uint32;
          result = foldl (PutFixed32 True) (fb_result b) (fb_filter_offsets b);
          result = PutFixed32 True result array_offset;
          result = result @ [of_nat kFilterBaseLg]
      in (result, b\<lparr>fb_result := result\<rparr>))"

text \<open>A reader on bad contents has null pointers and no filters; here its data are empty. The base is a \<open>char\<close> that
  becomes a \<open>size_t\<close>.\<close>

record FilterBlockReader =
  fr_data :: "byte list"
  fr_offset :: nat
  fr_num :: nat
  fr_base_lg :: nat

definition FilterBlockReader_new :: "slice \<Rightarrow> FilterBlockReader" where
  "FilterBlockReader_new contents =
     (let n = length contents
      in if n < 5 then \<lparr>fr_data = [], fr_offset = 0, fr_num = 0, fr_base_lg = 0\<rparr>
         else
           let base_lg = unat (scast (contents ! (n - 1)) :: size_t);
               last_word = unat (DecodeFixed32 True (drop (n - 5) contents))
           in if last_word > n - 5 then \<lparr>fr_data = [], fr_offset = 0, fr_num = 0, fr_base_lg = base_lg\<rparr>
              else \<lparr>fr_data = contents, fr_offset = last_word, fr_num = (n - 5 - last_word) div 4, fr_base_lg = base_lg\<rparr>)"

definition FilterBlock_KeyMayMatch :: "filter_ops \<Rightarrow> FilterBlockReader \<Rightarrow> uint64 \<Rightarrow> slice \<Rightarrow> bool" where
  "FilterBlock_KeyMayMatch policy r block_offset key =
     (let index = unat (drop_bit (fr_base_lg r) block_offset)
      in if index < fr_num r then
           let start = DecodeFixed32 True (drop (fr_offset r + index * 4) (fr_data r));
               limit = DecodeFixed32 True (drop (fr_offset r + index * 4 + 4) (fr_data r))
           in if start \<le> limit \<and> unat limit \<le> fr_offset r then
                fo_KeyMayMatch policy key (take (unat (limit - start)) (drop (unat start) (fr_data r)))
              else if start = limit then False
              else True
         else True)"

section \<open>No key is missed\<close>

fun probes :: "nat \<Rightarrow> uint32 \<Rightarrow> uint32 \<Rightarrow> nat \<Rightarrow> nat list" where
  "probes 0 h delta bits = []"
| "probes (Suc j) h delta bits = bitpos h bits # probes j (h + delta) delta bits"

definition bit_set :: "byte list \<Rightarrow> nat \<Rightarrow> bool" where
  "bit_set array p \<longleftrightarrow> bit (array ! (p div 8)) (p mod 8)"

lemma probes_less: "0 < bits \<Longrightarrow> p \<in> set (probes j h delta bits) \<Longrightarrow> p < bits"
  by (induction j arbitrary: h) (auto simp: bitpos_def)

lemma test_probes_iff: "test_probes j h delta bits array \<longleftrightarrow> (\<forall>p \<in> set (probes j h delta bits). bit_set array p)"
  by (induction j arbitrary: h) (auto simp: Let_def bit_set_def bit_iff_and_push_bit_not_eq_0)

lemma bit_set_update:
  assumes "q < 8 * length array"
  shows "bit_set (array[q div 8 := array ! (q div 8) OR push_bit (q mod 8) 1]) p \<longleftrightarrow> p = q \<or> bit_set array p"
proof (cases "p div 8 = q div 8")
  case True
  then have "p mod 8 = q mod 8 \<longleftrightarrow> p = q" by (metis div_mult_mod_eq)
  moreover have "bit (push_bit (q mod 8) (1 :: byte)) (p mod 8) \<longleftrightarrow> p mod 8 = q mod 8"
    using mod_less_divisor [of 8 p] by (auto simp: bit_exp_iff)
  ultimately show ?thesis using assms True by (auto simp: bit_set_def bit_or_iff less_mult_imp_div_less mult.commute)
next
  case False
  then show ?thesis by (auto simp: bit_set_def)
qed

lemma length_set_probes [simp]: "length (set_probes j h delta bits array) = length array"
  by (induction j arbitrary: h array) (simp_all add: Let_def)

lemma bit_set_probes:
  assumes "bits = 8 * length array" and "0 < bits"
  shows "bit_set (set_probes j h delta bits array) p \<longleftrightarrow> p \<in> set (probes j h delta bits) \<or> bit_set array p"
  using assms
proof (induction j arbitrary: h array)
  case (Suc j)
  have "bitpos h bits < 8 * length array" using Suc.prems by (simp add: bitpos_def)
  note upd = bit_set_update [OF this, of p]
  define array' where
    "array' = array[bitpos h bits div 8 := array ! (bitpos h bits div 8) OR push_bit (bitpos h bits mod 8) 1]"
  have "bit_set (set_probes j (h + delta) delta bits array') p \<longleftrightarrow>
      p \<in> set (probes j (h + delta) delta bits) \<or> bit_set array' p"
    by (rule Suc.IH) (use Suc.prems in \<open>simp_all add: array'_def\<close>)
  then show ?case using upd [folded array'_def] by (auto simp add: Let_def array'_def [symmetric] simp del: push_bit_of_1)
qed simp

lemma add_keys_bits:
  assumes "bits = 8 * length array" and "0 < bits"
  shows "length (foldl (add_key k bits) array keys) = length array \<and>
    (bit_set (foldl (add_key k bits) array keys) p \<longleftrightarrow>
      bit_set array p \<or> (\<exists>key \<in> set keys. p \<in> set (probes k (BloomHash key) (bloom_delta (BloomHash key)) bits)))"
  using assms
proof (induction keys arbitrary: array)
  case (Cons key keys)
  have len: "length (add_key k bits array key) = length array" by (simp add: add_key_def Let_def)
  show ?case
    using Cons.IH [of "add_key k bits array key"] Cons.prems len
    by (auto simp: add_key_def Let_def bit_set_probes)
qed simp

lemma bloom_k_bound: "bloom_k b \<le> 30" "0 < bloom_k b"
  by (simp_all add: bloom_k_def Let_def)

lemma scast_small_byte: "n < 128 \<Longrightarrow> unat (scast (of_nat n :: byte) :: size_t) = n"
proof -
  assume n: "n < 128"
  then have "take_bit 8 n = n" by (simp add: take_bit_nat_eq_self)
  then have "sint (of_nat n :: byte) = int n"
    using n by (simp add: sint_uint unsigned_of_nat signed_take_bit_int_eq_self)
  then show ?thesis using n by (simp add: scast_eq unat_of_nat)
qed

lemma Bloom_CreateFilter_match:
  assumes "length keys * b + 7 < 2 ^ 64" and "key \<in> set keys"
  shows "Bloom_KeyMayMatch key (Bloom_CreateFilter b keys [])"
proof -
  define bits0 where "bits0 = (if of_nat (length keys) * of_nat b < (64 :: size_t) then 64 else of_nat (length keys) * of_nat b :: size_t)"
  define bytes where "bytes = unat ((bits0 + 7) div 8)"
  define k where "k = bloom_k b"
  define arr where "arr = foldl (add_key k (bytes * 8)) (replicate bytes 0) keys"
  have "unat (of_nat (length keys * b) :: size_t) = length keys * b" by (subst unat_of_nat_size) (use assms(1) in simp_all)
  then have "unat (of_nat (length keys) * of_nat b :: size_t) = length keys * b" by simp
  then have b0: "64 \<le> unat bits0" "unat bits0 + 7 < 2 ^ 64"
    using assms(1) by (auto simp: bits0_def word_less_nat_alt)
  have "unat (bits0 + 7) = unat bits0 + 7" using b0(2) by (simp add: unat_word_ariths(1))
  then have bytes: "8 \<le> bytes" using b0 by (simp add: bytes_def unat_div)
  have f: "Bloom_CreateFilter b keys [] = arr @ [of_nat k]"
    by (simp add: Bloom_CreateFilter_def Let_def arr_def bytes_def bits0_def k_def)
  have arr: "length arr = bytes" "bit_set arr p"
    if "p \<in> set (probes k (BloomHash key) (bloom_delta (BloomHash key)) (bytes * 8))" for p
    using add_keys_bits [of "bytes * 8" "replicate bytes 0" k keys p] bytes assms(2) that by (auto simp: arr_def)
  have len: "length arr = bytes"
    using add_keys_bits [of "bytes * 8" "replicate bytes 0" k keys] bytes by (simp add: arr_def)
  have "bit_set (arr @ [of_nat k]) p"
    if p: "p \<in> set (probes k (BloomHash key) (bloom_delta (BloomHash key)) (bytes * 8))" for p
  proof -
    have "p < bytes * 8" by (rule probes_less [OF _ p]) (use bytes in simp)
    then have "p div 8 < length arr" using len by (simp add: less_mult_imp_div_less)
    with arr(2) [OF p] show ?thesis by (simp add: bit_set_def nth_append)
  qed
  moreover have "unat (scast ((arr @ [of_nat k]) ! (length (arr @ [of_nat k]) - 1)) :: size_t) = k"
    using scast_small_byte [of k] bloom_k_bound(1) [of b] by (simp add: k_def)
  ultimately show ?thesis
    using bytes len bloom_k_bound(1) [of b] unfolding Bloom_KeyMayMatch_def f Let_def
    by (auto simp: test_probes_iff k_def)
qed

section \<open>The interface of a filter\<close>

text \<open>A policy may take keys for the \<open>same\<close> one, as the policy of internal keys does with the numbers in them.\<close>

locale filter_policy =
  fixes policy :: filter_ops and fits :: "slice list \<Rightarrow> bool" and same :: "slice \<Rightarrow> slice \<Rightarrow> bool"
  assumes create_append: "fo_CreateFilter policy keys dst = dst @ fo_CreateFilter policy keys []"
    and match: "fits keys \<Longrightarrow> key \<in> set keys \<Longrightarrow> same target key \<Longrightarrow>
      fo_KeyMayMatch policy target (fo_CreateFilter policy keys [])"
    and fits_mono: "fits keys \<Longrightarrow> length keys' \<le> length keys \<Longrightarrow> fits keys'"

interpretation bloom: filter_policy "BloomFilterPolicy b" "\<lambda>keys. length keys * b + 7 < 2 ^ 64" "(=)" for b
proof
  fix keys keys' :: "slice list" and key target dst
  show "fo_CreateFilter (BloomFilterPolicy b) keys dst = dst @ fo_CreateFilter (BloomFilterPolicy b) keys []"
    by (simp add: BloomFilterPolicy_def Bloom_CreateFilter_def Let_def)
  show "fo_KeyMayMatch (BloomFilterPolicy b) target (fo_CreateFilter (BloomFilterPolicy b) keys [])"
    if "length keys * b + 7 < 2 ^ 64" "key \<in> set keys" "target = key"
    using Bloom_CreateFilter_match [OF that(1,2)] that(3) by (simp add: BloomFilterPolicy_def)
  show "length keys' * b + 7 < 2 ^ 64" if "length keys * b + 7 < 2 ^ 64" "length keys' \<le> length keys"
    using that mult_le_mono1 [OF that(2), of b] by linarith
qed

section \<open>What a filter block holds\<close>

text \<open>The starts of keys in their concatenation.\<close>

definition key_starts :: "slice list \<Rightarrow> nat list" where
  "key_starts ks = map (\<lambda>i. length (concat (take i ks))) [0..<length ks]"

lemma key_starts_snoc: "key_starts (ks @ [key]) = key_starts ks @ [length (concat ks)]"
  by (simp add: key_starts_def)

lemma key_starts_keys:
  assumes "i < length ks"
  defines "start \<equiv> key_starts ks @ [length (concat ks)]"
  shows "take (start ! (i + 1) - start ! i) (drop (start ! i) (concat ks)) = ks ! i"
proof -
  have s: "start ! i = length (concat (take i ks))" "start ! (i + 1) = length (concat (take (Suc i) ks))"
    using assms(1) by (cases "Suc i = length ks"; simp add: start_def key_starts_def nth_append)+
  have "concat (take (Suc i) ks) = concat (take i ks) @ ks ! i" using assms(1) by (simp add: take_Suc_conv_app_nth)
  moreover have "concat ks = concat (take (Suc i) ks) @ concat (drop (Suc i) ks)" by (metis append_take_drop_id concat_append)
  ultimately show ?thesis unfolding s by simp
qed

context filter_policy
begin

text \<open>The filter of a list of keys, and the builder that has made filters of \<open>gs\<close> and has the keys \<open>ks\<close> waiting.\<close>

definition filter_of :: "slice list \<Rightarrow> byte list" where
  "filter_of ks = (if ks = [] then [] else fo_CreateFilter policy ks [])"

definition filters :: "slice list list \<Rightarrow> byte list" where
  "filters gs = concat (map filter_of gs)"

definition offsets :: "slice list list \<Rightarrow> uint32 list" where
  "offsets gs = map (\<lambda>i. of_nat (length (filters (take i gs)))) [0..<length gs]"

definition built :: "FilterBlockBuilder \<Rightarrow> slice list list \<Rightarrow> slice list \<Rightarrow> bool" where
  "built b gs ks \<longleftrightarrow> fb_keys b = concat ks \<and> fb_start b = key_starts ks \<and> fb_result b = filters gs \<and>
     fb_filter_offsets b = offsets gs"

lemma built_new: "built FilterBlockBuilder_new [] []"
  by (simp add: built_def FilterBlockBuilder_new_def key_starts_def filters_def offsets_def)

lemma built_AddKey: "built b gs ks \<Longrightarrow> built (AddKey b key) gs (ks @ [key])"
  by (simp add: built_def AddKey_def key_starts_snoc)

lemma offsets_snoc: "offsets (gs @ [g]) = offsets gs @ [of_nat (length (filters gs))]"
  by (simp add: offsets_def)

lemma built_GenerateFilter:
  assumes "built b gs ks"
  shows "built (GenerateFilter policy b) (gs @ [ks]) []"
proof (cases "ks = []")
  case True
  with assms show ?thesis
    by (simp add: built_def GenerateFilter_def offsets_snoc filters_def filter_of_def key_starts_def)
next
  case False
  have "map (\<lambda>i. take ((key_starts ks @ [length (concat ks)]) ! (i + 1) - (key_starts ks @ [length (concat ks)]) ! i)
      (drop ((key_starts ks @ [length (concat ks)]) ! i) (concat ks))) [0..<length ks] = ks"
    by (rule nth_equalityI) (simp_all only: length_map length_upt nth_map_upt key_starts_keys diff_zero add_0)
  moreover have "length (key_starts ks) = length ks" "key_starts [] = []" by (simp_all add: key_starts_def)
  ultimately show ?thesis
    using assms False create_append [of ks "filters gs"]
    by (simp add: built_def GenerateFilter_def Let_def offsets_snoc filters_def filter_of_def)
qed

lemma built_upto:
  assumes "built b gs ks" and "length gs \<le> n"
  shows "built (generate_upto policy n b) (gs @ (if length gs < n then ks # replicate (n - length gs - 1) [] else []))
    (if length gs < n then [] else ks)"
  using assms
proof (induction "n - length gs" arbitrary: b gs ks)
  case 0
  then have "length (fb_filter_offsets b) = n" by (simp add: built_def offsets_def)
  with 0 show ?case by (subst generate_upto.simps) simp
next
  case (Suc d)
  then have len: "length (fb_filter_offsets b) = length gs" "length gs < n" by (simp_all add: built_def offsets_def)
  then have step: "generate_upto policy n b = generate_upto policy n (GenerateFilter policy b)"
    by (subst generate_upto.simps) simp
  have r: "n - length gs - 1 = (if length (gs @ [ks]) < n then Suc (n - length (gs @ [ks]) - 1) else 0)"
    using len(2) by auto
  from Suc.hyps(1) [OF _ built_GenerateFilter [OF Suc.prems(1)]] Suc.hyps(2) len(2) show ?case
    unfolding step r by (auto split: if_splits)
qed

end

text \<open>Blocks of keys at their offsets.\<close>

definition add_block :: "filter_ops \<Rightarrow> FilterBlockBuilder \<Rightarrow> uint64 \<times> slice list \<Rightarrow> FilterBlockBuilder" where
  "add_block policy b = (\<lambda>(offset, keys). foldl AddKey (StartBlock policy b offset) keys)"

context filter_policy
begin

text \<open>Every key of a block is in the filter of its offset, or waits for it.\<close>

definition covered :: "slice list list \<Rightarrow> slice list \<Rightarrow> (uint64 \<times> slice list) list \<Rightarrow> bool" where
  "covered gs ks blocks \<longleftrightarrow> (\<forall>(offset, keys) \<in> set blocks. \<forall>key \<in> set keys.
     let i = unat (offset div kFilterBase)
     in i < length gs \<and> key \<in> set (gs ! i) \<or> i = length gs \<and> key \<in> set ks)"

lemma built_AddKeys: "built b gs ks \<Longrightarrow> built (foldl AddKey b keys) gs (ks @ keys)"
proof (induction keys arbitrary: b ks)
  case (Cons key keys)
  from Cons.IH [OF built_AddKey [OF Cons.prems, of key]] show ?case by simp
qed simp

lemma covered_upto:
  assumes "covered gs ks blocks" and "length gs \<le> n"
  shows "covered (gs @ (if length gs < n then ks # replicate (n - length gs - 1) [] else []))
    (if length gs < n then [] else ks) blocks"
proof (cases "length gs < n")
  case True
  then show ?thesis
    using assms(1) unfolding covered_def Let_def by (fastforce simp: nth_append)
qed (use assms in simp)

lemma add_blocks_built:
  assumes "sorted_wrt (\<lambda>a b. fst a \<le> fst b) blocks"
  shows "\<exists>gs ks. built (foldl (add_block policy) FilterBlockBuilder_new blocks) gs ks \<and> covered gs ks blocks \<and>
    (blocks \<noteq> [] \<longrightarrow> length gs = unat (fst (last blocks) div kFilterBase)) \<and> (blocks = [] \<longrightarrow> gs = [] \<and> ks = []) \<and>
    (\<forall>g \<in> set gs. length g \<le> length (concat (map snd blocks))) \<and> length ks \<le> length (concat (map snd blocks))"
  using assms
proof (induction blocks rule: rev_induct)
  case Nil
  show ?case using built_new by (auto simp: covered_def intro!: exI [of _ "[]"])
next
  case (snoc x blocks)
  obtain offset keys where x: "x = (offset, keys)" by fastforce
  from snoc obtain gs ks where IH: "built (foldl (add_block policy) FilterBlockBuilder_new blocks) gs ks" "covered gs ks blocks"
    "blocks \<noteq> [] \<longrightarrow> length gs = unat (fst (last blocks) div kFilterBase)" "blocks = [] \<longrightarrow> gs = [] \<and> ks = []"
    "\<forall>g \<in> set gs. length g \<le> length (concat (map snd blocks))" "length ks \<le> length (concat (map snd blocks))"
    by (auto simp: sorted_wrt_append)
  let ?n = "unat (offset div kFilterBase)"
  have le: "length gs \<le> ?n"
  proof (cases "blocks = []")
    case False
    then have "fst (last blocks) \<le> offset" using snoc.prems x by (auto simp: sorted_wrt_append)
    then have "fst (last blocks) div kFilterBase \<le> offset div kFilterBase"
      by (simp add: word_le_nat_alt unat_div div_le_mono)
    with IH(3) False show ?thesis by (simp add: word_le_nat_alt)
  qed (use IH(4) in simp)
  define gs' where "gs' = gs @ (if length gs < ?n then ks # replicate (?n - length gs - 1) [] else [])"
  define ks' where "ks' = (if length gs < ?n then [] else ks)"
  have len: "length gs' = ?n" using le by (auto simp: gs'_def)
  have b: "built (StartBlock policy (foldl (add_block policy) FilterBlockBuilder_new blocks) offset) gs' ks'"
    unfolding gs'_def ks'_def StartBlock_def Let_def by (rule built_upto [OF IH(1) le])
  have c: "covered gs' ks' blocks" unfolding gs'_def ks'_def by (rule covered_upto [OF IH(2) le])
  have small: "\<forall>g \<in> set gs'. length g \<le> length (concat (map snd blocks))" "length ks' \<le> length (concat (map snd blocks))"
    using IH(5,6) by (auto simp: gs'_def ks'_def)
  have "built (foldl (add_block policy) FilterBlockBuilder_new (blocks @ [x])) gs' (ks' @ keys)"
    using built_AddKeys [OF b] by (simp add: x add_block_def)
  moreover have "covered gs' (ks' @ keys) (blocks @ [x])"
    using c len unfolding covered_def Let_def x by fastforce
  ultimately show ?case using len small x by (intro exI [of _ gs'] exI [of _ "ks' @ keys"]) (auto simp: trans_le_add1)
qed

lemma filters_take_Suc: "i < length gs \<Longrightarrow> filters (take (Suc i) gs) = filters (take i gs) @ filter_of (gs ! i)"
  by (simp add: filters_def take_Suc_conv_app_nth)

lemma filters_split: "filters gs = filters (take i gs) @ filters (drop i gs)"
  by (metis append_take_drop_id concat_append filters_def map_append)

text \<open>The contents of the block, and what the reader finds in them.\<close>

definition contents :: "slice list list \<Rightarrow> byte list" where
  "contents gs = filters gs @ concat (map (to_bytes 4) (offsets gs @ [of_nat (length (filters gs))])) @ [of_nat kFilterBaseLg]"

lemma length_concat_words: "length (concat (map (to_bytes 4) (xs :: uint32 list))) = 4 * length xs"
  by (induction xs) simp_all

lemma concat_words_nth:
  "i < length xs \<Longrightarrow> DecodeFixed32 True (drop (4 * i) (concat (map (to_bytes 4) (xs :: uint32 list)) @ ys)) = xs ! i"
proof (induction xs arbitrary: i)
  case (Cons x xs)
  then show ?case by (cases i) (simp_all add: DecodeFixed32_bytes of_bytes_to_bytes)
qed simp

lemma length_offsets [simp]: "length (offsets gs) = length gs"
  by (simp add: offsets_def)

lemma length_contents: "length (contents gs) = length (filters gs) + 4 * length gs + 5"
  by (simp add: contents_def length_concat_words)

lemma Finish_contents:
  assumes "built b gs ks"
  shows "fst (FilterBlock_Finish policy b) = contents (if ks = [] then gs else gs @ [ks])"
proof -
  have put: "foldl (PutFixed32 True) bs xs = bs @ concat (map (to_bytes 4) xs)" for bs and xs :: "uint32 list"
    by (induction xs arbitrary: bs) (simp_all add: PutFixed32_def EncodeFixed_bytes)
  have e: "fb_start b = [] \<longleftrightarrow> ks = []" using assms by (simp add: built_def key_starts_def)
  have "built (if fb_start b \<noteq> [] then GenerateFilter policy b else b) (if ks = [] then gs else gs @ [ks]) []"
    using assms built_GenerateFilter [OF assms] e by auto
  then show ?thesis
    unfolding FilterBlock_Finish_def Let_def fst_conv
    by (simp add: built_def contents_def put PutFixed32_def EncodeFixed_bytes)
qed

lemma reader_contents:
  assumes "length (contents gs) < 2 ^ 32"
  shows "FilterBlockReader_new (contents gs) =
    \<lparr>fr_data = contents gs, fr_offset = length (filters gs), fr_num = length gs, fr_base_lg = 11\<rparr>"
proof -
  note len = length_contents [of gs]
  have base: "unat (scast (contents gs ! (length (contents gs) - 1)) :: size_t) = 11"
    using scast_small_byte [of 11] by (simp add: contents_def kFilterBaseLg_def nth_append)
  have "drop (length (contents gs) - 5) (contents gs) = to_bytes 4 (of_nat (length (filters gs)) :: uint32) @ [of_nat kFilterBaseLg]"
    unfolding len by (simp add: contents_def length_concat_words)
  then have "DecodeFixed32 True (drop (length (contents gs) - 5) (contents gs)) = of_nat (length (filters gs))"
    by (simp add: DecodeFixed32_bytes of_bytes_to_bytes)
  moreover have "unat (of_nat (length (filters gs)) :: uint32) = length (filters gs)"
    using assms len by (simp add: unat_of_nat)
  ultimately have lw: "unat (DecodeFixed32 True (drop (length (contents gs) - 5) (contents gs))) = length (filters gs)" by simp
  show ?thesis
    unfolding FilterBlockReader_new_def Let_def base lw using len by simp
qed

lemma reader_match:
  assumes "length (contents gs) < 2 ^ 32" and "unat (offset div kFilterBase) = i" and "i < length gs" and "key \<in> set (gs ! i)"
    and "fits (gs ! i)" and "same target key"
  shows "FilterBlock_KeyMayMatch policy (FilterBlockReader_new (contents gs)) offset target"
proof -
  let ?a = "filters (take i gs)" and ?f = "filter_of (gs ! i)" and ?os = "offsets gs @ [of_nat (length (filters gs))]"
  note len = length_contents [of gs]
  have parts: "filters gs = ?a @ ?f @ filters (drop (Suc i) gs)"
    using filters_split [of gs "Suc i"] filters_take_Suc [OF assms(3)] by simp
  have index: "unat (drop_bit 11 offset) = i"
    using assms(2) by (simp add: kFilterBase_def kFilterBaseLg_def unat_div unat_drop_bit)
  have at: "DecodeFixed32 True (drop (length (filters gs) + 4 * j) (contents gs)) = ?os ! j" if "j \<le> length gs" for j
    using concat_words_nth [of j ?os "[of_nat kFilterBaseLg]"] that
    by (simp add: contents_def del: map_append concat_append)
  have o: "?os ! i = of_nat (length ?a)" using assms(3) by (simp add: offsets_def nth_append)
  have o1: "?os ! Suc i = of_nat (length (?a @ ?f))"
    using assms(3) filters_take_Suc [OF assms(3)] by (cases "Suc i = length gs") (auto simp: offsets_def nth_append)
  have small: "length (?a @ ?f) \<le> length (filters gs)" "length (filters gs) < 2 ^ 32"
    using assms(1) len by (simp_all add: parts)
  then have u: "unat (of_nat (length ?a) :: uint32) = length ?a" "unat (of_nat (length (?a @ ?f)) :: uint32) = length (?a @ ?f)"
    by (simp_all only: unat_of_nat) (simp_all add: take_bit_nat_eq_self)
  have le: "(of_nat (length ?a) :: uint32) \<le> of_nat (length (?a @ ?f))" unfolding word_le_nat_alt u by simp
  have diff: "unat (of_nat (length (?a @ ?f)) - of_nat (length ?a) :: uint32) = length ?f" by (subst unat_sub_le [OF le]) (simp only: u, simp)
  have "take (length ?f) (drop (length ?a) (contents gs)) = ?f" by (simp add: contents_def parts)
  moreover have "fo_KeyMayMatch policy target ?f"
    using match [OF assms(5,4,6)] assms(4) by (auto simp: filter_of_def)
  moreover have start: "DecodeFixed32 True (drop (length (filters gs) + i * 4) (contents gs)) = of_nat (length ?a)"
    using at [of i] assms(3) unfolding o by (simp add: mult.commute)
  moreover have limit: "DecodeFixed32 True (drop (length (filters gs) + i * 4 + 4) (contents gs)) = of_nat (length (?a @ ?f))"
  proof -
    have "length (filters gs) + i * 4 + 4 = length (filters gs) + 4 * Suc i" by simp
    then show ?thesis using at [of "Suc i"] assms(3) unfolding o1 by (simp only: Suc_le_eq)
  qed
  moreover have "unat (of_nat (length (?a @ ?f)) :: uint32) \<le> length (filters gs)" using small(1) by (simp only: u)
  ultimately show ?thesis
    unfolding FilterBlock_KeyMayMatch_def reader_contents [OF assms(1)] Let_def FilterBlockReader.select_convs index
      if_P [OF assms(3)] start limit diff u(1)
    using le by (simp only: if_True simp_thms)
qed

lemma no_false_negative:
  assumes "sorted_wrt (\<lambda>a b. fst a \<le> fst b) blocks" and "fits (concat (map snd blocks))"
    and "bs = fst (FilterBlock_Finish policy (foldl (add_block policy) FilterBlockBuilder_new blocks))"
    and "length bs < 2 ^ 32" and "(offset, keys) \<in> set blocks" and "key \<in> set keys" and "same target key"
  shows "FilterBlock_KeyMayMatch policy (FilterBlockReader_new bs) offset target"
proof -
  from add_blocks_built [OF assms(1)] obtain gs ks where
    B: "built (foldl (add_block policy) FilterBlockBuilder_new blocks) gs ks"
      "covered gs ks blocks" "\<forall>g \<in> set gs. length g \<le> length (concat (map snd blocks))"
      "length ks \<le> length (concat (map snd blocks))" by blast
  let ?i = "unat (offset div kFilterBase)" and ?gs = "if ks = [] then gs else gs @ [ks]"
  have bs: "bs = contents ?gs"
    using Finish_contents [OF B(1)] assms(3) by simp
  have cov: "?i < length gs \<and> key \<in> set (gs ! ?i) \<or> ?i = length gs \<and> key \<in> set ks"
    using B(2) assms(5,6) by (fastforce simp: covered_def Let_def)
  then have i: "?i < length ?gs" "key \<in> set (?gs ! ?i)" by (auto simp: nth_append)
  then have "?gs ! ?i \<in> set gs \<or> ?gs ! ?i = ks" by (auto simp: nth_append split: if_splits)
  then have "fits (?gs ! ?i)" using fits_mono [OF assms(2)] B(3,4) by auto
  from reader_match [OF _ refl i this assms(7)] assms(4) show ?thesis unfolding bs by blast
qed

end

section \<open>Properties\<close>

text \<open>C12: a filter block never denies a key that was added, or one that the policy takes for the same, for any filter that meets its interface: blocks are started at
  ascending offsets and their keys are added; the reader of the finished contents answers that the key may be there when
  it is asked with the offset of the block that holds the key.\<close>

theorem filter_block_no_false_negative:
  assumes "filter_policy policy small same" and "sorted_wrt (\<lambda>a b. fst a \<le> fst b) blocks"
    and "small (concat (map snd blocks))" and "bs = fst (FilterBlock_Finish policy (foldl (add_block policy) FilterBlockBuilder_new blocks))"
    and "length bs < 2 ^ 32" and "(offset, keys) \<in> set blocks" and "key \<in> set keys" and "same target key"
  shows "FilterBlock_KeyMayMatch policy (FilterBlockReader_new bs) offset target"
  using assms(2-) by (rule filter_policy.no_false_negative [OF assms(1)])

theorem filter_block_no_false_negative_witness:
  "FilterBlock_KeyMayMatch (BloomFilterPolicy 10)
     (FilterBlockReader_new (fst (FilterBlock_Finish (BloomFilterPolicy 10)
        (foldl (add_block (BloomFilterPolicy 10)) FilterBlockBuilder_new [(0, [[1], [2]]), (5000, [[3]])])))) 5000 [3]"
proof (rule filter_block_no_false_negative [where keys = "[[3]]" and key = "[3]", OF bloom.filter_policy_axioms _ _ refl])
  show "length (fst (FilterBlock_Finish (BloomFilterPolicy 10)
        (foldl (add_block (BloomFilterPolicy 10)) FilterBlockBuilder_new [(0, [[1], [2]]), (5000, [[3]])]))) < 2 ^ 32"
    by (simp add: FilterBlock_Finish_def GenerateFilter_def add_block_def StartBlock_def generate_upto.simps AddKey_def
        FilterBlockBuilder_new_def BloomFilterPolicy_def Bloom_CreateFilter_def add_key_def kFilterBase_def kFilterBaseLg_def
        Let_def PutFixed32_def EncodeFixed_bytes)
qed simp_all

end
