(* ===== verification/Ldb_Cache.thy ===== *)
theory Ldb_Cache
  imports Ldb_Filter "HOL-Library.Monad_Syntax" "HOL-Library.Multiset"
begin

text \<open>
  The cache of \<open>util/cache.cc\<close>: sixteen shards, each a hash table of entries with chains through the entries and two
  circular lists, the entries that clients hold and the other ones in the order of their last use.

  An entry is an address; the links of the entries are maps from addresses, one for each field, and the addresses 0 and 1
  are the heads \<open>lru_\<close> and \<open>in_use_\<close>, of which only the links matter. An address without an entry is free memory. The
  calls of the deleters are recorded in their order. Loops over links are partial functions: \<open>None\<close> is a loop that does
  not end.
\<close>

section \<open>Entries and lists\<close>

record 'v LRUHandle =
  lh_value :: 'v
  lh_charge :: size_t
  lh_key :: slice
  lh_in_cache :: bool
  lh_refs :: uint32
  lh_hash :: uint32

record 'v LRUCache =
  lc_capacity :: size_t
  lc_usage :: size_t
  lc_next :: "nat \<Rightarrow> nat"
  lc_prev :: "nat \<Rightarrow> nat"
  lc_next_hash :: "nat \<Rightarrow> nat option"
  lc_ent :: "nat \<Rightarrow> 'v LRUHandle option"
  lc_fresh :: nat
  lc_length :: uint32
  lc_elems :: uint32
  lc_list :: "nat option list"
  lc_deleted :: "(slice \<times> 'v) list"

abbreviation (input) lru_head :: nat where "lru_head \<equiv> 0"
abbreviation (input) in_use_head :: nat where "in_use_head \<equiv> 1"

definition ent :: "'v LRUCache \<Rightarrow> nat \<Rightarrow> 'v LRUHandle" where
  "ent s e = the (lc_ent s e)"

definition set_ent :: "'v LRUCache \<Rightarrow> nat \<Rightarrow> ('v LRUHandle \<Rightarrow> 'v LRUHandle) \<Rightarrow> 'v LRUCache" where
  "set_ent s e f = s\<lparr>lc_ent := (lc_ent s)(e := map_option f (lc_ent s e))\<rparr>"

definition LRU_Remove :: "'v LRUCache \<Rightarrow> nat \<Rightarrow> 'v LRUCache" where
  "LRU_Remove s e =
     (let s = s\<lparr>lc_prev := (lc_prev s)(lc_next s e := lc_prev s e)\<rparr>
      in s\<lparr>lc_next := (lc_next s)(lc_prev s e := lc_next s e)\<rparr>)"

definition LRU_Append :: "'v LRUCache \<Rightarrow> nat \<Rightarrow> nat \<Rightarrow> 'v LRUCache" where
  "LRU_Append s list e =
     (let s = s\<lparr>lc_next := (lc_next s)(e := list)\<rparr>;
          s = s\<lparr>lc_prev := (lc_prev s)(e := lc_prev s list)\<rparr>;
          s = s\<lparr>lc_next := (lc_next s)(lc_prev s e := e)\<rparr>
      in s\<lparr>lc_prev := (lc_prev s)(lc_next s e := e)\<rparr>)"

definition Ref :: "'v LRUCache \<Rightarrow> nat \<Rightarrow> 'v LRUCache" where
  "Ref s e =
     (let s = (if lh_refs (ent s e) = 1 \<and> lh_in_cache (ent s e) then LRU_Append (LRU_Remove s e) in_use_head e else s)
      in set_ent s e (lh_refs_update (\<lambda>r. r + 1)))"

definition Unref :: "'v LRUCache \<Rightarrow> nat \<Rightarrow> 'v LRUCache" where
  "Unref s e =
     (let s = set_ent s e (lh_refs_update (\<lambda>r. r - 1))
      in if lh_refs (ent s e) = 0 then
           s\<lparr>lc_deleted := lc_deleted s @ [(lh_key (ent s e), lh_value (ent s e))], lc_ent := (lc_ent s)(e := None)\<rparr>
         else if lh_in_cache (ent s e) \<and> lh_refs (ent s e) = 1 then LRU_Append (LRU_Remove s e) lru_head e
         else s)"

section \<open>The hash table\<close>

text \<open>A pointer to a link of a chain: the bucket, or the field of an entry.\<close>

datatype slot = Bucket nat | NextHash nat

definition slot_get :: "'v LRUCache \<Rightarrow> slot \<Rightarrow> nat option" where
  "slot_get s ptr = (case ptr of Bucket i \<Rightarrow> lc_list s ! i | NextHash e \<Rightarrow> lc_next_hash s e)"

definition slot_set :: "'v LRUCache \<Rightarrow> slot \<Rightarrow> nat option \<Rightarrow> 'v LRUCache" where
  "slot_set s ptr v =
     (case ptr of Bucket i \<Rightarrow> s\<lparr>lc_list := (lc_list s)[i := v]\<rparr>
      | NextHash e \<Rightarrow> s\<lparr>lc_next_hash := (lc_next_hash s)(e := v)\<rparr>)"

partial_function (option) find_loop :: "'v LRUCache \<Rightarrow> slice \<Rightarrow> uint32 \<Rightarrow> slot \<Rightarrow> slot option" where
  [code]: "find_loop s key hash ptr =
     (case slot_get s ptr of
        None \<Rightarrow> Some ptr
      | Some e \<Rightarrow>
          if lh_hash (ent s e) \<noteq> hash \<or> key \<noteq> lh_key (ent s e) then find_loop s key hash (NextHash e) else Some ptr)"

definition FindPointer :: "'v LRUCache \<Rightarrow> slice \<Rightarrow> uint32 \<Rightarrow> slot option" where
  "FindPointer s key hash = find_loop s key hash (Bucket (unat (hash AND (lc_length s - 1))))"

partial_function (option) new_length_loop :: "uint32 \<Rightarrow> uint32 \<Rightarrow> uint32 option" where
  [code]: "new_length_loop elems n = (if n < elems then new_length_loop elems (n * 2) else Some n)"

text \<open>The loop over a chain and the one over the buckets: the new array and the links.\<close>

partial_function (option) rehash_chain ::
  "(nat \<Rightarrow> uint32) \<Rightarrow> uint32 \<Rightarrow> nat option \<Rightarrow> nat option list \<Rightarrow> (nat \<Rightarrow> nat option) \<Rightarrow>
   (nat option list \<times> (nat \<Rightarrow> nat option)) option" where
  [code]: "rehash_chain hash_of n h new_list nh =
     (case h of
        None \<Rightarrow> Some (new_list, nh)
      | Some e \<Rightarrow>
          let nxt = nh e; i = unat (hash_of e AND (n - 1))
          in rehash_chain hash_of n nxt (new_list[i := Some e]) (nh(e := new_list ! i)))"

fun rehash_all ::
  "(nat \<Rightarrow> uint32) \<Rightarrow> uint32 \<Rightarrow> nat option list \<Rightarrow> nat option list \<Rightarrow> (nat \<Rightarrow> nat option) \<Rightarrow>
   (nat option list \<times> (nat \<Rightarrow> nat option)) option" where
  "rehash_all hash_of n [] new_list nh = Some (new_list, nh)"
| "rehash_all hash_of n (h # hs) new_list nh =
     Option.bind (rehash_chain hash_of n h new_list nh) (\<lambda>(new_list, nh). rehash_all hash_of n hs new_list nh)"

definition Resize :: "'v LRUCache \<Rightarrow> 'v LRUCache option" where
  "Resize s =
     do {
       new_length \<leftarrow> new_length_loop (lc_elems s) 4;
       (new_list, nh) \<leftarrow> rehash_all (\<lambda>e. lh_hash (ent s e)) new_length (take (unat (lc_length s)) (lc_list s))
         (replicate (unat new_length) None) (lc_next_hash s);
       Some (s\<lparr>lc_next_hash := nh, lc_list := new_list, lc_length := new_length\<rparr>)
     }"

definition HandleTable_Lookup :: "'v LRUCache \<Rightarrow> slice \<Rightarrow> uint32 \<Rightarrow> nat option option" where
  "HandleTable_Lookup s key hash = do { ptr \<leftarrow> FindPointer s key hash; Some (slot_get s ptr) }"

definition HandleTable_Insert :: "'v LRUCache \<Rightarrow> nat \<Rightarrow> (nat option \<times> 'v LRUCache) option" where
  "HandleTable_Insert s h =
     do {
       ptr \<leftarrow> FindPointer s (lh_key (ent s h)) (lh_hash (ent s h));
       let old = slot_get s ptr;
       let s = s\<lparr>lc_next_hash := (lc_next_hash s)(h := (case old of None \<Rightarrow> None | Some e \<Rightarrow> lc_next_hash s e))\<rparr>;
       let s = slot_set s ptr (Some h);
       if old = None then
         let s = s\<lparr>lc_elems := lc_elems s + 1\<rparr>
         in if lc_elems s > lc_length s then do { s \<leftarrow> Resize s; Some (old, s) } else Some (old, s)
       else Some (old, s)
     }"

definition HandleTable_Remove :: "'v LRUCache \<Rightarrow> slice \<Rightarrow> uint32 \<Rightarrow> (nat option \<times> 'v LRUCache) option" where
  "HandleTable_Remove s key hash =
     do {
       ptr \<leftarrow> FindPointer s key hash;
       Some (case slot_get s ptr of
               None \<Rightarrow> (None, s)
             | Some e \<Rightarrow> (Some e, (slot_set s ptr (lc_next_hash s e))\<lparr>lc_elems := lc_elems s - 1\<rparr>))
     }"

section \<open>A shard\<close>

definition LRUCache_new :: "'v LRUCache option" where
  "LRUCache_new = Resize \<lparr>lc_capacity = 0, lc_usage = 0, lc_next = id, lc_prev = id, lc_next_hash = (\<lambda>_. None),
     lc_ent = (\<lambda>_. None), lc_fresh = 2, lc_length = 0, lc_elems = 0, lc_list = [], lc_deleted = []\<rparr>"

definition SetCapacity :: "'v LRUCache \<Rightarrow> size_t \<Rightarrow> 'v LRUCache" where
  "SetCapacity s capacity = s\<lparr>lc_capacity := capacity\<rparr>"

definition FinishErase :: "'v LRUCache \<Rightarrow> nat option \<Rightarrow> bool \<times> 'v LRUCache" where
  "FinishErase s e =
     (case e of
        None \<Rightarrow> (False, s)
      | Some e \<Rightarrow>
          let s = LRU_Remove s e;
              s = set_ent s e (lh_in_cache_update (\<lambda>_. False));
              s = s\<lparr>lc_usage := lc_usage s - lh_charge (ent s e)\<rparr>
          in (True, Unref s e))"

definition LRU_Lookup :: "'v LRUCache \<Rightarrow> slice \<Rightarrow> uint32 \<Rightarrow> (nat option \<times> 'v LRUCache) option" where
  "LRU_Lookup s key hash =
     do {
       e \<leftarrow> HandleTable_Lookup s key hash;
       Some (e, case e of None \<Rightarrow> s | Some e \<Rightarrow> Ref s e)
     }"

definition LRU_Release :: "'v LRUCache \<Rightarrow> nat \<Rightarrow> 'v LRUCache" where
  "LRU_Release s h = Unref s h"

text \<open>The loop at the end of \<open>Insert\<close>, and with the condition on the usage dropped the loop of \<open>Prune\<close>.\<close>

definition erase_oldest :: "'v LRUCache \<Rightarrow> 'v LRUCache option" where
  "erase_oldest s =
     (let old = lc_next s lru_head
      in do {
           (r, s) \<leftarrow> HandleTable_Remove s (lh_key (ent s old)) (lh_hash (ent s old));
           Some (snd (FinishErase s r))
         })"

partial_function (option) evict :: "'v LRUCache \<Rightarrow> 'v LRUCache option" where
  [code]: "evict s =
     (if lc_usage s > lc_capacity s \<and> lc_next s lru_head \<noteq> lru_head then Option.bind (erase_oldest s) evict else Some s)"

partial_function (option) LRU_Prune :: "'v LRUCache \<Rightarrow> 'v LRUCache option" where
  [code]: "LRU_Prune s = (if lc_next s lru_head \<noteq> lru_head then Option.bind (erase_oldest s) LRU_Prune else Some s)"

definition LRU_Insert :: "'v LRUCache \<Rightarrow> slice \<Rightarrow> uint32 \<Rightarrow> 'v \<Rightarrow> size_t \<Rightarrow> (nat \<times> 'v LRUCache) option" where
  "LRU_Insert s key hash val charge =
     (let e = lc_fresh s;
          s = s\<lparr>lc_fresh := e + 1,
                lc_ent := (lc_ent s)(e \<mapsto> \<lparr>lh_value = val, lh_charge = charge, lh_key = key, lh_in_cache = False,
                                          lh_refs = 1, lh_hash = hash\<rparr>)\<rparr>
      in do {
           s \<leftarrow> (if lc_capacity s > 0 then
                   let s = set_ent s e (\<lambda>h. h\<lparr>lh_refs := lh_refs h + 1, lh_in_cache := True\<rparr>);
                       s = LRU_Append s in_use_head e;
                       s = s\<lparr>lc_usage := lc_usage s + charge\<rparr>
                   in do { (old, s) \<leftarrow> HandleTable_Insert s e; Some (snd (FinishErase s old)) }
                 else Some s);
           s \<leftarrow> evict s;
           Some (e, s)
         })"

definition LRU_Erase :: "'v LRUCache \<Rightarrow> slice \<Rightarrow> uint32 \<Rightarrow> 'v LRUCache option" where
  "LRU_Erase s key hash =
     do { (r, s) \<leftarrow> HandleTable_Remove s key hash; Some (snd (FinishErase s r)) }"

text \<open>The destructor.\<close>

partial_function (option) destroy_loop :: "'v LRUCache \<Rightarrow> nat \<Rightarrow> 'v LRUCache option" where
  [code]: "destroy_loop s e =
     (if e \<noteq> lru_head then
        let nxt = lc_next s e; s = set_ent s e (lh_in_cache_update (\<lambda>_. False))
        in destroy_loop (Unref s e) nxt
      else Some s)"

definition LRUCache_destroy :: "'v LRUCache \<Rightarrow> 'v LRUCache option" where
  "LRUCache_destroy s = destroy_loop s (lc_next s lru_head)"

section \<open>The cache\<close>

text \<open>A handle is an entry of a shard.\<close>

record 'v ShardedLRUCache =
  sh_shard :: "'v LRUCache list"
  sh_last_id :: uint64

definition kNumShards :: nat where
  "kNumShards = 16"

definition HashSlice :: "slice \<Rightarrow> uint32" where
  "HashSlice s = Hash s 0"

definition Shard :: "uint32 \<Rightarrow> nat" where
  "Shard hash = unat (drop_bit (32 - 4) hash)"

definition ShardedLRUCache_new :: "size_t \<Rightarrow> 'v ShardedLRUCache option" where
  "ShardedLRUCache_new capacity =
     (let per_shard = (capacity + (of_nat kNumShards - 1)) div of_nat kNumShards
      in Option.bind LRUCache_new (\<lambda>s. Some \<lparr>sh_shard = replicate kNumShards (SetCapacity s per_shard), sh_last_id = 0\<rparr>))"

definition Cache_Insert :: "'v ShardedLRUCache \<Rightarrow> slice \<Rightarrow> 'v \<Rightarrow> size_t \<Rightarrow> ((nat \<times> nat) \<times> 'v ShardedLRUCache) option" where
  "Cache_Insert c key val charge =
     (let hash = HashSlice key; i = Shard hash
      in do {
           (e, s) \<leftarrow> LRU_Insert (sh_shard c ! i) key hash val charge;
           Some ((i, e), c\<lparr>sh_shard := (sh_shard c)[i := s]\<rparr>)
         })"

definition Cache_Lookup :: "'v ShardedLRUCache \<Rightarrow> slice \<Rightarrow> ((nat \<times> nat) option \<times> 'v ShardedLRUCache) option" where
  "Cache_Lookup c key =
     (let hash = HashSlice key; i = Shard hash
      in do {
           (e, s) \<leftarrow> LRU_Lookup (sh_shard c ! i) key hash;
           Some (map_option (Pair i) e, c\<lparr>sh_shard := (sh_shard c)[i := s]\<rparr>)
         })"

definition Cache_Release :: "'v ShardedLRUCache \<Rightarrow> nat \<times> nat \<Rightarrow> 'v ShardedLRUCache" where
  "Cache_Release c h =
     (let i = Shard (lh_hash (ent (sh_shard c ! fst h) (snd h)))
      in c\<lparr>sh_shard := (sh_shard c)[i := LRU_Release (sh_shard c ! i) (snd h)]\<rparr>)"

definition Cache_Erase :: "'v ShardedLRUCache \<Rightarrow> slice \<Rightarrow> 'v ShardedLRUCache option" where
  "Cache_Erase c key =
     (let hash = HashSlice key; i = Shard hash
      in do {
           s \<leftarrow> LRU_Erase (sh_shard c ! i) key hash;
           Some (c\<lparr>sh_shard := (sh_shard c)[i := s]\<rparr>)
         })"

definition Cache_Value :: "'v ShardedLRUCache \<Rightarrow> nat \<times> nat \<Rightarrow> 'v" where
  "Cache_Value c h = lh_value (ent (sh_shard c ! fst h) (snd h))"

definition NewId :: "'v ShardedLRUCache \<Rightarrow> uint64 \<times> 'v ShardedLRUCache" where
  "NewId c = (sh_last_id c + 1, c\<lparr>sh_last_id := sh_last_id c + 1\<rparr>)"

fun prune_shards :: "'v LRUCache list \<Rightarrow> 'v LRUCache list option" where
  "prune_shards [] = Some []"
| "prune_shards (s # ss) = do { s \<leftarrow> LRU_Prune s; ss \<leftarrow> prune_shards ss; Some (s # ss) }"

definition Cache_Prune :: "'v ShardedLRUCache \<Rightarrow> 'v ShardedLRUCache option" where
  "Cache_Prune c = do { ss \<leftarrow> prune_shards (sh_shard c); Some (c\<lparr>sh_shard := ss\<rparr>) }"

definition TotalCharge :: "'v ShardedLRUCache \<Rightarrow> size_t" where
  "TotalCharge c = foldl (\<lambda>total s. total + lc_usage s) 0 (sh_shard c)"

end
