(* ===== verification/Ldb_Cache_Links.thy ===== *)
theory Ldb_Cache_Links
  imports Ldb_Cache
begin

text \<open>
  The links of a shard of the cache: the circular lists and the chains of the hash table hold lists of entries, and the
  operations on links are operations on these lists.
\<close>

section \<open>Circular lists\<close>

definition ring :: "(nat \<Rightarrow> nat) \<Rightarrow> (nat \<Rightarrow> nat) \<Rightarrow> nat list \<Rightarrow> bool" where
  "ring nx pv = successively (\<lambda>a b. nx a = b \<and> pv b = a)"

lemma ring_append_Cons:
  "ring nx pv (xs @ a # ys) \<longleftrightarrow> ring nx pv (xs @ [a]) \<and> ring nx pv (a # ys)"
  by (induction xs rule: induct_list012) (auto simp: ring_def)

lemma ring_cong:
  assumes "ring nx pv xs" and "\<forall>a\<in>set (butlast xs). nx' a = nx a" and "\<forall>b\<in>set (tl xs). pv' b = pv b"
  shows "ring nx' pv' xs"
  using assms
proof (induction xs rule: induct_list012)
  case (3 a b xs)
  then show ?case by (cases xs) (auto simp: ring_def)
qed (auto simp: ring_def)

definition circle :: "'v LRUCache \<Rightarrow> nat \<Rightarrow> nat list \<Rightarrow> bool" where
  "circle s h xs \<longleftrightarrow> ring (lc_next s) (lc_prev s) (h # xs @ [h]) \<and> distinct (h # xs)"

lemma circle_cong:
  assumes "circle s h xs" and "\<forall>a\<in>set (h # xs). lc_next s' a = lc_next s a \<and> lc_prev s' a = lc_prev s a"
  shows "circle s' h xs"
  using assms ring_cong [of "lc_next s" "lc_prev s" "h # xs @ [h]" "lc_next s'" "lc_prev s'"]
  by (auto simp: circle_def butlast_append)

lemma circle_first: "circle s h xs \<Longrightarrow> lc_next s h = (case xs of [] \<Rightarrow> h | x # _ \<Rightarrow> x)"
  by (auto simp: circle_def ring_def split: list.splits)

lemma ring_neighbours:
  assumes "ring nx pv (as @ p # e # q # bs)"
  shows "nx e = q \<and> pv e = p"
  using assms ring_append_Cons [of nx pv as p "e # q # bs"] by (simp add: ring_def)

lemma ring_unlink:
  assumes "ring nx pv (as @ p # e # q # bs)" and "p \<notin> set as" and "p \<notin> set (butlast (q # bs))" and "q \<notin> set bs"
    and "q \<notin> set (tl (as @ [p]))"
  shows "ring (nx(p := q)) (pv(q := p)) (as @ p # q # bs)"
proof -
  have l: "ring nx pv (as @ [p])" and r: "ring nx pv (q # bs)"
    using assms(1) ring_append_Cons [of nx pv as p "e # q # bs"] ring_append_Cons [of nx pv "[p, e]" q bs]
    by (simp_all add: ring_def)
  have "ring (nx(p := q)) (pv(q := p)) (as @ [p])" by (rule ring_cong [OF l]) (use assms in auto)
  moreover have "ring (nx(p := q)) (pv(q := p)) (q # bs)" by (rule ring_cong [OF r]) (use assms in auto)
  ultimately show ?thesis using ring_append_Cons [of _ _ as p "q # bs"] by (simp add: ring_def)
qed

lemma split_around: obtains as p q bs where "h # xs = as @ [p]" "ys @ [h] = q # bs"
  by (metis append_butlast_last_id list.exhaust_sel list.simps(3) snoc_eq_iff_butlast)

lemma circle_at:
  assumes "circle s h (xs @ e # ys)" and "h # xs = as @ [p]" and "ys @ [h] = q # bs"
  shows "ring (lc_next s) (lc_prev s) (as @ p # e # q # bs)"
proof -
  have "h # (xs @ e # ys) @ [h] = (h # xs) @ e # (ys @ [h])" by simp
  also have "\<dots> = as @ p # e # q # bs" unfolding assms(2,3) by simp
  finally show ?thesis using assms(1) by (simp only: circle_def)
qed

lemma circle_end:
  assumes "circle s h xs" and "h # xs = as @ [p]"
  shows "ring (lc_next s) (lc_prev s) (as @ [p]) \<and> lc_prev s h = p"
proof -
  have "h # xs @ [h] = (h # xs) @ [h]" by simp
  also have "\<dots> = as @ p # [h]" unfolding assms(2) by simp
  finally have "ring (lc_next s) (lc_prev s) (as @ p # [h])" using assms(1) by (simp only: circle_def)
  then show ?thesis unfolding ring_append_Cons [of _ _ as p "[h]"] by (simp add: ring_def)
qed

lemma circle_unlink:
  assumes "circle s h (xs @ e # ys)"
  shows "circle (LRU_Remove s e) h (xs @ ys)"
proof -
  obtain as p q bs where pq: "h # xs = as @ [p]" "ys @ [h] = q # bs" by (rule split_around)
  note r = circle_at [OF assms pq]
  have d: "distinct (h # xs @ e # ys)" using assms by (simp only: circle_def)
  have nb: "lc_next s e = q \<and> lc_prev s e = p" by (rule ring_neighbours [OF r])
  have p: "p \<in> set (h # xs)" "as @ [p] = h # xs" "as = butlast (h # xs)" using pq(1) by auto
  have q: "q \<in> set (h # ys)" "q # bs = ys @ [h]" "bs = tl (ys @ [h])" using pq(2) by (cases ys; auto)+
  have e: "e \<noteq> p" "e \<noteq> q" using d p(1) q(1) by auto
  have dp: "distinct (as @ [p])" unfolding p(2) using d by auto
  have dq: "distinct (q # bs)" unfolding q(2) using d by auto
  have "ring ((lc_next s)(p := q)) ((lc_prev s)(q := p)) (as @ p # q # bs)"
  proof (rule ring_unlink [OF r])
    show "p \<notin> set as" using dp by simp
    show "q \<notin> set bs" using dq by simp
    show "p \<notin> set (butlast (q # bs))" using d p(1) unfolding q(2) butlast_snoc by auto
    show "q \<notin> set (tl (as @ [p]))" using d q(1) unfolding p(2) by auto
  qed
  moreover have "as @ p # q # bs = h # (xs @ ys) @ [h]"
    using p(2) q(2) by (metis append.assoc append_Cons append_Nil)
  ultimately show ?thesis using d nb e by (simp add: circle_def LRU_Remove_def Let_def)
qed

lemma circle_append:
  assumes "circle s h xs" and "e \<notin> set (h # xs)"
  shows "circle (LRU_Append s h e) h (xs @ [e])"
proof -
  obtain as p where p: "h # xs = as @ [p]" by (rule split_around)
  note r = circle_end [OF assms(1) p]
  have d: "distinct (as @ [p])" using assms(1) unfolding circle_def p by simp
  have ph: "lc_prev s h = p" using r by simp
  have "e \<notin> set (as @ [p])" using assms(2) unfolding p [symmetric] .
  then have e: "e \<noteq> p" "e \<noteq> h" "e \<notin> set as" using assms(2) by auto
  let ?n = "(lc_next s)(e := h, p := e)" and ?p = "(lc_prev s)(e := p, h := e)"
  from r have "ring (lc_next s) (lc_prev s) (as @ [p])" by simp
  then have "ring ?n ?p (as @ [p])"
  proof (rule ring_cong)
    show "\<forall>a\<in>set (butlast (as @ [p])). ?n a = lc_next s a" using d e by auto
    have "h \<notin> set (tl (as @ [p]))" using assms(1) p by (metis circle_def distinct.simps(2) list.sel(3))
    moreover have "e \<notin> set (tl (as @ [p]))" using assms(2) p by (metis list.sel(3) list.set_intros(2))
    ultimately show "\<forall>b\<in>set (tl (as @ [p])). ?p b = lc_prev s b" by auto
  qed
  then have "ring ?n ?p (as @ p # [e, h])"
    using ring_append_Cons [of ?n ?p as p "[e, h]"] e by (simp add: ring_def)
  moreover have "as @ p # [e, h] = h # (xs @ [e]) @ [h]" using p by (metis append.assoc append_Cons append_Nil)
  moreover have "lc_next (LRU_Append s h e) = ?n" "lc_prev (LRU_Append s h e) = ?p"
    using e ph by (auto simp: LRU_Append_def Let_def fun_eq_iff)
  ultimately show ?thesis using assms unfolding circle_def by auto
qed

lemma LRU_Remove_fields [simp]:
  "lc_capacity (LRU_Remove s e) = lc_capacity s" "lc_usage (LRU_Remove s e) = lc_usage s"
  "lc_next_hash (LRU_Remove s e) = lc_next_hash s" "lc_ent (LRU_Remove s e) = lc_ent s"
  "lc_fresh (LRU_Remove s e) = lc_fresh s" "lc_length (LRU_Remove s e) = lc_length s"
  "lc_elems (LRU_Remove s e) = lc_elems s" "lc_list (LRU_Remove s e) = lc_list s"
  "lc_deleted (LRU_Remove s e) = lc_deleted s"
  by (simp_all add: LRU_Remove_def Let_def)

lemma LRU_Append_fields [simp]:
  "lc_capacity (LRU_Append s h e) = lc_capacity s" "lc_usage (LRU_Append s h e) = lc_usage s"
  "lc_next_hash (LRU_Append s h e) = lc_next_hash s" "lc_ent (LRU_Append s h e) = lc_ent s"
  "lc_fresh (LRU_Append s h e) = lc_fresh s" "lc_length (LRU_Append s h e) = lc_length s"
  "lc_elems (LRU_Append s h e) = lc_elems s" "lc_list (LRU_Append s h e) = lc_list s"
  "lc_deleted (LRU_Append s h e) = lc_deleted s"
  by (simp_all add: LRU_Append_def Let_def)

text \<open>A list of the other head is not touched.\<close>

lemma circle_unlink_other:
  assumes "circle s h (xs @ e # ys)" and "circle s h' zs" and "set (h # xs @ e # ys) \<inter> set (h' # zs) = {}"
  shows "circle (LRU_Remove s e) h' zs"
proof (rule circle_cong [OF assms(2)])
  obtain as p q bs where pq: "h # xs = as @ [p]" "ys @ [h] = q # bs" by (rule split_around)
  note r = circle_at [OF assms(1) pq]
  have nb: "lc_next s e = q \<and> lc_prev s e = p" by (rule ring_neighbours [OF r])
  have "p \<in> set (h # xs)" unfolding pq(1) by simp
  moreover have "q \<in> set (h # ys)" using pq(2) by (cases ys) auto
  ultimately have "p \<notin> set (h' # zs)" "q \<notin> set (h' # zs)" "e \<notin> set (h' # zs)" using assms(3) by auto
  then show "\<forall>a\<in>set (h' # zs). lc_next (LRU_Remove s e) a = lc_next s a \<and> lc_prev (LRU_Remove s e) a = lc_prev s a"
    using nb by (auto simp: LRU_Remove_def Let_def)
qed

lemma circle_append_other:
  assumes "circle s h xs" and "circle s h' zs" and "set (h # xs) \<inter> set (h' # zs) = {}" and "e \<notin> set (h' # zs)"
    and "e \<notin> set (h # xs)"
  shows "circle (LRU_Append s h e) h' zs"
proof (rule circle_cong [OF assms(2)])
  obtain as p where p: "h # xs = as @ [p]" by (rule split_around)
  have ph: "lc_prev s h = p" using circle_end [OF assms(1) p] by simp
  have "p \<in> set (h # xs)" using p by simp
  then have "p \<notin> set (h' # zs)" "h \<notin> set (h' # zs)" using assms(3) by auto
  then show "\<forall>a\<in>set (h' # zs). lc_next (LRU_Append s h e) a = lc_next s a \<and> lc_prev (LRU_Append s h e) a = lc_prev s a"
    using ph assms(4,5) by (auto simp: LRU_Append_def Let_def)
qed

section \<open>The hash table\<close>

fun hash_chain :: "(nat \<Rightarrow> nat option) \<Rightarrow> nat option \<Rightarrow> nat list \<Rightarrow> bool" where
  "hash_chain nh p [] \<longleftrightarrow> p = None"
| "hash_chain nh p (x # xs) \<longleftrightarrow> p = Some x \<and> hash_chain nh (nh x) xs"

lemma hash_chain_cong: "\<forall>x\<in>set xs. nh' x = nh x \<Longrightarrow> hash_chain nh' p xs \<longleftrightarrow> hash_chain nh p xs"
  by (induction xs arbitrary: p) auto

definition matches :: "'v LRUCache \<Rightarrow> slice \<Rightarrow> uint32 \<Rightarrow> nat \<Rightarrow> bool" where
  "matches s key hash e \<longleftrightarrow> lh_hash (ent s e) = hash \<and> key = lh_key (ent s e)"

text \<open>The pointer behind the entries \<open>ys\<close> of a chain.\<close>

definition slot_at :: "slot \<Rightarrow> nat list \<Rightarrow> slot" where
  "slot_at ptr ys = (if ys = [] then ptr else NextHash (last ys))"

lemma slot_at_Cons: "slot_at ptr (y # ys) = slot_at (NextHash y) ys"
  by (simp add: slot_at_def)

lemma find_loop_chain:
  assumes "hash_chain (lc_next_hash s) (slot_get s ptr) xs"
  shows "\<exists>ys zs. xs = ys @ zs \<and> find_loop s key hash ptr = Some (slot_at ptr ys) \<and>
    (\<forall>y\<in>set ys. \<not> matches s key hash y) \<and> (zs \<noteq> [] \<longrightarrow> matches s key hash (hd zs)) \<and>
    hash_chain (lc_next_hash s) (slot_get s (slot_at ptr ys)) zs"
  using assms
proof (induction xs arbitrary: ptr)
  case Nil
  then show ?case by (subst find_loop.simps) (simp add: slot_at_def)
next
  case (Cons x xs)
  show ?case
  proof (cases "matches s key hash x")
    case True
    with Cons.prems have "find_loop s key hash ptr = Some (slot_at ptr [])"
      by (subst find_loop.simps) (simp add: matches_def slot_at_def)
    with True Cons.prems show ?thesis by (intro exI [of _ "[]"] exI [of _ "x # xs"]) (simp add: slot_at_def)
  next
    case False
    have "hash_chain (lc_next_hash s) (slot_get s (NextHash x)) xs" using Cons.prems by (simp add: slot_get_def)
    from Cons.IH [OF this] obtain ys zs where "xs = ys @ zs" "find_loop s key hash (NextHash x) = Some (slot_at (NextHash x) ys)"
      "\<forall>y\<in>set ys. \<not> matches s key hash y" "zs \<noteq> [] \<longrightarrow> matches s key hash (hd zs)"
      "hash_chain (lc_next_hash s) (slot_get s (slot_at (NextHash x) ys)) zs" by blast
    moreover have "find_loop s key hash ptr = find_loop s key hash (NextHash x)"
      using False Cons.prems by (subst find_loop.simps) (auto simp: matches_def)
    ultimately show ?thesis using False by (intro exI [of _ "x # ys"] exI [of _ zs]) (simp add: slot_at_Cons)
  qed
qed

lemma chain_relink:
  assumes "hash_chain nh p (ys @ zs)" and "distinct ys" and "hash_chain nh v zs'" and "set ys \<inter> set zs' = {}" and "ys \<noteq> []"
  shows "hash_chain (nh(last ys := v)) p (ys @ zs')"
  using assms
proof (induction ys arbitrary: p)
  case (Cons y ys)
  show ?case
  proof (cases "ys = []")
    case True
    have "hash_chain (nh(y := v)) v zs' \<longleftrightarrow> hash_chain nh v zs'" by (rule hash_chain_cong) (use Cons.prems in auto)
    with True Cons.prems show ?thesis by (simp add: fun_upd_def)
  next
    case False
    with Cons.prems have "hash_chain (nh(last ys := v)) (nh y) (ys @ zs')" "last ys \<noteq> y" by (auto intro!: Cons.IH)
    with False Cons.prems show ?thesis by (simp add: fun_upd_def)
  qed
qed simp

definition bucket :: "'v LRUCache \<Rightarrow> nat \<Rightarrow> nat" where
  "bucket s e = unat (lh_hash (ent s e) AND (lc_length s - 1))"

definition table :: "'v LRUCache \<Rightarrow> nat set \<Rightarrow> bool" where
  "table s T \<longleftrightarrow> length (lc_list s) = unat (lc_length s) \<and> lc_length s \<noteq> 0 \<and>
     (\<forall>i<unat (lc_length s). \<exists>xs. hash_chain (lc_next_hash s) (lc_list s ! i) xs \<and> distinct xs \<and> set xs = {e\<in>T. bucket s e = i})"

lemma table_elems [simp]: "table (s\<lparr>lc_elems := n\<rparr>) T = table s T"
proof -
  have "bucket (s\<lparr>lc_elems := n\<rparr>) = bucket s" by (simp add: bucket_def ent_def fun_eq_iff)
  then show ?thesis by (simp add: table_def)
qed

lemma bucket_less: "n \<noteq> 0 \<Longrightarrow> unat (hash AND (n - 1)) < unat n" for hash n :: uint32
proof -
  assume "n \<noteq> 0"
  have "hash AND (n - 1) \<le> n - 1" by (rule word_and_le1)
  also have "n - 1 < n" using \<open>n \<noteq> 0\<close> unat_gt_0 [of n] by (simp add: word_less_nat_alt unat_minus_one)
  finally show ?thesis by (simp only: word_less_nat_alt)
qed

lemma FindPointer_table:
  assumes "table s T"
  shows "\<exists>i ys zs. i = unat (hash AND (lc_length s - 1)) \<and> FindPointer s key hash = Some (slot_at (Bucket i) ys) \<and>
    i < unat (lc_length s) \<and> hash_chain (lc_next_hash s) (lc_list s ! i) (ys @ zs) \<and> distinct (ys @ zs) \<and>
    set (ys @ zs) = {e\<in>T. bucket s e = i} \<and> (\<forall>y\<in>set ys. \<not> matches s key hash y) \<and>
    (zs \<noteq> [] \<longrightarrow> matches s key hash (hd zs)) \<and>
    hash_chain (lc_next_hash s) (slot_get s (slot_at (Bucket i) ys)) zs"
proof -
  let ?i = "unat (hash AND (lc_length s - 1))"
  have i: "?i < unat (lc_length s)" using assms by (intro bucket_less) (simp add: table_def)
  with assms obtain xs where xs: "hash_chain (lc_next_hash s) (lc_list s ! ?i) xs" "distinct xs" "set xs = {e\<in>T. bucket s e = ?i}"
    unfolding table_def by blast
  then have "hash_chain (lc_next_hash s) (slot_get s (Bucket ?i)) xs" by (simp add: slot_get_def)
  from find_loop_chain [OF this, of key hash] xs i show ?thesis unfolding FindPointer_def by blast
qed

text \<open>What the operations of the table leave alone.\<close>

definition rest :: "'v LRUCache \<Rightarrow> size_t \<times> size_t \<times> (nat \<Rightarrow> nat) \<times> (nat \<Rightarrow> nat) \<times> (nat \<Rightarrow> 'v LRUHandle option) \<times> nat \<times>
    (slice \<times> 'v) list" where
  "rest s = (lc_capacity s, lc_usage s, lc_next s, lc_prev s, lc_ent s, lc_fresh s, lc_deleted s)"

lemma rest_ent: "rest s' = rest s \<Longrightarrow> ent s' = ent s"
  by (simp add: rest_def ent_def fun_eq_iff)

lemma rest_slot_set [simp]: "rest (slot_set s ptr v) = rest s"
  by (simp add: rest_def slot_set_def split: slot.splits)

lemma ent_slot_set [simp]: "ent (slot_set s ptr v) = ent s"
  by (rule rest_ent) simp

lemma slot_set_fields [simp]:
  "lc_length (slot_set s ptr v) = lc_length s" "lc_elems (slot_set s ptr v) = lc_elems s"
  "length (lc_list (slot_set s ptr v)) = length (lc_list s)"
  by (simp_all add: slot_set_def split: slot.splits)

lemma table_relink:
  assumes "table s T" and "i < unat (lc_length s)" and "hash_chain (lc_next_hash s) (lc_list s ! i) (ys @ zs)"
    and "distinct (ys @ zs)" and "set (ys @ zs) = {e\<in>T. bucket s e = i}"
    and "hash_chain (lc_next_hash s) v zs'" and "distinct (ys @ zs')" and "set (ys @ zs') = {e\<in>T'. bucket s e = i}"
    and "\<forall>e. bucket s e \<noteq> i \<longrightarrow> (e \<in> T' \<longleftrightarrow> e \<in> T)"
  shows "table (slot_set s (slot_at (Bucket i) ys) v) T'"
proof -
  let ?s = "slot_set s (slot_at (Bucket i) ys) v"
  have b: "bucket ?s = bucket s" by (simp add: bucket_def fun_eq_iff)
  have here: "hash_chain (lc_next_hash ?s) (lc_list ?s ! i) (ys @ zs')"
  proof (cases "ys = []")
    case True
    with assms(1,2,6) show ?thesis by (simp add: slot_at_def slot_set_def table_def)
  next
    case False
    with assms(3,4,6,7) show ?thesis by (simp add: slot_at_def slot_set_def) (rule chain_relink; auto)
  qed
  have other: "\<exists>xs. hash_chain (lc_next_hash ?s) (lc_list ?s ! j) xs \<and> distinct xs \<and> set xs = {e\<in>T'. bucket s e = j}"
    if j: "j < unat (lc_length s)" "j \<noteq> i" for j
  proof -
    obtain xs where xs: "hash_chain (lc_next_hash s) (lc_list s ! j) xs" "distinct xs" "set xs = {e\<in>T. bucket s e = j}"
      using assms(1) j(1) unfolding table_def by blast
    have eq: "lc_list ?s ! j = lc_list s ! j" using j by (simp add: slot_at_def slot_set_def)
    have "\<forall>x\<in>set xs. lc_next_hash ?s x = lc_next_hash s x"
    proof (cases "ys = []")
      case False
      then have "last ys \<in> set (ys @ zs)" by simp
      then have "last ys \<notin> set xs" using assms(5) xs(3) j(2) by auto
      with False show ?thesis by (auto simp: slot_at_def slot_set_def)
    qed (simp add: slot_at_def slot_set_def)
    from hash_chain_cong [OF this] xs(1) have "hash_chain (lc_next_hash ?s) (lc_list ?s ! j) xs" unfolding eq by blast
    moreover have "set xs = {e\<in>T'. bucket s e = j}" using xs(3) assms(9) j(2) by auto
    ultimately show ?thesis using xs(2) by blast
  qed
  show ?thesis unfolding table_def b
  proof (intro conjI allI impI)
    fix j assume "j < unat (lc_length ?s)"
    then show "\<exists>xs. hash_chain (lc_next_hash ?s) (lc_list ?s ! j) xs \<and> distinct xs \<and> set xs = {e\<in>T'. bucket s e = j}"
      using here other [of j] assms(7,8) by (cases "j = i") auto
  qed (use assms(1) in \<open>simp_all add: table_def\<close>)
qed

lemma HandleTable_Lookup_table:
  assumes "table s T"
  shows "\<exists>r. HandleTable_Lookup s key hash = Some r \<and>
    (case r of None \<Rightarrow> \<forall>e\<in>T. \<not> matches s key hash e | Some e \<Rightarrow> e \<in> T \<and> matches s key hash e)"
proof -
  from FindPointer_table [OF assms, of hash key] obtain i ys zs where
    i: "i = unat (hash AND (lc_length s - 1))" and p: "FindPointer s key hash = Some (slot_at (Bucket i) ys)"
    and set: "set (ys @ zs) = {e\<in>T. bucket s e = i}" and ys: "\<forall>y\<in>set ys. \<not> matches s key hash y"
    and zs: "zs \<noteq> [] \<longrightarrow> matches s key hash (hd zs)"
    and c: "hash_chain (lc_next_hash s) (slot_get s (slot_at (Bucket i) ys)) zs" by (elim exE conjE) (rule that)
  have b: "matches s key hash e \<Longrightarrow> bucket s e = i" for e by (simp add: matches_def bucket_def i)
  show ?thesis
  proof (cases zs)
    case Nil
    then have "\<forall>e\<in>T. \<not> matches s key hash e" using b ys set by auto
    with Nil c p show ?thesis by (simp add: HandleTable_Lookup_def)
  next
    case (Cons z zs')
    then have "z \<in> T" using set by auto
    with Cons c p zs show ?thesis by (simp add: HandleTable_Lookup_def)
  qed
qed

lemma HandleTable_Remove_table:
  assumes "table s T"
  shows "\<exists>r s'. HandleTable_Remove s key hash = Some (r, s') \<and> rest s' = rest s \<and>
    (case r of None \<Rightarrow> s' = s \<and> (\<forall>e\<in>T. \<not> matches s key hash e)
     | Some e \<Rightarrow> e \<in> T \<and> matches s key hash e \<and> table s' (T - {e}) \<and> lc_elems s' = lc_elems s - 1)"
proof -
  from FindPointer_table [OF assms, of hash key] obtain i ys zs where
    i: "i = unat (hash AND (lc_length s - 1))" and p: "FindPointer s key hash = Some (slot_at (Bucket i) ys)"
    and i': "i < unat (lc_length s)" and ch: "hash_chain (lc_next_hash s) (lc_list s ! i) (ys @ zs)" and d: "distinct (ys @ zs)"
    and set: "set (ys @ zs) = {e\<in>T. bucket s e = i}" and ys: "\<forall>y\<in>set ys. \<not> matches s key hash y"
    and zs: "zs \<noteq> [] \<longrightarrow> matches s key hash (hd zs)"
    and c: "hash_chain (lc_next_hash s) (slot_get s (slot_at (Bucket i) ys)) zs" by (elim exE conjE) (rule that)
  have b: "matches s key hash e \<Longrightarrow> bucket s e = i" for e by (simp add: matches_def bucket_def i)
  show ?thesis
  proof (cases zs)
    case Nil
    then have "\<forall>e\<in>T. \<not> matches s key hash e" using b ys set by auto
    with Nil c p show ?thesis by (simp add: HandleTable_Remove_def)
  next
    case (Cons z zs')
    let ?s = "slot_set s (slot_at (Bucket i) ys) (lc_next_hash s z)"
    have z: "z \<in> T" "matches s key hash z" using set zs Cons by auto
    have "set (ys @ zs') = set (ys @ zs) - {z}" using d Cons by auto
    then have "set (ys @ zs') = {e\<in>T - {z}. bucket s e = i}" using set by blast
    then have "table ?s (T - {z})"
      using c d Cons b [OF z(2)] by (intro table_relink [OF assms i' ch d set]) auto
    moreover have "HandleTable_Remove s key hash = Some (Some z, ?s\<lparr>lc_elems := lc_elems s - 1\<rparr>)"
      using Cons c p by (simp add: HandleTable_Remove_def)
    moreover have "rest (?s\<lparr>lc_elems := lc_elems s - 1\<rparr>) = rest s"
      using rest_slot_set [of s] by (simp add: rest_def)
    ultimately show ?thesis using z by auto
  qed
qed

subsection \<open>Growing\<close>

lemma new_length_loop_total:
  assumes "elems \<le> 2 ^ 31" and "k \<le> 31"
  shows "\<exists>m. new_length_loop elems (2 ^ k) = Some m \<and> m \<noteq> 0"
  using assms(2)
proof (induction "31 - k" arbitrary: k)
  case 0
  then have "k = 31" by simp
  with assms(1) show ?case by (subst new_length_loop.simps) (simp add: not_less [symmetric])
next
  case (Suc d)
  have nz: "(2 :: uint32) ^ k \<noteq> 0" using Suc.prems by (simp add: exp_eq_0_imp_not_bit)
  have "d = 31 - Suc k" "Suc k \<le> 31" using Suc.hyps(2) by simp_all
  from Suc.hyps(1) [OF this] obtain m where
    "new_length_loop elems (2 ^ Suc k) = Some m" "m \<noteq> 0" by blast
  then show ?case using nz by (subst new_length_loop.simps) (simp add: mult.commute)
qed

text \<open>The new array and the links hold the entries of \<open>D\<close>.\<close>

definition rehashed :: "(nat \<Rightarrow> uint32) \<Rightarrow> uint32 \<Rightarrow> nat set \<Rightarrow> nat option list \<Rightarrow> (nat \<Rightarrow> nat option) \<Rightarrow> bool" where
  "rehashed hash_of n D nl nh \<longleftrightarrow> length nl = unat n \<and>
     (\<forall>i<unat n. \<exists>ys. hash_chain nh (nl ! i) ys \<and> distinct ys \<and> set ys = {e\<in>D. unat (hash_of e AND (n - 1)) = i})"

lemma rehashed_push:
  assumes "rehashed hash_of n D nl nh" and "n \<noteq> 0" and "e \<notin> D" and "i = unat (hash_of e AND (n - 1))"
  shows "rehashed hash_of n (insert e D) (nl[i := Some e]) (nh(e := nl ! i))"
  unfolding rehashed_def
proof (intro conjI allI impI)
  show "length (nl[i := Some e]) = unat n" using assms(1) by (simp add: rehashed_def)
  fix j assume j: "j < unat n"
  with assms(1) obtain ys where ys: "hash_chain nh (nl ! j) ys" "distinct ys"
    "set ys = {e\<in>D. unat (hash_of e AND (n - 1)) = j}" unfolding rehashed_def by blast
  have e: "e \<notin> set ys" using ys(3) assms(3) by auto
  then have c: "hash_chain (nh(e := nl ! i)) (nl ! j) ys" using hash_chain_cong [of ys "nh(e := nl ! i)" nh] ys(1) by auto
  have len: "length nl = unat n" using assms(1) by (simp add: rehashed_def)
  show "\<exists>ys. hash_chain (nh(e := nl ! i)) (nl[i := Some e] ! j) ys \<and> distinct ys \<and>
      set ys = {x\<in>insert e D. unat (hash_of x AND (n - 1)) = j}"
  proof (cases "j = i")
    case True
    have "set (e # ys) = {x\<in>insert e D. unat (hash_of x AND (n - 1)) = j}" using ys(3) True assms(4) by auto
    moreover have "hash_chain (nh(e := nl ! i)) (nl[i := Some e] ! j) (e # ys)" using True j len c by simp
    ultimately show ?thesis using e ys(2) by (intro exI [of _ "e # ys"]) simp
  next
    case False
    then have "set ys = {x\<in>insert e D. unat (hash_of x AND (n - 1)) = j}" using ys(3) assms(4) by auto
    with False c ys(2) show ?thesis by auto
  qed
qed

lemma rehash_chain_correct:
  assumes "hash_chain nh h xs" and "distinct xs" and "D \<inter> set xs = {}" and "rehashed hash_of n D nl nh" and "n \<noteq> 0"
  shows "\<exists>nl' nh'. rehash_chain hash_of n h nl nh = Some (nl', nh') \<and> rehashed hash_of n (D \<union> set xs) nl' nh' \<and>
    (\<forall>e. e \<notin> set xs \<longrightarrow> nh' e = nh e)"
  using assms
proof (induction xs arbitrary: h nl nh D)
  case Nil
  then show ?case by (subst rehash_chain.simps) simp
next
  case (Cons e xs)
  let ?i = "unat (hash_of e AND (n - 1))"
  let ?nl = "nl[?i := Some e]" and ?nh = "nh(e := nl ! ?i)"
  have step: "rehash_chain hash_of n h nl nh = rehash_chain hash_of n (nh e) ?nl ?nh"
    using Cons.prems(1) by (subst rehash_chain.simps) (simp add: Let_def)
  have c: "hash_chain ?nh (nh e) xs" using Cons.prems(1,2) hash_chain_cong [of xs ?nh nh] by auto
  have r: "rehashed hash_of n (insert e D) ?nl ?nh"
    by (rule rehashed_push) (use Cons.prems in auto)
  have d: "insert e D \<inter> set xs = {}" "distinct xs" using Cons.prems(2,3) by auto
  obtain nl' nh' where "rehash_chain hash_of n (nh e) ?nl ?nh = Some (nl', nh')"
    "rehashed hash_of n (insert e D \<union> set xs) nl' nh'" "\<forall>x. x \<notin> set xs \<longrightarrow> nh' x = ?nh x"
    using Cons.IH [OF c d(2,1) r Cons.prems(5)] by (elim exE conjE) (rule that)
  then show ?case unfolding step by auto
qed

lemma rehash_all_correct:
  assumes "list_all2 (hash_chain nh) hs css" and "distinct (concat css)" and "D \<inter> set (concat css) = {}"
    and "rehashed hash_of n D nl nh" and "n \<noteq> 0"
  shows "\<exists>nl' nh'. rehash_all hash_of n hs nl nh = Some (nl', nh') \<and> rehashed hash_of n (D \<union> set (concat css)) nl' nh'"
  using assms
proof (induction hs arbitrary: css nl nh D)
  case (Cons h hs)
  then obtain xs css' where css: "css = xs # css'" "hash_chain nh h xs" "list_all2 (hash_chain nh) hs css'"
    by (cases css) auto
  obtain nl' nh' where r: "rehash_chain hash_of n h nl nh = Some (nl', nh')" "rehashed hash_of n (D \<union> set xs) nl' nh'"
    "\<forall>e. e \<notin> set xs \<longrightarrow> nh' e = nh e"
    using rehash_chain_correct [OF css(2), of D hash_of n nl] Cons.prems css(1) by auto
  have "list_all2 (hash_chain nh') hs css'"
  proof (rule list.rel_mono_strong [OF css(3)])
    fix p ys assume "ys \<in> set css'" "hash_chain nh p ys"
    moreover have "\<forall>x\<in>set ys. nh' x = nh x" using r(3) Cons.prems(2) \<open>ys \<in> set css'\<close> css(1) by auto
    ultimately show "hash_chain nh' p ys" using hash_chain_cong by blast
  qed
  moreover have "distinct (concat css')" "(D \<union> set xs) \<inter> set (concat css') = {}" using Cons.prems(2,3) css(1) by auto
  ultimately obtain nl'' nh'' where "rehash_all hash_of n hs nl' nh' = Some (nl'', nh'')"
    "rehashed hash_of n ((D \<union> set xs) \<union> set (concat css')) nl'' nh''"
    using Cons.IH [OF _ _ _ r(2) Cons.prems(5)] by blast
  then show ?case using r(1) css(1) by (simp add: Un_assoc)
qed auto

lemma distinct_concat_nth:
  assumes "\<And>i. i < length css \<Longrightarrow> distinct (css ! i)"
    and "\<And>i j. i < length css \<Longrightarrow> j < length css \<Longrightarrow> i \<noteq> j \<Longrightarrow> set (css ! i) \<inter> set (css ! j) = {}"
  shows "distinct (concat css)"
  using assms
proof (induction css)
  case (Cons xs css)
  have "distinct (concat css)"
  proof (rule Cons.IH)
    fix i assume "i < length css"
    then show "distinct (css ! i)" using Cons.prems(1) [of "Suc i"] by simp
  next
    fix i j assume "i < length css" "j < length css" "i \<noteq> j"
    then show "set (css ! i) \<inter> set (css ! j) = {}" using Cons.prems(2) [of "Suc i" "Suc j"] by simp
  qed
  moreover have "set xs \<inter> set ys = {}" if ys: "ys \<in> set css" for ys
  proof -
    obtain j where "j < length css" "ys = css ! j" using ys by (auto simp: in_set_conv_nth)
    then show ?thesis using Cons.prems(2) [of 0 "Suc j"] by simp
  qed
  ultimately show ?case using Cons.prems(1) [of 0] by auto
qed simp

lemma Resize_table:
  assumes "lc_elems s \<le> 2 ^ 31" and "lc_length s = 0 \<and> T = {} \<or> table s T"
  shows "\<exists>s'. Resize s = Some s' \<and> table s' T \<and> rest s' = rest s \<and> lc_elems s' = lc_elems s"
proof -
  obtain m where m: "new_length_loop (lc_elems s) 4 = Some m" "m \<noteq> 0"
    using new_length_loop_total [OF assms(1), of 2] by auto
  define css where "css = map (\<lambda>i. SOME xs. hash_chain (lc_next_hash s) (lc_list s ! i) xs \<and> distinct xs \<and>
    set xs = {e\<in>T. bucket s e = i}) [0..<unat (lc_length s)]"
  have css: "hash_chain (lc_next_hash s) (lc_list s ! i) (css ! i) \<and> distinct (css ! i) \<and>
      set (css ! i) = {e\<in>T. bucket s e = i}" if "i < unat (lc_length s)" for i
  proof -
    have "table s T" using assms(2) that by auto
    then have "\<exists>xs. hash_chain (lc_next_hash s) (lc_list s ! i) xs \<and> distinct xs \<and> set xs = {e\<in>T. bucket s e = i}"
      using that unfolding table_def by blast
    from someI_ex [OF this] show ?thesis using that by (simp add: css_def)
  qed
  have len: "length css = unat (lc_length s)" by (simp add: css_def)
  have T: "set (concat css) = T"
  proof
    show "set (concat css) \<subseteq> T" using css len by (fastforce simp: in_set_conv_nth)
    show "T \<subseteq> set (concat css)"
    proof
      fix e assume "e \<in> T"
      then have "table s T" using assms(2) by auto
      then have "bucket s e < unat (lc_length s)" unfolding bucket_def table_def by (intro bucket_less) simp
      with css [OF this] \<open>e \<in> T\<close> len show "e \<in> set (concat css)" by (auto intro: nth_mem)
    qed
  qed
  have "distinct (concat css)"
  proof (rule distinct_concat_nth)
    fix i j assume "i < length css" "j < length css" "i \<noteq> j"
    with css [of i] css [of j] len show "set (css ! i) \<inter> set (css ! j) = {}" by auto
  qed (use css len in auto)
  moreover have "list_all2 (hash_chain (lc_next_hash s)) (take (unat (lc_length s)) (lc_list s)) css"
    using css len assms(2) by (auto simp: list_all2_conv_all_nth table_def)
  moreover have "rehashed (\<lambda>e. lh_hash (ent s e)) m {} (replicate (unat m) None) (lc_next_hash s)"
    by (auto simp: rehashed_def)
  ultimately obtain nl nh where r: "rehash_all (\<lambda>e. lh_hash (ent s e)) m (take (unat (lc_length s)) (lc_list s))
      (replicate (unat m) None) (lc_next_hash s) = Some (nl, nh)" "rehashed (\<lambda>e. lh_hash (ent s e)) m T nl nh"
    using rehash_all_correct [where D = "{}" and css = css] m(2) T by fastforce
  let ?s = "s\<lparr>lc_next_hash := nh, lc_list := nl, lc_length := m\<rparr>"
  have "table ?s T" using r(2) m(2) by (simp add: table_def rehashed_def bucket_def ent_def)
  moreover have "Resize s = Some ?s" using m r(1) by (simp add: Resize_def)
  ultimately show ?thesis by (simp add: rest_def)
qed

lemma HandleTable_Insert_table:
  assumes "table s T" and "h \<notin> T" and "lc_elems s < 2 ^ 31"
  shows "\<exists>r s'. HandleTable_Insert s h = Some (r, s') \<and> rest s' = rest s \<and>
    (case r of
       None \<Rightarrow> (\<forall>e\<in>T. \<not> matches s (lh_key (ent s h)) (lh_hash (ent s h)) e) \<and> table s' (insert h T) \<and>
         lc_elems s' = lc_elems s + 1
     | Some e \<Rightarrow> e \<in> T \<and> matches s (lh_key (ent s h)) (lh_hash (ent s h)) e \<and> table s' (insert h (T - {e})) \<and>
         lc_elems s' = lc_elems s)"
proof -
  let ?key = "lh_key (ent s h)" and ?hash = "lh_hash (ent s h)"
  from FindPointer_table [OF assms(1), of ?hash ?key] obtain i ys zs where
    i: "i = unat (?hash AND (lc_length s - 1))" and p: "FindPointer s ?key ?hash = Some (slot_at (Bucket i) ys)"
    and i': "i < unat (lc_length s)" and ch: "hash_chain (lc_next_hash s) (lc_list s ! i) (ys @ zs)" and d: "distinct (ys @ zs)"
    and set: "set (ys @ zs) = {e\<in>T. bucket s e = i}" and ys: "\<forall>y\<in>set ys. \<not> matches s ?key ?hash y"
    and zs: "zs \<noteq> [] \<longrightarrow> matches s ?key ?hash (hd zs)"
    and c: "hash_chain (lc_next_hash s) (slot_get s (slot_at (Bucket i) ys)) zs" by (elim exE conjE) (rule that)
  define nx where "nx = (case zs of [] \<Rightarrow> None | z # _ \<Rightarrow> lc_next_hash s z)"
  define s1 where "s1 = s\<lparr>lc_next_hash := (lc_next_hash s)(h := nx)\<rparr>"
  define s2 where "s2 = slot_set s1 (slot_at (Bucket i) ys) (Some h)"
  let ?T = "insert h (T - set (take 1 zs))"
  have b: "matches s ?key ?hash e \<Longrightarrow> bucket s e = i" for e by (simp add: matches_def bucket_def i)
  have b1: "bucket s1 = bucket s" by (simp add: bucket_def s1_def ent_def fun_eq_iff)
  have hb: "bucket s h = i" by (rule b) (simp add: matches_def)
  have same: "\<forall>x\<in>set xs. lc_next_hash s1 x = lc_next_hash s x" if "set xs \<subseteq> T" for xs
    using that assms(2) by (auto simp: s1_def)
  have T1: "table s1 T"
    unfolding table_def b1
  proof (intro conjI allI impI)
    fix j assume "j < unat (lc_length s1)"
    then obtain xs where xs: "hash_chain (lc_next_hash s) (lc_list s ! j) xs" "distinct xs" "set xs = {e\<in>T. bucket s e = j}"
      using assms(1) unfolding table_def s1_def by auto
    with hash_chain_cong [of xs "lc_next_hash s1" "lc_next_hash s"] same [of xs] show "\<exists>xs. hash_chain (lc_next_hash s1) (lc_list s1 ! j) xs \<and> distinct xs \<and>
        set xs = {e\<in>T. bucket s e = j}" by (intro exI [of _ xs]) (auto simp: s1_def)
  qed (use assms(1) in \<open>simp_all add: table_def s1_def\<close>)
  have "set (ys @ zs) \<subseteq> T" "set (tl zs) \<subseteq> T" using set by (cases zs; auto)+
  then have sub1: "hash_chain (lc_next_hash s1) v (ys @ zs) = hash_chain (lc_next_hash s) v (ys @ zs)"
    and sub2: "hash_chain (lc_next_hash s1) v (tl zs) = hash_chain (lc_next_hash s) v (tl zs)" for v
    using same [of "ys @ zs"] same [of "tl zs"] by (intro hash_chain_cong; simp)+
  have "hash_chain (lc_next_hash s) nx (tl zs)" using c by (auto simp: nx_def split: list.splits)
  then have ch': "hash_chain (lc_next_hash s1) (Some h) (h # tl zs)" using sub2 by (simp add: s1_def)
  have set': "set (ys @ h # tl zs) = {e\<in>?T. bucket s e = i}"
    using set d hb by (cases zs) auto
  have "table s2 ?T" unfolding s2_def
  proof (rule table_relink [OF T1 _ _ d _ ch'])
    show "distinct (ys @ h # tl zs)" using d set assms(2) by (cases zs) auto
    show "\<forall>e. bucket s1 e \<noteq> i \<longrightarrow> (e \<in> ?T) = (e \<in> T)"
      using hb b1 b zs by (cases zs) auto
  qed (use i' ch sub1 set set' b1 in \<open>auto simp: s1_def\<close>)
  moreover have rest2: "rest s2 = rest s" unfolding s2_def using rest_slot_set [of s1] by (simp add: rest_def s1_def)
  moreover have e2: "lc_elems s2 = lc_elems s" by (simp add: s2_def s1_def)
  moreover have old: "slot_get s (slot_at (Bucket i) ys) = (case zs of [] \<Rightarrow> None | z # _ \<Rightarrow> Some z)"
    using c by (auto split: list.splits)
  moreover have step: "HandleTable_Insert s h = (if zs = [] then
      (if lc_elems s2 + 1 > lc_length s2 then Option.bind (Resize (s2\<lparr>lc_elems := lc_elems s2 + 1\<rparr>)) (\<lambda>s. Some (None, s))
       else Some (None, s2\<lparr>lc_elems := lc_elems s2 + 1\<rparr>)) else Some (Some (hd zs), s2))"
    using p old by (simp add: HandleTable_Insert_def Let_def s2_def s1_def nx_def split: list.splits)
  show ?thesis
  proof (cases zs)
    case Nil
    let ?s = "s2\<lparr>lc_elems := lc_elems s2 + 1\<rparr>"
    have "\<forall>e\<in>T. \<not> matches s ?key ?hash e" using b ys set Nil by auto
    moreover have T2: "table ?s (insert h T)" using \<open>table s2 ?T\<close> Nil by simp
    moreover have "lc_elems ?s \<le> 2 ^ 31" using e2 assms(3) inc_le [of "lc_elems s" "2 ^ 31"] by simp
    from Resize_table [OF this, of "insert h T"] T2 obtain s' where "Resize ?s = Some s'" "table s' (insert h T)"
      "rest s' = rest ?s" "lc_elems s' = lc_elems ?s" by blast
    moreover have "rest ?s = rest s" using rest2 by (simp add: rest_def)
    ultimately show ?thesis unfolding step using Nil e2 by (cases "lc_elems s2 + 1 > lc_length s2") simp_all
  next
    case (Cons z zs')
    then have "z \<in> T" using set by auto
    with Cons zs \<open>table s2 ?T\<close> rest2 e2 show ?thesis unfolding step by simp
  qed
qed

end
