(* ===== verification/Ldb_Cache_Props.thy ===== *)
theory Ldb_Cache_Props
  imports Ldb_Cache_Links
begin

text \<open>
  What a shard of the cache holds and what its operations do to it: the two lists of entries, the references that clients
  hold, and the values that were passed to the deleters.
\<close>

section \<open>The entries of a shard\<close>

text \<open>The lists: \<open>lru\<close>, the oldest entry first, and the entries in use.\<close>

definition links :: "'v LRUCache \<Rightarrow> nat list \<Rightarrow> nat list \<Rightarrow> bool" where
  "links s lru use \<longleftrightarrow> circle s lru_head lru \<and> circle s in_use_head use \<and> distinct (lru_head # in_use_head # lru @ use)"

lemma links_cong: "lc_next s' = lc_next s \<Longrightarrow> lc_prev s' = lc_prev s \<Longrightarrow> links s' lru use = links s lru use"
  by (simp add: links_def circle_def)

lemma links_remove:
  assumes "links s lru use" and "e \<in> set (lru @ use)"
  shows "links (LRU_Remove s e) (remove1 e lru) (remove1 e use)"
proof (cases "e \<in> set lru")
  case True
  then obtain xs ys where "lru = xs @ e # ys" by (auto dest: split_list)
  with assms circle_unlink [of s lru_head xs e ys] circle_unlink_other [of s lru_head xs e ys in_use_head use]
  show ?thesis by (auto simp: links_def remove1_append remove1_idem)
next
  case False
  with assms obtain xs ys where "use = xs @ e # ys" by (auto dest: split_list)
  with assms circle_unlink [of s in_use_head xs e ys] circle_unlink_other [of s in_use_head xs e ys lru_head lru]
  show ?thesis by (auto simp: links_def remove1_append remove1_idem)
qed

lemma links_append:
  assumes "links s lru use" and "e \<notin> set (lru_head # in_use_head # lru @ use)"
  shows "links (LRU_Append s in_use_head e) lru (use @ [e])" and "links (LRU_Append s lru_head e) (lru @ [e]) use"
  using assms circle_append [of s in_use_head use e] circle_append_other [of s in_use_head use lru_head lru e]
    circle_append [of s lru_head lru e] circle_append_other [of s lru_head lru in_use_head use e]
  by (auto simp: links_def)

lemma links_oldest: "links s lru use \<Longrightarrow> lc_next s lru_head = (case lru of [] \<Rightarrow> lru_head | e # _ \<Rightarrow> e)"
  unfolding links_def by (blast dest: circle_first)

text \<open>The entries, with the number of references that clients hold.\<close>

definition entries :: "(slice \<Rightarrow> uint32) \<Rightarrow> (nat \<Rightarrow> nat) \<Rightarrow> (nat \<Rightarrow> 'v LRUHandle option) \<Rightarrow> nat \<Rightarrow> nat list \<Rightarrow> nat list \<Rightarrow> bool" where
  "entries hf held E fresh lru use \<longleftrightarrow>
     (\<forall>e. e \<in> set (lru @ use) \<longleftrightarrow> (\<exists>h. E e = Some h \<and> lh_in_cache h)) \<and>
     (\<forall>e h. E e = Some h \<longrightarrow> 2 \<le> e \<and> e < fresh \<and> lh_hash h = hf (lh_key h) \<and>
        unat (lh_refs h) = held e + of_bool (lh_in_cache h) \<and> lh_refs h \<noteq> 0) \<and>
     (\<forall>e. E e = None \<longrightarrow> held e = 0) \<and> (\<forall>e\<in>set lru. held e = 0) \<and> (\<forall>e\<in>set use. 0 < held e)"

definition shard :: "(slice \<Rightarrow> uint32) \<Rightarrow> (nat \<Rightarrow> nat) \<Rightarrow> 'v LRUCache \<Rightarrow> nat list \<Rightarrow> nat list \<Rightarrow> bool" where
  "shard hf held s lru use \<longleftrightarrow> links s lru use \<and> entries hf held (lc_ent s) (lc_fresh s) lru use \<and>
     table s (set (lru @ use)) \<and> lc_elems s = of_nat (length (lru @ use)) \<and>
     lc_usage s = (\<Sum>e\<leftarrow>lru @ use. lh_charge (ent s e)) \<and> inj_on (\<lambda>e. lh_key (ent s e)) (set (lru @ use))"

lemma table_cong:
  assumes "lc_next_hash s' = lc_next_hash s" and "lc_list s' = lc_list s" and "lc_length s' = lc_length s"
    and "\<forall>e\<in>T. lh_hash (ent s' e) = lh_hash (ent s e)"
  shows "table s' T = table s T"
proof -
  have "{e\<in>T. bucket s' e = i} = {e\<in>T. bucket s e = i}" for i using assms(3,4) by (auto simp: bucket_def)
  with assms(1-3) show ?thesis by (simp add: table_def)
qed

lemma set_ent_fields [simp]:
  "lc_capacity (set_ent s e f) = lc_capacity s" "lc_usage (set_ent s e f) = lc_usage s" "lc_next (set_ent s e f) = lc_next s"
  "lc_prev (set_ent s e f) = lc_prev s" "lc_next_hash (set_ent s e f) = lc_next_hash s" "lc_fresh (set_ent s e f) = lc_fresh s"
  "lc_length (set_ent s e f) = lc_length s" "lc_elems (set_ent s e f) = lc_elems s" "lc_list (set_ent s e f) = lc_list s"
  "lc_deleted (set_ent s e f) = lc_deleted s"
  "lc_ent (set_ent s e f) = (lc_ent s)(e := map_option f (lc_ent s e))"
  by (simp_all add: set_ent_def)

lemma ent_LRU [simp]: "ent (LRU_Remove s e) = ent s" "ent (LRU_Append s h e) = ent s"
  by (simp_all add: ent_def fun_eq_iff)

lemma shard_distinct: "shard hf held s lru use \<Longrightarrow> distinct (lru @ use)"
  by (simp add: shard_def links_def)

lemma sum_list_remove1:
  "e \<in> set xs \<Longrightarrow> (\<Sum>x\<leftarrow>remove1 e xs. f x) = (\<Sum>x\<leftarrow>xs. f x) - (f e :: size_t)"
  by (induction xs) auto

text \<open>The values of the entries and of the calls of the deleters.\<close>

definition account :: "'v LRUCache \<Rightarrow> (slice \<times> 'v) multiset" where
  "account s = mset (lc_deleted s) + image_mset (\<lambda>e. (lh_key (ent s e), lh_value (ent s e))) (mset_set (dom (lc_ent s)))"

text \<open>What a client sees of an entry does not change while the entry exists.\<close>

definition datum :: "'v LRUCache \<Rightarrow> nat \<Rightarrow> (slice \<times> 'v \<times> size_t \<times> uint32) option" where
  "datum s e = map_option (\<lambda>h. (lh_key h, lh_value h, lh_charge h, lh_hash h)) (lc_ent s e)"

lemma datum_ent:
  assumes "datum s' e = datum s e" and "lc_ent s e \<noteq> None"
  shows "lh_key (ent s' e) = lh_key (ent s e) \<and> lh_value (ent s' e) = lh_value (ent s e) \<and>
    lh_charge (ent s' e) = lh_charge (ent s e) \<and> lh_hash (ent s' e) = lh_hash (ent s e)"
  using assms by (auto simp: datum_def ent_def)

lemma entriesD:
  assumes "entries hf held E fresh lru use"
  shows "e \<in> set (lru @ use) \<longleftrightarrow> (\<exists>h. E e = Some h \<and> lh_in_cache h)"
    and "E e = Some h \<Longrightarrow> 2 \<le> e \<and> e < fresh \<and> lh_hash h = hf (lh_key h) \<and>
      unat (lh_refs h) = held e + of_bool (lh_in_cache h) \<and> lh_refs h \<noteq> 0"
    and "E e = None \<Longrightarrow> held e = 0" and "e \<in> set lru \<Longrightarrow> held e = 0" and "e \<in> set use \<Longrightarrow> 0 < held e"
  using assms unfolding entries_def by blast+

lemma entries_dom:
  assumes "entries hf held E fresh lru use"
  shows "finite (dom E)" and "dom E \<subseteq> {2..<fresh}"
proof -
  show "dom E \<subseteq> {2..<fresh}" using entriesD(2) [OF assms] by auto
  then show "finite (dom E)" by (rule finite_subset) simp
qed

lemma sum_list_mset: "mset xs = mset ys \<Longrightarrow> (\<Sum>x\<leftarrow>xs. f x) = (\<Sum>x\<leftarrow>ys. f x :: size_t)"
  by (metis mset_map sum_mset_sum_list)

lemma shard_change:
  assumes "shard hf held s lru use" and "links s' lru' use'" and "entries hf held' (lc_ent s') (lc_fresh s') lru' use'"
    and "mset (lru' @ use') = mset (lru @ use)" and "\<forall>e\<in>set (lru @ use). datum s' e = datum s e"
    and "lc_next_hash s' = lc_next_hash s" and "lc_list s' = lc_list s" and "lc_length s' = lc_length s"
    and "lc_elems s' = lc_elems s" and "lc_usage s' = lc_usage s"
  shows "shard hf held' s' lru' use'"
proof -
  have set: "set (lru' @ use') = set (lru @ use)" using assms(4) by (rule mset_eq_setD)
  have len: "length (lru' @ use') = length (lru @ use)" using assms(4) by (rule mset_eq_length)
  have E: "entries hf held (lc_ent s) (lc_fresh s) lru use" using assms(1) by (simp add: shard_def)
  have d: "\<forall>e\<in>set (lru @ use). lh_key (ent s' e) = lh_key (ent s e) \<and> lh_charge (ent s' e) = lh_charge (ent s e) \<and>
      lh_hash (ent s' e) = lh_hash (ent s e)"
  proof
    fix e assume e: "e \<in> set (lru @ use)"
    then have "lc_ent s e \<noteq> None" using entriesD(1) [OF E] by auto
    from datum_ent [OF bspec [OF assms(5) e] this]
    show "lh_key (ent s' e) = lh_key (ent s e) \<and> lh_charge (ent s' e) = lh_charge (ent s e) \<and>
      lh_hash (ent s' e) = lh_hash (ent s e)" by simp
  qed
  have "table s' (set (lru @ use)) = table s (set (lru @ use))"
    by (rule table_cong) (use assms(6-8) d in auto)
  moreover have "(\<Sum>e\<leftarrow>lru' @ use'. lh_charge (ent s' e)) = (\<Sum>e\<leftarrow>lru @ use. lh_charge (ent s e))"
  proof -
    have "(\<Sum>e\<leftarrow>lru' @ use'. lh_charge (ent s' e)) = (\<Sum>e\<leftarrow>lru @ use. lh_charge (ent s' e))" by (rule sum_list_mset [OF assms(4)])
    also have "\<dots> = (\<Sum>e\<leftarrow>lru @ use. lh_charge (ent s e))" using d by (intro arg_cong [where f = sum_list] map_cong) auto
    finally show ?thesis .
  qed
  moreover have "inj_on (\<lambda>e. lh_key (ent s' e)) (set (lru @ use)) = inj_on (\<lambda>e. lh_key (ent s e)) (set (lru @ use))"
    by (rule inj_on_cong) (use d in auto)
  ultimately show ?thesis using assms(1-3,9,10) unfolding shard_def set len by (simp only: simp_thms)
qed

lemma account_change:
  assumes "lc_deleted s' = lc_deleted s" and "\<forall>e. datum s' e = datum s e"
  shows "account s' = account s"
proof -
  have dom: "dom (lc_ent s') = dom (lc_ent s)"
  proof (rule set_eqI)
    fix e show "e \<in> dom (lc_ent s') \<longleftrightarrow> e \<in> dom (lc_ent s)"
      using spec [OF assms(2), of e] by (cases "lc_ent s' e"; cases "lc_ent s e") (simp_all add: datum_def domIff)
  qed
  have "image_mset (\<lambda>e. (lh_key (ent s' e), lh_value (ent s' e))) (mset_set (dom (lc_ent s))) =
      image_mset (\<lambda>e. (lh_key (ent s e), lh_value (ent s e))) (mset_set (dom (lc_ent s)))"
  proof (rule image_mset_cong)
    fix e assume "e \<in># mset_set (dom (lc_ent s))"
    then have "lc_ent s e \<noteq> None" by (cases "finite (dom (lc_ent s))") auto
    from datum_ent [OF spec [OF assms(2)] this]
    show "(lh_key (ent s' e), lh_value (ent s' e)) = (lh_key (ent s e), lh_value (ent s e))" by simp
  qed
  then show ?thesis by (simp add: account_def assms(1) dom)
qed

lemma account_free:
  assumes "finite (dom (lc_ent s))" and "lc_ent s e = Some h" and "lc_deleted s' = lc_deleted s @ [(lh_key h, lh_value h)]"
    and "lc_ent s' e = None" and "\<forall>x. x \<noteq> e \<longrightarrow> datum s' x = datum s x"
  shows "account s' = account s"
proof -
  let ?D = "dom (lc_ent s)" and ?f = "\<lambda>s e. (lh_key (ent s e), lh_value (ent s e))"
  have "x \<noteq> e \<Longrightarrow> x \<in> dom (lc_ent s') \<longleftrightarrow> x \<in> ?D" for x using assms(5) unfolding dom_def datum_def
    by (metis (mono_tags, lifting) mem_Collect_eq option.map_disc_iff)
  then have "x \<in> dom (lc_ent s') \<longleftrightarrow> x \<in> ?D - {e}" for x using assms(4) by (cases "x = e") auto
  then have dom: "dom (lc_ent s') = ?D - {e}" by blast
  have "e \<in> ?D" using assms(2) by blast
  then have "mset_set ?D = add_mset e (mset_set (?D - {e}))" using assms(1) by (metis mset_set.remove)
  moreover have "image_mset (?f s') (mset_set (?D - {e})) = image_mset (?f s) (mset_set (?D - {e}))"
  proof (rule image_mset_cong)
    fix x assume "x \<in># mset_set (?D - {e})"
    then have "x \<noteq> e" "lc_ent s x \<noteq> None" using assms(1) by auto
    from datum_ent [OF _ this(2), of s'] assms(5) this(1) show "?f s' x = ?f s x" by simp
  qed
  ultimately show ?thesis using assms(2,3) by (simp add: account_def dom ent_def)
qed

section \<open>References\<close>

lemma refs_inc: "unat r + 1 < 2 ^ 32 \<Longrightarrow> unat (r + 1) = unat r + 1" for r :: uint32
  by (simp add: unat_word_ariths(1) del: unat_add_no_wrap)

lemma Ref_shard:
  assumes "shard hf held s lru use" and "e \<in> set (lru @ use)" and "held e + 2 < 2 ^ 32"
  shows "shard hf (held(e := held e + 1)) (Ref s e) (remove1 e lru) (if e \<in> set lru then use @ [e] else use)"
    and "\<forall>x. datum (Ref s e) x = datum s x" and "lc_deleted (Ref s e) = lc_deleted s"
    and "lc_capacity (Ref s e) = lc_capacity s" and "lc_fresh (Ref s e) = lc_fresh s"
proof -
  have E: "entries hf held (lc_ent s) (lc_fresh s) lru use" and L: "links s lru use" using assms(1) by (simp_all add: shard_def)
  obtain h where h: "lc_ent s e = Some h" "lh_in_cache h" using entriesD(1) [OF E] assms(2) by blast
  have r: "unat (lh_refs h) = held e + 1" using entriesD(2) [OF E h(1)] h(2) by simp
  have d: "distinct (lru @ use)" using shard_distinct [OF assms(1)] .
  have lru: "lh_refs (ent s e) = 1 \<and> lh_in_cache (ent s e) \<longleftrightarrow> e \<in> set lru"
  proof -
    have "lh_refs h = 1 \<longleftrightarrow> held e = 0" using r by (metis add_left_cancel add.commute add_cancel_left_left unat_1 word_unat_eq_iff)
    then show ?thesis using h assms(2) entriesD(4) [OF E, of e] entriesD(5) [OF E, of e] by (auto simp: ent_def)
  qed
  let ?t = "if e \<in> set lru then LRU_Append (LRU_Remove s e) in_use_head e else s"
  have Ref: "Ref s e = set_ent ?t e (lh_refs_update (\<lambda>r. r + 1))" using lru by (simp add: Ref_def Let_def)
  have two: "2 \<le> e" using entriesD(2) [OF E h(1)] by simp
  have links: "links ?t (remove1 e lru) (if e \<in> set lru then use @ [e] else use)"
  proof (cases "e \<in> set lru")
    case True
    have "links (LRU_Remove s e) (remove1 e lru) (remove1 e use)" by (rule links_remove [OF L assms(2)])
    moreover have "remove1 e use = use" using True d by (intro remove1_idem) auto
    ultimately show ?thesis using True d two links_append(1) [of "LRU_Remove s e" "remove1 e lru" use e] by auto
  qed (simp add: L remove1_idem)
  have ent': "lc_ent (Ref s e) = (lc_ent s)(e \<mapsto> h\<lparr>lh_refs := lh_refs h + 1\<rparr>)" 
    using h by (cases h) (simp add: Ref)
  have inc: "unat (lh_refs h + 1) = held e + 2" using refs_inc [of "lh_refs h"] r assms(3) by simp
  have sets: "set (remove1 e lru @ (if e \<in> set lru then use @ [e] else use)) = set (lru @ use)" using d by auto
  have F: "lc_next_hash (Ref s e) = lc_next_hash s" "lc_list (Ref s e) = lc_list s" "lc_length (Ref s e) = lc_length s"
    "lc_elems (Ref s e) = lc_elems s" "lc_usage (Ref s e) = lc_usage s" "lc_fresh (Ref s e) = lc_fresh s" by (simp_all add: Ref)
  have L': "links (Ref s e) (remove1 e lru) (if e \<in> set lru then use @ [e] else use)"
    using links by (simp only: Ref links_cong [of "set_ent ?t e _" ?t] set_ent_fields)
  have M: "mset (remove1 e lru @ (if e \<in> set lru then use @ [e] else use)) = mset (lru @ use)"
    by (simp add: insert_DiffM remove1_idem)
  have "entries hf (held(e := held e + 1)) (lc_ent (Ref s e)) (lc_fresh (Ref s e)) (remove1 e lru) (if e \<in> set lru then use @ [e] else use)"
    unfolding entries_def sets ent' F
  proof (intro conjI allI impI ballI)
    fix x show "x \<in> set (lru @ use) \<longleftrightarrow> (\<exists>h'. ((lc_ent s)(e \<mapsto> h\<lparr>lh_refs := lh_refs h + 1\<rparr>)) x = Some h' \<and> lh_in_cache h')"
      using entriesD(1) [OF E] h assms(2) by auto
  next
    fix x h' assume x: "((lc_ent s)(e \<mapsto> h\<lparr>lh_refs := lh_refs h + 1\<rparr>)) x = Some h'"
    have "lh_refs h + 1 \<noteq> 0" using inc by (metis add_is_0 unat_0 zero_neq_numeral)
    with x entriesD(2) [OF E h(1)] entriesD(2) [OF E, of x h'] inc h(2)
    show "2 \<le> x" "x < lc_fresh s" "lh_hash h' = hf (lh_key h')" "lh_refs h' \<noteq> 0"
      "unat (lh_refs h') = (held(e := held e + 1)) x + of_bool (lh_in_cache h')" by (auto split: if_splits)
  next
    fix x assume "((lc_ent s)(e \<mapsto> h\<lparr>lh_refs := lh_refs h + 1\<rparr>)) x = None"
    then show "(held(e := held e + 1)) x = 0" using entriesD(3) [OF E, of x] by (auto split: if_splits)
  next
    fix x assume "x \<in> set (remove1 e lru)"
    then show "(held(e := held e + 1)) x = 0" using entriesD(4) [OF E, of x] d by auto
  next
    fix x assume "x \<in> set (if e \<in> set lru then use @ [e] else use)"
    then show "0 < (held(e := held e + 1)) x" using entriesD(5) [OF E, of x] by (auto split: if_splits)
  qed
  moreover show D: "\<forall>x. datum (Ref s e) x = datum s x" using h(1) by (simp add: datum_def ent')
  ultimately show "shard hf (held(e := held e + 1)) (Ref s e) (remove1 e lru) (if e \<in> set lru then use @ [e] else use)"
    by (intro shard_change [OF assms(1) L' _ M _ F(1-5)]) blast+
  show "lc_deleted (Ref s e) = lc_deleted s" "lc_capacity (Ref s e) = lc_capacity s" "lc_fresh (Ref s e) = lc_fresh s"
    by (simp_all add: Ref)
qed

lemma Unref_ent:
  assumes "lc_ent s e = Some h"
  shows "Unref s e =
    (let r = lh_refs h - 1; t = s\<lparr>lc_ent := (lc_ent s)(e \<mapsto> h\<lparr>lh_refs := r\<rparr>)\<rparr>
     in if r = 0 then s\<lparr>lc_deleted := lc_deleted s @ [(lh_key h, lh_value h)], lc_ent := (lc_ent s)(e := None)\<rparr>
        else if lh_in_cache h \<and> r = 1 then LRU_Append (LRU_Remove t e) lru_head e else t)"
  using assms by (cases h) (simp add: Unref_def Let_def set_ent_def ent_def)

lemma refs_dec: "r \<noteq> 0 \<Longrightarrow> unat (r - 1) = unat r - 1" for r :: uint32
  by (simp add: unat_minus_one)

text \<open>An entry that is still there has not changed.\<close>

definition keeps :: "'v LRUCache \<Rightarrow> 'v LRUCache \<Rightarrow> bool" where
  "keeps s s' \<longleftrightarrow> lc_capacity s' = lc_capacity s \<and> lc_fresh s' = lc_fresh s \<and> account s' = account s \<and>
     (\<forall>x. datum s' x = None \<or> datum s' x = datum s x)"

lemma keeps_refl [simp]: "keeps s s"
  by (simp add: keeps_def)

lemma keeps_trans: "keeps s s' \<Longrightarrow> keeps s' s'' \<Longrightarrow> keeps s s''"
  unfolding keeps_def by metis

lemma Unref_shard:
  assumes "shard hf held s lru use" and "0 < held e"
  shows "\<exists>moved. shard hf (held(e := held e - 1)) (Unref s e) (if moved then lru @ [e] else lru) (if moved then remove1 e use else use) \<and>
    (moved \<longleftrightarrow> e \<in> set use \<and> held e = 1) \<and> keeps s (Unref s e)"
proof -
  have E: "entries hf held (lc_ent s) (lc_fresh s) lru use" and L: "links s lru use" using assms(1) by (simp_all add: shard_def)
  have d: "distinct (lru @ use)" using shard_distinct [OF assms(1)] .
  obtain h where h: "lc_ent s e = Some h" using entriesD(3) [OF E, of e] assms(2) by (cases "lc_ent s e") auto
  note eh = entriesD(2) [OF E h]
  have use: "e \<in> set use \<longleftrightarrow> lh_in_cache h" and nl: "e \<notin> set lru"
    using entriesD(1) [OF E, of e] entriesD(4) [OF E, of e] h assms(2) by auto
  define r where "r = lh_refs h - 1"
  have r: "unat r = held e - 1 + of_bool (lh_in_cache h)" using eh assms(2) unfolding r_def by (subst refs_dec) auto
  note un_def = Unref_ent [OF h, unfolded Let_def, folded r_def]
  let ?held = "held(e := held e - 1)" and ?h = "h\<lparr>lh_refs := r\<rparr>"
  let ?t = "s\<lparr>lc_ent := (lc_ent s)(e \<mapsto> ?h)\<rparr>"
  show ?thesis
  proof (cases "r = 0")
    case True
    then have e1: "held e = 1" "\<not> lh_in_cache h" using r assms(2) by (auto simp: of_bool_def split: if_splits)
    let ?s = "s\<lparr>lc_deleted := lc_deleted s @ [(lh_key h, lh_value h)], lc_ent := (lc_ent s)(e := None)\<rparr>"
    have un: "Unref s e = ?s" using un_def True by auto
    have nin: "e \<notin> set (lru @ use)" using use nl e1 by auto
    have "entries hf ?held ((lc_ent s)(e := None)) (lc_fresh s) lru use"
      using E nin e1 unfolding entries_def by (auto split: if_splits)
    then have "shard hf ?held ?s lru use"
      using L nin by (intro shard_change [OF assms(1)]) (auto simp: datum_def links_cong [of ?s s])
    moreover have "account ?s = account s"
      by (rule account_free [OF entries_dom(1) [OF E] h]) (simp_all add: datum_def)
    ultimately show ?thesis unfolding un using use e1 by (intro exI [of _ False]) (simp add: keeps_def datum_def)
  next
    case False
    have dat: "datum ?t x = datum s x" for x using h by (simp add: datum_def)
    have acc: "account ?t = account s" by (rule account_change) (simp_all add: dat)
    have ent: "x \<noteq> e \<or> True \<Longrightarrow> (lc_ent ?t x = None) = (lc_ent s x = None)" for x using h by simp
    show ?thesis
    proof (cases "lh_in_cache h \<and> r = 1")
      case True
      then have e1: "held e = 1" "e \<in> set use" using r use assms(2) by auto
      let ?s = "LRU_Append (LRU_Remove ?t e) lru_head e"
      have un: "Unref s e = ?s" using un_def False True by auto
      have "links (LRU_Remove ?t e) (remove1 e lru) (remove1 e use)"
        using L e1 by (intro links_remove) (simp_all add: links_cong [of ?t s])
      then have "links ?s (lru @ [e]) (remove1 e use)"
        using nl d eh links_append(2) [of "LRU_Remove ?t e" lru "remove1 e use" e] by (auto simp: remove1_idem)
      moreover have "entries hf ?held (lc_ent ?s) (lc_fresh s) (lru @ [e]) (remove1 e use)"
        unfolding entries_def
      proof (intro conjI allI impI ballI)
        fix x show "x \<in> set ((lru @ [e]) @ remove1 e use) \<longleftrightarrow> (\<exists>h'. lc_ent ?s x = Some h' \<and> lh_in_cache h')"
          using entriesD(1) [OF E, of x] e1 True d by auto
      next
        fix x h' assume "lc_ent ?s x = Some h'"
        with entriesD(2) [OF E, of x h'] eh r e1 True False
        show "2 \<le> x" "x < lc_fresh s" "lh_hash h' = hf (lh_key h')" "lh_refs h' \<noteq> 0"
          "unat (lh_refs h') = ?held x + of_bool (lh_in_cache h')" by (auto split: if_splits)
      next
        fix x assume "lc_ent ?s x = None"
        then show "?held x = 0" using entriesD(3) [OF E, of x] by (auto split: if_splits)
      next
        fix x assume "x \<in> set (lru @ [e])"
        then show "?held x = 0" using entriesD(4) [OF E, of x] e1 by auto
      next
        fix x assume "x \<in> set (remove1 e use)"
        then show "0 < ?held x" using entriesD(5) [OF E, of x] d by auto
      qed
      ultimately have "shard hf ?held ?s (lru @ [e]) (remove1 e use)"
        using e1 d dat by (intro shard_change [OF assms(1)]) (simp_all add: datum_def)
      moreover have "keeps s ?s" using dat acc by (simp add: keeps_def datum_def account_def)
      ultimately show ?thesis unfolding un using e1 by (intro exI [of _ True]) simp
    next
      case f: False
      have un: "Unref s e = ?t" using un_def False f by auto
      have pos: "e \<in> set use \<Longrightarrow> 1 < held e"
      proof -
        assume e: "e \<in> set use"
        then have "unat r = held e" using r use assms(2) by simp
        moreover have "r \<noteq> 1" using f e use by blast
        then have "unat r \<noteq> 1" by (metis unat_1 word_unat_eq_iff)
        ultimately show "1 < held e" using assms(2) by linarith
      qed
      have "entries hf ?held (lc_ent ?t) (lc_fresh s) lru use"
        unfolding entries_def
      proof (intro conjI allI impI ballI)
        fix x show "x \<in> set (lru @ use) \<longleftrightarrow> (\<exists>h'. lc_ent ?t x = Some h' \<and> lh_in_cache h')"
          using entriesD(1) [OF E, of x] h by auto
      next
        fix x h' assume "lc_ent ?t x = Some h'"
        with entriesD(2) [OF E, of x h'] eh r False
        show "2 \<le> x" "x < lc_fresh s" "lh_hash h' = hf (lh_key h')" "lh_refs h' \<noteq> 0"
          "unat (lh_refs h') = ?held x + of_bool (lh_in_cache h')" by (auto split: if_splits)
      next
        fix x assume "lc_ent ?t x = None"
        then show "?held x = 0" using entriesD(3) [OF E, of x] by (auto split: if_splits)
      next
        fix x assume "x \<in> set lru"
        then show "?held x = 0" using entriesD(4) [OF E, of x] nl by auto
      next
        fix x assume "x \<in> set use"
        then show "0 < ?held x" using entriesD(5) [OF E, of x] pos by auto
      qed
      then have "shard hf ?held ?t lru use"
        using L dat by (intro shard_change [OF assms(1)]) (simp_all add: links_cong [of ?t s])
      moreover have "keeps s ?t" using dat acc by (simp add: keeps_def)
      ultimately show ?thesis unfolding un using pos by (intro exI [of _ False]) auto
    qed
  qed
qed

section \<open>Erasing\<close>

lemma of_nat_length_remove: "e \<in> set xs \<Longrightarrow> of_nat (length xs - 1) = (of_nat (length (remove1 e xs)) :: uint32)"
  by (simp add: length_remove1)

lemma FinishErase_shard:
  assumes "links s lru use" and "entries hf held (lc_ent s) (lc_fresh s) lru use" and "e \<in> set (lru @ use)"
    and "table s (set (lru @ use) - {e})" and "lc_elems s = of_nat (length (lru @ use) - 1)"
    and "lc_usage s = (\<Sum>x\<leftarrow>lru @ use. lh_charge (ent s x))" and "inj_on (\<lambda>x. lh_key (ent s x)) (set (lru @ use) - {e})"
  shows "shard hf held (snd (FinishErase s (Some e))) (remove1 e lru) (remove1 e use) \<and> keeps s (snd (FinishErase s (Some e)))"
proof -
  note E = assms(2)
  have d: "distinct (lru @ use)" using assms(1) by (simp add: links_def)
  obtain h where h: "lc_ent s e = Some h" "lh_in_cache h" using entriesD(1) [OF E] assms(3) by blast
  note eh = entriesD(2) [OF E h(1)]
  have set: "set (remove1 e lru @ remove1 e use) = set (lru @ use) - {e}" using d by auto
  define s1 where "s1 = (LRU_Remove s e)\<lparr>lc_ent := (lc_ent s)(e \<mapsto> h\<lparr>lh_in_cache := False\<rparr>), lc_usage := lc_usage s - lh_charge h\<rparr>"
  have s1: "snd (FinishErase s (Some e)) = Unref s1 e"
    using h by (cases h) (simp add: FinishErase_def Let_def s1_def set_ent_def ent_def)
  have e1: "lc_ent s1 e = Some (h\<lparr>lh_in_cache := False\<rparr>)" by (simp add: s1_def)
  have r: "unat (lh_refs h - 1) = held e" using eh h(2) by (subst refs_dec) auto
  define s2 where "s2 = (if held e = 0 then s1\<lparr>lc_deleted := lc_deleted s @ [(lh_key h, lh_value h)], lc_ent := (lc_ent s)(e := None)\<rparr>
    else s1\<lparr>lc_ent := (lc_ent s)(e \<mapsto> h\<lparr>lh_in_cache := False, lh_refs := lh_refs h - 1\<rparr>)\<rparr>)"
  have "lh_refs h - 1 = 0 \<longleftrightarrow> held e = 0" using r by (metis unat_eq_0)
  then have un: "Unref s1 e = s2"
    using Unref_ent [OF e1] by (simp add: Let_def s2_def) (simp add: s1_def)
  have F: "lc_next_hash s2 = lc_next_hash s" "lc_list s2 = lc_list s" "lc_length s2 = lc_length s" "lc_fresh s2 = lc_fresh s"
    "lc_next s2 = lc_next (LRU_Remove s e)" "lc_prev s2 = lc_prev (LRU_Remove s e)" "lc_elems s2 = lc_elems s"
    "lc_usage s2 = lc_usage s - lh_charge h" "lc_capacity s2 = lc_capacity s"
    by (simp_all add: s2_def s1_def)
  have dat: "x \<noteq> e \<Longrightarrow> datum s2 x = datum s x" for x by (simp add: s2_def s1_def datum_def)
  have same: "x \<noteq> e \<Longrightarrow> ent s2 x = ent s x" for x by (simp add: s2_def s1_def ent_def)
  have "links s2 (remove1 e lru) (remove1 e use)"
    using links_remove [OF assms(1,3)] links_cong [OF F(5,6)] by blast
  moreover have "entries hf held (lc_ent s2) (lc_fresh s2) (remove1 e lru) (remove1 e use)"
    unfolding entries_def set F(4)
  proof (intro conjI allI impI ballI)
    fix x show "x \<in> set (lru @ use) - {e} \<longleftrightarrow> (\<exists>h'. lc_ent s2 x = Some h' \<and> lh_in_cache h')"
      using entriesD(1) [OF E, of x] by (auto simp: s2_def s1_def)
  next
    fix x h' assume x: "lc_ent s2 x = Some h'"
    have "held e \<noteq> 0 \<Longrightarrow> lh_refs h - 1 \<noteq> 0" using r by (metis unat_0)
    with x entriesD(2) [OF E, of x h'] eh r
    show "2 \<le> x" "x < lc_fresh s" "lh_hash h' = hf (lh_key h')" "lh_refs h' \<noteq> 0"
      "unat (lh_refs h') = held x + of_bool (lh_in_cache h')" by (auto simp: s2_def s1_def split: if_splits)
  next
    fix x assume "lc_ent s2 x = None"
    then show "held x = 0" using entriesD(3) [OF E, of x] by (auto simp: s2_def s1_def split: if_splits)
  next
    fix x assume "x \<in> set (remove1 e lru)"
    then show "held x = 0" using entriesD(4) [OF E, of x] by (auto dest: notin_set_remove1)
  next
    fix x assume "x \<in> set (remove1 e use)"
    then show "0 < held x" using entriesD(5) [OF E, of x] by (auto dest: notin_set_remove1)
  qed
  moreover have "table s2 (set (lru @ use) - {e})"
    using table_cong [OF F(1-3), of "set (lru @ use) - {e}"] same assms(4) by auto
  moreover have rem: "remove1 e (lru @ use) = remove1 e lru @ remove1 e use"
  proof -
    have "e \<in> set lru \<Longrightarrow> remove1 e use = use" using d by (intro remove1_idem) auto
    then show ?thesis by (simp add: remove1_append remove1_idem)
  qed
  have "lc_elems s2 = of_nat (length (remove1 e lru @ remove1 e use))"
    unfolding F assms(5) rem [symmetric] by (rule of_nat_length_remove [OF assms(3)])
  moreover have "lc_usage s2 = (\<Sum>x\<leftarrow>remove1 e lru @ remove1 e use. lh_charge (ent s2 x))"
  proof -
    have "(\<Sum>x\<leftarrow>remove1 e lru @ remove1 e use. lh_charge (ent s2 x)) = (\<Sum>x\<leftarrow>remove1 e (lru @ use). lh_charge (ent s x))"
      unfolding rem using same set by (intro arg_cong [where f = sum_list] map_cong) auto
    also have "\<dots> = lc_usage s - lh_charge h"
      unfolding assms(6) using sum_list_remove1 [OF assms(3), of "\<lambda>x. lh_charge (ent s x)"] h by (simp add: ent_def)
    finally show ?thesis unfolding F by simp
  qed
  moreover have "inj_on (\<lambda>x. lh_key (ent s2 x)) (set (lru @ use) - {e})"
    using assms(7) same by (simp add: inj_on_def)
  ultimately have "shard hf held s2 (remove1 e lru) (remove1 e use)" unfolding shard_def set by blast
  moreover have "account s2 = account s"
  proof (cases "held e = 0")
    case True
    then show ?thesis using dat by (intro account_free [OF entries_dom(1) [OF E] h(1)]) (auto simp: s2_def s1_def)
  next
    case False
    then have "datum s2 x = datum s x" for x using dat [of x] h by (cases "x = e") (auto simp: s2_def s1_def datum_def)
    then show ?thesis using False by (intro account_change) (auto simp: s2_def s1_def)
  qed
  moreover have "datum s2 x = None \<or> datum s2 x = datum s x" for x
    using dat [of x] h by (cases "x = e") (auto simp: s2_def s1_def datum_def)
  ultimately show ?thesis unfolding s1 un keeps_def F by blast
qed

lemma rest_links: "rest s' = rest s \<Longrightarrow> links s' lru use = links s lru use"
  by (rule links_cong) (simp_all add: rest_def)

lemma rest_keeps: "rest s' = rest s \<Longrightarrow> keeps s s'"
  using rest_ent [of s' s] by (simp add: keeps_def rest_def account_def datum_def)

lemma Erase_shard:
  assumes "shard hf held s lru use" and "hash = hf key"
  shows "\<exists>r s'. HandleTable_Remove s key hash = Some (r, s') \<and>
    (case r of None \<Rightarrow> s' = s \<and> (\<forall>e\<in>set (lru @ use). lh_key (ent s e) \<noteq> key)
     | Some e \<Rightarrow> e \<in> set (lru @ use) \<and> lh_key (ent s e) = key \<and>
         shard hf held (snd (FinishErase s' (Some e))) (remove1 e lru) (remove1 e use) \<and> keeps s (snd (FinishErase s' (Some e))))"
proof -
  have T: "table s (set (lru @ use))" and L: "links s lru use" and E: "entries hf held (lc_ent s) (lc_fresh s) lru use"
    using assms(1) by (simp_all add: shard_def)
  have hash: "lh_hash (ent s e) = hf (lh_key (ent s e))" if e: "e \<in> set (lru @ use)" for e
  proof -
    obtain h where "lc_ent s e = Some h" using entriesD(1) [OF E] e by blast
    then show ?thesis using entriesD(2) [OF E, of e h] by (simp add: ent_def)
  qed
  from HandleTable_Remove_table [OF T, of key hash] obtain r s' where
    r: "HandleTable_Remove s key hash = Some (r, s')" and rest: "rest s' = rest s" and
    c: "case r of None \<Rightarrow> s' = s \<and> (\<forall>e\<in>set (lru @ use). \<not> matches s key hash e)
       | Some e \<Rightarrow> e \<in> set (lru @ use) \<and> matches s key hash e \<and> table s' (set (lru @ use) - {e}) \<and> lc_elems s' = lc_elems s - 1"
    by (elim exE conjE) (rule that)
  show ?thesis
  proof (cases r)
    case None
    then show ?thesis using r c hash assms(2) by (auto simp: matches_def)
  next
    case (Some e)
    then have e: "e \<in> set (lru @ use)" "matches s key hash e" "table s' (set (lru @ use) - {e})" "lc_elems s' = lc_elems s - 1"
      using c by auto
    have ent: "ent s' = ent s" "lc_ent s' = lc_ent s" "lc_fresh s' = lc_fresh s" "lc_usage s' = lc_usage s"
      using rest rest_ent [OF rest] by (simp_all add: rest_def)
    obtain n where n: "length (lru @ use) = Suc n" using e(1) by (cases "lru @ use") auto
    have "lc_elems s = of_nat (length (lru @ use))" using assms(1) by (simp add: shard_def)
    then have "lc_elems s' = of_nat (length (lru @ use) - 1)" unfolding e(4) n by simp
    moreover have "inj_on (\<lambda>x. lh_key (ent s x)) (set (lru @ use) - {e})"
      using assms(1) by (auto simp: shard_def intro: inj_on_subset)
    ultimately have "shard hf held (snd (FinishErase s' (Some e))) (remove1 e lru) (remove1 e use) \<and> keeps s' (snd (FinishErase s' (Some e)))"
      using assms(1) e(1,3) by (intro FinishErase_shard) (simp_all add: rest_links [OF rest] ent shard_def)
    then show ?thesis using r Some e(1,2) keeps_trans [OF rest_keeps [OF rest]] by (auto simp: matches_def)
  qed
qed

lemma remove1_filter:
  assumes "distinct (lru @ use)" and "inj_on key (set (lru @ use))" and "e \<in> set (lru @ use)"
  shows "remove1 e lru = filter (\<lambda>x. key x \<noteq> key e) lru" and "remove1 e use = filter (\<lambda>x. key x \<noteq> key e) use"
proof -
  have "x \<in> set (lru @ use) \<Longrightarrow> x \<noteq> e \<longleftrightarrow> key x \<noteq> key e" for x
    using assms(2,3) by (auto dest: inj_onD)
  then show "remove1 e lru = filter (\<lambda>x. key x \<noteq> key e) lru" "remove1 e use = filter (\<lambda>x. key x \<noteq> key e) use"
    using assms(1) by (auto simp: distinct_remove1_removeAll removeAll_filter_not_eq intro!: filter_cong)
qed

lemma LRU_Erase_shard:
  assumes "shard hf held s lru use"
  shows "\<exists>s'. LRU_Erase s key (hf key) = Some s' \<and> keeps s s' \<and>
    shard hf held s' (filter (\<lambda>x. lh_key (ent s x) \<noteq> key) lru) (filter (\<lambda>x. lh_key (ent s x) \<noteq> key) use)"
proof -
  have inj: "inj_on (\<lambda>x. lh_key (ent s x)) (set (lru @ use))" using assms by (simp add: shard_def)
  from Erase_shard [OF assms refl, of key] obtain r s' where
    r: "HandleTable_Remove s key (hf key) = Some (r, s')" and
    c: "case r of None \<Rightarrow> s' = s \<and> (\<forall>e\<in>set (lru @ use). lh_key (ent s e) \<noteq> key)
     | Some e \<Rightarrow> e \<in> set (lru @ use) \<and> lh_key (ent s e) = key \<and>
         shard hf held (snd (FinishErase s' (Some e))) (remove1 e lru) (remove1 e use) \<and> keeps s (snd (FinishErase s' (Some e)))"
    by (elim exE conjE) (rule that)
  show ?thesis
  proof (cases r)
    case None
    with c have "filter (\<lambda>x. lh_key (ent s x) \<noteq> key) lru = lru" "filter (\<lambda>x. lh_key (ent s x) \<noteq> key) use = use"
      by (auto intro!: filter_True)
    with None c r assms show ?thesis by (simp add: LRU_Erase_def FinishErase_def)
  next
    case (Some e)
    with c have e: "e \<in> set (lru @ use)" "lh_key (ent s e) = key" by auto
    note f = remove1_filter [OF shard_distinct [OF assms] inj e(1), unfolded e(2)]
    from Some c r show ?thesis by (simp add: LRU_Erase_def f [symmetric])
  qed
qed

lemma erase_oldest_shard:
  assumes "shard hf held s (e # lru) use"
  shows "\<exists>s'. erase_oldest s = Some s' \<and> keeps s s' \<and> shard hf held s' lru use"
proof -
  have L: "links s (e # lru) use" and E: "entries hf held (lc_ent s) (lc_fresh s) (e # lru) use" using assms by (simp_all add: shard_def)
  have nx: "lc_next s lru_head = e" using links_oldest [OF L] by simp
  obtain h where "lc_ent s e = Some h" using entriesD(1) [OF E, of e] by auto
  then have hash: "lh_hash (ent s e) = hf (lh_key (ent s e))" using entriesD(2) [OF E, of e h] by (simp add: ent_def)
  have inj: "inj_on (\<lambda>x. lh_key (ent s x)) (set (e # lru @ use))" using assms by (simp add: shard_def)
  have d: "distinct (e # lru @ use)" using shard_distinct [OF assms] by simp
  have "filter (\<lambda>x. lh_key (ent s x) \<noteq> lh_key (ent s e)) (e # lru) = lru"
    "filter (\<lambda>x. lh_key (ent s x) \<noteq> lh_key (ent s e)) use = use"
    using inj d by (auto simp: inj_on_def intro!: filter_True)
  moreover have "erase_oldest s = LRU_Erase s (lh_key (ent s e)) (hf (lh_key (ent s e)))"
    by (simp add: erase_oldest_def LRU_Erase_def nx hash Let_def)
  ultimately show ?thesis using LRU_Erase_shard [OF assms, of "lh_key (ent s e)"] by auto
qed

text \<open>The loop that evicts: as few of the oldest entries as are needed.\<close>

lemma keeps_charge:
  assumes "keeps s s'" and "shard hf held s' lru use" and "x \<in> set (lru @ use)"
  shows "lh_charge (ent s' x) = lh_charge (ent s x) \<and> lh_key (ent s' x) = lh_key (ent s x)"
proof -
  have "entries hf held (lc_ent s') (lc_fresh s') lru use" using assms(2) by (simp add: shard_def)
  from entriesD(1) [OF this] assms(3) obtain h where "lc_ent s' x = Some h" by blast
  moreover have "datum s' x = None \<or> datum s' x = datum s x" using assms(1) by (simp add: keeps_def)
  ultimately have "datum s x = datum s' x" "lc_ent s' x \<noteq> None" by (auto simp: datum_def)
  from datum_ent [OF this] show ?thesis by simp
qed

lemma evict_shard:
  assumes "shard hf held s lru use"
  shows "\<exists>k s'. evict s = Some s' \<and> k \<le> length lru \<and> keeps s s' \<and> shard hf held s' (drop k lru) use \<and>
    (lc_usage s' \<le> lc_capacity s \<or> k = length lru) \<and>
    (\<forall>j<k. lc_capacity s < (\<Sum>e\<leftarrow>drop j lru @ use. lh_charge (ent s e)))"
  using assms
proof (induction lru arbitrary: s)
  case Nil
  then have "lc_next s lru_head = lru_head" using links_oldest [of s "[]" use] by (simp add: shard_def)
  then have "evict s = Some s" by (subst evict.simps) simp
  with Nil show ?case by (intro exI [of _ 0] exI [of _ s]) simp
next
  case (Cons e lru)
  have nx: "lc_next s lru_head = e" using Cons.prems links_oldest [of s "e # lru" use] by (simp add: shard_def)
  have u: "lc_usage s = (\<Sum>x\<leftarrow>(e # lru) @ use. lh_charge (ent s x))" using Cons.prems by (simp only: shard_def)
  have e: "e \<noteq> lru_head" using Cons.prems by (simp add: shard_def links_def)
  show ?case
  proof (cases "lc_usage s > lc_capacity s")
    case False
    then have "evict s = Some s" by (subst evict.simps) simp
    with False Cons.prems show ?thesis by (intro exI [of _ 0] exI [of _ s]) simp
  next
    case True
    from erase_oldest_shard [OF Cons.prems] obtain t where
      t: "erase_oldest s = Some t" "keeps s t" "shard hf held t lru use" by blast
    from Cons.IH [OF t(3)] obtain k s' where k: "evict t = Some s'" "k \<le> length lru" "keeps t s'"
      "shard hf held s' (drop k lru) use" "lc_usage s' \<le> lc_capacity t \<or> k = length lru"
      "\<forall>j<k. lc_capacity t < (\<Sum>e\<leftarrow>drop j lru @ use. lh_charge (ent t e))" by (elim exE conjE) (rule that)
    have cap: "lc_capacity t = lc_capacity s" using t(2) by (simp add: keeps_def)
    have "(\<Sum>e\<leftarrow>drop j lru @ use. lh_charge (ent t e)) = (\<Sum>e\<leftarrow>drop j lru @ use. lh_charge (ent s e))" for j
      using keeps_charge [OF t(2,3)] by (intro arg_cong [where f = sum_list] map_cong) (auto dest: in_set_dropD)
    then have "\<forall>j<Suc k. lc_capacity s < (\<Sum>e\<leftarrow>drop j (e # lru) @ use. lh_charge (ent s e))"
      using k(6) True u cap by (auto simp: less_Suc_eq_0_disj add.assoc)
    moreover have "evict s = Some s'" using True nx e t(1) k(1) by (subst evict.simps) simp
    ultimately show ?thesis using k(2,4,5) keeps_trans [OF t(2) k(3)] cap by (intro exI [of _ "Suc k"] exI [of _ s']) simp
  qed
qed

lemma Prune_shard:
  assumes "shard hf held s lru use"
  shows "\<exists>s'. LRU_Prune s = Some s' \<and> keeps s s' \<and> shard hf held s' [] use"
  using assms
proof (induction lru arbitrary: s)
  case Nil
  then have "lc_next s lru_head = lru_head" using links_oldest [of s "[]" use] by (simp add: shard_def)
  then have "LRU_Prune s = Some s" by (subst LRU_Prune.simps) simp
  with Nil show ?case by simp
next
  case (Cons e lru)
  have "lc_next s lru_head = e" "e \<noteq> lru_head"
    using Cons.prems links_oldest [of s "e # lru" use] by (simp_all add: shard_def links_def)
  moreover from erase_oldest_shard [OF Cons.prems] obtain t where
    t: "erase_oldest s = Some t" "keeps s t" "shard hf held t lru use" by blast
  ultimately have "LRU_Prune s = LRU_Prune t" by (subst LRU_Prune.simps) simp
  with Cons.IH [OF t(3)] keeps_trans [OF t(2)] show ?case by auto
qed

lemma Lookup_shard:
  assumes "shard hf held s lru use" and "\<forall>e. held e + 2 < 2 ^ 32"
  shows "\<exists>r s'. LRU_Lookup s key (hf key) = Some (r, s') \<and>
    (case r of None \<Rightarrow> s' = s \<and> (\<forall>e\<in>set (lru @ use). lh_key (ent s e) \<noteq> key)
     | Some e \<Rightarrow> e \<in> set (lru @ use) \<and> lh_key (ent s e) = key \<and> keeps s s' \<and>
         shard hf (held(e := held e + 1)) s' (remove1 e lru) (if e \<in> set lru then use @ [e] else use))"
proof -
  have T: "table s (set (lru @ use))" and E: "entries hf held (lc_ent s) (lc_fresh s) lru use"
    using assms(1) by (simp_all add: shard_def)
  have hash: "lh_hash (ent s e) = hf (lh_key (ent s e))" if e: "e \<in> set (lru @ use)" for e
  proof -
    obtain h where "lc_ent s e = Some h" using entriesD(1) [OF E] e by blast
    then show ?thesis using entriesD(2) [OF E, of e h] by (simp add: ent_def)
  qed
  from HandleTable_Lookup_table [OF T, of key "hf key"] obtain r where r: "HandleTable_Lookup s key (hf key) = Some r"
    and c: "case r of None \<Rightarrow> \<forall>e\<in>set (lru @ use). \<not> matches s key (hf key) e
      | Some e \<Rightarrow> e \<in> set (lru @ use) \<and> matches s key (hf key) e" by (elim exE conjE) (rule that)
  show ?thesis
  proof (cases r)
    case None
    then show ?thesis using r c hash by (auto simp: LRU_Lookup_def matches_def)
  next
    case (Some e)
    then have e: "e \<in> set (lru @ use)" "lh_key (ent s e) = key" using c by (auto simp: matches_def)
    have h: "held e + 2 < 2 ^ 32" using assms(2) by blast
    note R = Ref_shard [OF assms(1) e(1) h]
    have "account (Ref s e) = account s" by (rule account_change [OF R(3,2)])
    then have "keeps s (Ref s e)" using R(2-5) by (simp add: keeps_def)
    with Some r e R(1) show ?thesis by (auto simp: LRU_Lookup_def)
  qed
qed

section \<open>Inserting\<close>

text \<open>The entry that \<open>Insert\<close> allocates.\<close>

definition new_entry :: "slice \<Rightarrow> uint32 \<Rightarrow> 'v \<Rightarrow> size_t \<Rightarrow> bool \<Rightarrow> 'v LRUHandle" where
  "new_entry key hash val charge cached =
     \<lparr>lh_value = val, lh_charge = charge, lh_key = key, lh_in_cache = cached, lh_refs = (if cached then 2 else 1), lh_hash = hash\<rparr>"

lemma account_alloc:
  assumes "finite (dom (lc_ent s))" and "lc_ent s e = None" and "lc_ent s' = (lc_ent s)(e \<mapsto> h)" and "lc_deleted s' = lc_deleted s"
  shows "account s' = add_mset (lh_key h, lh_value h) (account s)"
proof -
  let ?f = "\<lambda>s e. (lh_key (ent s e), lh_value (ent s e))"
  have e: "e \<notin> dom (lc_ent s)" using assms(2) by blast
  have "image_mset (?f s') (mset_set (dom (lc_ent s))) = image_mset (?f s) (mset_set (dom (lc_ent s)))"
    by (rule image_mset_cong) (use e assms in \<open>auto simp: ent_def\<close>)
  moreover have "dom (lc_ent s') = insert e (dom (lc_ent s))" by (simp add: assms(3))
  ultimately show ?thesis using e assms by (simp add: account_def ent_def)
qed

lemma alloc_entries:
  assumes "entries hf held E fresh lru use" and "2 \<le> fresh"
  shows "entries hf (held(fresh := 1)) (E(fresh \<mapsto> new_entry key (hf key) val charge cached)) (fresh + 1) lru
    (if cached then use @ [fresh] else use)"
proof -
  note D = entriesD [OF assms(1)]
  have n: "fresh \<notin> set (lru @ use)"
  proof
    assume "fresh \<in> set (lru @ use)"
    then obtain h where "E fresh = Some h" using D(1) by blast
    from D(2) [OF this] show False by simp
  qed
  show ?thesis
    unfolding entries_def
  proof (intro conjI allI impI ballI)
    fix x show "x \<in> set (lru @ (if cached then use @ [fresh] else use)) \<longleftrightarrow>
        (\<exists>h. (E(fresh \<mapsto> new_entry key (hf key) val charge cached)) x = Some h \<and> lh_in_cache h)"
      using D(1) [of x] n by (cases cached) (auto simp: new_entry_def)
  next
    fix x h assume "(E(fresh \<mapsto> new_entry key (hf key) val charge cached)) x = Some h"
    with D(2) [of x h] assms(2) show "2 \<le> x" "x < fresh + 1" "lh_hash h = hf (lh_key h)" "lh_refs h \<noteq> 0"
      "unat (lh_refs h) = (held(fresh := 1)) x + of_bool (lh_in_cache h)" by (auto simp: new_entry_def split: if_splits)
  next
    fix x assume "(E(fresh \<mapsto> new_entry key (hf key) val charge cached)) x = None"
    then show "(held(fresh := 1)) x = 0" using D(3) [of x] by (auto split: if_splits)
  next
    fix x assume "x \<in> set lru"
    then show "(held(fresh := 1)) x = 0" using D(4) [of x] n by auto
  next
    fix x assume "x \<in> set (if cached then use @ [fresh] else use)"
    then show "0 < (held(fresh := 1)) x" using D(5) [of x] by (auto split: if_splits)
  qed
qed

lemma alloc_link:
  assumes "shard hf held s lru use" and "2 \<le> lc_fresh s"
    and "s' = (LRU_Append (s\<lparr>lc_fresh := lc_fresh s + 1, lc_ent := (lc_ent s)(lc_fresh s \<mapsto> new_entry key (hf key) val charge True)\<rparr>)
      in_use_head (lc_fresh s))\<lparr>lc_usage := lc_usage s + charge\<rparr>"
  shows "links s' lru (use @ [lc_fresh s])" and "table s' (set (lru @ use))" and "lc_fresh s \<notin> set (lru @ use)"
    and "lc_usage s' = (\<Sum>e\<leftarrow>lru @ use @ [lc_fresh s]. lh_charge (ent s' e))"
    and "\<forall>x\<in>set (lru @ use). ent s' x = ent s x"
proof -
  let ?e = "lc_fresh s"
  have E: "entries hf held (lc_ent s) (lc_fresh s) lru use" using assms(1) by (simp add: shard_def)
  show n: "?e \<notin> set (lru @ use)"
  proof
    assume "?e \<in> set (lru @ use)"
    then obtain h where "lc_ent s ?e = Some h" using entriesD(1) [OF E] by blast
    from entriesD(2) [OF E this] show False by simp
  qed
  show same: "\<forall>x\<in>set (lru @ use). ent s' x = ent s x" using n by (auto simp: assms(3) ent_def)
  let ?t = "s\<lparr>lc_fresh := ?e + 1, lc_ent := (lc_ent s)(?e \<mapsto> new_entry key (hf key) val charge True)\<rparr>"
  have "links ?t lru use" using assms(1) by (subst links_cong [of _ s]) (simp_all add: shard_def)
  from links_append(1) [OF this, of ?e] n assms(2) show "links s' lru (use @ [?e])"
    unfolding assms(3) by (subst links_cong [of _ "LRU_Append ?t in_use_head ?e"]) auto
  have "table s' (set (lru @ use)) = table s (set (lru @ use))"
    using same by (intro table_cong) (simp_all add: assms(3))
  then show "table s' (set (lru @ use))" using assms(1) by (simp add: shard_def)
  have "(\<Sum>e\<leftarrow>lru @ use. lh_charge (ent s' e)) = (\<Sum>e\<leftarrow>lru @ use. lh_charge (ent s e))"
    using same by (intro arg_cong [where f = sum_list] map_cong) auto
  also have "\<dots> = lc_usage s" using assms(1) by (simp add: shard_def)
  finally have "(\<Sum>e\<leftarrow>(lru @ use) @ [?e]. lh_charge (ent s' e)) = lc_usage s + lh_charge (ent s' ?e)" by simp
  then show "lc_usage s' = (\<Sum>e\<leftarrow>lru @ use @ [?e]. lh_charge (ent s' e))" by (simp add: assms(3) new_entry_def ent_def)
qed

lemma insert_cached:
  assumes "shard hf held s lru use" and "2 \<le> lc_fresh s" and "length (lru @ use) < 2 ^ 31"
    and "s1 = (LRU_Append (s\<lparr>lc_fresh := lc_fresh s + 1, lc_ent := (lc_ent s)(lc_fresh s \<mapsto> new_entry key (hf key) val charge True)\<rparr>)
      in_use_head (lc_fresh s))\<lparr>lc_usage := lc_usage s + charge\<rparr>"
  shows "\<exists>old t. HandleTable_Insert s1 (lc_fresh s) = Some (old, t) \<and> keeps s1 (snd (FinishErase t old)) \<and>
    shard hf (held(lc_fresh s := 1)) (snd (FinishErase t old)) (filter (\<lambda>x. lh_key (ent s x) \<noteq> key) lru)
      (filter (\<lambda>x. lh_key (ent s x) \<noteq> key) use @ [lc_fresh s])"
proof -
  define e where "e = lc_fresh s"
  let ?T = "set (lru @ use)" and ?held = "held(e := 1)"
  note A = alloc_link [OF assms(1,2,4), folded e_def]
  have E: "entries hf held (lc_ent s) (lc_fresh s) lru use" using assms(1) by (simp add: shard_def)
  have ent1: "lc_ent s1 = (lc_ent s)(e \<mapsto> new_entry key (hf key) val charge True)" "lc_fresh s1 = lc_fresh s + 1"
    "lc_elems s1 = lc_elems s" by (simp_all add: assms(4) e_def)
  have E1: "entries hf ?held (lc_ent s1) (lc_fresh s1) lru (use @ [e])"
    using alloc_entries [OF E assms(2), of key val charge True] unfolding ent1 by (simp add: e_def)
  have new: "lh_key (ent s1 e) = key" "lh_hash (ent s1 e) = hf key" by (simp_all add: ent_def ent1 new_entry_def)
  have m: "matches s1 key (hf key) x \<longleftrightarrow> lh_key (ent s x) = key" if x: "x \<in> ?T" for x
  proof -
    obtain h where "lc_ent s x = Some h" using entriesD(1) [OF E] x by blast
    then have "lh_hash (ent s x) = hf (lh_key (ent s x))" using entriesD(2) [OF E, of x h] by (simp add: ent_def)
    then show ?thesis using A(5) x by (auto simp: matches_def)
  qed
  have inj: "inj_on (\<lambda>x. lh_key (ent s x)) ?T" using assms(1) by (simp add: shard_def)
  have len: "lc_elems s1 = of_nat (length (lru @ use))" using assms(1) unfolding ent1 by (simp only: shard_def)
  then have "lc_elems s1 < 2 ^ 31" using assms(3) by (simp only: word_less_nat_alt unat_of_nat) simp
  from HandleTable_Insert_table [OF A(2,3) this, unfolded new] obtain old t where
    ins: "HandleTable_Insert s1 e = Some (old, t)" and rest: "rest t = rest s1" and
    c: "case old of
       None \<Rightarrow> (\<forall>x\<in>?T. \<not> matches s1 key (hf key) x) \<and> table t (insert e ?T) \<and> lc_elems t = lc_elems s1 + 1
     | Some x \<Rightarrow> x \<in> ?T \<and> matches s1 key (hf key) x \<and> table t (insert e (?T - {x})) \<and> lc_elems t = lc_elems s1"
    by (elim exE conjE) (rule that)
  have t: "ent t = ent s1" "lc_ent t = lc_ent s1" "lc_fresh t = lc_fresh s1" "lc_usage t = lc_usage s1"
    using rest rest_ent [OF rest] by (simp_all add: rest_def)
  have Lt: "links t lru (use @ [e])" using A(1) rest_links [OF rest] by simp
  have Et: "entries hf ?held (lc_ent t) (lc_fresh t) lru (use @ [e])" using E1 by (simp only: t)
  have Ut: "lc_usage t = (\<Sum>x\<leftarrow>lru @ use @ [e]. lh_charge (ent t x))" using A(4) by (simp only: t)
  have keyT: "lh_key (ent t x) = (if x = e then key else lh_key (ent s x))" if "x \<in> insert e ?T" for x
    using A(3,5) that new by (auto simp: t)
  have "keeps s1 (snd (FinishErase t old)) \<and> shard hf ?held (snd (FinishErase t old)) (filter (\<lambda>x. lh_key (ent s x) \<noteq> key) lru)
      (filter (\<lambda>x. lh_key (ent s x) \<noteq> key) use @ [e])"
  proof (cases old)
    case None
    then have nm: "\<forall>x\<in>?T. lh_key (ent s x) \<noteq> key" and T: "table t (insert e ?T)" and el: "lc_elems t = lc_elems s1 + 1"
      using c m by auto
    then have f: "filter (\<lambda>x. lh_key (ent s x) \<noteq> key) lru = lru" "filter (\<lambda>x. lh_key (ent s x) \<noteq> key) use = use"
      by (auto intro!: filter_True)
    have "inj_on (\<lambda>x. lh_key (ent t x)) (insert e ?T)"
      using inj nm A(3) by (auto simp: inj_on_def keyT)
    moreover have "lc_elems t = of_nat (length (lru @ use @ [e]))" unfolding el len by simp
    moreover have "set (lru @ use @ [e]) = insert e ?T" by auto
    ultimately have "shard hf ?held t lru (use @ [e])" using Lt Et T Ut unfolding shard_def by simp
    then show ?thesis using None rest_keeps [OF rest] by (simp add: FinishErase_def f)
  next
    case (Some x)
    then have x: "x \<in> ?T" "lh_key (ent s x) = key" "table t (insert e (?T - {x}))" "lc_elems t = lc_elems s1"
      using c m by auto
    have ex: "x \<noteq> e" using x(1) A(3) by auto
    have set: "set (lru @ use @ [e]) - {x} = insert e (?T - {x})" using ex by auto
    have "lc_elems t = of_nat (length (lru @ use @ [e]) - 1)" using x(4) len by simp
    moreover have "inj_on (\<lambda>x. lh_key (ent t x)) (insert e (?T - {x}))"
      using inj x(1,2) A(3) by (auto simp: inj_on_def keyT)
    ultimately have "shard hf ?held (snd (FinishErase t (Some x))) (remove1 x lru) (remove1 x (use @ [e])) \<and>
        keeps t (snd (FinishErase t (Some x)))"
      using x(1,3) by (intro FinishErase_shard [OF Lt Et]) (simp_all only: set Ut, simp)
    moreover have "remove1 x (use @ [e]) = remove1 x use @ [e]" using ex by (simp add: remove1_append remove1_idem)
    moreover note remove1_filter [OF shard_distinct [OF assms(1)] inj x(1), unfolded x(2)]
    ultimately show ?thesis using Some keeps_trans [OF rest_keeps [OF rest]] by simp
  qed
  with ins show ?thesis unfolding e_def by blast
qed

text \<open>What an insertion leaves, before and after the eviction.\<close>

definition inserted :: "'v LRUCache \<Rightarrow> 'v LRUCache \<Rightarrow> slice \<Rightarrow> uint32 \<Rightarrow> 'v \<Rightarrow> size_t \<Rightarrow> bool" where
  "inserted s s' key hash val charge \<longleftrightarrow> lc_capacity s' = lc_capacity s \<and> lc_fresh s' = lc_fresh s + 1 \<and>
     account s' = add_mset (key, val) (account s) \<and>
     (\<forall>x. datum s' x = None \<or> datum s' x = (if x = lc_fresh s then Some (key, val, charge, hash) else datum s x))"

lemma inserted_keeps: "inserted s s' key hash val charge \<Longrightarrow> keeps s' s'' \<Longrightarrow> inserted s s'' key hash val charge"
  unfolding inserted_def keeps_def by metis

lemma inserted_alloc:
  assumes "shard hf held s lru use" and "lc_ent s' = (lc_ent s)(lc_fresh s \<mapsto> new_entry key hash val charge cached)"
    and "lc_deleted s' = lc_deleted s" and "lc_capacity s' = lc_capacity s" and "lc_fresh s' = lc_fresh s + 1"
  shows "inserted s s' key hash val charge"
proof -
  have E: "entries hf held (lc_ent s) (lc_fresh s) lru use" using assms(1) by (simp add: shard_def)
  have "lc_ent s (lc_fresh s) = None" using entries_dom(2) [OF E] by (auto simp: dom_def)
  from account_alloc [OF entries_dom(1) [OF E] this assms(2,3)]
  show ?thesis using assms(2,4,5) by (simp add: inserted_def new_entry_def datum_def)
qed

definition lru_after :: "'v LRUCache \<Rightarrow> slice \<Rightarrow> nat list \<Rightarrow> nat list" where
  "lru_after s key lru = (if lc_capacity s > 0 then filter (\<lambda>x. lh_key (ent s x) \<noteq> key) lru else lru)"

definition use_after :: "'v LRUCache \<Rightarrow> slice \<Rightarrow> nat list \<Rightarrow> nat list" where
  "use_after s key use = (if lc_capacity s > 0 then filter (\<lambda>x. lh_key (ent s x) \<noteq> key) use @ [lc_fresh s] else use)"

definition charge_of :: "'v LRUCache \<Rightarrow> size_t \<Rightarrow> nat \<Rightarrow> size_t" where
  "charge_of s charge x = (if x = lc_fresh s then charge else lh_charge (ent s x))"

lemma inserted_charge:
  assumes "inserted s s' key hash val charge" and "shard hf held s' lru use" and "x \<in> set (lru @ use)"
  shows "lh_charge (ent s' x) = charge_of s charge x"
proof -
  have "entries hf held (lc_ent s') (lc_fresh s') lru use" using assms(2) by (simp add: shard_def)
  from entriesD(1) [OF this] assms(3) obtain h where h: "lc_ent s' x = Some h" by blast
  moreover have "datum s' x = None \<or> datum s' x = (if x = lc_fresh s then Some (key, val, charge, hash) else datum s x)"
    using assms(1) by (simp add: inserted_def)
  ultimately show ?thesis by (cases "lc_ent s x") (auto simp: datum_def ent_def charge_of_def split: if_splits)
qed

lemma Insert_shard:
  assumes "shard hf held s lru use" and "2 \<le> lc_fresh s" and "length (lru @ use) < 2 ^ 31"
  shows "\<exists>k s'. LRU_Insert s key (hf key) val charge = Some (lc_fresh s, s') \<and> k \<le> length (lru_after s key lru) \<and>
    shard hf (held(lc_fresh s := 1)) s' (drop k (lru_after s key lru)) (use_after s key use) \<and>
    (lc_usage s' \<le> lc_capacity s \<or> k = length (lru_after s key lru)) \<and>
    (\<forall>j<k. lc_capacity s < (\<Sum>e\<leftarrow>drop j (lru_after s key lru) @ use_after s key use. charge_of s charge e)) \<and>
    inserted s s' key (hf key) val charge"
proof -
  let ?e = "lc_fresh s" and ?lru = "lru_after s key lru" and ?use = "use_after s key use" and ?held = "held(lc_fresh s := 1)"
  define s0 where "s0 = s\<lparr>lc_fresh := ?e + 1, lc_ent := (lc_ent s)(?e \<mapsto> new_entry key (hf key) val charge False)\<rparr>"
  define s1 where "s1 = (LRU_Append (s\<lparr>lc_fresh := ?e + 1, lc_ent := (lc_ent s)(?e \<mapsto> new_entry key (hf key) val charge True)\<rparr>)
      in_use_head ?e)\<lparr>lc_usage := lc_usage s + charge\<rparr>"
  define mid where "mid = (if lc_capacity s > 0
    then Option.bind (HandleTable_Insert s1 ?e) (\<lambda>(old, t). Some (snd (FinishErase t old))) else Some s0)"
  have step: "LRU_Insert s key (hf key) val charge = Option.bind mid (\<lambda>t. Option.bind (evict t) (\<lambda>s'. Some (?e, s')))"
    by (simp add: LRU_Insert_def Let_def mid_def s0_def s1_def new_entry_def set_ent_def)
  have "\<exists>t. mid = Some t \<and> shard hf ?held t ?lru ?use \<and> inserted s t key (hf key) val charge"
  proof (cases "lc_capacity s > 0")
    case True
    from insert_cached [OF assms s1_def] obtain old t where t: "HandleTable_Insert s1 ?e = Some (old, t)"
      "keeps s1 (snd (FinishErase t old))" "shard hf ?held (snd (FinishErase t old)) ?lru ?use"
      using True unfolding lru_after_def use_after_def by (auto simp del: fun_upd_apply)
    have "inserted s s1 key (hf key) val charge"
      by (rule inserted_alloc [OF assms(1), where cached = True]) (simp_all add: s1_def)
    from inserted_keeps [OF this t(2)] t True show ?thesis by (simp add: mid_def)
  next
    case False
    have E: "entries hf held (lc_ent s) (lc_fresh s) lru use" using assms(1) by (simp add: shard_def)
    have n: "?e \<notin> set (lru @ use)" by (rule alloc_link(3) [OF assms(1,2) refl])
    have "entries hf ?held (lc_ent s0) (lc_fresh s0) lru use"
      using alloc_entries [OF E assms(2), of key val charge False] by (simp add: s0_def)
    moreover have "links s0 lru use" using assms(1) by (subst links_cong [of _ s]) (simp_all add: shard_def s0_def)
    moreover have "\<forall>x\<in>set (lru @ use). datum s0 x = datum s x" using n by (auto simp: s0_def datum_def)
    ultimately have "shard hf ?held s0 lru use" by (intro shard_change [OF assms(1)]) (simp_all add: s0_def)
    moreover have "inserted s s0 key (hf key) val charge"
      by (rule inserted_alloc [OF assms(1), where cached = False]) (simp_all add: s0_def)
    ultimately show ?thesis using False by (simp add: mid_def lru_after_def use_after_def)
  qed
  then obtain t where t: "mid = Some t" "shard hf ?held t ?lru ?use" "inserted s t key (hf key) val charge" by blast
  from evict_shard [OF t(2)] obtain k s' where k: "evict t = Some s'" "k \<le> length ?lru" "keeps t s'"
    "shard hf ?held s' (drop k ?lru) ?use" "lc_usage s' \<le> lc_capacity t \<or> k = length ?lru"
    "\<forall>j<k. lc_capacity t < (\<Sum>e\<leftarrow>drop j ?lru @ ?use. lh_charge (ent t e))" by (elim exE conjE) (rule that)
  have cap: "lc_capacity t = lc_capacity s" using t(3) by (simp add: inserted_def)
  have "(\<Sum>e\<leftarrow>drop j ?lru @ ?use. lh_charge (ent t e)) = (\<Sum>e\<leftarrow>drop j ?lru @ ?use. charge_of s charge e)" for j
    using inserted_charge [OF t(3,2)] by (intro arg_cong [where f = sum_list] map_cong) (auto dest: in_set_dropD)
  with k t(1) cap inserted_keeps [OF t(3) k(3)] step show ?thesis by (intro exI [of _ k] exI [of _ s']) simp
qed

section \<open>The life of a shard\<close>

lemma LRUCache_new_shard:
  "\<exists>s. LRUCache_new = Some s \<and> lc_fresh s = 2 \<and> lc_ent s = (\<lambda>_. None) \<and> lc_deleted s = [] \<and>
     shard hf (\<lambda>_. 0) (SetCapacity s capacity) [] []"
proof -
  let ?s = "\<lparr>lc_capacity = 0, lc_usage = 0, lc_next = id, lc_prev = id, lc_next_hash = (\<lambda>_. None),
     lc_ent = (\<lambda>_. None), lc_fresh = 2, lc_length = 0, lc_elems = 0, lc_list = [], lc_deleted = []\<rparr> :: 'a LRUCache"
  have "\<exists>s'. Resize ?s = Some s' \<and> table s' {} \<and> rest s' = rest ?s \<and> lc_elems s' = lc_elems ?s"
    by (rule Resize_table) simp_all
  then obtain s where s: "Resize ?s = Some s" "table s {}" "rest s = rest ?s" "lc_elems s = 0" by auto
  have "links (SetCapacity s capacity) [] []" using s(3) by (simp add: links_def circle_def ring_def rest_def SetCapacity_def)
  moreover have "table (SetCapacity s capacity) {} = table s {}" by (rule table_cong) (simp_all add: SetCapacity_def)
  ultimately have "shard hf (\<lambda>_. 0) (SetCapacity s capacity) [] []"
    using s by (simp add: shard_def entries_def rest_def SetCapacity_def)
  with s(1,3) show ?thesis by (simp add: LRUCache_new_def rest_def)
qed

text \<open>When no client holds a reference, the destructor hands every value to its deleter.\<close>

lemma destroy_loop_links:
  assumes "ring (lc_next s) (lc_prev s) (e # xs @ [lru_head])" and "distinct (lru_head # e # xs)"
    and "\<forall>x\<in>set (e # xs). \<exists>h. lc_ent s x = Some h \<and> lh_refs h = 1"
  shows "destroy_loop s e = (let h = ent s e in
    destroy_loop (s\<lparr>lc_deleted := lc_deleted s @ [(lh_key h, lh_value h)], lc_ent := (lc_ent s)(e := None)\<rparr>)
      (case xs of [] \<Rightarrow> lru_head | x # _ \<Rightarrow> x))"
proof -
  obtain h where h: "lc_ent s e = Some h" "lh_refs h = 1" using assms(3) by auto
  let ?t = "set_ent s e (lh_in_cache_update (\<lambda>_. False))"
  have "lc_ent ?t e = Some (h\<lparr>lh_in_cache := False\<rparr>)" using h by (cases h) simp
  from Unref_ent [OF this] h have "Unref ?t e = s\<lparr>lc_deleted := lc_deleted s @ [(lh_key h, lh_value h)], lc_ent := (lc_ent s)(e := None)\<rparr>"
    by (simp add: Let_def set_ent_def)
  moreover have "lc_next s e = (case xs of [] \<Rightarrow> lru_head | x # _ \<Rightarrow> x)"
    using assms(1) by (auto simp: ring_def split: list.splits)
  ultimately show ?thesis using assms(2) h by (subst destroy_loop.simps) (simp add: Let_def ent_def)
qed

lemma destroy_loop_all:
  assumes "ring (lc_next s) (lc_prev s) (xs @ [lru_head])" and "distinct (lru_head # xs)"
    and "\<forall>x\<in>set xs. \<exists>h. lc_ent s x = Some h \<and> lh_refs h = 1"
  shows "\<exists>s'. destroy_loop s (case xs of [] \<Rightarrow> lru_head | x # _ \<Rightarrow> x) = Some s' \<and> dom (lc_ent s') = dom (lc_ent s) - set xs \<and>
    lc_deleted s' = lc_deleted s @ map (\<lambda>x. (lh_key (ent s x), lh_value (ent s x))) xs"
  using assms
proof (induction xs arbitrary: s)
  case Nil
  then show ?case by (subst destroy_loop.simps) simp
next
  case (Cons e xs)
  let ?s = "s\<lparr>lc_deleted := lc_deleted s @ [(lh_key (ent s e), lh_value (ent s e))], lc_ent := (lc_ent s)(e := None)\<rparr>"
  have "ring (lc_next ?s) (lc_prev ?s) (xs @ [lru_head])" using Cons.prems(1) by (cases xs) (auto simp: ring_def)
  moreover have "\<forall>x\<in>set xs. \<exists>h. lc_ent ?s x = Some h \<and> lh_refs h = 1" using Cons.prems(2,3) by auto
  ultimately obtain s' where s': "destroy_loop ?s (case xs of [] \<Rightarrow> lru_head | x # _ \<Rightarrow> x) = Some s'"
    "dom (lc_ent s') = dom (lc_ent ?s) - set xs"
    "lc_deleted s' = lc_deleted ?s @ map (\<lambda>x. (lh_key (ent ?s x), lh_value (ent ?s x))) xs"
    using Cons.IH [of ?s] Cons.prems(2) by (simp only: distinct.simps list.set) blast
  have "map (\<lambda>x. (lh_key (ent ?s x), lh_value (ent ?s x))) xs = map (\<lambda>x. (lh_key (ent s x), lh_value (ent s x))) xs"
    using Cons.prems(2) by (intro map_cong) (auto simp: ent_def)
  moreover have "dom (lc_ent ?s) - set xs = dom (lc_ent s) - set (e # xs)" by auto
  ultimately show ?case using s' destroy_loop_links [of s e xs] Cons.prems by (intro exI [of _ s']) (simp add: Let_def)
qed

lemma destroy_shard:
  assumes "shard hf (\<lambda>_. 0) s lru use"
  shows "\<exists>s'. LRUCache_destroy s = Some s' \<and> mset (lc_deleted s') = account s"
proof -
  have E: "entries hf (\<lambda>_. 0) (lc_ent s) (lc_fresh s) lru use" and L: "links s lru use" using assms by (simp_all add: shard_def)
  have use: "use = []" using entriesD(5) [OF E] by (cases use) auto
  have dom: "dom (lc_ent s) = set lru"
  proof (rule set_eqI)
    fix x show "x \<in> dom (lc_ent s) \<longleftrightarrow> x \<in> set lru"
    proof (cases "lc_ent s x")
      case (Some h)
      have "lh_in_cache h" using entriesD(2) [OF E Some] by (cases "lh_in_cache h") (auto simp: unat_eq_0)
      with Some entriesD(1) [OF E, of x] use show ?thesis by auto
    qed (use entriesD(1) [OF E, of x] use in auto)
  qed
  have refs: "\<forall>x\<in>set lru. \<exists>h. lc_ent s x = Some h \<and> lh_refs h = 1"
  proof
    fix x assume "x \<in> set lru"
    then obtain h where h: "lc_ent s x = Some h" "lh_in_cache h" using entriesD(1) [OF E, of x] use by auto
    then have "unat (lh_refs h) = 1" using entriesD(2) [OF E h(1)] by simp
    then have "lh_refs h = 1" by (metis unat_1 word_unat_eq_iff)
    with h show "\<exists>h. lc_ent s x = Some h \<and> lh_refs h = 1" by blast
  qed
  have "ring (lc_next s) (lc_prev s) (lru @ [lru_head])" "distinct (lru_head # lru)"
    using L by (cases lru; auto simp: links_def circle_def ring_def)+
  from destroy_loop_all [OF this refs] obtain s' where
    "destroy_loop s (case lru of [] \<Rightarrow> lru_head | x # _ \<Rightarrow> x) = Some s'"
    "lc_deleted s' = lc_deleted s @ map (\<lambda>x. (lh_key (ent s x), lh_value (ent s x))) lru" by blast
  moreover have "mset_set (set lru) = mset lru" using L by (intro mset_set_set) (simp add: links_def)
  ultimately show ?thesis using links_oldest [OF L] by (simp add: LRUCache_destroy_def account_def dom)
qed

end
