(* ===== verification/Ldb_Cache_Sessions.thy ===== *)
theory Ldb_Cache_Sessions
  imports Ldb_Cache_Props
begin

text \<open>
  What the clients of the cache see. A session is a sequence of calls, in any order, in which a handle is released as often
  as it was given out at most. A held handle keeps its value, a lookup returns what was inserted last under the key, and
  every value that was inserted is passed to its deleter once, when nobody can reach it any more.
\<close>

section \<open>Sessions\<close>

text \<open>The destructor destroys the shards, the last one first.\<close>

definition Cache_destroy :: "'v ShardedLRUCache \<Rightarrow> 'v LRUCache list option" where
  "Cache_destroy c = those (map LRUCache_destroy (rev (sh_shard c)))"

text \<open>The number of calls, the cache, the references that clients hold, the value inserted last and not erased for each
  key, the key and the value each handle was made for, and all insertions.\<close>

inductive cache_session ::
  "size_t \<Rightarrow> nat \<Rightarrow> 'v ShardedLRUCache \<Rightarrow> (nat \<times> nat \<Rightarrow> nat) \<Rightarrow> (slice \<Rightarrow> 'v option) \<Rightarrow> (nat \<times> nat \<Rightarrow> (slice \<times> 'v) option) \<Rightarrow>
   (slice \<times> 'v) multiset \<Rightarrow> bool" for capacity :: size_t where
  start: "ShardedLRUCache_new capacity = Some c \<Longrightarrow>
    cache_session capacity 0 c (\<lambda>_. 0) (\<lambda>_. None) (\<lambda>_. None) {#}"
| insert: "cache_session capacity n c held latest owner ins \<Longrightarrow> Cache_Insert c key val charge = Some (h, c') \<Longrightarrow>
    cache_session capacity (n + 1) c' (held(h := held h + 1)) (latest(key \<mapsto> val)) (owner(h \<mapsto> (key, val)))
      (add_mset (key, val) ins)"
| hit: "cache_session capacity n c held latest owner ins \<Longrightarrow> Cache_Lookup c key = Some (Some h, c') \<Longrightarrow>
    cache_session capacity (n + 1) c' (held(h := held h + 1)) latest owner ins"
| miss: "cache_session capacity n c held latest owner ins \<Longrightarrow> Cache_Lookup c key = Some (None, c') \<Longrightarrow>
    cache_session capacity (n + 1) c' held latest owner ins"
| release: "cache_session capacity n c held latest owner ins \<Longrightarrow> 0 < held h \<Longrightarrow>
    cache_session capacity (n + 1) (Cache_Release c h) (held(h := held h - 1)) latest owner ins"
| erase: "cache_session capacity n c held latest owner ins \<Longrightarrow> Cache_Erase c key = Some c' \<Longrightarrow>
    cache_session capacity (n + 1) c' held (latest(key := None)) owner ins"
| prune: "cache_session capacity n c held latest owner ins \<Longrightarrow> Cache_Prune c = Some c' \<Longrightarrow>
    cache_session capacity (n + 1) c' held latest owner ins"

section \<open>The invariant\<close>

definition shard_ok ::
  "nat \<Rightarrow> nat \<Rightarrow> 'v LRUCache \<Rightarrow> (nat \<Rightarrow> nat) \<Rightarrow> (slice \<Rightarrow> 'v option) \<Rightarrow> (nat \<times> nat \<Rightarrow> (slice \<times> 'v) option) \<Rightarrow> bool" where
  "shard_ok n i s held latest owner \<longleftrightarrow>
     (\<exists>lru use. shard HashSlice held s lru use \<and> 2 \<le> lc_fresh s \<and> length (lru @ use) \<le> n \<and>
       (lc_capacity s = 0 \<longrightarrow> lru @ use = []) \<and>
       (\<forall>e key val charge hash. datum s e = Some (key, val, charge, hash) \<longrightarrow>
          Shard (HashSlice key) = i \<and> owner (i, e) = Some (key, val)) \<and>
       (\<forall>e\<in>set (lru @ use). latest (lh_key (ent s e)) = Some (lh_value (ent s e))))"

definition cache_ok ::
  "nat \<Rightarrow> 'v ShardedLRUCache \<Rightarrow> (nat \<times> nat \<Rightarrow> nat) \<Rightarrow> (slice \<Rightarrow> 'v option) \<Rightarrow> (nat \<times> nat \<Rightarrow> (slice \<times> 'v) option) \<Rightarrow>
   (slice \<times> 'v) multiset \<Rightarrow> bool" where
  "cache_ok n c held latest owner ins \<longleftrightarrow> length (sh_shard c) = kNumShards \<and>
     (\<forall>i<kNumShards. shard_ok n i (sh_shard c ! i) (\<lambda>e. held (i, e)) latest owner) \<and>
     (\<forall>h. held h \<le> n \<and> (kNumShards \<le> fst h \<longrightarrow> held h = 0)) \<and> (\<Sum>s\<leftarrow>sh_shard c. account s) = ins"

lemma Shard_less: "Shard hash < kNumShards"
proof -
  have "unat hash div 2 ^ 28 < 16" using unat_less_pow [of hash] by (simp add: div_less_iff_less_mult)
  then show ?thesis by (simp add: Shard_def kNumShards_def unat_drop_bit)
qed

text \<open>An entry that is left after an operation is the entry that was there before.\<close>

lemma datum_in_list:
  assumes "shard hf held s lru use" and "e \<in> set (lru @ use)"
  shows "\<exists>charge hash. datum s e = Some (lh_key (ent s e), lh_value (ent s e), charge, hash)"
proof -
  have "entries hf held (lc_ent s) (lc_fresh s) lru use" using assms(1) by (simp add: shard_def)
  from entriesD(1) [OF this, of e] assms(2) show ?thesis by (auto simp: datum_def ent_def)
qed

lemma keepsD:
  assumes "keeps s s'" and "datum s' e = Some d"
  shows "datum s e = Some d"
proof -
  from assms(1) have "datum s' e = None \<or> datum s' e = datum s e" by (simp add: keeps_def)
  with assms(2) show ?thesis by simp
qed

lemma keeps_in_list:
  assumes "keeps s s'" and "shard hf held s' lru use" and "e \<in> set (lru @ use)"
  shows "lh_key (ent s' e) = lh_key (ent s e) \<and> lh_value (ent s' e) = lh_value (ent s e)"
proof -
  obtain charge hash where "datum s' e = Some (lh_key (ent s' e), lh_value (ent s' e), charge, hash)"
    using datum_in_list [OF assms(2,3)] by blast
  from keepsD [OF assms(1) this] show ?thesis by (auto simp: datum_def ent_def)
qed

lemma shard_okI:
  assumes "shard HashSlice held s lru use" and "2 \<le> lc_fresh s" and "length (lru @ use) \<le> n"
    and "lc_capacity s = 0 \<longrightarrow> lru @ use = []"
    and "\<forall>e key val charge hash. datum s e = Some (key, val, charge, hash) \<longrightarrow>
      Shard (HashSlice key) = i \<and> owner (i, e) = Some (key, val)"
    and "\<forall>e\<in>set (lru @ use). latest (lh_key (ent s e)) = Some (lh_value (ent s e))"
  shows "shard_ok n i s held latest owner"
  using assms unfolding shard_ok_def by blast

lemma shard_okE:
  assumes "shard_ok n i s held latest owner"
  obtains lru use where "shard HashSlice held s lru use" and "2 \<le> lc_fresh s" and "length (lru @ use) \<le> n"
    and "lc_capacity s = 0 \<longrightarrow> lru @ use = []"
    and "\<forall>e key val charge hash. datum s e = Some (key, val, charge, hash) \<longrightarrow>
      Shard (HashSlice key) = i \<and> owner (i, e) = Some (key, val)"
    and "\<forall>e\<in>set (lru @ use). latest (lh_key (ent s e)) = Some (lh_value (ent s e))"
  using assms unfolding shard_ok_def by blast

lemma shard_ok_keeps:
  assumes "keeps s s'" and "shard HashSlice held' s' lru' use'" and "shard HashSlice held s lru use"
    and "set (lru' @ use') \<subseteq> set (lru @ use)" and "2 \<le> lc_fresh s" and "length (lru @ use) \<le> n"
    and "lc_capacity s = 0 \<longrightarrow> lru @ use = []"
    and "\<forall>e key val charge hash. datum s e = Some (key, val, charge, hash) \<longrightarrow>
      Shard (HashSlice key) = i \<and> owner (i, e) = Some (key, val)"
    and "\<forall>e\<in>set (lru' @ use'). latest (lh_key (ent s e)) = Some (lh_value (ent s e))"
  shows "shard_ok n i s' held' latest owner"
proof -
  have "card (set (lru' @ use')) \<le> card (set (lru @ use))" by (rule card_mono) (use assms(4) in auto)
  then have "length (lru' @ use') \<le> n"
    using distinct_card [OF shard_distinct [OF assms(2)]] distinct_card [OF shard_distinct [OF assms(3)]] assms(6) by simp
  moreover have "\<forall>e\<in>set (lru' @ use'). latest (lh_key (ent s' e)) = Some (lh_value (ent s' e))"
    using keeps_in_list [OF assms(1,2)] assms(9) by simp
  moreover have "\<forall>e key val charge hash. datum s' e = Some (key, val, charge, hash) \<longrightarrow>
      Shard (HashSlice key) = i \<and> owner (i, e) = Some (key, val)" using keepsD [OF assms(1)] assms(8) by blast
  moreover have "lc_fresh s' = lc_fresh s" "lc_capacity s' = lc_capacity s" using assms(1) by (simp_all add: keeps_def)
  moreover have "lc_capacity s' = 0 \<longrightarrow> lru' @ use' = []" using assms(4,7) calculation(5) by (metis set_empty subset_empty)
  ultimately show ?thesis using assms(5) by (intro shard_okI [OF assms(2)]) simp_all
qed

section \<open>The operations on a shard\<close>

lemma Lookup_ok:
  assumes "shard_ok n i s held latest owner" and "\<forall>e. held e \<le> n" and "n + 2 < 2 ^ 32"
  shows "\<exists>r s'. LRU_Lookup s key (HashSlice key) = Some (r, s') \<and> account s' = account s \<and> lc_capacity s' = lc_capacity s \<and>
    (case r of None \<Rightarrow> shard_ok n i s' held latest owner
     | Some e \<Rightarrow> shard_ok n i s' (held(e := held e + 1)) latest owner \<and> owner (i, e) = Some (key, lh_value (ent s' e)) \<and>
         latest key = Some (lh_value (ent s' e)))"
proof -
  from assms(1) obtain lru use where S: "shard HashSlice held s lru use" and f: "2 \<le> lc_fresh s" "length (lru @ use) \<le> n"
    "lc_capacity s = 0 \<longrightarrow> lru @ use = []"
    and o: "\<forall>e key val charge hash. datum s e = Some (key, val, charge, hash) \<longrightarrow>
      Shard (HashSlice key) = i \<and> owner (i, e) = Some (key, val)"
    and l: "\<forall>e\<in>set (lru @ use). latest (lh_key (ent s e)) = Some (lh_value (ent s e))" by (rule shard_okE)
  have b: "\<forall>e. held e + 2 < 2 ^ 32" using assms(2,3) le_less_trans [OF add_le_mono1] by blast
  from Lookup_shard [OF S b, of key] obtain r s' where r: "LRU_Lookup s key (HashSlice key) = Some (r, s')" and
    c: "case r of None \<Rightarrow> s' = s \<and> (\<forall>e\<in>set (lru @ use). lh_key (ent s e) \<noteq> key)
     | Some e \<Rightarrow> e \<in> set (lru @ use) \<and> lh_key (ent s e) = key \<and> keeps s s' \<and>
         shard HashSlice (held(e := held e + 1)) s' (remove1 e lru) (if e \<in> set lru then use @ [e] else use)"
    by (elim exE conjE) (rule that)
  show ?thesis
  proof (cases r)
    case None
    with r c assms(1) show ?thesis by simp
  next
    case (Some e)
    then have e: "e \<in> set (lru @ use)" "lh_key (ent s e) = key" and k: "keeps s s'" and
      S': "shard HashSlice (held(e := held e + 1)) s' (remove1 e lru) (if e \<in> set lru then use @ [e] else use)"
      using c by auto
    have sub: "set (remove1 e lru @ (if e \<in> set lru then use @ [e] else use)) \<subseteq> set (lru @ use)"
      using e(1) set_remove1_subset [of e lru] by auto
    have in': "e \<in> set (remove1 e lru @ (if e \<in> set lru then use @ [e] else use))" using e(1) by auto
    have "shard_ok n i s' (held(e := held e + 1)) latest owner"
      by (rule shard_ok_keeps [OF k S' S sub f o]) (use sub l in blast)
    moreover have val: "lh_value (ent s' e) = lh_value (ent s e)" using keeps_in_list [OF k S' in'] by simp
    moreover have "owner (i, e) = Some (key, lh_value (ent s e))" using datum_in_list [OF S e(1)] o e(2) by auto
    ultimately show ?thesis using r Some k l e by (auto simp: keeps_def)
  qed
qed

lemma Release_ok:
  assumes "shard_ok n i s held latest owner" and "0 < held e"
  shows "shard_ok n i (LRU_Release s e) (held(e := held e - 1)) latest owner \<and> account (LRU_Release s e) = account s \<and>
    Shard (lh_hash (ent s e)) = i"
proof -
  from assms(1) obtain lru use where S: "shard HashSlice held s lru use" and f: "2 \<le> lc_fresh s" "length (lru @ use) \<le> n"
    "lc_capacity s = 0 \<longrightarrow> lru @ use = []"
    and o: "\<forall>e key val charge hash. datum s e = Some (key, val, charge, hash) \<longrightarrow>
      Shard (HashSlice key) = i \<and> owner (i, e) = Some (key, val)"
    and l: "\<forall>e\<in>set (lru @ use). latest (lh_key (ent s e)) = Some (lh_value (ent s e))" by (rule shard_okE)
  have E: "entries HashSlice held (lc_ent s) (lc_fresh s) lru use" using S by (simp add: shard_def)
  obtain h where h: "lc_ent s e = Some h" using entriesD(3) [OF E, of e] assms(2) by (cases "lc_ent s e") auto
  then have "Shard (lh_hash (ent s e)) = i" using o entriesD(2) [OF E h] by (auto simp: datum_def ent_def)
  moreover from Unref_shard [OF S assms(2)] obtain moved where
    S': "shard HashSlice (held(e := held e - 1)) (Unref s e) (if moved then lru @ [e] else lru) (if moved then remove1 e use else use)"
    and m: "moved \<longleftrightarrow> e \<in> set use \<and> held e = 1" and k: "keeps s (Unref s e)" by blast
  have sub: "set ((if moved then lru @ [e] else lru) @ (if moved then remove1 e use else use)) \<subseteq> set (lru @ use)"
    using m set_remove1_subset [of e use] by auto
  have "shard_ok n i (Unref s e) (held(e := held e - 1)) latest owner"
    by (rule shard_ok_keeps [OF k S' S sub f o]) (use sub l in blast)
  ultimately show ?thesis using k by (simp add: LRU_Release_def keeps_def)
qed

lemma Erase_ok:
  assumes "shard_ok n i s held latest owner"
  shows "\<exists>s'. LRU_Erase s key (HashSlice key) = Some s' \<and> shard_ok n i s' held (latest(key := None)) owner \<and> account s' = account s"
proof -
  from assms(1) obtain lru use where S: "shard HashSlice held s lru use" and f: "2 \<le> lc_fresh s" "length (lru @ use) \<le> n"
    "lc_capacity s = 0 \<longrightarrow> lru @ use = []"
    and o: "\<forall>e key val charge hash. datum s e = Some (key, val, charge, hash) \<longrightarrow>
      Shard (HashSlice key) = i \<and> owner (i, e) = Some (key, val)"
    and l: "\<forall>e\<in>set (lru @ use). latest (lh_key (ent s e)) = Some (lh_value (ent s e))" by (rule shard_okE)
  let ?lru = "filter (\<lambda>x. lh_key (ent s x) \<noteq> key) lru" and ?use = "filter (\<lambda>x. lh_key (ent s x) \<noteq> key) use"
  from LRU_Erase_shard [OF S, of key] obtain s' where s': "LRU_Erase s key (HashSlice key) = Some s'" "keeps s s'"
    "shard HashSlice held s' ?lru ?use" by blast
  have "shard_ok n i s' held (latest(key := None)) owner"
    by (rule shard_ok_keeps [OF s'(2,3) S _ f o]) (use l in auto)
  with s'(1,2) show ?thesis by (simp add: keeps_def)
qed

lemma Prune_ok:
  assumes "shard_ok n i s held latest owner"
  shows "\<exists>s'. LRU_Prune s = Some s' \<and> shard_ok n i s' held latest owner \<and> account s' = account s"
proof -
  from assms(1) obtain lru use where S: "shard HashSlice held s lru use" and f: "2 \<le> lc_fresh s" "length (lru @ use) \<le> n"
    "lc_capacity s = 0 \<longrightarrow> lru @ use = []"
    and o: "\<forall>e key val charge hash. datum s e = Some (key, val, charge, hash) \<longrightarrow>
      Shard (HashSlice key) = i \<and> owner (i, e) = Some (key, val)"
    and l: "\<forall>e\<in>set (lru @ use). latest (lh_key (ent s e)) = Some (lh_value (ent s e))" by (rule shard_okE)
  from Prune_shard [OF S] obtain s' where s': "LRU_Prune s = Some s'" "keeps s s'" "shard HashSlice held s' [] use" by blast
  have "shard_ok n i s' held latest owner" by (rule shard_ok_keeps [OF s'(2,3) S _ f o]) (use l in auto)
  with s'(1,2) show ?thesis by (simp add: keeps_def)
qed

text \<open>After an insertion the charges fit into the capacity, or every entry in the cache is held by a client.\<close>

definition fits_capacity :: "'v LRUCache \<Rightarrow> (nat \<Rightarrow> nat) \<Rightarrow> bool" where
  "fits_capacity s held \<longleftrightarrow> lc_usage s \<le> lc_capacity s \<or> (\<forall>e h. lc_ent s e = Some h \<and> lh_in_cache h \<longrightarrow> 0 < held e)"

lemma shard_Insert_ok:
  assumes "shard_ok n i s held latest owner" and "n < 2 ^ 31" and "Shard (HashSlice key) = i"
  shows "\<exists>s'. LRU_Insert s key (HashSlice key) val charge = Some (lc_fresh s, s') \<and>
    shard_ok (n + 1) i s' (held(lc_fresh s := held (lc_fresh s) + 1)) (latest(key \<mapsto> val)) (owner((i, lc_fresh s) \<mapsto> (key, val))) \<and>
    account s' = add_mset (key, val) (account s) \<and> lh_value (ent s' (lc_fresh s)) = val \<and>
    fits_capacity s' (held(lc_fresh s := held (lc_fresh s) + 1))"
proof -
  let ?e = "lc_fresh s"
  from assms(1) obtain lru use where S: "shard HashSlice held s lru use" and f: "2 \<le> lc_fresh s" "length (lru @ use) \<le> n"
    and cap: "lc_capacity s = 0 \<longrightarrow> lru @ use = []"
    and o: "\<forall>e key val charge hash. datum s e = Some (key, val, charge, hash) \<longrightarrow>
      Shard (HashSlice key) = i \<and> owner (i, e) = Some (key, val)"
    and l: "\<forall>e\<in>set (lru @ use). latest (lh_key (ent s e)) = Some (lh_value (ent s e))" by (rule shard_okE)
  let ?lru = "lru_after s key lru" and ?use = "use_after s key use"
  have E: "entries HashSlice held (lc_ent s) ?e lru use" using S by (simp add: shard_def)
  have "lc_ent s ?e = None" using entries_dom(2) [OF E] by (auto simp: dom_def)
  then have h0: "held ?e = 0" using entriesD(3) [OF E] by blast
  have "length (lru @ use) < 2 ^ 31" using f(2) assms(2) by (rule le_less_trans)
  from Insert_shard [OF S f(1) this, of key val charge] obtain k s' where
    s': "LRU_Insert s key (HashSlice key) val charge = Some (?e, s')" and k: "k \<le> length ?lru" and
    S': "shard HashSlice (held(?e := 1)) s' (drop k ?lru) ?use" and u: "lc_usage s' \<le> lc_capacity s \<or> k = length ?lru" and
    I: "inserted s s' key (HashSlice key) val charge" by (elim exE conjE) (rule that)
  have I1: "lc_capacity s' = lc_capacity s" "lc_fresh s' = ?e + 1" "account s' = add_mset (key, val) (account s)"
    using I by (simp_all add: inserted_def)
  have d: "datum s' x = Some y \<Longrightarrow> (if x = ?e then y = (key, val, charge, HashSlice key) else datum s x = Some y)" for x y
  proof -
    assume "datum s' x = Some y"
    moreover have "datum s' x = None \<or> datum s' x = (if x = ?e then Some (key, val, charge, HashSlice key) else datum s x)"
      using I by (simp add: inserted_def)
    ultimately show ?thesis by auto
  qed
  have E': "entries HashSlice (held(?e := 1)) (lc_ent s') (lc_fresh s') (drop k ?lru) ?use" using S' by (simp add: shard_def)
  have "lc_ent s' ?e \<noteq> None" using entriesD(3) [OF E', of ?e] by auto
  then obtain y where "datum s' ?e = Some y" by (auto simp: datum_def)
  with d [of ?e y] have "lh_value (ent s' ?e) = val" by (auto simp: datum_def ent_def)
  moreover have "shard_ok (n + 1) i s' (held(?e := 1)) (latest(key \<mapsto> val)) (owner((i, ?e) \<mapsto> (key, val)))"
  proof (rule shard_okI [OF S'])
    show "2 \<le> lc_fresh s'" using f(1) I1 by simp
    have "length ?lru \<le> length lru" "length ?use \<le> length use + 1" by (simp_all add: lru_after_def use_after_def)
    then show "length (drop k ?lru @ ?use) \<le> n + 1" using f(2) by simp
    show "lc_capacity s' = 0 \<longrightarrow> drop k ?lru @ ?use = []" using cap I1 by (simp add: lru_after_def use_after_def)
    show "\<forall>e key' val' charge hash. datum s' e = Some (key', val', charge, hash) \<longrightarrow>
        Shard (HashSlice key') = i \<and> (owner((i, ?e) \<mapsto> (key, val))) (i, e) = Some (key', val')"
    proof (intro allI impI)
      fix e key' val' charge hash assume "datum s' e = Some (key', val', charge, hash)"
      note y = d [OF this]
      show "Shard (HashSlice key') = i \<and> (owner((i, ?e) \<mapsto> (key, val))) (i, e) = Some (key', val')"
      proof (cases "e = ?e")
        case False
        then have "datum s e = Some (key', val', charge, hash)" using y by simp
        with o have "Shard (HashSlice key') = i" "owner (i, e) = Some (key', val')" by blast+
        with False show ?thesis by simp
      qed (use y assms(3) in auto)
    qed
    show "\<forall>e\<in>set (drop k ?lru @ ?use). (latest(key \<mapsto> val)) (lh_key (ent s' e)) = Some (lh_value (ent s' e))"
    proof
      fix x assume x: "x \<in> set (drop k ?lru @ ?use)"
      from datum_in_list [OF S' x] obtain c h where y: "datum s' x = Some (lh_key (ent s' x), lh_value (ent s' x), c, h)" by blast
      show "(latest(key \<mapsto> val)) (lh_key (ent s' x)) = Some (lh_value (ent s' x))"
      proof (cases "x = ?e")
        case True
        with d [OF y] show ?thesis by simp
      next
        case False
        then have same: "lh_key (ent s' x) = lh_key (ent s x)" "lh_value (ent s' x) = lh_value (ent s x)"
          using d [OF y] by (auto simp: datum_def ent_def)
        have "x \<in> set (?lru @ ?use)" using x by (auto dest: in_set_dropD)
        then have "x \<in> set (lru @ use) \<and> lh_key (ent s x) \<noteq> key"
          using False cap by (auto simp: lru_after_def use_after_def word_gt_0 split: if_splits)
        with l same show ?thesis by simp
      qed
    qed
  qed
  moreover have "fits_capacity s' (held(?e := 1))"
  proof (cases "k = length ?lru")
    case True
    have "0 < (held(?e := 1)) e" if h: "lc_ent s' e = Some h" "lh_in_cache h" for e h
    proof -
      have "e \<in> set ?use" using entriesD(1) [OF E', of e] h True by auto
      then show ?thesis by (rule entriesD(5) [OF E'])
    qed
    then show ?thesis unfolding fits_capacity_def by blast
  qed (use u I1 in \<open>simp add: fits_capacity_def\<close>)
  ultimately show ?thesis using s' h0 I1(3) by simp
qed

section \<open>The whole cache\<close>

lemma shard_ok_other:
  assumes "shard_ok n j s held latest owner" and "n \<le> n'" and "\<forall>e. owner' (j, e) = owner (j, e)"
    and "\<forall>key. Shard (HashSlice key) = j \<longrightarrow> latest' key = latest key"
  shows "shard_ok n' j s held latest' owner'"
proof -
  from assms(1) obtain lru use where S: "shard HashSlice held s lru use" and f: "2 \<le> lc_fresh s" "length (lru @ use) \<le> n"
    "lc_capacity s = 0 \<longrightarrow> lru @ use = []"
    and o: "\<forall>e key val charge hash. datum s e = Some (key, val, charge, hash) \<longrightarrow>
      Shard (HashSlice key) = j \<and> owner (j, e) = Some (key, val)"
    and l: "\<forall>e\<in>set (lru @ use). latest (lh_key (ent s e)) = Some (lh_value (ent s e))" by (rule shard_okE)
  have "\<forall>e\<in>set (lru @ use). latest' (lh_key (ent s e)) = Some (lh_value (ent s e))"
  proof
    fix e assume e: "e \<in> set (lru @ use)"
    from datum_in_list [OF S e] o have "Shard (HashSlice (lh_key (ent s e))) = j" by blast
    with assms(4) l e show "latest' (lh_key (ent s e)) = Some (lh_value (ent s e))" by simp
  qed
  moreover have "\<forall>e key val charge hash. datum s e = Some (key, val, charge, hash) \<longrightarrow>
      Shard (HashSlice key) = j \<and> owner' (j, e) = Some (key, val)" using o assms(3) by simp
  ultimately show ?thesis using f assms(2) by (intro shard_okI [OF S]) auto
qed

lemma shard_ok_Suc: "shard_ok n j s held latest owner \<Longrightarrow> shard_ok (n + 1) j s held latest owner"
  by (erule shard_ok_other) simp_all

lemma sum_list_update_mset:
  "i < length xs \<Longrightarrow> (\<Sum>x\<leftarrow>xs[i := y]. f x) + f (xs ! i) = (\<Sum>x\<leftarrow>xs. f x) + (f y :: 'b multiset)"
  by (induction xs arbitrary: i) (auto split: nat.splits)

lemma cache_ok_update:
  assumes "cache_ok n c held latest owner ins" and "i < kNumShards" and "n \<le> n'"
    and "shard_ok n' i s' (\<lambda>e. held' (i, e)) latest' owner'"
    and "\<forall>j e. j \<noteq> i \<longrightarrow> held' (j, e) = held (j, e) \<and> owner' (j, e) = owner (j, e)"
    and "\<forall>key. Shard (HashSlice key) \<noteq> i \<longrightarrow> latest' key = latest key"
    and "\<forall>e. held' (i, e) \<le> n'" and "ins' + account (sh_shard c ! i) = ins + account s'"
  shows "cache_ok n' (c\<lparr>sh_shard := (sh_shard c)[i := s']\<rparr>) held' latest' owner' ins'"
  unfolding cache_ok_def
proof (intro conjI allI impI)
  have len: "length (sh_shard c) = kNumShards" using assms(1) by (simp add: cache_ok_def)
  then show "length (sh_shard (c\<lparr>sh_shard := (sh_shard c)[i := s']\<rparr>)) = kNumShards" by simp
  fix j assume j: "j < kNumShards"
  show "shard_ok n' j (sh_shard (c\<lparr>sh_shard := (sh_shard c)[i := s']\<rparr>) ! j) (\<lambda>e. held' (j, e)) latest' owner'"
  proof (cases "j = i")
    case True
    then show ?thesis using assms(2,4) len by simp
  next
    case False
    have "shard_ok n j (sh_shard c ! j) (\<lambda>e. held (j, e)) latest owner" using assms(1) j by (simp add: cache_ok_def)
    from shard_ok_other [OF this assms(3), of owner' latest'] False assms(5,6) show ?thesis by simp
  qed
next
  fix h :: "nat \<times> nat"
  show "held' h \<le> n'"
  proof (cases "fst h = i")
    case False
    then have "held' h = held h" using assms(5) by (cases h) auto
    with assms(1,3) show ?thesis unfolding cache_ok_def by (metis le_trans)
  qed (use assms(7) in \<open>cases h, auto\<close>)
  assume "kNumShards \<le> fst h"
  then show "held' h = 0" using assms(1,2,5) by (cases h) (auto simp: cache_ok_def)
next
  have len: "length (sh_shard c) = kNumShards" and ins: "(\<Sum>s\<leftarrow>sh_shard c. account s) = ins"
    using assms(1) by (simp_all add: cache_ok_def)
  have "(\<Sum>s\<leftarrow>(sh_shard c)[i := s']. account s) + account (sh_shard c ! i) = ins + account s'"
    using sum_list_update_mset [of i "sh_shard c" account s'] len assms(2) ins by simp
  then show "(\<Sum>s\<leftarrow>sh_shard (c\<lparr>sh_shard := (sh_shard c)[i := s']\<rparr>). account s) = ins'"
    using assms(8) by (metis ShardedLRUCache.select_convs(1) ShardedLRUCache.surjective ShardedLRUCache.update_convs(1) add_right_cancel)
qed

lemma cache_ok_shard: "cache_ok n c held latest owner ins \<Longrightarrow> i < kNumShards \<Longrightarrow>
    shard_ok n i (sh_shard c ! i) (\<lambda>e. held (i, e)) latest owner \<and> (\<forall>e. held (i, e) \<le> n)"
  by (simp add: cache_ok_def)

lemma new_ok:
  assumes "ShardedLRUCache_new capacity = Some (c :: 'v ShardedLRUCache)"
  shows "cache_ok 0 c (\<lambda>_. 0) latest owner {#}"
proof -
  let ?cap = "(capacity + (of_nat kNumShards - 1)) div of_nat kNumShards"
  obtain s :: "'v LRUCache" where s: "LRUCache_new = Some s" "lc_fresh s = 2" "lc_ent s = (\<lambda>_. None)" "lc_deleted s = []"
    "shard HashSlice (\<lambda>_. 0) (SetCapacity s ?cap) [] []"
    using LRUCache_new_shard [of HashSlice ?cap, where 'a = 'v] by blast
  then have c: "c = \<lparr>sh_shard = replicate kNumShards (SetCapacity s ?cap), sh_last_id = 0\<rparr>"
    using assms unfolding ShardedLRUCache_new_def Let_def s(1) by simp
  have "shard_ok 0 i (SetCapacity s ?cap) (\<lambda>_. 0) latest owner" for i
    using s by (intro shard_okI [OF s(5)]) (simp_all add: SetCapacity_def datum_def)
  moreover have "account (SetCapacity s ?cap) = {#}" using s by (simp add: account_def SetCapacity_def)
  moreover have "sum_list (replicate m {#}) = {#}" for m by (induction m) simp_all
  ultimately show ?thesis by (simp add: cache_ok_def c)
qed

lemma Cache_Insert_ok:
  assumes "cache_ok n c held latest owner ins" and "n < 2 ^ 31"
  shows "\<exists>h c'. Cache_Insert c key val charge = Some (h, c') \<and> Cache_Value c' h = val \<and>
    cache_ok (n + 1) c' (held(h := held h + 1)) (latest(key \<mapsto> val)) (owner(h \<mapsto> (key, val))) (add_mset (key, val) ins) \<and>
    fits_capacity (sh_shard c' ! fst h) (\<lambda>e. (held(h := held h + 1)) (fst h, e))"
proof -
  define i where "i = Shard (HashSlice key)"
  let ?s = "sh_shard c ! i" and ?h = "(i, lc_fresh (sh_shard c ! i))"
  have i: "i < kNumShards" by (simp add: i_def Shard_less)
  have ok: "shard_ok n i ?s (\<lambda>e. held (i, e)) latest owner" and b: "\<forall>e. held (i, e) \<le> n" using cache_ok_shard [OF assms(1) i] by auto
  have len: "length (sh_shard c) = kNumShards" using assms(1) by (simp add: cache_ok_def)
  from shard_Insert_ok [OF ok assms(2) i_def [symmetric], of val charge] obtain s' where
    s': "LRU_Insert ?s key (HashSlice key) val charge = Some (lc_fresh ?s, s')"
    "shard_ok (n + 1) i s' ((\<lambda>e. held (i, e))(lc_fresh ?s := held ?h + 1)) (latest(key \<mapsto> val)) (owner(?h \<mapsto> (key, val)))"
    "account s' = add_mset (key, val) (account ?s)" "lh_value (ent s' (lc_fresh ?s)) = val"
    "fits_capacity s' ((\<lambda>e. held (i, e))(lc_fresh ?s := held ?h + 1))" by (elim exE conjE) (rule that)
  have eq: "(\<lambda>e. (held(?h := held ?h + 1)) (i, e)) = (\<lambda>e. held (i, e))(lc_fresh ?s := held ?h + 1)" by auto
  have "cache_ok (n + 1) (c\<lparr>sh_shard := (sh_shard c)[i := s']\<rparr>) (held(?h := held ?h + 1)) (latest(key \<mapsto> val))
      (owner(?h \<mapsto> (key, val))) (add_mset (key, val) ins)"
    by (rule cache_ok_update [OF assms(1) i _ s'(2) [folded eq]]) (use s'(3) b i_def in \<open>auto simp: le_SucI\<close>)
  moreover have "Cache_Insert c key val charge = Some (?h, c\<lparr>sh_shard := (sh_shard c)[i := s']\<rparr>)"
    using s'(1) by (simp add: Cache_Insert_def Let_def i_def)
  moreover have "fits_capacity s' (\<lambda>e. (held(?h := held ?h + 1)) (i, e))" unfolding eq by (rule s'(5))
  ultimately show ?thesis using s'(4) len i
    by (intro exI [of _ ?h] exI [of _ "c\<lparr>sh_shard := (sh_shard c)[i := s']\<rparr>"]) (simp add: Cache_Value_def)
qed

lemma Cache_Lookup_ok:
  assumes "cache_ok n c held latest owner ins" and "n < 2 ^ 31"
  shows "\<exists>r c'. Cache_Lookup c key = Some (r, c') \<and>
    (case r of None \<Rightarrow> cache_ok (n + 1) c' held latest owner ins
     | Some h \<Rightarrow> cache_ok (n + 1) c' (held(h := held h + 1)) latest owner ins \<and>
         owner h = Some (key, Cache_Value c' h) \<and> latest key = Some (Cache_Value c' h))"
proof -
  define i where "i = Shard (HashSlice key)"
  let ?s = "sh_shard c ! i"
  have i: "i < kNumShards" by (simp add: i_def Shard_less)
  have ok: "shard_ok n i ?s (\<lambda>e. held (i, e)) latest owner" and b: "\<forall>e. held (i, e) \<le> n" using cache_ok_shard [OF assms(1) i] by auto
  have len: "length (sh_shard c) = kNumShards" using assms(1) by (simp add: cache_ok_def)
  have n: "n + 2 < 2 ^ 32" using assms(2) by simp
  from Lookup_ok [OF ok b n, of key] obtain r s' where r: "LRU_Lookup ?s key (HashSlice key) = Some (r, s')"
    and acc: "account s' = account ?s" and
    c: "case r of None \<Rightarrow> shard_ok n i s' (\<lambda>e. held (i, e)) latest owner
     | Some e \<Rightarrow> shard_ok n i s' ((\<lambda>e. held (i, e))(e := held (i, e) + 1)) latest owner \<and>
         owner (i, e) = Some (key, lh_value (ent s' e)) \<and> latest key = Some (lh_value (ent s' e))"
    by (elim exE conjE) (rule that)
  let ?c = "c\<lparr>sh_shard := (sh_shard c)[i := s']\<rparr>"
  have step: "Cache_Lookup c key = Some (map_option (Pair i) r, ?c)"
    using r by (simp add: Cache_Lookup_def Let_def i_def [symmetric])
  show ?thesis
  proof (cases r)
    case None
    then have "shard_ok (n + 1) i s' (\<lambda>e. held (i, e)) latest owner" using c by (intro shard_ok_Suc) simp
    then have "cache_ok (n + 1) ?c held latest owner ins"
      by (rule cache_ok_update [OF assms(1) i, rotated]) (use b acc in \<open>auto simp: le_SucI\<close>)
    with None step show ?thesis by simp
  next
    case (Some e)
    let ?h = "(i, e)"
    have eq: "(\<lambda>x. (held(?h := held ?h + 1)) (i, x)) = (\<lambda>x. held (i, x))(e := held ?h + 1)" by auto
    have "shard_ok (n + 1) i s' (\<lambda>x. (held(?h := held ?h + 1)) (i, x)) latest owner"
      unfolding eq using c Some by (intro shard_ok_Suc) simp
    then have "cache_ok (n + 1) ?c (held(?h := held ?h + 1)) latest owner ins"
      by (rule cache_ok_update [OF assms(1) i, rotated]) (use b acc in \<open>auto simp: le_SucI\<close>)
    with Some step c len i show ?thesis by (simp add: Cache_Value_def)
  qed
qed

lemma Cache_Release_ok:
  assumes "cache_ok n c held latest owner ins" and "0 < held h"
  shows "cache_ok (n + 1) (Cache_Release c h) (held(h := held h - 1)) latest owner ins"
proof -
  obtain i e where h: "h = (i, e)" by (cases h)
  have "kNumShards \<le> fst h \<longrightarrow> held h = 0" using assms(1) unfolding cache_ok_def by blast
  then have i: "i < kNumShards" using assms(2) h by (cases "i < kNumShards") auto
  have ok: "shard_ok n i (sh_shard c ! i) (\<lambda>e. held (i, e)) latest owner" and b: "\<forall>e. held (i, e) \<le> n"
    using cache_ok_shard [OF assms(1) i] by auto
  from Release_ok [OF ok, of e] assms(2) h have
    r: "shard_ok n i (LRU_Release (sh_shard c ! i) e) ((\<lambda>e. held (i, e))(e := held h - 1)) latest owner"
    "account (LRU_Release (sh_shard c ! i) e) = account (sh_shard c ! i)" "Shard (lh_hash (ent (sh_shard c ! i) e)) = i" by auto
  have eq: "(\<lambda>x. (held(h := held h - 1)) (i, x)) = (\<lambda>x. held (i, x))(e := held h - 1)" using h by auto
  have "shard_ok (n + 1) i (LRU_Release (sh_shard c ! i) e) (\<lambda>x. (held(h := held h - 1)) (i, x)) latest owner"
    unfolding eq by (rule shard_ok_Suc [OF r(1)])
  then have "cache_ok (n + 1) (c\<lparr>sh_shard := (sh_shard c)[i := LRU_Release (sh_shard c ! i) e]\<rparr>) (held(h := held h - 1)) latest owner ins"
    by (rule cache_ok_update [OF assms(1) i, rotated]) (use b r(2) h in \<open>auto simp: le_SucI intro: le_trans [OF diff_le_self]\<close>)
  then show ?thesis using r(3) by (simp add: Cache_Release_def h Let_def)
qed

lemma Cache_Erase_ok:
  assumes "cache_ok n c held latest owner ins"
  shows "\<exists>c'. Cache_Erase c key = Some c' \<and> cache_ok (n + 1) c' held (latest(key := None)) owner ins"
proof -
  define i where "i = Shard (HashSlice key)"
  have i: "i < kNumShards" by (simp add: i_def Shard_less)
  have ok: "shard_ok n i (sh_shard c ! i) (\<lambda>e. held (i, e)) latest owner" and b: "\<forall>e. held (i, e) \<le> n"
    using cache_ok_shard [OF assms(1) i] by auto
  from Erase_ok [OF ok, of key] obtain s' where s': "LRU_Erase (sh_shard c ! i) key (HashSlice key) = Some s'"
    "shard_ok n i s' (\<lambda>e. held (i, e)) (latest(key := None)) owner" "account s' = account (sh_shard c ! i)" by blast
  have "cache_ok (n + 1) (c\<lparr>sh_shard := (sh_shard c)[i := s']\<rparr>) held (latest(key := None)) owner ins"
    by (rule cache_ok_update [OF assms(1) i _ shard_ok_Suc [OF s'(2)]]) (use b s'(3) i_def in \<open>auto simp: le_SucI\<close>)
  then show ?thesis using s'(1) by (simp add: Cache_Erase_def Let_def i_def)
qed

lemma prune_shards_ok:
  assumes "\<forall>j<length ss. shard_ok n (i + j) (ss ! j) (\<lambda>e. held (i + j, e)) latest owner"
  shows "\<exists>ss'. prune_shards ss = Some ss' \<and> length ss' = length ss \<and> (\<Sum>s\<leftarrow>ss'. account s) = (\<Sum>s\<leftarrow>ss. account s) \<and>
    (\<forall>j<length ss. shard_ok n (i + j) (ss' ! j) (\<lambda>e. held (i + j, e)) latest owner)"
  using assms
proof (induction ss arbitrary: i)
  case (Cons s ss)
  have "shard_ok n i s (\<lambda>e. held (i, e)) latest owner" using Cons.prems by force
  from Prune_ok [OF this] obtain s' where s': "LRU_Prune s = Some s'" "shard_ok n i s' (\<lambda>e. held (i, e)) latest owner"
    "account s' = account s" by blast
  have "\<forall>j<length ss. shard_ok n (Suc i + j) (ss ! j) (\<lambda>e. held (Suc i + j, e)) latest owner"
    using Cons.prems by (auto dest: spec [where x = "Suc _"])
  from Cons.IH [OF this] obtain ss' where ss': "prune_shards ss = Some ss'" "length ss' = length ss"
    "(\<Sum>s\<leftarrow>ss'. account s) = (\<Sum>s\<leftarrow>ss. account s)"
    "\<forall>j<length ss. shard_ok n (Suc i + j) (ss' ! j) (\<lambda>e. held (Suc i + j, e)) latest owner" by blast
  have "shard_ok n (i + j) ((s' # ss') ! j) (\<lambda>e. held (i + j, e)) latest owner" if "j < length (s # ss)" for j
    using s'(2) ss'(4) that by (cases j) auto
  then show ?case using s' ss' by (intro exI [of _ "s' # ss'"]) simp
qed simp

lemma Cache_Prune_ok:
  assumes "cache_ok n c held latest owner ins"
  shows "\<exists>c'. Cache_Prune c = Some c' \<and> cache_ok (n + 1) c' held latest owner ins"
proof -
  have a: "length (sh_shard c) = kNumShards" "(\<Sum>s\<leftarrow>sh_shard c. account s) = ins"
    "\<forall>h. held h \<le> n \<and> (kNumShards \<le> fst h \<longrightarrow> held h = 0)" using assms unfolding cache_ok_def by blast+
  have "\<forall>j<length (sh_shard c). shard_ok n (0 + j) (sh_shard c ! j) (\<lambda>e. held (0 + j, e)) latest owner"
    using assms by (simp add: cache_ok_def)
  from prune_shards_ok [OF this] obtain ss where ss: "prune_shards (sh_shard c) = Some ss" "length ss = length (sh_shard c)"
    "(\<Sum>s\<leftarrow>ss. account s) = (\<Sum>s\<leftarrow>sh_shard c. account s)"
    "\<forall>j<length (sh_shard c). shard_ok n (0 + j) (ss ! j) (\<lambda>e. held (0 + j, e)) latest owner" by blast
  have "\<forall>h. held h \<le> n + 1 \<and> (kNumShards \<le> fst h \<longrightarrow> held h = 0)" using a(3) le_trans [OF _ le_add1] by blast
  then have "cache_ok (n + 1) (c\<lparr>sh_shard := ss\<rparr>) held latest owner ins"
    unfolding cache_ok_def using ss(2-4) a(1,2) by (auto intro: shard_ok_Suc [unfolded Suc_eq_plus1 [symmetric]] simp del: split_paired_All)
  with ss(1) show ?thesis by (simp add: Cache_Prune_def)
qed

lemma session_ok:
  assumes "cache_session capacity n c held latest owner ins" and "n \<le> 2 ^ 31"
  shows "cache_ok n c held latest owner ins"
  using assms
proof (induction rule: cache_session.induct)
  case (start c)
  then show ?case by (intro new_ok)
next
  case (insert n c held latest owner ins key val charge h c')
  from Cache_Insert_ok [OF insert.IH, of key val charge] insert show ?case by (auto simp del: fun_upd_apply)
next
  case (hit n c held latest owner ins key h c')
  from Cache_Lookup_ok [OF hit.IH, of key] hit show ?case by (auto simp del: fun_upd_apply)
next
  case (miss n c held latest owner ins key c')
  from Cache_Lookup_ok [OF miss.IH, of key] miss show ?case by auto
next
  case (release n c held latest owner ins h)
  then show ?case by (intro Cache_Release_ok) simp_all
next
  case (erase n c held latest owner ins key c')
  from Cache_Erase_ok [OF erase.IH, of key] erase show ?case by (auto simp del: fun_upd_apply)
next
  case (prune n c held latest owner ins c')
  from Cache_Prune_ok [OF prune.IH] prune show ?case by auto
qed

section \<open>What the clients rely on\<close>

lemma held_value:
  assumes "cache_ok n c held latest owner ins" and "0 < held h"
  shows "\<exists>key. owner h = Some (key, Cache_Value c h)"
proof -
  obtain i e where h: "h = (i, e)" by (cases h)
  have "kNumShards \<le> fst h \<longrightarrow> held h = 0" using assms(1) unfolding cache_ok_def by blast
  then have i: "i < kNumShards" using assms(2) h by (cases "i < kNumShards") auto
  have "shard_ok n i (sh_shard c ! i) (\<lambda>e. held (i, e)) latest owner" using cache_ok_shard [OF assms(1) i] by blast
  then obtain lru use where S: "shard HashSlice (\<lambda>e. held (i, e)) (sh_shard c ! i) lru use"
    and o: "\<forall>e key val charge hash. datum (sh_shard c ! i) e = Some (key, val, charge, hash) \<longrightarrow>
      Shard (HashSlice key) = i \<and> owner (i, e) = Some (key, val)" by (rule shard_okE)
  have E: "entries HashSlice (\<lambda>e. held (i, e)) (lc_ent (sh_shard c ! i)) (lc_fresh (sh_shard c ! i)) lru use"
    using S by (simp add: shard_def)
  obtain d where d: "lc_ent (sh_shard c ! i) e = Some d"
    using entriesD(3) [OF E, of e] assms(2) h by (cases "lc_ent (sh_shard c ! i) e") auto
  then have "datum (sh_shard c ! i) e = Some (lh_key d, lh_value d, lh_charge d, lh_hash d)" by (simp add: datum_def)
  with o have "owner (i, e) = Some (lh_key d, lh_value d)" by blast
  with d show ?thesis by (simp add: h Cache_Value_def ent_def)
qed

lemma deleted_account: "mset (concat (map lc_deleted ss)) \<subseteq># (\<Sum>s\<leftarrow>ss. account s)"
proof (induction ss)
  case (Cons s ss)
  have "mset (lc_deleted s) \<subseteq># account s" by (simp add: account_def)
  with Cons show ?case by (simp add: subset_mset.add_mono)
qed simp

lemma destroy_all:
  assumes "\<forall>s\<in>set ss. \<exists>s'. LRUCache_destroy s = Some s' \<and> mset (lc_deleted s') = account s"
  shows "\<exists>ss'. those (map LRUCache_destroy ss) = Some ss' \<and> mset (concat (map lc_deleted ss')) = (\<Sum>s\<leftarrow>ss. account s)"
  using assms
proof (induction ss)
  case (Cons s ss)
  then obtain s' ss' where "LRUCache_destroy s = Some s'" "mset (lc_deleted s') = account s"
    "those (map LRUCache_destroy ss) = Some ss'" "mset (concat (map lc_deleted ss')) = (\<Sum>s\<leftarrow>ss. account s)" by auto
  then show ?case by simp
qed simp

lemma destroy_ok:
  assumes "cache_ok n c (\<lambda>_. 0) latest owner ins"
  shows "\<exists>ss. Cache_destroy c = Some ss \<and> mset (concat (map lc_deleted ss)) = ins"
proof -
  have len: "length (sh_shard c) = kNumShards" and ins: "(\<Sum>s\<leftarrow>sh_shard c. account s) = ins"
    using assms by (simp_all add: cache_ok_def)
  have "\<forall>s\<in>set (rev (sh_shard c)). \<exists>s'. LRUCache_destroy s = Some s' \<and> mset (lc_deleted s') = account s"
  proof
    fix s assume "s \<in> set (rev (sh_shard c))"
    then obtain i where i: "i < kNumShards" "s = sh_shard c ! i" using len by (auto simp: in_set_conv_nth)
    from cache_ok_shard [OF assms i(1)] have "shard_ok n i s (\<lambda>_. 0) latest owner" unfolding i(2) by blast
    then obtain lru use where "shard HashSlice (\<lambda>_. 0) s lru use" by (rule shard_okE)
    from destroy_shard [OF this] show "\<exists>s'. LRUCache_destroy s = Some s' \<and> mset (lc_deleted s') = account s" .
  qed
  from destroy_all [OF this] obtain ss where ss: "those (map LRUCache_destroy (rev (sh_shard c))) = Some ss"
    "mset (concat (map lc_deleted ss)) = (\<Sum>s\<leftarrow>rev (sh_shard c). account s)" by blast
  moreover have "(\<Sum>s\<leftarrow>rev (sh_shard c). account s) = (\<Sum>s\<leftarrow>sh_shard c. account s)"
    by (metis mset_map mset_rev sum_mset_sum_list)
  ultimately show ?thesis using ins by (simp add: Cache_destroy_def)
qed

text \<open>C13: the cache keeps its promises in every session of fewer than \<open>2 ^ 31\<close> calls, whatever is evicted. A handle that a
  client holds has the value it was made for. A lookup ends, and what it finds is the value inserted last under the key. An
  insertion ends; its handle has the value, and in its shard the charges then fit into the capacity or every entry in the
  cache is held by a client. Erasing and pruning end. No value has been passed to a deleter more often than it was
  inserted, and when no handle is held, the destructor completes this: each inserted value has been passed to its deleter
  exactly once.\<close>

theorem cache_session_safe:
  assumes "cache_session capacity n c held latest owner ins" and "n < 2 ^ 31"
  shows "(\<forall>h. 0 < held h \<longrightarrow> (\<exists>key. owner h = Some (key, Cache_Value c h))) \<and>
    (\<forall>key. \<exists>r c'. Cache_Lookup c key = Some (r, c') \<and>
       (\<forall>h. r = Some h \<longrightarrow> owner h = Some (key, Cache_Value c' h) \<and> latest key = Some (Cache_Value c' h))) \<and>
    (\<forall>key val charge. \<exists>h c'. Cache_Insert c key val charge = Some (h, c') \<and> Cache_Value c' h = val \<and>
       fits_capacity (sh_shard c' ! fst h) (\<lambda>e. (held(h := held h + 1)) (fst h, e))) \<and>
    (\<forall>key. Cache_Erase c key \<noteq> None) \<and> Cache_Prune c \<noteq> None \<and>
    mset (concat (map lc_deleted (sh_shard c))) \<subseteq># ins \<and>
    ((\<forall>h. held h = 0) \<longrightarrow> (\<exists>ss. Cache_destroy c = Some ss \<and> mset (concat (map lc_deleted ss)) = ins))"
proof -
  have ok: "cache_ok n c held latest owner ins" using session_ok [OF assms(1)] assms(2) by simp
  have 1: "\<forall>h. 0 < held h \<longrightarrow> (\<exists>key. owner h = Some (key, Cache_Value c h))" using held_value [OF ok] by blast
  have 2: "\<exists>r c'. Cache_Lookup c key = Some (r, c') \<and>
      (\<forall>h. r = Some h \<longrightarrow> owner h = Some (key, Cache_Value c' h) \<and> latest key = Some (Cache_Value c' h))" for key
    using Cache_Lookup_ok [OF ok assms(2), of key] by (auto simp del: fun_upd_apply)
  have 3: "\<exists>h c'. Cache_Insert c key val charge = Some (h, c') \<and> Cache_Value c' h = val \<and>
       fits_capacity (sh_shard c' ! fst h) (\<lambda>e. (held(h := held h + 1)) (fst h, e))" for key val charge
    using Cache_Insert_ok [OF ok assms(2), of key val charge] by blast
  have 4: "Cache_Erase c key \<noteq> None" for key using Cache_Erase_ok [OF ok, of key] by auto
  have 5: "Cache_Prune c \<noteq> None" using Cache_Prune_ok [OF ok] by auto
  have 6: "mset (concat (map lc_deleted (sh_shard c))) \<subseteq># ins"
    using deleted_account [of "sh_shard c"] ok by (simp add: cache_ok_def)
  have 7: "\<exists>ss. Cache_destroy c = Some ss \<and> mset (concat (map lc_deleted ss)) = ins" if "\<forall>h. held h = 0"
  proof -
    have "held = (\<lambda>_. 0)" using that by blast
    with ok show ?thesis by (intro destroy_ok) simp
  qed
  show ?thesis using 1 2 3 4 5 6 7 by blast
qed

text \<open>A cache of 100 units into which one value is inserted.\<close>

theorem cache_session_safe_witness:
  "\<exists>c h c' r c''. ShardedLRUCache_new 100 = Some c \<and> Cache_Insert c [1, 2] (7 :: nat) 10 = Some (h, c') \<and> Cache_Value c' h = 7 \<and>
     Cache_Lookup c' [1, 2] = Some (r, c'') \<and> (r = None \<or> Cache_Value c'' (the r) = 7)"
proof -
  obtain s :: "nat LRUCache" where s: "LRUCache_new = Some s" using LRUCache_new_shard [where 'a = nat] by blast
  obtain c :: "nat ShardedLRUCache" where c: "ShardedLRUCache_new 100 = Some c"
    unfolding ShardedLRUCache_new_def Let_def s by simp
  have s0: "cache_session 100 0 c (\<lambda>_. 0) (\<lambda>_. None) (\<lambda>_. None) {#}" by (rule cache_session.start [OF c])
  have b: "(0 :: nat) < 2 ^ 31" "(0 :: nat) + 1 < 2 ^ 31" by simp_all
  from cache_session_safe [OF s0 b(1)] obtain h c' where
    i: "Cache_Insert c [1, 2] 7 10 = Some (h, c')" "Cache_Value c' h = 7" by blast
  from cache_session_safe [OF cache_session.insert [OF s0 i(1)] b(2)] obtain r c'' where
    r: "Cache_Lookup c' [1, 2] = Some (r, c'')" "\<forall>h'. r = Some h' \<longrightarrow> ((\<lambda>_. None)([1, 2 :: byte] \<mapsto> 7)) [1, 2] = Some (Cache_Value c'' h')"
    by blast
  have "r = None \<or> Cache_Value c'' (the r) = 7" using r(2) by (cases r) auto
  with c i r(1) show ?thesis by blast
qed

end
