(* ===== verification/Ldb_Random_Access.thy ===== *)
theory Ldb_Random_Access
  imports Ldb_File "HOL-Library.Sublist"
begin

text \<open>
  Files that are read at any offset: the two implementations in \<open>util/env_posix.cc\<close>, one that asks the kernel and one on
  mapped memory, and the interface that the readers of tables use.
\<close>

section \<open>The interface\<close>

text \<open>The answer of \<open>Read\<close> is a status, the bytes, and whether they are in the buffer that the caller passed.\<close>

record 'f rafile_ops =
  ra_Read :: "'f \<Rightarrow> uint64 \<Rightarrow> size_t \<Rightarrow> (status \<times> slice \<times> bool) \<times> 'f"

text \<open>A successful read gives bytes of the file at the offset, but maybe fewer than were asked for. A reliable file gives
  all of them.\<close>

definition full_reads :: "'f rafile_ops \<Rightarrow> ('f \<Rightarrow> byte list) \<Rightarrow> ('f \<Rightarrow> bool) \<Rightarrow> bool" where
  "full_reads R contents good \<longleftrightarrow> (\<forall>f offset n. good f \<and> unat offset + unat n \<le> length (contents f) \<longrightarrow>
     (\<exists>b f'. ra_Read R f offset n = ((Status_OK, take (unat n) (drop (unat offset) (contents f)), b), f')))"

locale random_access_file =
  fixes R :: "'f rafile_ops" and contents :: "'f \<Rightarrow> byte list" and inv :: "'f \<Rightarrow> bool"
  assumes read_effect: "inv f \<Longrightarrow> ra_Read R f offset n = ((s, c, b), f') \<Longrightarrow>
      inv f' \<and> contents f' = contents f \<and>
      (Status_ok s \<and> unat offset + unat n < 2 ^ 64 \<longrightarrow> prefix c (take (unat n) (drop (unat offset) (contents f))))"
begin

lemma read_whole:
  assumes "inv f" and "ra_Read R f offset n = ((s, c, b), f')" and "Status_ok s" and "length c = unat n"
    and "unat offset + unat n < 2 ^ 64"
  shows "c = take (unat n) (drop (unat offset) (contents f))"
proof -
  have "prefix c (take (unat n) (drop (unat offset) (contents f)))" using read_effect [OF assms(1,2)] assms(3,5) by blast
  then obtain zs where zs: "take (unat n) (drop (unat offset) (contents f)) = c @ zs" by (rule prefixE)
  have "length (c @ zs) \<le> unat n" unfolding zs [symmetric] by simp
  with assms(4) zs show ?thesis by simp
qed

end

section \<open>Reading through the kernel\<close>

record PosixRandomAccessFile =
  rf_has_permanent_fd :: bool
  rf_filename :: "byte list"
  rf_contents :: "byte list"
  rf_os :: posix

text \<open>The constructor takes a unit of the limiter, if there is one, to keep the descriptor.\<close>

definition PosixRandomAccessFile_new ::
  "byte list \<Rightarrow> byte list \<Rightarrow> posix \<Rightarrow> int \<Rightarrow> PosixRandomAccessFile \<times> int" where
  "PosixRandomAccessFile_new filename contents os limiter =
     (let (has_permanent_fd, limiter) = Limiter_Acquire limiter
      in (\<lparr>rf_has_permanent_fd = has_permanent_fd, rf_filename = filename, rf_contents = contents, rf_os = os\<rparr>, limiter))"

definition PosixRandomAccessFile_destroy :: "PosixRandomAccessFile \<Rightarrow> int \<Rightarrow> int" where
  "PosixRandomAccessFile_destroy f limiter = (if rf_has_permanent_fd f then Limiter_Release limiter else limiter)"

definition pread :: "PosixRandomAccessFile \<Rightarrow> uint64 \<Rightarrow> size_t \<Rightarrow> (status \<times> slice \<times> bool) \<times> PosixRandomAccessFile" where
  "pread f offset n =
     (case sys_answer (unat n) (rf_os f) of
        (Fail e, os) \<Rightarrow> ((PosixError os (rf_filename f) e, [], True), f\<lparr>rf_os := os\<rparr>)
      | (Done k, os) \<Rightarrow> ((Status_OK, take k (drop (unat offset) (rf_contents f)), True), f\<lparr>rf_os := os\<rparr>))"

text \<open>Without a descriptor of its own the file is opened for the read; the opening can fail.\<close>

definition RandomRead :: "PosixRandomAccessFile \<Rightarrow> uint64 \<Rightarrow> size_t \<Rightarrow> (status \<times> slice \<times> bool) \<times> PosixRandomAccessFile" where
  "RandomRead f offset n =
     (if rf_has_permanent_fd f then pread f offset n
      else
        (case sys_answer 0 (rf_os f) of
           (Fail e, os) \<Rightarrow> ((PosixError os (rf_filename f) e, [], True), f\<lparr>rf_os := os\<rparr>)
         | (Done _, os) \<Rightarrow> pread (f\<lparr>rf_os := os\<rparr>) offset n))"

definition posix_random_ops :: "PosixRandomAccessFile rafile_ops" where
  "posix_random_ops = \<lparr>ra_Read = RandomRead\<rparr>"

lemma pread_effect:
  assumes "pread f offset n = ((s, c, b), f')"
  shows "rf_contents f' = rf_contents f \<and>
    (Status_ok s \<longrightarrow> prefix c (take (unat n) (drop (unat offset) (rf_contents f))))"
proof -
  have "prefix (take k xs) (take (unat n) xs)" if "k \<le> unat n" for k and xs :: "byte list"
    using that by (metis min.absorb1 take_is_prefix take_take)
  with assms show ?thesis
    by (auto simp: pread_def sys_answer_def split: list.splits sys_answer.splits)
qed

interpretation posix_random: random_access_file posix_random_ops rf_contents "\<lambda>_. True"
proof
  fix f offset n s c b f'
  assume "ra_Read posix_random_ops f offset n = ((s, c, b), f')"
  then show "True \<and> rf_contents f' = rf_contents f \<and>
      (Status_ok s \<and> unat offset + unat n < 2 ^ 64 \<longrightarrow> prefix c (take (unat n) (drop (unat offset) (rf_contents f))))"
    using pread_effect [of f offset n s c b f'] pread_effect [of "f\<lparr>rf_os := _\<rparr>" offset n s c b f']
    by (auto simp: posix_random_ops_def RandomRead_def split: if_splits prod.splits sys_answer.splits)
qed

section \<open>Reading mapped memory\<close>

record mapped_file =
  mf_file :: PosixMmapReadableFile
  mf_memory :: "addr \<Rightarrow> byte"
  mf_os :: posix

definition mapped_bytes :: "mapped_file \<Rightarrow> addr \<Rightarrow> nat \<Rightarrow> byte list" where
  "mapped_bytes f a n = map (\<lambda>i. mf_memory f (a + of_nat i)) [0..<n]"

definition mapped_contents :: "mapped_file \<Rightarrow> byte list" where
  "mapped_contents f = mapped_bytes f (mm_base (mf_file f)) (unat (mm_length (mf_file f)))"

definition MappedRead :: "mapped_file \<Rightarrow> uint64 \<Rightarrow> size_t \<Rightarrow> (status \<times> slice \<times> bool) \<times> mapped_file" where
  "MappedRead f offset n =
     (let (s, (a, len)) = MmapRead (mf_os f) (mf_file f) offset n in ((s, mapped_bytes f a (unat len), False), f))"

definition mapped_ops :: "mapped_file rafile_ops" where
  "mapped_ops = \<lparr>ra_Read = MappedRead\<rparr>"

lemma mapped_bytes_sub:
  assumes "off + n \<le> m"
  shows "mapped_bytes f (a + of_nat off) n = take n (drop off (mapped_bytes f a m))"
  by (rule nth_equalityI) (use assms in \<open>auto simp: mapped_bytes_def add.assoc\<close>)

lemma MappedRead_inside:
  assumes "unat offset + unat n < 2 ^ 64"
  shows "MappedRead f offset n =
    (if unat offset + unat n \<le> length (mapped_contents f)
     then ((Status_OK, take (unat n) (drop (unat offset) (mapped_contents f)), False), f)
     else ((PosixError (mf_os f) (mm_filename (mf_file f)) EINVAL, [], False), f))"
proof -
  have len: "length (mapped_contents f) = unat (mm_length (mf_file f))" by (simp add: mapped_contents_def mapped_bytes_def)
  have sum: "unat (offset + n) = unat offset + unat n" using assms by (simp add: unat_word_ariths(1) del: unat_add_no_wrap)
  show ?thesis
    using sum mapped_bytes_sub [of "unat offset" "unat n" "unat (mm_length (mf_file f))" f "mm_base (mf_file f)"]
    unfolding len by (simp add: MappedRead_def MmapRead_def word_less_nat_alt mapped_contents_def) (simp add: mapped_bytes_def)
qed

interpretation mapped: random_access_file mapped_ops mapped_contents "\<lambda>_. True"
proof
  fix f offset n s c b f'
  assume a: "ra_Read mapped_ops f offset n = ((s, c, b), f')"
  then have f': "f' = f" by (auto simp: mapped_ops_def MappedRead_def split: prod.splits)
  show "True \<and> mapped_contents f' = mapped_contents f \<and>
      (Status_ok s \<and> unat offset + unat n < 2 ^ 64 \<longrightarrow> prefix c (take (unat n) (drop (unat offset) (mapped_contents f))))"
    using a MappedRead_inside [of offset n f] by (auto simp: f' mapped_ops_def split: if_splits)
qed

lemma mapped_full_reads:
  assumes "\<forall>f. good f \<longrightarrow> length (mapped_contents f) < 2 ^ 64"
  shows "full_reads mapped_ops mapped_contents good"
  unfolding full_reads_def
proof (intro allI impI)
  fix f :: mapped_file and offset :: uint64 and n :: size_t
  assume a: "good f \<and> unat offset + unat n \<le> length (mapped_contents f)"
  then have "unat offset + unat n < 2 ^ 64" using assms by (meson le_less_trans)
  from MappedRead_inside [OF this, of f] a show
    "\<exists>b f'. ra_Read mapped_ops f offset n = ((Status_OK, take (unat n) (drop (unat offset) (mapped_contents f)), b), f')"
    by (auto simp: mapped_ops_def)
qed

end
