(* ===== verification/Ldb_Format.thy ===== *)
theory Ldb_Format
  imports Ldb_Block_Props Ldb_Filter Ldb_Random_Access
begin

text \<open>
  The frame of a table file, \<open>table/format.cc\<close>: handles that say where a block is, the footer at the end of the file, and
  the reading of a block with its trailer, a byte for the type and a checksum.

  A buffer that is read from is a part of memory: its bytes, and after them whatever memory holds (\<open>beyond\<close>).
\<close>

section \<open>Handles\<close>

record BlockHandle =
  bh_offset :: uint64
  bh_size :: uint64

definition kMaxEncodedLength :: nat where
  "kMaxEncodedLength = 10 + 10"

definition BlockHandle_new :: BlockHandle where
  "BlockHandle_new = \<lparr>bh_offset = NOT 0, bh_size = NOT 0\<rparr>"

definition BlockHandle_EncodeTo :: "BlockHandle \<Rightarrow> byte list \<Rightarrow> byte list" where
  "BlockHandle_EncodeTo h dst = PutVarint64 (PutVarint64 dst (bh_offset h)) (bh_size h)"

text \<open>The status, the handle and the rest of the input. A failure leaves what was decoded before it.\<close>

definition BlockHandle_DecodeFrom :: "BlockHandle \<Rightarrow> slice \<Rightarrow> status \<times> BlockHandle \<times> slice" where
  "BlockHandle_DecodeFrom h input =
     (case GetVarint64 input of
        None \<Rightarrow> (Status_Corruption (str ''bad block handle'') [], h, input)
      | Some (offset, input) \<Rightarrow>
          let h = h\<lparr>bh_offset := offset\<rparr>
          in case GetVarint64 input of
               None \<Rightarrow> (Status_Corruption (str ''bad block handle'') [], h, input)
             | Some (sz, input) \<Rightarrow> (Status_OK, h\<lparr>bh_size := sz\<rparr>, input))"

section \<open>The footer\<close>

record Footer =
  ft_metaindex_handle :: BlockHandle
  ft_index_handle :: BlockHandle

definition kTableMagicNumber :: uint64 where
  "kTableMagicNumber = 0xdb4775248b80fb57"

definition kBlockTrailerSize :: nat where
  "kBlockTrailerSize = 5"

definition Footer_kEncodedLength :: nat where
  "Footer_kEncodedLength = 2 * kMaxEncodedLength + 8"

text \<open>\<open>resize\<close> of a string.\<close>

definition resize :: "nat \<Rightarrow> byte list \<Rightarrow> byte list" where
  "resize n bs = take n bs @ replicate (n - length bs) 0"

definition Footer_EncodeTo :: "Footer \<Rightarrow> byte list \<Rightarrow> byte list" where
  "Footer_EncodeTo f dst =
     (let dst = BlockHandle_EncodeTo (ft_metaindex_handle f) dst;
          dst = BlockHandle_EncodeTo (ft_index_handle f) dst;
          dst = resize (2 * kMaxEncodedLength) dst;
          dst = PutFixed32 True dst (ucast (kTableMagicNumber AND 0xffffffff))
      in PutFixed32 True dst (ucast (drop_bit 32 kTableMagicNumber)))"

text \<open>The magic number is read at its place behind the start of the input, however long the input is.\<close>

definition Footer_DecodeFrom :: "(nat \<Rightarrow> byte) \<Rightarrow> nat \<Rightarrow> status \<times> Footer" where
  "Footer_DecodeFrom data n =
     (let f = \<lparr>ft_metaindex_handle = BlockHandle_new, ft_index_handle = BlockHandle_new\<rparr>;
          magic_ptr = Footer_kEncodedLength - 8;
          magic_lo = DecodeFixed32 True (bytes_at data magic_ptr 4);
          magic_hi = DecodeFixed32 True (bytes_at data (magic_ptr + 4) 4);
          magic = push_bit 32 (ucast magic_hi) OR ucast magic_lo
      in if magic \<noteq> kTableMagicNumber then (Status_Corruption (str ''not an sstable (bad magic number)'') [], f)
         else
           let (result, h, input) = BlockHandle_DecodeFrom (ft_metaindex_handle f) (bytes_at data 0 n);
               f = f\<lparr>ft_metaindex_handle := h\<rparr>
           in if Status_ok result then
                let (result, h, input) = BlockHandle_DecodeFrom (ft_index_handle f) input
                in (result, f\<lparr>ft_index_handle := h\<rparr>)
              else (result, f))"

section \<open>Reading a block\<close>

text \<open>The library is built without Snappy.\<close>

definition Snappy_Compress :: "slice \<Rightarrow> slice option" where
  "Snappy_Compress input = None"

definition Snappy_GetUncompressedLength :: "slice \<Rightarrow> nat option" where
  "Snappy_GetUncompressedLength input = None"

definition Snappy_Uncompress :: "slice \<Rightarrow> slice option" where
  "Snappy_Uncompress input = None"

datatype CompressionType = kNoCompression | kSnappyCompression

fun CompressionType_num :: "CompressionType \<Rightarrow> byte" where
  "CompressionType_num kNoCompression = 0"
| "CompressionType_num kSnappyCompression = 1"

record ReadOptions =
  ro_verify_checksums :: bool
  ro_fill_cache :: bool

definition ReadOptions_new :: ReadOptions where
  "ReadOptions_new = \<lparr>ro_verify_checksums = False, ro_fill_cache = True\<rparr>"

record BlockContents =
  bc_data :: "nat \<Rightarrow> byte"
  bc_size :: nat
  bc_cachable :: bool
  bc_heap_allocated :: bool

definition memory :: "byte list \<Rightarrow> (nat \<Rightarrow> byte) \<Rightarrow> nat \<Rightarrow> byte" where
  "memory bs beyond i = (if i < length bs then bs ! i else beyond i)"

definition no_contents :: BlockContents where
  "no_contents = \<lparr>bc_data = (\<lambda>_. 0), bc_size = 0, bc_cachable = False, bc_heap_allocated = False\<rparr>"

text \<open>The sizes are added in \<open>size_t\<close>.\<close>

definition ReadBlock ::
  "(nat \<Rightarrow> byte) \<Rightarrow> 'f rafile_ops \<Rightarrow> 'f \<Rightarrow> ReadOptions \<Rightarrow> BlockHandle \<Rightarrow> (status \<times> BlockContents) \<times> 'f" where
  "ReadBlock beyond R f options h =
     (let n = bh_size h :: size_t;
          ((s, contents, in_buf), f) = ra_Read R f (bh_offset h) (n + of_nat kBlockTrailerSize)
      in if \<not> Status_ok s then ((s, no_contents), f)
         else if of_nat (length contents) \<noteq> n + of_nat kBlockTrailerSize
         then ((Status_Corruption (str ''truncated block read'') [], no_contents), f)
         else
           let data = memory contents beyond; n1 = unat n
           in if ro_verify_checksums options \<and>
                 crc32c_Value (bytes_at data 0 (unat (n + 1))) \<noteq> Unmask (DecodeFixed32 True (bytes_at data (n1 + 1) 4))
              then ((Status_Corruption (str ''block checksum mismatch'') [], no_contents), f)
              else if data n1 = CompressionType_num kNoCompression then
                ((Status_OK, \<lparr>bc_data = data, bc_size = n1, bc_cachable = in_buf, bc_heap_allocated = in_buf\<rparr>), f)
              else if data n1 = CompressionType_num kSnappyCompression then
                (case Snappy_GetUncompressedLength (bytes_at data 0 n1) of
                   None \<Rightarrow> ((Status_Corruption (str ''corrupted compressed block contents'') [], no_contents), f)
                 | Some ulength \<Rightarrow>
                     case Snappy_Uncompress (bytes_at data 0 n1) of
                       None \<Rightarrow> ((Status_Corruption (str ''corrupted compressed block contents'') [], no_contents), f)
                     | Some ubuf \<Rightarrow>
                         ((Status_OK, \<lparr>bc_data = memory ubuf beyond, bc_size = ulength, bc_cachable = True,
                            bc_heap_allocated = True\<rparr>), f))
              else ((Status_Corruption (str ''bad block type'') [], no_contents), f))"

section \<open>Round trips\<close>

definition handle_bytes :: "BlockHandle \<Rightarrow> byte list" where
  "handle_bytes h = EncodeVarint64 (bh_offset h) @ EncodeVarint64 (bh_size h)"

lemma BlockHandle_EncodeTo_bytes: "BlockHandle_EncodeTo h dst = dst @ handle_bytes h"
  by (simp add: BlockHandle_EncodeTo_def PutVarint64_def handle_bytes_def)

lemma BlockHandle_DecodeFrom_bytes: "BlockHandle_DecodeFrom h0 (handle_bytes h @ rest) = (Status_OK, h, rest)"
  by (simp add: BlockHandle_DecodeFrom_def handle_bytes_def Let_def)

lemma length_handle_bytes: "2 \<le> length (handle_bytes h) \<and> length (handle_bytes h) \<le> kMaxEncodedLength"
proof -
  have "1 \<le> length (EncodeVarint64 v)" "length (EncodeVarint64 v) \<le> 10" for v
    using length_varint_64 [of v] varint_spec_neq_Nil [of "unat v"]
    by (auto simp: EncodeVarint64_spec Suc_le_eq)
  from this [of "bh_offset h"] this [of "bh_size h"] show ?thesis by (simp add: handle_bytes_def kMaxEncodedLength_def)
qed

definition footer_bytes :: "Footer \<Rightarrow> byte list" where
  "footer_bytes f = Footer_EncodeTo f []"

definition magic_bytes :: "byte list" where
  "magic_bytes = to_bytes 4 (ucast (kTableMagicNumber AND 0xffffffff) :: uint32) @
     to_bytes 4 (ucast (drop_bit 32 kTableMagicNumber) :: uint32)"

lemma footer_bytes_parts:
  "\<exists>pad. footer_bytes f = handle_bytes (ft_metaindex_handle f) @ handle_bytes (ft_index_handle f) @ pad @ magic_bytes \<and>
     length (handle_bytes (ft_metaindex_handle f) @ handle_bytes (ft_index_handle f) @ pad) = 2 * kMaxEncodedLength"
proof -
  let ?hs = "handle_bytes (ft_metaindex_handle f) @ handle_bytes (ft_index_handle f)"
  have "length ?hs \<le> 2 * kMaxEncodedLength"
    using length_handle_bytes [of "ft_metaindex_handle f"] length_handle_bytes [of "ft_index_handle f"] by simp
  then show ?thesis
    by (intro exI [of _ "replicate (2 * kMaxEncodedLength - length ?hs) 0"])
      (simp add: footer_bytes_def Footer_EncodeTo_def Let_def BlockHandle_EncodeTo_bytes resize_def PutFixed32_def
        EncodeFixed_bytes magic_bytes_def)
qed

lemma length_footer_bytes: "length (footer_bytes f) = Footer_kEncodedLength"
  using footer_bytes_parts [of f] by (auto simp: Footer_kEncodedLength_def magic_bytes_def)

lemma bytes_at_memory:
  assumes "a + n \<le> length bs"
  shows "bytes_at (memory bs beyond) a n = take n (drop a bs)"
  by (rule nth_equalityI) (use assms in \<open>auto simp: bytes_at_def memory_def\<close>)

lemma Footer_roundtrip:
  "Footer_DecodeFrom (memory (footer_bytes f) beyond) Footer_kEncodedLength = (Status_OK, f)"
proof -
  obtain pad where p: "footer_bytes f = handle_bytes (ft_metaindex_handle f) @ handle_bytes (ft_index_handle f) @ pad @ magic_bytes"
    and l: "length (handle_bytes (ft_metaindex_handle f) @ handle_bytes (ft_index_handle f) @ pad) = 2 * kMaxEncodedLength"
    using footer_bytes_parts by blast
  have m: "magic_ptr + 4 \<le> length (footer_bytes f) \<and> drop (2 * kMaxEncodedLength) (footer_bytes f) = magic_bytes"
    if "magic_ptr \<le> 2 * kMaxEncodedLength + 4" for magic_ptr
    using that l length_footer_bytes [of f] unfolding p by (simp add: Footer_kEncodedLength_def)
  have lo: "bytes_at (memory (footer_bytes f) beyond) (Footer_kEncodedLength - 8) 4 = to_bytes 4 (0x8b80fb57 :: uint32)"
    using m [of "2 * kMaxEncodedLength"] bytes_at_memory [of "2 * kMaxEncodedLength" 4 "footer_bytes f" beyond]
    by (simp add: Footer_kEncodedLength_def magic_bytes_def kTableMagicNumber_def)
  have hi: "bytes_at (memory (footer_bytes f) beyond) (Footer_kEncodedLength - 8 + 4) 4 = to_bytes 4 (0xdb477524 :: uint32)"
  proof -
    have "drop (2 * kMaxEncodedLength + 4) (footer_bytes f) = drop 4 magic_bytes"
      using m [of "2 * kMaxEncodedLength"] by (metis add.commute drop_drop le_add1)
    then show ?thesis
      using m [of "2 * kMaxEncodedLength + 4"] bytes_at_memory [of "2 * kMaxEncodedLength + 4" 4 "footer_bytes f" beyond]
      by (simp add: Footer_kEncodedLength_def magic_bytes_def kTableMagicNumber_def)
  qed
  have all: "bytes_at (memory (footer_bytes f) beyond) 0 Footer_kEncodedLength = footer_bytes f"
    using bytes_at_memory [of 0 Footer_kEncodedLength "footer_bytes f" beyond] length_footer_bytes [of f] by simp
  have "DecodeFixed32 True (to_bytes 4 v) = v" for v :: uint32 by (simp add: DecodeFixed32_bytes of_bytes_to_bytes)
  then show ?thesis
    unfolding Footer_DecodeFrom_def Let_def lo hi all
    by (simp add: p BlockHandle_DecodeFrom_bytes kTableMagicNumber_def)
qed

text \<open>A block with its trailer.\<close>

definition framed :: "byte list \<Rightarrow> byte list" where
  "framed raw = raw @ [0] @ to_bytes 4 (Mask (crc32c_Value (raw @ [0])))"

lemma length_framed [simp]: "length (framed raw) = length raw + kBlockTrailerSize"
  by (simp add: framed_def kBlockTrailerSize_def)

text \<open>Reading a block at its place in a file: it succeeds with the bytes of the block, or the file reported a failure.\<close>

context random_access_file
begin

lemma ReadBlock_framed:
  assumes "inv f" and "contents f = pre @ framed raw @ post" and "length (contents f) < 2 ^ 63"
    and "h = \<lparr>bh_offset = of_nat (length pre), bh_size = of_nat (length raw)\<rparr>" and "ReadBlock beyond R f options h = ((s, bc), f')"
  shows "inv f' \<and> contents f' = contents f \<and> (full_reads R contents inv \<longrightarrow> Status_ok s) \<and>
    (Status_ok s \<longrightarrow> bc_size bc = length raw \<and> bytes_at (bc_data bc) 0 (length raw) = raw)"
proof -
  let ?n = "of_nat (length raw) :: size_t"
  have small: "length pre + length raw + 5 < 2 ^ 63" using assms(2,3) by (simp add: kBlockTrailerSize_def)
  have un: "unat (?n + of_nat kBlockTrailerSize) = length (framed raw)" "unat ?n = length raw" "unat (?n + 1) = length raw + 1"
    "unat (of_nat (length pre) :: uint64) = length pre"
    using small by (simp_all add: unat_of_nat unat_word_ariths(1) kBlockTrailerSize_def del: unat_add_no_wrap)
  obtain s1 c b f1 where rd: "ra_Read R f (of_nat (length pre)) (?n + of_nat kBlockTrailerSize) = ((s1, c, b), f1)"
    by (metis prod_cases3 surj_pair)
  note eff = read_effect [OF assms(1) rd]
  have take: "take (length (framed raw)) (drop (length pre) (contents f)) = framed raw" by (simp add: assms(2))
  have fit: "length pre + length (framed raw) \<le> length (contents f)" by (simp add: assms(2))
  have full: "s1 = Status_OK \<and> c = framed raw" if "full_reads R contents inv"
    using that rd assms(1) fit take unfolding full_reads_def by (metis un(1,4) prod.inject)
  show ?thesis
  proof (cases "Status_ok s1 \<and> (of_nat (length c) :: size_t) = ?n + of_nat kBlockTrailerSize")
    case False
    then have "s = s1 \<and> \<not> Status_ok s1 \<or> \<not> Status_ok s \<and> c \<noteq> framed raw"
      using assms(5) rd un(1) by (auto simp: ReadBlock_def assms(4) Let_def split: if_splits)
    moreover have "f' = f1" using False assms(5) rd by (auto simp: ReadBlock_def assms(4) Let_def split: if_splits)
    ultimately show ?thesis using eff full by auto
  next
    case True
    have "length pre + length (framed raw) < 2 ^ 64" using small by (simp add: kBlockTrailerSize_def)
    then have "prefix c (framed raw)" using eff True un(1,4) take by simp
    then have "length c < 2 ^ 64" using prefix_length_le small by (fastforce simp: kBlockTrailerSize_def)
    then have "unat (of_nat (length c) :: size_t) = length c" by (simp add: unat_of_nat)
    then have "length c = length (framed raw)" using True un(1) by metis
    moreover from \<open>prefix c (framed raw)\<close> obtain zs where zs: "framed raw = c @ zs" by (rule prefixE)
    then have "length (framed raw) = length c + length zs" by simp
    ultimately have c: "c = framed raw" using zs by simp
    let ?data = "memory c beyond"
    have d: "bytes_at ?data 0 (length raw + 1) = raw @ [0]" "bytes_at ?data (length raw + 1) 4 = to_bytes 4 (Mask (crc32c_Value (raw @ [0])))"
      "bytes_at ?data 0 (length raw) = raw" "?data (length raw) = 0"
      using bytes_at_memory [of 0 "length raw + 1" c beyond] bytes_at_memory [of "length raw + 1" 4 c beyond]
        bytes_at_memory [of 0 "length raw" c beyond]
      by (simp_all add: c framed_def memory_def)
    have crc: "Unmask (DecodeFixed32 True (to_bytes 4 (Mask v))) = v" for v
      by (simp add: DecodeFixed32_bytes of_bytes_to_bytes Unmask_Mask)
    have "ReadBlock beyond R f options h = ((Status_OK, \<lparr>bc_data = ?data, bc_size = length raw, bc_cachable = b, bc_heap_allocated = b\<rparr>), f1)"
      using True rd un d crc by (simp add: ReadBlock_def assms(4) Let_def)
    then show ?thesis using assms(5) eff d(3) by auto
  qed
qed

end

end
