(* ===== verification/Ldb_Table_Builder.thy ===== *)
theory Ldb_Table_Builder
  imports Ldb_Format
begin

text \<open>
  The writer of table files, \<open>table/table_builder.cc\<close>: sorted entries go into data blocks; for every block the index has a
  key that separates it from the next one, and the handle of the block. The filter, the metaindex, the index and the footer
  follow the data.
\<close>

section \<open>The builder\<close>

text \<open>The options that tables use. The block cache is shared by all tables and is an argument of its users.\<close>

record Options =
  op_comparator :: comparator_ops
  op_paranoid_checks :: bool
  op_block_size :: size_t
  op_block_restart_interval :: nat
  op_compression :: CompressionType
  op_filter_policy :: "filter_ops option"

text \<open>The filter builder keeps the policy that it was made with.\<close>

record 'f TableBuilder =
  tb_options :: Options
  tb_index_block_options :: Options
  tb_file :: 'f
  tb_offset :: uint64
  tb_status :: status
  tb_data_block :: BlockBuilder
  tb_index_block :: BlockBuilder
  tb_last_key :: "byte list"
  tb_num_entries :: uint64
  tb_closed :: bool
  tb_filter_block :: "(filter_ops \<times> FilterBlockBuilder) option"
  tb_pending_index_entry :: bool
  tb_pending_handle :: BlockHandle

definition TableBuilder_new :: "Options \<Rightarrow> 'f \<Rightarrow> 'f TableBuilder" where
  "TableBuilder_new options file =
     \<lparr>tb_options = options, tb_index_block_options = options\<lparr>op_block_restart_interval := 1\<rparr>, tb_file = file, tb_offset = 0,
      tb_status = Status_OK, tb_data_block = BlockBuilder_new, tb_index_block = BlockBuilder_new, tb_last_key = [],
      tb_num_entries = 0, tb_closed = False,
      tb_filter_block = map_option (\<lambda>policy. (policy, StartBlock policy FilterBlockBuilder_new 0)) (op_filter_policy options),
      tb_pending_index_entry = False, tb_pending_handle = BlockHandle_new\<rparr>"

text \<open>Comparators are compared by their addresses; the outcome is an argument.\<close>

definition ChangeOptions :: "bool \<Rightarrow> 'f TableBuilder \<Rightarrow> Options \<Rightarrow> status \<times> 'f TableBuilder" where
  "ChangeOptions same_comparator r options =
     (if \<not> same_comparator then (Status_InvalidArgument (str ''changing comparator while building table'') [], r)
      else (Status_OK, r\<lparr>tb_options := options, tb_index_block_options := options\<lparr>op_block_restart_interval := 1\<rparr>\<rparr>))"

definition TableBuilder_ok :: "'f TableBuilder \<Rightarrow> bool" where
  "TableBuilder_ok r \<longleftrightarrow> Status_ok (tb_status r)"

definition WriteRawBlock ::
  "'f wfile_ops \<Rightarrow> 'f TableBuilder \<Rightarrow> slice \<Rightarrow> CompressionType \<Rightarrow> BlockHandle \<times> 'f TableBuilder" where
  "WriteRawBlock W r block_contents type =
     (let h = \<lparr>bh_offset = tb_offset r, bh_size = of_nat (length block_contents)\<rparr>;
          (s, f) = wo_Append W (tb_file r) block_contents;
          r = r\<lparr>tb_status := s, tb_file := f\<rparr>
      in if Status_ok s then
           let crc = crc32c_Value block_contents;
               crc = crc32c_Extend crc [CompressionType_num type];
               trailer = CompressionType_num type # EncodeFixed32 True (Mask crc);
               (s, f) = wo_Append W (tb_file r) trailer;
               r = r\<lparr>tb_status := s, tb_file := f\<rparr>
           in (h, if Status_ok s then r\<lparr>tb_offset := tb_offset r + of_nat (length block_contents) + of_nat kBlockTrailerSize\<rparr> else r)
         else (h, r))"

definition WriteBlock ::
  "'f wfile_ops \<Rightarrow> 'f TableBuilder \<Rightarrow> BlockBuilder \<Rightarrow> BlockHandle \<times> BlockBuilder \<times> 'f TableBuilder" where
  "WriteBlock W r block =
     (let (raw, block) = BlockBuilder_Finish block;
          (block_contents, type) =
            (case op_compression (tb_options r) of
               kNoCompression \<Rightarrow> (raw, kNoCompression)
             | kSnappyCompression \<Rightarrow>
                 (case Snappy_Compress raw of
                    Some compressed \<Rightarrow>
                      if length compressed < length raw - length raw div 8 then (compressed, kSnappyCompression)
                      else (raw, kNoCompression)
                  | None \<Rightarrow> (raw, kNoCompression)));
          (h, r) = WriteRawBlock W r block_contents type
      in (h, BlockBuilder_Reset block, r))"

definition TableBuilder_Flush :: "'f wfile_ops \<Rightarrow> 'f TableBuilder \<Rightarrow> 'f TableBuilder" where
  "TableBuilder_Flush W r =
     (if \<not> TableBuilder_ok r then r
      else if BlockBuilder_empty (tb_data_block r) then r
      else
        let (h, block, r) = WriteBlock W r (tb_data_block r);
            r = r\<lparr>tb_data_block := block, tb_pending_handle := h\<rparr>;
            r = (if TableBuilder_ok r then
                   let (s, f) = wo_Flush W (tb_file r)
                   in r\<lparr>tb_pending_index_entry := True, tb_status := s, tb_file := f\<rparr>
                 else r)
        in r\<lparr>tb_filter_block := map_option (\<lambda>(policy, b). (policy, StartBlock policy b (tb_offset r))) (tb_filter_block r)\<rparr>)"

definition TableBuilder_Add :: "'f wfile_ops \<Rightarrow> 'f TableBuilder \<Rightarrow> slice \<Rightarrow> slice \<Rightarrow> 'f TableBuilder" where
  "TableBuilder_Add W r key val =
     (if \<not> TableBuilder_ok r then r
      else
        let r = (if tb_pending_index_entry r then
                   let last_key = co_FindShortestSeparator (op_comparator (tb_options r)) (tb_last_key r) key;
                       handle_encoding = BlockHandle_EncodeTo (tb_pending_handle r) []
                   in r\<lparr>tb_last_key := last_key,
                        tb_index_block := BlockBuilder_Add (op_block_restart_interval (tb_index_block_options r))
                          (tb_index_block r) last_key handle_encoding,
                        tb_pending_index_entry := False\<rparr>
                 else r);
            r = r\<lparr>tb_filter_block := map_option (\<lambda>(policy, b). (policy, AddKey b key)) (tb_filter_block r)\<rparr>;
            r = r\<lparr>tb_last_key := key, tb_num_entries := tb_num_entries r + 1,
                  tb_data_block := BlockBuilder_Add (op_block_restart_interval (tb_options r)) (tb_data_block r) key val\<rparr>;
            estimated_block_size = CurrentSizeEstimate (tb_data_block r)
        in if estimated_block_size \<ge> unat (op_block_size (tb_options r)) then TableBuilder_Flush W r else r)"

text \<open>The steps of \<open>Finish\<close>.\<close>

definition finish_filter :: "'f wfile_ops \<Rightarrow> 'f TableBuilder \<Rightarrow> BlockHandle \<times> 'f TableBuilder" where
  "finish_filter W r =
     (case tb_filter_block r of
        Some (policy, b) \<Rightarrow>
          if TableBuilder_ok r then
            let (contents, b) = FilterBlock_Finish policy b
            in WriteRawBlock W (r\<lparr>tb_filter_block := Some (policy, b)\<rparr>) contents kNoCompression
          else (BlockHandle_new, r)
      | None \<Rightarrow> (BlockHandle_new, r))"

text \<open>The name is the one of the policy in the options. When they were changed to have none, the code reads through a null
  pointer; the model then has no name.\<close>

definition finish_metaindex :: "'f wfile_ops \<Rightarrow> BlockHandle \<Rightarrow> 'f TableBuilder \<Rightarrow> BlockHandle \<times> 'f TableBuilder" where
  "finish_metaindex W filter_block_handle r =
     (if TableBuilder_ok r then
        let meta_index_block = BlockBuilder_new;
            meta_index_block =
              (case tb_filter_block r of
                 Some (policy, b) \<Rightarrow>
                   BlockBuilder_Add (op_block_restart_interval (tb_options r)) meta_index_block
                     (str ''filter.'' @ (case op_filter_policy (tb_options r) of Some p \<Rightarrow> fo_Name p | None \<Rightarrow> []))
                     (BlockHandle_EncodeTo filter_block_handle [])
               | None \<Rightarrow> meta_index_block);
            (h, block, r) = WriteBlock W r meta_index_block
        in (h, r)
      else (BlockHandle_new, r))"

definition finish_index :: "'f wfile_ops \<Rightarrow> 'f TableBuilder \<Rightarrow> BlockHandle \<times> 'f TableBuilder" where
  "finish_index W r =
     (if TableBuilder_ok r then
        let r = (if tb_pending_index_entry r then
                   let last_key = co_FindShortSuccessor (op_comparator (tb_options r)) (tb_last_key r);
                       handle_encoding = BlockHandle_EncodeTo (tb_pending_handle r) []
                   in r\<lparr>tb_last_key := last_key,
                        tb_index_block := BlockBuilder_Add (op_block_restart_interval (tb_index_block_options r))
                          (tb_index_block r) last_key handle_encoding,
                        tb_pending_index_entry := False\<rparr>
                 else r);
            (h, block, r) = WriteBlock W r (tb_index_block r)
        in (h, r\<lparr>tb_index_block := block\<rparr>)
      else (BlockHandle_new, r))"

definition finish_footer :: "'f wfile_ops \<Rightarrow> BlockHandle \<Rightarrow> BlockHandle \<Rightarrow> 'f TableBuilder \<Rightarrow> 'f TableBuilder" where
  "finish_footer W metaindex_block_handle index_block_handle r =
     (if TableBuilder_ok r then
        let footer_encoding = Footer_EncodeTo \<lparr>ft_metaindex_handle = metaindex_block_handle, ft_index_handle = index_block_handle\<rparr> [];
            (s, f) = wo_Append W (tb_file r) footer_encoding;
            r = r\<lparr>tb_status := s, tb_file := f\<rparr>
        in if Status_ok s then r\<lparr>tb_offset := tb_offset r + of_nat (length footer_encoding)\<rparr> else r
      else r)"

definition TableBuilder_Finish :: "'f wfile_ops \<Rightarrow> 'f TableBuilder \<Rightarrow> status \<times> 'f TableBuilder" where
  "TableBuilder_Finish W r =
     (let r = (TableBuilder_Flush W r)\<lparr>tb_closed := True\<rparr>;
          (filter_block_handle, r) = finish_filter W r;
          (metaindex_block_handle, r) = finish_metaindex W filter_block_handle r;
          (index_block_handle, r) = finish_index W r;
          r = finish_footer W metaindex_block_handle index_block_handle r
      in (tb_status r, r))"

definition Abandon :: "'f TableBuilder \<Rightarrow> 'f TableBuilder" where
  "Abandon r = r\<lparr>tb_closed := True\<rparr>"

definition NumEntries :: "'f TableBuilder \<Rightarrow> uint64" where
  "NumEntries r = tb_num_entries r"

definition FileSize :: "'f TableBuilder \<Rightarrow> uint64" where
  "FileSize r = tb_offset r"

section \<open>What a table file holds\<close>

text \<open>The data blocks of the entries, the place of each, and the entries of the index.\<close>

definition data_bytes :: "nat \<Rightarrow> (slice \<times> slice) list list \<Rightarrow> byte list" where
  "data_bytes k ess = concat (map (\<lambda>es. framed (block_bytes k es)) ess)"

definition handle_at :: "nat \<Rightarrow> (slice \<times> slice) list list \<Rightarrow> nat \<Rightarrow> BlockHandle" where
  "handle_at k ess i = \<lparr>bh_offset = of_nat (length (data_bytes k (take i ess))), bh_size = of_nat (length (block_bytes k (ess ! i)))\<rparr>"

definition index_entries :: "nat \<Rightarrow> (slice \<times> slice) list list \<Rightarrow> slice list \<Rightarrow> (slice \<times> slice) list" where
  "index_entries k ess seps = map (\<lambda>i. (seps ! i, handle_bytes (handle_at k ess i))) [0..<length seps]"

definition filter_blocks :: "nat \<Rightarrow> (slice \<times> slice) list list \<Rightarrow> (slice \<times> slice) list \<Rightarrow> (uint64 \<times> slice list) list" where
  "filter_blocks k ess cur =
     map (\<lambda>i. (of_nat (length (data_bytes k (take i ess))), map fst (ess ! i))) [0..<length ess] @
     [(of_nat (length (data_bytes k ess)), map fst cur)]"

definition filter_of_blocks :: "filter_ops \<Rightarrow> (uint64 \<times> slice list) list \<Rightarrow> FilterBlockBuilder" where
  "filter_of_blocks policy blocks = foldl (add_block policy) FilterBlockBuilder_new blocks"

lemma data_bytes_snoc: "data_bytes k (ess @ [es]) = data_bytes k ess @ framed (block_bytes k es)"
  by (simp add: data_bytes_def)

lemma handle_at_append: "i < length ess \<Longrightarrow> handle_at k (ess @ ess') i = handle_at k ess i"
  by (simp add: handle_at_def nth_append)

lemma index_entries_append: "length seps \<le> length ess \<Longrightarrow> index_entries k (ess @ ess') seps = index_entries k ess seps"
  by (auto simp: index_entries_def handle_at_append intro!: map_cong)

lemma index_entries_snoc:
  "index_entries k ess (seps @ [sep]) = index_entries k ess seps @ [(sep, handle_bytes (handle_at k ess (length seps)))]"
  by (auto simp: index_entries_def nth_append intro!: map_cong)

lemma filter_blocks_AddKey:
  "filter_of_blocks policy (filter_blocks k ess (cur @ [(key, val)])) = AddKey (filter_of_blocks policy (filter_blocks k ess cur)) key"
  by (simp add: filter_of_blocks_def filter_blocks_def add_block_def)

lemma filter_blocks_StartBlock:
  "filter_of_blocks policy (filter_blocks k (ess @ [cur]) []) =
     StartBlock policy (filter_of_blocks policy (filter_blocks k ess cur)) (of_nat (length (data_bytes k (ess @ [cur]))))"
proof -
  have "map (\<lambda>i. (of_nat (length (data_bytes k (take i (ess @ [cur])))) :: uint64, map fst ((ess @ [cur]) ! i))) [0..<length ess] =
      map (\<lambda>i. (of_nat (length (data_bytes k (take i ess))), map fst (ess ! i))) [0..<length ess]"
    by (rule map_cong) (auto simp: nth_append)
  then have "filter_blocks k (ess @ [cur]) [] = filter_blocks k ess cur @ [(of_nat (length (data_bytes k (ess @ [cur]))), [])]"
    by (simp add: filter_blocks_def nth_append)
  then show ?thesis by (simp add: filter_of_blocks_def add_block_def)
qed

section \<open>Writing blocks\<close>

lemma Reset_new: "BlockBuilder_Reset b = BlockBuilder_new"
  by (simp add: BlockBuilder_Reset_def BlockBuilder_new_def)

lemma build_Nil: "build k [] = BlockBuilder_new"
  by (simp add: build_def)

lemma build_empty:
  assumes "0 < k"
  shows "BlockBuilder_empty (build k es) \<longleftrightarrow> es = []"
proof (cases es rule: rev_cases)
  case Nil
  then show ?thesis by (simp add: BlockBuilder_empty_def build_def BlockBuilder_new_def)
next
  case (snoc ys y)
  have "e_all k es (length es) \<noteq> []" using length_e_bytes [of k es "length ys"] by (auto simp: snoc e_all_Suc)
  then show ?thesis using build_layout [OF assms, of es] snoc by (simp add: BlockBuilder_empty_def)
qed

lemma WriteBlock_raw:
  "WriteBlock W r b =
     (let (h, r) = WriteRawBlock W r (fst (BlockBuilder_Finish b)) kNoCompression in (h, BlockBuilder_new, r))"
  by (simp add: WriteBlock_def Snappy_Compress_def Reset_new BlockBuilder_Finish_def Let_def split: CompressionType.split)

lemma WriteRawBlock_keeps:
  assumes "WriteRawBlock W r bs type = (h, r')"
  shows "h = \<lparr>bh_offset = tb_offset r, bh_size = of_nat (length bs)\<rparr>"
    and "tb_options r' = tb_options r" and "tb_index_block_options r' = tb_index_block_options r"
    and "tb_data_block r' = tb_data_block r" and "tb_index_block r' = tb_index_block r" and "tb_last_key r' = tb_last_key r"
    and "tb_num_entries r' = tb_num_entries r" and "tb_filter_block r' = tb_filter_block r"
    and "tb_pending_index_entry r' = tb_pending_index_entry r" and "tb_pending_handle r' = tb_pending_handle r"
  using assms by (auto simp: WriteRawBlock_def Let_def split: prod.splits if_splits)

lemma Extend_Value: "crc32c_Extend (crc32c_Value bs) cs = crc32c_Value (bs @ cs)"
  by (simp add: crc32c_Value_Extend crc32c_Extend_def Extend_spec crc_spec_append)

text \<open>The builder on a file of the interface.\<close>

locale table_writer = writable_file "wo_Append W" "wo_Flush W" written disk inv
  for W :: "'f wfile_ops" and written disk :: "'f \<Rightarrow> byte list" and inv :: "'f \<Rightarrow> bool"
begin

lemma WriteRawBlock_appends:
  assumes "inv (tb_file r)" and "WriteRawBlock W r bs kNoCompression = (h, r')"
  shows "inv (tb_file r') \<and> (TableBuilder_ok r' \<longrightarrow> written (tb_file r') = written (tb_file r) @ framed bs \<and>
    tb_offset r' = tb_offset r + of_nat (length (framed bs)))"
proof -
  obtain s1 f1 where a1: "wo_Append W (tb_file r) bs = (s1, f1)" by fastforce
  note e1 = append_effect [OF assms(1) a1]
  let ?t = "0 # EncodeFixed32 True (Mask (crc32c_Extend (crc32c_Value bs) [0]))"
  obtain s2 f2 where a2: "wo_Append W f1 ?t = (s2, f2)" by fastforce
  have "bs @ ?t = framed bs" by (simp add: framed_def EncodeFixed_bytes Extend_Value)
  with append_effect [OF _ a2] e1 a1 a2 assms(2) show ?thesis
    by (auto simp: WriteRawBlock_def Let_def TableBuilder_ok_def add.assoc split: if_splits)
qed

end

section \<open>The invariant\<close>

text \<open>The index keys separate the blocks.\<close>

definition separated :: "comparator_ops \<Rightarrow> (slice \<Rightarrow> bool) \<Rightarrow> (slice \<times> slice) list list \<Rightarrow> slice list \<Rightarrow> bool" where
  "separated C ok ess seps \<longleftrightarrow> (\<forall>i < length seps. ok (seps ! i) \<and> co_Compare C (fst (last (ess ! i))) (seps ! i) \<le> 0 \<and>
     (Suc i < length ess \<longrightarrow> seps ! i = co_FindShortestSeparator C (fst (last (ess ! i))) (fst (hd (ess ! Suc i))) \<and>
        co_Compare C (seps ! i) (fst (hd (ess ! Suc i))) < 0))"

lemma separated_snoc:
  "separated C ok ess (seps @ [sep]) \<longleftrightarrow> separated C ok ess seps \<and> ok sep \<and>
     co_Compare C (fst (last (ess ! length seps))) sep \<le> 0 \<and>
     (Suc (length seps) < length ess \<longrightarrow>
        sep = co_FindShortestSeparator C (fst (last (ess ! length seps))) (fst (hd (ess ! Suc (length seps)))) \<and>
        co_Compare C sep (fst (hd (ess ! Suc (length seps)))) < 0)"
  by (auto simp: separated_def nth_append less_Suc_eq)

lemma separated_cong:
  assumes "separated C ok ess seps" and "length ess = length ess'" and "\<forall>i < length seps. last (ess ! i) = last (ess' ! i)"
    and "\<forall>i. 0 < i \<and> i < length ess \<longrightarrow> hd (ess ! i) = hd (ess' ! i)"
  shows "separated C ok ess' seps"
  using assms by (auto simp: separated_def)

definition builder_key :: "(slice \<times> slice) list \<Rightarrow> slice" where
  "builder_key es = (if es = [] then [] else fst (last es))"

text \<open>The blocks in the file, the entries of the block that is being built, and the index keys. A block whose index key is
  pending is the last one, and no entry has been added since.\<close>

context table_writer
begin

definition tb_inv ::
  "Options \<Rightarrow> (slice \<Rightarrow> bool) \<Rightarrow> 'f TableBuilder \<Rightarrow> (slice \<times> slice) list list \<Rightarrow> (slice \<times> slice) list \<Rightarrow> slice list \<Rightarrow> bool" where
  "tb_inv opt ok r ess cur seps \<longleftrightarrow>
     (let k = op_block_restart_interval opt
      in tb_options r = opt \<and> tb_index_block_options r = opt\<lparr>op_block_restart_interval := 1\<rparr> \<and> inv (tb_file r) \<and>
         written (tb_file r) = data_bytes k ess \<and> tb_offset r = of_nat (length (data_bytes k ess)) \<and>
         tb_data_block r = build k cur \<and> tb_index_block r = build 1 (index_entries k ess seps) \<and>
         tb_last_key r = builder_key (concat ess @ cur) \<and> tb_num_entries r = of_nat (length (concat ess @ cur)) \<and>
         tb_filter_block r = map_option (\<lambda>p. (p, filter_of_blocks p (filter_blocks k ess cur))) (op_filter_policy opt) \<and>
         (\<forall>es \<in> set ess. es \<noteq> []) \<and>
         (if tb_pending_index_entry r
          then cur = [] \<and> length ess = Suc (length seps) \<and> tb_pending_handle r = handle_at k ess (length seps)
          else length seps = length ess \<and> (ess \<noteq> [] \<longrightarrow> cur \<noteq> [])) \<and>
         separated (op_comparator opt) ok (if cur = [] then ess else ess @ [cur]) seps)"

lemma tb_inv_new:
  assumes "inv f" and "written f = []"
  shows "tb_inv opt ok (TableBuilder_new opt f) [] [] []"
  using assms
  by (auto simp: tb_inv_def TableBuilder_new_def Let_def data_bytes_def build_def index_entries_def builder_key_def
      filter_of_blocks_def filter_blocks_def add_block_def separated_def option.map_comp comp_def)

text \<open>Writing out the block that is being built.\<close>

lemma tb_inv_Flush:
  assumes "tb_inv opt ok r ess cur seps" and "0 < op_block_restart_interval opt" and "TableBuilder_ok (TableBuilder_Flush W r)"
    and "cur \<noteq> []"
  shows "tb_inv opt ok (TableBuilder_Flush W r) (ess @ [cur]) [] seps \<and> tb_pending_index_entry (TableBuilder_Flush W r)"
proof -
  let ?k = "op_block_restart_interval opt"
  note I = assms(1) [unfolded tb_inv_def Let_def]
  have ok: "TableBuilder_ok r" using assms(3) by (auto simp: TableBuilder_Flush_def split: if_splits)
  have ne: "\<not> BlockBuilder_empty (tb_data_block r)" using I assms(4) build_empty [OF assms(2)] by simp
  have np: "\<not> tb_pending_index_entry r" "length seps = length ess" using I assms(4) by (auto split: if_splits)
  obtain h r1 where w: "WriteRawBlock W r (block_bytes ?k cur) kNoCompression = (h, r1)" by fastforce
  have fin: "fst (BlockBuilder_Finish (tb_data_block r)) = block_bytes ?k cur" using I Finish_block [OF assms(2)] by simp
  note keep = WriteRawBlock_keeps [OF w]
  have app: "inv (tb_file r1) \<and> (TableBuilder_ok r1 \<longrightarrow> written (tb_file r1) = written (tb_file r) @ framed (block_bytes ?k cur) \<and>
    tb_offset r1 = tb_offset r + of_nat (length (framed (block_bytes ?k cur))))" using WriteRawBlock_appends [OF _ w] I by blast
  obtain s f where fl: "wo_Flush W (tb_file r1) = (s, f)" by fastforce
  define r2 where "r2 = r1\<lparr>tb_data_block := BlockBuilder_new, tb_pending_handle := h, tb_pending_index_entry := True,
      tb_status := s, tb_file := f,
      tb_filter_block := map_option (\<lambda>(policy, b). (policy, StartBlock policy b (tb_offset r1))) (tb_filter_block r1)\<rparr>"
  have F: "TableBuilder_ok r1 \<and> TableBuilder_Flush W r = r2"
    using assms(3) ok ne w fl unfolding TableBuilder_Flush_def r2_def WriteBlock_raw fin
    by (auto simp: Let_def TableBuilder_ok_def split: if_splits)
  then have S: "Status_ok s" using assms(3) by (simp add: r2_def TableBuilder_ok_def)
  have fl': "inv f \<and> written f = written (tb_file r1)" using flush_effect [OF _ fl] app S by blast
  have off: "tb_offset r1 = of_nat (length (data_bytes ?k (ess @ [cur])))" using app F I by (simp add: data_bytes_snoc)
  have h: "h = handle_at ?k (ess @ [cur]) (length ess)" using keep(1) I by (simp add: handle_at_def)
  have filt: "map_option (\<lambda>(policy, b). (policy, StartBlock policy b (tb_offset r1))) (tb_filter_block r) =
      map_option (\<lambda>p. (p, filter_of_blocks p (filter_blocks ?k (ess @ [cur]) []))) (op_filter_policy opt)"
    using I off by (simp add: option.map_comp comp_def filter_blocks_StartBlock)
  have "tb_inv opt ok r2 (ess @ [cur]) [] seps"
    unfolding tb_inv_def Let_def
    using I keep(2-) off h filt fl' app F np assms(4)
    by (simp add: r2_def data_bytes_snoc build_Nil index_entries_append)
  with F show ?thesis by (simp add: r2_def)
qed

lemma separated_append: "separated C ok ess seps \<Longrightarrow> length seps < length ess \<Longrightarrow> separated C ok (ess @ [es]) seps"
  by (auto simp: separated_def nth_append)

lemma concat_last:
  assumes "length ess = Suc n" and "\<forall>es \<in> set ess. es \<noteq> []"
  shows "concat ess \<noteq> []" and "last (concat ess) = last (ess ! n)" and "last (ess ! n) \<in> set (concat ess)"
proof -
  obtain ess' es where e: "ess = ess' @ [es]" using assms(1) by (metis length_Suc_conv_rev)
  then have "es \<noteq> []" "ess ! n = es" using assms by auto
  then show "concat ess \<noteq> []" "last (concat ess) = last (ess ! n)" "last (ess ! n) \<in> set (concat ess)" using e by auto
qed

lemma tb_inv_Add:
  assumes "tb_inv opt ok r ess cur seps" and "0 < op_block_restart_interval opt" and "comparator (op_comparator opt) ok"
    and "ok key" and "\<forall>e \<in> set (concat ess @ cur). ok (fst e)"
    and "concat ess @ cur \<noteq> [] \<longrightarrow> co_Compare (op_comparator opt) (builder_key (concat ess @ cur)) key < 0"
    and "TableBuilder_ok (TableBuilder_Add W r key val)"
  shows "\<exists>ess' cur' seps'. tb_inv opt ok (TableBuilder_Add W r key val) ess' cur' seps' \<and> concat ess' @ cur' = (concat ess @ cur) @ [(key, val)]"
proof -
  let ?k = "op_block_restart_interval opt" and ?C = "op_comparator opt"
  note I = assms(1) [unfolded tb_inv_def Let_def]
  have ok: "TableBuilder_ok r" using assms(7) by (auto simp: TableBuilder_Add_def split: if_splits)
  define sep where "sep = co_FindShortestSeparator ?C (builder_key (concat ess @ cur)) key"
  define seps' where "seps' = (if tb_pending_index_entry r then seps @ [sep] else seps)"
  define r1 where "r1 =
      (if tb_pending_index_entry r then r\<lparr>tb_index_block := build 1 (index_entries ?k ess seps'), tb_pending_index_entry := False\<rparr> else r)
      \<lparr>tb_filter_block := map_option (\<lambda>(policy, b). (policy, AddKey b key)) (tb_filter_block r), tb_last_key := key,
      tb_num_entries := tb_num_entries r + 1, tb_data_block := build ?k (cur @ [(key, val)])\<rparr>"
  have A: "TableBuilder_Add W r key val =
      (if CurrentSizeEstimate (tb_data_block r1) \<ge> unat (op_block_size opt) then TableBuilder_Flush W r1 else r1)"
  proof -
    have f: "tb_options r = opt" "op_block_restart_interval (tb_index_block_options r) = 1" "tb_last_key r = builder_key (concat ess @ cur)"
      "tb_data_block r = build ?k cur" "tb_index_block r = build 1 (index_entries ?k ess seps)"
      "tb_pending_index_entry r \<Longrightarrow> tb_pending_handle r = handle_at ?k ess (length seps)" using I by auto
    show ?thesis
      using ok f(6) unfolding TableBuilder_Add_def Let_def r1_def seps'_def sep_def
      by (cases "tb_pending_index_entry r") (simp_all add: f(1-5) build_snoc index_entries_snoc BlockHandle_EncodeTo_bytes)
  qed
  have seps: "separated ?C ok (ess @ [cur @ [(key, val)]]) seps'"
  proof (cases "tb_pending_index_entry r")
    case True
    then have p: "cur = []" "length ess = Suc (length seps)" "\<forall>es \<in> set ess. es \<noteq> []" "separated ?C ok ess seps" using I by auto
    note l = concat_last [OF p(2,3)]
    have bk: "builder_key (concat ess @ cur) = fst (last (ess ! length seps))" "concat ess @ cur \<noteq> []"
      "last (ess ! length seps) \<in> set (concat ess @ cur)" using p(1) l by (auto simp: builder_key_def)
    then have "ok (builder_key (concat ess @ cur)) \<and> co_Compare ?C (builder_key (concat ess @ cur)) key < 0" using assms(5,6) by metis
    then have "ok sep \<and> co_Compare ?C (fst (last (ess ! length seps))) sep \<le> 0 \<and> co_Compare ?C sep key < 0 \<and>
        sep = co_FindShortestSeparator ?C (fst (last (ess ! length seps))) key"
      using comparator.separator [OF assms(3) _ assms(4)] unfolding sep_def bk(1) [symmetric] by blast
    then show ?thesis using True p separated_append [OF p(4)] by (auto simp: seps'_def separated_snoc nth_append)
  next
    case False
    show ?thesis
    proof (cases "cur = []")
      case True
      then show ?thesis using False I by (auto simp: seps'_def separated_def)
    next
      case cur: False
      then have "separated ?C ok (ess @ [cur]) seps" "length seps = length ess" using I False by auto
      then show ?thesis using False cur
        by (auto simp: seps'_def nth_append less_Suc_eq intro!: separated_cong [of _ _ "ess @ [cur]"])
    qed
  qed
  have inv1: "tb_inv opt ok r1 ess (cur @ [(key, val)]) seps'"
    unfolding tb_inv_def Let_def using I seps
    by (auto simp: r1_def seps'_def builder_key_def option.map_comp comp_def filter_blocks_AddKey split: if_splits)
  show ?thesis
  proof (cases "CurrentSizeEstimate (tb_data_block r1) \<ge> unat (op_block_size opt)")
    case True
    then show ?thesis using tb_inv_Flush [OF inv1 assms(2)] assms(7) A
      by (intro exI [of _ "ess @ [cur @ [(key, val)]]"] exI [of _ "[]"] exI [of _ seps']) simp
  next
    case False
    then show ?thesis using inv1 A
      by (intro exI [of _ ess] exI [of _ "cur @ [(key, val)]"] exI [of _ seps']) simp
  qed
qed

end

section \<open>Building a table\<close>

definition add_entries :: "'f wfile_ops \<Rightarrow> 'f TableBuilder \<Rightarrow> (slice \<times> slice) list \<Rightarrow> 'f TableBuilder" where
  "add_entries W r es = foldl (\<lambda>r (key, val). TableBuilder_Add W r key val) r es"

lemma Add_ok: "TableBuilder_ok (TableBuilder_Add W r key val) \<Longrightarrow> TableBuilder_ok r"
  by (auto simp: TableBuilder_Add_def split: if_splits)

text \<open>The filter, the metaindex and the whole file.\<close>

definition filter_bytes :: "filter_ops \<Rightarrow> nat \<Rightarrow> (slice \<times> slice) list list \<Rightarrow> byte list" where
  "filter_bytes p k ess = fst (FilterBlock_Finish p (filter_of_blocks p (filter_blocks k ess [])))"

definition filter_handle :: "filter_ops \<Rightarrow> nat \<Rightarrow> (slice \<times> slice) list list \<Rightarrow> BlockHandle" where
  "filter_handle p k ess = \<lparr>bh_offset = of_nat (length (data_bytes k ess)), bh_size = of_nat (length (filter_bytes p k ess))\<rparr>"

definition filter_part :: "filter_ops option \<Rightarrow> nat \<Rightarrow> (slice \<times> slice) list list \<Rightarrow> byte list" where
  "filter_part policy k ess = (case policy of None \<Rightarrow> [] | Some p \<Rightarrow> framed (filter_bytes p k ess))"

definition meta_entries :: "filter_ops option \<Rightarrow> nat \<Rightarrow> (slice \<times> slice) list list \<Rightarrow> (slice \<times> slice) list" where
  "meta_entries policy k ess = (case policy of None \<Rightarrow> [] | Some p \<Rightarrow> [(str ''filter.'' @ fo_Name p, handle_bytes (filter_handle p k ess))])"

definition table_footer :: "byte list \<Rightarrow> byte list \<Rightarrow> byte list \<Rightarrow> Footer" where
  "table_footer front meta index =
     \<lparr>ft_metaindex_handle = \<lparr>bh_offset = of_nat (length front), bh_size = of_nat (length meta)\<rparr>,
      ft_index_handle = \<lparr>bh_offset = of_nat (length (front @ framed meta)), bh_size = of_nat (length index)\<rparr>\<rparr>"

definition table_bytes :: "Options \<Rightarrow> (slice \<times> slice) list list \<Rightarrow> slice list \<Rightarrow> byte list" where
  "table_bytes opt ess seps =
     (let k = op_block_restart_interval opt;
          front = data_bytes k ess @ filter_part (op_filter_policy opt) k ess;
          meta = block_bytes k (meta_entries (op_filter_policy opt) k ess);
          index = block_bytes 1 (index_entries k ess seps)
      in front @ framed meta @ framed index @ footer_bytes (table_footer front meta index))"

context table_writer
begin

lemma tb_inv_adds:
  assumes "inv f" and "written f = []" and "0 < op_block_restart_interval opt" and "comparator (op_comparator opt) ok"
    and "entries_ok (co_Compare (op_comparator opt)) ok es" and "TableBuilder_ok (add_entries W (TableBuilder_new opt f) es)"
  shows "\<exists>ess cur seps. tb_inv opt ok (add_entries W (TableBuilder_new opt f) es) ess cur seps \<and> concat ess @ cur = es"
  using assms(5,6)
proof (induction es rule: rev_induct)
  case Nil
  show ?case using tb_inv_new [OF assms(1,2)] by (intro exI [of _ "[]"]) (simp add: add_entries_def)
next
  case (snoc e es)
  obtain key val where e: "e = (key, val)" by fastforce
  let ?r = "add_entries W (TableBuilder_new opt f) es"
  have r: "add_entries W (TableBuilder_new opt f) (es @ [e]) = TableBuilder_Add W ?r key val" by (simp add: add_entries_def e)
  have "entries_ok (co_Compare (op_comparator opt)) ok es" and k: "ok key" "\<forall>e \<in> set es. ok (fst e)"
    "es \<noteq> [] \<longrightarrow> co_Compare (op_comparator opt) (builder_key es) key < 0"
    using snoc.prems(1) by (auto simp: entries_ok_def sorted_wrt_append e builder_key_def list_all_iff)
  moreover have "TableBuilder_ok ?r" using Add_ok snoc.prems(2) unfolding r by blast
  ultimately obtain ess cur seps where I: "tb_inv opt ok ?r ess cur seps" "concat ess @ cur = es" using snoc.IH by blast
  from tb_inv_Add [OF I(1) assms(3,4) k(1)] k(2,3) snoc.prems(2) show ?case unfolding r I(2) unfolding e by blast
qed

lemma finish_filter_effect:
  assumes "finish_filter W r = (h, r')" and "TableBuilder_ok r'" and "inv (tb_file r)"
    and "tb_filter_block r = map_option (\<lambda>p. (p, F p)) policy"
    and "part = (case policy of None \<Rightarrow> [] | Some p \<Rightarrow> framed (fst (FilterBlock_Finish p (F p))))"
  shows "TableBuilder_ok r \<and> inv (tb_file r') \<and> written (tb_file r') = written (tb_file r) @ part \<and>
    tb_offset r' = tb_offset r + of_nat (length part) \<and> map_option fst (tb_filter_block r') = policy \<and>
    (\<forall>p. policy = Some p \<longrightarrow> h = \<lparr>bh_offset = tb_offset r, bh_size = of_nat (length (fst (FilterBlock_Finish p (F p))))\<rparr>) \<and>
    tb_options r' = tb_options r \<and> tb_index_block_options r' = tb_index_block_options r \<and>
    tb_index_block r' = tb_index_block r \<and> tb_last_key r' = tb_last_key r \<and>
    tb_pending_index_entry r' = tb_pending_index_entry r \<and> tb_pending_handle r' = tb_pending_handle r"
proof (cases policy)
  case None
  then show ?thesis using assms by (simp add: finish_filter_def)
next
  case (Some p)
  obtain c b where c: "FilterBlock_Finish p (F p) = (c, b)" by fastforce
  have ok: "TableBuilder_ok r" using assms(1,2,4) Some by (auto simp: finish_filter_def split: if_splits)
  have w: "WriteRawBlock W (r\<lparr>tb_filter_block := Some (p, b)\<rparr>) c kNoCompression = (h, r')"
    using assms(1,4) ok c Some by (simp add: finish_filter_def)
  show ?thesis using WriteRawBlock_appends [OF _ w] WriteRawBlock_keeps [OF w] ok assms(2,3,5) Some c by simp
qed

lemma finish_metaindex_effect:
  assumes "finish_metaindex W fh r = (h, r')" and "TableBuilder_ok r'" and "inv (tb_file r)" and "0 < k"
    and "k = op_block_restart_interval (tb_options r)" and "map_option fst (tb_filter_block r) = op_filter_policy (tb_options r)"
    and "meta = block_bytes k (case op_filter_policy (tb_options r) of None \<Rightarrow> [] | Some p \<Rightarrow> [(str ''filter.'' @ fo_Name p, handle_bytes fh)])"
  shows "TableBuilder_ok r \<and> inv (tb_file r') \<and> written (tb_file r') = written (tb_file r) @ framed meta \<and>
    tb_offset r' = tb_offset r + of_nat (length (framed meta)) \<and> h = \<lparr>bh_offset = tb_offset r, bh_size = of_nat (length meta)\<rparr> \<and>
    tb_options r' = tb_options r \<and> tb_index_block_options r' = tb_index_block_options r \<and>
    tb_index_block r' = tb_index_block r \<and> tb_last_key r' = tb_last_key r \<and>
    tb_pending_index_entry r' = tb_pending_index_entry r \<and> tb_pending_handle r' = tb_pending_handle r"
proof -
  let ?es = "case op_filter_policy (tb_options r) of None \<Rightarrow> [] | Some p \<Rightarrow> [(str ''filter.'' @ fo_Name p, handle_bytes fh)]"
  have ok: "TableBuilder_ok r" using assms(1,2) by (auto simp: finish_metaindex_def split: if_splits)
  have b: "(case tb_filter_block r of
       Some (policy, b) \<Rightarrow> BlockBuilder_Add k BlockBuilder_new
         (str ''filter.'' @ (case op_filter_policy (tb_options r) of Some p \<Rightarrow> fo_Name p | None \<Rightarrow> [])) (BlockHandle_EncodeTo fh [])
     | None \<Rightarrow> BlockBuilder_new) = build k ?es"
    using assms(6) by (cases "tb_filter_block r") (auto simp: build_def BlockHandle_EncodeTo_bytes split: option.splits)
  have w: "WriteRawBlock W r meta kNoCompression = (h, r')"
    using assms(1) ok unfolding finish_metaindex_def Let_def assms(5) [symmetric] b WriteBlock_raw Finish_block [OF assms(4)] assms(7)
    by (auto split: prod.splits)
  show ?thesis using WriteRawBlock_appends [OF assms(3) w] WriteRawBlock_keeps [OF w] ok assms(2) by simp
qed

lemma finish_index_effect:
  assumes "finish_index W r = (h, r')" and "TableBuilder_ok r'" and "inv (tb_file r)"
    and "op_block_restart_interval (tb_index_block_options r) = 1" and "tb_index_block r = build 1 es"
    and "es' = es @ (if tb_pending_index_entry r
         then [(co_FindShortSuccessor (op_comparator (tb_options r)) (tb_last_key r), handle_bytes (tb_pending_handle r))] else [])"
    and "index = block_bytes 1 es'"
  shows "TableBuilder_ok r \<and> inv (tb_file r') \<and> written (tb_file r') = written (tb_file r) @ framed index \<and>
    tb_offset r' = tb_offset r + of_nat (length (framed index)) \<and> h = \<lparr>bh_offset = tb_offset r, bh_size = of_nat (length index)\<rparr>"
proof -
  have ok: "TableBuilder_ok r" using assms(1,2) by (auto simp: finish_index_def split: if_splits)
  define r1 where "r1 = (if tb_pending_index_entry r then
      let last_key = co_FindShortSuccessor (op_comparator (tb_options r)) (tb_last_key r);
          handle_encoding = BlockHandle_EncodeTo (tb_pending_handle r) []
      in r\<lparr>tb_last_key := last_key,
           tb_index_block := BlockBuilder_Add (op_block_restart_interval (tb_index_block_options r)) (tb_index_block r) last_key handle_encoding,
           tb_pending_index_entry := False\<rparr>
      else r)"
  have r1: "tb_index_block r1 = build 1 es'" "tb_file r1 = tb_file r" "tb_offset r1 = tb_offset r"
    using assms(4-6) by (auto simp: r1_def Let_def build_snoc BlockHandle_EncodeTo_bytes)
  obtain r2 where w: "WriteRawBlock W r1 index kNoCompression = (h, r2)" and r': "r' = r2\<lparr>tb_index_block := BlockBuilder_new\<rparr>"
    using assms(1) ok unfolding finish_index_def r1_def [symmetric] if_P [OF ok] Let_def [of r1] WriteBlock_raw r1(1)
      Finish_block [of 1, OF zero_less_one] assms(7)
    by (auto split: prod.splits)
  show ?thesis
    using WriteRawBlock_appends [OF _ w] WriteRawBlock_keeps [OF w] ok assms(2,3) r1(2,3) by (simp add: r' TableBuilder_ok_def)
qed

lemma finish_footer_effect:
  assumes "finish_footer W mh ih r = r'" and "TableBuilder_ok r'" and "inv (tb_file r)"
    and "footer = footer_bytes \<lparr>ft_metaindex_handle = mh, ft_index_handle = ih\<rparr>"
  shows "TableBuilder_ok r \<and> inv (tb_file r') \<and> written (tb_file r') = written (tb_file r) @ footer \<and>
    tb_offset r' = tb_offset r + of_nat (length footer)"
proof -
  obtain s f where a: "wo_Append W (tb_file r) footer = (s, f)" by fastforce
  show ?thesis
    using assms(1,2) append_effect [OF assms(3) a] a
    by (auto simp: finish_footer_def assms(4) footer_bytes_def Let_def TableBuilder_ok_def split: if_splits)
qed

lemma Flush_all:
  assumes "tb_inv opt ok r ess cur seps" and "0 < op_block_restart_interval opt" and "TableBuilder_ok (TableBuilder_Flush W r)"
  shows "\<exists>ess'. tb_inv opt ok (TableBuilder_Flush W r) ess' [] seps \<and> concat ess' = concat ess @ cur"
proof (cases "cur = []")
  case True
  then have "BlockBuilder_empty (tb_data_block r)" using assms(1) build_empty [OF assms(2), of cur] by (simp add: tb_inv_def Let_def)
  then have "TableBuilder_Flush W r = r" by (simp add: TableBuilder_Flush_def)
  with True assms(1) show ?thesis by auto
next
  case False
  with tb_inv_Flush [OF assms] show ?thesis by (intro exI [of _ "ess @ [cur]"]) simp
qed

lemma Finish_effect:
  assumes "tb_inv opt ok r ess [] seps" and "0 < op_block_restart_interval opt" and "comparator (op_comparator opt) ok"
    and "\<forall>e \<in> set (concat ess). ok (fst e)" and "finish_filter W (r\<lparr>tb_closed := True\<rparr>) = (fh, r1)" and "finish_metaindex W fh r1 = (mh, r2)"
    and "finish_index W r2 = (ih, r3)" and "finish_footer W mh ih r3 = r4" and "TableBuilder_ok r4"
  shows "\<exists>seps'. inv (tb_file r4) \<and> written (tb_file r4) = table_bytes opt ess seps' \<and> length seps' = length ess \<and>
    separated (op_comparator opt) ok ess seps' \<and> tb_offset r4 = of_nat (length (table_bytes opt ess seps')) \<and>
    (seps' \<noteq> [] \<longrightarrow> last seps' = co_FindShortSuccessor (op_comparator opt) (fst (last (concat ess))))"
proof -
  let ?k = "op_block_restart_interval opt" and ?C = "op_comparator opt" and ?p = "op_filter_policy opt"
  define meta where "meta = block_bytes ?k (meta_entries ?p ?k ess)"
  define front where "front = data_bytes ?k ess @ filter_part ?p ?k ess"
  define seps' where "seps' = seps @ (if tb_pending_index_entry r then [co_FindShortSuccessor ?C (tb_last_key r)] else [])"
  define index where "index = block_bytes 1 (index_entries ?k ess seps')"
  define footer where "footer = footer_bytes \<lparr>ft_metaindex_handle = mh, ft_index_handle = ih\<rparr>"
  note I = assms(1) [unfolded tb_inv_def Let_def]
  have ok3: "TableBuilder_ok r3" and ok2: "TableBuilder_ok r2" and ok1: "TableBuilder_ok r1"
    using assms(6-9) by (auto simp: finish_footer_def finish_index_def finish_metaindex_def split: if_splits)
  have F: "inv (tb_file r1) \<and> written (tb_file r1) = front \<and> tb_offset r1 = of_nat (length front) \<and>
    map_option fst (tb_filter_block r1) = ?p \<and> (\<forall>p. ?p = Some p \<longrightarrow> fh = filter_handle p ?k ess) \<and>
    tb_options r1 = opt \<and> tb_index_block_options r1 = tb_index_block_options r \<and>
    tb_index_block r1 = tb_index_block r \<and> tb_last_key r1 = tb_last_key r \<and>
    tb_pending_index_entry r1 = tb_pending_index_entry r \<and> tb_pending_handle r1 = tb_pending_handle r"
  proof -
    let ?r = "r\<lparr>tb_closed := True\<rparr>"
    have "inv (tb_file ?r)" "tb_filter_block ?r = map_option (\<lambda>p. (p, filter_of_blocks p (filter_blocks ?k ess []))) ?p" using I by simp_all
    from finish_filter_effect [OF assms(5) ok1 this filter_part_def [unfolded filter_bytes_def]] show ?thesis
      using I by (simp add: front_def filter_bytes_def filter_handle_def)
  qed
  have m: "meta = block_bytes ?k (case ?p of None \<Rightarrow> [] | Some p \<Rightarrow> [(str ''filter.'' @ fo_Name p, handle_bytes fh)])"
    using F by (auto simp: meta_def meta_entries_def split: option.splits)
  have M: "inv (tb_file r2) \<and> written (tb_file r2) = front @ framed meta \<and> tb_offset r2 = of_nat (length (front @ framed meta)) \<and>
    mh = \<lparr>bh_offset = of_nat (length front), bh_size = of_nat (length meta)\<rparr> \<and> tb_options r2 = opt \<and>
    tb_index_block_options r2 = tb_index_block_options r \<and> tb_index_block r2 = tb_index_block r \<and> tb_last_key r2 = tb_last_key r \<and>
    tb_pending_index_entry r2 = tb_pending_index_entry r \<and> tb_pending_handle r2 = tb_pending_handle r"
  proof -
    have "inv (tb_file r1)" and o: "tb_options r1 = opt" and "map_option fst (tb_filter_block r1) = ?p" using F by simp_all
    from finish_metaindex_effect [OF assms(6) ok2 this(1) assms(2) [folded o] refl _ m [folded o]] this show ?thesis using F by simp
  qed
  have X: "inv (tb_file r3) \<and> written (tb_file r3) = front @ framed meta @ framed index \<and>
    tb_offset r3 = of_nat (length (front @ framed meta @ framed index)) \<and>
    ih = \<lparr>bh_offset = of_nat (length (front @ framed meta)), bh_size = of_nat (length index)\<rparr>"
  proof -
    have "index_entries ?k ess seps' = index_entries ?k ess seps @ (if tb_pending_index_entry r2
         then [(co_FindShortSuccessor (op_comparator (tb_options r2)) (tb_last_key r2), handle_bytes (tb_pending_handle r2))] else [])"
      using M I by (simp add: seps'_def index_entries_snoc)
    from finish_index_effect [OF assms(7) ok3 _ _ _ this index_def] M I show ?thesis by simp
  qed
  have t: "table_bytes opt ess seps' = front @ framed meta @ framed index @ footer"
  proof -
    have "footer = footer_bytes (table_footer front meta index)" using M X by (simp add: footer_def table_footer_def)
    then show ?thesis unfolding table_bytes_def Let_def front_def [symmetric] meta_def [symmetric] index_def [symmetric] by simp
  qed
  have "separated ?C ok ess seps' \<and> length seps' = length ess \<and> (seps' \<noteq> [] \<longrightarrow> last seps' = co_FindShortSuccessor ?C (fst (last (concat ess))))"
  proof (cases "tb_pending_index_entry r")
    case True
    then have p: "length ess = Suc (length seps)" "\<forall>es \<in> set ess. es \<noteq> []" "separated ?C ok ess seps" using I by auto
    note l = concat_last [OF p(1,2)]
    then have "tb_last_key r = fst (last (ess ! length seps))" "ok (tb_last_key r)" using I assms(4) by (auto simp: builder_key_def)
    with p True l comparator.successor [OF assms(3)] show ?thesis by (simp add: seps'_def separated_snoc)
  qed (use I in \<open>auto simp: seps'_def\<close>)
  with finish_footer_effect [OF assms(8,9) _ footer_def] X show ?thesis unfolding t by (intro exI [of _ seps']) (simp add: t)
qed

text \<open>A finished table holds the entries that were added, cut into blocks.\<close>

lemma table_written:
  assumes "inv f" and "written f = []" and "0 < op_block_restart_interval opt" and "comparator (op_comparator opt) ok"
    and "entries_ok (co_Compare (op_comparator opt)) ok es"
    and "TableBuilder_Finish W (add_entries W (TableBuilder_new opt f) es) = (s, r)" and "Status_ok s"
  shows "\<exists>ess seps. inv (tb_file r) \<and> written (tb_file r) = table_bytes opt ess seps \<and> concat ess = es \<and> (\<forall>b \<in> set ess. b \<noteq> []) \<and>
    length seps = length ess \<and> separated (op_comparator opt) ok ess seps \<and> FileSize r = of_nat (length (table_bytes opt ess seps)) \<and>
    (seps \<noteq> [] \<longrightarrow> last seps = co_FindShortSuccessor (op_comparator opt) (fst (last es)))"
proof -
  let ?r = "add_entries W (TableBuilder_new opt f) es"
  let ?rf = "TableBuilder_Flush W ?r"
  obtain fh r1 where f1: "finish_filter W (?rf\<lparr>tb_closed := True\<rparr>) = (fh, r1)" by fastforce
  obtain mh r2 where f2: "finish_metaindex W fh r1 = (mh, r2)" by fastforce
  obtain ih r3 where f3: "finish_index W r2 = (ih, r3)" by fastforce
  have f4: "finish_footer W mh ih r3 = r" and s: "s = tb_status r"
    using assms(6) f1 f2 f3 by (auto simp: TableBuilder_Finish_def Let_def)
  have ok: "TableBuilder_ok r" using assms(7) s by (simp add: TableBuilder_ok_def)
  then have "TableBuilder_ok r3" using f4 by (auto simp: finish_footer_def split: if_splits)
  then have "TableBuilder_ok r2" using f3 by (auto simp: finish_index_def split: if_splits)
  then have "TableBuilder_ok r1" using f2 by (auto simp: finish_metaindex_def split: if_splits)
  then have okf: "TableBuilder_ok ?rf"
    using f1 by (auto simp: finish_filter_def TableBuilder_ok_def split: if_splits option.splits)
  then have "TableBuilder_ok ?r" by (auto simp: TableBuilder_Flush_def split: if_splits)
  from tb_inv_adds [OF assms(1-5) this] obtain ess cur seps where
    "tb_inv opt ok ?r ess cur seps" and es: "concat ess @ cur = es" by blast
  from Flush_all [OF this(1) assms(3) okf] obtain ess' where
    I: "tb_inv opt ok ?rf ess' [] seps" and ess': "concat ess' = es" unfolding es by blast
  have "\<forall>e \<in> set (concat ess'). ok (fst e)" using assms(5) by (simp add: ess' entries_ok_def list_all_iff)
  from Finish_effect [OF I assms(3,4) this f1 f2 f3 f4 ok] I ess' show ?thesis
    unfolding FileSize_def tb_inv_def Let_def by blast
qed

end

interpretation posix_table: table_writer posix_ops wf_written wf_disk wf_inv
  using posix_file.writable_file_axioms by (simp add: table_writer_def posix_ops_def)

section \<open>On a file that does not fail\<close>

definition reliable :: "'f wfile_ops \<Rightarrow> ('f \<Rightarrow> bool) \<Rightarrow> bool" where
  "reliable W good \<longleftrightarrow> (\<forall>f. good f \<longrightarrow> (\<forall>data. Status_ok (fst (wo_Append W f data)) \<and> good (snd (wo_Append W f data))) \<and>
     Status_ok (fst (wo_Flush W f)) \<and> good (snd (wo_Flush W f)))"

definition going :: "('f \<Rightarrow> bool) \<Rightarrow> 'f TableBuilder \<Rightarrow> bool" where
  "going good r \<longleftrightarrow> TableBuilder_ok r \<and> good (tb_file r)"

lemma WriteRawBlock_going:
  assumes "reliable W good" and "good (tb_file r)" and "WriteRawBlock W r bs type = (h, r')"
  shows "going good r'"
  using assms by (auto simp: reliable_def going_def WriteRawBlock_def TableBuilder_ok_def Let_def split: prod.splits if_splits)
    (metis fst_conv snd_conv)+

lemma WriteBlock_going:
  assumes "reliable W good" and "good (tb_file r)" and "WriteBlock W r b = (h, b', r')"
  shows "going good r'"
  using assms(3) WriteRawBlock_going [OF assms(1,2)] by (auto simp: WriteBlock_raw Let_def split: prod.splits)

lemma Flush_going:
  assumes "reliable W good" and "going good r"
  shows "going good (TableBuilder_Flush W r)"
proof (cases "BlockBuilder_empty (tb_data_block r)")
  case False
  obtain h b r1 where w: "WriteBlock W r (tb_data_block r) = (h, b, r1)" by (metis prod_cases3)
  have "going good r1" using WriteBlock_going [OF assms(1) _ w] assms(2) by (simp add: going_def)
  with w assms False show ?thesis
    by (auto simp: TableBuilder_Flush_def Let_def going_def TableBuilder_ok_def reliable_def split: prod.splits)
qed (use assms in \<open>simp add: TableBuilder_Flush_def\<close>)

lemma Add_going:
  assumes "reliable W good" and "going good r"
  shows "going good (TableBuilder_Add W r key val)"
proof -
  have "going good r'" if "tb_status r' = tb_status r" "tb_file r' = tb_file r" for r'
    using assms(2) that by (simp add: going_def TableBuilder_ok_def)
  then show ?thesis
    using assms(2) unfolding TableBuilder_Add_def Let_def by (auto intro!: Flush_going [OF assms(1)])
qed

lemma add_entries_going: "reliable W good \<Longrightarrow> going good r \<Longrightarrow> going good (add_entries W r es)"
  by (induction es arbitrary: r) (auto simp: add_entries_def Add_going)

lemma finish_going:
  assumes "reliable W good" and "going good r"
  shows "finish_filter W r = (h, r') \<Longrightarrow> going good r'" and "finish_metaindex W fh r = (h, r') \<Longrightarrow> going good r'"
    and "finish_index W r = (h, r') \<Longrightarrow> going good r'" and "going good (finish_footer W mh ih r)"
proof -
  show "finish_filter W r = (h, r') \<Longrightarrow> going good r'"
    using assms(2) WriteRawBlock_going [OF assms(1), of "r\<lparr>tb_filter_block := Some (fst (the (tb_filter_block r)),
        snd (FilterBlock_Finish (fst (the (tb_filter_block r))) (snd (the (tb_filter_block r)))))\<rparr>"]
    by (auto simp: finish_filter_def going_def Let_def case_prod_unfold split: option.splits if_splits)
  show "finish_metaindex W fh r = (h, r') \<Longrightarrow> going good r'"
    using assms(2) WriteBlock_going [OF assms(1), of r]
    by (auto simp: finish_metaindex_def going_def Let_def split: prod.splits)
  show "finish_index W r = (h, r') \<Longrightarrow> going good r'"
  proof -
    have w: "going good (snd (snd (WriteBlock W r1 b)))" if "tb_file r1 = tb_file r" for r1 b
      using assms(2) that WriteBlock_going [OF assms(1), of r1 b] by (simp add: going_def) (metis prod.collapse)
    show "finish_index W r = (h, r') \<Longrightarrow> going good r'"
      using assms(2) w unfolding finish_index_def Let_def case_prod_unfold
      by (auto simp: going_def TableBuilder_ok_def split: if_splits)
  qed
  show "going good (finish_footer W mh ih r)"
    using assms by (auto simp: finish_footer_def going_def TableBuilder_ok_def reliable_def Let_def split: prod.splits)
      (metis fst_conv snd_conv)+
qed

lemma Finish_reliable:
  assumes "reliable W good" and "good f"
  shows "Status_ok (fst (TableBuilder_Finish W (add_entries W (TableBuilder_new opt f) es)))"
proof -
  let ?r = "(TableBuilder_Flush W (add_entries W (TableBuilder_new opt f) es))\<lparr>tb_closed := True\<rparr>"
  have "going good (TableBuilder_new opt f)" using assms(2) by (simp add: going_def TableBuilder_ok_def TableBuilder_new_def)
  from Flush_going [OF assms(1) add_entries_going [OF assms(1) this]]
  have g: "going good ?r" by (simp add: going_def TableBuilder_ok_def)
  obtain fh r1 where f1: "finish_filter W ?r = (fh, r1)" by fastforce
  obtain mh r2 where f2: "finish_metaindex W fh r1 = (mh, r2)" by fastforce
  obtain ih r3 where f3: "finish_index W r2 = (ih, r3)" by fastforce
  note fin = finish_going [OF assms(1)]
  have "going good (finish_footer W mh ih r3)" by (intro fin(4) fin(3) [OF _ f3] fin(2) [OF _ f2] fin(1) [OF g f1])
  then show ?thesis using f1 f2 f3 by (simp add: TableBuilder_Finish_def Let_def going_def TableBuilder_ok_def)
qed

lemma posix_reliable: "reliable posix_ops (\<lambda>f. os_answers (wf_os f) = [])"
proof -
  have w: "fst (WriteUnbuffered f data) = Status_OK \<and> os_answers (wf_os (snd (WriteUnbuffered f data))) = []"
    if "os_answers (wf_os f) = []" for f data
    using that by (simp add: WriteUnbuffered.simps [of f data] WriteUnbuffered.simps [of _ "[]"] sys_answer_def)
  have b: "fst (FlushBuffer f) = Status_OK \<and> os_answers (wf_os (snd (FlushBuffer f))) = []"
    if "os_answers (wf_os f) = []" for f
    using w [OF that] by (simp add: FlushBuffer_def case_prod_unfold Let_def)
  show ?thesis
    using w b by (auto simp: reliable_def posix_ops_def Append_def Flush_def Let_def case_prod_unfold)
qed

end
