(* ===== verification/Ldb_Table.thy ===== *)
theory Ldb_Table
  imports Ldb_Table_Builder Ldb_Cache_Sessions
begin

text \<open>
  The reader of table files, \<open>table/table.cc\<close>: opening a table, reading a block with the help of the block cache, and looking
  up a key through the index and the filter.
\<close>

section \<open>Iterators\<close>

text \<open>What \<open>NewIterator\<close> of a block gives: an iterator over the block, an empty iterator or an error.\<close>

type_synonym block_iterator = "status + BlockIter option"

definition NewEmptyIterator :: block_iterator where
  "NewEmptyIterator = Inr None"

definition NewErrorIterator :: "status \<Rightarrow> block_iterator" where
  "NewErrorIterator s = Inl s"

definition Iterator_Valid :: "block_iterator \<Rightarrow> bool" where
  "Iterator_Valid it = (case it of Inr (Some b) \<Rightarrow> BlockIter_Valid b | _ \<Rightarrow> False)"

definition Iterator_Seek :: "(slice \<Rightarrow> slice \<Rightarrow> int) \<Rightarrow> block_iterator \<Rightarrow> slice \<Rightarrow> block_iterator option" where
  "Iterator_Seek compare it target =
     (case it of Inr (Some b) \<Rightarrow> map_option (\<lambda>b. Inr (Some b)) (BlockIter_Seek compare b target) | _ \<Rightarrow> Some it)"

definition Iterator_key :: "block_iterator \<Rightarrow> slice" where
  "Iterator_key it = (case it of Inr (Some b) \<Rightarrow> bi_key b | _ \<Rightarrow> [])"

definition Iterator_value :: "block_iterator \<Rightarrow> slice" where
  "Iterator_value it = (case it of Inr (Some b) \<Rightarrow> BlockIter_value b | _ \<Rightarrow> [])"

definition Iterator_status :: "block_iterator \<Rightarrow> status" where
  "Iterator_status it = (case it of Inl s \<Rightarrow> s | Inr None \<Rightarrow> Status_OK | Inr (Some b) \<Rightarrow> bi_status b)"

section \<open>Tables\<close>

record 'f Table =
  tr_options :: Options
  tr_file :: 'f
  tr_cache_id :: uint64
  tr_filter :: "FilterBlockReader option"
  tr_metaindex_handle :: BlockHandle
  tr_index_block :: Block

type_synonym block_cache = "Block ShardedLRUCache option"

text \<open>\<open>paranoid_checks\<close> asks for the checksums of all blocks that are read for the table itself.\<close>

definition meta_read_options :: "Options \<Rightarrow> ReadOptions" where
  "meta_read_options options = (if op_paranoid_checks options then ReadOptions_new\<lparr>ro_verify_checksums := True\<rparr> else ReadOptions_new)"

text \<open>A failure leaves the table without a filter.\<close>

definition ReadFilter :: "(nat \<Rightarrow> byte) \<Rightarrow> 'f rafile_ops \<Rightarrow> 'f Table \<Rightarrow> slice \<Rightarrow> 'f Table" where
  "ReadFilter beyond R t filter_handle_value =
     (let (s, filter_handle, v) = BlockHandle_DecodeFrom BlockHandle_new filter_handle_value
      in if \<not> Status_ok s then t
         else
           let ((s, block), f) = ReadBlock beyond R (tr_file t) (meta_read_options (tr_options t)) filter_handle;
               t = t\<lparr>tr_file := f\<rparr>
           in if \<not> Status_ok s then t
              else t\<lparr>tr_filter := Some (FilterBlockReader_new (bytes_at (bc_data block) 0 (bc_size block)))\<rparr>)"

definition ReadMeta :: "(nat \<Rightarrow> byte) \<Rightarrow> 'f rafile_ops \<Rightarrow> 'f Table \<Rightarrow> Footer \<Rightarrow> 'f Table option" where
  "ReadMeta beyond R t footer =
     (case op_filter_policy (tr_options t) of
        None \<Rightarrow> Some t
      | Some policy \<Rightarrow>
          let ((s, contents), f) = ReadBlock beyond R (tr_file t) (meta_read_options (tr_options t)) (ft_metaindex_handle footer);
              t = t\<lparr>tr_file := f\<rparr>
          in if \<not> Status_ok s then Some t
             else
               let meta = Block_new (bc_data contents) (bc_size contents);
                   iter = Block_NewIterator meta;
                   key = str ''filter.'' @ fo_Name policy
               in do {
                    iter \<leftarrow> Iterator_Seek (co_Compare BytewiseComparator) iter key;
                    Some (if Iterator_Valid iter \<and> Slice_eq (Iterator_key iter) key
                          then ReadFilter beyond R t (Iterator_value iter) else t)
                  })"

text \<open>The status, the table if there is one, the file and the cache.\<close>

definition Table_Open ::
  "(nat \<Rightarrow> byte) \<Rightarrow> 'f rafile_ops \<Rightarrow> Options \<Rightarrow> block_cache \<Rightarrow> 'f \<Rightarrow> uint64 \<Rightarrow> (status \<times> 'f Table option \<times> block_cache) option" where
  "Table_Open beyond R options block_cache file file_size =
     (if unat file_size < Footer_kEncodedLength
      then Some (Status_Corruption (str ''file is too short to be an sstable'') [], None, block_cache)
      else
        let ((s, footer_input, in_buf), file) = ra_Read R file (file_size - of_nat Footer_kEncodedLength) (of_nat Footer_kEncodedLength)
        in if \<not> Status_ok s then Some (s, None, block_cache)
           else
             let (s, footer) = Footer_DecodeFrom (memory footer_input beyond) (length footer_input)
             in if \<not> Status_ok s then Some (s, None, block_cache)
                else
                  let ((s, index_block_contents), file) = ReadBlock beyond R file (meta_read_options options) (ft_index_handle footer)
                  in if \<not> Status_ok s then Some (s, None, block_cache)
                     else
                       let index_block = Block_new (bc_data index_block_contents) (bc_size index_block_contents);
                           (cache_id, block_cache) =
                             (case block_cache of Some c \<Rightarrow> (let (i, c) = NewId c in (i, Some c)) | None \<Rightarrow> (0, None));
                           t = \<lparr>tr_options = options, tr_file = file, tr_cache_id = cache_id, tr_filter = None,
                                tr_metaindex_handle = ft_metaindex_handle footer, tr_index_block = index_block\<rparr>
                       in do { t \<leftarrow> ReadMeta beyond R t footer; Some (s, Some t, block_cache) })"

section \<open>Reading a block\<close>

text \<open>What the destructor of the iterator does: nothing, delete the block, or release the handle of the cache.\<close>

datatype cleanup = NoCleanup | DeleteBlock | ReleaseBlock "nat \<times> nat"

definition run_cleanup :: "cleanup \<Rightarrow> block_cache \<Rightarrow> block_cache" where
  "run_cleanup cl c = (case cl of ReleaseBlock h \<Rightarrow> map_option (\<lambda>c. Cache_Release c h) c | _ \<Rightarrow> c)"

definition cache_key :: "uint64 \<Rightarrow> uint64 \<Rightarrow> slice" where
  "cache_key cache_id offset = EncodeFixed64 True cache_id @ EncodeFixed64 True offset"

text \<open>The status, the block, whether it may be cached, and the table with its file.\<close>

definition read_new_block ::
  "(nat \<Rightarrow> byte) \<Rightarrow> 'f rafile_ops \<Rightarrow> 'f Table \<Rightarrow> ReadOptions \<Rightarrow> BlockHandle \<Rightarrow> status \<times> Block option \<times> bool \<times> 'f Table" where
  "read_new_block beyond R t options h =
     (let ((s, contents), f) = ReadBlock beyond R (tr_file t) options h
      in (s, if Status_ok s then Some (Block_new (bc_data contents) (bc_size contents)) else None, bc_cachable contents, t\<lparr>tr_file := f\<rparr>))"

definition fetch_block ::
  "(nat \<Rightarrow> byte) \<Rightarrow> 'f rafile_ops \<Rightarrow> 'f Table \<Rightarrow> block_cache \<Rightarrow> ReadOptions \<Rightarrow> BlockHandle \<Rightarrow>
   (status \<times> Block option \<times> (nat \<times> nat) option \<times> 'f Table \<times> block_cache) option" where
  "fetch_block beyond R t block_cache options h =
     (case block_cache of
        Some c \<Rightarrow>
          let key = cache_key (tr_cache_id t) (bh_offset h)
          in do {
               (cache_handle, c) \<leftarrow> Cache_Lookup c key;
               (case cache_handle of
                  Some ch \<Rightarrow> Some (Status_OK, Some (Cache_Value c ch), Some ch, t, Some c)
                | None \<Rightarrow>
                    (case read_new_block beyond R t options h of
                       (s, Some block, cachable, t) \<Rightarrow>
                         if cachable \<and> ro_fill_cache options
                         then do {
                                (ch, c) \<leftarrow> Cache_Insert c key block (of_nat (bl_size block));
                                Some (s, Some block, Some ch, t, Some c)
                              }
                         else Some (s, Some block, None, t, Some c)
                     | (s, None, cachable, t) \<Rightarrow> Some (s, None, None, t, Some c)))
             }
      | None \<Rightarrow> (let (s, block, cachable, t) = read_new_block beyond R t options h in Some (s, block, None, t, None)))"

definition BlockReader ::
  "(nat \<Rightarrow> byte) \<Rightarrow> 'f rafile_ops \<Rightarrow> 'f Table \<Rightarrow> block_cache \<Rightarrow> ReadOptions \<Rightarrow> slice \<Rightarrow>
   (block_iterator \<times> cleanup \<times> 'f Table \<times> block_cache) option" where
  "BlockReader beyond R t block_cache options index_value =
     (let (s, h, input) = BlockHandle_DecodeFrom BlockHandle_new index_value
      in do {
           (s, block, cache_handle, t, block_cache) \<leftarrow>
             (if Status_ok s then fetch_block beyond R t block_cache options h else Some (s, None, None, t, block_cache));
           Some (case block of
                   Some b \<Rightarrow> (Block_NewIterator b, (case cache_handle of None \<Rightarrow> DeleteBlock | Some ch \<Rightarrow> ReleaseBlock ch), t, block_cache)
                 | None \<Rightarrow> (NewErrorIterator s, NoCleanup, t, block_cache))
         })"

section \<open>Looking up a key\<close>

text \<open>\<open>handle_result\<close> is called with the entry that is found; \<open>arg\<close> is what it works on.\<close>

definition filter_denies :: "'f Table \<Rightarrow> slice \<Rightarrow> slice \<Rightarrow> bool" where
  "filter_denies t handle_value k =
     (case (tr_filter t, op_filter_policy (tr_options t)) of
        (Some reader, Some policy) \<Rightarrow>
          let (s, h, v) = BlockHandle_DecodeFrom BlockHandle_new handle_value
          in Status_ok s \<and> \<not> FilterBlock_KeyMayMatch policy reader (bh_offset h) k
      | _ \<Rightarrow> False)"

definition InternalGet ::
  "(nat \<Rightarrow> byte) \<Rightarrow> 'f rafile_ops \<Rightarrow> 'f Table \<Rightarrow> block_cache \<Rightarrow> ReadOptions \<Rightarrow> slice \<Rightarrow> 'a \<Rightarrow> ('a \<Rightarrow> slice \<Rightarrow> slice \<Rightarrow> 'a) \<Rightarrow>
   (status \<times> 'a \<times> 'f Table \<times> block_cache) option" where
  "InternalGet beyond R t block_cache options k arg handle_result =
     do {
       iiter \<leftarrow> Iterator_Seek (co_Compare (op_comparator (tr_options t))) (Block_NewIterator (tr_index_block t)) k;
       (s, arg, t, block_cache) \<leftarrow>
         (if Iterator_Valid iiter \<and> \<not> filter_denies t (Iterator_value iiter) k then
            do {
              (block_iter, cl, t, block_cache) \<leftarrow> BlockReader beyond R t block_cache options (Iterator_value iiter);
              block_iter \<leftarrow> Iterator_Seek (co_Compare (op_comparator (tr_options t))) block_iter k;
              let arg = (if Iterator_Valid block_iter
                         then handle_result arg (Iterator_key block_iter) (Iterator_value block_iter) else arg);
              Some (Iterator_status block_iter, arg, t, run_cleanup cl block_cache)
            }
          else Some (Status_OK, arg, t, block_cache));
       Some (if Status_ok s then Iterator_status iiter else s, arg, t, block_cache)
     }"

definition ApproximateOffsetOf :: "'f Table \<Rightarrow> slice \<Rightarrow> uint64 option" where
  "ApproximateOffsetOf t key =
     do {
       index_iter \<leftarrow> Iterator_Seek (co_Compare (op_comparator (tr_options t))) (Block_NewIterator (tr_index_block t)) key;
       Some (if Iterator_Valid index_iter then
               let (s, h, input) = BlockHandle_DecodeFrom BlockHandle_new (Iterator_value index_iter)
               in if Status_ok s then bh_offset h else bh_offset (tr_metaindex_handle t)
             else bh_offset (tr_metaindex_handle t))
     }"

section \<open>The policy of internal keys\<close>

definition InternalFilterPolicy :: "filter_ops \<Rightarrow> filter_ops" where
  "InternalFilterPolicy user =
     \<lparr>fo_Name = fo_Name user, fo_CreateFilter = (\<lambda>keys dst. fo_CreateFilter user (map ExtractUserKey keys) dst),
      fo_KeyMayMatch = (\<lambda>key f. fo_KeyMayMatch user (ExtractUserKey key) f)\<rparr>"

lemma internal_filter_policy:
  assumes "filter_policy user small same"
  shows "filter_policy (InternalFilterPolicy user) (\<lambda>keys. small (map ExtractUserKey keys)) (\<lambda>a b. same (ExtractUserKey a) (ExtractUserKey b))"
proof
  fix keys keys' :: "slice list" and key target dst
  show "fo_CreateFilter (InternalFilterPolicy user) keys dst = dst @ fo_CreateFilter (InternalFilterPolicy user) keys []"
    using filter_policy.create_append [OF assms, of "map ExtractUserKey keys" dst] by (simp add: InternalFilterPolicy_def)
  show "fo_KeyMayMatch (InternalFilterPolicy user) target (fo_CreateFilter (InternalFilterPolicy user) keys [])"
    if "small (map ExtractUserKey keys)" "key \<in> set keys" "same (ExtractUserKey target) (ExtractUserKey key)"
    using filter_policy.match [OF assms that(1) _ that(3)] that(2) by (simp add: InternalFilterPolicy_def)
  show "small (map ExtractUserKey keys')" if "small (map ExtractUserKey keys)" "length keys' \<le> length keys"
    using filter_policy.fits_mono [OF assms that(1), of "map ExtractUserKey keys'"] that(2) by simp
qed

interpretation internal_bloom: filter_policy "InternalFilterPolicy (BloomFilterPolicy b)" "\<lambda>keys. length (map ExtractUserKey keys) * b + 7 < 2 ^ 64"
    "\<lambda>x y. ExtractUserKey x = ExtractUserKey y" for b
  by (rule internal_filter_policy [OF bloom.filter_policy_axioms])

section \<open>Keys that answer a lookup\<close>

text \<open>A lookup asks for the first entry that is not smaller than the target, and means it when the keys are the \<open>same\<close> in the
  sense of its user: equal keys, or internal keys of the same user key. A separator then never comes between them.\<close>

locale lookup_keys = comparator +
  fixes same :: "slice \<Rightarrow> slice \<Rightarrow> bool"
  assumes same_separator: "ok a \<Longrightarrow> ok t \<Longrightarrow> ok b \<Longrightarrow> co_Compare C a t < 0 \<Longrightarrow> co_Compare C t b \<le> 0 \<Longrightarrow> same t b \<Longrightarrow>
    co_Compare C (co_FindShortestSeparator C a b) t < 0"

interpretation bytewise_keys: lookup_keys BytewiseComparator "\<lambda>_. True" "(=)"
  by unfold_locales (use bytewise.separator in blast)

interpretation internal_keys: lookup_keys "InternalKeyComparator BytewiseComparator" bytewise.internal_ok
    "\<lambda>x y. ExtractUserKey x = ExtractUserKey y"
proof
  fix a t b :: slice
  let ?C = "InternalKeyComparator BytewiseComparator" and ?U = ExtractUserKey
  assume ok: "bytewise.internal_ok a" "bytewise.internal_ok t" "bytewise.internal_ok b"
    and lt: "co_Compare ?C a t < 0" and "co_Compare ?C t b \<le> 0" and same: "?U t = ?U b"
  let ?sep = "co_FindShortestSeparator ?C a b"
  show "co_Compare ?C ?sep t < 0"
  proof (cases "?sep = a")
    case True
    with lt show ?thesis by simp
  next
    case False
    define tmp where "tmp = co_FindShortestSeparator BytewiseComparator (?U a) (?U b)"
    have sep: "?sep = PutFixed64 True tmp (PackSequenceAndType kMaxSequenceNumber kValueTypeForSeek)" "length tmp < length (?U a)"
      using False by (auto simp: InternalKeyComparator_def InternalKey_FindShortestSeparator_def tmp_def Let_def split: if_splits)
    have "co_Compare BytewiseComparator (?U a) (?U t) \<le> 0"
      using lt by (auto simp: InternalKeyComparator_def InternalKey_Compare_def Let_def split: if_splits)
    moreover have "?U a \<noteq> ?U b" using sep(2) bytewise.separator_self [of "?U a"] by (auto simp: tmp_def)
    ultimately have "co_Compare BytewiseComparator (?U a) (?U b) < 0"
      using same bytewise.compare_eq [of "?U a" "?U b"] by (auto simp: order_le_less)
    from bytewise.separator [OF _ _ this] have "co_Compare BytewiseComparator tmp (?U t) < 0" by (simp add: tmp_def same)
    then show ?thesis unfolding sep(1) by (simp add: PutFixed64_def EncodeFixed_bytes InternalKeyComparator_def InternalKey_Compare_def Let_def ikey_parts)
  qed
qed

end
