(* ===== verification/Ldb_Table_Props.thy ===== *)
theory Ldb_Table_Props
  imports Ldb_Table
begin

text \<open>
  A table that was built and opened again is looked up correctly, through the index, the filter and the block cache.
\<close>

section \<open>Seeking in a block\<close>

definition block_holds :: "Block \<Rightarrow> nat \<Rightarrow> (slice \<times> slice) list \<Rightarrow> bool" where
  "block_holds b k es \<longleftrightarrow> (\<exists>mem. b = Block_new mem (length (block_bytes k es)) \<and>
     bytes_at mem 0 (length (block_bytes k es)) = block_bytes k es)"

lemma block_Seek:
  assumes "block_holds b k es" and "0 < k" and "length (block_bytes k es) < 2 ^ 32" and "entries_ok compare ok es"
    and "key_order compare ok" and "ok target" and "p = length (takeWhile (\<lambda>e. compare (fst e) target < 0) es)"
  shows "\<exists>it. Iterator_Seek compare (Block_NewIterator b) target = Some it \<and> Iterator_status it = Status_OK \<and>
    (Iterator_Valid it \<longleftrightarrow> p < length es) \<and> (p < length es \<longrightarrow> Iterator_key it = fst (es ! p) \<and> Iterator_value it = snd (es ! p))"
proof -
  have "list_all (\<lambda>(key, val). length key < 2 ^ 32) es" using assms(4) by (auto simp: entries_ok_def list_all_iff)
  with assms(1-3) obtain mem R N where b: "Block_NewIterator b = Inr (Some (BlockIter_new mem R N))" and B: "block_in mem k es R N"
    unfolding block_holds_def by (metis block_in_bytes)
  have on: "iter_on mem R N (BlockIter_new mem R N)" by (simp add: iter_on_def BlockIter_new_def)
  have "\<forall>i j. i < j \<and> j < length es \<and> compare (fst (es ! j)) target < 0 \<longrightarrow> compare (fst (es ! i)) target < 0"
    using entries_down [OF assms(5,4,6)] by blast
  from cursor_Seek [where compare = compare and target = target, OF B on this] obtain it where
    "BlockIter_Seek compare (BlockIter_new mem R N) target = Some it" "cursor mem k es R N it p" unfolding assms(7) by blast
  with cursor_shows [OF B this(2)] show ?thesis
    by (auto simp: b Iterator_Seek_def Iterator_status_def Iterator_Valid_def Iterator_key_def Iterator_value_def)
qed

section \<open>The index\<close>

lemma key_in_block: "i < length es \<Longrightarrow> length (fst (es ! i)) \<le> length (block_bytes 1 es)"
proof -
  assume "i < length es"
  then obtain rest where "e_all 1 es (length es) = e_all 1 es i @ e_bytes 1 es i @ rest" using e_all_split by blast
  moreover have "length (fst (es ! i)) \<le> length (e_bytes 1 es i)" by (simp add: e_bytes_def e_shared_def)
  ultimately show ?thesis by (simp add: block_bytes_def)
qed

lemma sorted_concat:
  assumes "sorted_wrt P (concat ess)" and "i < length ess"
  shows "sorted_wrt P (ess ! i)" and "j < i \<Longrightarrow> x \<in> set (ess ! j) \<Longrightarrow> y \<in> set (ess ! i) \<Longrightarrow> P x y"
proof -
  have c: "concat ess = concat (take i ess) @ ess ! i @ concat (drop (Suc i) ess)"
    using id_take_nth_drop [OF assms(2)] by (metis concat.simps(2) concat_append)
  then show "sorted_wrt P (ess ! i)" using assms(1) by (simp add: sorted_wrt_append)
  assume "j < i" "x \<in> set (ess ! j)" "y \<in> set (ess ! i)"
  moreover have "ess ! j \<in> set (take i ess)" using \<open>j < i\<close> assms(2) by (auto simp: in_set_conv_nth intro!: exI [of _ j])
  ultimately show "P x y" using assms(1) c by (auto simp: sorted_wrt_append)
qed

lemma sorted_hd_last:
  assumes "sorted_wrt P xs" and "x \<in> set xs"
  shows "x = last xs \<or> P x (last xs)" and "x = hd xs \<or> P (hd xs) x"
proof -
  have "xs \<noteq> []" using assms(2) by auto
  then have a: "xs = butlast xs @ [last xs]" "xs = hd xs # tl xs" by simp_all
  show "x = last xs \<or> P x (last xs)" using assms by (subst (asm) (1 2) a(1)) (auto simp: sorted_wrt_append)
  show "x = hd xs \<or> P (hd xs) x" using assms by (subst (asm) (1 2) a(2)) auto
qed

text \<open>Sorted entries in blocks with index keys between them.\<close>

definition table_data :: "comparator_ops \<Rightarrow> (slice \<Rightarrow> bool) \<Rightarrow> (slice \<times> slice) list list \<Rightarrow> slice list \<Rightarrow> bool" where
  "table_data C ok ess seps \<longleftrightarrow> entries_ok (co_Compare C) ok (concat ess) \<and> (\<forall>es \<in> set ess. es \<noteq> []) \<and> length seps = length ess \<and>
     separated C ok ess seps"

text \<open>The block that the index gives for a target: all entries before it are smaller than the target, all behind it are not.\<close>

definition block_of :: "comparator_ops \<Rightarrow> slice list \<Rightarrow> slice \<Rightarrow> nat" where
  "block_of C seps target = length (takeWhile (\<lambda>s. co_Compare C s target < 0) seps)"

text \<open>The entries from the first one on that is not smaller than the target.\<close>

definition first_from :: "comparator_ops \<Rightarrow> (slice \<times> slice) list \<Rightarrow> slice \<Rightarrow> (slice \<times> slice) list" where
  "first_from C es target = dropWhile (\<lambda>e. co_Compare C (fst e) target < 0) es"

text \<open>What a lookup may answer: the entry that was asked for, or nothing, when there is no entry for the same key.\<close>

definition answers :: "comparator_ops \<Rightarrow> (slice \<Rightarrow> slice \<Rightarrow> bool) \<Rightarrow> (slice \<times> slice) list \<Rightarrow> slice \<Rightarrow> (slice \<times> slice) list \<Rightarrow> bool" where
  "answers C same es target calls \<longleftrightarrow>
     (case first_from C es target of [] \<Rightarrow> calls = [] | e # _ \<Rightarrow> calls = [e] \<or> calls = [] \<and> \<not> same target (fst e))"

context comparator
begin

lemma block_entries_ok:
  assumes "table_data C ok ess seps" and "i < length ess"
  shows "entries_ok (co_Compare C) ok (ess ! i)"
  using assms sorted_concat(1) [of _ ess i] by (auto simp: table_data_def entries_ok_def list_all_iff)

lemma block_keys_ok: "table_data C ok ess seps \<Longrightarrow> i < length ess \<Longrightarrow> e \<in> set (ess ! i) \<Longrightarrow> ok (fst e)"
  by (auto simp: table_data_def entries_ok_def list_all_iff)

lemma sep_above:
  assumes "table_data C ok ess seps" and "i < length ess" and "e \<in> set (ess ! i)"
  shows "ok (seps ! i) \<and> co_Compare C (fst e) (seps ! i) \<le> 0"
proof -
  have e: "ok (fst e)" by (rule block_keys_ok [OF assms])
  have "ess ! i \<noteq> []" using assms(3) by auto
  then have l: "ok (fst (last (ess ! i)))" using block_keys_ok [OF assms(1,2) last_in_set] by simp
  have s: "ok (seps ! i)" "co_Compare C (fst (last (ess ! i))) (seps ! i) \<le> 0" using assms(1,2) by (auto simp: table_data_def separated_def)
  have "sorted_wrt (\<lambda>a b. co_Compare C (fst a) (fst b) < 0) (ess ! i)" using block_entries_ok [OF assms(1,2)] by (simp add: entries_ok_def)
  from sorted_hd_last(1) [OF this assms(3)] consider "e = last (ess ! i)" | "co_Compare C (fst e) (fst (last (ess ! i))) \<le> 0" by fastforce
  then show ?thesis using s order.le_trans [OF e l s(1)] by cases auto
qed

lemma sep_below:
  assumes "table_data C ok ess seps" and "i < j" and "j < length ess" and "e \<in> set (ess ! j)"
  shows "co_Compare C (seps ! i) (fst e) < 0"
proof -
  have i: "Suc i < length ess" "i < length seps" using assms by (auto simp: table_data_def)
  have h: "ess ! Suc i \<noteq> []" using assms(1) i by (simp add: table_data_def)
  have b: "ok (seps ! i)" "co_Compare C (seps ! i) (fst (hd (ess ! Suc i))) < 0"
    using assms(1) i unfolding table_data_def separated_def by blast+
  have ok: "ok (fst (hd (ess ! Suc i)))" "ok (fst e)"
    using block_keys_ok [OF assms(1) i(1) hd_in_set [OF h]] block_keys_ok [OF assms(1,3,4)] by auto
  have s: "sorted_wrt (\<lambda>a b. co_Compare C (fst a) (fst b) < 0) (concat ess)" using assms(1) by (simp add: table_data_def entries_ok_def)
  show ?thesis
  proof (cases "j = Suc i")
    case True
    with sorted_hd_last(2) [OF sorted_concat(1) [OF s assms(3)] assms(4)] b compare_trans [OF b(1) ok b(2)] show ?thesis by auto
  next
    case False
    then have "co_Compare C (fst (hd (ess ! Suc i))) (fst e) < 0"
      using sorted_concat(2) [OF s assms(3) _ hd_in_set [OF h] assms(4)] assms(2) by simp
    then show ?thesis using compare_trans [OF b(1) ok b(2)] by simp
  qed
qed

lemma index_ok:
  assumes "table_data C ok ess seps" and "length (block_bytes 1 (index_entries k ess seps)) < 2 ^ 32"
  shows "entries_ok (co_Compare C) ok (index_entries k ess seps)"
proof -
  have len: "length seps = length ess" using assms(1) by (simp add: table_data_def)
  have ne: "ess ! i \<noteq> []" if "i < length ess" for i using assms(1) that by (simp add: table_data_def)
  have above: "ok (seps ! i)" "co_Compare C (fst (hd (ess ! i))) (seps ! i) \<le> 0" "ok (fst (hd (ess ! i)))" if "i < length ess" for i
    using sep_above [OF assms(1) that hd_in_set [OF ne [OF that]]] block_keys_ok [OF assms(1) that hd_in_set [OF ne [OF that]]] by auto
  have "co_Compare C (seps ! i) (seps ! j) < 0" if "i < j" "j < length ess" for i j
  proof -
    have i: "i < length ess" using that by simp
    have "co_Compare C (seps ! i) (fst (hd (ess ! j))) < 0" by (rule sep_below [OF assms(1) that hd_in_set [OF ne [OF that(2)]]])
    with above [OF i] above [OF that(2)] show ?thesis
      using compare_eq [of "fst (hd (ess ! j))" "seps ! j"] compare_trans [of "seps ! i" "fst (hd (ess ! j))" "seps ! j"]
      by (cases "co_Compare C (fst (hd (ess ! j))) (seps ! j) = 0") auto
  qed
  moreover have "length (seps ! i) < 2 ^ 32" if "i < length ess" for i
    using key_in_block [of i "index_entries k ess seps"] assms(2) that len by (simp add: index_entries_def)
  ultimately show ?thesis
    using above(1) len by (auto simp: entries_ok_def sorted_wrt_iff_nth_less list_all_length index_entries_def)
qed

lemma block_of_index: "length (takeWhile (\<lambda>e. co_Compare C (fst e) target < 0) (index_entries k ess seps)) = block_of C seps target"
proof -
  have "seps = map fst (index_entries k ess seps)" by (simp add: index_entries_def comp_def map_nth)
  then have "takeWhile (\<lambda>s. co_Compare C s target < 0) seps = map fst (takeWhile (\<lambda>e. co_Compare C (fst e) target < 0) (index_entries k ess seps))"
    by (metis (no_types, lifting) takeWhile_map comp_apply takeWhile_cong)
  then show ?thesis by (simp add: block_of_def)
qed

lemma before_block:
  assumes "table_data C ok ess seps" and "ok target" and "i < block_of C seps target" and "e \<in> set (ess ! i)"
  shows "co_Compare C (fst e) target < 0"
proof -
  have i: "i < length seps" "co_Compare C (seps ! i) target < 0"
    using assms(3) nth_mem [of i "takeWhile (\<lambda>s. co_Compare C s target < 0) seps"] set_takeWhileD
      takeWhile_nth [of i "\<lambda>s. co_Compare C s target < 0" seps] length_takeWhile_le [of "\<lambda>s. co_Compare C s target < 0" seps]
    by (fastforce simp: block_of_def)+
  then have "i < length ess" using assms(1) by (simp add: table_data_def)
  from sep_above [OF assms(1) this assms(4)] block_keys_ok [OF assms(1) this assms(4)] i(2) show ?thesis
    using compare_le_less_trans [of "fst e" "seps ! i" target] assms(2) by blast
qed

lemma behind_block:
  assumes "table_data C ok ess seps" and "ok target" and "block_of C seps target < j" and "j < length ess" and "e \<in> set (ess ! j)"
  shows "\<not> co_Compare C (fst e) target < 0"
proof -
  let ?p = "block_of C seps target"
  have p: "?p < length ess" "?p < length seps" using assms(1,3,4) by (auto simp: table_data_def)
  have "\<not> co_Compare C (seps ! ?p) target < 0" using nth_length_takeWhile [OF p(2) [unfolded block_of_def]] by (simp add: block_of_def)
  moreover have "ok (seps ! ?p)" using assms(1) p(2) by (auto simp: table_data_def separated_def)
  moreover have "ok (fst e)" by (rule block_keys_ok [OF assms(1,4,5)])
  moreover have "co_Compare C (seps ! ?p) (fst e) < 0" by (rule sep_below [OF assms(1,3,4,5)])
  ultimately show ?thesis using compare_trans [of "seps ! ?p" "fst e" target] assms(2) by blast
qed

lemma first_from_blocks:
  assumes "table_data C ok ess seps" and "ok target" and "p = block_of C seps target"
  shows "first_from C (concat ess) target = (if p < length ess then first_from C (ess ! p) target @ concat (drop (Suc p) ess) else [])"
proof -
  let ?P = "\<lambda>e. co_Compare C (fst e) target < 0"
  have "length ess = length seps" using assms(1) by (simp add: table_data_def)
  have front: "?P e" if e: "e \<in> set (concat (take p ess))" for e
  proof -
    from e obtain es where "es \<in> set (take p ess)" "e \<in> set es" by auto
    then obtain j where "j < p" "e \<in> set (ess ! j)" by (auto simp: in_set_conv_nth [of es])
    with before_block [OF assms(1,2)] show ?thesis by (simp add: assms(3))
  qed
  show ?thesis
  proof (cases "p < length ess")
    case True
    have c: "concat ess = concat (take p ess) @ ess ! p @ concat (drop (Suc p) ess)"
      using id_take_nth_drop [OF True] by (metis concat.simps(2) concat_append)
    have behind: "\<not> ?P e" if e: "e \<in> set (concat (drop (Suc p) ess))" for e
    proof -
      from e obtain es where "es \<in> set (drop (Suc p) ess)" "e \<in> set es" by auto
      then obtain i where i: "i < length ess - Suc p" "e \<in> set (ess ! (Suc p + i))" by (auto simp: in_set_conv_nth [of es])
      with behind_block [OF assms(1,2), of "Suc p + i" e] show ?thesis by (simp add: assms(3))
    qed
    have "dropWhile ?P (ess ! p @ concat (drop (Suc p) ess)) = dropWhile ?P (ess ! p) @ concat (drop (Suc p) ess)"
    proof (cases "\<forall>e \<in> set (ess ! p). ?P e")
      case True
      have "dropWhile ?P xs = xs" if "\<forall>x \<in> set xs. \<not> ?P x" for xs using that by (cases xs) auto
      then have "dropWhile ?P (concat (drop (Suc p) ess)) = concat (drop (Suc p) ess)" using behind by blast
      with True show ?thesis by (simp add: dropWhile_append2)
    next
      case False
      then show ?thesis by (auto simp: dropWhile_append1)
    qed
    moreover have "dropWhile ?P (concat ess) = dropWhile ?P (ess ! p @ concat (drop (Suc p) ess))"
      unfolding c by (rule dropWhile_append2) (rule front)
    ultimately show ?thesis using True by (simp add: first_from_def)
  next
    case False
    then have "concat (take p ess) = concat ess" by simp
    then show ?thesis using False front by (simp add: first_from_def dropWhile_eq_Nil_conv)
  qed
qed

end

context lookup_keys
begin

lemma answer_no_block:
  assumes "table_data C ok ess seps" and "ok target" and "\<not> block_of C seps target < length ess"
  shows "answers C same (concat ess) target []"
  using first_from_blocks [OF assms(1,2) refl] assms(3) by (simp add: answers_def)

lemma answer_in_block:
  assumes "table_data C ok ess seps" and "ok target" and "block_of C seps target = p" and "p < length ess"
    and "q = length (takeWhile (\<lambda>e. co_Compare C (fst e) target < 0) (ess ! p))"
  shows "answers C same (concat ess) target (if q < length (ess ! p) then [ess ! p ! q] else [])"
proof -
  let ?P = "\<lambda>e. co_Compare C (fst e) target < 0"
  have ff: "first_from C (concat ess) target = drop q (ess ! p) @ concat (drop (Suc p) ess)"
    using first_from_blocks [OF assms(1,2) refl] assms(3,4,5) by (simp add: first_from_def dropWhile_eq_drop)
  show ?thesis
  proof (cases "q < length (ess ! p)")
    case True
    then show ?thesis by (simp add: answers_def ff Cons_nth_drop_Suc [symmetric])
  next
    case False
    show ?thesis
    proof (cases "Suc p < length ess")
      case True
      then have ne: "ess ! Suc p \<noteq> []" "ess ! p \<noteq> []" using assms(1) by (auto simp: table_data_def)
      let ?a = "fst (last (ess ! p))" and ?b = "fst (hd (ess ! Suc p))"
      have f: "first_from C (concat ess) target = hd (ess ! Suc p) # tl (ess ! Suc p) @ concat (drop (Suc (Suc p)) ess)"
        using False ne True by (simp add: ff Cons_nth_drop_Suc [symmetric])
      have ok: "ok ?a" "ok ?b" using block_keys_ok [OF assms(1,4) last_in_set [OF ne(2)]] block_keys_ok [OF assms(1) True hd_in_set [OF ne(1)]] by auto
      have "takeWhile ?P (ess ! p) = ess ! p" using False assms(5) takeWhile_eq_take [of ?P "ess ! p"] by simp
      then have a: "co_Compare C ?a target < 0" using ne(2) by (metis last_in_set set_takeWhileD)
      have pl: "p < length seps" using assms(1,4) by (simp add: table_data_def)
      then have "\<not> co_Compare C (seps ! p) target < 0"
        using nth_length_takeWhile [of "\<lambda>s. co_Compare C s target < 0" seps] assms(3) by (simp add: block_of_def)
      moreover have "seps ! p = co_FindShortestSeparator C ?a ?b" using assms(1) pl True unfolding table_data_def separated_def by blast
      moreover have "co_Compare C target ?b \<le> 0"
        using behind_block [OF assms(1,2) _ True hd_in_set [OF ne(1)]] assms(2,3) ok(2) order.not_less [of ?b target] by simp
      ultimately have "\<not> same target ?b" using same_separator [OF ok(1) assms(2) ok(2) a] by auto
      with f False show ?thesis by (simp add: answers_def)
    next
      case False
      with \<open>\<not> q < length (ess ! p)\<close> show ?thesis by (simp add: answers_def ff)
    qed
  qed
qed

text \<open>Nothing is an answer when no key of the block is the same.\<close>

lemma answer_denied:
  assumes "table_data C ok ess seps" and "ok target" and "block_of C seps target = p" and "p < length ess"
    and "\<forall>e \<in> set (ess ! p). \<not> same target (fst e)"
  shows "answers C same (concat ess) target []"
proof -
  define q where "q = length (takeWhile (\<lambda>e. co_Compare C (fst e) target < 0) (ess ! p))"
  note a = answer_in_block [OF assms(1-4) q_def]
  show ?thesis
  proof (cases "q < length (ess ! p)")
    case True
    then have "\<not> same target (fst (ess ! p ! q))" using assms(5) nth_mem by blast
    then show ?thesis using a True by (auto simp: answers_def split: list.splits)
  qed (use a in simp)
qed

end

end
