(* ===== verification/Ldb_Table_Get.thy ===== *)
theory Ldb_Table_Get
  imports Ldb_Table_Props
begin

text \<open>
  Reading the blocks of a table file, with and without a cache, and the lookup of keys in an opened table.
\<close>

section \<open>The parts of a table file\<close>

lemma data_bytes_split:
  assumes "i < length ess"
  shows "data_bytes k ess = data_bytes k (take i ess) @ framed (block_bytes k (ess ! i)) @ data_bytes k (drop (Suc i) ess)"
  by (subst id_take_nth_drop [OF assms]) (simp add: data_bytes_def)

lemma table_bytes_data:
  assumes "i < length ess" and "k = op_block_restart_interval opt"
  shows "\<exists>post. table_bytes opt ess seps = data_bytes k (take i ess) @ framed (block_bytes k (ess ! i)) @ post"
  using data_bytes_split [OF assms(1), of k] by (simp add: table_bytes_def Let_def assms(2))

lemma data_offset_less:
  assumes "i < j" and "j \<le> length ess"
  shows "length (data_bytes k (take i ess)) < length (data_bytes k (take j ess))"
proof -
  have "take i (take j ess) = take i ess" "i < length (take j ess)" using assms by simp_all
  then show ?thesis using data_bytes_split [of i "take j ess" k] by (simp add: kBlockTrailerSize_def)
qed

lemma data_bytes_small: "i < length ess \<Longrightarrow> k = op_block_restart_interval opt \<Longrightarrow> length (data_bytes k (take i ess)) \<le> length (table_bytes opt ess seps)"
  using table_bytes_data by (metis le_add1 length_append)

lemma offset_inj:
  assumes "i < length ess" and "j < length ess" and "length (table_bytes opt ess seps) < 2 ^ 32" and "k = op_block_restart_interval opt"
    and "bh_offset (handle_at k ess i) = bh_offset (handle_at k ess j)"
  shows "i = j"
proof -
  have "unat (of_nat (length (data_bytes k (take i ess))) :: uint64) = length (data_bytes k (take i ess))" if "i < length ess" for i
    using data_bytes_small [OF that assms(4), of seps] assms(3) by (simp add: unat_of_nat)
  then have "length (data_bytes k (take i ess)) = length (data_bytes k (take j ess))"
    using assms(1,2,5) by (metis (no_types) handle_at_def BlockHandle.select_convs(1))
  then show ?thesis using data_offset_less [of i j ess k] data_offset_less [of j i ess k] assms(1,2) by (metis less_irrefl less_or_eq_imp_le nat_neq_iff)
qed

lemma cache_key_inj: "cache_key i a = cache_key i b \<Longrightarrow> a = b"
proof -
  assume "cache_key i a = cache_key i b"
  then have "of_bytes (to_bytes 8 a) = (of_bytes (to_bytes 8 b) :: uint64)" by (simp add: cache_key_def EncodeFixed_bytes)
  then show ?thesis by (simp add: of_bytes_to_bytes)
qed

section \<open>Fetching a block\<close>

text \<open>The blocks that the cache has for the table are blocks of the table; \<open>N\<close> bounds the calls of the cache so far.\<close>

definition caches :: "nat \<Rightarrow> nat \<Rightarrow> (slice \<times> slice) list list \<Rightarrow> uint64 \<Rightarrow> block_cache \<Rightarrow> bool" where
  "caches N k ess cache_id block_cache \<longleftrightarrow>
     (case block_cache of
        None \<Rightarrow> True
      | Some c \<Rightarrow> \<exists>n held latest owner ins. n \<le> N \<and> cache_ok n c held latest owner ins \<and>
          (\<forall>i b. i < length ess \<and> latest (cache_key cache_id (bh_offset (handle_at k ess i))) = Some b \<longrightarrow> block_holds b k (ess ! i)))"

lemma cachesI:
  assumes "cache_ok n c held latest owner ins" and "n \<le> N"
    and "\<And>i b. i < length ess \<Longrightarrow> latest (cache_key cache_id (bh_offset (handle_at k ess i))) = Some b \<Longrightarrow> block_holds b k (ess ! i)"
  shows "caches N k ess cache_id (Some c)"
  unfolding caches_def option.case using assms by blast

lemma caches_mono:
  assumes "caches N k ess i bc" and "N \<le> M"
  shows "caches M k ess i bc"
proof (cases bc)
  case (Some c)
  from assms(1) [unfolded Some] obtain n held latest owner ins where "n \<le> N" "cache_ok n c held latest owner ins"
    "\<And>j b. j < length ess \<Longrightarrow> latest (cache_key i (bh_offset (handle_at k ess j))) = Some b \<Longrightarrow> block_holds b k (ess ! j)"
    unfolding caches_def option.case by blast
  with assms(2) show ?thesis unfolding Some by (intro cachesI [of n c held latest owner ins]) auto
qed (simp add: caches_def)

context random_access_file
begin

definition table_at :: "Options \<Rightarrow> (slice \<times> slice) list list \<Rightarrow> slice list \<Rightarrow> 'f \<Rightarrow> bool" where
  "table_at opt ess seps f \<longleftrightarrow> inv f \<and> contents f = table_bytes opt ess seps \<and> length (table_bytes opt ess seps) < 2 ^ 32"

lemma read_at:
  assumes "table_at opt ess seps f" and "table_bytes opt ess seps = pre @ framed raw @ post"
    and "h = \<lparr>bh_offset = of_nat (length pre), bh_size = of_nat (length raw)\<rparr>" and "ReadBlock beyond R f options h = ((s, bc), f')"
  shows "table_at opt ess seps f' \<and> (full_reads R contents inv \<longrightarrow> Status_ok s) \<and>
    (Status_ok s \<longrightarrow> bc_size bc = length raw \<and> bytes_at (bc_data bc) 0 (length raw) = raw)"
proof -
  have "inv f" "contents f = pre @ framed raw @ post" "length (contents f) < 2 ^ 63" using assms(1,2) by (simp_all add: table_at_def)
  from ReadBlock_framed [OF this assms(3,4)] assms(1) show ?thesis by (auto simp: table_at_def)
qed

lemma read_new_block_ok:
  assumes "table_at opt ess seps (tr_file t)" and "i < length ess" and "k = op_block_restart_interval opt"
    and "read_new_block beyond R t options (handle_at k ess i) = (s, b, cachable, t')"
  shows "t' = t\<lparr>tr_file := tr_file t'\<rparr>" and "table_at opt ess seps (tr_file t')" and "full_reads R contents inv \<longrightarrow> b \<noteq> None"
    and "b = Some blk \<Longrightarrow> Status_ok s \<and> block_holds blk k (ess ! i)" and "b = None \<Longrightarrow> \<not> Status_ok s"
proof -
  obtain bc f' where r: "ReadBlock beyond R (tr_file t) options (handle_at k ess i) = ((s, bc), f')"
    and o: "b = (if Status_ok s then Some (Block_new (bc_data bc) (bc_size bc)) else None)" "t' = t\<lparr>tr_file := f'\<rparr>"
    using assms(4) by (auto simp: read_new_block_def Let_def split: prod.splits)
  obtain post where "table_bytes opt ess seps = data_bytes k (take i ess) @ framed (block_bytes k (ess ! i)) @ post"
    using table_bytes_data [OF assms(2,3)] by blast
  note e = read_at [OF assms(1) this handle_at_def r]
  show "t' = t\<lparr>tr_file := tr_file t'\<rparr>" "table_at opt ess seps (tr_file t')" "full_reads R contents inv \<longrightarrow> b \<noteq> None"
    "b = None \<Longrightarrow> \<not> Status_ok s" using e o by (auto split: if_splits)
  show "b = Some blk \<Longrightarrow> Status_ok s \<and> block_holds blk k (ess ! i)" using e o by (auto simp: block_holds_def split: if_splits)
qed

lemma fetch_block_ok:
  assumes "table_at opt ess seps (tr_file t)" and "i < length ess" and "k = op_block_restart_interval opt"
    and "caches N k ess (tr_cache_id t) bc" and "N + 3 < 2 ^ 31"
  shows "\<exists>s b h t' bc'. fetch_block beyond R t bc options (handle_at k ess i) = Some (s, b, h, t', bc') \<and>
    t' = t\<lparr>tr_file := tr_file t'\<rparr> \<and> table_at opt ess seps (tr_file t') \<and> (full_reads R contents inv \<longrightarrow> b \<noteq> None) \<and>
    (case b of Some blk \<Rightarrow> Status_ok s \<and> block_holds blk k (ess ! i) | None \<Rightarrow> \<not> Status_ok s \<and> h = None) \<and>
    caches (N + 3) k ess (tr_cache_id t) (run_cleanup (case h of None \<Rightarrow> DeleteBlock | Some ch \<Rightarrow> ReleaseBlock ch) bc')"
proof (cases bc)
  case None
  obtain s b cachable t' where r: "read_new_block beyond R t options (handle_at k ess i) = (s, b, cachable, t')" by (metis prod_cases4)
  note e = read_new_block_ok [OF assms(1-3) r]
  have "fetch_block beyond R t bc options (handle_at k ess i) = Some (s, b, None, t', None)" by (simp add: None fetch_block_def r)
  then show ?thesis using e by (intro exI conjI) (auto simp: run_cleanup_def caches_def split: option.splits)
next
  case (Some c)
  let ?key = "\<lambda>i. cache_key (tr_cache_id t) (bh_offset (handle_at k ess i))"
  from assms(4) [unfolded Some] obtain n held latest owner ins where n: "n \<le> N" and ok: "cache_ok n c held latest owner ins"
    and good: "\<And>i b. i < length ess \<Longrightarrow> latest (?key i) = Some b \<Longrightarrow> block_holds b k (ess ! i)" unfolding caches_def option.case by blast
  from Cache_Lookup_ok [OF ok, of "?key i"] n assms(5) obtain r c1 where l: "Cache_Lookup c (?key i) = Some (r, c1)"
    and lr: "case r of None \<Rightarrow> cache_ok (n + 1) c1 held latest owner ins
     | Some h \<Rightarrow> cache_ok (n + 1) c1 (held(h := held h + 1)) latest owner ins \<and> owner h = Some (?key i, Cache_Value c1 h) \<and>
         latest (?key i) = Some (Cache_Value c1 h)" by auto
  show ?thesis
  proof (cases r)
    case hit: (Some h)
    then have lh: "cache_ok (n + 1) c1 (held(h := held h + 1)) latest owner ins" "latest (?key i) = Some (Cache_Value c1 h)"
      using lr by simp_all
    have "cache_ok (n + 1 + 1) (Cache_Release c1 h) ((held(h := held h + 1))(h := (held(h := held h + 1)) h - 1)) latest owner ins"
      by (rule Cache_Release_ok [OF lh(1)]) simp
    then have "caches (N + 3) k ess (tr_cache_id t) (Some (Cache_Release c1 h))" by (rule cachesI) (use n good in auto)
    moreover have "fetch_block beyond R t bc options (handle_at k ess i) = Some (Status_OK, Some (Cache_Value c1 h), Some h, t, Some c1)"
      using l hit by (simp add: Some fetch_block_def Let_def)
    ultimately show ?thesis using good [OF assms(2) lh(2)] assms(1) by (intro exI conjI) (auto simp: run_cleanup_def)
  next
    case miss: None
    then have ok1: "cache_ok (n + 1) c1 held latest owner ins" using lr by simp
    obtain s b cachable t' where r: "read_new_block beyond R t options (handle_at k ess i) = (s, b, cachable, t')" by (metis prod_cases4)
    note e = read_new_block_ok [OF assms(1-3) r]
    show ?thesis
    proof (cases "b \<noteq> None \<and> cachable \<and> ro_fill_cache options")
      case True
      then obtain blk where b: "b = Some blk" by blast
      have "n + 1 < 2 ^ 31" using n assms(5) by simp
      from Cache_Insert_ok [OF ok1 this, of "?key i" blk "of_nat (bl_size blk)"] obtain h c2 where
        ins: "Cache_Insert c1 (?key i) blk (of_nat (bl_size blk)) = Some (h, c2)"
        and ok2: "cache_ok (n + 1 + 1) c2 (held(h := held h + 1)) (latest(?key i \<mapsto> blk)) (owner(h \<mapsto> (?key i, blk))) (add_mset (?key i, blk) ins)"
        by blast
      have "cache_ok (n + 1 + 1 + 1) (Cache_Release c2 h) ((held(h := held h + 1))(h := (held(h := held h + 1)) h - 1))
          (latest(?key i \<mapsto> blk)) (owner(h \<mapsto> (?key i, blk))) (add_mset (?key i, blk) ins)"
        by (rule Cache_Release_ok [OF ok2]) simp
      then have "caches (N + 3) k ess (tr_cache_id t) (Some (Cache_Release c2 h))"
      proof (rule cachesI)
        fix j blk'
        assume j: "j < length ess" "(latest(?key i \<mapsto> blk)) (?key j) = Some blk'"
        show "block_holds blk' k (ess ! j)"
        proof (cases "?key j = ?key i")
          case True
          then have "j = i" using offset_inj [OF j(1) assms(2) _ assms(3)] assms(1) cache_key_inj by (auto simp: table_at_def)
          with j e(4) [OF b] show ?thesis by simp
        next
          case False
          with j good show ?thesis by simp
        qed
      qed (use n in simp)
      moreover have "fetch_block beyond R t bc options (handle_at k ess i) = Some (s, Some blk, Some h, t', Some c2)"
        using l miss r b True ins by (simp add: Some fetch_block_def Let_def)
      ultimately show ?thesis using e b by (intro exI conjI) (auto simp: run_cleanup_def)
    next
      case False
      have "caches (N + 3) k ess (tr_cache_id t) (Some c1)" by (rule cachesI [OF ok1]) (use n good in auto)
      moreover have "fetch_block beyond R t bc options (handle_at k ess i) = Some (s, b, None, t', Some c1)"
        using l miss r False by (cases b) (auto simp: Some fetch_block_def Let_def)
      ultimately show ?thesis using e by (intro exI conjI) (auto simp: run_cleanup_def split: option.splits)
    qed
  qed
qed

end

section \<open>The filter\<close>

lemma filter_blocks_keys: "concat (map snd (filter_blocks k ess [])) = map fst (concat ess)"
proof -
  have "map snd (filter_blocks k ess []) = map (map fst) ess @ [[]]"
    by (auto simp: filter_blocks_def comp_def intro!: nth_equalityI)
  then show ?thesis by (simp add: map_concat)
qed

lemma filter_blocks_sorted:
  assumes "length (data_bytes k ess) < 2 ^ 32"
  shows "sorted_wrt (\<lambda>a b. fst a \<le> fst b) (filter_blocks k ess [])"
proof -
  have le: "length (data_bytes k (take i ess)) \<le> length (data_bytes k (take j ess))" if "i \<le> j" "j \<le> length ess" for i j
    using data_offset_less [of i j ess k] that by (cases "i = j") auto
  have "(of_nat (length (data_bytes k (take i ess))) :: uint64) \<le> of_nat (length (data_bytes k (take j ess)))" if "i \<le> j" "j \<le> length ess" for i j
    using le [OF that] le [OF that(2)] assms by (simp add: word_le_nat_alt unat_of_nat)
  from this [of _ "length ess"] this show ?thesis
    by (auto simp: filter_blocks_def sorted_wrt_iff_nth_less nth_append less_Suc_eq)
qed

lemma filter_covers:
  assumes "filter_policy p small same" and "small (map fst (concat ess))" and "k = op_block_restart_interval opt"
    and "op_filter_policy opt = Some p" and "length (table_bytes opt ess seps) < 2 ^ 32" and "i < length ess" and "e \<in> set (ess ! i)" and "same target (fst e)"
  shows "FilterBlock_KeyMayMatch p (FilterBlockReader_new (filter_bytes p k ess)) (bh_offset (handle_at k ess i)) target"
proof -
  have len: "length (data_bytes k ess) < 2 ^ 32" "length (filter_bytes p k ess) < 2 ^ 32"
    using assms(5) by (simp_all add: table_bytes_def Let_def filter_part_def assms(3,4))
  have mem: "(bh_offset (handle_at k ess i), map fst (ess ! i)) \<in> set (filter_blocks k ess [])"
    using assms(6) by (auto simp: filter_blocks_def handle_at_def)
  show ?thesis
    by (rule filter_policy.no_false_negative [OF assms(1) filter_blocks_sorted [OF len(1)] _ filter_bytes_def [unfolded filter_of_blocks_def] len(2) mem])
      (use assms(2,7,8) filter_blocks_keys in auto)
qed

section \<open>Lookups\<close>

lemma length_block_table:
  assumes "length (table_bytes opt ess seps) < 2 ^ 32" and "k = op_block_restart_interval opt"
  shows "i < length ess \<Longrightarrow> length (block_bytes k (ess ! i)) < 2 ^ 32" and "length (block_bytes 1 (index_entries k ess seps)) < 2 ^ 32"
    and "length (block_bytes k (meta_entries (op_filter_policy opt) k ess)) < 2 ^ 32"
proof -
  show "length (block_bytes k (ess ! i)) < 2 ^ 32" if i: "i < length ess"
    using table_bytes_data [OF i assms(2), of seps] assms(1) by auto
  show "length (block_bytes 1 (index_entries k ess seps)) < 2 ^ 32" "length (block_bytes k (meta_entries (op_filter_policy opt) k ess)) < 2 ^ 32"
    using assms(1) by (simp_all add: table_bytes_def Let_def assms(2))
qed

locale table_lookup = random_access_file R contents inv + lookup_keys C ok same
  for R :: "'f rafile_ops" and contents inv C ok same
begin

definition table_on :: "Options \<Rightarrow> (slice \<times> slice) list list \<Rightarrow> slice list \<Rightarrow> 'f Table \<Rightarrow> bool" where
  "table_on opt ess seps t \<longleftrightarrow>
     (let k = op_block_restart_interval opt
      in table_at opt ess seps (tr_file t) \<and> tr_options t = opt \<and> block_holds (tr_index_block t) 1 (index_entries k ess seps) \<and>
         (tr_filter t = None \<or> (\<exists>p. op_filter_policy opt = Some p \<and> tr_filter t = Some (FilterBlockReader_new (filter_bytes p k ess)))))"

text \<open>The options of a table, and the filter that fits its keys.\<close>

definition options_ok :: "Options \<Rightarrow> (slice \<times> slice) list \<Rightarrow> bool" where
  "options_ok opt es \<longleftrightarrow> op_comparator opt = C \<and> 0 < op_block_restart_interval opt \<and>
     (\<forall>p. op_filter_policy opt = Some p \<longrightarrow> (\<exists>small. filter_policy p small same \<and> small (map fst es)))"

lemma BlockReader_ok:
  assumes "table_on opt ess seps t" and "i < length ess" and "k = op_block_restart_interval opt"
    and "caches N k ess (tr_cache_id t) bc" and "N + 3 < 2 ^ 31"
  shows "\<exists>it cl t' bc'. BlockReader beyond R t bc options (handle_bytes (handle_at k ess i)) = Some (it, cl, t', bc') \<and>
    table_on opt ess seps t' \<and> tr_cache_id t' = tr_cache_id t \<and> caches (N + 3) k ess (tr_cache_id t) (run_cleanup cl bc') \<and>
    ((\<exists>b. it = Block_NewIterator b \<and> block_holds b k (ess ! i)) \<or> (\<exists>s. it = NewErrorIterator s \<and> \<not> Status_ok s \<and> \<not> full_reads R contents inv))"
proof -
  have "table_at opt ess seps (tr_file t)" using assms(1) by (simp add: table_on_def Let_def)
  from fetch_block_ok [OF this assms(2-5), of beyond options] obtain s b h t' bc' where
    f: "fetch_block beyond R t bc options (handle_at k ess i) = Some (s, b, h, t', bc')"
    and t': "t' = t\<lparr>tr_file := tr_file t'\<rparr>" "table_at opt ess seps (tr_file t')"
    and b: "full_reads R contents inv \<longrightarrow> b \<noteq> None"
      "case b of Some blk \<Rightarrow> Status_ok s \<and> block_holds blk k (ess ! i) | None \<Rightarrow> \<not> Status_ok s \<and> h = None"
    and c: "caches (N + 3) k ess (tr_cache_id t) (run_cleanup (case h of None \<Rightarrow> DeleteBlock | Some ch \<Rightarrow> ReleaseBlock ch) bc')"
    by blast
  have on: "table_on opt ess seps t'" "tr_cache_id t' = tr_cache_id t"
    using assms(1) t'(2) by (subst t'(1), simp add: table_on_def Let_def)+
  have d: "BlockHandle_DecodeFrom BlockHandle_new (handle_bytes (handle_at k ess i)) = (Status_OK, handle_at k ess i, [])"
    using BlockHandle_DecodeFrom_bytes [of BlockHandle_new "handle_at k ess i" "[]"] by simp
  show ?thesis
  proof (cases b)
    case None
    with b have "BlockReader beyond R t bc options (handle_bytes (handle_at k ess i)) = Some (NewErrorIterator s, NoCleanup, t', bc')"
      and "h = None" "\<not> Status_ok s" "\<not> full_reads R contents inv" using f by (auto simp: BlockReader_def d)
    then show ?thesis using on c by (auto simp: run_cleanup_def)
  next
    case (Some blk)
    with b have "BlockReader beyond R t bc options (handle_bytes (handle_at k ess i)) =
      Some (Block_NewIterator blk, (case h of None \<Rightarrow> DeleteBlock | Some ch \<Rightarrow> ReleaseBlock ch), t', bc')"
      and "block_holds blk k (ess ! i)" using f by (auto simp: BlockReader_def d)
    then show ?thesis using on c by blast
  qed
qed

lemma denied:
  assumes "table_on opt ess seps t" and "options_ok opt (concat ess)" and "i < length ess" and "k = op_block_restart_interval opt"
    and "filter_denies t (handle_bytes (handle_at k ess i)) target"
  shows "\<forall>e \<in> set (ess ! i). \<not> same target (fst e)"
proof (intro ballI notI)
  fix e
  assume e: "e \<in> set (ess ! i)" "same target (fst e)"
  have d: "BlockHandle_DecodeFrom BlockHandle_new (handle_bytes (handle_at k ess i)) = (Status_OK, handle_at k ess i, [])"
    using BlockHandle_DecodeFrom_bytes [of BlockHandle_new "handle_at k ess i" "[]"] by simp
  from assms(1,5) obtain p where p: "op_filter_policy opt = Some p" "tr_filter t = Some (FilterBlockReader_new (filter_bytes p k ess))"
    by (auto simp: filter_denies_def table_on_def Let_def assms(4) split: option.splits)
  have T: "length (table_bytes opt ess seps) < 2 ^ 32" "tr_options t = opt" using assms(1) by (simp_all add: table_on_def table_at_def Let_def)
  obtain small where F: "filter_policy p small same" "small (map fst (concat ess))" using assms(2) p(1) by (auto simp: options_ok_def)
  have "FilterBlock_KeyMayMatch p (FilterBlockReader_new (filter_bytes p k ess)) (bh_offset (handle_at k ess i)) target"
    by (rule filter_covers [OF F assms(4) p(1) T(1) assms(3) e])
  with assms(5) p T(2) show False by (simp add: filter_denies_def d)
qed

lemma InternalGet_ok:
  assumes "table_on opt ess seps t" and "options_ok opt (concat ess)" and "table_data C ok ess seps" and "ok target"
    and "k = op_block_restart_interval opt" and "caches N k ess (tr_cache_id t) bc" and "N + 3 < 2 ^ 31"
  shows "\<exists>s calls t' bc'. InternalGet beyond R t bc options target arg handle_result =
      Some (s, foldl (\<lambda>a (key, val). handle_result a key val) arg calls, t', bc') \<and>
    table_on opt ess seps t' \<and> tr_cache_id t' = tr_cache_id t \<and> caches (N + 3) k ess (tr_cache_id t) bc' \<and>
    (full_reads R contents inv \<longrightarrow> Status_ok s) \<and> (if Status_ok s then answers C same (concat ess) target calls else calls = [])"
proof -
  let ?i = "index_entries k ess seps" and ?p = "block_of C seps target"
  have T: "length (table_bytes opt ess seps) < 2 ^ 32" "tr_options t = opt" "block_holds (tr_index_block t) 1 ?i"
    using assms(1) by (simp_all add: table_on_def table_at_def Let_def assms(5))
  have opts: "op_comparator opt = C" "0 < k" using assms(2) by (simp_all add: options_ok_def assms(5))
  note len = length_block_table [OF T(1) assms(5)]
  have li: "length ?i = length ess" using assms(3) by (simp add: index_entries_def table_data_def)
  from block_Seek [OF T(3) zero_less_one len(2) index_ok [OF assms(3) len(2)] order.key_order_axioms assms(4) block_of_index [of target k ess seps, symmetric]]
  obtain iiter where iiter: "Iterator_Seek (co_Compare C) (Block_NewIterator (tr_index_block t)) target = Some iiter"
    "Iterator_status iiter = Status_OK" "Iterator_Valid iiter \<longleftrightarrow> ?p < length ess"
    "?p < length ess \<longrightarrow> Iterator_value iiter = snd (?i ! ?p)" unfolding li by blast
  have caches3: "caches (N + 3) k ess (tr_cache_id t) bc"
    using assms(6) by (rule caches_mono) simp
  show ?thesis
  proof (cases "?p < length ess")
    case False
    then have "InternalGet beyond R t bc options target arg handle_result = Some (Status_OK, arg, t, bc)"
      using iiter by (simp add: InternalGet_def T(2) opts(1))
    then show ?thesis using answer_no_block [OF assms(3,4) False] assms(1) caches3
      by (intro exI [of _ Status_OK] exI [of _ "[]"] exI [of _ t] exI [of _ bc]) simp
  next
    case p: True
    have v: "Iterator_value iiter = handle_bytes (handle_at k ess ?p)"
      using iiter(4) p assms(3) by (simp add: index_entries_def table_data_def)
    show ?thesis
    proof (cases "filter_denies t (handle_bytes (handle_at k ess ?p)) target")
      case True
      then have "InternalGet beyond R t bc options target arg handle_result = Some (Status_OK, arg, t, bc)"
        using iiter v by (simp add: InternalGet_def T(2) opts(1))
      then show ?thesis
        using answer_denied [OF assms(3,4) refl p denied [OF assms(1,2) p assms(5) True]] assms(1) caches3
        by (intro exI [of _ Status_OK] exI [of _ "[]"] exI [of _ t] exI [of _ bc]) simp
    next
      case False
      from BlockReader_ok [OF assms(1) p assms(5-7), of beyond options] obtain it cl t' bc' where
        br: "BlockReader beyond R t bc options (handle_bytes (handle_at k ess ?p)) = Some (it, cl, t', bc')"
        and post: "table_on opt ess seps t'" "tr_cache_id t' = tr_cache_id t" "caches (N + 3) k ess (tr_cache_id t) (run_cleanup cl bc')"
        and it: "(\<exists>b. it = Block_NewIterator b \<and> block_holds b k (ess ! ?p)) \<or>
          (\<exists>s. it = NewErrorIterator s \<and> \<not> Status_ok s \<and> \<not> full_reads R contents inv)" by blast
      have o': "tr_options t' = opt" using post(1) by (simp add: table_on_def Let_def)
      from it consider b where "it = Block_NewIterator b" "block_holds b k (ess ! ?p)" |
        s where "it = NewErrorIterator s" "\<not> Status_ok s" "\<not> full_reads R contents inv" by blast
      then show ?thesis
      proof cases
        case 1
        define q where "q = length (takeWhile (\<lambda>e. co_Compare C (fst e) target < 0) (ess ! ?p))"
        from block_Seek [OF 1(2) opts(2) len(1) [OF p] block_entries_ok [OF assms(3) p] order.key_order_axioms assms(4) q_def]
        obtain it' where it': "Iterator_Seek (co_Compare C) it target = Some it'" "Iterator_status it' = Status_OK"
          "Iterator_Valid it' \<longleftrightarrow> q < length (ess ! ?p)"
          "q < length (ess ! ?p) \<longrightarrow> Iterator_key it' = fst (ess ! ?p ! q) \<and> Iterator_value it' = snd (ess ! ?p ! q)"
          unfolding 1(1) by blast
        let ?calls = "if q < length (ess ! ?p) then [ess ! ?p ! q] else []"
        have "InternalGet beyond R t bc options target arg handle_result =
            Some (Status_OK, foldl (\<lambda>a (key, val). handle_result a key val) arg ?calls, t', run_cleanup cl bc')"
          using iiter v p False br it' by (simp add: InternalGet_def T(2) opts(1) o' case_prod_unfold)
        then show ?thesis using post answer_in_block [OF assms(3,4) refl p q_def]
          by (intro exI [of _ Status_OK] exI [of _ ?calls] exI [of _ t'] exI [of _ "run_cleanup cl bc'"]) simp
      next
        case 2
        then have "InternalGet beyond R t bc options target arg handle_result = Some (s, arg, t', run_cleanup cl bc')"
          using iiter v p False br
          by (simp add: InternalGet_def T(2) opts(1) o' Iterator_Seek_def Iterator_Valid_def Iterator_status_def NewErrorIterator_def)
        then show ?thesis using post 2
          by (intro exI [of _ s] exI [of _ "[]"] exI [of _ t'] exI [of _ "run_cleanup cl bc'"]) simp
      qed
    qed
  qed
qed

end

end
