(* ===== verification/Ldb_Table_Open.thy ===== *)
theory Ldb_Table_Open
  imports Ldb_Table_Get
begin

text \<open>
  From the entries that are added to a builder to the answers of the table that is opened on the file.
\<close>

section \<open>The footer\<close>

text \<open>A read of the footer may be short. What is decoded from a part of it is what the whole of it says.\<close>

lemma GetVarint64Ptr_loop_append:
  "GetVarint64Ptr_loop shift result p = Some (v, r) \<Longrightarrow> GetVarint64Ptr_loop shift result (p @ zs) = Some (v, r @ zs)"
proof (induction shift result p rule: GetVarint64Ptr_loop.induct)
  case (1 shift result p)
  then show ?case
    by (subst GetVarint64Ptr_loop.simps, subst (asm) (2) GetVarint64Ptr_loop.simps) (auto simp: Let_def split: if_splits)
qed

lemma BlockHandle_DecodeFrom_append:
  assumes "BlockHandle_DecodeFrom h0 input = (s, h, r)" and "Status_ok s"
  shows "BlockHandle_DecodeFrom h0 (input @ zs) = (s, h, r @ zs)"
  using assms by (auto simp: BlockHandle_DecodeFrom_def GetVarint64_def GetVarint64Ptr_def GetVarint64Ptr_loop_append Let_def split: option.splits)

lemma Footer_prefix:
  assumes "footer_bytes F = c @ zs" and "Footer_DecodeFrom (memory c beyond) (length c) = (s, F')" and "Status_ok s"
  shows "F' = F"
proof -
  have c: "bytes_at (memory c beyond) 0 (length c) = c" using bytes_at_memory [of 0 "length c" c beyond] by simp
  obtain pad where p: "c @ zs = handle_bytes (ft_metaindex_handle F) @ handle_bytes (ft_index_handle F) @ pad"
    using footer_bytes_parts [of F] assms(1) by auto
  from assms(2,3) obtain s1 h1 r1 s2 h2 r2 where d1: "BlockHandle_DecodeFrom BlockHandle_new c = (s1, h1, r1)" "Status_ok s1"
    and d2: "BlockHandle_DecodeFrom BlockHandle_new r1 = (s2, h2, r2)" "Status_ok s2"
    and F': "F' = \<lparr>ft_metaindex_handle = h1, ft_index_handle = h2\<rparr>"
    unfolding Footer_DecodeFrom_def Let_def by (auto simp: c split: if_splits prod.splits)
  have 1: "h1 = ft_metaindex_handle F \<and> r1 @ zs = handle_bytes (ft_index_handle F) @ pad"
    using BlockHandle_DecodeFrom_append [OF d1, of zs] BlockHandle_DecodeFrom_bytes [of BlockHandle_new "ft_metaindex_handle F"] p by auto
  then have "h2 = ft_index_handle F"
    using BlockHandle_DecodeFrom_append [OF d2, of zs] BlockHandle_DecodeFrom_bytes [of BlockHandle_new "ft_index_handle F" pad] by auto
  with 1 F' show ?thesis by simp
qed

section \<open>Opening a table\<close>

lemma first_key_in_block: "es \<noteq> [] \<Longrightarrow> length (fst (es ! 0)) \<le> length (block_bytes k es)"
proof -
  assume "es \<noteq> []"
  then obtain rest where "e_all k es (length es) = e_all k es 0 @ e_bytes k es 0 @ rest" using e_all_split by blast
  moreover have "length (fst (es ! 0)) \<le> length (e_bytes k es 0)" by (simp add: e_bytes_def e_shared_def)
  ultimately show ?thesis by (simp add: block_bytes_def)
qed

lemma table_parts:
  assumes "k = op_block_restart_interval opt"
  obtains front meta index where "front = data_bytes k ess @ filter_part (op_filter_policy opt) k ess"
    and "meta = block_bytes k (meta_entries (op_filter_policy opt) k ess)" and "index = block_bytes 1 (index_entries k ess seps)"
    and "table_bytes opt ess seps = front @ framed meta @ framed index @ footer_bytes (table_footer front meta index)"
  using assms by (simp add: table_bytes_def Let_def)

text \<open>A cache in some session that has nothing under the identifier it will give out next.\<close>

definition cache_fresh :: "nat \<Rightarrow> block_cache \<Rightarrow> bool" where
  "cache_fresh N bc \<longleftrightarrow>
     (case bc of
        None \<Rightarrow> True
      | Some c \<Rightarrow> \<exists>capacity n held latest owner ins. n \<le> N \<and> cache_session capacity n c held latest owner ins \<and>
          (\<forall>offset. latest (cache_key (sh_last_id c + 1) offset) = None))"

context table_lookup
begin

lemma ReadFilter_ok:
  assumes "table_at opt ess seps (tr_file t)" and "k = op_block_restart_interval opt" and "op_filter_policy opt = Some p"
    and "tr_filter t = None" and "t' = ReadFilter beyond R t (handle_bytes (filter_handle p k ess))"
  shows "\<exists>f flt. t' = t\<lparr>tr_file := f, tr_filter := flt\<rparr> \<and> table_at opt ess seps f \<and>
    (flt = None \<or> flt = Some (FilterBlockReader_new (filter_bytes p k ess)))"
proof -
  have d: "BlockHandle_DecodeFrom BlockHandle_new (handle_bytes (filter_handle p k ess)) = (Status_OK, filter_handle p k ess, [])"
    using BlockHandle_DecodeFrom_bytes [of BlockHandle_new "filter_handle p k ess" "[]"] by simp
  obtain s bc f where r: "ReadBlock beyond R (tr_file t) (meta_read_options (tr_options t)) (filter_handle p k ess) = ((s, bc), f)"
    by (metis prod_cases3 surj_pair)
  obtain post where "table_bytes opt ess seps = data_bytes k ess @ framed (filter_bytes p k ess) @ post"
    by (rule table_parts [OF assms(2), of ess seps]) (simp add: filter_part_def assms(3))
  note e = read_at [OF assms(1) this filter_handle_def r]
  have "t' = t\<lparr>tr_file := f, tr_filter := if Status_ok s then Some (FilterBlockReader_new (filter_bytes p k ess)) else None\<rparr>"
    using assms(4,5) e r by (auto simp: ReadFilter_def d Let_def)
  with e show ?thesis by (intro exI [of _ f] exI [of _ "if Status_ok s then Some (FilterBlockReader_new (filter_bytes p k ess)) else None"]) simp
qed

lemma ReadMeta_ok:
  assumes "table_at opt ess seps (tr_file t)" and "k = op_block_restart_interval opt" and "0 < k" and "tr_options t = opt" and "tr_filter t = None"
    and "ft_metaindex_handle footer = \<lparr>bh_offset = of_nat (length (data_bytes k ess @ filter_part (op_filter_policy opt) k ess)),
      bh_size = of_nat (length (block_bytes k (meta_entries (op_filter_policy opt) k ess)))\<rparr>"
  shows "\<exists>f flt. ReadMeta beyond R t footer = Some (t\<lparr>tr_file := f, tr_filter := flt\<rparr>) \<and> table_at opt ess seps f \<and>
    (flt = None \<or> (\<exists>p. op_filter_policy opt = Some p \<and> flt = Some (FilterBlockReader_new (filter_bytes p k ess))))"
proof (cases "op_filter_policy opt")
  case None
  then show ?thesis using assms(1,4,5) by (intro exI [of _ "tr_file t"] exI [of _ None]) (simp add: ReadMeta_def)
next
  case (Some p)
  let ?key = "str ''filter.'' @ fo_Name p" and ?es = "meta_entries (op_filter_policy opt) k ess"
  have es: "?es = [(?key, handle_bytes (filter_handle p k ess))]" by (simp add: meta_entries_def Some)
  obtain s bc f where r: "ReadBlock beyond R (tr_file t) (meta_read_options opt) (ft_metaindex_handle footer) = ((s, bc), f)"
    by (metis prod_cases3 surj_pair)
  obtain post where "table_bytes opt ess seps = (data_bytes k ess @ filter_part (op_filter_policy opt) k ess) @ framed (block_bytes k ?es) @ post"
    by (rule table_parts [OF assms(2), of ess seps]) simp
  note e = read_at [OF assms(1) this assms(6) r]
  show ?thesis
  proof (cases "Status_ok s")
    case False
    then have "ReadMeta beyond R t footer = Some (t\<lparr>tr_file := f\<rparr>)" using r by (simp add: ReadMeta_def Some assms(4))
    then show ?thesis using e assms(5) by (intro exI [of _ f] exI [of _ None]) simp
  next
    case True
    let ?b = "Block_new (bc_data bc) (bc_size bc)"
    have b: "block_holds ?b k ?es" using e True by (auto simp: block_holds_def)
    have len: "length (block_bytes k ?es) < 2 ^ 32" using length_block_table(3) [OF _ assms(2)] assms(1) by (auto simp: table_at_def)
    have ok: "entries_ok (co_Compare BytewiseComparator) (\<lambda>_. True) ?es"
      using first_key_in_block [of ?es k] len by (simp add: entries_ok_def es)
    have "length (takeWhile (\<lambda>e. co_Compare BytewiseComparator (fst e) ?key < 0) ?es) = 0"
      using bytewise.order.irrefl [of ?key] by (simp add: es)
    from block_Seek [OF b assms(3) len ok bytewise.order.key_order_axioms TrueI this [symmetric]] obtain it where
      it: "Iterator_Seek (co_Compare BytewiseComparator) (Block_NewIterator ?b) ?key = Some it" "Iterator_Valid it"
        "Iterator_key it = ?key" "Iterator_value it = handle_bytes (filter_handle p k ess)" by (auto simp: es)
    have "ReadMeta beyond R t footer = Some (ReadFilter beyond R (t\<lparr>tr_file := f\<rparr>) (handle_bytes (filter_handle p k ess)))"
      using r True it Slice_eq_iff [of ?key ?key] by (simp add: ReadMeta_def Some assms(4))
    moreover have tf: "table_at opt ess seps (tr_file (t\<lparr>tr_file := f\<rparr>))" "tr_filter (t\<lparr>tr_file := f\<rparr>) = None" using e assms(5) by simp_all
    from ReadFilter_ok [OF tf(1) assms(2) Some tf(2) refl] obtain f' flt where
      "ReadFilter beyond R (t\<lparr>tr_file := f\<rparr>) (handle_bytes (filter_handle p k ess)) = t\<lparr>tr_file := f, tr_file := f', tr_filter := flt\<rparr>"
      "table_at opt ess seps f'" "flt = None \<or> flt = Some (FilterBlockReader_new (filter_bytes p k ess))" by blast
    ultimately show ?thesis using Some by (intro exI [of _ f'] exI [of _ flt]) auto
  qed
qed

lemma cache_fresh_NewId:
  assumes "cache_fresh N (Some c)" and "NewId c = (i, c')" and "N \<le> 2 ^ 31"
  shows "caches N k ess i (Some c')"
proof -
  from assms(1) obtain capacity n held latest owner ins where n: "n \<le> N" "cache_session capacity n c held latest owner ins"
    and fresh: "\<And>offset. latest (cache_key (sh_last_id c + 1) offset) = None" unfolding cache_fresh_def option.case by blast
  have c': "i = sh_last_id c + 1" "sh_shard c' = sh_shard c" using assms(2) by (auto simp: NewId_def)
  have "cache_ok n c held latest owner ins" using session_ok [OF n(2)] n(1) assms(3) by simp
  then have "cache_ok n c' held latest owner ins" by (simp add: cache_ok_def c')
  then show ?thesis by (rule cachesI) (use n(1) fresh in \<open>simp_all add: c'\<close>)
qed

lemma Footer_read:
  assumes "table_at opt ess seps f" and "table_bytes opt ess seps = pre @ footer_bytes F" and "file_size = of_nat (length (table_bytes opt ess seps))"
    and "ra_Read R f (file_size - of_nat Footer_kEncodedLength) (of_nat Footer_kEncodedLength) = ((s, c, b), f')"
  shows "\<not> unat file_size < Footer_kEncodedLength" and "table_at opt ess seps f'"
    and "full_reads R contents inv \<longrightarrow> Status_ok s \<and> c = footer_bytes F" and "Status_ok s \<Longrightarrow> \<exists>zs. footer_bytes F = c @ zs"
proof -
  let ?L = Footer_kEncodedLength
  have T: "inv f" "contents f = pre @ footer_bytes F" "length (contents f) < 2 ^ 32" using assms(1,2) by (simp_all add: table_at_def)
  have len: "length (contents f) = length pre + ?L" "length (table_bytes opt ess seps) = length pre + ?L"
    using T(2) assms(2) length_footer_bytes [of F] by simp_all
  have small: "length pre + ?L < 2 ^ 32" "?L < 2 ^ 32" using T(3) len by (simp_all add: Footer_kEncodedLength_def)
  have "unat (of_nat m :: uint64) = m" if "m < 2 ^ 32" for m using that by (simp add: unat_of_nat)
  from this [OF small(1)] this [OF small(2)] have u: "unat file_size = length pre + ?L" "unat (of_nat ?L :: uint64) = ?L"
    unfolding assms(3) len(2) by blast+
  then show "\<not> unat file_size < ?L" by simp
  have off: "unat (file_size - of_nat ?L) = length pre" using u by (subst unat_sub) (simp_all add: word_le_nat_alt)
  note e = read_effect [OF T(1) assms(4)]
  show "table_at opt ess seps f'" using e assms(1) by (simp add: table_at_def)
  have d: "take ?L (drop (length pre) (contents f)) = footer_bytes F" using T(2) length_footer_bytes [of F] by simp
  show "\<exists>zs. footer_bytes F = c @ zs" if "Status_ok s"
    using e that small d unfolding off u(2) by (auto simp: prefix_def)
  show "full_reads R contents inv \<longrightarrow> Status_ok s \<and> c = footer_bytes F"
  proof
    assume "full_reads R contents inv"
    then obtain b' f'' where "ra_Read R f (file_size - of_nat ?L) (of_nat ?L) = ((Status_OK, take ?L (drop (length pre) (contents f)), b'), f'')"
      using T(1) len(1) off u(2) unfolding full_reads_def by (metis order_refl)
    then show "Status_ok s \<and> c = footer_bytes F" using assms(4) d by simp
  qed
qed

text \<open>Opening succeeds with the table, or the file has failed.\<close>

lemma Open_ok:
  assumes "table_at opt ess seps f" and "0 < op_block_restart_interval opt" and "file_size = of_nat (length (table_bytes opt ess seps))"
    and "cache_fresh N bc" and "N \<le> 2 ^ 31"
  shows "\<exists>s tab bc'. Table_Open beyond R opt bc f file_size = Some (s, tab, bc') \<and> (full_reads R contents inv \<longrightarrow> Status_ok s) \<and>
    (Status_ok s \<longrightarrow> (\<exists>t. tab = Some t \<and> table_on opt ess seps t \<and> caches N (op_block_restart_interval opt) ess (tr_cache_id t) bc'))"
proof -
  define k where "k = op_block_restart_interval opt"
  obtain front meta index where P: "front = data_bytes k ess @ filter_part (op_filter_policy opt) k ess"
    "meta = block_bytes k (meta_entries (op_filter_policy opt) k ess)" "index = block_bytes 1 (index_entries k ess seps)"
    "table_bytes opt ess seps = front @ framed meta @ framed index @ footer_bytes (table_footer front meta index)"
    by (rule table_parts [OF k_def])
  let ?F = "table_footer front meta index"
  have foot: "table_bytes opt ess seps = (front @ framed meta @ framed index) @ footer_bytes ?F" using P(4) by simp
  obtain s c b f1 where r: "ra_Read R f (file_size - of_nat Footer_kEncodedLength) (of_nat Footer_kEncodedLength) = ((s, c, b), f1)"
    by (metis prod_cases3 surj_pair)
  note rd = Footer_read [OF assms(1) foot assms(3) r]
  show ?thesis
  proof (cases "Status_ok s")
    case False
    then show ?thesis using r rd(1,3) by (auto simp: Table_Open_def)
  next
    case s: True
    obtain s2 F where d: "Footer_DecodeFrom (memory c beyond) (length c) = (s2, F)" by fastforce
    have full2: "Status_ok s2" if "full_reads R contents inv"
      using rd(3) that d Footer_roundtrip [of ?F beyond] length_footer_bytes [of ?F] by auto
    show ?thesis
    proof (cases "Status_ok s2")
      case False
      then show ?thesis using r rd(1) s d full2 by (auto simp: Table_Open_def)
    next
      case s2: True
      obtain zs where "footer_bytes ?F = c @ zs" using rd(4) [OF s] by blast
      from Footer_prefix [OF this d s2] have F: "F = ?F" .
      obtain s3 ic f2 where ri: "ReadBlock beyond R f1 (meta_read_options opt) (ft_index_handle ?F) = ((s3, ic), f2)"
        by (metis prod_cases3 surj_pair)
      have "table_bytes opt ess seps = (front @ framed meta) @ framed index @ footer_bytes ?F" using P(4) by simp
      from read_at [OF rd(2) this _ ri] have e: "table_at opt ess seps f2" "full_reads R contents inv \<longrightarrow> Status_ok s3"
        "Status_ok s3 \<longrightarrow> bc_size ic = length index \<and> bytes_at (bc_data ic) 0 (length index) = index" by (simp_all add: table_footer_def)
      show ?thesis
      proof (cases "Status_ok s3")
        case False
        then show ?thesis using r rd(1) s d s2 ri e(2) by (auto simp: Table_Open_def F)
      next
        case s3: True
        define ib where "ib = Block_new (bc_data ic) (bc_size ic)"
        have ib: "block_holds ib 1 (index_entries k ess seps)" using e(3) s3 by (auto simp: block_holds_def ib_def P(3))
        obtain i bc' where i: "(case bc of Some c \<Rightarrow> (let (i, c) = NewId c in (i, Some c)) | None \<Rightarrow> (0, None)) = (i, bc')" by fastforce
        have caches: "caches N k ess i bc'"
        proof (cases bc)
          case None
          with i show ?thesis by (simp add: caches_def)
        next
          case (Some c)
          obtain i' c' where "NewId c = (i', c')" by fastforce
          with cache_fresh_NewId [OF _ this assms(5)] assms(4) Some i show ?thesis by simp
        qed
        let ?t = "\<lparr>tr_options = opt, tr_file = f2, tr_cache_id = i, tr_filter = None, tr_metaindex_handle = ft_metaindex_handle ?F, tr_index_block = ib\<rparr>"
        have "\<exists>f3 flt. ReadMeta beyond R ?t ?F = Some (?t\<lparr>tr_file := f3, tr_filter := flt\<rparr>) \<and> table_at opt ess seps f3 \<and>
          (flt = None \<or> (\<exists>p. op_filter_policy opt = Some p \<and> flt = Some (FilterBlockReader_new (filter_bytes p k ess))))"
          by (rule ReadMeta_ok [OF _ k_def]) (use e(1) assms(2) in \<open>simp_all add: k_def table_footer_def P(1,2)\<close>)
        then obtain f3 flt where m: "ReadMeta beyond R ?t ?F = Some (?t\<lparr>tr_file := f3, tr_filter := flt\<rparr>)" and f3: "table_at opt ess seps f3"
          and flt: "flt = None \<or> (\<exists>p. op_filter_policy opt = Some p \<and> flt = Some (FilterBlockReader_new (filter_bytes p k ess)))" by blast
        have "Table_Open beyond R opt bc f file_size = Some (s3, Some (?t\<lparr>tr_file := f3, tr_filter := flt\<rparr>), bc')"
          using r rd(1) s d s2 ri s3 i m by (simp add: Table_Open_def F ib_def [symmetric])
        moreover have "table_on opt ess seps (?t\<lparr>tr_file := f3, tr_filter := flt\<rparr>)"
          using f3 flt ib by (simp add: table_on_def Let_def k_def)
        ultimately show ?thesis using caches s3 by (auto simp: k_def)
      qed
    qed
  qed
qed

end

section \<open>Property\<close>

text \<open>Lookups one after the other: the status of each, and the entries that were passed on.\<close>

fun table_gets ::
  "(nat \<Rightarrow> byte) \<Rightarrow> 'f rafile_ops \<Rightarrow> 'f Table \<Rightarrow> block_cache \<Rightarrow> (ReadOptions \<times> slice) list \<Rightarrow> (status \<times> (slice \<times> slice) list) list option" where
  "table_gets beyond R t bc [] = Some []"
| "table_gets beyond R t bc ((options, k) # qs) =
     do {
       (s, calls, t, bc) \<leftarrow> InternalGet beyond R t bc options k [] (\<lambda>calls key val. calls @ [(key, val)]);
       rs \<leftarrow> table_gets beyond R t bc qs;
       Some ((s, calls) # rs)
     }"

context table_lookup
begin

lemma gets_ok:
  assumes "table_on opt ess seps t" and "options_ok opt (concat ess)" and "table_data C ok ess seps"
    and "caches N (op_block_restart_interval opt) ess (tr_cache_id t) bc" and "N + 3 * length qs < 2 ^ 31" and "list_all (\<lambda>(options, target). ok target) qs"
  shows "\<exists>rs. table_gets beyond R t bc qs = Some rs \<and>
    list_all2 (\<lambda>(options, target) (s, calls). (full_reads R contents inv \<longrightarrow> Status_ok s) \<and>
      (if Status_ok s then answers C same (concat ess) target calls else calls = [])) qs rs"
  using assms
proof (induction qs arbitrary: t bc N)
  case (Cons q qs)
  obtain options target where q: "q = (options, target)" by fastforce
  have "ok target" "N + 3 < 2 ^ 31" using Cons.prems(5,6) q by simp_all
  from InternalGet_ok [OF Cons.prems(1-3) this(1) refl Cons.prems(4) this(2), of beyond options "[]" "\<lambda>calls key val. calls @ [(key, val)]"]
  obtain s calls t' bc' where g: "InternalGet beyond R t bc options target [] (\<lambda>calls key val. calls @ [(key, val)]) =
      Some (s, foldl (\<lambda>a (key, val). a @ [(key, val)]) [] calls, t', bc')"
    and t': "table_on opt ess seps t'" "tr_cache_id t' = tr_cache_id t" "caches (N + 3) (op_block_restart_interval opt) ess (tr_cache_id t) bc'"
    and s: "full_reads R contents inv \<longrightarrow> Status_ok s" "if Status_ok s then answers C same (concat ess) target calls else calls = []" by blast
  have "foldl (\<lambda>a (key, val). a @ [(key, val)]) xs calls = xs @ calls" for xs by (induction calls arbitrary: xs) auto
  note g = g [unfolded this append_Nil]
  have "caches (N + 3) (op_block_restart_interval opt) ess (tr_cache_id t') bc'" "N + 3 + 3 * length qs < 2 ^ 31"
    "list_all (\<lambda>(options, target). ok target) qs" using t'(2,3) Cons.prems(5,6) by simp_all
  from Cons.IH [OF t'(1) Cons.prems(2,3) this] obtain rs where "table_gets beyond R t' bc' qs = Some rs"
    "list_all2 (\<lambda>(options, target) (s, calls). (full_reads R contents inv \<longrightarrow> Status_ok s) \<and>
      (if Status_ok s then answers C same (concat ess) target calls else calls = [])) qs rs" by blast
  then show ?case using g s q by (intro exI [of _ "(s, calls) # rs"]) simp
qed simp

end

interpretation posix_tables: table_lookup posix_random_ops rf_contents "\<lambda>_. True" "InternalKeyComparator BytewiseComparator"
    bytewise.internal_ok "\<lambda>x y. ExtractUserKey x = ExtractUserKey y"
  by (rule table_lookup.intro [OF posix_random.random_access_file_axioms internal_keys.lookup_keys_axioms])

text \<open>C9: what is put into a table is found in it. Entries with ascending keys are added to a builder on a file that meets its
  interface, with any options and any filter that meets its interface; the builder finishes with OK, and the file is opened
  for reading. Opening returns; it succeeds unless a read has failed. Then any sequence of lookups returns, each with OK unless a
  read has failed; with OK, the entry that was passed on is the first one that is not smaller than the target, or none was
  passed on and the table has no such entry or one for another key. This holds for every block size, restart interval and cache, whatever
  the cache has evicted, and also when reads are short.\<close>

theorem table_lookup_correct:
  assumes "table_writer W written disk winv" and "random_access_file R contents rinv" and "lookup_keys C ok same"
    and "op_comparator opt = C" and "0 < op_block_restart_interval opt"
    and "\<forall>p. op_filter_policy opt = Some p \<longrightarrow> filter_policy p small same \<and> small (map fst es)"
    and "entries_ok (co_Compare C) ok es" and "winv f" and "written f = []"
    and "TableBuilder_Finish W (add_entries W (TableBuilder_new opt f) es) = (s, r)" and "Status_ok s"
    and "rinv g" and "contents g = written (tb_file r)" and "length (contents g) < 2 ^ 32"
    and "cache_fresh n bc" and "n + 3 * length qs < 2 ^ 31" and "list_all (\<lambda>(options, target). ok target) qs"
  shows "\<exists>so tab bc'. Table_Open beyond R opt bc g (FileSize r) = Some (so, tab, bc') \<and> (full_reads R contents rinv \<longrightarrow> Status_ok so) \<and>
    (Status_ok so \<longrightarrow> (\<exists>t rs. tab = Some t \<and> table_gets beyond R t bc' qs = Some rs \<and>
       list_all2 (\<lambda>(options, target) (s, calls). (full_reads R contents rinv \<longrightarrow> Status_ok s) \<and>
         (if Status_ok s then answers C same es target calls else calls = [])) qs rs))"
proof -
  have L: "table_lookup R contents rinv C ok same" by (rule table_lookup.intro [OF assms(2,3)])
  have C: "comparator (op_comparator opt) ok" using assms(3,4) by (simp add: lookup_keys_def)
  from table_writer.table_written [OF assms(1,8,9,5) C _ assms(10,11)] assms(4,7) obtain ess seps where
    w: "written (tb_file r) = table_bytes opt ess seps" and es: "concat ess = es" and ne: "\<forall>b \<in> set ess. b \<noteq> []"
    and seps: "length seps = length ess" "separated C ok ess seps" and size: "FileSize r = of_nat (length (table_bytes opt ess seps))" by blast
  have D: "table_data C ok ess seps" using assms(7) es ne seps by (simp add: table_data_def)
  have opts: "table_lookup.options_ok C same opt (concat ess)"
    using assms(4-6) es unfolding table_lookup.options_ok_def [OF L] by blast
  have A: "random_access_file.table_at contents rinv opt ess seps g"
    using assms(12-14) w by (simp add: random_access_file.table_at_def [OF assms(2)])
  have N: "n \<le> 2 ^ 31" using assms(16) by simp
  obtain so tab bc' where o: "Table_Open beyond R opt bc g (FileSize r) = Some (so, tab, bc')" "full_reads R contents rinv \<longrightarrow> Status_ok so"
    "Status_ok so \<longrightarrow> (\<exists>t. tab = Some t \<and> table_lookup.table_on contents rinv opt ess seps t \<and>
       caches n (op_block_restart_interval opt) ess (tr_cache_id t) bc')"
    using table_lookup.Open_ok [OF L A assms(5) size assms(15) N] by blast
  have "\<exists>t rs. tab = Some t \<and> table_gets beyond R t bc' qs = Some rs \<and>
       list_all2 (\<lambda>(options, target) (s, calls). (full_reads R contents rinv \<longrightarrow> Status_ok s) \<and>
         (if Status_ok s then answers C same es target calls else calls = [])) qs rs" if ok: "Status_ok so"
  proof -
    from o(3) ok obtain t where t: "tab = Some t" "table_lookup.table_on contents rinv opt ess seps t"
      "caches n (op_block_restart_interval opt) ess (tr_cache_id t) bc'" by blast
    from table_lookup.gets_ok [OF L t(2) opts D t(3) assms(16,17)] t(1) show ?thesis unfolding es by blast
  qed
  with o(1,2) show ?thesis by blast
qed

text \<open>One entry, a Bloom filter and a cache; a key that is there and one that is not.\<close>

definition table_options :: Options where
  "table_options = \<lparr>op_comparator = BytewiseComparator, op_paranoid_checks = True, op_block_size = 4096, op_block_restart_interval = 16,
     op_compression = kSnappyCompression, op_filter_policy = Some (BloomFilterPolicy 10)\<rparr>"

definition table_file :: PosixWritableFile where
  "table_file = PosixWritableFile_new (str ''000005.ldb'') 3 [] \<lparr>os_answers = [], os_strerror = (\<lambda>_. [])\<rparr>"

definition table_builder :: "status \<times> PosixWritableFile TableBuilder" where
  "table_builder = TableBuilder_Finish posix_ops (add_entries posix_ops (TableBuilder_new table_options table_file) [([1], [7])])"

definition table_contents :: PosixRandomAccessFile where
  "table_contents = \<lparr>rf_has_permanent_fd = True, rf_filename = str ''000005.ldb'', rf_contents = wf_written (tb_file (snd table_builder)),
     rf_os = \<lparr>os_answers = [], os_strerror = (\<lambda>_. [])\<rparr>\<rparr>"

interpretation quiet_random: random_access_file posix_random_ops rf_contents "\<lambda>f. os_answers (rf_os f) = []"
proof
  fix f offset n s c b f'
  assume "os_answers (rf_os f) = []" and r: "ra_Read posix_random_ops f offset n = ((s, c, b), f')"
  then have "os_answers (rf_os f') = []"
    by (auto simp: posix_random_ops_def RandomRead_def pread_def sys_answer_def split: if_splits)
  with posix_random.read_effect [OF TrueI r] show "os_answers (rf_os f') = [] \<and> rf_contents f' = rf_contents f \<and>
      (Status_ok s \<and> unat offset + unat n < 2 ^ 64 \<longrightarrow> prefix c (take (unat n) (drop (unat offset) (rf_contents f))))" by simp
qed

lemma quiet_full_reads: "full_reads posix_random_ops rf_contents (\<lambda>f. os_answers (rf_os f) = [])"
  by (auto simp: full_reads_def posix_random_ops_def RandomRead_def pread_def sys_answer_def)

lemma length_single_block: "length (block_bytes k [(key, val)]) \<le> length key + length val + 23"
proof -
  have "length (EncodeVarint32 v) \<le> 5" for v
    using unat_less_pow [of v] by (simp add: EncodeVarint32_spec length_varint_spec_le)
  from this [of 0] this [of "of_nat (length key)"] this [of "of_nat (length val)"] show ?thesis
    by (simp add: block_bytes_def num_points_def e_all_def e_bytes_def e_shared_def)
qed

lemma table_example_length: "length (table_bytes table_options [[([1], [7])]] [[2]]) < 2 ^ 32"
proof -
  let ?p = "BloomFilterPolicy 10" and ?ess = "[[([1], [7])]] :: (slice \<times> slice) list list"
  have data: "length (data_bytes 16 ?ess) \<le> 30"
    using length_single_block [of 16 "[1]" "[7]"] by (simp add: data_bytes_def kBlockTrailerSize_def)
  have small: "(of_nat (length (data_bytes 16 ?ess)) :: uint64) div 2048 = 0"
    using data by (simp add: unat_eq_zero [symmetric] unat_div unat_of_nat)
  have filter: "length (filter_bytes ?p 16 ?ess) \<le> 100"
    using small
    by (simp add: filter_bytes_def filter_of_blocks_def filter_blocks_def FilterBlock_Finish_def GenerateFilter_def add_block_def StartBlock_def
        generate_upto.simps AddKey_def FilterBlockBuilder_new_def BloomFilterPolicy_def Bloom_CreateFilter_def add_key_def kFilterBase_def
        kFilterBaseLg_def Let_def PutFixed32_def EncodeFixed_bytes data_bytes_def [of 16 "[]"])
  have h: "length (handle_bytes h) \<le> 20" for h using length_handle_bytes [of h] by (simp add: kMaxEncodedLength_def)
  have "length (block_bytes 16 (meta_entries (Some ?p) 16 ?ess)) \<le> 100"
    using length_single_block [of 16 "str ''filter.'' @ fo_Name ?p" "handle_bytes (filter_handle ?p 16 ?ess)"] h [of "filter_handle ?p 16 ?ess"]
    by (simp add: meta_entries_def BloomFilterPolicy_def str_def)
  moreover have "length (block_bytes 1 (index_entries 16 ?ess [[2]])) \<le> 100"
    using length_single_block [of 1 "[2]" "handle_bytes (handle_at 16 ?ess 0)"] h [of "handle_at 16 ?ess 0"] by (simp add: index_entries_def)
  ultimately show ?thesis
    using data filter length_footer_bytes by (simp add: table_bytes_def Let_def table_options_def filter_part_def kBlockTrailerSize_def Footer_kEncodedLength_def kMaxEncodedLength_def)
qed

lemma table_example_written:
  "wf_inv table_file \<and> wf_written table_file = [] \<and> entries_ok (co_Compare BytewiseComparator) (\<lambda>_. True) [([1], [7])] \<and>
   Status_ok (fst table_builder) \<and> length (wf_written (tb_file (snd table_builder))) < 2 ^ 32"
proof -
  have f: "wf_inv table_file" "wf_written table_file = []" "os_answers (wf_os table_file) = []"
    by (simp_all add: table_file_def PosixWritableFile_new_def wf_inv_def wf_written_def)
  have e: "entries_ok (co_Compare BytewiseComparator) (\<lambda>_. True) [([1], [7])]" by (simp add: entries_ok_def)
  have ok: "Status_ok (fst table_builder)" unfolding table_builder_def by (rule Finish_reliable [OF posix_reliable f(3)])
  obtain s r where b: "table_builder = (s, r)" by fastforce
  have o: "0 < op_block_restart_interval table_options" "op_comparator table_options = BytewiseComparator" by (simp_all add: table_options_def)
  have "\<exists>ess seps. wf_inv (tb_file r) \<and> wf_written (tb_file r) = table_bytes table_options ess seps \<and> concat ess = [([1], [7])] \<and>
    (\<forall>b \<in> set ess. b \<noteq> []) \<and> length seps = length ess \<and> separated (op_comparator table_options) (\<lambda>_. True) ess seps \<and>
    FileSize r = of_nat (length (table_bytes table_options ess seps)) \<and>
    (seps \<noteq> [] \<longrightarrow> last seps = co_FindShortSuccessor (op_comparator table_options) (fst (last [([1], [7 :: byte])])))"
    by (rule posix_table.table_written [OF f(1,2) o(1) _ _ b [unfolded table_builder_def]]) (use ok [unfolded b] o(2) e bytewise.comparator_axioms in simp_all)
  then obtain ess seps where w: "wf_written (tb_file r) = table_bytes table_options ess seps" "concat ess = [([1], [7])]" "\<forall>b \<in> set ess. b \<noteq> []"
    "length seps = length ess" "seps \<noteq> [] \<longrightarrow> last seps = co_FindShortSuccessor BytewiseComparator [1]" by (auto simp: o(2))
  have "ess = [[([1], [7])]]" using w(2,3) by (cases ess) (auto simp: append_eq_Cons_conv concat_eq_Nil_conv neq_Nil_conv)
  moreover have "seps = [[2]]" using w(4,5) calculation
    by (cases seps) (auto simp: BytewiseComparator_def)
  ultimately show ?thesis using f e ok w(1) table_example_length unfolding b by simp
qed

theorem table_lookup_correct_witness:
  "\<exists>c so t bc' s1 s2. ShardedLRUCache_new 100 = Some c \<and>
     Table_Open (\<lambda>_. 0) posix_random_ops table_options (Some c) table_contents (FileSize (snd table_builder)) = Some (so, Some t, bc') \<and>
     table_gets (\<lambda>_. 0) posix_random_ops t bc' [(ReadOptions_new, [1]), (ReadOptions_new, [5])] = Some [(s1, [([1], [7])]), (s2, [])] \<and>
     Status_ok so \<and> Status_ok s1 \<and> Status_ok s2"
proof -
  let ?qs = "[(ReadOptions_new, [1]), (ReadOptions_new, [5])]" and ?es = "[([1], [7])] :: (slice \<times> slice) list"
  obtain s :: "Block LRUCache" where s: "LRUCache_new = Some s" using LRUCache_new_shard [where 'a = Block] by blast
  obtain c :: "Block ShardedLRUCache" where c: "ShardedLRUCache_new 100 = Some c" unfolding ShardedLRUCache_new_def Let_def s by simp
  have fresh: "cache_fresh 0 (Some c)"
    unfolding cache_fresh_def option.case using cache_session.start [OF c] by blast
  obtain sb r where b: "table_builder = (sb, r)" by fastforce
  note ex = table_example_written [unfolded b fst_conv snd_conv]
  have g: "os_answers (rf_os table_contents) = []" "rf_contents table_contents = wf_written (tb_file r)"
    "length (rf_contents table_contents) < 2 ^ 32" using ex by (simp_all add: table_contents_def b)
  have opt: "op_comparator table_options = BytewiseComparator" "0 < op_block_restart_interval table_options"
    "\<forall>p. op_filter_policy table_options = Some p \<longrightarrow> filter_policy p (\<lambda>keys. length keys * 10 + 7 < 2 ^ 64) (=) \<and> length (map fst ?es) * 10 + 7 < 2 ^ 64"
    using bloom.filter_policy_axioms [of 10] by (simp_all add: table_options_def)
  have bits: "wf_inv table_file" "wf_written table_file = []" "Status_ok sb" "entries_ok (co_Compare BytewiseComparator) (\<lambda>_. True) ?es"
    "0 + 3 * length ?qs < (2 :: nat) ^ 31" "list_all (\<lambda>(options, target). True) ?qs" using ex by simp_all
  obtain so tab bc' where o: "Table_Open (\<lambda>_. 0) posix_random_ops table_options (Some c) table_contents (FileSize r) = Some (so, tab, bc')" "Status_ok so"
    "\<exists>t rs. tab = Some t \<and> table_gets (\<lambda>_. 0) posix_random_ops t bc' ?qs = Some rs \<and>
       list_all2 (\<lambda>(options, target) (s, calls). (full_reads posix_random_ops rf_contents (\<lambda>f. os_answers (rf_os f) = []) \<longrightarrow> Status_ok s) \<and>
         (if Status_ok s then answers BytewiseComparator (=) ?es target calls else calls = [])) ?qs rs"
    using table_lookup_correct [OF posix_table.table_writer_axioms quiet_random.random_access_file_axioms bytewise_keys.lookup_keys_axioms opt bits(4,1,2)
      b [unfolded table_builder_def] bits(3) g fresh bits(5,6), of "\<lambda>_. 0"] quiet_full_reads by blast
  then obtain t rs where t: "tab = Some t" "table_gets (\<lambda>_. 0) posix_random_ops t bc' ?qs = Some rs"
    and rs: "list_all2 (\<lambda>(options, target) (s, calls). Status_ok s \<and> answers BytewiseComparator (=) ?es target calls) ?qs rs"
    using quiet_full_reads by (auto simp: list_all2_Cons1)
  have "answers BytewiseComparator (=) ?es [1] calls \<longleftrightarrow> calls = ?es" "answers BytewiseComparator (=) ?es [5] calls \<longleftrightarrow> calls = []" for calls
    by (auto simp: answers_def first_from_def BytewiseComparator_def Bytewise_Compare_def Slice_compare_def)
  then obtain s1 s2 where rs: "rs = [(s1, ?es), (s2, [])]" "Status_ok s1" "Status_ok s2" using rs by (auto simp: list_all2_Cons1)
  have "snd table_builder = r" by (simp add: b)
  then show ?thesis using c o(1,2) t rs by (metis (no_types))
qed

end
