(* ===== verification/Ldb_Filename.thy ===== *)
theory Ldb_Filename
  imports Ldb_Dbformat
begin

text \<open>
  The names of the files of a database, \<open>db/filename.cc\<close>, and the printing and parsing of numbers and strings of
  \<open>util/logging.cc\<close>.
\<close>

section \<open>Numbers and strings\<close>

text \<open>The digits that \<open>printf\<close> writes for a number, and with zeros in front up to a width.\<close>

fun decimal_text :: "nat \<Rightarrow> byte list" where
  "decimal_text n = (if n < 10 then [of_nat (48 + n)] else decimal_text (n div 10) @ [of_nat (48 + n mod 10)])"

declare decimal_text.simps [simp del]

definition padded :: "nat \<Rightarrow> nat \<Rightarrow> byte list" where
  "padded width n = replicate (width - length (decimal_text n)) 48 @ decimal_text n"

definition AppendNumberTo :: "byte list \<Rightarrow> uint64 \<Rightarrow> byte list" where
  "AppendNumberTo dst num = dst @ decimal_text (unat num)"

definition NumberToString :: "uint64 \<Rightarrow> byte list" where
  "NumberToString num = AppendNumberTo [] num"

definition hex_digit :: "nat \<Rightarrow> byte" where
  "hex_digit n = of_nat (if n < 10 then 48 + n else 87 + n)"

text \<open>Characters are signed: those from 128 on are negative and are escaped.\<close>

definition escape_char :: "byte \<Rightarrow> byte list" where
  "escape_char c =
     (if 32 \<le> sint c \<and> sint c \<le> 126 then [c]
      else [92, 120, hex_digit (unat c div 16), hex_digit (unat c mod 16)])"

definition AppendEscapedStringTo :: "byte list \<Rightarrow> slice \<Rightarrow> byte list" where
  "AppendEscapedStringTo dst val = foldl (\<lambda>dst c. dst @ escape_char c) dst val"

definition EscapeString :: "slice \<Rightarrow> byte list" where
  "EscapeString val = AppendEscapedStringTo [] val"

definition kMaxUint64 :: uint64 where
  "kMaxUint64 = - 1"

definition kLastDigitOfMaxUint64 :: byte where
  "kLastDigitOfMaxUint64 = 48 + ucast (kMaxUint64 mod 10)"

fun ConsumeDecimalNumber_loop :: "uint64 \<Rightarrow> slice \<Rightarrow> (uint64 \<times> slice) option" where
  "ConsumeDecimalNumber_loop val [] = Some (val, [])"
| "ConsumeDecimalNumber_loop val (ch # current) =
     (if ch < 48 \<or> ch > 57 then Some (val, ch # current)
      else if val > kMaxUint64 div 10 \<or> val = kMaxUint64 div 10 \<and> ch > kLastDigitOfMaxUint64 then None
      else ConsumeDecimalNumber_loop (val * 10 + (ucast ch - 48)) current)"

definition ConsumeDecimalNumber :: "slice \<Rightarrow> (uint64 \<times> slice) option" where
  "ConsumeDecimalNumber input =
     (case ConsumeDecimalNumber_loop 0 input of
        None \<Rightarrow> None
      | Some (val, input') \<Rightarrow> if length input - length input' \<noteq> 0 then Some (val, input') else None)"

section \<open>Names\<close>

datatype FileType = kLogFile | kDBLockFile | kTableFile | kDescriptorFile | kCurrentFile | kTempFile | kInfoLogFile

definition MakeFileName :: "byte list \<Rightarrow> uint64 \<Rightarrow> byte list \<Rightarrow> byte list" where
  "MakeFileName dbname number suffix = dbname @ str ''/'' @ padded 6 (unat number) @ str ''.'' @ suffix"

definition LogFileName :: "byte list \<Rightarrow> uint64 \<Rightarrow> byte list" where
  "LogFileName dbname number = MakeFileName dbname number (str ''log'')"

definition TableFileName :: "byte list \<Rightarrow> uint64 \<Rightarrow> byte list" where
  "TableFileName dbname number = MakeFileName dbname number (str ''ldb'')"

definition SSTTableFileName :: "byte list \<Rightarrow> uint64 \<Rightarrow> byte list" where
  "SSTTableFileName dbname number = MakeFileName dbname number (str ''sst'')"

definition DescriptorFileName :: "byte list \<Rightarrow> uint64 \<Rightarrow> byte list" where
  "DescriptorFileName dbname number = dbname @ str ''/MANIFEST-'' @ padded 6 (unat number)"

definition CurrentFileName :: "byte list \<Rightarrow> byte list" where
  "CurrentFileName dbname = dbname @ str ''/CURRENT''"

definition LockFileName :: "byte list \<Rightarrow> byte list" where
  "LockFileName dbname = dbname @ str ''/LOCK''"

definition TempFileName :: "byte list \<Rightarrow> uint64 \<Rightarrow> byte list" where
  "TempFileName dbname number = MakeFileName dbname number (str ''dbtmp'')"

definition InfoLogFileName :: "byte list \<Rightarrow> byte list" where
  "InfoLogFileName dbname = dbname @ str ''/LOG''"

definition OldInfoLogFileName :: "byte list \<Rightarrow> byte list" where
  "OldInfoLogFileName dbname = dbname @ str ''/LOG.old''"

definition ParseFileName :: "slice \<Rightarrow> (uint64 \<times> FileType) option" where
  "ParseFileName filename =
     (if Slice_eq filename (str ''CURRENT'') then Some (0, kCurrentFile)
      else if Slice_eq filename (str ''LOCK'') then Some (0, kDBLockFile)
      else if Slice_eq filename (str ''LOG'') \<or> Slice_eq filename (str ''LOG.old'') then Some (0, kInfoLogFile)
      else if Slice_starts_with filename (str ''MANIFEST-'') then
        (case ConsumeDecimalNumber (remove_prefix (length (str ''MANIFEST-'')) filename) of
           None \<Rightarrow> None
         | Some (num, input) \<Rightarrow> if input \<noteq> [] then None else Some (num, kDescriptorFile))
      else
        (case ConsumeDecimalNumber filename of
           None \<Rightarrow> None
         | Some (num, suffix) \<Rightarrow>
             if Slice_eq suffix (str ''.log'') then Some (num, kLogFile)
             else if Slice_eq suffix (str ''.sst'') \<or> Slice_eq suffix (str ''.ldb'') then Some (num, kTableFile)
             else if Slice_eq suffix (str ''.dbtmp'') then Some (num, kTempFile)
             else None))"

section \<open>Digits\<close>

definition is_digit :: "byte \<Rightarrow> bool" where
  "is_digit ch \<longleftrightarrow> 48 \<le> ch \<and> ch \<le> 57"

definition digits_value :: "byte list \<Rightarrow> nat" where
  "digits_value ds = foldl (\<lambda>n d. 10 * n + (unat d - 48)) 0 ds"

lemma foldl_digits_mono: "n \<le> foldl (\<lambda>n d. 10 * n + (unat d - 48)) n ds"
proof (induction ds arbitrary: n)
  case (Cons d ds)
  have "n \<le> 10 * n + (unat d - 48)" by simp
  also have "\<dots> \<le> foldl (\<lambda>n d. 10 * n + (unat d - 48)) (10 * n + (unat d - 48)) ds" by (rule Cons.IH)
  finally show ?case by simp
qed simp

text \<open>The loop computes the value of the digits, and fails exactly when it does not fit into 64 bits.\<close>

lemma ConsumeDecimalNumber_loop_digits:
  assumes "list_all is_digit ds" and "rest' = [] \<or> \<not> is_digit (hd rest')"
  shows "ConsumeDecimalNumber_loop val (ds @ rest') =
    (let n = foldl (\<lambda>n d. 10 * n + (unat d - 48)) (unat val) ds in if n < 2 ^ 64 then Some (of_nat n, rest') else None)"
  using assms(1)
proof (induction ds arbitrary: val)
  case Nil
  show ?case using assms(2) unat_less_64 [of val] by (cases rest') (auto simp: Let_def is_digit_def not_le)
next
  case (Cons d ds)
  have d: "48 \<le> unat d" "unat d \<le> 57" using Cons.prems by (auto simp: is_digit_def word_le_nat_alt)
  have ud: "unat (ucast d - 48 :: uint64) = unat d - 48"
    using d by (subst unat_sub) (simp_all add: word_le_nat_alt unsigned_ucast_eq take_bit_nat_eq_self)
  have last: "unat kLastDigitOfMaxUint64 = 53" "unat (kMaxUint64 div 10) = 1844674407370955161"
    by (simp_all add: kLastDigitOfMaxUint64_def kMaxUint64_def)
  let ?m = "10 * unat val + (unat d - 48)"
  have over: "(val > kMaxUint64 div 10 \<or> val = kMaxUint64 div 10 \<and> d > kLastDigitOfMaxUint64) \<longleftrightarrow> 2 ^ 64 \<le> ?m"
    using d unfolding word_less_nat_alt word_unat_eq_iff last by auto
  show ?case
  proof (cases "2 ^ 64 \<le> ?m")
    case True
    then have "\<not> foldl (\<lambda>n d. 10 * n + (unat d - 48)) ?m ds < 2 ^ 64" using foldl_digits_mono [of ?m ds] by linarith
    then show ?thesis using True over d by (simp add: Let_def word_less_nat_alt)
  next
    case False
    then have "unat (val * 10 + (ucast d - 48)) = ?m"
      by (simp add: unat_word_ariths ud mult.commute)
    then show ?thesis using Cons False over d by (auto simp: Let_def word_less_nat_alt)
  qed
qed

lemma ConsumeDecimalNumber_spec:
  assumes "list_all is_digit ds" and "rest' = [] \<or> \<not> is_digit (hd rest')"
  shows "ConsumeDecimalNumber (ds @ rest') =
    (if ds \<noteq> [] \<and> digits_value ds < 2 ^ 64 then Some (of_nat (digits_value ds), rest') else None)"
  using ConsumeDecimalNumber_loop_digits [OF assms, of 0]
  by (auto simp: ConsumeDecimalNumber_def digits_value_def Let_def)

lemma decimal_digits: "list_all is_digit (decimal_text n) \<and> decimal_text n \<noteq> [] \<and> digits_value (decimal_text n) = n"
proof (induction n rule: decimal_text.induct)
  case (1 n)
  have d: "unat (of_nat (48 + m) :: byte) = 48 + m" if "m < 10" for m using that by (simp add: unat_of_nat del: of_nat_add)
  have "is_digit (of_nat (48 + m))" if "m < 10" for m using d [OF that] that by (simp add: is_digit_def word_le_nat_alt del: of_nat_add)
  then show ?case using 1 d [of n] d [of "n mod 10"]
    by (subst (1 2 3) decimal_text.simps) (auto simp: digits_value_def simp del: of_nat_add)
qed

lemma padded_digits: "list_all is_digit (padded w n) \<and> padded w n \<noteq> [] \<and> digits_value (padded w n) = n"
proof -
  have "foldl (\<lambda>n d. 10 * n + (unat d - 48)) 0 (replicate k (48 :: byte)) = 0" for k by (induction k) simp_all
  then show ?thesis using decimal_digits [of n]
    by (auto simp: padded_def digits_value_def list_all_iff is_digit_def)
qed

lemma padded_parse:
  assumes "rest' = [] \<or> \<not> is_digit (hd rest')"
  shows "ConsumeDecimalNumber (padded w (unat num) @ rest') = Some (num, rest')"
  using ConsumeDecimalNumber_spec [OF _ assms, of "padded w (unat num)"] padded_digits [of w "unat num"] unat_less_pow [of num] by simp

section \<open>Property\<close>

lemma ParseFileName_numbered:
  assumes "suffix = [] \<or> \<not> is_digit (hd suffix)"
  shows "ParseFileName (padded 6 (unat num) @ suffix) =
    (if suffix = str ''.log'' then Some (num, kLogFile)
     else if suffix = str ''.sst'' \<or> suffix = str ''.ldb'' then Some (num, kTableFile)
     else if suffix = str ''.dbtmp'' then Some (num, kTempFile)
     else None)"
proof -
  obtain d ds where d: "padded 6 (unat num) = d # ds" "is_digit d" using padded_digits [of 6 "unat num"] by (cases "padded 6 (unat num)") auto
  have "padded 6 (unat num) @ suffix \<noteq> c # cs" if "\<not> is_digit c" for c cs using d that by auto
  from this [of "of_char (CHR ''C'')"] this [of "of_char (CHR ''L'')"] this [of "of_char (CHR ''M'')"] show ?thesis
    using padded_parse [OF assms, of 6 num]
    by (auto simp: ParseFileName_def Slice_starts_with_iff str_def is_digit_def)
qed


end
