(* ===== verification/Ldb_Version_Edit.thy ===== *)
theory Ldb_Version_Edit
  imports Ldb_Filename Ldb_Write_Batch "HOL-Library.Product_Lexorder" "HOL-Library.Monad_Syntax"
begin

text \<open>
  Version edits, \<open>db/version_edit.cc\<close>: a change of the set of files, as a record in the descriptor file.
\<close>

section \<open>Edits\<close>

definition kNumLevels :: nat where
  "kNumLevels = 7"

record FileMetaData =
  fm_refs :: int
  fm_allowed_seeks :: int
  fm_number :: uint64
  fm_file_size :: uint64
  fm_smallest :: slice
  fm_largest :: slice

definition FileMetaData_new :: FileMetaData where
  "FileMetaData_new = \<lparr>fm_refs = 0, fm_allowed_seeks = 2 ^ 30, fm_number = 0, fm_file_size = 0, fm_smallest = [], fm_largest = []\<rparr>"

record VersionEdit =
  ve_comparator :: "byte list"
  ve_log_number :: uint64
  ve_prev_log_number :: uint64
  ve_next_file_number :: uint64
  ve_last_sequence :: uint64
  ve_has_comparator :: bool
  ve_has_log_number :: bool
  ve_has_prev_log_number :: bool
  ve_has_next_file_number :: bool
  ve_has_last_sequence :: bool
  ve_compact_pointers :: "(nat \<times> slice) list"
  ve_deleted_files :: "(nat \<times> uint64) set"
  ve_new_files :: "(nat \<times> FileMetaData) list"

text \<open>The compaction pointers are kept.\<close>

definition VersionEdit_Clear :: "VersionEdit \<Rightarrow> VersionEdit" where
  "VersionEdit_Clear e =
     e\<lparr>ve_comparator := [], ve_log_number := 0, ve_prev_log_number := 0, ve_last_sequence := 0, ve_next_file_number := 0,
       ve_has_comparator := False, ve_has_log_number := False, ve_has_prev_log_number := False, ve_has_next_file_number := False,
       ve_has_last_sequence := False, ve_deleted_files := {}, ve_new_files := []\<rparr>"

definition VersionEdit_new :: VersionEdit where
  "VersionEdit_new =
     \<lparr>ve_comparator = [], ve_log_number = 0, ve_prev_log_number = 0, ve_next_file_number = 0, ve_last_sequence = 0,
      ve_has_comparator = False, ve_has_log_number = False, ve_has_prev_log_number = False, ve_has_next_file_number = False,
      ve_has_last_sequence = False, ve_compact_pointers = [], ve_deleted_files = {}, ve_new_files = []\<rparr>"

definition SetComparatorName :: "VersionEdit \<Rightarrow> slice \<Rightarrow> VersionEdit" where
  "SetComparatorName e name = e\<lparr>ve_has_comparator := True, ve_comparator := name\<rparr>"

definition SetLogNumber :: "VersionEdit \<Rightarrow> uint64 \<Rightarrow> VersionEdit" where
  "SetLogNumber e num = e\<lparr>ve_has_log_number := True, ve_log_number := num\<rparr>"

definition SetPrevLogNumber :: "VersionEdit \<Rightarrow> uint64 \<Rightarrow> VersionEdit" where
  "SetPrevLogNumber e num = e\<lparr>ve_has_prev_log_number := True, ve_prev_log_number := num\<rparr>"

definition SetNextFile :: "VersionEdit \<Rightarrow> uint64 \<Rightarrow> VersionEdit" where
  "SetNextFile e num = e\<lparr>ve_has_next_file_number := True, ve_next_file_number := num\<rparr>"

definition SetLastSequence :: "VersionEdit \<Rightarrow> uint64 \<Rightarrow> VersionEdit" where
  "SetLastSequence e sq = e\<lparr>ve_has_last_sequence := True, ve_last_sequence := sq\<rparr>"

definition SetCompactPointer :: "VersionEdit \<Rightarrow> nat \<Rightarrow> slice \<Rightarrow> VersionEdit" where
  "SetCompactPointer e level key = e\<lparr>ve_compact_pointers := ve_compact_pointers e @ [(level, key)]\<rparr>"

definition AddFile :: "VersionEdit \<Rightarrow> nat \<Rightarrow> uint64 \<Rightarrow> uint64 \<Rightarrow> slice \<Rightarrow> slice \<Rightarrow> VersionEdit" where
  "AddFile e level file file_size smallest largest =
     e\<lparr>ve_new_files := ve_new_files e @ [(level, FileMetaData_new\<lparr>fm_number := file, fm_file_size := file_size,
         fm_smallest := smallest, fm_largest := largest\<rparr>)]\<rparr>"

definition DeleteFile :: "VersionEdit \<Rightarrow> nat \<Rightarrow> uint64 \<Rightarrow> VersionEdit" where
  "DeleteFile e level file = e\<lparr>ve_deleted_files := insert (level, file) (ve_deleted_files e)\<rparr>"

section \<open>The record\<close>

datatype Tag = kComparator | kLogNumber | kNextFileNumber | kLastSequence | kCompactPointer | kDeletedFile | kNewFile | kPrevLogNumber

fun Tag_num :: "Tag \<Rightarrow> uint32" where
  "Tag_num kComparator = 1"
| "Tag_num kLogNumber = 2"
| "Tag_num kNextFileNumber = 3"
| "Tag_num kLastSequence = 4"
| "Tag_num kCompactPointer = 5"
| "Tag_num kDeletedFile = 6"
| "Tag_num kNewFile = 7"
| "Tag_num kPrevLogNumber = 9"

text \<open>The deleted files are a set, which is visited in ascending order.\<close>

definition VersionEdit_EncodeTo :: "VersionEdit \<Rightarrow> byte list \<Rightarrow> byte list" where
  "VersionEdit_EncodeTo e dst =
     (let dst = (if ve_has_comparator e then PutLengthPrefixedSlice (PutVarint32 dst (Tag_num kComparator)) (ve_comparator e) else dst);
          dst = (if ve_has_log_number e then PutVarint64 (PutVarint32 dst (Tag_num kLogNumber)) (ve_log_number e) else dst);
          dst = (if ve_has_prev_log_number e then PutVarint64 (PutVarint32 dst (Tag_num kPrevLogNumber)) (ve_prev_log_number e) else dst);
          dst = (if ve_has_next_file_number e then PutVarint64 (PutVarint32 dst (Tag_num kNextFileNumber)) (ve_next_file_number e) else dst);
          dst = (if ve_has_last_sequence e then PutVarint64 (PutVarint32 dst (Tag_num kLastSequence)) (ve_last_sequence e) else dst);
          dst = foldl (\<lambda>dst (level, key).
                  PutLengthPrefixedSlice (PutVarint32 (PutVarint32 dst (Tag_num kCompactPointer)) (of_nat level)) key)
                  dst (ve_compact_pointers e);
          dst = foldl (\<lambda>dst (level, number).
                  PutVarint64 (PutVarint32 (PutVarint32 dst (Tag_num kDeletedFile)) (of_nat level)) number)
                  dst (sorted_list_of_set (ve_deleted_files e))
      in foldl (\<lambda>dst (level, f).
           PutLengthPrefixedSlice (PutLengthPrefixedSlice (PutVarint64 (PutVarint64 (PutVarint32 (PutVarint32 dst (Tag_num kNewFile))
             (of_nat level)) (fm_number f)) (fm_file_size f)) (fm_smallest f)) (fm_largest f))
           dst (ve_new_files e))"

definition GetInternalKey :: "slice \<Rightarrow> (slice \<times> slice) option" where
  "GetInternalKey input = GetLengthPrefixedSlice input"

definition GetLevel :: "slice \<Rightarrow> (nat \<times> slice) option" where
  "GetLevel input =
     (case GetVarint32 input of
        Some (v, input) \<Rightarrow> if unat v < kNumLevels then Some (unat v, input) else None
      | None \<Rightarrow> None)"

text \<open>One round of the loop behind the tag: the edit and the rest of the input, or the message.\<close>

definition decode_field :: "uint32 \<Rightarrow> VersionEdit \<Rightarrow> slice \<Rightarrow> byte list + VersionEdit \<times> slice" where
  "decode_field tag e input =
     (if tag = Tag_num kComparator then
        (case GetLengthPrefixedSlice input of
           Some (s, input) \<Rightarrow> Inr (e\<lparr>ve_comparator := s, ve_has_comparator := True\<rparr>, input)
         | None \<Rightarrow> Inl (str ''comparator name''))
      else if tag = Tag_num kLogNumber then
        (case GetVarint64 input of
           Some (v, input) \<Rightarrow> Inr (e\<lparr>ve_log_number := v, ve_has_log_number := True\<rparr>, input)
         | None \<Rightarrow> Inl (str ''log number''))
      else if tag = Tag_num kPrevLogNumber then
        (case GetVarint64 input of
           Some (v, input) \<Rightarrow> Inr (e\<lparr>ve_prev_log_number := v, ve_has_prev_log_number := True\<rparr>, input)
         | None \<Rightarrow> Inl (str ''previous log number''))
      else if tag = Tag_num kNextFileNumber then
        (case GetVarint64 input of
           Some (v, input) \<Rightarrow> Inr (e\<lparr>ve_next_file_number := v, ve_has_next_file_number := True\<rparr>, input)
         | None \<Rightarrow> Inl (str ''next file number''))
      else if tag = Tag_num kLastSequence then
        (case GetVarint64 input of
           Some (v, input) \<Rightarrow> Inr (e\<lparr>ve_last_sequence := v, ve_has_last_sequence := True\<rparr>, input)
         | None \<Rightarrow> Inl (str ''last sequence number''))
      else if tag = Tag_num kCompactPointer then
        (case do { (level, input) \<leftarrow> GetLevel input; (key, input) \<leftarrow> GetInternalKey input; Some (level, key, input) } of
           Some (level, key, input) \<Rightarrow> Inr (e\<lparr>ve_compact_pointers := ve_compact_pointers e @ [(level, key)]\<rparr>, input)
         | None \<Rightarrow> Inl (str ''compaction pointer''))
      else if tag = Tag_num kDeletedFile then
        (case do { (level, input) \<leftarrow> GetLevel input; (number, input) \<leftarrow> GetVarint64 input; Some (level, number, input) } of
           Some (level, number, input) \<Rightarrow> Inr (e\<lparr>ve_deleted_files := insert (level, number) (ve_deleted_files e)\<rparr>, input)
         | None \<Rightarrow> Inl (str ''deleted file''))
      else if tag = Tag_num kNewFile then
        (case do {
            (level, input) \<leftarrow> GetLevel input;
            (number, input) \<leftarrow> GetVarint64 input;
            (file_size, input) \<leftarrow> GetVarint64 input;
            (smallest, input) \<leftarrow> GetInternalKey input;
            (largest, input) \<leftarrow> GetInternalKey input;
            Some (level, FileMetaData_new\<lparr>fm_number := number, fm_file_size := file_size, fm_smallest := smallest, fm_largest := largest\<rparr>, input)
          } of
           Some (level, f, input) \<Rightarrow> Inr (e\<lparr>ve_new_files := ve_new_files e @ [(level, f)]\<rparr>, input)
         | None \<Rightarrow> Inl (str ''new-file entry''))
      else Inl (str ''unknown tag''))"

lemma GetVarint64Ptr_loop_shorter: "GetVarint64Ptr_loop shift result p = Some (v, r) \<Longrightarrow> length r < length p"
proof (induction shift result p rule: GetVarint64Ptr_loop.induct)
  case (1 shift result p)
  then show ?case
    by (subst (asm) (2) GetVarint64Ptr_loop.simps) (cases p, auto simp: Let_def split: if_splits)
qed

lemma GetVarint64_shorter: "GetVarint64 p = Some (w, r) \<Longrightarrow> length r < length p"
  using GetVarint64Ptr_loop_shorter by (auto simp: GetVarint64_def GetVarint64Ptr_def)

lemma GetLevel_shorter: "GetLevel p = Some (l, r) \<Longrightarrow> length r < length p"
  by (auto simp: GetLevel_def split: option.splits if_splits dest: GetVarint32_shorter)

lemma decode_field_shorter: "decode_field tag e input = Inr (e', input') \<Longrightarrow> length input' \<le> length input"
  unfolding decode_field_def GetInternalKey_def
  by (fastforce split: if_splits option.splits simp: bind_eq_Some_conv
      dest: GetVarint64_shorter GetLevel_shorter GetLengthPrefixedSlice_shorter)

text \<open>The loop: the message, if there is one, the edit and the rest of the input.\<close>

function DecodeFrom_loop :: "VersionEdit \<Rightarrow> slice \<Rightarrow> byte list option \<times> VersionEdit \<times> slice" where
  "DecodeFrom_loop e input =
     (case GetVarint32 input of
        None \<Rightarrow> (None, e, input)
      | Some (tag, input) \<Rightarrow>
          (case decode_field tag e input of
             Inl msg \<Rightarrow> (Some msg, e, input)
           | Inr (e, input) \<Rightarrow> DecodeFrom_loop e input))"
  by auto
termination
proof (relation "measure (\<lambda>(e, input). length input)")
  show "wf (measure (\<lambda>(e :: VersionEdit, input :: slice). length input))" by simp
  fix e :: VersionEdit and input a tag input1 b e' input2
  assume "GetVarint32 input = Some a" "(tag, input1) = a" "decode_field tag e input1 = Inr b" "(e', input2) = b"
  then show "((e', input2), (e, input)) \<in> measure (\<lambda>(e, input). length input)"
    using GetVarint32_shorter [of input tag input1] decode_field_shorter [of tag e input1 e' input2] by auto
qed

declare DecodeFrom_loop.simps [simp del]

definition VersionEdit_DecodeFrom :: "VersionEdit \<Rightarrow> slice \<Rightarrow> status \<times> VersionEdit" where
  "VersionEdit_DecodeFrom e src =
     (let (msg, e, input) = DecodeFrom_loop (VersionEdit_Clear e) src;
          msg = (if msg = None \<and> input \<noteq> [] then Some (str ''invalid tag'') else msg)
      in (case msg of None \<Rightarrow> Status_OK | Some m \<Rightarrow> Status_Corruption (str ''VersionEdit'') m, e))"

section \<open>Printing\<close>

definition ParsedInternalKey_DebugString :: "ParsedInternalKey \<Rightarrow> byte list" where
  "ParsedInternalKey_DebugString key =
     [39] @ EscapeString (pk_user_key key) @ [39] @ str '' @ '' @ decimal_text (unat (pk_sequence key)) @ str '' : '' @
     decimal_text (unat (ValueType_num (pk_type key)))"

definition InternalKey_DebugString :: "slice \<Rightarrow> byte list" where
  "InternalKey_DebugString rep =
     (case ParseInternalKey rep of
        Some parsed \<Rightarrow> ParsedInternalKey_DebugString parsed
      | None \<Rightarrow> str ''(bad)'' @ EscapeString rep)"

definition VersionEdit_DebugString :: "VersionEdit \<Rightarrow> byte list" where
  "VersionEdit_DebugString e =
     (let num = (\<lambda>r n. AppendNumberTo r n);
          r = str ''VersionEdit {'';
          r = (if ve_has_comparator e then r @ [10] @ str ''  Comparator: '' @ ve_comparator e else r);
          r = (if ve_has_log_number e then num (r @ [10] @ str ''  LogNumber: '') (ve_log_number e) else r);
          r = (if ve_has_prev_log_number e then num (r @ [10] @ str ''  PrevLogNumber: '') (ve_prev_log_number e) else r);
          r = (if ve_has_next_file_number e then num (r @ [10] @ str ''  NextFile: '') (ve_next_file_number e) else r);
          r = (if ve_has_last_sequence e then num (r @ [10] @ str ''  LastSeq: '') (ve_last_sequence e) else r);
          r = foldl (\<lambda>r (level, key). num (r @ [10] @ str ''  CompactPointer: '') (of_nat level) @ str '' '' @ InternalKey_DebugString key)
                r (ve_compact_pointers e);
          r = foldl (\<lambda>r (level, number). num (num (r @ [10] @ str ''  DeleteFile: '') (of_nat level) @ str '' '') number)
                r (sorted_list_of_set (ve_deleted_files e));
          r = foldl (\<lambda>r (level, f).
                num (num (num (r @ [10] @ str ''  AddFile: '') (of_nat level) @ str '' '') (fm_number f) @ str '' '') (fm_file_size f) @
                str '' '' @ InternalKey_DebugString (fm_smallest f) @ str '' .. '' @ InternalKey_DebugString (fm_largest f))
                r (ve_new_files e)
      in r @ [10] @ str ''}'' @ [10])"

section \<open>Round trip\<close>

lemma GetLevel_put: "level < kNumLevels \<Longrightarrow> GetLevel (EncodeVarint32 (of_nat level) @ rest') = Some (level, rest')"
  by (simp add: GetLevel_def varint32.dec_enc kNumLevels_def unat_of_nat)

lemma loop_field:
  assumes "decode_field (Tag_num t) e (payload @ rest') = Inr (e', rest')"
  shows "DecodeFrom_loop e (EncodeVarint32 (Tag_num t) @ payload @ rest') = DecodeFrom_loop e' rest'"
  using assms by (subst DecodeFrom_loop.simps) (simp add: varint32.dec_enc)

lemma slice_decode: "length s < 2 ^ 32 \<Longrightarrow> GetLengthPrefixedSlice (PutLengthPrefixedSlice [] s @ rest') = Some (s, rest')"
  by (rule slice.dec_enc)

definition pointer_bytes :: "nat \<times> slice \<Rightarrow> byte list" where
  "pointer_bytes = (\<lambda>(level, key). EncodeVarint32 (Tag_num kCompactPointer) @ EncodeVarint32 (of_nat level) @ PutLengthPrefixedSlice [] key)"

definition deleted_bytes :: "nat \<times> uint64 \<Rightarrow> byte list" where
  "deleted_bytes = (\<lambda>(level, number). EncodeVarint32 (Tag_num kDeletedFile) @ EncodeVarint32 (of_nat level) @ EncodeVarint64 number)"

definition file_bytes :: "nat \<times> FileMetaData \<Rightarrow> byte list" where
  "file_bytes = (\<lambda>(level, f). EncodeVarint32 (Tag_num kNewFile) @ EncodeVarint32 (of_nat level) @ EncodeVarint64 (fm_number f) @
     EncodeVarint64 (fm_file_size f) @ PutLengthPrefixedSlice [] (fm_smallest f) @ PutLengthPrefixedSlice [] (fm_largest f))"

lemma foldl_append_bytes: "(\<And>dst x. f dst x = dst @ g x) \<Longrightarrow> foldl f dst xs = dst @ concat (map g xs)"
  by (induction xs arbitrary: dst) simp_all

lemma EncodeTo_bytes:
  "VersionEdit_EncodeTo e [] =
     (if ve_has_comparator e then EncodeVarint32 (Tag_num kComparator) @ PutLengthPrefixedSlice [] (ve_comparator e) else []) @
     (if ve_has_log_number e then EncodeVarint32 (Tag_num kLogNumber) @ EncodeVarint64 (ve_log_number e) else []) @
     (if ve_has_prev_log_number e then EncodeVarint32 (Tag_num kPrevLogNumber) @ EncodeVarint64 (ve_prev_log_number e) else []) @
     (if ve_has_next_file_number e then EncodeVarint32 (Tag_num kNextFileNumber) @ EncodeVarint64 (ve_next_file_number e) else []) @
     (if ve_has_last_sequence e then EncodeVarint32 (Tag_num kLastSequence) @ EncodeVarint64 (ve_last_sequence e) else []) @
     concat (map pointer_bytes (ve_compact_pointers e)) @ concat (map deleted_bytes (sorted_list_of_set (ve_deleted_files e))) @
     concat (map file_bytes (ve_new_files e))"
proof -
  have p: "(\<lambda>dst (level, key). PutLengthPrefixedSlice (PutVarint32 (PutVarint32 dst (Tag_num kCompactPointer)) (of_nat level)) key) dst x =
      dst @ pointer_bytes x" for dst x
    by (cases x) (simp add: pointer_bytes_def PutVarint32_def PutLengthPrefixedSlice_def)
  have d: "(\<lambda>dst (level, number). PutVarint64 (PutVarint32 (PutVarint32 dst (Tag_num kDeletedFile)) (of_nat level)) number) dst x =
      dst @ deleted_bytes x" for dst x
    by (cases x) (simp add: deleted_bytes_def PutVarint32_def PutVarint64_def)
  have f: "(\<lambda>dst (level, f). PutLengthPrefixedSlice (PutLengthPrefixedSlice (PutVarint64 (PutVarint64 (PutVarint32 (PutVarint32 dst
      (Tag_num kNewFile)) (of_nat level)) (fm_number f)) (fm_file_size f)) (fm_smallest f)) (fm_largest f)) dst x = dst @ file_bytes x" for dst x
    by (cases x) (simp add: file_bytes_def PutVarint32_def PutVarint64_def PutLengthPrefixedSlice_def)
  show ?thesis
    unfolding VersionEdit_EncodeTo_def Let_def foldl_append_bytes [of _ pointer_bytes, OF p] foldl_append_bytes [of _ deleted_bytes, OF d]
      foldl_append_bytes [of _ file_bytes, OF f]
    by (simp add: PutVarint32_def PutVarint64_def PutLengthPrefixedSlice_def)
qed

text \<open>Edits that come from the calls above: what is not set has its default, levels exist, and names and keys have less than 4 GiB.\<close>

definition edit_ok :: "VersionEdit \<Rightarrow> bool" where
  "edit_ok e \<longleftrightarrow>
     (\<not> ve_has_comparator e \<longrightarrow> ve_comparator e = []) \<and> (\<not> ve_has_log_number e \<longrightarrow> ve_log_number e = 0) \<and>
     (\<not> ve_has_prev_log_number e \<longrightarrow> ve_prev_log_number e = 0) \<and> (\<not> ve_has_next_file_number e \<longrightarrow> ve_next_file_number e = 0) \<and>
     (\<not> ve_has_last_sequence e \<longrightarrow> ve_last_sequence e = 0) \<and> length (ve_comparator e) < 2 ^ 32 \<and> finite (ve_deleted_files e) \<and>
     (\<forall>(level, key) \<in> set (ve_compact_pointers e). level < kNumLevels \<and> length key < 2 ^ 32) \<and>
     (\<forall>(level, number) \<in> ve_deleted_files e. level < kNumLevels) \<and>
     (\<forall>(level, f) \<in> set (ve_new_files e). level < kNumLevels \<and> fm_refs f = 0 \<and> fm_allowed_seeks f = 2 ^ 30 \<and>
        length (fm_smallest f) < 2 ^ 32 \<and> length (fm_largest f) < 2 ^ 32)"

lemma edit_ok_calls:
  "edit_ok VersionEdit_new"
  "edit_ok e \<Longrightarrow> length name < 2 ^ 32 \<Longrightarrow> edit_ok (SetComparatorName e name)"
  "edit_ok e \<Longrightarrow> edit_ok (SetLogNumber e num)" "edit_ok e \<Longrightarrow> edit_ok (SetPrevLogNumber e num)"
  "edit_ok e \<Longrightarrow> edit_ok (SetNextFile e num)" "edit_ok e \<Longrightarrow> edit_ok (SetLastSequence e num)"
  "edit_ok e \<Longrightarrow> level < kNumLevels \<Longrightarrow> length key < 2 ^ 32 \<Longrightarrow> edit_ok (SetCompactPointer e level key)"
  "edit_ok e \<Longrightarrow> level < kNumLevels \<Longrightarrow> length smallest < 2 ^ 32 \<Longrightarrow> length largest < 2 ^ 32 \<Longrightarrow>
    edit_ok (AddFile e level file file_size smallest largest)"
  "edit_ok e \<Longrightarrow> level < kNumLevels \<Longrightarrow> edit_ok (DeleteFile e level file)"
  by (auto simp: edit_ok_def VersionEdit_new_def SetComparatorName_def SetLogNumber_def SetPrevLogNumber_def SetNextFile_def SetLastSequence_def
      SetCompactPointer_def AddFile_def DeleteFile_def FileMetaData_new_def)

lemma loop_pointers:
  "\<forall>(level, key) \<in> set ps. level < kNumLevels \<and> length key < 2 ^ 32 \<Longrightarrow>
   DecodeFrom_loop e (concat (map pointer_bytes ps) @ rest') = DecodeFrom_loop (e\<lparr>ve_compact_pointers := ve_compact_pointers e @ ps\<rparr>) rest'"
proof (induction ps arbitrary: e)
  case (Cons p ps)
  obtain level key where p: "p = (level, key)" by fastforce
  have "decode_field (Tag_num kCompactPointer) e ((EncodeVarint32 (of_nat level) @ PutLengthPrefixedSlice [] key) @ r) =
      Inr (e\<lparr>ve_compact_pointers := ve_compact_pointers e @ [(level, key)]\<rparr>, r)" for r
    using Cons.prems by (simp add: p decode_field_def GetLevel_put GetInternalKey_def slice_decode)
  from loop_field [OF this] Cons show ?case by (simp add: p pointer_bytes_def)
qed simp

lemma loop_deleted:
  "\<forall>(level, number) \<in> set ds. level < kNumLevels \<Longrightarrow>
   DecodeFrom_loop e (concat (map deleted_bytes ds) @ rest') = DecodeFrom_loop (e\<lparr>ve_deleted_files := ve_deleted_files e \<union> set ds\<rparr>) rest'"
proof (induction ds arbitrary: e)
  case (Cons d ds)
  obtain level number where d: "d = (level, number)" by fastforce
  have "decode_field (Tag_num kDeletedFile) e ((EncodeVarint32 (of_nat level) @ EncodeVarint64 number) @ r) =
      Inr (e\<lparr>ve_deleted_files := insert (level, number) (ve_deleted_files e)\<rparr>, r)" for r
    using Cons.prems by (simp add: d decode_field_def GetLevel_put varint64.dec_enc)
  from loop_field [OF this] Cons show ?case by (simp add: d deleted_bytes_def insert_commute)
qed simp

lemma loop_files:
  "\<forall>(level, f) \<in> set fs. level < kNumLevels \<and> fm_refs f = 0 \<and> fm_allowed_seeks f = 2 ^ 30 \<and>
     length (fm_smallest f) < 2 ^ 32 \<and> length (fm_largest f) < 2 ^ 32 \<Longrightarrow>
   DecodeFrom_loop e (concat (map file_bytes fs) @ rest') = DecodeFrom_loop (e\<lparr>ve_new_files := ve_new_files e @ fs\<rparr>) rest'"
proof (induction fs arbitrary: e)
  case (Cons x fs)
  obtain level f where x: "x = (level, f)" by fastforce
  have f: "FileMetaData_new\<lparr>fm_number := fm_number f, fm_file_size := fm_file_size f, fm_smallest := fm_smallest f, fm_largest := fm_largest f\<rparr> = f"
    using Cons.prems by (simp add: x FileMetaData_new_def)
  have "decode_field (Tag_num kNewFile) e ((EncodeVarint32 (of_nat level) @ EncodeVarint64 (fm_number f) @
      EncodeVarint64 (fm_file_size f) @ PutLengthPrefixedSlice [] (fm_smallest f) @ PutLengthPrefixedSlice [] (fm_largest f)) @ r) =
      Inr (e\<lparr>ve_new_files := ve_new_files e @ [(level, f)]\<rparr>, r)" for r
    using Cons.prems by (simp add: x decode_field_def GetLevel_put GetInternalKey_def slice_decode varint64.dec_enc f)
  from loop_field [OF this] Cons show ?case by (simp add: x file_bytes_def)
qed simp

lemma loop_numbers:
  "DecodeFrom_loop e (EncodeVarint32 (Tag_num kLogNumber) @ EncodeVarint64 v @ r) = DecodeFrom_loop (e\<lparr>ve_log_number := v, ve_has_log_number := True\<rparr>) r"
  "DecodeFrom_loop e (EncodeVarint32 (Tag_num kPrevLogNumber) @ EncodeVarint64 v @ r) =
    DecodeFrom_loop (e\<lparr>ve_prev_log_number := v, ve_has_prev_log_number := True\<rparr>) r"
  "DecodeFrom_loop e (EncodeVarint32 (Tag_num kNextFileNumber) @ EncodeVarint64 v @ r) =
    DecodeFrom_loop (e\<lparr>ve_next_file_number := v, ve_has_next_file_number := True\<rparr>) r"
  "DecodeFrom_loop e (EncodeVarint32 (Tag_num kLastSequence) @ EncodeVarint64 v @ r) =
    DecodeFrom_loop (e\<lparr>ve_last_sequence := v, ve_has_last_sequence := True\<rparr>) r"
  by (rule loop_field, simp add: decode_field_def varint64.dec_enc)+

lemma loop_comparator:
  "length c < 2 ^ 32 \<Longrightarrow> DecodeFrom_loop e (EncodeVarint32 (Tag_num kComparator) @ PutLengthPrefixedSlice [] c @ r) =
     DecodeFrom_loop (e\<lparr>ve_comparator := c, ve_has_comparator := True\<rparr>) r"
  by (rule loop_field) (simp add: decode_field_def slice_decode)



end
